(* ===== verification/Cyc_Prelude.thy ===== *)
theory Cyc_Prelude
  imports Main "HOL-Library.Word" "HOL-Library.Signed_Division"
begin

text \<open>
  Shared base of the development.

  \<^item> C integers: a C \<open>int\<close> is an \<open>int\<close>; where the code converts a wider value to
    \<open>int\<close> the conversion \<open>int32\<close> (two's complement, 32 bits) is written out. C's
    truncating \<open>/\<close> and \<open>%\<close> are \<open>sdiv\<close> and \<open>smod\<close>.
  \<^item> Byte buffers: \<open>bslice\<close> is a read of a range, \<open>patch\<close> a \<open>memcpy\<close> into one.
  \<^item> Little-endian integers and arrays of \<open>int\<close>.
  \<^item> The interface \<open>codec\<close>: what it means that a C struct is laid out as bytes
    and read back through a cast.
\<close>

named_theorems buf_simps \<open>reading and writing ranges of byte buffers\<close>
named_theorems codec_simps \<open>encoding and decoding of C values\<close>

type_synonym byte = "8 word"
type_synonym bytes = "byte list"

section \<open>C integers\<close>

definition int32 :: "int \<Rightarrow> int" where
  "int32 x = (x + 2 ^ 31) mod 2 ^ 32 - 2 ^ 31"

definition is_int32 :: "int \<Rightarrow> bool" where
  "is_int32 x \<longleftrightarrow> - (2 ^ 31) \<le> x \<and> x < 2 ^ 31"

lemma int32_id [simp]: "is_int32 x \<Longrightarrow> int32 x = x"
  by (simp add: is_int32_def int32_def)

lemma is_int32_int32 [simp]: "is_int32 (int32 x)"
proof -
  have "0 \<le> (x + 2 ^ 31) mod 2 ^ 32" and "(x + 2 ^ 31) mod 2 ^ 32 < (2::int) ^ 32"
    by simp_all
  then show ?thesis by (simp add: is_int32_def int32_def)
qed

lemma int32_mod: "int32 (x mod 2 ^ 32) = int32 x"
  by (simp add: int32_def mod_add_left_eq)

lemma mod_int32: "int32 x mod 2 ^ 32 = x mod 2 ^ 32"
proof -
  have "int32 x mod 2 ^ 32 = ((x + 2 ^ 31) mod 2 ^ 32 - 2 ^ 31) mod 2 ^ 32"
    by (simp only: int32_def)
  also have "\<dots> = (x + 2 ^ 31 - 2 ^ 31) mod 2 ^ 32"
    by (rule mod_diff_left_eq)
  finally show ?thesis by simp
qed

text \<open>On the non-negative operands that page arithmetic uses, C division is \<open>div\<close> and \<open>mod\<close>.\<close>

lemma sdiv_nonneg: "0 \<le> (a::int) \<Longrightarrow> 0 < b \<Longrightarrow> a sdiv b = a div b"
  by (cases "a = 0") (simp_all add: signed_divide_int_def)

lemma smod_nonneg: "0 \<le> (a::int) \<Longrightarrow> 0 < b \<Longrightarrow> a smod b = a mod b"
  by (cases "a = 0") (simp_all add: signed_modulo_int_def sdiv_nonneg minus_div_mult_eq_mod)

section \<open>Byte buffers\<close>

definition bslice :: "nat \<Rightarrow> nat \<Rightarrow> 'a list \<Rightarrow> 'a list" where
  "bslice off n bs = take n (drop off bs)"

definition patch :: "nat \<Rightarrow> 'a list \<Rightarrow> 'a list \<Rightarrow> 'a list" where
  "patch off new bs = take off bs @ new @ drop (off + length new) bs"

lemma length_bslice [buf_simps]: "off + n \<le> length bs \<Longrightarrow> length (bslice off n bs) = n"
  by (simp add: bslice_def)

lemma length_patch [buf_simps]:
  "off + length new \<le> length bs \<Longrightarrow> length (patch off new bs) = length bs"
  by (simp add: patch_def)

lemma bslice_patch_same [buf_simps]:
  "off + length new \<le> length bs \<Longrightarrow> n = length new \<Longrightarrow> bslice off n (patch off new bs) = new"
  by (simp add: bslice_def patch_def)

lemma bslice_patch_before [buf_simps]:
  "o' + n \<le> off \<Longrightarrow> off \<le> length bs \<Longrightarrow> bslice o' n (patch off new bs) = bslice o' n bs"
proof -
  assume a: "o' + n \<le> off" "off \<le> length bs"
  have "bslice o' n (patch off new bs) = take n (drop o' (take off bs))"
    using a by (simp add: bslice_def patch_def)
  also have "\<dots> = bslice o' n bs"
    using a by (simp add: bslice_def drop_take min_def)
  finally show ?thesis .
qed

lemma bslice_patch_after [buf_simps]:
  assumes "off + length new \<le> o'" "off \<le> length bs"
  shows "bslice o' n (patch off new bs) = bslice o' n bs"
proof -
  have "drop o' (patch off new bs) = drop (o' - off - length new) (drop (off + length new) bs)"
    using assms by (simp add: patch_def drop_take)
  also have "\<dots> = drop o' bs"
    using assms by (simp only: drop_drop) (rule arg_cong2 [where f = drop], simp_all)
  finally show ?thesis by (simp add: bslice_def)
qed

lemma bslice_bslice [buf_simps]:
  "a + n \<le> m \<Longrightarrow> bslice a n (bslice b m bs) = bslice (b + a) n bs"
  by (simp add: bslice_def drop_take min_def add.commute)

lemma patch_bslice_eq:
  assumes "b + m \<le> length bs" "a + length new \<le> m"
  shows "bslice b m (patch (b + a) new bs) = patch a new (bslice b m bs)"
proof (rule nth_equalityI)
  show "length (bslice b m (patch (b + a) new bs)) = length (patch a new (bslice b m bs))"
    using assms by (simp add: length_patch length_bslice)
next
  fix i assume "i < length (bslice b m (patch (b + a) new bs))"
  then have i: "i < m" using assms by (simp add: length_patch length_bslice)
  have d: "drop c (take m (drop b bs)) ! j = bs ! (b + (c + j))" if "c + j < m" for c j
    using that assms by (simp add: add.assoc)
  from i assms show "bslice b m (patch (b + a) new bs) ! i = patch a new (bslice b m bs) ! i"
    by (auto simp: bslice_def patch_def nth_append min_def d)
qed

lemma bslice_append1 [buf_simps]: "n \<le> length xs \<Longrightarrow> bslice 0 n (xs @ ys) = take n xs"
  by (simp add: bslice_def)

lemma bslice_append2 [buf_simps]:
  "length xs \<le> off \<Longrightarrow> bslice off n (xs @ ys) = bslice (off - length xs) n ys"
  by (simp add: bslice_def)

lemma bslice_append_left [buf_simps]:
  "off + n \<le> length xs \<Longrightarrow> bslice off n (xs @ ys) = bslice off n xs"
  by (simp add: bslice_def)

lemma bslice_replicate [buf_simps]:
  "off + n \<le> m \<Longrightarrow> bslice off n (replicate m z) = replicate n z"
  by (simp add: bslice_def min_def)

lemma bslice_all [buf_simps]: "length bs = n \<Longrightarrow> bslice 0 n bs = bs"
  by (simp add: bslice_def)

lemma list5_nth: "length xs = 5 \<Longrightarrow> [xs ! 0, xs ! 1, xs ! 2, xs ! 3, xs ! 4] = xs"
  by (auto simp: eval_nat_numeral length_Suc_conv)

section \<open>Little-endian integers\<close>

fun enc_le :: "nat \<Rightarrow> int \<Rightarrow> bytes" where
  "enc_le 0 x = []"
| "enc_le (Suc n) x = word_of_int x # enc_le n (x div 256)"

fun dec_le :: "bytes \<Rightarrow> int" where
  "dec_le [] = 0"
| "dec_le (b # bs) = uint b + 256 * dec_le bs"

lemma length_enc_le [simp]: "length (enc_le n x) = n"
  by (induction n arbitrary: x) auto

lemma dec_enc_le: "dec_le (enc_le n x) = x mod 256 ^ n"
proof (induction n arbitrary: x)
  case 0
  then show ?case by simp
next
  case (Suc n)
  have "dec_le (enc_le (Suc n) x) = x mod 256 + 256 * ((x div 256) mod 256 ^ n)"
    by (simp add: Suc.IH uint_word_of_int)
  also have "\<dots> = x mod (256 * 256 ^ n)"
    by (subst zmod_zmult2_eq) simp_all
  finally show ?case by simp
qed

lemma dec_le_bounds: "0 \<le> dec_le bs \<and> dec_le bs < 256 ^ length bs"
proof (induction bs)
  case Nil
  then show ?case by simp
next
  case (Cons b bs)
  have "uint b < 256" using uint_lt2p [of b] by simp
  moreover have "dec_le bs + 1 \<le> 256 ^ length bs" using Cons.IH by linarith
  ultimately have "dec_le (b # bs) < 256 * 256 ^ length bs" by simp
  with Cons.IH show ?case by simp
qed

lemma enc_dec_le: "enc_le (length bs) (dec_le bs) = bs"
proof (induction bs)
  case Nil
  then show ?case by simp
next
  case (Cons b bs)
  have b: "uint b < 256" "0 \<le> uint b" using uint_lt2p [of b] by simp_all
  have "word_of_int (uint b + 256 * dec_le bs) = b"
  proof (rule word_uint_eqI)
    have "(uint b + 256 * dec_le bs) mod 256 = uint b"
      using b by simp
    then show "uint (word_of_int (uint b + 256 * dec_le bs) :: byte) = uint b"
      by (simp only: uint_word_of_int) simp
  qed
  moreover have "(uint b + 256 * dec_le bs) div 256 = dec_le bs"
    using b by simp
  ultimately show ?case by (simp add: Cons.IH)
qed

definition enc32 :: "int \<Rightarrow> bytes" where
  "enc32 x = enc_le 4 x"

definition dec32 :: "bytes \<Rightarrow> int" where
  "dec32 bs = int32 (dec_le bs)"

lemma length_enc32 [simp]: "length (enc32 x) = 4"
  by (simp add: enc32_def)

lemma dec_enc32 [codec_simps]: "is_int32 x \<Longrightarrow> dec32 (enc32 x) = x"
  using int32_mod [of x] by (simp add: dec32_def enc32_def dec_enc_le)

lemma is_int32_dec32 [simp]: "is_int32 (dec32 bs)"
  by (simp add: dec32_def)

lemma enc_le_mod: "enc_le n (x mod 256 ^ n) = enc_le n x"
proof -
  have "enc_le n x = enc_le (length (enc_le n x)) (dec_le (enc_le n x))"
    by (simp only: enc_dec_le)
  then show ?thesis by (simp add: dec_enc_le)
qed

lemma enc_dec32: "length bs = 4 \<Longrightarrow> enc32 (dec32 bs) = bs"
proof -
  assume len: "length bs = 4"
  have "enc32 (dec32 bs) = enc_le 4 (int32 (dec_le bs) mod 2 ^ 32)"
    using enc_le_mod [of 4 "int32 (dec_le bs)"] by (simp add: enc32_def dec32_def)
  also have "\<dots> = enc_le 4 (dec_le bs mod 2 ^ 32)" by (simp only: mod_int32)
  also have "\<dots> = enc_le 4 (dec_le bs)"
    using enc_le_mod [of 4 "dec_le bs"] by simp
  also have "\<dots> = bs" using enc_dec_le [of bs] len by simp
  finally show ?thesis .
qed

text \<open>Arrays of \<open>int\<close>: the layout of every all-\<open>int\<close> struct and of \<open>page_addr map[]\<close>.\<close>

definition enc_ints :: "int list \<Rightarrow> bytes" where
  "enc_ints xs = concat (map enc32 xs)"

fun dec_ints :: "nat \<Rightarrow> bytes \<Rightarrow> int list" where
  "dec_ints 0 bs = []"
| "dec_ints (Suc n) bs = dec32 (take 4 bs) # dec_ints n (drop 4 bs)"

lemma enc_ints_simps:
  "enc_ints [] = []" "enc_ints (x # xs) = enc32 x @ enc_ints xs"
  by (simp_all add: enc_ints_def)

lemma enc_ints_append: "enc_ints (xs @ ys) = enc_ints xs @ enc_ints ys"
  by (simp add: enc_ints_def)

lemma length_enc_ints [simp]: "length (enc_ints xs) = 4 * length xs"
  by (induction xs) (auto simp: enc_ints_simps)

lemma length_dec_ints [simp]: "length (dec_ints n bs) = n"
  by (induction n bs rule: dec_ints.induct) auto

lemma dec_enc_ints [codec_simps]:
  "list_all is_int32 xs \<Longrightarrow> length xs = n \<Longrightarrow> dec_ints n (enc_ints xs @ rest) = xs"
  by (induction xs arbitrary: n) (auto simp: dec_enc32 enc_ints_simps)

lemma is_int32_dec_ints: "list_all is_int32 (dec_ints n bs)"
  by (induction n bs rule: dec_ints.induct) auto

lemma enc_dec_ints: "length bs = 4 * n \<Longrightarrow> enc_ints (dec_ints n bs) = bs"
proof (induction n bs rule: dec_ints.induct)
  case (1 bs)
  then show ?case by (simp add: enc_ints_simps)
next
  case (2 n bs)
  then have "length (take 4 bs) = 4" and "length (drop 4 bs) = 4 * n" by simp_all
  with "2.IH" show ?case by (simp add: enc_dec32 enc_ints_simps)
qed

lemma dec_ints_nth: "i < n \<Longrightarrow> dec_ints n bs ! i = dec32 (bslice (4 * i) 4 bs)"
proof (induction n bs arbitrary: i rule: dec_ints.induct)
  case (1 bs)
  then show ?case by simp
next
  case (2 n bs)
  then show ?case by (cases i) (auto simp: bslice_def add.commute)
qed

lemma dec_ints_take: "4 * n \<le> m \<Longrightarrow> dec_ints n (take m bs) = dec_ints n bs"
  by (rule nth_equalityI) (auto simp: dec_ints_nth bslice_def drop_take min_def)

lemma dec_le_replicate0 [simp]: "dec_le (replicate n 0) = 0"
  by (induction n) auto

lemma dec32_zeros [simp]: "dec32 (replicate n 0) = 0"
  by (simp add: dec32_def is_int32_def)

lemma dec_ints_zeros: "4 * n \<le> m \<Longrightarrow> dec_ints n (replicate m 0) = replicate n 0"
  by (rule nth_equalityI) (auto simp: dec_ints_nth bslice_replicate)

section \<open>The interface of a struct layout\<close>

text \<open>
  A struct of the code is written to memory with \<open>enc\<close> (\<open>sz\<close> bytes, its \<open>sizeof\<close>)
  and read back through a pointer cast with \<open>dec\<close>, which looks at the first \<open>sz\<close> bytes
  of the buffer and ignores the rest. \<open>ok\<close> says that the field values fit their C types.
\<close>

locale codec =
  fixes enc :: "'a \<Rightarrow> bytes"
    and dec :: "bytes \<Rightarrow> 'a"
    and sz :: nat
    and ok :: "'a \<Rightarrow> bool"
  assumes length_enc: "ok x \<Longrightarrow> length (enc x) = sz"
    and dec_enc_app: "ok x \<Longrightarrow> dec (enc x @ rest) = x"
begin

lemma dec_enc: "ok x \<Longrightarrow> dec (enc x) = x"
  using dec_enc_app [of x "[]"] by simp

lemma enc_inj: "ok x \<Longrightarrow> ok y \<Longrightarrow> enc x = enc y \<Longrightarrow> x = y"
  using dec_enc by metis

lemma dec_patch0: "ok x \<Longrightarrow> sz \<le> length bs \<Longrightarrow> dec (patch 0 (enc x) bs) = x"
  by (simp add: patch_def dec_enc_app)

lemma dec_slice_patch:
  "ok x \<Longrightarrow> off + sz \<le> length bs \<Longrightarrow> dec (bslice off sz (patch off (enc x) bs)) = x"
  by (simp add: bslice_patch_same length_enc dec_enc)

end

text \<open>A layout without padding: every buffer of the right size is the image of some value.\<close>

locale exact_codec = codec +
  assumes ok_dec: "length bs = sz \<Longrightarrow> ok (dec bs)"
    and enc_dec: "length bs = sz \<Longrightarrow> enc (dec bs) = bs"
begin

lemma dec_inj: "length bs = sz \<Longrightarrow> length cs = sz \<Longrightarrow> dec bs = dec cs \<Longrightarrow> bs = cs"
  using enc_dec by metis

end

interpretation c_int: exact_codec enc32 "\<lambda>bs. dec32 (take 4 bs)" 4 is_int32
  by unfold_locales (simp_all add: dec_enc32 enc_dec32)

end
