(* ===== verification/Disk_Formats.thy ===== *)
theory Disk_Formats
  imports Cyc_Prelude
begin

text \<open>
  The data the file system keeps on the virtual NAND and in memory
  (\<open>example/loggingDiskFormats.h\<close>, \<open>example/fuseLogging.h\<close>), each on-disk struct with
  its byte layout on the x86-64 ABI the program is built for: \<open>int\<close> and \<open>page_addr\<close> are 4
  bytes little-endian, \<open>long\<close>, \<open>loff_t\<close> and the two halves of a \<open>timespec\<close> 8 bytes.
  Padding bytes are written as zero; no code reads them, except that the padding at the end
  of a page (field \<open>ppad\<close>) is kept, because \<open>eraseNAND\<close> reads bytes there.
  Every layout is an interpretation of \<open>codec\<close>.
\<close>

section \<open>Constants\<close>

abbreviation (input) BLOCKSIZE :: int where "BLOCKSIZE \<equiv> 16"
abbreviation (input) PAGEDATASIZE :: nat where "PAGEDATASIZE \<equiv> 1024"

text \<open>\<open>sizeof\<close> of \<open>struct fullPage\<close>, \<open>struct block\<close>, \<open>struct nandFeatures\<close>.\<close>

abbreviation (input) sizeof_fullPage :: nat where "sizeof_fullPage \<equiv> 1048"
abbreviation (input) sizeof_block :: nat where "sizeof_block \<equiv> 16776"
abbreviation (input) sizeof_nandFeatures :: nat where "sizeof_nandFeatures \<equiv> 8"

definition PTYPE_ERASED :: byte where "PTYPE_ERASED = 0"
definition PTYPE_SUPER :: byte where "PTYPE_SUPER = 1"
definition PTYPE_DATA :: byte where "PTYPE_DATA = 2"
definition PTYPE_INODE :: byte where "PTYPE_INODE = 3"
definition PTYPE_ADDRMAP :: byte where "PTYPE_ADDRMAP = 4"
definition PTYPE_NEXTLINK :: byte where "PTYPE_NEXTLINK = 5"

definition LTYPE_FILES :: "16 word" where "LTYPE_FILES = 1"

section \<open>Unsigned integers of the ABI\<close>

definition enc_word :: "'a::len word \<Rightarrow> bytes" where
  "enc_word w = enc_le (LENGTH('a) div 8) (uint w)"

definition dec_word :: "bytes \<Rightarrow> 'a::len word" where
  "dec_word bs = word_of_int (dec_le (take (LENGTH('a) div 8) bs))"

lemma length_enc_word [simp]: "length (enc_word (w :: 'a::len word)) = LENGTH('a) div 8"
  by (simp add: enc_word_def)

lemma dec_enc_word [codec_simps]:
  fixes w :: "'a::len word"
  assumes "8 dvd LENGTH('a)"
  shows "dec_word (enc_word w @ rest) = w"
proof -
  from assms obtain k where k: "LENGTH('a) = 8 * k" ..
  have "(256::int) ^ k = (2 ^ 8) ^ k" by simp
  also have "\<dots> = 2 ^ LENGTH('a)" by (simp only: k power_mult)
  finally have "(256::int) ^ (LENGTH('a) div 8) = 2 ^ LENGTH('a)" using k by simp
  then show ?thesis
    by (simp add: dec_word_def enc_word_def dec_enc_le)
qed

section \<open>NAND features and pages\<close>

record nandFeatures =
  numBlocks :: int
  memSize :: int

definition enc_features :: "nandFeatures \<Rightarrow> bytes" where
  "enc_features f = enc_ints [numBlocks f, memSize f]"

definition dec_features :: "bytes \<Rightarrow> nandFeatures" where
  "dec_features bs = (let xs = dec_ints 2 bs in \<lparr>numBlocks = xs ! 0, memSize = xs ! 1\<rparr>)"

definition features_ok :: "nandFeatures \<Rightarrow> bool" where
  "features_ok f \<longleftrightarrow> is_int32 (numBlocks f) \<and> is_int32 (memSize f)"

record fullPage =
  contents :: bytes
  eraseCount :: int
  nextLogBlock :: int
  nextBlockErases :: int
  meta_inode :: int
  meta_offset :: int
  pageType :: byte
  ppad :: bytes

definition enc_page :: "fullPage \<Rightarrow> bytes" where
  "enc_page p = contents p
     @ enc_ints [eraseCount p, nextLogBlock p, nextBlockErases p, meta_inode p, meta_offset p]
     @ pageType p # ppad p"

definition dec_page :: "bytes \<Rightarrow> fullPage" where
  "dec_page bs = (let xs = dec_ints 5 (drop 1024 bs) in
     \<lparr>contents = take 1024 bs, eraseCount = xs ! 0, nextLogBlock = xs ! 1,
      nextBlockErases = xs ! 2, meta_inode = xs ! 3, meta_offset = xs ! 4,
      pageType = hd (drop 1044 bs), ppad = bslice 1045 3 bs\<rparr>)"

definition page_ok :: "fullPage \<Rightarrow> bool" where
  "page_ok p \<longleftrightarrow> length (contents p) = 1024 \<and> is_int32 (eraseCount p)
     \<and> is_int32 (nextLogBlock p) \<and> is_int32 (nextBlockErases p)
     \<and> is_int32 (meta_inode p) \<and> is_int32 (meta_offset p) \<and> length (ppad p) = 3"

text \<open>The page \<open>memset\<close> to zero.\<close>

definition zero_page :: fullPage where
  "zero_page = \<lparr>contents = replicate 1024 0, eraseCount = 0, nextLogBlock = 0,
     nextBlockErases = 0, meta_inode = 0, meta_offset = 0, pageType = 0,
     ppad = [0, 0, 0]\<rparr>"

section \<open>Free lists and the super page\<close>

record freeList =
  partialHead :: int
  partialHeadErases :: int
  partialTail :: int
  completeHead :: int
  completeHeadErases :: int
  completeTail :: int

definition freeList_ints :: "freeList \<Rightarrow> int list" where
  "freeList_ints l = [partialHead l, partialHeadErases l, partialTail l,
     completeHead l, completeHeadErases l, completeTail l]"

definition ints_freeList :: "int list \<Rightarrow> freeList" where
  "ints_freeList xs = \<lparr>partialHead = xs ! 0, partialHeadErases = xs ! 1,
     partialTail = xs ! 2, completeHead = xs ! 3, completeHeadErases = xs ! 4,
     completeTail = xs ! 5\<rparr>"

record superPage =
  freeLists :: freeList
  latest_journal :: int
  latest_vaddr_map :: int
  prev_vaddr_map :: int
  prev_journal :: int

definition enc_super :: "superPage \<Rightarrow> bytes" where
  "enc_super s = enc_ints (freeList_ints (freeLists s)
     @ [latest_journal s, latest_vaddr_map s, prev_vaddr_map s, prev_journal s])"

definition dec_super :: "bytes \<Rightarrow> superPage" where
  "dec_super bs = (let xs = dec_ints 10 bs in
     \<lparr>freeLists = ints_freeList xs, latest_journal = xs ! 6, latest_vaddr_map = xs ! 7,
      prev_vaddr_map = xs ! 8, prev_journal = xs ! 9\<rparr>)"

definition freeList_ok :: "freeList \<Rightarrow> bool" where
  "freeList_ok l \<longleftrightarrow> list_all is_int32 (freeList_ints l)"

definition super_ok :: "superPage \<Rightarrow> bool" where
  "super_ok s \<longleftrightarrow> freeList_ok (freeLists s) \<and> is_int32 (latest_journal s)
     \<and> is_int32 (latest_vaddr_map s) \<and> is_int32 (prev_vaddr_map s) \<and> is_int32 (prev_journal s)"

definition zero_super :: superPage where
  "zero_super = \<lparr>freeLists = \<lparr>partialHead = 0, partialHeadErases = 0, partialTail = 0,
       completeHead = 0, completeHeadErases = 0, completeTail = 0\<rparr>,
     latest_journal = 0, latest_vaddr_map = 0, prev_vaddr_map = 0, prev_journal = 0\<rparr>"

section \<open>The virtual address map\<close>

text \<open>
  \<open>struct addrMap\<close> ends in a flexible array; \<open>vmap\<close> holds the entries that the allocated
  object has room for. Its image starts with \<open>size\<close> and \<open>freePtr\<close>.
\<close>

record addrMap =
  map_size :: int
  freePtr :: int
  vmap :: "int list"

definition enc_map :: "addrMap \<Rightarrow> bytes" where
  "enc_map m = enc_ints (map_size m # freePtr m # vmap m)"

text \<open>The map seen through a cast of a page: \<open>n\<close> entries lie within the page contents.\<close>

definition dec_map :: "nat \<Rightarrow> bytes \<Rightarrow> addrMap" where
  "dec_map n bs = (let xs = dec_ints (n + 2) bs in
     \<lparr>map_size = xs ! 0, freePtr = xs ! 1, vmap = drop 2 xs\<rparr>)"

definition map_ok :: "nat \<Rightarrow> addrMap \<Rightarrow> bool" where
  "map_ok n m \<longleftrightarrow> is_int32 (map_size m) \<and> is_int32 (freePtr m)
     \<and> length (vmap m) = n \<and> list_all is_int32 (vmap m)"

section \<open>Inodes and log headers\<close>

record inode =
  i_mode :: "32 word"
  i_uid :: "32 word"
  i_gid :: "32 word"
  i_flags :: "32 word"
  i_file_no :: int
  i_log_no :: int
  i_links_count :: "32 word"
  i_atime :: "64 word \<times> 64 word"
  i_mtime :: "64 word \<times> 64 word"
  i_ctime :: "64 word \<times> 64 word"
  i_pages :: int
  i_size :: "64 word"
  indirect :: int
  doubleInd :: int
  tripleInd :: int
  directPage :: "int list"

definition enc_timespec :: "64 word \<times> 64 word \<Rightarrow> bytes" where
  "enc_timespec t = enc_word (fst t) @ enc_word (snd t)"

definition dec_timespec :: "bytes \<Rightarrow> 64 word \<times> 64 word" where
  "dec_timespec bs = (dec_word bs, dec_word (drop 8 bs))"

definition enc_inode :: "inode \<Rightarrow> bytes" where
  "enc_inode i = enc_word (i_mode i) @ enc_word (i_uid i) @ enc_word (i_gid i)
     @ enc_word (i_flags i) @ enc32 (i_file_no i) @ enc32 (i_log_no i)
     @ enc_word (i_links_count i) @ replicate 4 0
     @ enc_timespec (i_atime i) @ enc_timespec (i_mtime i) @ enc_timespec (i_ctime i)
     @ enc32 (i_pages i) @ replicate 4 0 @ enc_word (i_size i)
     @ enc_ints ([indirect i, doubleInd i, tripleInd i] @ directPage i) @ replicate 4 0"

definition dec_inode :: "bytes \<Rightarrow> inode" where
  "dec_inode bs = (let xs = dec_ints 19 (drop 96 bs) in
     \<lparr>i_mode = dec_word bs, i_uid = dec_word (drop 4 bs), i_gid = dec_word (drop 8 bs),
      i_flags = dec_word (drop 12 bs), i_file_no = dec32 (bslice 16 4 bs),
      i_log_no = dec32 (bslice 20 4 bs), i_links_count = dec_word (drop 24 bs),
      i_atime = dec_timespec (drop 32 bs), i_mtime = dec_timespec (drop 48 bs),
      i_ctime = dec_timespec (drop 64 bs), i_pages = dec32 (bslice 80 4 bs),
      i_size = dec_word (drop 88 bs), indirect = xs ! 0, doubleInd = xs ! 1,
      tripleInd = xs ! 2, directPage = drop 3 xs\<rparr>)"

definition inode_ok :: "inode \<Rightarrow> bool" where
  "inode_ok i \<longleftrightarrow> is_int32 (i_file_no i) \<and> is_int32 (i_log_no i) \<and> is_int32 (i_pages i)
     \<and> is_int32 (indirect i) \<and> is_int32 (doubleInd i) \<and> is_int32 (tripleInd i)
     \<and> length (directPage i) = 16 \<and> list_all is_int32 (directPage i)"

text \<open>
  The union \<open>content\<close> is represented by its \<open>file\<close> member (216 bytes) and the 312 bytes the
  larger \<open>extent\<close> member adds behind it.
\<close>

record logHeader =
  erases :: "64 word"
  logId :: int
  prev :: int
  prevErases :: int
  first :: int
  firstErases :: int
  active :: "32 word"
  total :: "32 word"
  logType :: "16 word"
  fileCount :: int
  fileId :: "int list"
  fInode :: inode
  content_rest :: bytes

definition enc_log :: "logHeader \<Rightarrow> bytes" where
  "enc_log h = enc_word (erases h)
     @ enc_ints [logId h, prev h, prevErases h, first h, firstErases h]
     @ enc_word (active h) @ enc_word (total h) @ enc_word (logType h) @ replicate 2 0
     @ enc_ints (fileCount h # fileId h) @ replicate 4 0
     @ enc_inode (fInode h) @ content_rest h"

definition dec_log :: "bytes \<Rightarrow> logHeader" where
  "dec_log bs = (let xs = dec_ints 5 (drop 8 bs); ys = dec_ints 9 (drop 40 bs) in
     \<lparr>erases = dec_word bs, logId = xs ! 0, prev = xs ! 1, prevErases = xs ! 2,
      first = xs ! 3, firstErases = xs ! 4, active = dec_word (drop 28 bs),
      total = dec_word (drop 32 bs), logType = dec_word (drop 36 bs),
      fileCount = ys ! 0, fileId = drop 1 ys, fInode = dec_inode (drop 80 bs),
      content_rest = bslice 256 312 bs\<rparr>)"

definition log_ok :: "logHeader \<Rightarrow> bool" where
  "log_ok h \<longleftrightarrow> list_all is_int32 [logId h, prev h, prevErases h, first h, firstErases h, fileCount h]
     \<and> length (fileId h) = 8 \<and> list_all is_int32 (fileId h) \<and> inode_ok (fInode h)
     \<and> length (content_rest h) = 312"

section \<open>Run time structures\<close>

record writeablePage =
  nandPage :: fullPage
  address :: int

record activeLog =
  nextPage :: int
  lastBlock :: int
  lastErases :: int
  log_hdr :: logHeader
  alog_fileCount :: int

section \<open>Layout laws\<close>

lemma dec_enc_page: "page_ok p \<Longrightarrow> dec_page (enc_page p @ rest) = p"
  by (cases p) (simp add: page_ok_def dec_page_def enc_page_def Let_def dec_enc_ints
      bslice_def)

lemma length_enc_page: "page_ok p \<Longrightarrow> length (enc_page p) = 1048"
  by (simp add: page_ok_def enc_page_def)

lemma ok_dec_page: "length bs = 1048 \<Longrightarrow> page_ok (dec_page bs)"
  by (simp add: page_ok_def dec_page_def Let_def dec_ints_nth bslice_def)

lemma enc_dec_page:
  assumes len: "length bs = 1048"
  shows "enc_page (dec_page bs) = bs"
proof -
  let ?xs = "dec_ints 5 (drop 1024 bs)"
  have "[?xs ! 0, ?xs ! 1, ?xs ! 2, ?xs ! 3, ?xs ! 4] = ?xs"
    by (rule list5_nth) simp
  moreover have "enc_ints ?xs = bslice 1024 20 bs"
    using enc_dec_ints [of "bslice 1024 20 bs" 5] dec_ints_take [of 5 20 "drop 1024 bs"] len
    by (simp add: bslice_def)
  ultimately have "enc_page (dec_page bs)
      = take 1024 bs @ bslice 1024 20 bs @ hd (drop 1044 bs) # bslice 1045 3 bs"
    by (simp add: enc_page_def dec_page_def Let_def)
  also have "\<dots> = take 1024 bs @ bslice 1024 20 bs @ bslice 1044 4 bs"
    using len drop_drop [of 1 1044 bs]
    by (cases "drop 1044 bs") (auto simp: bslice_def take_Cons')
  also have "\<dots> = bs"
    using len append_take_drop_id [of 20 "drop 1024 bs"] by (simp add: bslice_def)
  finally show ?thesis .
qed

interpretation page: exact_codec enc_page dec_page sizeof_fullPage page_ok
  by unfold_locales (simp_all add: length_enc_page dec_enc_page ok_dec_page enc_dec_page)

interpretation features: codec enc_features dec_features sizeof_nandFeatures features_ok
  by unfold_locales
    (simp_all add: enc_features_def dec_features_def features_ok_def dec_enc_ints Let_def)

interpretation super: codec enc_super dec_super 40 super_ok
  by unfold_locales
    (simp_all add: enc_super_def dec_super_def super_ok_def dec_enc_ints Let_def
      freeList_ints_def ints_freeList_def freeList_ok_def)

lemma map_codec: "codec enc_map (dec_map n) (8 + 4 * n) (map_ok n)"
  by unfold_locales
    (simp_all add: enc_map_def dec_map_def map_ok_def dec_enc_ints Let_def del: dec_ints.simps)

interpretation vaddr: codec enc_map "dec_map n" "8 + 4 * n" "map_ok n" for n
  by (rule map_codec)

lemma dec_enc_timespec: "dec_timespec (enc_timespec t @ rest) = t"
  by (cases t) (simp add: dec_timespec_def enc_timespec_def dec_enc_word)

lemma length_enc_timespec [simp]: "length (enc_timespec t) = 16"
  by (simp add: enc_timespec_def)

lemma length_enc_inode: "inode_ok i \<Longrightarrow> length (enc_inode i) = 176"
  by (simp add: enc_inode_def inode_ok_def)

lemma dec_enc_inode: "inode_ok i \<Longrightarrow> dec_inode (enc_inode i @ rest) = i"
  by (cases i) (simp add: enc_inode_def dec_inode_def inode_ok_def Let_def dec_enc_ints
      dec_enc_word dec_enc_timespec dec_enc32 bslice_def)

interpretation inode: codec enc_inode dec_inode 176 inode_ok
  by unfold_locales (simp_all add: length_enc_inode dec_enc_inode)

interpretation log: codec enc_log dec_log 568 log_ok
  by unfold_locales
    (simp_all add: enc_log_def dec_log_def log_ok_def length_enc_inode Let_def dec_enc_ints
      dec_enc_word dec_enc_inode bslice_def)

end
