(* ===== verification/VNAND.thy ===== *)
theory VNAND
  imports Disk_Formats "HOL-Library.Monad_Syntax"
begin

text \<open>
  The virtual NAND: \<open>example/vNANDlib.c\<close>, \<open>example/vNANDlib.h\<close> and the program
  \<open>example/makeVirtualNAND.c\<close> that creates its backing file.

  The backing file is a byte sequence with a file position, and \<open>lseek\<close>, \<open>read\<close> and
  \<open>write\<close> are POSIX's on a regular file. The library's static variables \<open>fd\<close> and
  \<open>features\<close> are the record \<open>vnand\<close>; a descriptor of -1 is \<open>None\<close>. A local struct that
  the code leaves uninitialised takes its bytes from an argument (\<open>u\<close>), so every statement
  holds for whatever the stack held. \<open>None\<close> as a result is undefined behaviour of C.

  \<open>abs_nand\<close> is the memory the library promises: blocks of 16 pages, each with the index
  of its next free page and its erase count. The lemmas show that reading, writing and
  creating implement that memory, and exactly what \<open>eraseNAND\<close> does to it.
\<close>

section \<open>Regular files\<close>

record nandfile =
  fbytes :: bytes
  fpos :: nat

definition lseek_set :: "int \<Rightarrow> nandfile \<Rightarrow> nandfile" where
  "lseek_set off f = (if off < 0 then f else f\<lparr>fpos := nat off\<rparr>)"

definition read_file :: "nat \<Rightarrow> nandfile \<Rightarrow> bytes \<times> nandfile" where
  "read_file n f = (let bs = bslice (fpos f) n (fbytes f)
     in (bs, f\<lparr>fpos := fpos f + length bs\<rparr>))"

definition write_file :: "bytes \<Rightarrow> nandfile \<Rightarrow> nandfile" where
  "write_file bs f = f\<lparr>fbytes := patch (fpos f) bs
       (fbytes f @ replicate (fpos f - length (fbytes f)) 0),
     fpos := fpos f + length bs\<rparr>"

text \<open>Bytes read land at the start of the destination, the rest of it stays as it was.\<close>

definition into_buffer :: "bytes \<Rightarrow> bytes \<Rightarrow> bytes" where
  "into_buffer bs buf = bs @ drop (length bs) buf"

text \<open>Uninitialised memory: the value of each byte of an object the code did not set.\<close>

type_synonym stack = "nat \<Rightarrow> byte"

definition stack_bytes :: "nat \<Rightarrow> stack \<Rightarrow> bytes" where
  "stack_bytes n u = map u [0..<n]"

definition stack_page :: "stack \<Rightarrow> fullPage" where
  "stack_page u = dec_page (stack_bytes 1048 u)"

lemma length_stack_bytes [simp]: "length (stack_bytes n u) = n"
  by (simp add: stack_bytes_def)

lemma page_ok_stack_page [simp]: "page_ok (stack_page u)"
  by (simp add: stack_page_def ok_dec_page)

section \<open>The library\<close>

record vnand =
  vfd :: "nandfile option"
  features :: nandFeatures

text \<open>\<open>opened\<close> is what \<open>open(STORE_PATH, O_RDWR)\<close> gives: \<open>None\<close> for -1.\<close>

definition initNAND :: "nandfile option \<Rightarrow> vnand \<Rightarrow> nandFeatures \<times> vnand" where
  "initNAND opened v =
     (case opened of
        None \<Rightarrow> (features v, v\<lparr>vfd := None\<rparr>)
      | Some f \<Rightarrow>
          let (bs, f') = read_file sizeof_nandFeatures f;
              ft = dec_features (into_buffer bs (enc_features (features v)))
          in (ft, \<lparr>vfd = Some f', features = ft\<rparr>))"

definition readNAND :: "fullPage \<Rightarrow> int \<Rightarrow> vnand \<Rightarrow> int \<times> fullPage \<times> vnand" where
  "readNAND buf k v =
     (let offset = int32 (int sizeof_nandFeatures + (k sdiv BLOCKSIZE) * int sizeof_block
                    + (k smod BLOCKSIZE) * int sizeof_fullPage)
      in if memSize (features v) \<le> offset then (-1, buf, v)
         else case vfd v of
             None \<Rightarrow> (-1, buf, v)
           | Some f \<Rightarrow>
               let (bs, f') = read_file sizeof_fullPage (lseek_set offset f)
               in (int (length bs), dec_page (into_buffer bs (enc_page buf)), v\<lparr>vfd := Some f'\<rparr>))"

definition writeNAND :: "stack \<Rightarrow> fullPage \<Rightarrow> int \<Rightarrow> bool \<Rightarrow> vnand \<Rightarrow> (int \<times> vnand) option" where
  "writeNAND u buf k random_access v =
     (let offset = int32 (int sizeof_nandFeatures + (k sdiv BLOCKSIZE) * int sizeof_block)
      in if memSize (features v) \<le> offset then Some (-1, v)
         else case vfd v of
             None \<Rightarrow> Some (-1, v)
           | Some f \<Rightarrow>
               let (bs, f1) = read_file sizeof_block (lseek_set offset f);
                   curBlock = into_buffer bs (stack_bytes sizeof_block u);
                   kInBlock = k smod BLOCKSIZE;
                   next = dec32 (bslice 16768 4 curBlock)
               in if \<not> random_access \<and> kInBlock \<noteq> next then Some (-1, v\<lparr>vfd := Some f1\<rparr>)
                  else if kInBlock < 0 then None
                  else
                    let c1 = patch (nat kInBlock * sizeof_fullPage) (enc_page buf) curBlock;
                        c2 = (if random_access then c1 else patch 16768 (enc32 (next + 1)) c1);
                        f2 = lseek_set (int sizeof_nandFeatures
                               + (k sdiv BLOCKSIZE) * int sizeof_block) f1
                    in Some (int (length c2), v\<lparr>vfd := Some (write_file c2 f2)\<rparr>))"

definition stopNAND :: "vnand \<Rightarrow> vnand" where
  "stopNAND v = v\<lparr>vfd := None\<rparr>"

definition eraseNAND :: "stack \<Rightarrow> int \<Rightarrow> vnand \<Rightarrow> int \<times> vnand" where
  "eraseNAND u k v =
     (let offset = int32 (int sizeof_nandFeatures + (k + 1) * (int sizeof_block - 4))
      in if memSize (features v) \<le> offset then (-1, v)
         else case vfd v of
             None \<Rightarrow> (-1, v)
           | Some f \<Rightarrow>
               let (bs, f1) = read_file 4 (lseek_set offset f);
                   ec = dec32 (into_buffer bs (stack_bytes 4 u)) + 1;
                   curBlock = replicate 16768 0 @ enc32 0 @ enc32 ec;
                   f2 = lseek_set (int sizeof_nandFeatures + k * int sizeof_block) f1
               in (ec, v\<lparr>vfd := Some (write_file curBlock f2)\<rparr>))"

text \<open>
  \<open>makeVirtualNAND\<close>: \<open>args\<close> is \<open>argc - 1\<close>, \<open>n\<close> the number \<open>atoi\<close> reads, \<open>opened\<close> what
  \<open>open(\<dots>, O_CREAT | O_RDWR, \<dots>)\<close> gives (an existing file is not truncated). The result is
  the exit status and the file left behind.
\<close>

definition makeVirtualNAND :: "nat \<Rightarrow> int \<Rightarrow> nandfile option \<Rightarrow> int \<times> nandfile option" where
  "makeVirtualNAND args n opened =
     (if args < 1 then (-1, opened)
      else case opened of
          None \<Rightarrow> (-1, None)
        | Some f \<Rightarrow>
            let total = int sizeof_nandFeatures + int sizeof_block * n;
                ft = \<lparr>numBlocks = n, memSize = int32 total\<rparr>;
                f1 = write_file (enc_features ft) f;
                f2 = write_file [0] (lseek_set total f1)
            in (0, Some f2))"

section \<open>The memory the library implements\<close>

record ablock =
  apages :: "fullPage list"
  anext :: int
  aerases :: int

definition abs_block :: "bytes \<Rightarrow> ablock" where
  "abs_block bs = \<lparr>apages = map (\<lambda>i. dec_page (bslice (i * 1048) 1048 bs)) [0..<16],
     anext = dec32 (bslice 16768 4 bs), aerases = dec32 (bslice 16772 4 bs)\<rparr>"

definition file_bytes :: "vnand \<Rightarrow> bytes" where
  "file_bytes v = (case vfd v of None \<Rightarrow> [] | Some f \<Rightarrow> fbytes f)"

definition block_bytes :: "vnand \<Rightarrow> nat \<Rightarrow> bytes" where
  "block_bytes v b = bslice (8 + b * 16776) 16776 (file_bytes v)"

definition abs_nand :: "vnand \<Rightarrow> nat \<Rightarrow> ablock" where
  "abs_nand v b = abs_block (block_bytes v b)"

definition page_at :: "vnand \<Rightarrow> nat \<Rightarrow> fullPage" where
  "page_at v k = apages (abs_nand v (k div 16)) ! (k mod 16)"

text \<open>An attached device of \<open>nb\<close> blocks whose size fits the \<open>int\<close> fields of \<open>features\<close>.\<close>

definition nand_ok :: "nat \<Rightarrow> vnand \<Rightarrow> bool" where
  "nand_ok nb v \<longleftrightarrow> vfd v \<noteq> None \<and> 8 + nb * 16776 \<le> length (file_bytes v)
     \<and> features v = \<lparr>numBlocks = int nb, memSize = int (8 + nb * 16776)\<rparr> \<and> nb \<le> 128009"

definition put_page :: "fullPage \<Rightarrow> nat \<Rightarrow> bool \<Rightarrow> ablock \<Rightarrow> ablock" where
  "put_page p i random_access b =
     b\<lparr>apages := (apages b)[i := p], anext := (if random_access then anext b else anext b + 1)\<rparr>"

definition erased_block :: "int \<Rightarrow> ablock" where
  "erased_block ec = \<lparr>apages = replicate 16 zero_page, anext = 0, aerases = ec\<rparr>"

text \<open>
  The count that \<open>eraseNAND\<close> reads lies \<open>4 * b\<close> bytes before the erase count of block
  \<open>b\<close>: the code multiplies the block number with \<open>sizeof (struct block) - sizeof (int)\<close>.
\<close>

definition erase_count_read :: "vnand \<Rightarrow> nat \<Rightarrow> int" where
  "erase_count_read v b = dec32 (bslice (8 + (b + 1) * 16772) 4 (file_bytes v))"

section \<open>Files\<close>

lemma read_file_within:
  "fpos f + n \<le> length (fbytes f) \<Longrightarrow>
     read_file n f = (bslice (fpos f) n (fbytes f), f\<lparr>fpos := fpos f + n\<rparr>)"
  by (simp add: read_file_def length_bslice)

lemma write_file_within:
  "fpos f \<le> length (fbytes f) \<Longrightarrow>
     write_file bs f = f\<lparr>fbytes := patch (fpos f) bs (fbytes f), fpos := fpos f + length bs\<rparr>"
  by (simp add: write_file_def)

lemma fbytes_lseek_set [simp]: "fbytes (lseek_set off f) = fbytes f"
  by (simp add: lseek_set_def)

lemma fpos_lseek_set [simp]: "0 \<le> off \<Longrightarrow> fpos (lseek_set off f) = nat off"
  by (simp add: lseek_set_def)

lemma into_buffer_full: "length bs = length buf \<Longrightarrow> into_buffer bs buf = bs"
  by (simp add: into_buffer_def)

section \<open>Blocks as bytes\<close>

lemma length_block_bytes:
  "8 + nb * 16776 \<le> length (file_bytes v) \<Longrightarrow> b < nb \<Longrightarrow> length (block_bytes v b) = 16776"
  by (simp add: block_bytes_def length_bslice)

lemma length_apages [simp]: "length (apages (abs_block bs)) = 16"
  by (simp add: abs_block_def)

lemma length_apages_nand [simp]: "length (apages (abs_nand v b)) = 16"
  by (simp add: abs_nand_def)

lemma nth_apages: "i < 16 \<Longrightarrow> apages (abs_block bs) ! i = dec_page (bslice (i * 1048) 1048 bs)"
  by (simp add: abs_block_def)

lemma abs_block_patch_page:
  assumes "length bs = 16776" "i < 16" "page_ok p"
  shows "abs_block (patch (i * 1048) (enc_page p) bs) = put_page p i True (abs_block bs)"
proof -
  let ?c = "patch (i * 1048) (enc_page p) bs"
  from assms(3) have len: "length (enc_page p) = 1048" by (rule page.length_enc)
  have "apages (abs_block ?c) = (apages (abs_block bs))[i := p]"
  proof (rule nth_equalityI)
    fix j assume "j < length (apages (abs_block ?c))"
    then have j: "j < 16" by simp
    consider "j = i" | "j < i" | "i < j" by linarith
    then show "apages (abs_block ?c) ! j = (apages (abs_block bs))[i := p] ! j"
    proof cases
      case 1
      with j assms len show ?thesis
        by (simp add: nth_apages page.dec_slice_patch)
    next
      case 2
      then have "bslice (j * 1048) 1048 ?c = bslice (j * 1048) 1048 bs"
        using assms len by (intro bslice_patch_before) auto
      with 2 j show ?thesis by (simp add: nth_apages)
    next
      case 3
      then have "bslice (j * 1048) 1048 ?c = bslice (j * 1048) 1048 bs"
        using assms len by (intro bslice_patch_after) auto
      with 3 j show ?thesis by (simp add: nth_apages)
    qed
  qed simp
  moreover have "bslice 16768 4 ?c = bslice 16768 4 bs" "bslice 16772 4 ?c = bslice 16772 4 bs"
    using assms len by (auto intro!: bslice_patch_after)
  ultimately show ?thesis by (simp add: put_page_def abs_block_def)
qed

lemma abs_block_patch_next:
  assumes "length bs = 16776" "is_int32 n"
  shows "abs_block (patch 16768 (enc32 n) bs) = (abs_block bs)\<lparr>anext := n\<rparr>"
proof -
  let ?c = "patch 16768 (enc32 n) bs"
  have "apages (abs_block ?c) = apages (abs_block bs)"
  proof (rule nth_equalityI)
    fix j assume "j < length (apages (abs_block ?c))"
    then have j: "j < 16" by simp
    have "bslice (j * 1048) 1048 ?c = bslice (j * 1048) 1048 bs"
      using assms j by (intro bslice_patch_before) auto
    with j show "apages (abs_block ?c) ! j = apages (abs_block bs) ! j"
      by (simp add: nth_apages)
  qed simp
  moreover have "bslice 16768 4 ?c = enc32 n" "bslice 16772 4 ?c = bslice 16772 4 bs"
    using assms by (auto intro!: bslice_patch_after bslice_patch_same)
  ultimately show ?thesis using assms by (simp add: abs_block_def dec_enc32)
qed

lemma dec_page_zeros: "dec_page (replicate 1048 0) = zero_page"
  by (simp add: dec_page_def zero_page_def Let_def dec_ints_nth bslice_replicate)
     (simp add: numeral_eq_Suc)

lemma abs_block_erased:
  assumes "is_int32 ec"
  shows "abs_block (replicate 16768 0 @ enc32 0 @ enc32 ec) = erased_block ec"
proof -
  have "map (\<lambda>i. dec_page (bslice (i * 1048) 1048 (replicate 16768 0 @ enc32 0 @ enc32 ec))) [0..<16]
      = map (\<lambda>i. zero_page) [0..<16]"
    by (rule map_cong [OF refl]) (simp add: bslice_append_left bslice_replicate dec_page_zeros)
  with assms show ?thesis
    by (simp add: abs_block_def erased_block_def map_replicate_const bslice_append2 bslice_append1
        bslice_all dec_enc32 is_int32_def)
qed

lemma abs_block_zeros: "abs_block (replicate 16776 0) = erased_block 0"
proof -
  have "map (\<lambda>i. dec_page (bslice (i * 1048) 1048 (replicate 16776 0))) [0..<16]
      = map (\<lambda>i. zero_page) [0..<16]"
    by (rule map_cong [OF refl]) (simp add: bslice_replicate dec_page_zeros)
  then show ?thesis
    by (simp add: abs_block_def erased_block_def map_replicate_const bslice_replicate)
qed

lemma nand_ok_file:
  assumes "nand_ok nb v"
  obtains f where "vfd v = Some f" "file_bytes v = fbytes f" "8 + nb * 16776 \<le> length (fbytes f)"
proof -
  from assms obtain f where f: "vfd v = Some f" by (auto simp: nand_ok_def)
  then have fb: "file_bytes v = fbytes f" by (simp add: file_bytes_def)
  from assms have "8 + nb * 16776 \<le> length (file_bytes v)"
    by (simp add: nand_ok_def)
  with f fb show ?thesis using that by simp
qed

lemma nand_ok_features:
  "nand_ok nb v \<Longrightarrow> memSize (features v) = int (8 + nb * 16776)"
  "nand_ok nb v \<Longrightarrow> numBlocks (features v) = int nb"
  by (simp_all add: nand_ok_def)

text \<open>Moving the file position changes nothing the library looks at.\<close>

lemma reposition:
  assumes "nand_ok nb v" "vfd v = Some f" "fbytes f' = fbytes f"
  shows "nand_ok nb (v\<lparr>vfd := Some f'\<rparr>)" "abs_nand (v\<lparr>vfd := Some f'\<rparr>) = abs_nand v"
  using assms by (simp_all add: nand_ok_def abs_nand_def block_bytes_def file_bytes_def fun_eq_iff)

text \<open>Writing 16776 bytes at the start of block \<open>b\<close> replaces that block and no other.\<close>

lemma replace_block:
  assumes ok: "nand_ok nb v" and f: "vfd v = Some f" "fbytes f' = fbytes f"
    and b: "b < nb" and c: "length c = 16776"
  shows "nand_ok nb (v\<lparr>vfd := Some (write_file c (lseek_set (8 + int b * 16776) f'))\<rparr>)"
    and "abs_nand (v\<lparr>vfd := Some (write_file c (lseek_set (8 + int b * 16776) f'))\<rparr>)
           = (abs_nand v)(b := abs_block c)"
proof -
  let ?pos = "8 + b * 16776"
  let ?w = "v\<lparr>vfd := Some (write_file c (lseek_set (8 + int b * 16776) f'))\<rparr>"
  have len: "8 + nb * 16776 \<le> length (fbytes f)"
    using ok f by (simp add: nand_ok_def file_bytes_def)
  have "(Suc b) * 16776 \<le> nb * 16776" using b by (intro mult_le_mono1) simp
  with len have fit: "?pos + 16776 \<le> length (fbytes f)" by simp
  have pos: "nat (8 + int b * 16776) = ?pos" by simp
  have fv: "file_bytes v = fbytes f" using f by (simp add: file_bytes_def)
  have fb: "file_bytes ?w = patch ?pos c (fbytes f)"
    using fit f by (simp add: file_bytes_def write_file_within pos)
  then have "length (file_bytes ?w) = length (fbytes f)"
    using fit c by (simp add: length_patch)
  then show "nand_ok nb ?w"
    using ok f by (simp add: nand_ok_def file_bytes_def)
  show "abs_nand ?w = (abs_nand v)(b := abs_block c)"
  proof
    fix b'
    consider "b' = b" | "b' < b" | "b < b'" by linarith
    then show "abs_nand ?w b' = ((abs_nand v)(b := abs_block c)) b'"
    proof cases
      case 1
      then show ?thesis using fit c
        by (simp add: abs_nand_def block_bytes_def fb bslice_patch_same)
    next
      case 2
      then have "bslice (8 + b' * 16776) 16776 (patch ?pos c (fbytes f))
          = bslice (8 + b' * 16776) 16776 (fbytes f)"
        using fit by (intro bslice_patch_before) auto
      with 2 show ?thesis
        by (simp add: abs_nand_def block_bytes_def fb fv)
    next
      case 3
      then have "bslice (8 + b' * 16776) 16776 (patch ?pos c (fbytes f))
          = bslice (8 + b' * 16776) 16776 (fbytes f)"
        using fit c by (intro bslice_patch_after) auto
      with 3 show ?thesis
        by (simp add: abs_nand_def block_bytes_def fb fv)
    qed
  qed
qed

section \<open>Addresses\<close>

lemma block_offset_fits: "b \<le> 128009 \<Longrightarrow> is_int32 (8 + int b * 16776)"
  by (simp add: is_int32_def)

lemma page_offset_fits:
  assumes "k < 16 * 128009"
  shows "is_int32 (8 + int (k div 16) * 16776 + int (k mod 16) * 1048)"
proof -
  from assms have "k div 16 \<le> 128008" by simp
  then have "8 + k div 16 * 16776 + k mod 16 * 1048 < 2 ^ 31" by simp
  then show ?thesis by (simp add: is_int32_def flip: of_nat_mult of_nat_add)
qed

lemma int_page_arith [simp]:
  "int k sdiv 16 = int (k div 16)" "int k smod 16 = int (k mod 16)"
  by (simp_all add: sdiv_nonneg smod_nonneg zdiv_int zmod_int)

section \<open>Reading\<close>

lemma readNAND_page:
  assumes ok: "nand_ok nb v" and k: "k < 16 * nb" and buf: "page_ok buf"
  shows "\<exists>v'. readNAND buf (int k) v = (1048, page_at v k, v')
     \<and> nand_ok nb v' \<and> file_bytes v' = file_bytes v"
proof -
  from ok obtain f where f: "vfd v = Some f" "file_bytes v = fbytes f"
    and len: "8 + nb * 16776 \<le> length (fbytes f)" by (rule nand_ok_file)
  let ?b = "k div 16" and ?i = "k mod 16"
  define off where "off = 8 + ?b * 16776 + ?i * 1048"
  from k have b: "?b < nb" by (simp add: less_mult_imp_div_less mult.commute)
  have "(Suc ?b) * 16776 \<le> nb * 16776" using b by (intro mult_le_mono1) simp
  moreover have "?i * 1048 + 1048 \<le> 16768" by (simp add: Suc_leI)
  ultimately have fit: "off + 1048 \<le> 8 + nb * 16776" by (simp add: off_def)
  have nb: "nb \<le> 128009" using ok by (simp add: nand_ok_def)
  have off32: "int32 (8 + int ?b * 16776 + int ?i * 1048) = int off"
    using k nb page_offset_fits [of k] by (simp add: off_def)
  have data: "bslice off 1048 (fbytes f) = bslice (?i * 1048) 1048 (block_bytes v ?b)"
    by (simp add: block_bytes_def f bslice_bslice off_def)
  have rd: "read_file 1048 (lseek_set (int off) f)
      = (bslice off 1048 (fbytes f), (lseek_set (int off) f)\<lparr>fpos := off + 1048\<rparr>)"
    using fit len by (subst read_file_within) simp_all
  have "into_buffer (bslice off 1048 (fbytes f)) (enc_page buf) = bslice off 1048 (fbytes f)"
    using fit len buf by (intro into_buffer_full) (simp add: length_bslice page.length_enc)
  then have "dec_page (into_buffer (bslice off 1048 (fbytes f)) (enc_page buf)) = page_at v k"
    by (simp add: data page_at_def abs_nand_def nth_apages)
  then have "readNAND buf (int k) v = (1048, page_at v k,
      v\<lparr>vfd := Some ((lseek_set (int off) f)\<lparr>fpos := off + 1048\<rparr>)\<rparr>)"
    using fit len by (simp add: readNAND_def off32 f rd Let_def length_bslice nand_ok_features [OF ok])
  moreover have "fbytes ((lseek_set (int off) f)\<lparr>fpos := off + 1048\<rparr>) = fbytes f" by simp
  ultimately show ?thesis
    using reposition(1) [OF ok f(1), of "(lseek_set (int off) f)\<lparr>fpos := off + 1048\<rparr>"] f
    by (simp add: file_bytes_def)
qed

lemma abs_nand_cong: "file_bytes v' = file_bytes v \<Longrightarrow> abs_nand v' = abs_nand v"
  by (simp add: abs_nand_def block_bytes_def fun_eq_iff)

lemma page_at_cong: "abs_nand v' = abs_nand v \<Longrightarrow> page_at v' = page_at v"
  by (simp add: page_at_def fun_eq_iff)

lemma erase_count_read_cong: "file_bytes v' = file_bytes v \<Longrightarrow> erase_count_read v' = erase_count_read v"
  by (simp add: erase_count_read_def fun_eq_iff)

section \<open>Writing\<close>

lemma read_block:
  assumes ok: "nand_ok nb v" and f: "vfd v = Some f" and b: "b < nb"
  shows "read_file 16776 (lseek_set (8 + int b * 16776) f)
     = (block_bytes v b, (lseek_set (8 + int b * 16776) f)\<lparr>fpos := 8 + b * 16776 + 16776\<rparr>)"
proof -
  have len: "8 + nb * 16776 \<le> length (fbytes f)"
    using ok f by (simp add: nand_ok_def file_bytes_def)
  have "(Suc b) * 16776 \<le> nb * 16776" using b by (intro mult_le_mono1) simp
  moreover have "nat (8 + int b * 16776) = 8 + b * 16776" by simp
  ultimately show ?thesis
    using len f by (subst read_file_within) (simp_all add: block_bytes_def file_bytes_def)
qed

lemma is_int32_anext: "is_int32 (anext (abs_block bs))"
  by (simp add: abs_block_def)

lemma writeNAND_page:
  assumes ok: "nand_ok nb v" and k: "k < 16 * nb" and p: "page_ok p"
  shows "if \<not> ra \<and> int (k mod 16) \<noteq> anext (abs_nand v (k div 16))
     then \<exists>v'. writeNAND u p (int k) ra v = Some (-1, v') \<and> nand_ok nb v' \<and> abs_nand v' = abs_nand v
     else \<exists>v'. writeNAND u p (int k) ra v = Some (16776, v') \<and> nand_ok nb v'
        \<and> abs_nand v' = (abs_nand v)(k div 16 := put_page p (k mod 16) ra (abs_nand v (k div 16)))"
proof -
  let ?b = "k div 16" and ?i = "k mod 16"
  from ok obtain f where f: "vfd v = Some f" by (rule nand_ok_file)
  from k have b: "?b < nb" by (simp add: less_mult_imp_div_less mult.commute)
  have nb: "nb \<le> 128009" using ok by (simp add: nand_ok_def)
  have off: "int32 (8 + int ?b * 16776) = 8 + int ?b * 16776"
    using b nb by (intro int32_id block_offset_fits) simp
  have below: "\<not> memSize (features v) \<le> 8 + int ?b * 16776"
    using b by (simp add: nand_ok_features [OF ok])
  define f1 where "f1 = (lseek_set (8 + int ?b * 16776) f)\<lparr>fpos := 8 + ?b * 16776 + 16776\<rparr>"
  define blk where "blk = block_bytes v ?b"
  define nx where "nx = anext (abs_nand v ?b)"
  have blk: "length blk = 16776"
    using ok b length_block_bytes [of nb v ?b] by (simp add: blk_def nand_ok_def)
  have rd: "read_file 16776 (lseek_set (8 + int ?b * 16776) f) = (blk, f1)"
    using read_block [OF ok f b] by (simp add: f1_def blk_def)
  have f1: "fbytes f1 = fbytes f" by (simp add: f1_def)
  have nx_eq: "dec32 (bslice 16768 4 blk) = nx"
    by (simp add: nx_def abs_nand_def abs_block_def blk_def)
  have buf: "into_buffer blk (stack_bytes 16776 u) = blk" using blk by (simp add: into_buffer_full)
  let ?c1 = "patch (?i * 1048) (enc_page p) blk"
  let ?c2 = "if ra then ?c1 else patch 16768 (enc32 (nx + 1)) ?c1"
  let ?v2 = "v\<lparr>vfd := Some (write_file ?c2 (lseek_set (8 + int ?b * 16776) f1))\<rparr>"
  have len_p: "length (enc_page p) = 1048" using p by (rule page.length_enc)
  have "?i * 1048 + 1048 \<le> 16768" by (simp add: Suc_leI)
  then have len_c1: "length ?c1 = 16776"
    using blk len_p by (subst length_patch) simp_all
  then have len_c2: "length ?c2 = 16776" by (simp add: length_patch)
  have wr: "writeNAND u p (int k) ra v =
      (if \<not> ra \<and> int ?i \<noteq> nx then Some (-1, v\<lparr>vfd := Some f1\<rparr>) else Some (16776, ?v2))"
    using below len_c1 len_c2 by (auto simp: writeNAND_def off f rd buf nx_eq Let_def)
  show ?thesis
  proof (cases "\<not> ra \<and> int ?i \<noteq> nx")
    case True
    with wr reposition [OF ok f f1] show ?thesis by (simp add: nx_def)
  next
    case False
    have "abs_block ?c2 = put_page p ?i ra (abs_nand v ?b)"
    proof (cases ra)
      case True
      then show ?thesis using blk p
        by (simp add: abs_block_patch_page) (simp add: abs_nand_def blk_def)
    next
      case ra: False
      with False have "nx = int ?i" by simp
      then have "is_int32 (nx + 1)" by (simp add: is_int32_def)
      with ra show ?thesis using blk p len_c1
        by (simp add: abs_block_patch_page abs_block_patch_next)
          (simp add: put_page_def abs_nand_def blk_def nx_def)
    qed
    then have "abs_nand ?v2 = (abs_nand v)(?b := put_page p ?i ra (abs_nand v ?b))"
      using replace_block(2) [OF ok f f1 b len_c2] by simp
    moreover have "writeNAND u p (int k) ra v = Some (16776, ?v2)"
      using wr unfolding if_not_P [OF False] .
    ultimately show ?thesis
      using replace_block(1) [OF ok f f1 b len_c2]
      unfolding nx_def [symmetric] if_not_P [OF False] by blast
  qed
qed

section \<open>Erasing\<close>

lemma eraseNAND_block:
  assumes ok: "nand_ok nb v" and b: "b < nb" and small: "erase_count_read v b < 2 ^ 31 - 1"
  shows "\<exists>v'. eraseNAND u (int b) v = (erase_count_read v b + 1, v') \<and> nand_ok nb v'
     \<and> abs_nand v' = (abs_nand v)(b := erased_block (erase_count_read v b + 1))"
proof -
  from ok obtain f where f: "vfd v = Some f" and fv: "file_bytes v = fbytes f"
    and len: "8 + nb * 16776 \<le> length (fbytes f)" by (rule nand_ok_file)
  have nb: "nb \<le> 128009" using ok by (simp add: nand_ok_def)
  define off where "off = 8 + (b + 1) * 16772"
  define ec where "ec = erase_count_read v b"
  have "(Suc b) * 16776 \<le> nb * 16776" using b by (intro mult_le_mono1) simp
  then have fit: "off + 4 \<le> 8 + nb * 16776" by (simp add: off_def)
  have off32: "int32 (16780 + int b * 16772) = int off"
    using fit nb by (simp add: off_def is_int32_def)
  have rd: "read_file 4 (lseek_set (int off) f)
      = (bslice off 4 (fbytes f), (lseek_set (int off) f)\<lparr>fpos := off + 4\<rparr>)"
    using fit len by (subst read_file_within) simp_all
  have buf: "into_buffer (bslice off 4 (fbytes f)) (stack_bytes 4 u) = bslice off 4 (fbytes f)"
    using fit len by (intro into_buffer_full) (simp add: length_bslice)
  have ec_eq: "dec32 (bslice off 4 (fbytes f)) = ec"
    by (simp add: ec_def erase_count_read_def off_def fv)
  let ?f1 = "(lseek_set (int off) f)\<lparr>fpos := off + 4\<rparr>"
  let ?c = "replicate 16768 0 @ enc32 0 @ enc32 (ec + 1)"
  have "eraseNAND u (int b) v = (ec + 1,
      v\<lparr>vfd := Some (write_file ?c (lseek_set (8 + int b * 16776) ?f1))\<rparr>)"
    using fit by (simp add: eraseNAND_def off32 f rd buf ec_eq Let_def nand_ok_features [OF ok])
  moreover have "is_int32 (ec + 1)"
    using small is_int32_dec32 [of "bslice off 4 (fbytes f)"]
    by (simp add: ec_eq ec_def is_int32_def)
  then have "abs_block ?c = erased_block (ec + 1)" by (rule abs_block_erased)
  ultimately show ?thesis
    using replace_block [OF ok f _ b, of ?f1 ?c] by (simp add: ec_def)
qed

text \<open>For block 0 that is the block's own erase count, for block 1 its next-page index.\<close>

lemma erase_count_read_0:
  assumes "nand_ok nb v" "0 < nb"
  shows "erase_count_read v 0 = aerases (abs_nand v 0)"
  using assms
  by (simp add: erase_count_read_def abs_nand_def abs_block_def block_bytes_def bslice_bslice)

lemma erase_count_read_1:
  assumes "nand_ok nb v" "1 < nb"
  shows "erase_count_read v 1 = anext (abs_nand v 1)"
  using assms
  by (simp add: erase_count_read_def abs_nand_def abs_block_def block_bytes_def bslice_bslice)

section \<open>Creating a device\<close>

lemma makeVirtualNAND_file:
  "makeVirtualNAND (Suc a) (int n) (Some \<lparr>fbytes = [], fpos = 0\<rparr>) =
     (0, Some \<lparr>fbytes = enc_features \<lparr>numBlocks = int n, memSize = int32 (8 + 16776 * int n)\<rparr>
           @ replicate (n * 16776 + 1) 0,
         fpos = 8 + n * 16776 + 1\<rparr>)"
proof -
  let ?e = "enc_features \<lparr>numBlocks = int n, memSize = int32 (8 + 16776 * int n)\<rparr>"
  have e: "length ?e = 8" by (simp add: enc_features_def)
  have "nat (8 + 16776 * int n) = 8 + n * 16776" by simp
  with e show ?thesis
    by (simp add: makeVirtualNAND_def Let_def write_file_def lseek_set_def patch_def
        replicate_append_same)
qed

definition fresh_nand :: "nat \<Rightarrow> vnand \<Rightarrow> vnand" where
  "fresh_nand n v = snd (initNAND
     (map_option (fpos_update (\<lambda>_. 0)) (snd (makeVirtualNAND 1 (int n) (Some \<lparr>fbytes = [], fpos = 0\<rparr>)))) v)"

lemma fresh_nand_eq:
  assumes "n < 2 ^ 31"
  shows "fresh_nand n v =
    (let ft = \<lparr>numBlocks = int n, memSize = int32 (8 + 16776 * int n)\<rparr>
     in \<lparr>vfd = Some \<lparr>fbytes = enc_features ft @ replicate (n * 16776 + 1) 0, fpos = 8\<rparr>, features = ft\<rparr>)"
proof -
  let ?ft = "\<lparr>numBlocks = int n, memSize = int32 (8 + 16776 * int n)\<rparr>"
  have e: "length (enc_features ft) = 8" for ft by (simp add: enc_features_def)
  have "dec_features (enc_features ?ft) = ?ft"
    using assms by (intro features.dec_enc) (simp add: features_ok_def is_int32_def [of "int n"])
  then show ?thesis
    using makeVirtualNAND_file [of 0 n]
    by (simp add: fresh_nand_def initNAND_def read_file_def bslice_def Let_def e into_buffer_def)
qed

lemma fresh_nand_ok:
  assumes "n \<le> 128009"
  shows "nand_ok n (fresh_nand n v)" "b < n \<Longrightarrow> abs_nand (fresh_nand n v) b = erased_block 0"
proof -
  let ?ft = "\<lparr>numBlocks = int n, memSize = 8 + 16776 * int n\<rparr>"
  have e: "length (enc_features ft) = 8" for ft by (simp add: enc_features_def)
  have "int32 (8 + 16776 * int n) = 8 + 16776 * int n"
    using assms by (simp add: is_int32_def)
  with assms have eq: "fresh_nand n v =
      \<lparr>vfd = Some \<lparr>fbytes = enc_features ?ft @ replicate (n * 16776 + 1) 0, fpos = 8\<rparr>, features = ?ft\<rparr>"
    by (simp add: fresh_nand_eq Let_def)
  show "nand_ok n (fresh_nand n v)"
    using assms by (simp add: nand_ok_def eq file_bytes_def e)
  assume "b < n"
  then have "(Suc b) * 16776 \<le> n * 16776" by (intro mult_le_mono1) simp
  then have "block_bytes (fresh_nand n v) b = replicate 16776 0"
    by (simp add: block_bytes_def file_bytes_def eq bslice_append2 e bslice_replicate del: replicate_Suc)
  then show "abs_nand (fresh_nand n v) b = erased_block 0"
    by (simp add: abs_nand_def abs_block_zeros)
qed

text \<open>The static variables before \<open>initNAND\<close>, and a three-block device to instantiate with.\<close>

definition vnand0 :: vnand where
  "vnand0 = \<lparr>vfd = None, features = \<lparr>numBlocks = 0, memSize = 0\<rparr>\<rparr>"

definition nand3 :: vnand where
  "nand3 = fresh_nand 3 vnand0"

lemma nand3_ok [simp]: "nand_ok 3 nand3"
  by (simp add: nand3_def fresh_nand_ok)

lemma abs_nand3 [simp]: "b < 3 \<Longrightarrow> abs_nand nand3 b = erased_block 0"
  by (simp add: nand3_def fresh_nand_ok)

lemma page_at_nand3 [simp]: "k < 48 \<Longrightarrow> page_at nand3 k = zero_page"
  by (simp add: page_at_def erased_block_def less_mult_imp_div_less)

lemma page_ok_zero_page [simp]: "page_ok zero_page"
  by (simp add: page_ok_def zero_page_def is_int32_def)

section \<open>The interface of a page store\<close>

text \<open>
  What the rest of the system relies on: a store of pages in which a page that fits
  (is the next free one of its block) can be written, after which it reads back and no
  other page has changed.
\<close>

locale page_store =
  fixes inv :: "'s \<Rightarrow> bool"
    and cap :: nat
    and get :: "'s \<Rightarrow> nat \<Rightarrow> fullPage"
    and fits :: "'s \<Rightarrow> nat \<Rightarrow> bool"
    and put :: "fullPage \<Rightarrow> nat \<Rightarrow> 's \<Rightarrow> 's"
  assumes inv_put: "inv s \<Longrightarrow> k < cap \<Longrightarrow> page_ok p \<Longrightarrow> fits s k \<Longrightarrow> inv (put p k s)"
    and get_put: "inv s \<Longrightarrow> k < cap \<Longrightarrow> page_ok p \<Longrightarrow> fits s k \<Longrightarrow>
       get (put p k s) j = (if j = k then p else get s j)"
    and fits_put: "inv s \<Longrightarrow> k < cap \<Longrightarrow> page_ok p \<Longrightarrow> fits s k \<Longrightarrow> j div 16 \<noteq> k div 16 \<Longrightarrow>
       fits (put p k s) j = fits s j"
begin

lemma put_many:
  assumes "inv s" "distinct (map (\<lambda>k. k div 16) ks)"
    "\<And>k. k \<in> set ks \<Longrightarrow> k < cap \<and> page_ok (g k) \<and> fits s k"
  shows "inv (fold (\<lambda>k. put (g k) k) ks s)
    \<and> (\<forall>j. get (fold (\<lambda>k. put (g k) k) ks s) j = (if j \<in> set ks then g j else get s j))
    \<and> (\<forall>j. j div 16 \<notin> (\<lambda>k. k div 16) ` set ks \<longrightarrow> fits (fold (\<lambda>k. put (g k) k) ks s) j = fits s j)"
  using assms
proof (induction ks arbitrary: s)
  case Nil
  then show ?case by simp
next
  case (Cons k ks)
  let ?s = "put (g k) k s"
  have k: "k < cap" "page_ok (g k)" "fits s k" using Cons.prems(3) by simp_all
  have "inv ?s" using Cons.prems(1) k by (rule inv_put)
  moreover have "distinct (map (\<lambda>k. k div 16) ks)" using Cons.prems(2) by simp
  moreover have "k' < cap \<and> page_ok (g k') \<and> fits ?s k'" if "k' \<in> set ks" for k'
  proof -
    have "k div 16 \<notin> (\<lambda>k. k div 16) ` set ks" using Cons.prems(2) by simp
    then have "k' div 16 \<noteq> k div 16" using that by (auto simp: image_iff)
    with that Cons.prems k show ?thesis by (simp add: fits_put)
  qed
  ultimately have IH: "inv (fold (\<lambda>k. put (g k) k) ks ?s)
    \<and> (\<forall>j. get (fold (\<lambda>k. put (g k) k) ks ?s) j = (if j \<in> set ks then g j else get ?s j))
    \<and> (\<forall>j. j div 16 \<notin> (\<lambda>k. k div 16) ` set ks \<longrightarrow>
          fits (fold (\<lambda>k. put (g k) k) ks ?s) j = fits ?s j)"
    by (rule Cons.IH)
  then show ?case
    using Cons.prems(1) k by (auto simp: get_put fits_put)
qed

end

text \<open>The sequential writer of the library provides it.\<close>

definition append_page :: "stack \<Rightarrow> fullPage \<Rightarrow> nat \<Rightarrow> vnand \<Rightarrow> vnand" where
  "append_page u p k v = snd (the (writeNAND u p (int k) False v))"

definition next_free :: "vnand \<Rightarrow> nat \<Rightarrow> bool" where
  "next_free v k \<longleftrightarrow> int (k mod 16) = anext (abs_nand v (k div 16))"

lemma writeNAND_append:
  assumes "nand_ok nb v" "k < 16 * nb" "page_ok p" "next_free v k"
  shows "writeNAND u p (int k) False v = Some (16776, append_page u p k v)"
    "nand_ok nb (append_page u p k v)"
    "abs_nand (append_page u p k v)
       = (abs_nand v)(k div 16 := put_page p (k mod 16) False (abs_nand v (k div 16)))"
  using writeNAND_page [OF assms(1-3), of False u] assms(4)
  by (auto simp: append_page_def next_free_def)

lemma page_at_upd:
  assumes "abs_nand v' = (abs_nand v)(k div 16 := put_page p (k mod 16) ra (abs_nand v (k div 16)))"
  shows "page_at v' j = (if j = k then p else page_at v j)"
proof -
  have "j = k" if "j div 16 = k div 16" "j mod 16 = k mod 16"
    using that by (metis div_mult_mod_eq)
  then show ?thesis by (auto simp: page_at_def assms put_page_def nth_list_update)
qed

interpretation seq: page_store "nand_ok nb" "16 * nb" page_at next_free "append_page u" for nb u
proof
  fix s k p j
  assume a: "nand_ok nb s" "k < 16 * nb" "page_ok p" "next_free s k"
  show "nand_ok nb (append_page u p k s)" using a by (rule writeNAND_append)
  show "page_at (append_page u p k s) j = (if j = k then p else page_at s j)"
    using writeNAND_append(3) [OF a] by (rule page_at_upd)
  show "next_free (append_page u p k s) j = next_free s j" if "j div 16 \<noteq> k div 16"
    using that writeNAND_append(3) [OF a] by (simp add: next_free_def)
qed

section \<open>Detaching and attaching again\<close>

text \<open>
  A file whose first bytes describe the device that is attached: closing it and attaching
  it again gives the same memory. Writing keeps this, so the page store interface also holds
  with the stronger invariant.
\<close>

definition image_ok :: "nat \<Rightarrow> vnand \<Rightarrow> bool" where
  "image_ok nb v \<longleftrightarrow> nand_ok nb v \<and> take 8 (file_bytes v) = enc_features (features v)"

lemma image_ok_nand_ok [simp]: "image_ok nb v \<Longrightarrow> nand_ok nb v"
  by (simp add: image_ok_def)

lemma writeNAND_header:
  assumes "nand_ok nb v" "k < 16 * nb" "writeNAND u p (int k) ra v = Some (r, v')"
  shows "take 8 (file_bytes v') = take 8 (file_bytes v)" "features v' = features v"
proof -
  from assms(1) obtain f where f: "vfd v = Some f" "file_bytes v = fbytes f"
    and len: "8 + nb * 16776 \<le> length (fbytes f)" by (rule nand_ok_file)
  have b: "k div 16 < nb" using assms(2) by (simp add: less_mult_imp_div_less mult.commute)
  define off where "off = k div 16 * 16776"
  have o: "8 + off \<le> length (fbytes f)"
    using b len by (simp add: off_def)
  have sk: "int (k div 16) * 16776 = int off" "nat (8 + int off) = 8 + off" by (simp_all add: off_def)
  have "take 8 (patch (8 + off) c (fbytes f)) = take 8 (fbytes f)" for c
    using o by (simp add: patch_def)
  then show "take 8 (file_bytes v') = take 8 (file_bytes v)" "features v' = features v"
    using assms(3) o f
    by (auto simp: writeNAND_def Let_def file_bytes_def read_file_def write_file_within sk
        split: if_splits)
qed

lemma nand_ok_same_features: "nand_ok nb v \<Longrightarrow> nand_ok nb v' \<Longrightarrow> features v' = features v"
  by (simp add: nand_ok_def)

lemma image_ok_read: "image_ok nb v \<Longrightarrow> nand_ok nb v' \<Longrightarrow> file_bytes v' = file_bytes v \<Longrightarrow> image_ok nb v'"
  unfolding image_ok_def using nand_ok_same_features [of nb v v'] by metis

lemma image_ok_write:
  assumes "image_ok nb v" "k < 16 * nb" "page_ok p" "writeNAND u p (int k) ra v = Some (r, v')"
  shows "image_ok nb v'"
proof -
  have "nand_ok nb v'"
    using writeNAND_page [of nb v k p ra u] assms by (auto split: if_splits)
  with writeNAND_header [OF _ assms(2,4)] assms(1) show ?thesis by (simp add: image_ok_def)
qed

interpretation img: page_store "image_ok nb" "16 * nb" page_at next_free "append_page u" for nb u
proof
  fix s k p j
  assume a: "image_ok nb s" "k < 16 * nb" "page_ok p" "next_free s k"
  have n: "nand_ok nb s" using a(1) by simp
  show "image_ok nb (append_page u p k s)"
    using image_ok_write [OF a(1-3) writeNAND_append(1) [OF n a(2-4)]] .
  show "page_at (append_page u p k s) j = (if j = k then p else page_at s j)"
    using n a(2-4) by (rule seq.get_put)
  show "next_free (append_page u p k s) j = next_free s j" if "j div 16 \<noteq> k div 16"
    using n a(2-4) that by (rule seq.fits_put)
qed

lemma reattach:
  assumes "image_ok nb v" "vfd v = Some f"
  shows "initNAND (Some (f\<lparr>fpos := 0\<rparr>)) v0 = (features v, v\<lparr>vfd := Some (f\<lparr>fpos := 8\<rparr>)\<rparr>)"
    "image_ok nb (v\<lparr>vfd := Some (f\<lparr>fpos := 8\<rparr>)\<rparr>)" "abs_nand (v\<lparr>vfd := Some (f\<lparr>fpos := 8\<rparr>)\<rparr>) = abs_nand v"
proof -
  let ?v = "v\<lparr>vfd := Some (f\<lparr>fpos := 8\<rparr>)\<rparr>"
  have t: "take 8 (fbytes f) = enc_features (features v)" and ok: "nand_ok nb v"
    using assms by (simp_all add: image_ok_def file_bytes_def)
  have e: "length (enc_features ft) = 8" for ft by (simp add: enc_features_def)
  have l: "length (fbytes f) \<ge> 8" using t e by (metis length_take min.cobounded1)
  have "features_ok (features v)"
    using ok by (simp add: nand_ok_def features_ok_def is_int32_def)
  then have "dec_features (enc_features (features v)) = features v"
    by (rule features.dec_enc)
  then show "initNAND (Some (f\<lparr>fpos := 0\<rparr>)) v0 = (features v, ?v)"
    using t l by (simp add: initNAND_def read_file_def bslice_def into_buffer_def e Let_def)
  have fb: "file_bytes ?v = file_bytes v" using assms(2) by (simp add: file_bytes_def)
  show "abs_nand ?v = abs_nand v" using fb by (rule abs_nand_cong)
  show "image_ok nb ?v" using assms(1) fb by (simp add: image_ok_def nand_ok_def)
qed

lemma image_ok_fresh: "n \<le> 128009 \<Longrightarrow> image_ok n (fresh_nand n v)"
  using fresh_nand_ok(1) [of n v]
  by (simp add: image_ok_def fresh_nand_eq Let_def file_bytes_def)
    (simp add: enc_features_def)

section \<open>What the device guarantees\<close>

text \<open>
  C3. Sequential writing implements the abstract memory: on a device of \<open>nb\<close> blocks
  \<open>writeNAND\<close> refuses every page that is not the next free one of its block and leaves the
  memory alone, and otherwise stores the page and advances that block's next-page index;
  a random-access write stores the page without the check and without advancing.
\<close>

theorem writeNAND_refines:
  assumes "nand_ok nb v" "k < 16 * nb" "page_ok p"
  shows "if \<not> ra \<and> int (k mod 16) \<noteq> anext (abs_nand v (k div 16))
     then \<exists>v'. writeNAND u p (int k) ra v = Some (-1, v') \<and> nand_ok nb v' \<and> abs_nand v' = abs_nand v
     else \<exists>v'. writeNAND u p (int k) ra v = Some (16776, v') \<and> nand_ok nb v'
        \<and> abs_nand v' = (abs_nand v)(k div 16 := put_page p (k mod 16) ra (abs_nand v (k div 16)))"
  by (rule writeNAND_page [OF assms])

theorem writeNAND_refines_witness:
  "\<exists>v' v''. writeNAND (\<lambda>_. 7) zero_page 17 False nand3 = Some (-1, v')
     \<and> writeNAND (\<lambda>_. 7) zero_page 16 False nand3 = Some (16776, v'')"
  using writeNAND_refines [of 3 nand3 17 zero_page False "\<lambda>_. 7"]
    writeNAND_refines [of 3 nand3 16 zero_page False "\<lambda>_. 7"]
  by (auto simp: erased_block_def)

text \<open>
  C2. Read after write: a page that \<open>writeNAND\<close> accepted is what \<open>readNAND\<close> then returns,
  and every other page of the device still reads as it did before the write.
\<close>

theorem readNAND_after_writeNAND:
  assumes "nand_ok nb v" "k < 16 * nb" "page_ok p" "page_ok buf" "j < 16 * nb"
    "writeNAND u p (int k) ra v = Some (r, v')" "r \<noteq> -1"
  shows "\<exists>v1 v2. readNAND buf (int j) v' = (1048, if j = k then p else page_at v j, v1)
     \<and> readNAND buf (int j) v = (1048, page_at v j, v2)"
proof -
  have w: "nand_ok nb v'" "abs_nand v' = (abs_nand v)(k div 16 :=
      put_page p (k mod 16) ra (abs_nand v (k div 16)))"
    using writeNAND_page [OF assms(1-3), of ra u] assms(6,7) by (auto split: if_splits)
  show ?thesis
    using readNAND_page [OF w(1) assms(5,4)] readNAND_page [OF assms(1,5,4)] page_at_upd [OF w(2), of j]
    by auto
qed

theorem readNAND_after_writeNAND_witness:
  "\<exists>v1 v2. readNAND zero_page 16
      (snd (the (writeNAND (\<lambda>_. 7) (zero_page\<lparr>pageType := 4\<rparr>) 16 False nand3))) = (1048, zero_page\<lparr>pageType := 4\<rparr>, v1)
     \<and> readNAND zero_page 16 nand3 = (1048, zero_page, v2)"
proof -
  have p: "page_ok (zero_page\<lparr>pageType := 4\<rparr>)" by (simp add: page_ok_def zero_page_def is_int32_def)
  obtain v' where w: "writeNAND (\<lambda>_. 7) (zero_page\<lparr>pageType := 4\<rparr>) (int 16) False nand3 = Some (16776, v')"
    using writeNAND_page [of 3 nand3 16 "zero_page\<lparr>pageType := 4\<rparr>" False "\<lambda>_. 7"] p
    by (auto simp: erased_block_def)
  have w': "writeNAND (\<lambda>_. 7) (zero_page\<lparr>pageType := 4\<rparr>) 16 False nand3 = Some (16776, v')" using w by simp
  from readNAND_after_writeNAND [OF nand3_ok _ p page_ok_zero_page _ w, of 16] show ?thesis by (simp add: w')
qed

text \<open>
  Erasing a block clears its sixteen pages and resets its next-page index, so the whole
  block can be written sequentially again, and leaves every other block alone. The new erase
  count is one more than the number found \<open>4 * b\<close> bytes before the block's own count:
  the count itself for block 0, the next-page index for block 1.
\<close>

theorem eraseNAND_refines:
  assumes "nand_ok nb v" "b < nb" "erase_count_read v b < 2 ^ 31 - 1"
  shows "\<exists>v'. eraseNAND u (int b) v = (erase_count_read v b + 1, v') \<and> nand_ok nb v'
     \<and> abs_nand v' = (abs_nand v)(b := erased_block (erase_count_read v b + 1))
     \<and> next_free v' (16 * b)
     \<and> (b = 0 \<longrightarrow> aerases (abs_nand v' 0) = aerases (abs_nand v 0) + 1)
     \<and> (b = 1 \<longrightarrow> aerases (abs_nand v' 1) = anext (abs_nand v 1) + 1)"
proof -
  from eraseNAND_block [OF assms] obtain v' where
    v': "eraseNAND u (int b) v = (erase_count_read v b + 1, v')" "nand_ok nb v'"
    "abs_nand v' = (abs_nand v)(b := erased_block (erase_count_read v b + 1))" by blast
  have "next_free v' (16 * b)" by (simp add: next_free_def v'(3) erased_block_def)
  moreover have "aerases (abs_nand v' 0) = aerases (abs_nand v 0) + 1" if "b = 0"
    using that assms(2) erase_count_read_0 [OF assms(1)] by (simp add: v'(3) erased_block_def)
  moreover have "aerases (abs_nand v' 1) = anext (abs_nand v 1) + 1" if "b = 1"
    using that assms(2) erase_count_read_1 [OF assms(1)] by (simp add: v'(3) erased_block_def)
  ultimately show ?thesis using v' by simp
qed

theorem eraseNAND_refines_witness:
  "\<exists>v'. eraseNAND (\<lambda>_. 7) 1 nand3 = (1, v') \<and> next_free v' 16"
proof -
  have e: "erase_count_read nand3 1 = 0"
    using erase_count_read_1 [OF nand3_ok] by (simp add: erased_block_def)
  show ?thesis using eraseNAND_refines [of 3 nand3 1 "\<lambda>_. 7"] by (auto simp: e [simplified])
qed

text \<open>
  A device made by \<open>makeVirtualNAND\<close> with at most 128009 blocks and attached by
  \<open>initNAND\<close> has the number of blocks asked for, all of them erased, with erase count 0 and
  page 0 the next free one.
\<close>

theorem makeVirtualNAND_then_initNAND:
  assumes "n \<le> 128009"
  shows "\<exists>f. makeVirtualNAND 1 (int n) (Some \<lparr>fbytes = [], fpos = 0\<rparr>) = (0, Some f)
     \<and> (let (ft, v') = initNAND (Some (f\<lparr>fpos := 0\<rparr>)) v
        in numBlocks ft = int n \<and> nand_ok n v' \<and> (\<forall>b < n. abs_nand v' b = erased_block 0 \<and> next_free v' (16 * b)))"
proof -
  obtain f where f: "makeVirtualNAND 1 (int n) (Some \<lparr>fbytes = [], fpos = 0\<rparr>) = (0, Some f)"
    using makeVirtualNAND_file [of 0 n] by auto
  obtain ft v' where i: "initNAND (Some (f\<lparr>fpos := 0\<rparr>)) v = (ft, v')" by fastforce
  have v': "v' = fresh_nand n v" using f i by (simp add: fresh_nand_def)
  have "ft = features v'" using i by (auto simp: initNAND_def Let_def split: prod.splits)
  then have "numBlocks ft = int n" using fresh_nand_ok(1) [OF assms, where v = v] by (simp add: v' nand_ok_def)
  moreover have "next_free v' (16 * b)" if "b < n" for b
    using fresh_nand_ok(2) [OF assms that, where v = v] by (simp add: v' next_free_def erased_block_def)
  ultimately show ?thesis
    using f i fresh_nand_ok [OF assms, where v = v] by (simp add: v')
qed

theorem makeVirtualNAND_then_initNAND_witness:
  "\<exists>f. makeVirtualNAND 1 3 (Some \<lparr>fbytes = [], fpos = 0\<rparr>) = (0, Some f)
     \<and> nand_ok 3 (snd (initNAND (Some (f\<lparr>fpos := 0\<rparr>)) vnand0))"
  using makeVirtualNAND_then_initNAND [of 3 vnand0] by (auto simp: split_beta)

text \<open>
  The size of a device is kept in an \<open>int\<close>. A device of 128010 to 256018 blocks is
  created with a negative size, and after attaching it every read and write is refused.
\<close>

theorem oversized_device_unusable:
  assumes "128010 \<le> n" "n \<le> 256018" "k < 16 * 128009"
  shows "readNAND buf (int k) (fresh_nand n v) = (-1, buf, fresh_nand n v)
     \<and> writeNAND u p (int k) ra (fresh_nand n v) = Some (-1, fresh_nand n v)"
proof -
  have m: "int32 (8 + 16776 * int n) < 0"
  proof -
    have "8 + 16776 * int n + 2147483648 = (16776 * int n + 8 - 2147483648) + 4294967296" by simp
    then have "(8 + 16776 * int n + 2147483648) mod 4294967296
        = (16776 * int n + 8 - 2147483648) mod 4294967296" by (simp only: mod_add_self2)
    also have "\<dots> = 16776 * int n + 8 - 2147483648" using assms(1,2) by (intro mod_pos_pos_trivial) simp_all
    finally have "(8 + 16776 * int n + 2147483648) mod 4294967296 = 16776 * int n + 8 - 2147483648" .
    with assms(2) show ?thesis by (simp add: int32_def)
  qed
  have o: "is_int32 (8 + int (k div 16) * 16776)" "k div 16 \<le> 128008" using assms(3)
    by (auto intro!: block_offset_fits)
  have mem: "memSize (features (fresh_nand n v)) = int32 (8 + 16776 * int n)"
    using assms(2) by (simp add: fresh_nand_eq Let_def)
  show ?thesis
    using m o page_offset_fits [of k] assms(3) by (simp add: readNAND_def writeNAND_def mem Let_def)
qed

theorem oversized_device_unusable_witness:
  "readNAND zero_page 0 (fresh_nand 128010 vnand0) = (-1, zero_page, fresh_nand 128010 vnand0)"
  using oversized_device_unusable [of 128010 0 zero_page vnand0] by simp

end
