(* ===== verification/Free_Space.thy ===== *)
theory Free_Space
  imports VNAND
begin

text \<open>
  Allocation of virtual addresses, blocks and pages: \<open>getFreePtr\<close>, \<open>getFreeBlock\<close> and
  \<open>getFreePage\<close> of \<open>example/helper.c\<close>, and \<open>logs_recycle\<close> of \<open>example/logs.c\<close>.

  The free slots of the address map and the two free lists of blocks are linked lists
  threaded through the map and through the NAND pages. \<open>slot_chain\<close> and \<open>partial_chain\<close>
  read them off as HOL lists; allocation is shown to take the head of the list, and
  recycling to append to it, wherever the code does that. The cases where it does
  something else (exhaustion, a stale tail, a full last block) are theorems too.
\<close>

section \<open>Virtual addresses\<close>

definition getFreePtr :: "addrMap \<Rightarrow> (int \<times> addrMap) option" where
  "getFreePtr m =
     (let ptr = freePtr m in
      if 0 \<le> ptr \<and> ptr < int (length (vmap m))
      then Some (ptr, m\<lparr>freePtr := \<bar>vmap m ! nat ptr\<bar>\<rparr>)
      else None)"

section \<open>Blocks\<close>

text \<open>Result: the erase count returned, \<open>*freePage\<close>, the updated lists and memory.\<close>

definition getFreeBlock :: "stack \<Rightarrow> freeList \<Rightarrow> bool \<Rightarrow> vnand \<Rightarrow> int \<times> int \<times> freeList \<times> vnand" where
  "getFreeBlock u fl newFile v =
     (if \<not> newFile \<or> partialHead fl = 0 then
        let freePage = completeHead fl;
            freePageErases = completeHeadErases fl;
            (r, buf, v1) = readNAND (stack_page u)
              (((freePage + BLOCKSIZE) sdiv BLOCKSIZE) * BLOCKSIZE - 1) v;
            fl' = fl\<lparr>completeHead := nextLogBlock buf,
                           completeHeadErases := nextBlockErases buf\<rparr>;
            (e, v2) = eraseNAND u (freePage sdiv BLOCKSIZE) v1
        in (freePageErases, freePage, fl', v2)
      else
        let freePage = partialHead fl + 1;
            freePageErases = partialHeadErases fl;
            (r, buf, v1) = readNAND (stack_page u) (partialHead fl) v;
            fl' = fl\<lparr>partialHead := nextLogBlock buf,
                           partialHeadErases := nextBlockErases buf\<rparr>
        in (freePageErases, freePage, fl', v1))"

section \<open>Pages\<close>

definition getFreePage ::
  "stack \<Rightarrow> freeList \<Rightarrow> activeLog \<Rightarrow> vnand \<Rightarrow> writeablePage \<times> freeList \<times> activeLog \<times> vnand" where
  "getFreePage u fl log v =
     (let addr = nextPage log;
          page = stack_page u;
          active1 = (\<lambda>l. l\<lparr>log_hdr := (log_hdr l)\<lparr>active := active (log_hdr l) + 1\<rparr>\<rparr>)
      in if addr smod BLOCKSIZE = 0 then
           (\<lparr>nandPage = page\<lparr>eraseCount := lastErases log\<rparr>, address = addr\<rparr>,
            fl, active1 (log\<lparr>nextPage := nextPage log + 1\<rparr>), v)
         else if (addr + 3) smod BLOCKSIZE = 0 then
           (\<lparr>nandPage = page, address = addr\<rparr>, fl,
            active1 (log\<lparr>nextPage := prev (log_hdr log) * BLOCKSIZE + (BLOCKSIZE - 1)\<rparr>), v)
         else if (addr + 2) smod BLOCKSIZE = 0 then
           let (er, fst_page, fl', v') = getFreeBlock u fl False v
           in (\<lparr>nandPage = page\<lparr>nextLogBlock := fst_page, nextBlockErases := er\<rparr>, address = addr\<rparr>,
               fl', active1 (log\<lparr>lastErases := er, nextPage := fst_page,
                                    lastBlock := fst_page sdiv BLOCKSIZE\<rparr>), v')
         else if (addr + 1) smod BLOCKSIZE = 0 then
           (\<lparr>nandPage = page\<lparr>nextLogBlock := lastBlock log * BLOCKSIZE,
                              nextBlockErases := lastErases log\<rparr>, address = addr\<rparr>,
            fl, active1 (log\<lparr>nextPage := lastBlock log * BLOCKSIZE + (BLOCKSIZE - 2)\<rparr>), v)
         else
           (\<lparr>nandPage = page, address = addr\<rparr>, fl,
            active1 (log\<lparr>nextPage := nextPage log + 1\<rparr>), v))"

section \<open>Recycling the blocks of a log\<close>

definition logs_recycle ::
  "stack \<Rightarrow> logHeader \<Rightarrow> int \<Rightarrow> int \<Rightarrow> freeList \<times> vnand \<Rightarrow> (freeList \<times> vnand) option" where
  "logs_recycle u log np nextErases s = do {
     (lastFullBlock, fl, v) \<leftarrow>
       (if np smod BLOCKSIZE \<le> BLOCKSIZE - 3 then do {
          (fl, v) \<leftarrow>
            (if partialTail (fst s) = 0 then Some ((fst s)\<lparr>partialHead := np\<rparr>, snd s)
             else do {
               (r, v) \<leftarrow> writeNAND u (zero_page\<lparr>nextLogBlock := np\<rparr>) (partialTail (fst s)) False (snd s);
               Some (fst s, v) });
          Some (if np sdiv BLOCKSIZE \<noteq> first log then prev log else 0,
                fl\<lparr>partialTail := np\<rparr>, v) }
        else Some (np smod BLOCKSIZE, fst s, snd s));
     if lastFullBlock \<noteq> 0 then do {
       (fl, v) \<leftarrow>
         (if completeTail fl \<noteq> 0 then do {
            (r, v) \<leftarrow> writeNAND u
               (zero_page\<lparr>nextLogBlock := first log, nextBlockErases := firstErases log\<rparr>)
               (completeTail fl) True v;
            Some (fl, v) }
          else Some (fl\<lparr>completeHead := first log, completeHeadErases := firstErases log\<rparr>, v));
       Some (fl\<lparr>completeTail := lastFullBlock\<rparr>, v) }
     else Some (fl, v) }"

section \<open>Free slots of the address map\<close>

text \<open>The slots reached from \<open>p\<close> by following the absolute values of the entries, up to 0.\<close>

fun slot_chain :: "int list \<Rightarrow> int \<Rightarrow> nat list \<Rightarrow> bool" where
  "slot_chain vm p [] \<longleftrightarrow> p = 0"
| "slot_chain vm p (x # xs) \<longleftrightarrow>
     p = int x \<and> 0 < x \<and> x < length vm \<and> slot_chain vm \<bar>vm ! x\<bar> xs"

text \<open>\<open>n\<close> allocations in a row.\<close>

fun take_ptrs :: "nat \<Rightarrow> addrMap \<Rightarrow> (int list \<times> addrMap) option" where
  "take_ptrs 0 m = Some ([], m)"
| "take_ptrs (Suc n) m = do {
     (p, m) \<leftarrow> getFreePtr m;
     (ps, m) \<leftarrow> take_ptrs n m;
     Some (p # ps, m) }"

lemma getFreePtr_chain:
  assumes "slot_chain (vmap m) (freePtr m) (x # xs)"
  shows "getFreePtr m = Some (int x, m\<lparr>freePtr := \<bar>vmap m ! x\<bar>\<rparr>)"
    "slot_chain (vmap m) \<bar>vmap m ! x\<bar> xs"
  using assms by (auto simp: getFreePtr_def Let_def)

lemma take_ptrs_chain:
  assumes "slot_chain (vmap m) (freePtr m) xs" "n \<le> length xs"
  shows "\<exists>m'. take_ptrs n m = Some (map int (take n xs), m') \<and> vmap m' = vmap m
     \<and> map_size m' = map_size m \<and> slot_chain (vmap m') (freePtr m') (drop n xs)"
  using assms
proof (induction n arbitrary: m xs)
  case 0
  then show ?case by simp
next
  case (Suc n)
  then obtain x ys where xs: "xs = x # ys" by (cases xs) auto
  let ?m = "m\<lparr>freePtr := \<bar>vmap m ! x\<bar>\<rparr>"
  have step: "getFreePtr m = Some (int x, ?m)" and "slot_chain (vmap ?m) (freePtr ?m) ys"
    using getFreePtr_chain Suc.prems(1) unfolding xs by auto
  with Suc.IH [of ?m ys] Suc.prems(2) xs show ?case by (auto simp: xs step)
qed

lemma slot_chain_in_map: "slot_chain vm p xs \<Longrightarrow> x \<in> set xs \<Longrightarrow> 0 < x \<and> x < length vm"
  by (induction vm p xs rule: slot_chain.induct) auto

lemma slot_chain_unique: "slot_chain vm p xs \<Longrightarrow> slot_chain vm p ys \<Longrightarrow> xs = ys"
proof (induction vm p xs arbitrary: ys rule: slot_chain.induct)
  case (1 vm p)
  then show ?case by (cases ys) auto
next
  case (2 vm p x xs)
  then show ?case by (cases ys) auto
qed

lemma slot_chain_append:
  "slot_chain vm p (xs @ y # ys) \<Longrightarrow> slot_chain vm (int y) (y # ys)"
  by (induction vm p xs rule: slot_chain.induct) auto

lemma slot_chain_distinct: "slot_chain vm p xs \<Longrightarrow> distinct xs"
proof (induction vm p xs rule: slot_chain.induct)
  case (1 vm p)
  then show ?case by simp
next
  case (2 vm p x xs)
  have "x \<notin> set xs"
  proof
    assume "x \<in> set xs"
    then obtain as bs where xs: "xs = as @ x # bs" by (auto simp: in_set_conv_decomp)
    from 2 have c: "slot_chain vm (int x) (x # xs)" by simp
    have "slot_chain vm (int x) (x # bs)"
      using slot_chain_append [of vm "int x" "x # as" x bs] c xs by simp
    with c have "x # xs = x # bs" by (rule slot_chain_unique)
    with xs show False by simp
  qed
  with 2 show ?case by simp
qed

section \<open>Free lists of blocks\<close>

text \<open>
  The partially used free list: each element is the page that holds the link to the next;
  the block is handed out from the page after it.
\<close>

fun partial_chain :: "nat \<Rightarrow> vnand \<Rightarrow> int \<Rightarrow> nat list \<Rightarrow> bool" where
  "partial_chain nb v h [] \<longleftrightarrow> h = 0"
| "partial_chain nb v h (x # xs) \<longleftrightarrow>
     h = int x \<and> 0 < x \<and> x < 16 * nb \<and> partial_chain nb v (nextLogBlock (page_at v x)) xs"

lemma partial_chain_cong: "page_at v' = page_at v \<Longrightarrow> partial_chain nb v' h xs = partial_chain nb v h xs"
  by (induction nb v h xs rule: partial_chain.induct) auto

lemma getFreeBlock_partial:
  assumes ok: "nand_ok nb v" and chain: "partial_chain nb v (partialHead fl) (x # xs)"
  shows "\<exists>v'. getFreeBlock u fl True v = (partialHeadErases fl, int x + 1,
        fl\<lparr>partialHead := nextLogBlock (page_at v x),
           partialHeadErases := nextBlockErases (page_at v x)\<rparr>, v')
      \<and> nand_ok nb v' \<and> file_bytes v' = file_bytes v"
proof -
  from chain have x: "partialHead fl = int x" "0 < x" "x < 16 * nb" by auto
  from readNAND_page [OF ok x(3) page_ok_stack_page] obtain v' where
    "readNAND (stack_page u) (int x) v = (1048, page_at v x, v')"
    "nand_ok nb v'" "file_bytes v' = file_bytes v" by blast
  with x show ?thesis by (simp add: getFreeBlock_def Let_def)
qed

text \<open>\<open>n\<close> new-file allocations in a row: the pages handed out.\<close>

fun take_blocks :: "stack \<Rightarrow> nat \<Rightarrow> freeList \<Rightarrow> vnand \<Rightarrow> int list \<times> freeList \<times> vnand" where
  "take_blocks u 0 fl v = ([], fl, v)"
| "take_blocks u (Suc n) fl v =
     (let (er, pg, fl, v) = getFreeBlock u fl True v;
          (pgs, fl, v) = take_blocks u n fl v
      in (pg # pgs, fl, v))"

lemma take_blocks_chain:
  assumes "nand_ok nb v" "partial_chain nb v (partialHead fl) xs" "n \<le> length xs"
  shows "\<exists>fl' v'. take_blocks u n fl v = (map (\<lambda>x. int x + 1) (take n xs), fl', v')
     \<and> nand_ok nb v' \<and> file_bytes v' = file_bytes v
     \<and> partial_chain nb v' (partialHead fl') (drop n xs)"
  using assms
proof (induction n arbitrary: fl v xs)
  case 0
  then show ?case by simp
next
  case (Suc n)
  then obtain x ys where xs: "xs = x # ys" by (cases xs) auto
  define fl1 where "fl1 = fl\<lparr>partialHead := nextLogBlock (page_at v x),
           partialHeadErases := nextBlockErases (page_at v x)\<rparr>"
  from getFreeBlock_partial [OF Suc.prems(1) Suc.prems(2) [unfolded xs], of u]
  obtain v1 where step: "getFreeBlock u fl True v = (partialHeadErases fl, int x + 1, fl1, v1)"
    and v1: "nand_ok nb v1" "file_bytes v1 = file_bytes v" unfolding fl1_def by blast
  from v1(2) have pg: "page_at v1 = page_at v" by (intro page_at_cong abs_nand_cong)
  from Suc.prems(2) xs have chain: "partial_chain nb v1 (partialHead fl1) ys"
    by (simp add: partial_chain_cong [OF pg] fl1_def)
  have "n \<le> length ys" using Suc.prems(3) xs by simp
  from Suc.IH [OF v1(1) chain this] obtain fl' v' where
    "take_blocks u n fl1 v1 = (map (\<lambda>x. int x + 1) (take n ys), fl', v')"
    "nand_ok nb v'" "file_bytes v' = file_bytes v1"
    "partial_chain nb v' (partialHead fl') (drop n ys)" by blast
  then show ?case by (simp add: step xs v1(2))
qed

lemma getFreeBlock_complete:
  assumes ok: "nand_ok nb v" and h: "completeHead fl = int h" "h < 16 * nb"
    and which: "\<not> newFile \<or> partialHead fl = 0"
    and small: "erase_count_read v (h div 16) < 2 ^ 31 - 1"
  shows "\<exists>v'. getFreeBlock u fl newFile v = (completeHeadErases fl, int h,
        fl\<lparr>completeHead := nextLogBlock (page_at v (16 * (h div 16) + 15)),
           completeHeadErases := nextBlockErases (page_at v (16 * (h div 16) + 15))\<rparr>, v')
      \<and> nand_ok nb v'
      \<and> abs_nand v' = (abs_nand v)(h div 16 := erased_block (erase_count_read v (h div 16) + 1))"
proof -
  let ?l = "16 * (h div 16) + 15"
  from h have b: "h div 16 < nb" by (simp add: less_mult_imp_div_less mult.commute)
  then have "?l < 16 * nb" by simp
  from readNAND_page [OF ok this page_ok_stack_page] obtain v1 where
    rd: "readNAND (stack_page u) (int ?l) v = (1048, page_at v ?l, v1)"
    and v1: "nand_ok nb v1" "file_bytes v1 = file_bytes v" by blast
  have "(int h + 16) div 16 = int h div 16 + 1" by simp
  then have l: "((int h + 16) sdiv 16) * 16 - 1 = int ?l"
    by (simp add: sdiv_nonneg zdiv_int)
  from v1(2) have e: "erase_count_read v1 = erase_count_read v" "abs_nand v1 = abs_nand v"
    by (rule erase_count_read_cong, rule abs_nand_cong)
  have "erase_count_read v1 (h div 16) < 2 ^ 31 - 1" using small by (simp only: e)
  from eraseNAND_block [OF v1(1) b this, of u] obtain v2 where
    "eraseNAND u (int (h div 16)) v1 = (erase_count_read v (h div 16) + 1, v2)"
    "nand_ok nb v2"
    "abs_nand v2 = (abs_nand v)(h div 16 := erased_block (erase_count_read v (h div 16) + 1))"
    unfolding e by blast
  moreover have "readNAND (stack_page u) (((int h + 16) sdiv 16) * 16 - 1) v = (1048, page_at v ?l, v1)"
    using rd by (simp only: l)
  ultimately show ?thesis
    using which by (simp add: getFreeBlock_def h(1))
qed

section \<open>The pages of a log\<close>

fun take_pages :: "stack \<Rightarrow> nat \<Rightarrow> freeList \<Rightarrow> activeLog \<Rightarrow> vnand
    \<Rightarrow> writeablePage list \<times> freeList \<times> activeLog \<times> vnand" where
  "take_pages u 0 fl l v = ([], fl, l, v)"
| "take_pages u (Suc n) fl l v =
     (let (w, fl, l, v) = getFreePage u fl l v;
          (ws, fl, l, v) = take_pages u n fl l v
      in (w # ws, fl, l, v))"

lemma take_pages_add:
  "take_pages u (m + n) fl l v =
     (let (ws, fl, l, v) = take_pages u m fl l v;
          (ws', fl, l, v) = take_pages u n fl l v
      in (ws @ ws', fl, l, v))"
  by (induction m arbitrary: fl l v) (auto simp: Let_def split: prod.splits)

definition used_pages :: "nat \<Rightarrow> activeLog \<Rightarrow> activeLog" where
  "used_pages n l = l\<lparr>log_hdr := (log_hdr l)\<lparr>active := active (log_hdr l) + of_nat n\<rparr>\<rparr>"

lemma getFreePage_middle:
  assumes "nextPage l = 16 * int b + int i" "i \<le> 12"
  shows "getFreePage u fl l v =
     (\<lparr>nandPage = (if i = 0 then (stack_page u)\<lparr>eraseCount := lastErases l\<rparr> else stack_page u),
        address = 16 * int b + int i\<rparr>,
      fl, used_pages 1 (l\<lparr>nextPage := 16 * int b + int i + 1\<rparr>), v)"
proof -
  have m: "(16 * int b + int i + c) smod 16 = (int i + c) mod 16" if "0 \<le> c" for c
    using that by (simp add: smod_nonneg add.assoc)
  have "(int i + 3) mod 16 \<noteq> 0" "(int i + 2) mod 16 \<noteq> 0" "(int i + 1) mod 16 \<noteq> 0"
    "int i mod 16 = 0 \<longleftrightarrow> i = 0"
    using assms(2) by presburger+
  with m [of 0] m [of 1] m [of 2] m [of 3] assms show ?thesis
    by (auto simp: getFreePage_def Let_def used_pages_def)
qed

lemma used_pages_simps [simp]:
  "nextPage (used_pages n l) = nextPage l" "lastBlock (used_pages n l) = lastBlock l"
  "lastErases (used_pages n l) = lastErases l" "prev (log_hdr (used_pages n l)) = prev (log_hdr l)"
  "used_pages n (used_pages m l) = used_pages (n + m) l" "used_pages 0 l = l"
  "(used_pages n l)\<lparr>nextPage := a\<rparr> = used_pages n (l\<lparr>nextPage := a\<rparr>)"
  by (simp_all add: used_pages_def ac_simps)

text \<open>Within a block the pages come in order, from wherever the log stands up to page 12.\<close>

lemma take_pages_middle:
  assumes "nextPage l = 16 * int b + int i" "i + n \<le> 13"
  shows "\<exists>ws. take_pages u n fl l v =
      (ws, fl, used_pages n (l\<lparr>nextPage := 16 * int b + int (i + n)\<rparr>), v)
    \<and> map address ws = map (\<lambda>j. 16 * int b + int j) [i..<i + n]"
  using assms
proof (induction n arbitrary: i l)
  case 0
  then show ?case by simp
next
  case (Suc n)
  then have i: "i \<le> 12" by simp
  let ?l = "used_pages 1 (l\<lparr>nextPage := 16 * int b + int i + 1\<rparr>)"
  have "nextPage ?l = 16 * int b + int (Suc i)" by simp
  from Suc.IH [OF this] Suc.prems(2) obtain ws where ws:
    "take_pages u n fl ?l v = (ws, fl, used_pages (Suc n) (l\<lparr>nextPage := 16 * int b + int (Suc i + n)\<rparr>), v)"
    "map address ws = map (\<lambda>j. 16 * int b + int j) [Suc i..<Suc i + n]" by auto
  have "[i..<i + Suc n] = i # [Suc i..<Suc i + n]" by (simp add: upt_conv_Cons)
  with ws show ?case by (simp add: getFreePage_middle [OF Suc.prems(1) i])
qed

lemma smod_16 [simp]: "0 \<le> c \<Longrightarrow> (16 * int b + c) smod 16 = c mod 16"
  by (simp add: smod_nonneg)

lemma getFreePage_13:
  assumes "nextPage l = 16 * int b + 13"
  shows "getFreePage u fl l v = (\<lparr>nandPage = stack_page u, address = 16 * int b + 13\<rparr>, fl,
     used_pages 1 (l\<lparr>nextPage := prev (log_hdr l) * 16 + 15\<rparr>), v)"
  using assms by (simp add: getFreePage_def Let_def used_pages_def add.assoc)

lemma getFreePage_15:
  assumes "nextPage l = 16 * int b + 15"
  shows "getFreePage u fl l v = (\<lparr>nandPage = (stack_page u)\<lparr>nextLogBlock := lastBlock l * 16,
        nextBlockErases := lastErases l\<rparr>, address = 16 * int b + 15\<rparr>, fl,
     used_pages 1 (l\<lparr>nextPage := lastBlock l * 16 + 14\<rparr>), v)"
  using assms by (simp add: getFreePage_def Let_def used_pages_def add.assoc)

lemma getFreePage_14:
  assumes "nextPage l = 16 * int b + 14" "getFreeBlock u fl False v = (er, pg, fl', v')"
  shows "getFreePage u fl l v = (\<lparr>nandPage = (stack_page u)\<lparr>nextLogBlock := pg,
        nextBlockErases := er\<rparr>, address = 16 * int b + 14\<rparr>, fl',
     used_pages 1 (l\<lparr>lastErases := er, nextPage := pg, lastBlock := pg sdiv 16\<rparr>), v')"
  using assms by (simp add: getFreePage_def Let_def used_pages_def add.assoc)

text \<open>The block list a log without a previous block falls back to: page -1.\<close>

lemma getFreePage_minus1:
  assumes "nextPage l = -1"
  shows "getFreePage u fl l v = (\<lparr>nandPage = (stack_page u)\<lparr>nextLogBlock := lastBlock l * 16,
        nextBlockErases := lastErases l\<rparr>, address = -1\<rparr>, fl,
     used_pages 1 (l\<lparr>nextPage := lastBlock l * 16 + 14\<rparr>), v)"
  using assms by (simp add: getFreePage_def Let_def used_pages_def
      signed_modulo_int_def signed_divide_int_def)

section \<open>Writing what was allocated\<close>

text \<open>The allocated pages written to the NAND in the order in which they were handed out.\<close>

fun write_pages :: "stack \<Rightarrow> writeablePage list \<Rightarrow> vnand \<Rightarrow> (int list \<times> vnand) option" where
  "write_pages u [] v = Some ([], v)"
| "write_pages u (w # ws) v = do {
     (r, v) \<leftarrow> writeNAND u (nandPage w) (address w) False v;
     (rs, v) \<leftarrow> write_pages u ws v;
     Some (r # rs, v) }"

lemma write_pages_append:
  assumes "write_pages u ws v = Some (rs, v1)" "write_pages u ws' v1 = Some (rs', v2)"
  shows "write_pages u (ws @ ws') v = Some (rs @ rs', v2)"
  using assms
  by (induction ws arbitrary: v rs) (auto simp: bind_eq_Some_conv)

lemma write_page_next:
  assumes ok: "nand_ok nb v" "b < nb" "page_ok (nandPage w)"
    and w: "address w = 16 * int b + int i" "i < 16" and nx: "anext (abs_nand v b) = int i"
  shows "\<exists>v'. write_pages u [w] v = Some ([16776], v') \<and> nand_ok nb v'
    \<and> anext (abs_nand v' b) = int i + 1 \<and> (\<forall>b'. b' \<noteq> b \<longrightarrow> abs_nand v' b' = abs_nand v b')"
proof -
  let ?k = "16 * b + i"
  have k: "?k div 16 = b" "?k mod 16 = i" "?k < 16 * nb" "address w = int ?k"
    using ok(2) w by simp_all
  have "next_free v ?k" using nx k by (simp add: next_free_def)
  from writeNAND_append [OF ok(1) k(3) ok(3) this, of u] show ?thesis
    using nx by (simp add: k put_page_def del: of_nat_add of_nat_mult)
qed

lemma write_pages_run:
  assumes "nand_ok nb v" "b < nb" "\<And>w. w \<in> set ws \<Longrightarrow> page_ok (nandPage w)"
    "map address ws = map (\<lambda>j. 16 * int b + int j) [i..<i + n]" "i + n \<le> 16"
    "anext (abs_nand v b) = int i"
  shows "\<exists>v'. write_pages u ws v = Some (replicate n 16776, v') \<and> nand_ok nb v'
    \<and> anext (abs_nand v' b) = int (i + n) \<and> (\<forall>b'. b' \<noteq> b \<longrightarrow> abs_nand v' b' = abs_nand v b')"
  using assms
proof (induction n arbitrary: i v ws)
  case 0
  then show ?case by simp
next
  case (Suc n)
  have "map address ws = (16 * int b + int i) # map (\<lambda>j. 16 * int b + int j) [Suc i..<Suc i + n]"
    using Suc.prems(4) by (simp add: upt_conv_Cons del: upt_Suc)
  then obtain w ws' where ws: "ws = w # ws'" "address w = 16 * int b + int i"
    "map address ws' = map (\<lambda>j. 16 * int b + int j) [Suc i..<Suc i + n]"
    by (auto simp: map_eq_Cons_conv simp del: upt_Suc)
  have "page_ok (nandPage w)" using Suc.prems(3) ws by simp
  moreover have "i < 16" using Suc.prems(5) by simp
  ultimately obtain v1 where v1: "write_pages u [w] v = Some ([16776], v1)" "nand_ok nb v1"
    "anext (abs_nand v1 b) = int i + 1" "\<forall>b'. b' \<noteq> b \<longrightarrow> abs_nand v1 b' = abs_nand v b'"
    using write_page_next [OF Suc.prems(1,2) _ ws(2) _ Suc.prems(6)] by blast
  have nx: "anext (abs_nand v1 b) = int (Suc i)" using v1(3) by simp
  have "\<And>w. w \<in> set ws' \<Longrightarrow> page_ok (nandPage w)" using Suc.prems(3) ws by simp
  moreover have "Suc i + n \<le> 16" using Suc.prems(5) by simp
  ultimately obtain v' where v': "write_pages u ws' v1 = Some (replicate n 16776, v')" "nand_ok nb v'"
    "anext (abs_nand v' b) = int (Suc i + n)" "\<forall>b'. b' \<noteq> b \<longrightarrow> abs_nand v' b' = abs_nand v1 b'"
    using Suc.IH [OF v1(2) Suc.prems(2) _ ws(3) _ nx] by blast
  have "write_pages u ([w] @ ws') v = Some ([16776] @ replicate n 16776, v')"
    by (rule write_pages_append [OF v1(1) v'(1)])
  with v' v1(4) ws(1) show ?case by auto
qed

section \<open>Appending to the partially used free list\<close>

lemma partial_chain_tail: "partial_chain nb v h (xs @ y # ys) \<Longrightarrow> partial_chain nb v (int y) (y # ys)"
  by (induction nb v h xs rule: partial_chain.induct) auto

lemma partial_chain_unique: "partial_chain nb v h xs \<Longrightarrow> partial_chain nb v h ys \<Longrightarrow> xs = ys"
proof (induction nb v h xs arbitrary: ys rule: partial_chain.induct)
  case (1 nb v h)
  then show ?case by (cases ys) auto
next
  case (2 nb v h x xs)
  then show ?case by (cases ys) auto
qed

lemma partial_chain_distinct: "partial_chain nb v h xs \<Longrightarrow> distinct xs"
proof (induction nb v h xs rule: partial_chain.induct)
  case (1 nb v h)
  then show ?case by simp
next
  case (2 nb v h x xs)
  have "x \<notin> set xs"
  proof
    assume "x \<in> set xs"
    then obtain as bs where xs: "xs = as @ x # bs" by (auto simp: in_set_conv_decomp)
    from 2 have c: "partial_chain nb v (int x) (x # xs)" by simp
    have "partial_chain nb v (int x) (x # bs)"
      using partial_chain_tail [of nb v "int x" "x # as" x bs] c xs by simp
    with c have "x # xs = x # bs" by (rule partial_chain_unique)
    with xs show False by simp
  qed
  with 2 show ?case by simp
qed

text \<open>Rewriting the last link of the list, on a page that is in the list once.\<close>

lemma partial_chain_snoc:
  assumes "partial_chain nb v h (xs @ [t])" "t \<notin> set xs"
    "\<And>j. page_at v' j = (if j = t then p else page_at v j)"
    "nextLogBlock p = int n" "0 < n" "n < 16 * nb" "n \<noteq> t" "nextLogBlock (page_at v n) = 0"
  shows "partial_chain nb v' h (xs @ [t, n])"
  using assms by (induction xs arbitrary: h) auto

lemma logs_recycle_link:
  assumes ok: "nand_ok nb v" and t: "partialTail fl = int t" "0 < t" "t < 16 * nb" "next_free v t"
    and np: "n mod 16 \<le> 13" "int (n div 16) = first lg" "is_int32 (int n)"
  shows "logs_recycle u lg (int n) er (fl, v) =
      Some (fl\<lparr>partialTail := int n\<rparr>, append_page u (zero_page\<lparr>nextLogBlock := int n\<rparr>) t v)"
proof -
  have "page_ok (zero_page\<lparr>nextLogBlock := int n\<rparr>)"
    using np(3) by (simp add: page_ok_def zero_page_def is_int32_def)
  from writeNAND_append(1) [OF ok t(3) this t(4), of u] show ?thesis
    using t np by (simp add: logs_recycle_def)
qed

lemma logs_recycle_first:
  assumes "partialTail fl = 0" "n mod 16 \<le> 13" "int (n div 16) = first lg"
  shows "logs_recycle u lg (int n) er (fl, v) =
      Some (fl\<lparr>partialHead := int n, partialTail := int n\<rparr>, v)"
  using assms by (simp add: logs_recycle_def)

section \<open>Properties\<close>

text \<open>
  Slots of the address map are handed out at most once: as long as the free chain of
  the map has \<open>n\<close> slots, \<open>n\<close> calls of \<open>getFreePtr\<close> succeed, return \<open>n\<close> different slots
  inside the map and leave the chain of the remaining ones.
\<close>

theorem getFreePtr_distinct:
  assumes "slot_chain (vmap m) (freePtr m) xs" "n \<le> length xs"
  shows "\<exists>ps m'. take_ptrs n m = Some (ps, m') \<and> length ps = n \<and> distinct ps
     \<and> (\<forall>p \<in> set ps. 0 < p \<and> p < int (length (vmap m)))
     \<and> slot_chain (vmap m') (freePtr m') (drop n xs)"
proof -
  from take_ptrs_chain [OF assms] obtain m' where
    m': "take_ptrs n m = Some (map int (take n xs), m')"
    "slot_chain (vmap m') (freePtr m') (drop n xs)" by blast
  moreover have "distinct (map int (take n xs))"
    using slot_chain_distinct [OF assms(1)] by (simp add: distinct_map)
  moreover have "\<forall>p \<in> set (map int (take n xs)). 0 < p \<and> p < int (length (vmap m))"
    using slot_chain_in_map [OF assms(1)] by (auto dest: in_set_takeD)
  ultimately show ?thesis using assms(2) by (intro exI conjI) auto
qed

theorem getFreePtr_distinct_witness:
  "\<exists>ps m'. take_ptrs 2 \<lparr>map_size = 4, freePtr = 1, vmap = [0, -2, -3, 0]\<rparr> = Some (ps, m') \<and> length ps = 2
     \<and> distinct ps"
  using getFreePtr_distinct [of "\<lparr>map_size = 4, freePtr = 1, vmap = [0, -2, -3, 0]\<rparr>" "[1, 2, 3]" 2]
  by auto

text \<open>
  Exhaustion of the address map goes unnoticed: with no free slot left
  (\<open>freePtr = 0\<close>, entry 0 unused) \<open>getFreePtr\<close> hands out slot 0, again and again.
\<close>

theorem getFreePtr_exhausted:
  assumes "freePtr m = 0" "vmap m \<noteq> []" "vmap m ! 0 = 0"
  shows "take_ptrs n m = Some (replicate n 0, m)"
proof -
  have "getFreePtr m = Some (0, m)"
    using assms by (cases m) (simp add: getFreePtr_def)
  then show ?thesis by (induction n) simp_all
qed

theorem getFreePtr_exhausted_witness:
  "take_ptrs 2 \<lparr>map_size = 2, freePtr = 0, vmap = [0, 96]\<rparr>
     = Some (replicate 2 0, \<lparr>map_size = 2, freePtr = 0, vmap = [0, 96]\<rparr>)"
  by (rule getFreePtr_exhausted) simp_all

text \<open>
  Blocks for new files are taken off the partially used free list in list order, each
  from the page after the link page, no page twice, and the NAND contents do not change.
\<close>

theorem getFreeBlock_new_files:
  assumes "nand_ok nb v" "partial_chain nb v (partialHead fl) xs" "n \<le> length xs"
  shows "\<exists>fl' v'. take_blocks u n fl v = (map (\<lambda>x. int x + 1) (take n xs), fl', v')
     \<and> distinct (take n xs) \<and> abs_nand v' = abs_nand v
     \<and> partial_chain nb v' (partialHead fl') (drop n xs)"
proof -
  from take_blocks_chain [OF assms] obtain fl' v' where
    "take_blocks u n fl v = (map (\<lambda>x. int x + 1) (take n xs), fl', v')"
    "file_bytes v' = file_bytes v" "partial_chain nb v' (partialHead fl') (drop n xs)" by blast
  moreover have "distinct (take n xs)" using partial_chain_distinct [OF assms(2)] by simp
  ultimately show ?thesis using abs_nand_cong by blast
qed

definition fl32 :: freeList where
  "fl32 = \<lparr>partialHead = 32, partialHeadErases = 0, partialTail = 32, completeHead = 0,
     completeHeadErases = 0, completeTail = 0\<rparr>"

theorem getFreeBlock_new_files_witness:
  "\<exists>fl' v'. take_blocks (\<lambda>_. 7) 1 fl32 nand3 = ([33], fl', v') \<and> partialHead fl' = 0"
  using getFreeBlock_new_files [of 3 nand3 fl32 "[32]" 1 "\<lambda>_. 7"]
  by (auto simp: fl32_def zero_page_def)

text \<open>
  With both free lists empty, \<open>getFreeBlock\<close> hands out page 0 and erases block 0, the
  block that holds the super page.
\<close>

theorem getFreeBlock_exhausted:
  assumes "nand_ok nb v" "0 < nb" "completeHead fl = 0" "partialHead fl = 0"
    "aerases (abs_nand v 0) < 2 ^ 31 - 1"
  shows "\<exists>fl' v'. getFreeBlock u fl newFile v = (completeHeadErases fl, 0, fl', v')
     \<and> abs_nand v' = (abs_nand v)(0 := erased_block (aerases (abs_nand v 0) + 1))
     \<and> page_at v' 0 = zero_page"
proof -
  have e: "erase_count_read v (0 div 16) = aerases (abs_nand v 0)"
    using erase_count_read_0 [OF assms(1,2)] by simp
  have "erase_count_read v (0 div 16) < 2 ^ 31 - 1" using assms(5) e by simp
  from getFreeBlock_complete [OF assms(1) _ _ _ this, of fl newFile u] assms(2-4)
  obtain fl' v' where r: "getFreeBlock u fl newFile v = (completeHeadErases fl, 0, fl', v')"
    "abs_nand v' = (abs_nand v)(0 := erased_block (aerases (abs_nand v 0) + 1))"
    unfolding e by auto
  moreover have "page_at v' 0 = zero_page" by (simp add: page_at_def r(2) erased_block_def)
  ultimately show ?thesis by blast
qed

theorem getFreeBlock_exhausted_witness:
  "\<exists>fl' v'. getFreeBlock (\<lambda>_. 7) (fl32\<lparr>partialHead := 0\<rparr>) True nand3 = (0, 0, fl', v')
     \<and> page_at v' 0 = zero_page"
  using getFreeBlock_exhausted [of 3 nand3 "fl32\<lparr>partialHead := 0\<rparr>" "\<lambda>_. 7" True]
  by (auto simp: fl32_def erased_block_def)

text \<open>
  One block's worth of page allocations. A log whose last block is \<open>b\<close> and whose header
  names the previous block \<open>p\<close> gets, from the start of block \<open>b\<close>, pages 0 to 13 of \<open>b\<close>,
  then the last page of \<open>p\<close>, then page 14 of \<open>b\<close>, and goes on with the block that
  \<open>getFreeBlock\<close> returned; sixteen active pages more are counted.
\<close>

theorem getFreePage_block_order:
  assumes "nextPage l = 16 * int b" "lastBlock l = int b" "prev (log_hdr l) = int p"
    "getFreeBlock u fl False v = (er, pg, fl', v')"
  shows "\<exists>ws l'. take_pages u 16 fl l v = (ws, fl', l', v')
     \<and> map address ws = map (\<lambda>j. 16 * int b + int j) [0..<14] @ [16 * int p + 15, 16 * int b + 14]
     \<and> nextPage l' = pg \<and> lastBlock l' = pg sdiv 16 \<and> lastErases l' = er
     \<and> active (log_hdr l') = active (log_hdr l) + 16"
proof -
  have n16: "(16::nat) = 13 + Suc (Suc (Suc 0))" by simp
  obtain ws where ws: "take_pages u 13 fl l v = (ws, fl, used_pages 13 (l\<lparr>nextPage := 16 * int b + 13\<rparr>), v)"
    "map address ws = map (\<lambda>j. 16 * int b + int j) [0..<13]"
    using take_pages_middle [of l b 0 13 u fl v] assms(1) by auto
  let ?l1 = "used_pages 13 (l\<lparr>nextPage := 16 * int b + 13\<rparr>)"
  let ?l2 = "used_pages 1 (?l1\<lparr>nextPage := 16 * int p + 15\<rparr>)"
  let ?l3 = "used_pages 1 (?l2\<lparr>nextPage := 16 * int b + 14\<rparr>)"
  have s1: "getFreePage u fl ?l1 v = (\<lparr>nandPage = stack_page u, address = 16 * int b + 13\<rparr>, fl, ?l2, v)"
    by (subst getFreePage_13 [of _ b]) (simp_all add: assms(3) mult.commute)
  obtain w2 where s2: "getFreePage u fl ?l2 v = (w2, fl, ?l3, v)" "address w2 = 16 * int p + 15"
    using getFreePage_15 [of ?l2 p u fl v] assms(2) by (simp add: mult.commute)
  obtain w3 l' where s3: "getFreePage u fl ?l3 v = (w3, fl', l', v')" "address w3 = 16 * int b + 14"
    "nextPage l' = pg" "lastBlock l' = pg sdiv 16" "lastErases l' = er"
    "active (log_hdr l') = active (log_hdr l) + 16"
    using getFreePage_14 [of ?l3 b u fl v, OF _ assms(4)] by (simp add: used_pages_def)
  have "take_pages u 16 fl l v =
      (ws @ [\<lparr>nandPage = stack_page u, address = 16 * int b + 13\<rparr>, w2, w3], fl', l', v')"
    by (simp only: n16 take_pages_add take_pages.simps ws(1) s1 s2(1) s3(1) Let_def prod.case
        append_Cons append_Nil)
  moreover have "map address (ws @ [\<lparr>nandPage = stack_page u, address = 16 * int b + 13\<rparr>, w2, w3])
      = map (\<lambda>j. 16 * int b + int j) [0..<14] @ [16 * int p + 15, 16 * int b + 14]"
    using ws(2) s2(2) s3(2) by (simp add: upt_rec)
  ultimately show ?thesis using s3 by blast
qed

text \<open>A log with previous block 1 that is about to fill block 2, and its header.\<close>

definition inode0 :: inode where
  "inode0 = \<lparr>i_mode = 0, i_uid = 0, i_gid = 0, i_flags = 0, i_file_no = 0, i_log_no = 0,
     i_links_count = 0, i_atime = (0, 0), i_mtime = (0, 0), i_ctime = (0, 0), i_pages = 0,
     i_size = 0, indirect = 0, doubleInd = 0, tripleInd = 0, directPage = replicate 16 0\<rparr>"

definition log0 :: logHeader where
  "log0 = \<lparr>erases = 0, logId = 0, prev = 1, prevErases = 0, first = 2, firstErases = 0,
     active = 0, total = 1, logType = 1, fileCount = 1, fileId = replicate 8 0,
     fInode = inode0, content_rest = replicate 312 0\<rparr>"

definition alog0 :: activeLog where
  "alog0 = \<lparr>nextPage = 32, lastBlock = 2, lastErases = 0, log_hdr = log0, alog_fileCount = 1\<rparr>"

theorem getFreePage_block_order_witness:
  "\<exists>ws fl' l' v'. take_pages (\<lambda>_. 7) 16 fl32 alog0 nand3 = (ws, fl', l', v')
     \<and> map address ws = [32, 33, 34, 35, 36, 37, 38, 39, 40, 41, 42, 43, 44, 45, 31, 46]"
proof -
  obtain er pg fl' v' where "getFreeBlock (\<lambda>_. 7) fl32 False nand3 = (er, pg, fl', v')"
    by (metis prod_cases4)
  from getFreePage_block_order [of alog0 2 1, OF _ _ _ this] show ?thesis
    by (auto simp: alog0_def log0_def upt_rec)
qed

text \<open>
  Whatever is written to the pages in the order of \<open>getFreePage_block_order\<close> is
  accepted: with block \<open>b\<close> erased and page 15 the next free one of \<open>p\<close>, all sixteen
  sequential writes succeed and both blocks end up full up to where the next block's
  allocations go on.
\<close>

theorem allocation_order_writable:
  assumes "nand_ok nb v" "b < nb" "p < nb" "b \<noteq> p"
    "anext (abs_nand v b) = 0" "anext (abs_nand v p) = 15"
    "\<And>w. w \<in> set ws \<Longrightarrow> page_ok (nandPage w)"
    "map address ws = map (\<lambda>j. 16 * int b + int j) [0..<14] @ [16 * int p + 15, 16 * int b + 14]"
  shows "\<exists>v'. write_pages u ws v = Some (replicate 16 16776, v') \<and> nand_ok nb v'
     \<and> anext (abs_nand v' b) = 15 \<and> anext (abs_nand v' p) = 16"
proof -
  from assms(8) obtain xs w1 w2 where ws: "ws = xs @ [w1, w2]"
    and xs: "map address xs = map (\<lambda>j. 16 * int b + int j) [0..<0 + 14]"
    and w: "address w1 = 16 * int p + int 15" "address w2 = 16 * int b + int 14"
    by (auto simp: map_eq_append_conv map_eq_Cons_conv)
  have ok: "\<And>w. w \<in> set xs \<Longrightarrow> page_ok (nandPage w)" "page_ok (nandPage w1)" "page_ok (nandPage w2)"
    using assms(7) ws by auto
  from write_pages_run [OF assms(1,2) ok(1) xs] assms(5) obtain v1 where
    v1: "write_pages u xs v = Some (replicate 14 16776, v1)" "nand_ok nb v1"
    "anext (abs_nand v1 b) = int 14" "\<forall>b'. b' \<noteq> b \<longrightarrow> abs_nand v1 b' = abs_nand v b'" by auto
  have "anext (abs_nand v1 p) = int 15" using v1(4) assms(4,6) by simp
  from write_page_next [OF v1(2) assms(3) ok(2) w(1) _ this, of u] obtain v2 where
    v2: "write_pages u [w1] v1 = Some ([16776], v2)" "nand_ok nb v2"
    "anext (abs_nand v2 p) = 16" "\<forall>b'. b' \<noteq> p \<longrightarrow> abs_nand v2 b' = abs_nand v1 b'" by auto
  have "anext (abs_nand v2 b) = int 14" using v2(4) v1(3) assms(4) by simp
  from write_page_next [OF v2(2) assms(2) ok(3) w(2) _ this, of u] obtain v3 where
    v3: "write_pages u [w2] v2 = Some ([16776], v3)" "nand_ok nb v3"
    "anext (abs_nand v3 b) = 15" "\<forall>b'. b' \<noteq> b \<longrightarrow> abs_nand v3 b' = abs_nand v2 b'" by auto
  have "write_pages u (xs @ [w1] @ [w2]) v = Some (replicate 14 16776 @ [16776] @ [16776], v3)"
    by (intro write_pages_append [OF v1(1)] write_pages_append [OF v2(1)] v3(1))
  moreover have "replicate 14 16776 @ [16776] @ [16776] = replicate 16 (16776::int)"
    by (simp add: numeral_eq_Suc)
  ultimately show ?thesis using v3 v2(3) assms(4) by (auto simp: ws)
qed

theorem allocation_order_writable_witness:
  "\<exists>v v'. nand_ok 3 v \<and> write_pages (\<lambda>_. 0)
     (map (\<lambda>a. \<lparr>nandPage = zero_page, address = a\<rparr>) (map (\<lambda>j. 32 + int j) [0..<14] @ [31, 46])) v
       = Some (replicate 16 16776, v')"
proof -
  let ?ws = "map (\<lambda>j. \<lparr>nandPage = zero_page, address = 16 * int 1 + int j\<rparr>) [0..<0 + 15]"
  have "\<exists>v. write_pages (\<lambda>_. 0) ?ws nand3 = Some (replicate 15 16776, v) \<and> nand_ok 3 v
      \<and> anext (abs_nand v 1) = int (0 + 15) \<and> (\<forall>b'. b' \<noteq> 1 \<longrightarrow> abs_nand v b' = abs_nand nand3 b')"
    by (rule write_pages_run) (auto simp: erased_block_def o_def)
  then obtain v where v: "nand_ok 3 v" "anext (abs_nand v 1) = 15" "anext (abs_nand v 2) = 0"
    by (auto simp: erased_block_def)
  let ?as = "map (\<lambda>j. 32 + int j) [0..<14] @ [31, 46]"
  let ?as' = "map (\<lambda>a. \<lparr>nandPage = zero_page, address = a\<rparr>) ?as"
  have "\<exists>v'. write_pages (\<lambda>_. 0) ?as' v = Some (replicate 16 16776, v') \<and> nand_ok 3 v'
      \<and> anext (abs_nand v' 2) = 15 \<and> anext (abs_nand v' 1) = 16"
    by (rule allocation_order_writable) (use v in \<open>auto simp: o_def\<close>)
  with v(1) show ?thesis by blast
qed

text \<open>
  A log in its first block has no previous block (\<open>initLogHeader\<close> sets \<open>prev\<close> to -1 and
  nothing changes it later). After page 13 its next page is page -1; the NAND refuses to
  write there, so that page's data is lost.
\<close>

theorem getFreePage_first_block_loses_page:
  assumes "nand_ok nb v" "0 < nb" "0 \<le> anext (abs_nand v 0)"
    "nextPage l = 16 * int b + 13" "prev (log_hdr l) = -1"
  shows "\<exists>ws l'. take_pages u 2 fl l v = (ws, fl, l', v) \<and> map address ws = [16 * int b + 13, -1]
     \<and> (\<forall>p. \<exists>v'. writeNAND u p (-1) False v = Some (-1, v') \<and> abs_nand v' = abs_nand v)"
proof -
  let ?l = "used_pages 1 (l\<lparr>nextPage := prev (log_hdr l) * 16 + 15\<rparr>)"
  have "nextPage ?l = -1" using assms(5) by simp
  from getFreePage_minus1 [OF this, of u fl v] getFreePage_13 [OF assms(4), of u fl v]
  have t: "\<exists>ws l'. take_pages u 2 fl l v = (ws, fl, l', v) \<and> map address ws = [16 * int b + 13, -1]"
    by (simp add: numeral_2_eq_2)
  from assms(1) obtain f where f: "vfd v = Some f" by (rule nand_ok_file)
  let ?f1 = "(lseek_set (8 + int 0 * 16776) f)\<lparr>fpos := 8 + 0 * 16776 + 16776\<rparr>"
  have len: "length (block_bytes v 0) = 16776"
    using assms(1,2) length_block_bytes [of nb v 0] by (simp add: nand_ok_def)
  have "dec32 (bslice 16768 4 (block_bytes v 0)) = anext (abs_nand v 0)"
    by (simp add: abs_nand_def abs_block_def)
  then have "writeNAND u p (-1) False v = Some (-1, v\<lparr>vfd := Some ?f1\<rparr>)" for p
    using read_block [OF assms(1) f assms(2)] assms(2,3) len
    by (simp add: writeNAND_def f nand_ok_features [OF assms(1)] Let_def is_int32_def
        signed_modulo_int_def signed_divide_int_def into_buffer_full)
  moreover have "abs_nand (v\<lparr>vfd := Some ?f1\<rparr>) = abs_nand v"
    by (rule reposition(2) [OF assms(1) f]) simp
  ultimately have "\<forall>p. \<exists>v'. writeNAND u p (-1) False v = Some (-1, v') \<and> abs_nand v' = abs_nand v"
    by (intro allI exI conjI)
  with t show ?thesis by simp
qed

theorem getFreePage_first_block_loses_page_witness:
  "\<exists>ws l'. take_pages (\<lambda>_. 7) 2 fl32 (alog0\<lparr>nextPage := 45, log_hdr := log0\<lparr>prev := -1\<rparr>\<rparr>) nand3
      = (ws, fl32, l', nand3) \<and> map address ws = [45, -1]"
  using getFreePage_first_block_loses_page [of 3 nand3 "alog0\<lparr>nextPage := 45, log_hdr := log0\<lparr>prev := -1\<rparr>\<rparr>"
      2 "\<lambda>_. 7" fl32]
  by (auto simp: erased_block_def)

text \<open>
  Recycling a log whose only block still has room appends that block to the partially
  used free list, provided the tail page of the list is the next free page of its block:
  the list then holds the old elements and the recycled page, in this order.
\<close>

theorem logs_recycle_appends:
  assumes ok: "nand_ok nb v" and chain: "partial_chain nb v (partialHead fl) (xs @ [t])"
    and tail: "partialTail fl = int t" "next_free v t"
    and n: "0 < n" "n < 16 * nb" "n mod 16 \<le> 13" "n \<notin> set xs" "n \<noteq> t"
    and log: "first lg = int (n div 16)" and unlinked: "nextLogBlock (page_at v n) = 0"
  shows "\<exists>fl' v'. logs_recycle u lg (int n) er (fl, v) = Some (fl', v') \<and> nand_ok nb v'
     \<and> partial_chain nb v' (partialHead fl') (xs @ [t, n]) \<and> partialTail fl' = int n"
proof -
  have t: "0 < t" "t < 16 * nb" "t \<notin> set xs"
    using partial_chain_tail [OF chain] partial_chain_distinct [OF chain] by auto
  have n32: "is_int32 (int n)" using n(2) ok by (simp add: nand_ok_def is_int32_def)
  let ?p = "zero_page\<lparr>nextLogBlock := int n\<rparr>"
  have p: "page_ok ?p" using n32 by (simp add: page_ok_def zero_page_def is_int32_def)
  have step: "logs_recycle u lg (int n) er (fl, v) = Some (fl\<lparr>partialTail := int n\<rparr>, append_page u ?p t v)"
    by (rule logs_recycle_link [OF ok tail(1) t(1,2) tail(2) n(3) _ n32]) (simp add: log)
  have "partial_chain nb (append_page u ?p t v) (partialHead fl) (xs @ [t, n])"
    using chain t(3) seq.get_put [OF ok t(2) p tail(2)] _ n(1,2,5) unlinked
    by (rule partial_chain_snoc) simp
  with step seq.inv_put [OF ok t(2) p tail(2)] show ?thesis by simp
qed

theorem logs_recycle_appends_witness:
  "\<exists>fl' v'. logs_recycle (\<lambda>_. 7) (log0\<lparr>first := 1\<rparr>) 17 0 (fl32, nand3) = Some (fl', v')
     \<and> partial_chain 3 v' (partialHead fl') [32, 17] \<and> partialTail fl' = 17"
  using logs_recycle_appends [of 3 nand3 fl32 "[]" 32 17 "log0\<lparr>first := 1\<rparr>" "\<lambda>_. 7" 0]
  by (auto simp: fl32_def zero_page_def next_free_def erased_block_def)

text \<open>
  Recycling into an empty list and allocating for a new file is a round trip: the block
  comes back, from the page after the recycled one, and the list is empty again.
\<close>

theorem recycle_then_allocate:
  assumes "nand_ok nb v" "partialTail fl = 0" "0 < n" "n < 16 * nb" "n mod 16 \<le> 13"
    "first lg = int (n div 16)" "nextLogBlock (page_at v n) = 0"
  shows "\<exists>fl1 er' fl2 v'. logs_recycle u lg (int n) er (fl, v) = Some (fl1, v)
     \<and> getFreeBlock u fl1 True v = (er', int n + 1, fl2, v') \<and> partialHead fl2 = 0
     \<and> abs_nand v' = abs_nand v"
proof -
  let ?fl = "fl\<lparr>partialHead := int n, partialTail := int n\<rparr>"
  have "partial_chain nb v (partialHead ?fl) [n]" using assms by simp
  from getFreeBlock_partial [OF assms(1) this, of u] obtain v' where
    a: "getFreeBlock u ?fl True v = (partialHeadErases ?fl, int n + 1,
        ?fl\<lparr>partialHead := 0, partialHeadErases := nextBlockErases (page_at v n)\<rparr>, v')"
    and "file_bytes v' = file_bytes v" using assms(7) by auto
  then have "abs_nand v' = abs_nand v" by (intro abs_nand_cong)
  moreover have "logs_recycle u lg (int n) er (fl, v) = Some (?fl, v)"
    by (rule logs_recycle_first) (use assms in simp_all)
  ultimately show ?thesis using a by (intro exI conjI) (assumption | simp)+
qed

theorem recycle_then_allocate_witness:
  "\<exists>fl1 er' fl2 v'. logs_recycle (\<lambda>_. 7) (log0\<lparr>first := 1\<rparr>) 17 0 (fl32\<lparr>partialHead := 0, partialTail := 0\<rparr>, nand3)
       = Some (fl1, nand3)
     \<and> getFreeBlock (\<lambda>_. 7) fl1 True nand3 = (er', 18, fl2, v')"
  using recycle_then_allocate [of 3 nand3 "fl32\<lparr>partialHead := 0, partialTail := 0\<rparr>" 17 "log0\<lparr>first := 1\<rparr>" "\<lambda>_. 7" 0]
  by (auto simp: zero_page_def)

text \<open>
  Draining the list leaves its tail behind: \<open>getFreeBlock\<close> never resets \<open>partialTail\<close>, so
  a block recycled into a drained list is linked behind the stale tail while the head
  stays 0, and no later allocation finds it.
\<close>

theorem recycle_after_drain_leaks:
  assumes "partialHead fl = 0" "partialTail fl \<noteq> 0" "np smod 16 \<le> 13"
    "logs_recycle u lg np er (fl, v) = Some (fl', v')"
  shows "partialHead fl' = 0"
proof -
  have "partialHead (fl\<lparr>partialTail := np\<rparr>) = 0" using assms(1) by simp
  with assms(2-4) show ?thesis
    by (auto simp: logs_recycle_def bind_eq_Some_conv assms(1) split: if_splits)
qed

theorem recycle_after_drain_leaks_witness:
  "\<exists>fl' v'. logs_recycle (\<lambda>_. 7) (log0\<lparr>first := 1\<rparr>) 17 0 (fl32\<lparr>partialHead := 0\<rparr>, nand3) = Some (fl', v')
     \<and> partialHead fl' = 0"
proof -
  have r: "logs_recycle (\<lambda>_. 7) (log0\<lparr>first := 1\<rparr>) (int 17) 0 (fl32\<lparr>partialHead := 0\<rparr>, nand3) =
      Some (fl32\<lparr>partialHead := 0, partialTail := int 17\<rparr>,
        append_page (\<lambda>_. 7) (zero_page\<lparr>nextLogBlock := int 17\<rparr>) 32 nand3)"
    by (subst logs_recycle_link [where nb = 3 and t = 32])
      (simp_all add: fl32_def next_free_def erased_block_def is_int32_def)
  from recycle_after_drain_leaks [OF _ _ _ r] have "partialHead (fl32\<lparr>partialHead := 0, partialTail := int 17\<rparr>) = 0"
    by (simp add: fl32_def smod_nonneg)
  with r show ?thesis by simp
qed

text \<open>
  A log whose last block is full (its next page is one of the last two of the block) is
  put on the completely used free list by the page number within the block instead of the
  block: the new tail is page 14 or 15 of block 0, the block of the super page.
\<close>

theorem logs_recycle_full_block:
  assumes "n mod 16 \<in> {14, 15}" "completeTail fl = 0"
  shows "logs_recycle u lg (int n) er (fl, v) =
     Some (fl\<lparr>completeHead := first lg, completeHeadErases := firstErases lg,
              completeTail := int (n mod 16)\<rparr>, v)"
  using assms by (auto simp: logs_recycle_def)

theorem logs_recycle_full_block_witness:
  "logs_recycle (\<lambda>_. 7) log0 46 0 (fl32, nand3) =
     Some (fl32\<lparr>completeHead := 2, completeHeadErases := 0, completeTail := 14\<rparr>, nand3)"
  using logs_recycle_full_block [of 46 fl32 "\<lambda>_. 7" log0 0 nand3]
  by (simp add: fl32_def log0_def)

end
