(* ===== verification/Makefs.thy ===== *)
theory Makefs
  imports Free_Space
begin

text \<open>
  Formatting: \<open>example/makefs.c\<close>. The static variables are the record \<open>makefs_state\<close>, to
  which the state of the NAND library is added. The lemmas show what a format leaves on the
  device: the super page, the map of virtual addresses with all its slots on the free
  chain, and the partially used free list through blocks 2 to the last.
\<close>

section \<open>The program\<close>

record makefs_state =
  mk_super :: superPage
  mk_page :: fullPage
  mk_features :: nandFeatures
  mk_nand :: vnand

definition clearPage :: "makefs_state \<Rightarrow> makefs_state" where
  "clearPage s = s\<lparr>mk_page := zero_page\<rparr>"

definition writeOutSuperBlock :: "stack \<Rightarrow> makefs_state \<Rightarrow> makefs_state option" where
  "writeOutSuperBlock u s0 =
     (let s = clearPage s0;
          fl = (freeLists (mk_super s))\<lparr>partialHead := BLOCKSIZE * 2,
                 partialTail := BLOCKSIZE * (numBlocks (mk_features s) - 1)\<rparr>;
          sb = (mk_super s)\<lparr>latest_vaddr_map := BLOCKSIZE, freeLists := fl\<rparr>;
          p = (mk_page s)\<lparr>contents := patch 0 (enc_super sb) (contents (mk_page s)),
                 eraseCount := -1, pageType := PTYPE_SUPER\<rparr>
      in do {
        (r, v) \<leftarrow> writeNAND u p 0 False (mk_nand s);
        Some (s\<lparr>mk_super := sb, mk_page := p, mk_nand := v\<rparr>) })"

text \<open>The array that the cast of the cleared page gives has room for 254 entries.\<close>

definition fresh_map :: "addrMap \<Rightarrow> addrMap" where
  "fresh_map m0 =
     (let m = m0\<lparr>map_size := int (PAGEDATASIZE div 4) - 2, freePtr := 1\<rparr>;
          m' = fold (\<lambda>i m. m\<lparr>vmap := (vmap m)[i := - (int i + 1)]\<rparr>) [1..<nat (map_size m - 1)] m
      in m'\<lparr>vmap := (vmap m')[nat (map_size m' - 1) := 0]\<rparr>)"

definition writeOutVaddrMap :: "stack \<Rightarrow> makefs_state \<Rightarrow> makefs_state option" where
  "writeOutVaddrMap u s0 =
     (let s = clearPage s0;
          m = fresh_map (dec_map 254 (contents (mk_page s)));
          p = (mk_page s)\<lparr>contents := enc_map m, pageType := PTYPE_ADDRMAP\<rparr>
      in do {
        (r, v) \<leftarrow> writeNAND u p BLOCKSIZE False (mk_nand s);
        Some (s\<lparr>mk_page := p, mk_nand := v\<rparr>) })"

fun link_blocks :: "stack \<Rightarrow> nat list \<Rightarrow> makefs_state \<Rightarrow> makefs_state option" where
  "link_blocks u [] s = Some s"
| "link_blocks u (i # is) s =
     (let p = (mk_page s)\<lparr>nextLogBlock := (int i + 1) * BLOCKSIZE\<rparr>
      in do {
        (r, v) \<leftarrow> writeNAND u p (int i * BLOCKSIZE) False (mk_nand s);
        link_blocks u is (s\<lparr>mk_page := p, mk_nand := v\<rparr>) })"

definition linkFreeBlocks :: "stack \<Rightarrow> makefs_state \<Rightarrow> makefs_state option" where
  "linkFreeBlocks u s0 =
     (let s = clearPage s0; s = s\<lparr>mk_page := (mk_page s)\<lparr>pageType := PTYPE_NEXTLINK\<rparr>\<rparr>
      in link_blocks u [2..<nat (numBlocks (mk_features s) - 1)] s)"

text \<open>
  \<open>main\<close>: \<open>args\<close> is \<open>argc - 1\<close>, \<open>opened\<close> what \<open>initNAND\<close> gets from \<open>open\<close>, \<open>v\<close> the static
  state of the library before. The result is the exit status and the backing file at the
  moment \<open>stopNAND\<close> closes it.
\<close>

definition makefs_main :: "stack \<Rightarrow> nat \<Rightarrow> nandfile option \<Rightarrow> vnand \<Rightarrow> (int \<times> nandfile option) option" where
  "makefs_main u args opened v =
     (if 0 < args then Some (-1, opened)
      else let (ft, v1) = initNAND opened v
        in do {
          s \<leftarrow> writeOutSuperBlock u \<lparr>mk_super = zero_super, mk_page = zero_page,
                 mk_features = ft, mk_nand = v1\<rparr>;
          s \<leftarrow> writeOutVaddrMap u s;
          s \<leftarrow> linkFreeBlocks u s;
          Some (0, vfd (mk_nand s)) })"

section \<open>The fresh map\<close>

lemma vmap_fold_links:
  assumes "a \<le> b" "b \<le> length (vmap m)"
  shows "fold (\<lambda>i m. m\<lparr>vmap := (vmap m)[i := - (int i + 1)]\<rparr>) [a..<b] m
    = m\<lparr>vmap := take a (vmap m) @ map (\<lambda>i. - (int i + 1)) [a..<b] @ drop b (vmap m)\<rparr>"
  using assms
proof (induction b rule: dec_induct)
  case base
  then show ?case by simp
next
  case (step n)
  let ?a = "take a (vmap m) @ map (\<lambda>i. - (int i + 1)) [a..<n]"
  have l: "length ?a = n" using step by simp
  have "drop n (vmap m) = vmap m ! n # drop (Suc n) (vmap m)"
    using step by (simp add: Cons_nth_drop_Suc)
  then have "(?a @ drop n (vmap m))[n := x] = ?a @ x # drop (Suc n) (vmap m)" for x
    using list_update_length [of ?a "vmap m ! n" "drop (Suc n) (vmap m)" x] l by simp
  with step show ?case by simp
qed

definition formatted_map :: addrMap where
  "formatted_map = \<lparr>map_size = 254, freePtr = 1,
     vmap = 0 # map (\<lambda>i. - (int i + 1)) [1..<253] @ [0]\<rparr>"

lemma fresh_map_zeros: "fresh_map (dec_map 254 (replicate 1024 0)) = formatted_map"
proof -
  let ?z = "replicate 254 (0::int)"
  have z: "dec_map 254 (replicate 1024 0) = \<lparr>map_size = 0, freePtr = 0, vmap = ?z\<rparr>"
    by (simp add: dec_map_def dec_ints_zeros Let_def nth_replicate del: dec_ints.simps replicate.simps)
  let ?m = "\<lparr>map_size = 254, freePtr = 1, vmap = ?z\<rparr>"
  have "take 1 ?z @ map (\<lambda>i. - (int i + 1)) [1..<253] @ drop 253 ?z
      = 0 # map (\<lambda>i. - (int i + 1)) [1..<253] @ [0]" by simp
  with vmap_fold_links [of 1 253 ?m]
  have f: "fold (\<lambda>i m. m\<lparr>vmap := (vmap m)[i := - (int i + 1)]\<rparr>) [1..<253] ?m = formatted_map"
    by (simp add: formatted_map_def del: upt_rec_numeral replicate.simps)
  have "(vmap formatted_map)[253 := 0] = vmap formatted_map"
    by (simp add: formatted_map_def list_update_append del: upt_rec_numeral)
  with f show ?thesis
    by (simp add: fresh_map_def z Let_def del: upt_rec_numeral replicate.simps fold_simps One_nat_def)
      (simp add: formatted_map_def del: upt_rec_numeral)
qed

lemma slot_chain_formatted: "slot_chain (vmap formatted_map) (freePtr formatted_map) [1..<254]"
proof -
  let ?vm = "vmap formatted_map"
  have len: "length ?vm = 254" by (simp add: formatted_map_def del: upt_rec_numeral)
  have e: "?vm ! i = - (int i + 1)" if "1 \<le> i" "i < 253" for i
    using that by (simp add: formatted_map_def nth_append nth_Cons' del: upt_rec_numeral)
  have l: "?vm ! 253 = 0" by (simp add: formatted_map_def nth_append nth_Cons' del: upt_rec_numeral)
  have "slot_chain ?vm (int i) [i..<254]" if "1 \<le> i" "i \<le> 253" for i
    using that(2,1)
  proof (induction i rule: inc_induct)
    case base
    then show ?case by (simp add: len l upt_rec)
  next
    case (step n)
    then have "slot_chain ?vm \<bar>?vm ! n\<bar> [Suc n..<254]" by (simp add: e add.commute)
    with step show ?case by (simp add: len upt_rec [of n])
  qed
  from this [of 1] show ?thesis by (simp add: formatted_map_def del: upt_rec_numeral)
qed

lemma map_ok_formatted: "map_ok 254 formatted_map"
  by (auto simp: map_ok_def formatted_map_def is_int32_def list_all_iff simp del: upt_rec_numeral)

section \<open>What a format writes\<close>

definition format_super :: "nat \<Rightarrow> superPage" where
  "format_super nb = zero_super\<lparr>latest_vaddr_map := 16,
     freeLists := (freeLists zero_super)\<lparr>partialHead := 32, partialTail := 16 * (int nb - 1)\<rparr>\<rparr>"

definition format_page :: "nat \<Rightarrow> nat \<Rightarrow> fullPage" where
  "format_page nb k =
     (if k = 0 then zero_page\<lparr>contents := patch 0 (enc_super (format_super nb)) (replicate 1024 0),
         eraseCount := -1, pageType := PTYPE_SUPER\<rparr>
      else if k = 16 then zero_page\<lparr>contents := enc_map formatted_map, pageType := PTYPE_ADDRMAP\<rparr>
      else zero_page\<lparr>pageType := PTYPE_NEXTLINK, nextLogBlock := int k + 16\<rparr>)"

lemma super_ok_format: "nb \<le> 128009 \<Longrightarrow> super_ok (format_super nb)"
  by (simp add: super_ok_def format_super_def zero_super_def freeList_ok_def freeList_ints_def is_int32_def)

lemma page_ok_format:
  assumes "nb \<le> 128009" "k < 16 * nb"
  shows "page_ok (format_page nb k)"
proof -
  have "length (enc_super (format_super nb)) = 40" using super_ok_format [OF assms(1)] by (rule super.length_enc)
  moreover have "length (enc_map formatted_map) = 1024"
    using vaddr.length_enc [OF map_ok_formatted] by simp
  ultimately show ?thesis using assms
    by (simp add: page_ok_def format_page_def zero_page_def is_int32_def length_patch)
qed

lemma link_blocks_writes:
  assumes "nand_ok nb (mk_nand s)" "distinct is" "\<And>i. i \<in> set is \<Longrightarrow> 2 \<le> i \<and> i < nb \<and> next_free (mk_nand s) (16 * i)"
    "\<exists>n. mk_page s = zero_page\<lparr>pageType := PTYPE_NEXTLINK, nextLogBlock := n\<rparr>"
  shows "\<exists>s'. link_blocks u is s = Some s'
    \<and> mk_nand s' = fold (\<lambda>k. append_page u (format_page nb k) k) (map ((*) 16) is) (mk_nand s)"
  using assms
proof (induction "is" arbitrary: s)
  case Nil
  then show ?case by simp
next
  case (Cons i "is")
  have i: "2 \<le> i" "i < nb" "next_free (mk_nand s) (16 * i)" using Cons.prems(3) by auto
  have p: "(mk_page s)\<lparr>nextLogBlock := int i * 16 + 16\<rparr> = format_page nb (16 * i)"
    using Cons.prems(4) i(1) by (auto simp: format_page_def)
  have nb: "nb \<le> 128009" using Cons.prems(1) by (simp add: nand_ok_def)
  have ok: "page_ok (format_page nb (16 * i))" using nb i(2) by (intro page_ok_format) simp_all
  have k: "16 * i < 16 * nb" using i(2) by simp
  let ?v = "append_page u (format_page nb (16 * i)) (16 * i) (mk_nand s)"
  let ?s = "s\<lparr>mk_page := format_page nb (16 * i), mk_nand := ?v\<rparr>"
  have w: "writeNAND u (format_page nb (16 * i)) (int i * 16) False (mk_nand s) = Some (16776, ?v)"
    using writeNAND_append(1) [OF Cons.prems(1) k ok i(3), of u] by (simp add: mult.commute)
  have "nand_ok nb ?v" using Cons.prems(1) k ok i(3) by (rule seq.inv_put)
  moreover have "next_free ?v (16 * j)" if "j \<in> set is" for j
    using that Cons.prems(2) Cons.prems(3) [of j] seq.fits_put [OF Cons.prems(1) k ok i(3), of "16 * j"]
    by auto
  moreover have "\<exists>n. mk_page ?s = zero_page\<lparr>pageType := PTYPE_NEXTLINK, nextLogBlock := n\<rparr>"
    using i(1) by (auto simp: format_page_def)
  ultimately have "\<exists>s'. link_blocks u is ?s = Some s'
      \<and> mk_nand s' = fold (\<lambda>k. append_page u (format_page nb k) k) (map ((*) 16) is) (mk_nand ?s)"
    using Cons.prems(2,3) by (intro Cons.IH) auto
  then show ?case by (simp add: Let_def p w)
qed

lemma writeOutSuperBlock_writes:
  assumes "nand_ok nb (mk_nand s)" "0 < nb" "next_free (mk_nand s) 0"
    "mk_features s = features (mk_nand s)" "mk_super s = zero_super"
  shows "\<exists>s'. writeOutSuperBlock u s = Some s' \<and> mk_features s' = mk_features s
    \<and> mk_nand s' = append_page u (format_page nb 0) 0 (mk_nand s)"
proof -
  have nb: "nb \<le> 128009" "numBlocks (mk_features s) = int nb" using assms(1,4) by (simp_all add: nand_ok_def)
  have sb: "zero_super\<lparr>latest_vaddr_map := 16, freeLists := (freeLists zero_super)
      \<lparr>partialHead := 32, partialTail := 16 * (int nb - 1)\<rparr>\<rparr> = format_super nb"
    by (simp add: format_super_def)
  have p: "zero_page\<lparr>contents := patch 0 (enc_super (format_super nb)) (contents zero_page),
      eraseCount := -1, pageType := PTYPE_SUPER\<rparr> = format_page nb 0"
    by (simp add: format_page_def zero_page_def)
  have "page_ok (format_page nb 0)" using nb(1) assms(2) by (intro page_ok_format) simp_all
  from writeNAND_append(1) [OF assms(1) _ this assms(3), of u] assms(2)
  have w: "writeNAND u (format_page nb 0) 0 False (mk_nand s)
      = Some (16776, append_page u (format_page nb 0) 0 (mk_nand s))" by simp
  show ?thesis
    using nb(2) assms(5) w
    by (simp add: writeOutSuperBlock_def clearPage_def Let_def sb p del: right_diff_distrib_numeral)
qed

lemma writeOutVaddrMap_writes:
  assumes "nand_ok nb (mk_nand s)" "1 < nb" "next_free (mk_nand s) 16"
  shows "\<exists>s'. writeOutVaddrMap u s = Some s' \<and> mk_features s' = mk_features s
    \<and> mk_nand s' = append_page u (format_page nb 16) 16 (mk_nand s)"
proof -
  have "nb \<le> 128009" using assms(1) by (simp add: nand_ok_def)
  then have "page_ok (format_page nb 16)" using assms(2) by (intro page_ok_format) simp_all
  from writeNAND_append(1) [OF assms(1) _ this assms(3), of u] assms(2)
  have "writeNAND u (format_page nb 16) 16 False (mk_nand s)
      = Some (16776, append_page u (format_page nb 16) 16 (mk_nand s))" by simp
  moreover have "contents zero_page = replicate 1024 0" by (simp add: zero_page_def)
  ultimately show ?thesis
    by (simp add: writeOutVaddrMap_def clearPage_def Let_def fresh_map_zeros format_page_def)
qed

text \<open>The blocks a format writes to: all but the last.\<close>

definition format_pages :: "nat \<Rightarrow> nat list" where
  "format_pages nb = map ((*) 16) [0..<nb - 1]"

lemma makefs_main_writes:
  assumes init: "initNAND opened v0 = (ft, v)" and ok: "nand_ok nb v" "ft = features v" "3 \<le> nb"
    and free: "\<And>b. b < nb \<Longrightarrow> next_free v (16 * b)"
  shows "makefs_main u 0 opened v0
    = Some (0, vfd (fold (\<lambda>k. append_page u (format_page nb k) k) (format_pages nb) v))"
proof -
  let ?put = "\<lambda>k. append_page u (format_page nb k) k"
  have nb: "nb \<le> 128009" using ok(1) by (simp add: nand_ok_def)
  then have pok: "page_ok (format_page nb (16 * b))" if "b < nb" for b
    using that by (intro page_ok_format) simp_all
  let ?s = "\<lparr>mk_super = zero_super, mk_page = zero_page, mk_features = ft, mk_nand = v\<rparr>"
  have "3 \<le> nb \<Longrightarrow> next_free v 0" using free [of 0] by simp
  with ok obtain s1 where s1: "writeOutSuperBlock u ?s = Some s1" "mk_features s1 = ft" "mk_nand s1 = ?put 0 v"
    using writeOutSuperBlock_writes [of nb ?s u] by auto
  have v1: "nand_ok nb (?put 0 v)" "next_free (?put 0 v) (16 * b) = next_free v (16 * b)" if "0 < b" for b
    using that seq.inv_put [OF ok(1) _ pok [of 0]] seq.fits_put [OF ok(1) _ pok [of 0], where k = 0 and j = "16 * b"] ok(3) free [of 0]
    by simp_all
  have "next_free (?put 0 v) 16" using v1(2) [of 1] free [of 1] ok(3) by simp
  with v1(1) [of 1] s1 ok(3) obtain s2 where s2: "writeOutVaddrMap u s1 = Some s2" "mk_features s2 = ft"
    "mk_nand s2 = ?put 16 (?put 0 v)"
    using writeOutVaddrMap_writes [of nb s1 u] by auto
  have v2: "nand_ok nb (?put 16 (?put 0 v))" "next_free (?put 16 (?put 0 v)) (16 * b)" if "2 \<le> b" "b < nb" for b
    using that seq.inv_put [OF v1(1) [of 1] _ pok [of 1]] v1(2) [of b] v1(2) [of 1] free [of 1] free [of b]
      seq.fits_put [OF v1(1) [of 1] _ pok [of 1], where k = 16 and j = "16 * b"] ok(3)
    by simp_all
  let ?s2 = "s2\<lparr>mk_page := zero_page\<lparr>pageType := PTYPE_NEXTLINK\<rparr>\<rparr>"
  have "\<exists>s'. link_blocks u [2..<nb - 1] ?s2 = Some s'
    \<and> mk_nand s' = fold ?put (map ((*) 16) [2..<nb - 1]) (mk_nand ?s2)"
  proof (rule link_blocks_writes)
    show "nand_ok nb (mk_nand ?s2)" using v2(1) [of 2] s2(3) ok(3) by simp
    show "2 \<le> i \<and> i < nb \<and> next_free (mk_nand ?s2) (16 * i)" if "i \<in> set [2..<nb - 1]" for i
      using that v2(2) [of i] s2(3) by auto
    show "\<exists>n. mk_page ?s2 = zero_page\<lparr>pageType := PTYPE_NEXTLINK, nextLogBlock := n\<rparr>"
      by (rule exI [of _ 0]) (simp add: zero_page_def)
  qed simp
  moreover have "nat (numBlocks ft - 1) = nb - 1" using ok by (simp add: nand_ok_def)
  ultimately obtain s3 where s3: "linkFreeBlocks u s2 = Some s3"
    "mk_nand s3 = fold ?put (map ((*) 16) [2..<nb - 1]) (?put 16 (?put 0 v))"
    using s2 by (auto simp: linkFreeBlocks_def clearPage_def Let_def)
  have "format_pages nb = 0 # 16 # map ((*) 16) [2..<nb - 1]"
    using ok(3) by (simp add: format_pages_def upt_conv_Cons numeral_2_eq_2)
  then show ?thesis by (simp add: makefs_main_def init s1 s2 s3)
qed

section \<open>A formatted device\<close>

text \<open>What the rest of the system relies on after a format.\<close>

definition formatted :: "nat \<Rightarrow> vnand \<Rightarrow> bool" where
  "formatted nb v \<longleftrightarrow> image_ok nb v
     \<and> dec_super (contents (page_at v 0)) = format_super nb
     \<and> dec_map 254 (contents (page_at v 16)) = formatted_map
     \<and> partial_chain nb v 32 (map ((*) 16) [2..<nb])"

lemma partial_chain_blocks:
  assumes "\<And>b. 2 \<le> b \<Longrightarrow> b < nb - 1 \<Longrightarrow> nextLogBlock (page_at v (16 * b)) = 16 * int b + 16"
    "nextLogBlock (page_at v (16 * (nb - 1))) = 0" "i < nb" "2 \<le> i"
  shows "partial_chain nb v (16 * int i) (map ((*) 16) [i..<nb])"
proof -
  have "i \<le> nb - 1" using assms(3) by simp
  then show ?thesis using assms(4)
  proof (induction i rule: inc_induct)
    case base
    have "[nb - 1..<nb] = [nb - 1]" using assms(3) by (simp add: upt_conv_Cons)
    with assms(2,3) base show ?case by simp
  next
    case (step n)
    then have "partial_chain nb v (nextLogBlock (page_at v (16 * n))) (map ((*) 16) [Suc n..<nb])"
      using assms(1) [of n] by (simp add: add.commute)
    with step show ?case by (simp add: upt_conv_Cons)
  qed
qed

lemma image_ok_file: "image_ok nb v \<Longrightarrow> \<exists>f. vfd v = Some f"
  by (auto simp: image_ok_def nand_ok_def)

lemma formatted_pages:
  assumes "3 \<le> nb" "image_ok nb v"
    "\<And>j. page_at v j = (if j \<in> set (format_pages nb) then format_page nb j else page_at w j)"
    "nextLogBlock (page_at w (16 * (nb - 1))) = 0"
  shows "formatted nb v"
proof -
  have nb: "nb \<le> 128009" using assms(2) by (simp add: image_ok_def nand_ok_def)
  have in_pages: "16 * b \<in> set (format_pages nb)" if "b < nb - 1" for b
    using that by (simp add: format_pages_def)
  have p0: "page_at v 0 = format_page nb 0" "page_at v 16 = format_page nb 16"
    using assms(1) in_pages [of 0] in_pages [of 1] by (simp_all add: assms(3))
  have "dec_super (contents (format_page nb 0)) = format_super nb"
    using super.dec_enc_app [OF super_ok_format [OF nb]] by (simp add: format_page_def patch_def)
  moreover have "dec_map 254 (contents (format_page nb 16)) = formatted_map"
    using vaddr.dec_enc [OF map_ok_formatted] by (simp add: format_page_def)
  moreover have "partial_chain nb v (16 * int 2) (map ((*) 16) [2..<nb])"
  proof (rule partial_chain_blocks)
    fix b assume "2 \<le> b" "b < nb - 1"
    then show "nextLogBlock (page_at v (16 * b)) = 16 * int b + 16"
      using in_pages [of b] by (simp add: assms(3) format_page_def)
  next
    have "16 * (nb - 1) \<notin> set (format_pages nb)" by (auto simp: format_pages_def)
    then show "nextLogBlock (page_at v (16 * (nb - 1))) = 0" using assms(4) by (simp add: assms(3))
  qed (use assms(1) in simp_all)
  ultimately show ?thesis using assms(2) p0 by (simp add: formatted_def)
qed

lemma format_pages_props:
  assumes "k \<in> set (format_pages nb)"
  obtains b where "k = 16 * b" "b < nb"
  using assms by (auto simp: format_pages_def)

lemma distinct_format_pages: "distinct (map (\<lambda>k. k div 16) (format_pages nb))"
  by (simp add: format_pages_def o_def)

lemma page_one [simp]: "Suc (16 * b) div 16 = b" "Suc (16 * b) mod 16 = Suc 0"
  by presburger+

lemma append_next_free:
  assumes "nand_ok nb v" "16 * b < 16 * nb" "page_ok p" "next_free v (16 * b)"
  shows "next_free (append_page u p (16 * b) v) (16 * b + 1)"
  using writeNAND_append(3) [OF assms, of u] assms(4) by (simp add: next_free_def put_page_def)

lemma fold_next_free:
  assumes ok: "image_ok nb v" "distinct (map (\<lambda>k. k div 16) ks)" "16 * b \<in> set ks"
    and fits: "\<And>k. k \<in> set ks \<Longrightarrow> k < 16 * nb \<and> page_ok (g k) \<and> next_free v k"
  shows "next_free (fold (\<lambda>k. append_page u (g k) k) ks v) (16 * b + 1)"
proof -
  obtain ks1 ks2 where ks: "ks = ks1 @ 16 * b # ks2" using ok(3) by (meson split_list)
  let ?put = "\<lambda>k. append_page u (g k) k"
  let ?v1 = "fold ?put ks1 v"
  have d: "distinct (map (\<lambda>k. k div 16) ks1)" "b \<notin> (\<lambda>k. k div 16) ` set ks1"
    "distinct (map (\<lambda>k. k div 16) ks2)" "b \<notin> (\<lambda>k. k div 16) ` set ks2"
    "(\<lambda>k. k div 16) ` set ks1 \<inter> (\<lambda>k. k div 16) ` set ks2 = {}"
    using ok(2) by (auto simp: ks)
  note m1 = img.put_many [OF ok(1) d(1) fits, where u = u, simplified ks, simplified]
  have f1: "next_free ?v1 k = next_free v k" if "k div 16 \<notin> (\<lambda>k. k div 16) ` set ks1" for k
    using m1 that by blast
  have b: "16 * b < 16 * nb" "page_ok (g (16 * b))" "next_free ?v1 (16 * b)" "image_ok nb ?v1" "nand_ok nb ?v1"
    using fits [of "16 * b"] f1 [of "16 * b"] d(2) m1 by (auto simp: ks image_ok_def)
  let ?v2 = "?put (16 * b) ?v1"
  have i2: "image_ok nb ?v2" using b by (intro img.inv_put)
  have f2: "k < 16 * nb \<and> page_ok (g k) \<and> next_free ?v2 k" if k: "k \<in> set ks2" for k
  proof -
    have kd: "k div 16 \<in> (\<lambda>k. k div 16) ` set ks2" using k by (rule imageI)
    then have "k div 16 \<noteq> 16 * b div 16" "k div 16 \<notin> (\<lambda>k. k div 16) ` set ks1" using d(4,5) by auto
    then show ?thesis using fits [of k] k f1 img.fits_put [OF b(4,1,2,3), of k u] by (auto simp: ks)
  qed
  have "(16 * b + 1) div 16 \<notin> (\<lambda>k. k div 16) ` set ks2" using d(4) by simp
  then have "next_free (fold ?put ks2 ?v2) (16 * b + 1) = next_free ?v2 (16 * b + 1)"
    using img.put_many [OF i2 d(3) f2, where u = u] by blast
  moreover have "next_free ?v2 (16 * b + 1)" by (rule append_next_free [OF b(5,1,2,3)])
  ultimately show ?thesis by (simp add: ks)
qed

lemma makefs_formats:
  assumes init: "initNAND opened v0 = (ft, v)" and ok: "image_ok nb v" "ft = features v" "3 \<le> nb"
    and free: "\<And>b. b < nb \<Longrightarrow> next_free v (16 * b)"
    and last: "nextLogBlock (page_at v (16 * (nb - 1))) = 0"
  shows "\<exists>w. makefs_main u 0 opened v0 = Some (0, vfd w) \<and> formatted nb w
    \<and> next_free w (16 * (nb - 1)) \<and> (\<forall>b < nb - 1. next_free w (16 * b + 1))"
proof -
  define w where "w = fold (\<lambda>k. append_page u (format_page nb k) k) (format_pages nb) v"
  have nb: "nb \<le> 128009" using ok(1) by (simp add: image_ok_def nand_ok_def)
  have fits: "k < 16 * nb \<and> page_ok (format_page nb k) \<and> next_free v k" if "k \<in> set (format_pages nb)" for k
    using that by (rule format_pages_props) (use free nb in \<open>simp add: page_ok_format\<close>)
  note many = img.put_many [OF ok(1) distinct_format_pages [of nb] fits, where u = u, folded w_def]
  have "nb - 1 \<notin> (\<lambda>k. k div 16) ` set (format_pages nb)" by (auto simp: format_pages_def)
  moreover have "next_free v (16 * (nb - 1))" using free ok(3) by simp
  ultimately have "next_free w (16 * (nb - 1))" using many by simp
  moreover have "formatted nb w"
    by (rule formatted_pages [of nb w v]) (use many ok(3) last in simp_all)
  moreover have "makefs_main u 0 opened v0 = Some (0, vfd w)"
    using makefs_main_writes [OF init _ ok(2,3) free] ok(1) by (simp add: w_def)
  moreover have "next_free w (16 * b + 1)" if "b < nb - 1" for b
    unfolding w_def by (rule fold_next_free [OF ok(1) distinct_format_pages _ fits]) (use that in \<open>auto simp: format_pages_def\<close>)
  ultimately show ?thesis by blast
qed

text \<open>The device of three blocks, formatted.\<close>

lemma image_ok_nand3 [simp]: "image_ok 3 nand3"
  by (simp add: nand3_def image_ok_fresh)

lemma next_free_nand3 [simp]: "b < 3 \<Longrightarrow> next_free nand3 (16 * b)"
  by (simp add: next_free_def erased_block_def)

lemma init_nand3: "\<exists>opened. initNAND opened vnand0 = (features nand3, nand3)"
proof -
  obtain f where f: "vfd nand3 = Some f" using image_ok_file [OF image_ok_nand3] by blast
  have "fpos f = 8" using f by (auto simp: nand3_def fresh_nand_eq Let_def)
  then have "nand3\<lparr>vfd := Some (f\<lparr>fpos := 8\<rparr>)\<rparr> = nand3" using f by (cases nand3, cases f) simp
  with reattach(1) [OF image_ok_nand3 f, of vnand0] show ?thesis by metis
qed

section \<open>What formatting guarantees\<close>

text \<open>
  C4. Formatting an erased device of at least three blocks and attaching it again gives a
  super page that decodes to the two list ends (block 2 and the last block) and the address
  of the map, a map of 254 slots all of whose slots but 0 are free, in order, and a
  partially used free list that runs through blocks 2 to the last.
\<close>

theorem makefs_roundtrip:
  assumes "initNAND opened v0 = (features v, v)" "image_ok nb v" "3 \<le> nb"
    "\<And>b. b < nb \<Longrightarrow> next_free v (16 * b)" "nextLogBlock (page_at v (16 * (nb - 1))) = 0"
  shows "\<exists>f v'. makefs_main u 0 opened v0 = Some (0, Some f)
     \<and> initNAND (Some (f\<lparr>fpos := 0\<rparr>)) v1 = (features v, v')
     \<and> dec_super (contents (page_at v' 0)) = format_super nb
     \<and> map_size (dec_map 254 (contents (page_at v' 16))) = 254
     \<and> slot_chain (vmap (dec_map 254 (contents (page_at v' 16))))
          (freePtr (dec_map 254 (contents (page_at v' 16)))) [1..<254]
     \<and> partial_chain nb v' 32 (map ((*) 16) [2..<nb])"
proof -
  from makefs_formats [OF assms(1,2) _ assms(3-5)] obtain w where
    w: "makefs_main u 0 opened v0 = Some (0, vfd w)" "formatted nb w" by blast
  have img: "image_ok nb w" using w(2) by (simp add: formatted_def)
  then obtain f where f: "vfd w = Some f" using image_ok_file by blast
  have ft: "features w = features v" using img assms(2) by (simp add: image_ok_def nand_ok_def)
  define v' where "v' = w\<lparr>vfd := Some (f\<lparr>fpos := 8\<rparr>)\<rparr>"
  note r = reattach [OF img f, folded v'_def]
  have pg: "page_at v' = page_at w" by (rule page_at_cong [OF r(3)])
  have m: "dec_map 254 (contents (page_at v' 16)) = formatted_map"
    and sp: "dec_super (contents (page_at v' 0)) = format_super nb"
    using w(2) by (simp_all add: formatted_def pg)
  have "partial_chain nb v' 32 (map ((*) 16) [2..<nb])"
    using w(2) unfolding formatted_def partial_chain_cong [OF pg] by blast
  moreover have "map_size formatted_map = 254" by (simp add: formatted_map_def)
  moreover have "initNAND (Some (f\<lparr>fpos := 0\<rparr>)) v1 = (features v, v')" using r(1) [of v1] ft by simp
  moreover have "makefs_main u 0 opened v0 = Some (0, Some f)" using w(1) f by simp
  ultimately show ?thesis using slot_chain_formatted sp m by (intro exI conjI) (simp_all only: m)
qed

theorem makefs_roundtrip_witness:
  "\<exists>opened f v'. makefs_main (\<lambda>_. 7) 0 opened vnand0 = Some (0, Some f)
     \<and> initNAND (Some (f\<lparr>fpos := 0\<rparr>)) vnand0 = (features nand3, v')
     \<and> partial_chain 3 v' 32 [32]"
proof -
  obtain opened where o: "initNAND opened vnand0 = (features nand3, nand3)" using init_nand3 by blast
  have "nextLogBlock (page_at nand3 (16 * (3 - 1))) = 0" by (simp add: zero_page_def)
  from makefs_roundtrip [OF o image_ok_nand3 _ next_free_nand3 this, of "\<lambda>_. 7" vnand0]
  obtain f v' where "makefs_main (\<lambda>_. 7) 0 opened vnand0 = Some (0, Some f)"
    "initNAND (Some (f\<lparr>fpos := 0\<rparr>)) vnand0 = (features nand3, v')"
    "partial_chain 3 v' 32 (map ((*) 16) [2..<3])" by auto
  then show ?thesis by (auto simp: upt_rec)
qed

text \<open>
  On a formatted device, all of blocks 2 to the last can be handed out to new files,
  each from its page 1, none of them twice.
\<close>

theorem format_then_allocate:
  assumes "formatted nb v" "n \<le> nb - 2" "partialHead fl = partialHead (freeLists (format_super nb))"
  shows "\<exists>fl' v'. take_blocks u n fl v = (map (\<lambda>b. 16 * int b + 1) [2..<2 + n], fl', v')
     \<and> abs_nand v' = abs_nand v"
proof -
  have ok: "nand_ok nb v" "partial_chain nb v (partialHead fl) (map ((*) 16) [2..<nb])"
    using assms(1,3) by (simp_all add: formatted_def format_super_def)
  have "n \<le> length (map ((*) 16) [2..<nb])" using assms(2) by simp
  from take_blocks_chain [OF ok this, of u] obtain fl' v' where
    t: "take_blocks u n fl v = (map (\<lambda>x. int x + 1) (take n (map ((*) 16) [2..<nb])), fl', v')"
    "file_bytes v' = file_bytes v" by blast
  have "take n (map ((*) 16) [2..<nb]) = map ((*) 16) [2..<2 + n]"
    using assms(2) by (cases "n = 0") (simp_all add: take_map)
  with t abs_nand_cong [OF t(2)] show ?thesis by (simp add: o_def)
qed

theorem format_then_allocate_witness:
  "\<exists>v fl' v'. formatted 3 v \<and> take_blocks (\<lambda>_. 7) 1 fl32 v = ([33], fl', v')"
proof -
  obtain opened where o: "initNAND opened vnand0 = (features nand3, nand3)" using init_nand3 by blast
  have "nextLogBlock (page_at nand3 (16 * (3 - 1))) = 0" by (simp add: zero_page_def)
  from makefs_formats [OF o image_ok_nand3 refl _ next_free_nand3 this] obtain w where "formatted 3 w" by auto
  with format_then_allocate [of 3 w 1 fl32 "\<lambda>_. 7"] show ?thesis
    by (auto simp: fl32_def format_super_def upt_rec)
qed

text \<open>
  The last block gets no link page, although its page 0 is the tail of the partially
  used free list and the block is handed out from page 1: the first sequential write of the
  file that is given the last block is refused.
\<close>

theorem makefs_last_block_unusable:
  assumes "initNAND opened v0 = (features v, v)" "image_ok nb v" "3 \<le> nb"
    "\<And>b. b < nb \<Longrightarrow> next_free v (16 * b)" "nextLogBlock (page_at v (16 * (nb - 1))) = 0" "page_ok p"
  shows "\<exists>w w'. makefs_main u 0 opened v0 = Some (0, vfd w) \<and> formatted nb w
     \<and> writeNAND u p (16 * int (nb - 1) + 1) False w = Some (-1, w') \<and> abs_nand w' = abs_nand w"
proof -
  from makefs_formats [OF assms(1,2) _ assms(3-5)] obtain w where
    w: "makefs_main u 0 opened v0 = Some (0, vfd w)" "formatted nb w" "next_free w (16 * (nb - 1))" by blast
  let ?k = "16 * (nb - 1) + 1"
  have ok: "nand_ok nb w" using w(2) by (simp add: formatted_def)
  have k: "?k < 16 * nb" "?k div 16 = nb - 1" "?k mod 16 = 1" using assms(3) by simp_all
  have "int (?k mod 16) \<noteq> anext (abs_nand w (?k div 16))"
    using w(3) k by (simp add: next_free_def del: of_nat_mult)
  then obtain w' where "writeNAND u p (int ?k) False w = Some (-1, w')" "abs_nand w' = abs_nand w"
    using writeNAND_page [OF ok k(1) assms(6), of False u] by auto
  moreover have "int ?k = 16 * int (nb - 1) + 1" by simp
  ultimately show ?thesis using w(1,2) by metis
qed

theorem makefs_last_block_unusable_witness:
  "\<exists>opened w w'. makefs_main (\<lambda>_. 7) 0 opened vnand0 = Some (0, vfd w)
     \<and> writeNAND (\<lambda>_. 7) zero_page 33 False w = Some (-1, w')"
proof -
  obtain opened where o: "initNAND opened vnand0 = (features nand3, nand3)" using init_nand3 by blast
  have "nextLogBlock (page_at nand3 (16 * (3 - 1))) = 0" by (simp add: zero_page_def)
  from makefs_last_block_unusable [OF o image_ok_nand3 _ next_free_nand3 this page_ok_zero_page, of "\<lambda>_. 7"]
  show ?thesis by auto
qed

end
