(* ===== verification/CYC_State.thy ===== *)
theory CYC_State
  imports Makefs
begin

text \<open>
  The state of the mounted file system (\<open>struct CYCstate\<close>, \<open>struct pageCache\<close>,
  \<open>struct openFile\<close>, \<open>struct log_file_info\<close> of \<open>example/fuseLogging.h\<close>), the functions of
  \<open>example/helper.c\<close> that set up its parts, and mounting and unmounting (\<open>xmp_init\<close>,
  \<open>xmp_destroy\<close> of \<open>example/passthroughBlocked_fh.c\<close>).

  Objects that the code shares through pointers live in a store: a pointer is a number, 0
  is the null pointer, and there is one map per struct type. The table of open files holds
  pointers to both \<open>struct openFile\<close> and \<open>struct activeLog\<close>; following one to an object of the
  other type is \<open>None\<close>, like every other undefined behaviour. Memory from \<open>malloc\<close> takes
  its bytes from an argument, like an uninitialised variable.
\<close>

type_synonym ptr = nat

abbreviation (input) NULL :: ptr where "NULL \<equiv> 0"

record openFile =
  currentOpens :: int
  mainExtentLog :: ptr
  of_inode :: inode
  of_address :: int
  modified :: int

record log_file_info =
  lf_flag :: int
  lf_oFile :: ptr

record CYCstate =
  nFeatures :: nandFeatures
  vaddrMap :: addrMap
  openFileTable :: "ptr list"
  flists :: freeList
  alogs :: "ptr \<Rightarrow> activeLog option"
  ofiles :: "ptr \<Rightarrow> openFile option"
  finfos :: "ptr \<Rightarrow> log_file_info option"
  brk :: ptr
  nand :: vnand

text \<open>Objects fresh from \<open>malloc\<close>.\<close>

definition malloc_inode :: "stack \<Rightarrow> inode" where
  "malloc_inode g = dec_inode (stack_bytes 176 g)"

definition malloc_activeLog :: "stack \<Rightarrow> activeLog" where
  "malloc_activeLog g = (let xs = dec_ints 3 (stack_bytes 12 g) in
     \<lparr>nextPage = xs ! 0, lastBlock = xs ! 1, lastErases = xs ! 2,
      log_hdr = dec_log (drop 16 (stack_bytes 584 g)),
      alog_fileCount = dec32 (drop 584 (stack_bytes 588 g))\<rparr>)"

definition malloc_openFile :: "stack \<Rightarrow> openFile" where
  "malloc_openFile g = \<lparr>currentOpens = dec32 (stack_bytes 4 g), mainExtentLog = 0,
     of_inode = malloc_inode g, of_address = 0, modified = dec32 (stack_bytes 4 g)\<rparr>"

section \<open>Setting up\<close>

text \<open>
  \<open>memset\<close> is given the number of entries, 254, as its number of bytes: that is 31 pointers
  and the low six bytes of the next. \<open>tbl\<close> is what the table held before.
\<close>

definition clear_table :: "ptr list \<Rightarrow> ptr list" where
  "clear_table tbl = replicate 31 0 @ map (\<lambda>p. p div 2 ^ 48 * 2 ^ 48) (take 1 (drop 31 tbl)) @ drop 32 tbl"

definition initCYCstate :: "stack \<Rightarrow> ptr list \<Rightarrow> CYCstate \<Rightarrow> CYCstate option" where
  "initCYCstate u tbl s =
     (let (r1, page, v) = readNAND (stack_page u) 0 (nand s);
          superBlock = dec_super (enc_page page);
          s = s\<lparr>flists := freeLists superBlock\<rparr>;
          (r2, page, v) = readNAND page (latest_vaddr_map superBlock) v;
          n = map_size (dec_map 0 (enc_page page))
      in if 0 \<le> n \<and> 8 + 4 * n \<le> int sizeof_fullPage
         then Some (s\<lparr>vaddrMap := dec_map (nat n) (enc_page page), openFileTable := clear_table tbl, nand := v\<rparr>)
         else None)"

definition initInode :: "inode \<Rightarrow> 32 word \<Rightarrow> int \<Rightarrow> int \<Rightarrow> inode" where
  "initInode ind mode fileID logID =
     ind\<lparr>i_mode := mode, i_file_no := fileID, i_log_no := logID, i_links_count := 0,
         i_pages := 0, i_size := 0\<rparr>"

definition initLogHeader :: "logHeader \<Rightarrow> int \<Rightarrow> 16 word \<Rightarrow> logHeader" where
  "initLogHeader logH lid ltype =
     logH\<lparr>erases := 0, logId := lid, prev := -1, active := 0, total := 1, logType := ltype\<rparr>"

definition initActiveLog :: "activeLog \<Rightarrow> int \<Rightarrow> activeLog" where
  "initActiveLog theLog headerPage =
     (if (headerPage + 3) smod BLOCKSIZE = 0 then
        theLog\<lparr>nextPage := prev (log_hdr theLog) * BLOCKSIZE + (BLOCKSIZE - 1)\<rparr>
      else if (headerPage + 2) smod BLOCKSIZE = 0 then
        theLog\<lparr>nextPage := lastBlock theLog * BLOCKSIZE\<rparr>
      else if (headerPage + 1) smod BLOCKSIZE = 0 then
        theLog\<lparr>nextPage := lastBlock theLog * BLOCKSIZE + (BLOCKSIZE - 2)\<rparr>
      else theLog\<lparr>nextPage := nextPage theLog + 1\<rparr>)"

definition initOpenFile :: "openFile \<Rightarrow> ptr \<Rightarrow> inode \<Rightarrow> int \<Rightarrow> openFile" where
  "initOpenFile oFile l ind fileID =
     oFile\<lparr>currentOpens := 1, mainExtentLog := l, of_inode := ind, of_address := fileID\<rparr>"

text \<open>Storing into the map and into the table of open files, within their bounds.\<close>

definition set_vaddr :: "int \<Rightarrow> int \<Rightarrow> CYCstate \<Rightarrow> CYCstate option" where
  "set_vaddr i a s =
     (if 0 \<le> i \<and> i < int (length (vmap (vaddrMap s)))
      then Some (s\<lparr>vaddrMap := (vaddrMap s)\<lparr>vmap := (vmap (vaddrMap s))[nat i := a]\<rparr>\<rparr>) else None)"

definition get_vaddr :: "int \<Rightarrow> CYCstate \<Rightarrow> int option" where
  "get_vaddr i s =
     (if 0 \<le> i \<and> i < int (length (vmap (vaddrMap s))) then Some (vmap (vaddrMap s) ! nat i) else None)"

definition set_open :: "int \<Rightarrow> ptr \<Rightarrow> CYCstate \<Rightarrow> CYCstate option" where
  "set_open i p s =
     (if 0 \<le> i \<and> i < int (length (openFileTable s))
      then Some (s\<lparr>openFileTable := (openFileTable s)[nat i := p]\<rparr>) else None)"

definition get_open :: "int \<Rightarrow> CYCstate \<Rightarrow> ptr option" where
  "get_open i s =
     (if 0 \<le> i \<and> i < int (length (openFileTable s)) then Some (openFileTable s ! nat i) else None)"

text \<open>Result: the log, \<open>*logHeaderPage\<close> and the new state.\<close>

definition getLogForFile :: "stack \<Rightarrow> int \<Rightarrow> 32 word \<Rightarrow> CYCstate \<Rightarrow> (ptr \<times> int \<times> CYCstate) option" where
  "getLogForFile u fileID mode s = do {
     let theLog = brk s;
     let al = malloc_activeLog u;
     (logID, m) \<leftarrow> getFreePtr (vaddrMap s);
     let h = (log_hdr al)\<lparr>fInode := initInode (fInode (log_hdr al)) mode fileID logID\<rparr>;
     let h = initLogHeader h logID LTYPE_FILES;
     let (er, page, fl, v) = getFreeBlock u (flists s) True (nand s);
     let h = h\<lparr>firstErases := er, erases := word_of_int er, first := page sdiv BLOCKSIZE,
               fileCount := 1, fileId := (fileId h)[0 := fileID]\<rparr>;
     let al = al\<lparr>log_hdr := h, lastBlock := first h, nextPage := page\<rparr>;
     let s = s\<lparr>vaddrMap := m, flists := fl, nand := v, brk := brk s + 1, alogs := (alogs s)(theLog := Some al)\<rparr>;
     s \<leftarrow> set_open logID theLog s;
     s \<leftarrow> set_vaddr logID page s;
     Some (theLog, page, s) }"

text \<open>Writing the header that a log holds now to the log's next page.\<close>

definition put_header :: "stack \<Rightarrow> (fullPage \<Rightarrow> fullPage) \<Rightarrow> ptr \<Rightarrow> CYCstate \<Rightarrow> CYCstate option" where
  "put_header u stamp l s = do {
     al \<leftarrow> alogs s l;
     let (buf, fl, al, v) = getFreePage u (flists s) al (nand s);
     let page = stamp ((nandPage buf)\<lparr>contents := patch 0 (enc_log (log_hdr al)) (contents (nandPage buf))\<rparr>);
     (r, v) \<leftarrow> writeNAND u page (address buf) False v;
     Some (s\<lparr>flists := fl, alogs := (alogs s)(l := Some al), nand := v\<rparr>) }"

definition writeCurrLogHeader :: "stack \<Rightarrow> ptr \<Rightarrow> CYCstate \<Rightarrow> CYCstate option" where
  "writeCurrLogHeader u oFile s = do {
     f \<leftarrow> ofiles s oFile;
     put_header u (\<lambda>p. p) (mainExtentLog f) s }"

section \<open>Mounting and unmounting\<close>

text \<open>\<open>s\<close> stands for the fresh \<open>struct CYCstate\<close> and an empty store.\<close>

definition xmp_init :: "stack \<Rightarrow> ptr list \<Rightarrow> nandfile option \<Rightarrow> CYCstate \<Rightarrow> CYCstate option" where
  "xmp_init u tbl opened s =
     (let (ft, v) = initNAND opened (nand s)
      in initCYCstate u tbl (s\<lparr>nFeatures := ft, nand := v\<rparr>))"

definition xmp_destroy :: "stack \<Rightarrow> CYCstate \<Rightarrow> CYCstate option" where
  "xmp_destroy u s = do {
     let (r, page, v) = readNAND (stack_page u) 0 (nand s);
     let superBlock = (dec_super (contents page))\<lparr>freeLists := flists s\<rparr>;
     let page = page\<lparr>contents := patch 0 (enc_super superBlock) (contents page)\<rparr>;
     (r, v) \<leftarrow> writeNAND u page 0 True v;
     let mapSize = 8 + 4 * map_size (vaddrMap s);
     if 0 \<le> mapSize \<and> mapSize \<le> int (length (enc_map (vaddrMap s))) \<and> mapSize \<le> int sizeof_fullPage
     then do {
       let page = dec_page (patch 0 (take (nat mapSize) (enc_map (vaddrMap s))) (enc_page page));
       (r, v) \<leftarrow> writeNAND u page (latest_vaddr_map superBlock) True v;
       Some (s\<lparr>nand := v\<rparr>) }
     else None }"

section \<open>Reading the super page and the map\<close>

lemma page_ok_page_at: "nand_ok nb v \<Longrightarrow> k < 16 * nb \<Longrightarrow> page_ok (page_at v k)"
proof -
  assume ok: "nand_ok nb v" "k < 16 * nb"
  have "(k mod 16) * 1048 + 1048 \<le> 16776" by (simp add: Suc_leI)
  moreover have "k div 16 < nb" using ok(2) by (simp add: less_mult_imp_div_less mult.commute)
  ultimately show ?thesis
    using ok(1) length_block_bytes [of nb v "k div 16"]
    by (simp add: page_at_def abs_nand_def nth_apages ok_dec_page length_bslice nand_ok_def)
qed

lemma contents_take: "page_ok p \<Longrightarrow> contents p = take 1024 (enc_page p)"
  by (simp add: page_ok_def enc_page_def)

lemma dec_super_page: "page_ok p \<Longrightarrow> dec_super (enc_page p) = dec_super (contents p)"
  by (simp add: dec_super_def contents_take dec_ints_take)

lemma dec_map_page: "page_ok p \<Longrightarrow> n \<le> 254 \<Longrightarrow> dec_map n (enc_page p) = dec_map n (contents p)"
  using dec_ints_take [of "n + 2" 1024 "enc_page p"] by (simp add: dec_map_def contents_take del: dec_ints.simps)

lemma dec_ints_hd: "dec_ints (Suc n) bs ! 0 = dec32 (take 4 bs)"
  by (simp add: dec_ints_nth bslice_def)

lemma map_size_dec_map: "map_size (dec_map n bs) = dec32 (take 4 bs)"
  using dec_ints_hd [of "n + 1" bs] by (simp add: dec_map_def Let_def)

lemma super_ok_dec: "super_ok (dec_super bs)"
proof -
  have "is_int32 (dec_ints 10 bs ! i)" if "i < 10" for i
    using is_int32_dec_ints [of 10 bs] that by (simp add: list_all_length)
  then show ?thesis
    by (simp add: super_ok_def dec_super_def Let_def freeList_ok_def freeList_ints_def ints_freeList_def
        del: dec_ints.simps)
qed

lemma initCYCstate_reads:
  assumes ok: "nand_ok nb (nand s)" "0 < nb"
    and map: "latest_vaddr_map (dec_super (contents (page_at (nand s) 0))) = int k" "k < 16 * nb"
    and n: "map_size (dec_map 0 (contents (page_at (nand s) k))) = int n" "n \<le> 254"
  shows "\<exists>s'. initCYCstate u tbl s = Some s'
     \<and> vaddrMap s' = dec_map n (contents (page_at (nand s) k))
     \<and> flists s' = freeLists (dec_super (contents (page_at (nand s) 0)))
     \<and> openFileTable s' = clear_table tbl \<and> nFeatures s' = nFeatures s \<and> brk s' = brk s
     \<and> alogs s' = alogs s \<and> ofiles s' = ofiles s \<and> finfos s' = finfos s
     \<and> nand_ok nb (nand s') \<and> file_bytes (nand s') = file_bytes (nand s)"
proof -
  define p0 where "p0 = page_at (nand s) 0"
  define pk where "pk = page_at (nand s) k"
  have pok: "page_ok p0" "page_ok pk"
    using page_ok_page_at [OF ok(1)] ok(2) map(2) by (simp_all add: p0_def pk_def)
  obtain v1 where v1: "readNAND (stack_page u) 0 (nand s) = (1048, p0, v1)" "nand_ok nb v1"
    "file_bytes v1 = file_bytes (nand s)"
    using readNAND_page [OF ok(1) _ page_ok_stack_page, of 0 u] ok(2) by (auto simp: p0_def)
  have "page_at v1 = page_at (nand s)" using v1(3) by (intro page_at_cong abs_nand_cong)
  then obtain v2 where v2: "readNAND p0 (int k) v1 = (1048, pk, v2)" "nand_ok nb v2"
    "file_bytes v2 = file_bytes (nand s)"
    using readNAND_page [OF v1(2) map(2) pok(1)] v1(3) by (auto simp: pk_def)
  have "map_size (dec_map 0 (enc_page pk)) = int n"
    using n dec_map_page [OF pok(2), of 0] by (simp add: pk_def)
  with v1(1) v2 n(2) map(1) [folded p0_def] show ?thesis
    unfolding p0_def [symmetric] pk_def [symmetric]
    by (simp add: initCYCstate_def dec_super_page [OF pok(1)] dec_map_page [OF pok(2)] Let_def)
qed

section \<open>Writing them back\<close>

text \<open>Random-access writes of two pages, the effect on the pages of the device.\<close>

lemma writeNAND_random:
  assumes "nand_ok nb v" "k < 16 * nb" "page_ok p"
  shows "\<exists>v'. writeNAND u p (int k) True v = Some (16776, v') \<and> nand_ok nb v'
     \<and> (\<forall>j. page_at v' j = (if j = k then p else page_at v j))
     \<and> (\<forall>b. anext (abs_nand v' b) = anext (abs_nand v b))"
  using writeNAND_page [OF assms, of True u] page_at_upd [where k = k and v = v and p = p and ra = True]
  by (auto simp: put_page_def)

lemma page_ok_contents: "page_ok p \<Longrightarrow> length c = 1024 \<Longrightarrow> page_ok (p\<lparr>contents := c\<rparr>)"
  by (simp add: page_ok_def)

lemma page_patch_contents:
  assumes "page_ok p" "length bs \<le> 1024"
  shows "dec_page (patch 0 bs (enc_page p)) = p\<lparr>contents := patch 0 bs (contents p)\<rparr>"
proof -
  let ?q = "p\<lparr>contents := patch 0 bs (contents p)\<rparr>"
  have l: "length (contents p) = 1024" using assms(1) by (simp add: page_ok_def)
  then have "page_ok ?q" using assms by (intro page_ok_contents) (simp_all add: length_patch)
  moreover have "enc_page ?q = patch 0 bs (enc_page p)"
    using l assms(2) by (simp add: enc_page_def patch_def)
  ultimately show ?thesis using page.dec_enc [of ?q] by simp
qed

lemma xmp_destroy_writes:
  assumes ok: "nand_ok nb (nand s)" "0 < nb"
    and sb: "sb = dec_super (contents (page_at (nand s) 0))" "latest_vaddr_map sb = int k" "0 < k" "k < 16 * nb"
    and m: "map_ok n (vaddrMap s)" "map_size (vaddrMap s) = int n" "n \<le> 254"
  shows "\<exists>s' p0 pk. xmp_destroy u s = Some s' \<and> nand_ok nb (nand s')
     \<and> (\<forall>j. page_at (nand s') j = (if j = 0 then p0 else if j = k then pk else page_at (nand s) j))
     \<and> contents p0 = patch 0 (enc_super (sb\<lparr>freeLists := flists s\<rparr>)) (contents (page_at (nand s) 0))
     \<and> contents pk = patch 0 (enc_map (vaddrMap s)) (contents p0) \<and> pageType pk = pageType (page_at (nand s) 0)
     \<and> flists s' = flists s \<and> vaddrMap s' = vaddrMap s \<and> (image_ok nb (nand s) \<longrightarrow> image_ok nb (nand s'))"
proof -
  define q where "q = page_at (nand s) 0"
  have q: "page_ok q" using page_ok_page_at [OF ok(1)] ok(2) by (simp add: q_def)
  obtain v1 where v1: "readNAND (stack_page u) 0 (nand s) = (1048, q, v1)" "nand_ok nb v1"
    "file_bytes v1 = file_bytes (nand s)"
    using readNAND_page [OF ok(1) _ page_ok_stack_page, of 0 u] ok(2) by (auto simp: q_def)
  have pg1: "page_at v1 = page_at (nand s)" using v1(3) by (intro page_at_cong abs_nand_cong)
  let ?sb = "sb\<lparr>freeLists := flists s\<rparr>"
  let ?p0 = "q\<lparr>contents := patch 0 (enc_super ?sb) (contents q)\<rparr>"
  have es: "length (enc_super ?sb) = 40" by (simp add: enc_super_def freeList_ints_def)
  have lq: "length (contents q) = 1024" using q by (simp add: page_ok_def)
  have p0: "page_ok ?p0" using q es lq by (intro page_ok_contents) (simp_all add: length_patch)
  obtain v2 where v2: "writeNAND u ?p0 0 True v1 = Some (16776, v2)" "nand_ok nb v2"
    "\<forall>j. page_at v2 j = (if j = 0 then ?p0 else page_at v1 j)"
    using writeNAND_random [OF v1(2) _ p0, of 0 u] ok(2) by auto
  let ?pk = "?p0\<lparr>contents := patch 0 (enc_map (vaddrMap s)) (contents ?p0)\<rparr>"
  have em: "length (enc_map (vaddrMap s)) = 8 + 4 * n" using vaddr.length_enc [OF m(1)] .
  then have dk: "dec_page (patch 0 (enc_map (vaddrMap s)) (enc_page ?p0)) = ?pk"
    using page_patch_contents [OF p0] m(3) by simp
  have l0: "length (contents ?p0) = 1024" using p0 by (simp add: page_ok_def)
  have pk: "page_ok ?pk" using l0 em m(3) by (intro page_ok_contents [OF p0]) (simp add: length_patch)
  obtain v3 where v3: "writeNAND u ?pk (int k) True v2 = Some (16776, v3)" "nand_ok nb v3"
    "\<forall>j. page_at v3 j = (if j = k then ?pk else page_at v2 j)"
    using writeNAND_random [OF v2(2) sb(4) pk, of u] by auto
  have sq: "dec_super (contents q) = sb" by (simp add: sb(1) q_def)
  have "nat (8 + 4 * int n) = 8 + 4 * n" by simp
  then have "xmp_destroy u s = Some (s\<lparr>nand := v3\<rparr>)"
    using v1(1) v2(1) v3(1) em m(2,3) sb(2) dk by (simp add: xmp_destroy_def sq Let_def)
  moreover have "image_ok nb v3" if "image_ok nb (nand s)"
    using image_ok_write [OF image_ok_write [OF image_ok_read [OF that v1(2,3)] _ p0] sb(4) pk v3(1), of 0 u True 16776] v2(1) ok(2) by simp
  moreover have "page_at v3 j = (if j = 0 then ?p0 else if j = k then ?pk else page_at (nand s) j)" for j
    using v3(3) v2(3) pg1 sb(3) by auto
  ultimately show ?thesis using v3(2) q_def
    by (intro exI [of _ "s\<lparr>nand := v3\<rparr>"] exI [of _ ?p0] exI [of _ ?pk]) simp
qed

section \<open>What mounting and unmounting guarantee\<close>

text \<open>A state of the mounted file system before \<open>initCYCstate\<close> has run.\<close>

definition cyc0 :: "vnand \<Rightarrow> CYCstate" where
  "cyc0 v = \<lparr>nFeatures = features v, vaddrMap = \<lparr>map_size = 0, freePtr = 0, vmap = []\<rparr>,
     openFileTable = [], flists = freeLists zero_super, alogs = (\<lambda>_. None), ofiles = (\<lambda>_. None),
     finfos = (\<lambda>_. None), brk = 1, nand = v\<rparr>"

lemma mount_reads:
  assumes "formatted nb v" "3 \<le> nb" "vfd v = Some f"
  shows "\<exists>s. xmp_init u tbl (Some (f\<lparr>fpos := 0\<rparr>)) (cyc0 v0) = Some s
     \<and> vaddrMap s = formatted_map \<and> flists s = freeLists (format_super nb) \<and> nFeatures s = features v
     \<and> openFileTable s = clear_table tbl \<and> brk s = 1 \<and> finfos s = (\<lambda>_. None)
     \<and> nand_ok nb (nand s) \<and> abs_nand (nand s) = abs_nand v"
proof -
  have img: "image_ok nb v" using assms(1) by (simp add: formatted_def)
  define v' where "v' = v\<lparr>vfd := Some (f\<lparr>fpos := 8\<rparr>)\<rparr>"
  note r = reattach [OF img assms(3), folded v'_def]
  let ?s = "(cyc0 v0)\<lparr>nFeatures := features v, nand := v'\<rparr>"
  have ok: "nand_ok nb v'" using r(2) by simp
  have pg: "page_at v' = page_at v" by (rule page_at_cong [OF r(3)])
  have sp: "dec_super (contents (page_at v' 0)) = format_super nb"
    and mp: "dec_map 254 (contents (page_at v' 16)) = formatted_map"
    using assms(1) by (simp_all add: formatted_def pg)
  have n: "map_size (dec_map 0 (contents (page_at v' 16))) = int 254"
    using arg_cong [OF mp, of map_size] by (simp add: map_size_dec_map formatted_map_def)
  have "latest_vaddr_map (format_super nb) = int 16" by (simp add: format_super_def)
  with initCYCstate_reads [of nb ?s 16 254 u tbl] ok sp n mp assms(2) obtain s where
    s: "initCYCstate u tbl ?s = Some s" "vaddrMap s = formatted_map" "flists s = freeLists (format_super nb)"
    "nFeatures s = features v" "nand_ok nb (nand s)" "file_bytes (nand s) = file_bytes v'"
    "openFileTable s = clear_table tbl" "brk s = 1" "finfos s = (\<lambda>_. None)" by (auto simp: cyc0_def)
  have "abs_nand (nand s) = abs_nand v" using abs_nand_cong [OF s(6)] r(3) by simp
  with s r(1) [of "nand (cyc0 v0)"] show ?thesis by (simp add: xmp_init_def)
qed

text \<open>
  C6. Mounting a formatted device: the in-memory map has all 253 usable slots on its free
  chain and the free lists are the ones \<open>makefs\<close> wrote, so that every slot and every block
  from 2 to the last can be allocated.
\<close>

theorem mount_formatted:
  assumes "formatted nb v" "3 \<le> nb" "vfd v = Some f"
  shows "\<exists>s. xmp_init u tbl (Some (f\<lparr>fpos := 0\<rparr>)) (cyc0 v0) = Some s
     \<and> map_size (vaddrMap s) = 254 \<and> length (vmap (vaddrMap s)) = 254
     \<and> slot_chain (vmap (vaddrMap s)) (freePtr (vaddrMap s)) [1..<254]
     \<and> flists s = freeLists (format_super nb) \<and> numBlocks (nFeatures s) = int nb
     \<and> nand_ok nb (nand s) \<and> partial_chain nb (nand s) (partialHead (flists s)) (map ((*) 16) [2..<nb])"
proof -
  obtain s where s: "xmp_init u tbl (Some (f\<lparr>fpos := 0\<rparr>)) (cyc0 v0) = Some s" "vaddrMap s = formatted_map"
    "flists s = freeLists (format_super nb)" "nFeatures s = features v" "nand_ok nb (nand s)" "abs_nand (nand s) = abs_nand v"
    using mount_reads [OF assms, of u tbl v0] by blast
  have ch: "partial_chain nb v 32 (map ((*) 16) [2..<nb])" using assms(1) by (simp add: formatted_def)
  then have "partial_chain nb (nand s) (partialHead (flists s)) (map ((*) 16) [2..<nb])"
    using partial_chain_cong [OF page_at_cong [OF s(6)]] by (simp add: s(3) format_super_def)
  moreover have "features v = \<lparr>numBlocks = int nb, memSize = int (8 + nb * 16776)\<rparr>"
    using assms(1) by (simp add: formatted_def image_ok_def nand_ok_def)
  moreover have "length (vmap formatted_map) = 254" "map_size formatted_map = 254"
    by (simp_all add: formatted_map_def del: upt_rec_numeral)
  ultimately show ?thesis
    using s slot_chain_formatted by (simp del: partial_chain.simps slot_chain.simps)
qed

lemma formatted3: "\<exists>v f. formatted 3 v \<and> vfd v = Some f"
proof -
  obtain opened where o: "initNAND opened vnand0 = (features nand3, nand3)" using init_nand3 by blast
  have "nextLogBlock (page_at nand3 (16 * (3 - 1))) = 0" by (simp add: zero_page_def)
  from makefs_formats [OF o image_ok_nand3 refl _ next_free_nand3 this] obtain w where "formatted 3 w" by auto
  moreover from this have "image_ok 3 w" by (simp add: formatted_def)
  ultimately show ?thesis using image_ok_file by blast
qed

theorem mount_formatted_witness:
  "\<exists>f s. xmp_init (\<lambda>_. 7) [] (Some f) (cyc0 vnand0) = Some s \<and> map_size (vaddrMap s) = 254
     \<and> partial_chain 3 (nand s) (partialHead (flists s)) (map ((*) 16) [2..<3])"
proof -
  obtain v f where "formatted 3 v" "vfd v = Some f" using formatted3 by blast
  from mount_formatted [OF this(1) _ this(2), of "\<lambda>_. 7" "[]" vnand0] show ?thesis by blast
qed

text \<open>
  C5. Unmounting, and mounting again by opening the backing file, gives back the features of
  the device, the free lists and the map of virtual addresses, and changes no page but the
  super page and the page of the map.
\<close>

theorem unmount_mount:
  assumes "image_ok nb (nand s)" "0 < nb"
    "latest_vaddr_map (dec_super (contents (page_at (nand s) 0))) = int k" "0 < k" "k < 16 * nb"
    "map_ok n (vaddrMap s)" "map_size (vaddrMap s) = int n" "n \<le> 254" "freeList_ok (flists s)"
  shows "\<exists>s1 f s2. xmp_destroy u s = Some s1 \<and> vfd (nand s1) = Some f
     \<and> xmp_init u' tbl (Some (f\<lparr>fpos := 0\<rparr>)) (cyc0 v0) = Some s2
     \<and> vaddrMap s2 = vaddrMap s \<and> flists s2 = flists s \<and> nFeatures s2 = features (nand s)
     \<and> (\<forall>j. j \<noteq> 0 \<longrightarrow> j \<noteq> k \<longrightarrow> page_at (nand s2) j = page_at (nand s) j)"
proof -
  let ?sb = "dec_super (contents (page_at (nand s) 0))"
  have ok: "nand_ok nb (nand s)" using assms(1) by simp
  from xmp_destroy_writes [OF ok assms(2) refl assms(3-8), of u] assms(1) obtain s1 p0 pk where
    s1: "xmp_destroy u s = Some s1" "image_ok nb (nand s1)"
    "\<forall>j. page_at (nand s1) j = (if j = 0 then p0 else if j = k then pk else page_at (nand s) j)"
    "contents p0 = patch 0 (enc_super (?sb\<lparr>freeLists := flists s\<rparr>)) (contents (page_at (nand s) 0))"
    "contents pk = patch 0 (enc_map (vaddrMap s)) (contents p0)" by blast
  obtain f where f: "vfd (nand s1) = Some f" using image_ok_file [OF s1(2)] by blast
  define v where "v = (nand s1)\<lparr>vfd := Some (f\<lparr>fpos := 8\<rparr>)\<rparr>"
  note re = reattach [OF s1(2) f, folded v_def]
  have vp: "page_at v = page_at (nand s1)" by (rule page_at_cong [OF re(3)])
  have "super_ok (?sb\<lparr>freeLists := flists s\<rparr>)" using super_ok_dec [of "contents (page_at (nand s) 0)"] assms(9)
    by (simp add: super_ok_def)
  then have d0: "dec_super (contents p0) = ?sb\<lparr>freeLists := flists s\<rparr>"
    unfolding s1(4) patch_def using super.dec_enc_app by simp
  have dk: "dec_map n (contents pk) = vaddrMap s"
    unfolding s1(5) patch_def using vaddr.dec_enc_app [OF assms(6)] by simp
  have pg: "page_at v 0 = p0" "page_at v k = pk" using s1(3) assms(4) vp by simp_all
  have n: "map_size (dec_map 0 (contents pk)) = int n"
    using arg_cong [OF dk, of map_size] assms(7) by (simp add: map_size_dec_map)
  let ?s = "(cyc0 v0)\<lparr>nFeatures := features (nand s1), nand := v\<rparr>"
  obtain s2 where s2: "initCYCstate u' tbl ?s = Some s2" "vaddrMap s2 = vaddrMap s"
    "flists s2 = flists s" "nFeatures s2 = features (nand s1)" "file_bytes (nand s2) = file_bytes v"
    using initCYCstate_reads [of nb ?s k n u' tbl] re(2) assms(2,3,5,8) n by (auto simp: pg d0 dk)
  have "xmp_init u' tbl (Some (f\<lparr>fpos := 0\<rparr>)) (cyc0 v0) = Some s2"
    using s2(1) re(1) [of "nand (cyc0 v0)"] by (simp add: xmp_init_def)
  moreover have "page_at (nand s2) = page_at v" using s2(5) by (intro page_at_cong abs_nand_cong)
  then have "\<forall>j. j \<noteq> 0 \<longrightarrow> j \<noteq> k \<longrightarrow> page_at (nand s2) j = page_at (nand s) j" using s1(3) vp by simp
  moreover have "features (nand s1) = features (nand s)" using nand_ok_same_features [OF ok] s1(2) by simp
  ultimately show ?thesis using s1(1) f s2(2-4) by (intro exI conjI) simp_all
qed

lemma formatted_super: "formatted nb v \<Longrightarrow> latest_vaddr_map (dec_super (contents (page_at v 0))) = int 16"
  by (simp add: formatted_def format_super_def)

theorem unmount_mount_witness:
  "\<exists>v s1 f s2. formatted 3 v \<and> xmp_destroy (\<lambda>_. 7) ((cyc0 v)\<lparr>vaddrMap := formatted_map, flists := fl32\<rparr>) = Some s1
     \<and> vfd (nand s1) = Some f \<and> xmp_init (\<lambda>_. 7) [] (Some (f\<lparr>fpos := 0\<rparr>)) (cyc0 vnand0) = Some s2
     \<and> vaddrMap s2 = formatted_map \<and> flists s2 = fl32"
proof -
  obtain v where v: "formatted 3 v" using formatted3 by blast
  then have "image_ok 3 v" by (simp add: formatted_def)
  moreover have "freeList_ok fl32" by (simp add: freeList_ok_def freeList_ints_def fl32_def is_int32_def)
  moreover have "map_size formatted_map = 254" by (simp add: formatted_map_def)
  ultimately show ?thesis
    using unmount_mount [of 3 "(cyc0 v)\<lparr>vaddrMap := formatted_map, flists := fl32\<rparr>" 16 254 "\<lambda>_. 7" "\<lambda>_. 7" "[]" vnand0]
      v formatted_super [OF v] map_ok_formatted
    by (auto simp: cyc0_def)
qed

text \<open>
  Mounting clears only the first 31 entries of the table of open files (and part of the
  next): \<open>memset\<close> is given a number of entries as its number of bytes. From entry 32 on the
  table holds whatever the memory held, so those files appear to be open.
\<close>

theorem initCYCstate_open_files:
  assumes "initCYCstate u tbl s = Some s'" "length tbl = 254"
  shows "length (openFileTable s') = 254 \<and> (\<forall>i < 31. openFileTable s' ! i = 0)
     \<and> (\<forall>i. 32 \<le> i \<and> i < 254 \<longrightarrow> openFileTable s' ! i = tbl ! i)"
proof -
  have "openFileTable s' = clear_table tbl"
    using assms(1) by (auto simp: initCYCstate_def Let_def split_beta split: if_splits)
  with assms(2) show ?thesis
    by (auto simp: clear_table_def nth_append)
qed

theorem initCYCstate_open_files_witness:
  "\<exists>v s'. initCYCstate (\<lambda>_. 7) (replicate 254 5) (cyc0 v) = Some s' \<and> openFileTable s' ! 0 = 0
     \<and> openFileTable s' ! 100 = 5"
proof -
  obtain v where v: "formatted 3 v" using formatted3 by blast
  have m: "dec_map 254 (contents (page_at v 16)) = formatted_map" and ok: "nand_ok 3 v"
    using v by (simp_all add: formatted_def)
  have n: "map_size (dec_map 0 (contents (page_at v 16))) = int 254"
    using arg_cong [OF m, of map_size] by (simp add: map_size_dec_map formatted_map_def)
  obtain s' where s': "initCYCstate (\<lambda>_. 7) (replicate 254 5) (cyc0 v) = Some s'"
    using initCYCstate_reads [of 3 "cyc0 v" 16 254 "\<lambda>_. 7" "replicate 254 5"] ok n formatted_super [OF v]
    by (auto simp: cyc0_def)
  from initCYCstate_open_files [OF s'] have "openFileTable s' ! 0 = 0" "openFileTable s' ! 100 = 5"
    by simp_all
  with s' show ?thesis by blast
qed

text \<open>
  Unmounting writes the map through the buffer that still holds the super page's
  metadata: the page of the map gets the page type of the super page.
\<close>

theorem xmp_destroy_map_page_type:
  assumes "nand_ok nb (nand s)" "0 < nb"
    "latest_vaddr_map (dec_super (contents (page_at (nand s) 0))) = int k" "0 < k" "k < 16 * nb"
    "map_ok n (vaddrMap s)" "map_size (vaddrMap s) = int n" "n \<le> 254"
    "pageType (page_at (nand s) 0) = PTYPE_SUPER"
  shows "\<exists>s'. xmp_destroy u s = Some s' \<and> pageType (page_at (nand s') k) = PTYPE_SUPER"
  using xmp_destroy_writes [OF assms(1,2) refl assms(3-8), of u] assms(4,9) by auto

theorem xmp_destroy_map_page_type_witness:
  "\<exists>v s'. xmp_destroy (\<lambda>_. 7) ((cyc0 v)\<lparr>vaddrMap := formatted_map\<rparr>) = Some s'
     \<and> pageType (page_at (nand s') 16) = PTYPE_SUPER"
proof -
  define v where "v = append_page (\<lambda>_. 7) (format_page 3 0) 0 nand3"
  have p: "page_ok (format_page 3 0)" by (rule page_ok_format) simp_all
  have "next_free nand3 0" using next_free_nand3 [of 0] by simp
  then have v: "nand_ok 3 v" "page_at v 0 = format_page 3 0"
    using seq.inv_put [of 3 nand3 0] seq.get_put [of 3 nand3 0 _ _ 0] p by (simp_all add: v_def)
  have "dec_super (contents (format_page 3 0)) = format_super 3"
    using super.dec_enc_app [OF super_ok_format, of 3] by (simp add: format_page_def patch_def)
  moreover have "map_size formatted_map = 254" by (simp add: formatted_map_def)
  ultimately show ?thesis
    using xmp_destroy_map_page_type [of 3 "(cyc0 v)\<lparr>vaddrMap := formatted_map\<rparr>" 16 254 "\<lambda>_. 7"] v map_ok_formatted
    by (auto simp: cyc0_def format_super_def format_page_def)
qed

end
