(* ===== verification/Host.thy ===== *)
theory Host
  imports Disk_Formats
begin

text \<open>
  The host system calls that the handlers of \<open>example/passthroughBlocked_fh.c\<close> make, and
  how the path of a request becomes a host path (\<open>makePath\<close>).

  A host is any function from a call and a world to a result and a new world; the handlers
  take it as an argument. What they rely on is the locale \<open>stub_host\<close>: small files can be
  created, read, removed and asked for their number of links. \<open>posix\<close> is an instance, one
  flat name space of files, directories and special files, in which a path is a name: the
  kernel resolves \<open>.\<close> and \<open>..\<close> before it sends a request. It has no links, hard or symbolic,
  and no renaming, as file systems may: those calls are refused with \<open>EPERM\<close>, and extended
  attributes with \<open>EOPNOTSUPP\<close>.
\<close>

unbundle bit_operations_syntax

section \<open>Calls and results\<close>

datatype syscall =
    Lstat string
  | Stat string
  | Access string int
  | Readlink string int
  | Opendir string
  | Mkfifo string int
  | Mknod string int int
  | Mkdir string int
  | Unlink string
  | Rmdir string
  | Symlink string string
  | Rename string string
  | Link string string
  | Chmod string int
  | Lchown string int int
  | Truncate string int
  | Utimensat string
  | Open string int int
  | Read int nat
  | Write int bytes
  | Close int
  | Lsetxattr string string bytes int
  | Lgetxattr string string nat
  | Llistxattr string nat
  | Lremovexattr string string

record hstat =
  st_ino :: int
  st_mode :: "32 word"
  st_nlink :: int
  st_uid :: "32 word"
  st_gid :: "32 word"
  st_rdev :: int
  st_size :: int
  st_blksize :: int
  st_blocks :: int
  st_atim :: "64 word \<times> 64 word"
  st_mtim :: "64 word \<times> 64 word"
  st_ctim :: "64 word \<times> 64 word"

text \<open>The value returned, \<open>errno\<close> after the call, the bytes stored through a buffer argument,
  and the \<open>struct stat\<close> stored.\<close>

record sysres =
  ret :: int
  errno :: int
  outb :: bytes
  ostat :: hstat

type_synonym 'w host = "syscall \<Rightarrow> 'w \<Rightarrow> sysres \<times> 'w"

section \<open>Paths\<close>

definition ROOT_PATH :: string where
  "ROOT_PATH = ''/home/parallels/cycology/fuse-3.0.2/example/rootdir/root''"

text \<open>
  \<open>makePath\<close> on a C string buffer: \<open>malloc\<close> gives \<open>newLen\<close> bytes, \<open>strcpy\<close> and \<open>strcat\<close> copy
  their source and its terminating zero; \<open>None\<close> is a write past the end of the buffer.
\<close>

type_synonym cbuf = "char option list"

definition strcpy_at :: "nat \<Rightarrow> string \<Rightarrow> cbuf \<Rightarrow> cbuf option" where
  "strcpy_at off src buf =
     (if off + length src + 1 \<le> length buf
      then Some (patch off (map Some src @ [Some CHR 0x00]) buf) else None)"

fun cstring :: "cbuf \<Rightarrow> string" where
  "cstring [] = []"
| "cstring (None # cs) = []"
| "cstring (Some c # cs) = (if c = CHR 0x00 then [] else c # cstring cs)"

definition makePath :: "string \<Rightarrow> cbuf option" where
  "makePath path =
     (let newLen = length path + length ROOT_PATH + 1
      in case strcpy_at 0 ROOT_PATH (replicate newLen None) of
           None \<Rightarrow> None
         | Some buf \<Rightarrow> strcpy_at (length (cstring buf)) path buf)"

text \<open>A C string has no zero byte inside.\<close>

definition is_cstring :: "string \<Rightarrow> bool" where
  "is_cstring s \<longleftrightarrow> list_all (\<lambda>c. c \<noteq> CHR 0x00) s"

lemma cstring_app: "is_cstring s \<Longrightarrow> cstring (map Some s @ Some CHR 0x00 # rest) = s"
  by (induction s) (auto simp: is_cstring_def)

lemma is_cstring_ROOT: "is_cstring ROOT_PATH"
  by (simp add: is_cstring_def ROOT_PATH_def)

lemma makePath_buffer:
  "makePath path = Some (map Some (ROOT_PATH @ path) @ [Some CHR 0x00])"
proof -
  let ?n = "length path + length ROOT_PATH + 1"
  let ?b = "map Some ROOT_PATH @ Some CHR 0x00 # replicate (length path) None"
  have "strcpy_at 0 ROOT_PATH (replicate ?n None) = Some ?b"
    by (simp add: strcpy_at_def patch_def)
  moreover have "cstring ?b = ROOT_PATH" by (rule cstring_app [OF is_cstring_ROOT])
  moreover have "strcpy_at (length ROOT_PATH) path ?b = Some (map Some (ROOT_PATH @ path) @ [Some CHR 0x00])"
    by (simp add: strcpy_at_def patch_def)
  ultimately show ?thesis by (simp add: makePath_def)
qed

text \<open>The path a system call sees.\<close>

definition full_path :: "string \<Rightarrow> string" where
  "full_path path = cstring (the (makePath path))"

lemma full_path_eq: "is_cstring path \<Longrightarrow> full_path path = ROOT_PATH @ path"
  using cstring_app [of "ROOT_PATH @ path" "[]"] is_cstring_ROOT
  by (simp add: full_path_def makePath_buffer is_cstring_def)

lemma cstring_app_any: "\<exists>t. cstring (map Some (s @ path) @ [Some CHR 0x00]) = s @ t" if "is_cstring s"
  using that by (induction s) (auto simp: is_cstring_def)

section \<open>A name space\<close>

datatype hnode =
    HFile bytes
  | HDir
  | HSpecial int int

text \<open>Names refer to nodes, which outlive them while they are open; descriptors are a node and a position.\<close>

record hostfs =
  names :: "(string \<times> nat) list"
  nodes :: "nat \<Rightarrow> hnode"
  hfresh :: nat
  fds :: "int \<Rightarrow> (nat \<times> nat) option"
  fd_fresh :: int

definition EPERM :: int where "EPERM = 1"
definition ENOENT :: int where "ENOENT = 2"
definition EBADF :: int where "EBADF = 9"
definition EEXIST :: int where "EEXIST = 17"
definition ENOTDIR :: int where "ENOTDIR = 20"
definition EISDIR :: int where "EISDIR = 21"
definition EINVAL :: int where "EINVAL = 22"
definition ENOTEMPTY :: int where "ENOTEMPTY = 39"
definition EOPNOTSUPP :: int where "EOPNOTSUPP = 95"

definition O_WRONLY :: int where "O_WRONLY = 1"
definition O_RDWR :: int where "O_RDWR = 2"
definition O_CREAT :: int where "O_CREAT = 64"

definition stat0 :: hstat where
  "stat0 = \<lparr>st_ino = 0, st_mode = 0, st_nlink = 0, st_uid = 0, st_gid = 0, st_rdev = 0, st_size = 0,
     st_blksize = 0, st_blocks = 0, st_atim = (0, 0), st_mtim = (0, 0), st_ctim = (0, 0)\<rparr>"

definition ok_res :: "int \<Rightarrow> sysres" where
  "ok_res n = \<lparr>ret = n, errno = 0, outb = [], ostat = stat0\<rparr>"

definition err_res :: "int \<Rightarrow> sysres" where
  "err_res e = \<lparr>ret = -1, errno = e, outb = [], ostat = stat0\<rparr>"

definition remove_name :: "string \<Rightarrow> hostfs \<Rightarrow> hostfs" where
  "remove_name p w = w\<lparr>names := filter (\<lambda>(q, i). q \<noteq> p) (names w)\<rparr>"

definition add_node :: "string \<Rightarrow> hnode \<Rightarrow> hostfs \<Rightarrow> hostfs" where
  "add_node p n w = w\<lparr>names := (p, hfresh w) # names w, nodes := (nodes w)(hfresh w := n), hfresh := hfresh w + 1\<rparr>"

definition stat_of :: "hostfs \<Rightarrow> nat \<Rightarrow> hstat" where
  "stat_of w i = stat0\<lparr>st_ino := int i, st_nlink := int (length (filter (\<lambda>(q, j). j = i) (names w))),
     st_size := (case nodes w i of HFile bs \<Rightarrow> int (length bs) | _ \<Rightarrow> 0)\<rparr>"

definition open_node :: "nat \<Rightarrow> hostfs \<Rightarrow> sysres \<times> hostfs" where
  "open_node i w = (ok_res (fd_fresh w), w\<lparr>fds := (fds w)(fd_fresh w := Some (i, 0)), fd_fresh := fd_fresh w + 1\<rparr>)"

definition make_node :: "string \<Rightarrow> hnode \<Rightarrow> hostfs \<Rightarrow> sysres \<times> hostfs" where
  "make_node p n w = (case map_of (names w) p of
       Some i \<Rightarrow> (err_res EEXIST, w)
     | None \<Rightarrow> (ok_res 0, add_node p n w))"

definition on_name :: "string \<Rightarrow> hostfs \<Rightarrow> (nat \<Rightarrow> sysres \<times> hostfs) \<Rightarrow> sysres \<times> hostfs" where
  "on_name p w k = (case map_of (names w) p of None \<Rightarrow> (err_res ENOENT, w) | Some i \<Rightarrow> k i)"

fun posix :: "hostfs host" where
  "posix (Lstat p) w = on_name p w (\<lambda>i. ((ok_res 0)\<lparr>ostat := stat_of w i\<rparr>, w))"
| "posix (Stat p) w = on_name p w (\<lambda>i. ((ok_res 0)\<lparr>ostat := stat_of w i\<rparr>, w))"
| "posix (Access p amode) w = on_name p w (\<lambda>i. (ok_res 0, w))"
| "posix (Readlink p n) w = on_name p w (\<lambda>i. (err_res EINVAL, w))"
| "posix (Opendir p) w = on_name p w (\<lambda>i. if nodes w i = HDir then (ok_res 0, w) else (err_res ENOTDIR, w))"
| "posix (Mkfifo p mode) w = make_node p (HSpecial mode 0) w"
| "posix (Mknod p mode rdev) w = make_node p (HSpecial mode rdev) w"
| "posix (Mkdir p mode) w = make_node p HDir w"
| "posix (Unlink p) w = on_name p w (\<lambda>i. if nodes w i = HDir then (err_res EISDIR, w) else (ok_res 0, remove_name p w))"
| "posix (Rmdir p) w = on_name p w (\<lambda>i. if nodes w i \<noteq> HDir then (err_res ENOTDIR, w)
     else if list_ex (\<lambda>(q, j). take (length p + 1) q = p @ ''/'') (names w) then (err_res ENOTEMPTY, w)
     else (ok_res 0, remove_name p w))"
| "posix (Symlink t p) w = (err_res EPERM, w)"
| "posix (Rename p q) w = (err_res EPERM, w)"
| "posix (Link p q) w = (err_res EPERM, w)"
| "posix (Chmod p mode) w = on_name p w (\<lambda>i. (ok_res 0, w))"
| "posix (Lchown p uid gid) w = on_name p w (\<lambda>i. (ok_res 0, w))"
| "posix (Truncate p n) w = on_name p w (\<lambda>i. case nodes w i of
       HFile bs \<Rightarrow> (ok_res 0, w\<lparr>nodes := (nodes w)(i := HFile (take (nat n) bs @ replicate (nat n - length bs) 0))\<rparr>)
     | _ \<Rightarrow> (err_res EISDIR, w))"
| "posix (Utimensat p) w = on_name p w (\<lambda>i. (ok_res 0, w))"
| "posix (Open p flags mode) w = (case map_of (names w) p of
       Some i \<Rightarrow> (case nodes w i of HFile bs \<Rightarrow> open_node i w | _ \<Rightarrow> (err_res EISDIR, w))
     | None \<Rightarrow> if flags AND O_CREAT = 0 then (err_res ENOENT, w)
         else open_node (hfresh w) (add_node p (HFile []) w))"
| "posix (Read fd n) w = (case fds w fd of
       None \<Rightarrow> (err_res EBADF, w)
     | Some (i, pos) \<Rightarrow> (case nodes w i of
           HFile bs \<Rightarrow> let d = bslice pos n bs
             in ((ok_res (int (length d)))\<lparr>outb := d\<rparr>, w\<lparr>fds := (fds w)(fd := Some (i, pos + length d))\<rparr>)
         | _ \<Rightarrow> (err_res EBADF, w)))"
| "posix (Write fd d) w = (case fds w fd of
       None \<Rightarrow> (err_res EBADF, w)
     | Some (i, pos) \<Rightarrow> (case nodes w i of
           HFile bs \<Rightarrow> (ok_res (int (length d)),
             w\<lparr>nodes := (nodes w)(i := HFile (patch pos d (bs @ replicate (pos - length bs) 0))),
               fds := (fds w)(fd := Some (i, pos + length d))\<rparr>)
         | _ \<Rightarrow> (err_res EBADF, w)))"
| "posix (Close fd) w = (case fds w fd of
       None \<Rightarrow> (err_res EBADF, w)
     | Some x \<Rightarrow> (ok_res 0, w\<lparr>fds := (fds w)(fd := None)\<rparr>))"
| "posix (Lsetxattr p n v f) w = (err_res EOPNOTSUPP, w)"
| "posix (Lgetxattr p n z) w = (err_res EOPNOTSUPP, w)"
| "posix (Llistxattr p z) w = (err_res EOPNOTSUPP, w)"
| "posix (Lremovexattr p n) w = (err_res EOPNOTSUPP, w)"

section \<open>Small files on the host\<close>

text \<open>
  What the file system relies on when it keeps a file's number in a stub file: a new file
  can be created and written, an existing one read, unlinked and asked for its number of
  links (one), and each of these has no effect on other names.
\<close>

locale stub_host =
  fixes sys :: "'w host" and good :: "'w \<Rightarrow> bool" and content :: "'w \<Rightarrow> string \<Rightarrow> bytes option"
  assumes create: "good w \<Longrightarrow> content w p = None \<Longrightarrow>
     \<exists>r1 w1 r2 w2 r3 w3. sys (Open p (O_RDWR OR O_CREAT) mode) w = (r1, w1) \<and> ret r1 \<noteq> -1
       \<and> sys (Write (ret r1) bs) w1 = (r2, w2) \<and> sys (Close (ret r1)) w2 = (r3, w3)
       \<and> good w3 \<and> content w3 = (content w)(p \<mapsto> bs)"
    and read: "good w \<Longrightarrow> content w p = Some bs \<Longrightarrow>
     \<exists>r1 w1 r2 w2 r3 w3. sys (Open p O_RDWR 0) w = (r1, w1) \<and> ret r1 \<noteq> -1
       \<and> sys (Read (ret r1) n) w1 = (r2, w2) \<and> outb r2 = take n bs \<and> sys (Close (ret r1)) w2 = (r3, w3)
       \<and> good w3 \<and> content w3 = content w"
    and remove: "good w \<Longrightarrow> content w p = Some bs \<Longrightarrow>
     \<exists>r1 w1. sys (Unlink p) w = (r1, w1) \<and> ret r1 \<noteq> -1
       \<and> good w1 \<and> content w1 = (content w)(p := None)"
    and single: "good w \<Longrightarrow> content w p = Some bs \<Longrightarrow>
     \<exists>r. sys (Stat p) w = (r, w) \<and> ret r \<noteq> -1 \<and> st_nlink (ostat r) \<le> 1"

text \<open>In the name space above: every name is a file's, and no two names are of the same file.\<close>

definition files_only :: "hostfs \<Rightarrow> bool" where
  "files_only w \<longleftrightarrow> 0 \<le> fd_fresh w \<and> list_all (\<lambda>(p, i). i < hfresh w \<and> (\<exists>bs. nodes w i = HFile bs)) (names w)
     \<and> distinct (map fst (names w)) \<and> distinct (map snd (names w))"

definition file_content :: "hostfs \<Rightarrow> string \<Rightarrow> bytes option" where
  "file_content w p = (case map_of (names w) p of
       None \<Rightarrow> None
     | Some i \<Rightarrow> (case nodes w i of HFile bs \<Rightarrow> Some bs | _ \<Rightarrow> None))"

lemma files_only_lookup:
  assumes "files_only w" "map_of (names w) p = Some i"
  shows "i < hfresh w" "\<exists>bs. nodes w i = HFile bs" "map_of (names w) q = Some i \<Longrightarrow> q = p"
proof -
  have "(p, i) \<in> set (names w)" using assms(2) by (rule map_of_SomeD)
  with assms(1) show "i < hfresh w" "\<exists>bs. nodes w i = HFile bs"
    by (auto simp: files_only_def list_all_iff)
  assume "map_of (names w) q = Some i"
  then have "(q, i) \<in> set (names w)" by (rule map_of_SomeD)
  moreover have "inj_on snd (set (names w))" using assms(1) by (simp add: files_only_def distinct_map)
  ultimately have "(q, i) = (p, i)" using \<open>(p, i) \<in> set (names w)\<close> by (rule_tac inj_onD [of snd]) auto
  then show "q = p" by simp
qed

lemma file_content_files_only:
  assumes "files_only w" "file_content w p = None"
  shows "map_of (names w) p = None"
proof (cases "map_of (names w) p")
  case (Some i)
  then obtain bs where "nodes w i = HFile bs" using files_only_lookup(2) [OF assms(1) Some] by blast
  with Some assms(2) show ?thesis by (simp add: file_content_def)
qed simp

lemma file_content_SomeD:
  "file_content w p = Some bs \<Longrightarrow> \<exists>i. map_of (names w) p = Some i \<and> nodes w i = HFile bs"
  by (auto simp: file_content_def split: option.splits hnode.splits)

lemma file_content_cong:
  "names w' = names w \<Longrightarrow> nodes w' = nodes w \<Longrightarrow> file_content w' = file_content w"
  by (rule ext) (simp add: file_content_def split: option.split)

lemma o_creat: "(O_RDWR OR O_CREAT) AND O_CREAT \<noteq> 0"
  by (simp add: O_RDWR_def O_CREAT_def)

lemma posix_create_file:
  assumes "files_only w" "file_content w p = None"
  shows "\<exists>r1 w1 r2 w2 r3 w3. posix (Open p (O_RDWR OR O_CREAT) mode) w = (r1, w1) \<and> ret r1 \<noteq> -1
     \<and> posix (Write (ret r1) bs) w1 = (r2, w2) \<and> posix (Close (ret r1)) w2 = (r3, w3)
     \<and> files_only w3 \<and> file_content w3 = (file_content w)(p \<mapsto> bs)"
proof -
  let ?i = "hfresh w" and ?fd = "fd_fresh w"
  have n: "map_of (names w) p = None" using assms by (rule file_content_files_only)
  define w3 where "w3 = w\<lparr>names := (p, ?i) # names w, hfresh := Suc ?i, fd_fresh := ?fd + 1,
      nodes := (nodes w)(?i := HFile bs), fds := (fds w)(?fd := None)\<rparr>"
  have fd: "?fd \<noteq> -1" using assms(1) by (simp add: files_only_def)
  have old: "\<And>q j. (q, j) \<in> set (names w) \<Longrightarrow> j < ?i"
    using assms(1) by (auto simp: files_only_def list_all_iff)
  have "?i \<notin> snd ` set (names w)" "p \<notin> fst ` set (names w)"
    using old n by (auto simp: map_of_eq_None_iff) (metis less_irrefl)
  then have "files_only w3"
    using assms(1) old unfolding files_only_def w3_def by (auto simp: list_all_iff) fastforce+
  moreover have "file_content w3 q = ((file_content w)(p \<mapsto> bs)) q" for q
    using old [OF map_of_SomeD]
    by (cases "map_of (names w) q") (auto simp: file_content_def w3_def)
  moreover have "patch 0 bs [] = bs" by (simp add: patch_def)
  ultimately show ?thesis
    using n fd o_creat
    by (auto simp: open_node_def add_node_def ok_res_def w3_def fun_eq_iff)
qed

lemma posix_read_file:
  assumes "files_only w" "file_content w p = Some bs"
  shows "\<exists>r1 w1 r2 w2 r3 w3. posix (Open p O_RDWR 0) w = (r1, w1) \<and> ret r1 \<noteq> -1
     \<and> posix (Read (ret r1) n) w1 = (r2, w2) \<and> outb r2 = take n bs \<and> posix (Close (ret r1)) w2 = (r3, w3)
     \<and> files_only w3 \<and> file_content w3 = file_content w"
proof -
  let ?fd = "fd_fresh w"
  obtain i where i: "map_of (names w) p = Some i" "nodes w i = HFile bs"
    using file_content_SomeD [OF assms(2)] by blast
  define w3 where "w3 = w\<lparr>fd_fresh := ?fd + 1, fds := (fds w)(?fd := None)\<rparr>"
  have "?fd \<noteq> -1" using assms(1) by (simp add: files_only_def)
  moreover have "file_content w3 = file_content w" by (rule file_content_cong) (simp_all add: w3_def)
  moreover have "files_only w3" using assms(1) by (simp add: files_only_def w3_def)
  moreover have "bslice 0 n bs = take n bs" by (simp add: bslice_def)
  ultimately show ?thesis using i by (auto simp: open_node_def ok_res_def w3_def)
qed

lemma posix_remove_file:
  assumes "files_only w" "file_content w p = Some bs"
  shows "\<exists>r1 w1. posix (Unlink p) w = (r1, w1) \<and> ret r1 \<noteq> -1
     \<and> files_only w1 \<and> file_content w1 = (file_content w)(p := None)"
proof -
  obtain i where i: "map_of (names w) p = Some i" "nodes w i = HFile bs"
    using file_content_SomeD [OF assms(2)] by blast
  let ?w = "remove_name p w"
  have m: "map_of (filter (\<lambda>(q, i). q \<noteq> p) ns) q = (if q = p then None else map_of ns q)" for ns :: "(string \<times> nat) list" and q
    by (induction ns) auto
  have "files_only ?w"
    using assms(1) by (auto simp: files_only_def remove_name_def list_all_iff distinct_map_filter)
  moreover have "file_content ?w = (file_content w)(p := None)"
    by (rule ext) (simp add: file_content_def remove_name_def m split: option.split)
  ultimately show ?thesis using i by (simp add: on_name_def ok_res_def)
qed

lemma length_filter_snd: "distinct (map snd xs) \<Longrightarrow> length (filter (\<lambda>(q, j). j = i) xs) \<le> 1"
proof (induction xs)
  case (Cons x xs)
  then show ?case by (cases x) (force simp: filter_empty_conv image_iff)
qed simp

lemma posix_single_link:
  assumes "files_only w" "file_content w p = Some bs"
  shows "\<exists>r. posix (Stat p) w = (r, w) \<and> ret r \<noteq> -1 \<and> st_nlink (ostat r) \<le> 1"
proof -
  obtain i where "map_of (names w) p = Some i" using file_content_SomeD [OF assms(2)] by blast
  moreover have "length (filter (\<lambda>(q, j). j = i) (names w)) \<le> 1"
    using assms(1) by (intro length_filter_snd) (simp add: files_only_def)
  ultimately show ?thesis by (simp add: on_name_def stat_of_def ok_res_def)
qed

interpretation posix_stub: stub_host posix files_only file_content
  by unfold_locales (fact posix_create_file posix_read_file posix_remove_file posix_single_link)+

end
