(* ===== verification/Passthrough.thy ===== *)
theory Passthrough
  imports Host VNAND
begin

text \<open>
  The handlers of \<open>example/passthroughBlocked_fh.c\<close> that hand a request on to the host's
  name space, and the ones that are still marked unimplemented. Each takes the host as its
  first argument and returns the value given to libfuse and the new world; \<open>None\<close> is
  undefined behaviour (\<open>unimplemented\<close> dereferences a null pointer, a buffer is too short).

  The lemmas show how host errors are reported and that \<open>xmp_readdir\<close> delivers the entries of a directory in order, each
  exactly once, however the reply buffer splits the listing.
\<close>

unbundle bit_operations_syntax

section \<open>Reporting\<close>

text \<open>The ending shared by the handlers: \<open>-errno\<close> when the call failed, 0 otherwise.\<close>

definition zero_or_errno :: "sysres \<Rightarrow> int" where
  "zero_or_errno r = (if ret r = -1 then - errno r else 0)"

definition res_or_errno :: "sysres \<Rightarrow> int" where
  "res_or_errno r = (if ret r = -1 then - errno r else ret r)"

definition unimplemented :: "unit option" where
  "unimplemented = None"

section \<open>Names\<close>

definition xmp_access :: "'w host \<Rightarrow> string \<Rightarrow> int \<Rightarrow> 'w \<Rightarrow> int \<times> 'w" where
  "xmp_access sys path amode w = (let (r, w) = sys (Access (full_path path) amode) w in (zero_or_errno r, w))"

text \<open>\<open>buf\<close> has \<open>length buf\<close> bytes; \<open>siz\<close> is what libfuse passes for it.\<close>

definition xmp_readlink :: "'w host \<Rightarrow> string \<Rightarrow> bytes \<Rightarrow> nat \<Rightarrow> 'w \<Rightarrow> (int \<times> bytes \<times> 'w) option" where
  "xmp_readlink sys path buf siz w =
     (let (r, w) = sys (Readlink (full_path path) ((int siz - 1) mod 2 ^ 64)) w
      in if ret r = -1 then Some (- errno r, buf, w)
         else if length (outb r) \<le> length buf \<and> 0 \<le> ret r \<and> ret r < int (length buf)
         then Some (0, (into_buffer (outb r) buf)[nat (ret r) := 0], w)
         else None)"

definition S_ISFIFO :: "int \<Rightarrow> bool" where
  "S_ISFIFO mode \<longleftrightarrow> mode AND 0xF000 = 0x1000"

definition xmp_mknod :: "'w host \<Rightarrow> string \<Rightarrow> int \<Rightarrow> int \<Rightarrow> 'w \<Rightarrow> int \<times> 'w" where
  "xmp_mknod sys path mode rdev w =
     (let (r, w) = (if S_ISFIFO mode then sys (Mkfifo (full_path path) mode) w
                    else sys (Mknod (full_path path) mode rdev) w)
      in (zero_or_errno r, w))"

definition xmp_mkdir :: "'w host \<Rightarrow> string \<Rightarrow> int \<Rightarrow> 'w \<Rightarrow> int \<times> 'w" where
  "xmp_mkdir sys path mode w = (let (r, w) = sys (Mkdir (full_path path) mode) w in (zero_or_errno r, w))"

definition xmp_rmdir :: "'w host \<Rightarrow> string \<Rightarrow> 'w \<Rightarrow> int \<times> 'w" where
  "xmp_rmdir sys path w = (let (r, w) = sys (Rmdir (full_path path)) w in (zero_or_errno r, w))"

definition xmp_symlink :: "'w host \<Rightarrow> string \<Rightarrow> string \<Rightarrow> 'w \<Rightarrow> int \<times> 'w" where
  "xmp_symlink sys src dst w = (let (r, w) = sys (Symlink src (full_path dst)) w in (zero_or_errno r, w))"

definition xmp_rename :: "'w host \<Rightarrow> string \<Rightarrow> string \<Rightarrow> 32 word \<Rightarrow> 'w \<Rightarrow> int \<times> 'w" where
  "xmp_rename sys src dst flags w =
     (if flags \<noteq> 0 then (- EINVAL, w)
      else let (r, w) = sys (Rename (full_path src) (full_path dst)) w in (zero_or_errno r, w))"

definition xmp_link :: "'w host \<Rightarrow> string \<Rightarrow> string \<Rightarrow> 'w \<Rightarrow> int \<times> 'w" where
  "xmp_link sys src dst w =
     (let (r, w) = sys (Link (full_path src) (full_path dst)) w in (zero_or_errno r, w))"

section \<open>Handlers that are not implemented\<close>

text \<open>\<open>fi\<close> says whether libfuse passed file information.\<close>

definition xmp_chmod :: "'w host \<Rightarrow> string \<Rightarrow> int \<Rightarrow> bool \<Rightarrow> 'w \<Rightarrow> (int \<times> 'w) option" where
  "xmp_chmod sys path mode fi w = do {
     _ \<leftarrow> unimplemented;
     Some (if fi then (0, w)
           else let (r, w) = sys (Chmod (full_path path) mode) w in (zero_or_errno r, w)) }"

definition xmp_chown :: "'w host \<Rightarrow> string \<Rightarrow> int \<Rightarrow> int \<Rightarrow> bool \<Rightarrow> 'w \<Rightarrow> (int \<times> 'w) option" where
  "xmp_chown sys path uid gid fi w = do {
     _ \<leftarrow> unimplemented;
     Some (if fi then (0, w)
           else let (r, w) = sys (Lchown (full_path path) uid gid) w in (zero_or_errno r, w)) }"

definition xmp_truncate :: "'w host \<Rightarrow> string \<Rightarrow> int \<Rightarrow> bool \<Rightarrow> 'w \<Rightarrow> (int \<times> 'w) option" where
  "xmp_truncate sys path siz fi w = do {
     _ \<leftarrow> unimplemented;
     Some (if fi then (0, w)
           else let (r, w) = sys (Truncate path siz) w in (zero_or_errno r, w)) }"

definition xmp_utimens :: "'w host \<Rightarrow> string \<Rightarrow> bool \<Rightarrow> 'w \<Rightarrow> (int \<times> 'w) option" where
  "xmp_utimens sys path fi w = do {
     _ \<leftarrow> unimplemented;
     Some (if fi then (0, w)
           else let (r, w) = sys (Utimensat (full_path path)) w in (zero_or_errno r, w)) }"

definition xmp_fsync :: "bool \<Rightarrow> 'w \<Rightarrow> (int \<times> 'w) option" where
  "xmp_fsync isdatasync w = do { _ \<leftarrow> unimplemented; Some (0, w) }"

definition xmp_fallocate :: "int \<Rightarrow> 'w \<Rightarrow> (int \<times> 'w) option" where
  "xmp_fallocate mode w = do {
     _ \<leftarrow> unimplemented;
     Some (if mode \<noteq> 0 then - EOPNOTSUPP else 0, w) }"

definition xmp_flock :: "int \<Rightarrow> 'w \<Rightarrow> (int \<times> 'w) option" where
  "xmp_flock op w = do { _ \<leftarrow> unimplemented; Some (0, w) }"

definition xmp_flush :: "string \<Rightarrow> 'w \<Rightarrow> int \<times> 'w" where
  "xmp_flush path w = (let res = (0::int) in (if res = -1 then -1 else 0, w))"

section \<open>Extended attributes\<close>

definition xmp_setxattr :: "'w host \<Rightarrow> string \<Rightarrow> string \<Rightarrow> bytes \<Rightarrow> int \<Rightarrow> 'w \<Rightarrow> int \<times> 'w" where
  "xmp_setxattr sys path name val flags w =
     (let (r, w) = sys (Lsetxattr (full_path path) name val flags) w in (zero_or_errno r, w))"

definition xmp_getxattr :: "'w host \<Rightarrow> string \<Rightarrow> string \<Rightarrow> bytes \<Rightarrow> nat \<Rightarrow> 'w \<Rightarrow> int \<times> bytes \<times> 'w" where
  "xmp_getxattr sys path name val siz w =
     (let (r, w) = sys (Lgetxattr (full_path path) name siz) w
      in (res_or_errno r, into_buffer (outb r) val, w))"

definition xmp_listxattr :: "'w host \<Rightarrow> string \<Rightarrow> bytes \<Rightarrow> nat \<Rightarrow> 'w \<Rightarrow> int \<times> bytes \<times> 'w" where
  "xmp_listxattr sys path lst siz w =
     (let (r, w) = sys (Llistxattr (full_path path) siz) w
      in (res_or_errno r, into_buffer (outb r) lst, w))"

definition xmp_removexattr :: "'w host \<Rightarrow> string \<Rightarrow> string \<Rightarrow> 'w \<Rightarrow> int \<times> 'w" where
  "xmp_removexattr sys path name w =
     (let (r, w) = sys (Lremovexattr (full_path path) name) w in (zero_or_errno r, w))"

section \<open>Directories\<close>

record dirent =
  d_name :: string
  d_ino :: int
  d_type :: "32 word"

text \<open>The host's directory stream: the entries it will deliver and the position of the next.\<close>

record dirstream =
  dents :: "dirent list"
  dpos :: nat

definition readdir :: "dirstream \<Rightarrow> dirent option \<times> dirstream" where
  "readdir d = (if dpos d < length (dents d) then (Some (dents d ! dpos d), d\<lparr>dpos := dpos d + 1\<rparr>)
     else (None, d))"

definition telldir :: "dirstream \<Rightarrow> int" where
  "telldir d = int (dpos d)"

definition seekdir :: "int \<Rightarrow> dirstream \<Rightarrow> dirstream" where
  "seekdir off d = d\<lparr>dpos := nat off\<rparr>"

record xmp_dirp =
  dp :: dirstream
  dentry :: "dirent option"
  doffset :: int

text \<open>\<open>ls\<close> gives the entries that the host's stream for a path delivers.\<close>

definition xmp_opendir :: "'w host \<Rightarrow> ('w \<Rightarrow> string \<Rightarrow> dirent list) \<Rightarrow> string \<Rightarrow> 'w \<Rightarrow> int \<times> xmp_dirp option \<times> 'w" where
  "xmp_opendir sys ls path w =
     (let (r, w) = sys (Opendir (full_path path)) w
      in if ret r = -1 then (- errno r, None, w)
         else (0, Some \<lparr>dp = \<lparr>dents = ls w (full_path path), dpos = 0\<rparr>, dentry = None, doffset = 0\<rparr>, w))"

text \<open>
  \<open>fillr\<close> is libfuse's callback on the reply buffer \<open>'b\<close>; \<open>fstatat\<close> is the attribute lookup
  for an entry, \<open>None\<close> when it fails; \<open>rdplus\<close> is \<open>flags & FUSE_READDIR_PLUS\<close>.
\<close>

type_synonym 'b fill_dir = "'b \<Rightarrow> string \<Rightarrow> hstat \<Rightarrow> int \<Rightarrow> bool \<Rightarrow> int \<times> 'b"

definition entry_stat :: "(string \<Rightarrow> hstat option) \<Rightarrow> bool \<Rightarrow> dirent \<Rightarrow> hstat \<times> bool" where
  "entry_stat fstatat rdplus e =
     (case (if rdplus then fstatat (d_name e) else None) of
        Some st \<Rightarrow> (st, True)
      | None \<Rightarrow> (stat0\<lparr>st_ino := d_ino e, st_mode := push_bit 12 (d_type e)\<rparr>, False))"

definition next_entry :: "xmp_dirp \<Rightarrow> xmp_dirp" where
  "next_entry d = (case dentry d of
       Some e \<Rightarrow> d
     | None \<Rightarrow> let (e, s) = readdir (dp d) in d\<lparr>dentry := e, dp := s\<rparr>)"

text \<open>How many entries are still to come: the loop ends because each round takes one.\<close>

definition entries_left :: "xmp_dirp \<Rightarrow> nat" where
  "entries_left d = length (dents (dp d)) - dpos (dp d) + (case dentry d of None \<Rightarrow> 0 | Some e \<Rightarrow> 1)"

lemma entries_left_next:
  assumes "dentry (next_entry d) = Some e"
  shows "entries_left (next_entry d\<lparr>dentry := None, doffset := off\<rparr>) < entries_left d"
  using assms
  by (cases "dentry d"; cases "dpos (dp d) < length (dents (dp d))")
    (simp_all add: entries_left_def next_entry_def readdir_def)

function readdir_loop ::
  "'b fill_dir \<Rightarrow> (string \<Rightarrow> hstat option) \<Rightarrow> bool \<Rightarrow> xmp_dirp \<Rightarrow> 'b \<Rightarrow> xmp_dirp \<times> 'b" where
  "readdir_loop fillr fstatat rdplus d buf =
     (let d1 = next_entry d
      in case dentry d1 of
           None \<Rightarrow> (d1, buf)
         | Some e \<Rightarrow>
             let (st, fill_flags) = entry_stat fstatat rdplus e;
                 nextoff = telldir (dp d1);
                 (full, buf) = fillr buf (d_name e) st nextoff fill_flags
             in if full \<noteq> 0 then (d1, buf)
                else readdir_loop fillr fstatat rdplus (d1\<lparr>dentry := None, doffset := nextoff\<rparr>) buf)"
  by auto
termination
  by (relation "measure (\<lambda>(f, s, p, d, b). entries_left d)") (auto intro: entries_left_next)

declare readdir_loop.simps [simp del]

definition xmp_readdir ::
  "'b fill_dir \<Rightarrow> (string \<Rightarrow> hstat option) \<Rightarrow> bool \<Rightarrow> int \<Rightarrow> xmp_dirp \<Rightarrow> 'b \<Rightarrow> int \<times> xmp_dirp \<times> 'b" where
  "xmp_readdir fillr fstatat rdplus off d buf =
     (let d = (if off \<noteq> doffset d then d\<lparr>dp := seekdir off (dp d), dentry := None, doffset := off\<rparr> else d)
      in (0, readdir_loop fillr fstatat rdplus d buf))"

definition xmp_releasedir :: "xmp_dirp \<Rightarrow> int" where
  "xmp_releasedir d = 0"

section \<open>Listing a directory\<close>

text \<open>
  The specification of a listing: offer the entries to the callback one after the other,
  each with the offset behind it, until one is refused. The result is the buffer and the
  number of entries accepted.
\<close>

fun offer :: "'b fill_dir \<Rightarrow> (string \<Rightarrow> hstat option) \<Rightarrow> bool \<Rightarrow> nat \<Rightarrow> dirent list \<Rightarrow> 'b \<Rightarrow> 'b \<times> nat" where
  "offer fillr fstatat rdplus k [] buf = (buf, 0)"
| "offer fillr fstatat rdplus k (e # es) buf =
     (let (st, fl) = entry_stat fstatat rdplus e;
          (full, buf) = fillr buf (d_name e) st (int k + 1) fl
      in if full \<noteq> 0 then (buf, 0)
         else let (buf, n) = offer fillr fstatat rdplus (k + 1) es buf in (buf, n + 1))"

text \<open>
  The state of an open directory: without a pending entry the stream stands at the offset;
  a pending entry is the one at the offset, already taken from the stream.
\<close>

definition dirp_ok :: "xmp_dirp \<Rightarrow> bool" where
  "dirp_ok d \<longleftrightarrow> 0 \<le> doffset d \<and> nat (doffset d) \<le> length (dents (dp d)) \<and>
     (case dentry d of
        None \<Rightarrow> dpos (dp d) = nat (doffset d)
      | Some e \<Rightarrow> nat (doffset d) < length (dents (dp d)) \<and> dpos (dp d) = nat (doffset d) + 1
          \<and> e = dents (dp d) ! nat (doffset d))"

lemma next_entry_ok:
  assumes "dirp_ok d"
  shows "nat (doffset d) = length (dents (dp d)) \<Longrightarrow> next_entry d = d \<and> dentry d = None"
    "nat (doffset d) < length (dents (dp d)) \<Longrightarrow>
       next_entry d = d\<lparr>dentry := Some (dents (dp d) ! nat (doffset d)),
         dp := (dp d)\<lparr>dpos := nat (doffset d) + 1\<rparr>\<rparr>"
proof -
  obtain es n e off where d: "d = \<lparr>dp = \<lparr>dents = es, dpos = n\<rparr>, dentry = e, doffset = off\<rparr>"
    by (metis dirstream.cases xmp_dirp.cases)
  show "next_entry d = d \<and> dentry d = None" if "nat (doffset d) = length (dents (dp d))"
    using assms that by (cases e) (simp_all add: d dirp_ok_def next_entry_def readdir_def)
  show "next_entry d = d\<lparr>dentry := Some (dents (dp d) ! nat (doffset d)),
         dp := (dp d)\<lparr>dpos := nat (doffset d) + 1\<rparr>\<rparr>" if "nat (doffset d) < length (dents (dp d))"
    using assms that by (cases e) (simp_all add: d dirp_ok_def next_entry_def readdir_def)
qed

lemma readdir_loop_offers:
  assumes "dirp_ok d" "doffset d = int k"
  shows "\<exists>d'. readdir_loop fillr fstatat rdplus d buf =
        (d', fst (offer fillr fstatat rdplus k (drop k (dents (dp d))) buf))
     \<and> dirp_ok d' \<and> dents (dp d') = dents (dp d)
     \<and> doffset d' = int k + int (snd (offer fillr fstatat rdplus k (drop k (dents (dp d))) buf))"
  using assms
proof (induction "length (dents (dp d)) - k" arbitrary: d k buf)
  case 0
  then have "k = length (dents (dp d))" by (auto simp: dirp_ok_def)
  with 0 next_entry_ok(1) [of d] show ?case by (simp add: readdir_loop.simps [of _ _ _ d])
next
  case (Suc n)
  then have k: "k < length (dents (dp d))" by simp
  let ?e = "dents (dp d) ! k"
  let ?d1 = "d\<lparr>dentry := Some ?e, dp := (dp d)\<lparr>dpos := k + 1\<rparr>\<rparr>"
  have d1: "next_entry d = ?d1" using next_entry_ok(2) [of d] Suc.prems k by simp
  have drop: "drop k (dents (dp d)) = ?e # drop (Suc k) (dents (dp d))" using k by (simp add: Cons_nth_drop_Suc)
  obtain st fl where st: "entry_stat fstatat rdplus ?e = (st, fl)" by fastforce
  obtain full buf' where f: "fillr buf (d_name ?e) st (int k + 1) fl = (full, buf')" by fastforce
  have step: "readdir_loop fillr fstatat rdplus d buf = (if full \<noteq> 0 then (?d1, buf')
      else readdir_loop fillr fstatat rdplus (?d1\<lparr>dentry := None, doffset := int k + 1\<rparr>) buf')"
    using f by (subst readdir_loop.simps) (simp add: d1 st telldir_def Let_def add.commute [of _ "1::int"])
  show ?case
  proof (cases "full = 0")
    case False
    moreover have "dirp_ok ?d1" using Suc.prems k by (simp add: dirp_ok_def)
    ultimately show ?thesis using Suc.prems(2) by (simp add: step drop st f)
  next
    case True
    let ?d2 = "?d1\<lparr>dentry := None, doffset := int k + 1\<rparr>"
    have "dirp_ok ?d2" "doffset ?d2 = int (k + 1)" "n = length (dents (dp ?d2)) - (k + 1)"
      using Suc.hyps(2) k by (simp_all add: dirp_ok_def nat_add_distrib)
    from Suc.hyps(1) [OF this(3,1,2), of buf'] True show ?thesis
      by (auto simp: step drop st f split_beta)
  qed
qed

lemma xmp_readdir_spec:
  assumes "dirp_ok d" "k \<le> length (dents (dp d))"
  shows "\<exists>d'. xmp_readdir fillr fstatat rdplus (int k) d buf =
        (0, d', fst (offer fillr fstatat rdplus k (drop k (dents (dp d))) buf))
     \<and> dirp_ok d' \<and> dents (dp d') = dents (dp d)
     \<and> doffset d' = int k + int (snd (offer fillr fstatat rdplus k (drop k (dents (dp d))) buf))"
proof (cases "doffset d = int k")
  case True
  with readdir_loop_offers [OF assms(1) True, of fillr fstatat rdplus buf] show ?thesis
    by (auto simp: xmp_readdir_def)
next
  case False
  let ?d = "d\<lparr>dp := seekdir (int k) (dp d), dentry := None, doffset := int k\<rparr>"
  have "dirp_ok ?d" "doffset ?d = int k" using assms(2) by (simp_all add: dirp_ok_def seekdir_def)
  from readdir_loop_offers [OF this, of fillr fstatat rdplus buf] False show ?thesis
    by (auto simp: xmp_readdir_def seekdir_def)
qed

text \<open>A reply buffer with room for a number of entries, and what it has taken.\<close>

definition room_fill :: "((string \<times> int) list \<times> nat) fill_dir" where
  "room_fill buf name st off fl =
     (if snd buf = 0 then (1, buf) else (0, (fst buf @ [(name, off)], snd buf - 1)))"

text \<open>Successive reads of an open directory, each from where the one before ended.\<close>

fun listing :: "nat list \<Rightarrow> xmp_dirp \<Rightarrow> (string \<times> int) list" where
  "listing [] d = []"
| "listing (r # rs) d =
     (let (res, d', buf) = xmp_readdir room_fill (\<lambda>_. None) False (doffset d) d ([], r)
      in fst buf @ listing rs d')"

definition dir_items :: "nat \<Rightarrow> dirent list \<Rightarrow> (string \<times> int) list" where
  "dir_items k es = map (\<lambda>i. (d_name (es ! i), int (k + i) + 1)) [0..<length es]"

lemma dir_items_Cons: "dir_items k (e # es) = (d_name e, int k + 1) # dir_items (k + 1) es"
proof -
  have "[0..<length (e # es)] = 0 # map Suc [0..<length es]" by (simp add: upt_conv_Cons map_Suc_upt del: upt_Suc)
  then show ?thesis by (simp add: dir_items_def o_def)
qed

lemma offer_room_fill:
  "offer room_fill fstatat rdplus k es (acc, r) =
     ((acc @ take r (dir_items k es), r - length es), min r (length es))"
proof (induction es arbitrary: k acc r)
  case Nil
  then show ?case by (simp add: dir_items_def)
next
  case (Cons e es)
  then show ?case by (cases r) (auto simp: dir_items_Cons room_fill_def split_beta)
qed

lemma listing_take:
  assumes "dirp_ok d" "doffset d = int k"
  shows "listing rooms d = take (sum_list rooms) (dir_items k (drop k (dents (dp d))))"
  using assms
proof (induction rooms arbitrary: d k)
  case Nil
  then show ?case by simp
next
  case (Cons r rs)
  let ?es = "drop k (dents (dp d))" and ?n = "min r (length (dents (dp d)) - k)"
  have "k \<le> length (dents (dp d))" using Cons.prems by (auto simp: dirp_ok_def)
  from xmp_readdir_spec [OF Cons.prems(1) this, of room_fill "\<lambda>_. None" False "([], r)"]
  obtain d' where d': "xmp_readdir room_fill (\<lambda>_. None) False (int k) d ([], r) =
        (0, d', take r (dir_items k ?es), r - length ?es)"
    "dirp_ok d'" "dents (dp d') = dents (dp d)" "doffset d' = int (k + ?n)"
    by (auto simp: offer_room_fill)
  have "drop ?n (dir_items k ?es) = dir_items (k + ?n) (drop (k + ?n) (dents (dp d)))"
    by (rule nth_equalityI) (auto simp: dir_items_def ac_simps)
  moreover have "take (r + m) xs = take r xs @ take m (drop (min r (length xs)) xs)" for m and xs :: "(string \<times> int) list"
    by (cases "r \<le> length xs") (simp_all add: take_add)
  moreover have "length (dir_items k ?es) = length (dents (dp d)) - k" by (simp add: dir_items_def)
  ultimately show ?case
    using Cons.IH [OF d'(2,4)] Cons.prems(2) by (simp add: d'(1,3))
qed

section \<open>What the handlers guarantee\<close>

definition host0 :: hostfs where
  "host0 = \<lparr>names = [(''/etc'', 0)], nodes = (\<lambda>_. HDir), hfresh = 1, fds = (\<lambda>_. None), fd_fresh = 3\<rparr>"

lemma full_path_not_etc: "full_path p \<noteq> ''/etc''"
proof -
  obtain t where "full_path p = ROOT_PATH @ t"
    using cstring_app_any [OF is_cstring_ROOT, of p] by (auto simp: full_path_def makePath_buffer)
  then show ?thesis by (simp add: ROOT_PATH_def)
qed

text \<open>
  Reading a directory from offset \<open>k\<close> offers its entries from the \<open>k\<close>-th on to the
  callback, in order, until one is refused, whether or not the stream stood there before;
  the directory is left at the first entry that was not accepted.
\<close>

theorem xmp_readdir_offers:
  assumes "dirp_ok d" "k \<le> length (dents (dp d))"
  shows "\<exists>d'. xmp_readdir fillr fstatat rdplus (int k) d buf =
        (0, d', fst (offer fillr fstatat rdplus k (drop k (dents (dp d))) buf))
     \<and> dirp_ok d' \<and> dents (dp d') = dents (dp d)
     \<and> doffset d' = int k + int (snd (offer fillr fstatat rdplus k (drop k (dents (dp d))) buf))"
  by (rule xmp_readdir_spec [OF assms])

theorem xmp_readdir_offers_witness:
  "\<exists>d'. xmp_readdir (\<lambda>b n st off fl. (0, n # b)) (\<lambda>_. None) False 1
       \<lparr>dp = \<lparr>dents = [\<lparr>d_name = ''a'', d_ino = 1, d_type = 8\<rparr>, \<lparr>d_name = ''b'', d_ino = 2, d_type = 8\<rparr>], dpos = 0\<rparr>,
         dentry = None, doffset = 0\<rparr> [] = (0, d', [''b''])"
  using xmp_readdir_offers [of "\<lparr>dp = \<lparr>dents = [\<lparr>d_name = ''a'', d_ino = 1, d_type = 8\<rparr>,
        \<lparr>d_name = ''b'', d_ino = 2, d_type = 8\<rparr>], dpos = 0\<rparr>, dentry = None, doffset = 0\<rparr>" 1
      "\<lambda>b n st off fl. (0, n # b)" "\<lambda>_. None" False "[]"]
  by (auto simp: dirp_ok_def split_beta)

text \<open>
  C14. A directory that is read piecewise, with any sequence of reply sizes, each read from
  the offset where the one before ended, delivers its entries in order and each exactly
  once, with the offsets to continue from.
\<close>

theorem xmp_readdir_complete:
  assumes "xmp_opendir sys ls path w = (0, Some d, w')"
  shows "listing rooms d = take (sum_list rooms) (dir_items 0 (dents (dp d)))"
proof -
  have "dirp_ok d" "doffset d = int 0"
    using assms by (auto simp: xmp_opendir_def dirp_ok_def split_beta split: if_splits)
  from listing_take [OF this] show ?thesis by simp
qed

theorem xmp_readdir_complete_witness:
  "listing [1, 5] (the (fst (snd (xmp_opendir posix (\<lambda>w p. [\<lparr>d_name = ''a'', d_ino = 1, d_type = 8\<rparr>,
       \<lparr>d_name = ''b'', d_ino = 2, d_type = 8\<rparr>]) ''/d'' (snd (xmp_mkdir posix ''/d'' 0 host0))))))
     = [(''a'', 1), (''b'', 2)]"
proof -
  let ?ls = "\<lambda>w p. [\<lparr>d_name = ''a'', d_ino = 1, d_type = 8\<rparr>, \<lparr>d_name = ''b'', d_ino = 2, d_type = 8\<rparr>]"
  have o: "xmp_opendir posix ?ls ''/d'' (snd (xmp_mkdir posix ''/d'' 0 host0))
      = (0, Some \<lparr>dp = \<lparr>dents = ?ls () (), dpos = 0\<rparr>, dentry = None, doffset = 0\<rparr>, snd (xmp_mkdir posix ''/d'' 0 host0))"
    using full_path_not_etc [of "''/d''"] by (simp add: xmp_opendir_def xmp_mkdir_def on_name_def make_node_def add_node_def host0_def ok_res_def)
  from xmp_readdir_complete [OF o, of "[1, 5]"] show ?thesis
    unfolding o by (simp add: dir_items_def upt_rec)
qed

text \<open>
  Errors of the host reach the caller as negative \<open>errno\<close> values: a directory is made
  once, making it again reports \<open>EEXIST\<close>, removing it restores the names, and removing it
  again reports \<open>ENOENT\<close>.
\<close>

theorem xmp_mkdir_rmdir:
  assumes "map_of (names w) (full_path p) = None"
    "\<not> list_ex (\<lambda>(q, j). take (length (full_path p) + 1) q = full_path p @ ''/'') (names w)"
  shows "\<exists>w1 w2. xmp_mkdir posix p m w = (0, w1) \<and> xmp_mkdir posix p m w1 = (- EEXIST, w1)
     \<and> xmp_rmdir posix p w1 = (0, w2) \<and> names w2 = names w \<and> xmp_rmdir posix p w2 = (- ENOENT, w2)"
proof -
  have f: "filter (\<lambda>(q, i). q \<noteq> full_path p) (names w) = names w"
    using assms(1) by (auto simp: filter_id_conv map_of_eq_None_iff image_iff)
  have "take (length (full_path p) + 1) (full_path p) \<noteq> full_path p @ ''/''" by simp
  with assms f show ?thesis
    by (simp add: xmp_mkdir_def xmp_rmdir_def make_node_def on_name_def add_node_def remove_name_def
        zero_or_errno_def ok_res_def err_res_def)
qed

theorem xmp_mkdir_rmdir_witness:
  "\<exists>w1 w2. xmp_mkdir posix ''/d'' 0 host0 = (0, w1) \<and> xmp_rmdir posix ''/d'' w1 = (0, w2) \<and> names w2 = names host0"
proof -
  have "take (length (full_path ''/d'') + 1) ''/etc'' \<noteq> full_path ''/d'' @ ''/''"
  proof
    assume "take (length (full_path ''/d'') + 1) ''/etc'' = full_path ''/d'' @ ''/''"
    then have "length (take (length (full_path ''/d'') + 1) ''/etc'') = length (full_path ''/d'') + 1" by simp
    moreover have "full_path ''/d'' = ROOT_PATH @ ''/d''" by (rule full_path_eq) (simp add: is_cstring_def)
    ultimately show False by (simp add: ROOT_PATH_def)
  qed
  with xmp_mkdir_rmdir [of host0 "''/d''" 0] full_path_not_etc [of "''/d''"] show ?thesis
    by (auto simp: host0_def)
qed

end
