(* ===== verification/File_Handlers.thy ===== *)
theory File_Handlers
  imports CYC_State Passthrough
begin

text \<open>
  The handlers of \<open>example/passthroughBlocked_fh.c\<close> that work on files kept in the NAND:
  creating, opening, releasing and unlinking them, their attributes, and the parts of
  reading and writing that the code has; \<open>readStubFile\<close> of \<open>example/helper.c\<close>.

  A handler takes the host, the uninitialised memory \<open>u\<close>, its arguments, the state of the
  file system and the world, and returns the value given to libfuse, the handle stored in
  \<open>fi->fh\<close> where it stores one (0 otherwise), and the new state and world. \<open>None\<close> is
  undefined behaviour.

  The lemmas follow a file through its life: creating it puts its number into the stub file,
  its header on the NAND and its addresses into the map; opening it in the same mount finds
  the open file; opening it after a remount and unlinking it while it is in the table of
  open files are undefined; what releasing it and unlinking a closed file do.
\<close>

unbundle bit_operations_syntax

section \<open>Stub files\<close>

definition readStubFile :: "'w host \<Rightarrow> stack \<Rightarrow> string \<Rightarrow> 'w \<Rightarrow> int \<times> 'w" where
  "readStubFile sys u fullPath w =
     (let (r, w) = sys (Open fullPath O_RDWR 0) w
      in if ret r = -1 then (-1, w)
         else let (r2, w) = sys (Read (ret r) 4) w;
                  fileID = dec32 (into_buffer (outb r2) (stack_bytes 4 u));
                  (r3, w) = sys (Close (ret r)) w
              in (fileID, w))"

section \<open>Attributes\<close>

definition xmp_fstat :: "openFile \<Rightarrow> hstat" where
  "xmp_fstat oFile = (let i = of_inode oFile in
     \<lparr>st_ino = of_address oFile, st_mode = i_mode i, st_nlink = uint (i_links_count i),
      st_uid = i_uid i, st_gid = i_gid i, st_rdev = 0, st_size = sint (i_size i),
      st_blksize = 1024, st_blocks = i_pages i * (1024 sdiv 512),
      st_atim = i_atime i, st_mtim = i_mtime i, st_ctim = i_ctime i\<rparr>)"

text \<open>\<open>fh\<close> is \<open>fi->fh\<close>, \<open>None\<close> when libfuse passes no file information.\<close>

definition xmp_getattr :: "'w host \<Rightarrow> string \<Rightarrow> ptr option \<Rightarrow> hstat \<Rightarrow> CYCstate \<Rightarrow> 'w \<Rightarrow> (int \<times> hstat \<times> 'w) option" where
  "xmp_getattr sys path fh stbuf s w =
     (case fh of
        Some p \<Rightarrow> do {
          fi \<leftarrow> finfos s p;
          f \<leftarrow> ofiles s (lf_oFile fi);
          Some (0, xmp_fstat f, w) }
      | None \<Rightarrow>
          let (r, w) = sys (Lstat (full_path path)) w
          in Some (if ret r = -1 then (- errno r, stbuf, w) else (0, ostat r, w)))"

record statvfs =
  f_bsize :: int
  f_blocks :: int
  f_bavail :: int
  f_namemax :: int

definition xmp_statfs :: "statvfs \<Rightarrow> CYCstate \<Rightarrow> int \<times> statvfs" where
  "xmp_statfs stbuf s =
     (0, stbuf\<lparr>f_bsize := 1024, f_blocks := BLOCKSIZE * numBlocks (nFeatures s),
               f_bavail := BLOCKSIZE * (numBlocks (nFeatures s) - 2), f_namemax := 255\<rparr>)"

section \<open>Creating and opening\<close>

definition xmp_create ::
  "'w host \<Rightarrow> stack \<Rightarrow> string \<Rightarrow> 32 word \<Rightarrow> int \<Rightarrow> CYCstate \<Rightarrow> 'w \<Rightarrow> (int \<times> ptr \<times> CYCstate \<times> 'w) option" where
  "xmp_create sys u path mode flags s w = do {
     (fileID, m) \<leftarrow> getFreePtr (vaddrMap s);
     (theLog, logHeaderPage, s) \<leftarrow> getLogForFile u fileID mode (s\<lparr>vaddrMap := m\<rparr>);
     s \<leftarrow> set_vaddr fileID logHeaderPage s;
     al \<leftarrow> alogs s theLog;
     let oFile = brk s;
     let ind = (fInode (log_hdr al))\<lparr>i_links_count := i_links_count (fInode (log_hdr al)) + 1\<rparr>;
     let al = al\<lparr>log_hdr := (log_hdr al)\<lparr>fInode := ind\<rparr>\<rparr>;
     let f = initOpenFile (malloc_openFile u) theLog ind fileID;
     let s = s\<lparr>brk := brk s + 1, alogs := (alogs s)(theLog := Some al), ofiles := (ofiles s)(oFile := Some f)\<rparr>;
     s \<leftarrow> set_open fileID oFile s;
     let fptr = brk s;
     let s = s\<lparr>brk := brk s + 1\<rparr>;
     let (r, w) = sys (Open (full_path path) (O_RDWR OR O_CREAT) (448 + 32 + 4)) w;
     if ret r = -1 then Some (- errno r, 0, s, w)
     else do {
       let s = s\<lparr>finfos := (finfos s)(fptr := Some \<lparr>lf_flag = flags, lf_oFile = oFile\<rparr>)\<rparr>;
       let (r2, w) = sys (Write (ret r) (enc32 fileID)) w;
       let (r3, w) = sys (Close (ret r)) w;
       s \<leftarrow> put_header u (\<lambda>p. p\<lparr>pageType := PTYPE_INODE\<rparr>) theLog s;
       Some (0, fptr, s, w) } }"

text \<open>
  The part of \<open>xmp_open\<close> for a file that has no \<open>openFile\<close> yet. The inner declaration of
  \<open>log\<close> hides the outer one, which stays \<open>NULL\<close>, and \<open>&ind\<close> is the address of the pointer
  variable: \<open>initOpenFile\<close> copies a \<open>struct inode\<close> of 176 bytes from an object of 8, which
  has no defined result.
\<close>

definition inode_in :: "bytes \<Rightarrow> inode option" where
  "inode_in obj = (if length obj < 176 then None else Some (dec_inode obj))"

definition open_new :: "stack \<Rightarrow> int \<Rightarrow> CYCstate \<Rightarrow> (ptr \<times> CYCstate) option" where
  "open_new u fileID s = do {
     logHeaderAddr \<leftarrow> get_vaddr fileID s;
     let (r, page, v) = readNAND (stack_page u) logHeaderAddr (nand s);
     let s = s\<lparr>nand := v\<rparr>;
     let logID = i_log_no (fInode (dec_log (contents page)));
     log_outer \<leftarrow> get_open logID s;
     s \<leftarrow> (if log_outer = NULL then do {
            lastHeaderAddr \<leftarrow> get_vaddr logID s;
            let log_inner = brk s;
            let al = initActiveLog (malloc_activeLog u) (lastHeaderAddr + 1);
            s \<leftarrow> set_open logID log_inner (s\<lparr>brk := brk s + 1\<rparr>);
            let s = (if lastHeaderAddr \<noteq> logHeaderAddr
                     then s\<lparr>nand := snd (snd (readNAND (stack_page u) lastHeaderAddr (nand s)))\<rparr> else s);
            Some (s\<lparr>alogs := (alogs s)(log_inner := Some (al\<lparr>alog_fileCount := alog_fileCount al + 1\<rparr>))\<rparr>) }
          else Some s);
     let oFile = brk s;
     let ind_variable = stack_bytes 8 u;
     ind \<leftarrow> inode_in ind_variable;
     let f = initOpenFile (malloc_openFile u) log_outer ind fileID;
     s \<leftarrow> set_open fileID oFile (s\<lparr>brk := brk s + 1, ofiles := (ofiles s)(oFile := Some f)\<rparr>);
     Some (oFile, s) }"

definition xmp_open ::
  "'w host \<Rightarrow> stack \<Rightarrow> string \<Rightarrow> int \<Rightarrow> CYCstate \<Rightarrow> 'w \<Rightarrow> (int \<times> ptr \<times> CYCstate \<times> 'w) option" where
  "xmp_open sys u path flags s w = do {
     let (fileID, w) = readStubFile sys u (full_path path) w;
     if fileID = -1 then Some (-1, 0, s, w)
     else do {
       let fptr = brk s;
       let s = s\<lparr>brk := brk s + 1\<rparr>;
       oFile \<leftarrow> get_open fileID s;
       (oFile, s) \<leftarrow> (if oFile = NULL then open_new u fileID s else Some (oFile, s));
       f \<leftarrow> ofiles s oFile;
       Some (0, fptr, s\<lparr>ofiles := (ofiles s)(oFile := Some (f\<lparr>currentOpens := currentOpens f + 1\<rparr>)),
         finfos := (finfos s)(fptr := Some \<lparr>lf_flag = flags, lf_oFile = oFile\<rparr>)\<rparr>, w) } }"

section \<open>Releasing and unlinking\<close>

definition xmp_release :: "stack \<Rightarrow> ptr \<Rightarrow> CYCstate \<Rightarrow> (int \<times> CYCstate) option" where
  "xmp_release u fh s = do {
     fi \<leftarrow> finfos s fh;
     f \<leftarrow> ofiles s (lf_oFile fi);
     releasedFile \<leftarrow> get_open (i_file_no (of_inode f)) s;
     let s = s\<lparr>ofiles := (ofiles s)(lf_oFile fi := Some (f\<lparr>currentOpens := currentOpens f - 1\<rparr>))\<rparr>;
     s \<leftarrow> (if currentOpens f - 1 = 0 then do {
            rf \<leftarrow> ofiles s releasedFile;
            if modified rf = 1 then writeCurrLogHeader u releasedFile s else Some s }
          else Some s);
     Some (0, s\<lparr>finfos := (finfos s)(fh := None)\<rparr>) }"

text \<open>
  When the file is open the function ends without a \<open>return\<close>, and libfuse uses its value:
  that is not defined.
\<close>

definition xmp_unlink :: "'w host \<Rightarrow> stack \<Rightarrow> string \<Rightarrow> CYCstate \<Rightarrow> 'w \<Rightarrow> (int \<times> CYCstate \<times> 'w) option" where
  "xmp_unlink sys u path s w =
     (let fullPath = full_path path;
          (r, w) = sys (Stat fullPath) w
      in if ret r = -1 then Some (- errno r, s, w)
         else if st_nlink (ostat r) > 1
         then let (r, w) = sys (Unlink fullPath) w in Some (zero_or_errno r, s, w)
         else do {
           let (fileID, w) = readStubFile sys u fullPath w;
           oFile \<leftarrow> get_open fileID s;
           if oFile = NULL then do {
             logHeaderAddr \<leftarrow> get_vaddr fileID s;
             let (r, page, v) = readNAND (stack_page u) logHeaderAddr (nand s);
             lastHeaderAddr \<leftarrow> get_vaddr (logId (dec_log (contents page))) s;
             let (r, page2, v) = readNAND (stack_page u) lastHeaderAddr v;
             let h = dec_log (contents page2);
             let h = h\<lparr>fileCount := fileCount h - 1, fileId := (fileId h)[0 := 0]\<rparr>;
             (fl, v) \<leftarrow> (if fileCount h = 0 then logs_recycle u h lastHeaderAddr (eraseCount page2) (flists s, v)
                        else Some (flists s, v));
             let s = s\<lparr>flists := fl, nand := v\<rparr>;
             let (r, w) = sys (Unlink fullPath) w;
             Some (zero_or_errno r, s, w) }
           else None })"

section \<open>Reading\<close>

text \<open>
  \<open>pread\<close> gives the bytes read at most \<open>n\<close> from an offset, \<open>None\<close> for -1; the variable it is
  stored in is unsigned. In the loop over the pages in between and for the last page the
  code has no read yet and sets the number of bytes read to 0.
\<close>

function read_rest :: "nat \<Rightarrow> int \<Rightarrow> bytes \<Rightarrow> int \<times> bytes" where
  "read_rest siz res buf =
     (if 1024 \<le> siz then
        (let bytesRead = (0::nat) in
         if bytesRead = 1024 then read_rest (siz - 1024) (res + 1024) buf else (-1, buf))
      else if 0 < siz then
        (let bytesRead = (0::nat) in if bytesRead = siz then (res + int siz, buf) else (-1, buf))
      else (res, buf))"
  by auto
termination by (relation "measure (\<lambda>(siz, res, buf). siz)") auto

declare read_rest.simps [simp del]

definition xmp_read ::
  "(nat \<Rightarrow> int \<Rightarrow> bytes option) \<Rightarrow> stack \<Rightarrow> int \<Rightarrow> nat \<Rightarrow> int \<Rightarrow> bytes \<Rightarrow> (int \<times> bytes) option" where
  "xmp_read pread u flag siz offset buf =
     (if flag AND O_WRONLY \<noteq> 0 then Some (-1, buf)
      else if offset < 0 then None
      else let pageNo = int32 (offset sdiv 1024);
               off = nat (offset smod 1024);
               got = pread 1024 (int32 (pageNo * 1024));
               bytesRead = (case got of None \<Rightarrow> 2 ^ 64 - 1 | Some bs \<Rightarrow> int (length bs));
               tempBuf = into_buffer (case got of None \<Rightarrow> [] | Some bs \<Rightarrow> bs) (stack_bytes 1024 u)
           in if bytesRead = 1024 \<or> int siz \<le> bytesRead
              then let n = (if siz \<le> 1024 - off then siz else 1024 - off)
                   in Some (read_rest (siz - n) (int n) (patch 0 (bslice off n tempBuf) buf))
              else Some (-1, buf))"

section \<open>Writing\<close>

definition prepBuffer :: "bytes \<Rightarrow> int \<Rightarrow> int \<Rightarrow> int \<Rightarrow> int \<Rightarrow> int \<Rightarrow> bytes option" where
  "prepBuffer buf pageNo startOffset endOffset fileSizeInPages fileSize =
     (if pageNo \<ge> fileSizeInPages then
        Some (let b = patch 0 (replicate (nat startOffset) 0) buf
              in patch (nat endOffset) (replicate (nat (1024 - endOffset)) 0) b)
      else if startOffset > 0 \<or> endOffset < 1024 then
        (let toRead = (if pageNo = fileSizeInPages - 1 then fileSize - pageNo * 1024 else 1024);
             bytesRead = 0
         in if bytesRead \<noteq> toRead then None
            else Some (patch (nat bytesRead) (replicate (nat (1024 - bytesRead)) 0) buf))
      else Some buf)"

text \<open>
  The loop of \<open>xmp_write\<close>: \<open>n\<close> pages are left, \<open>i\<close> is the index of the next, \<open>d\<close> the data not
  yet written; \<open>err\<close> is \<open>errno\<close>. A null buffer and a negative length are undefined behaviour.
  There is no write yet: the code sets the number of bytes written to 0.
\<close>

fun write_loop :: "int \<Rightarrow> int \<Rightarrow> nat \<Rightarrow> int \<Rightarrow> int \<Rightarrow> int \<Rightarrow> int \<Rightarrow> int \<Rightarrow> int \<Rightarrow> bytes \<Rightarrow> bytes \<Rightarrow> int \<Rightarrow> int option" where
  "write_loop err lastEnd 0 startPage i startOffset fileSizeInPages fileSize finalFileSize tempBuf d res = Some res"
| "write_loop err lastEnd (Suc n) startPage i startOffset fileSizeInPages fileSize finalFileSize tempBuf d res = do {
     let endOffset = (if n = 0 then lastEnd else 1024);
     bufPtr \<leftarrow> prepBuffer tempBuf (startPage + i) startOffset endOffset fileSizeInPages fileSize;
     let dataToMove = endOffset - startOffset;
     if dataToMove < 0 then None
     else do {
       let tempBuf = patch (nat startOffset) (take (nat dataToMove) d) bufPtr;
       let toWrite = (if (startPage + i + 1) * 1024 > finalFileSize
                      then finalFileSize - (startPage + i) * 1024 else 1024);
       let written = 0;
       if written \<noteq> toWrite then Some (- err)
       else write_loop err lastEnd n startPage (i + 1) 0 fileSizeInPages fileSize finalFileSize
              tempBuf (drop (nat dataToMove) d) (res + dataToMove) } }"

text \<open>\<open>fileSize\<close> is the \<open>st_size\<close> of a structure that nothing fills in.\<close>

definition xmp_write :: "stack \<Rightarrow> int \<Rightarrow> int \<Rightarrow> int \<Rightarrow> bytes \<Rightarrow> nat \<Rightarrow> int \<Rightarrow> int option" where
  "xmp_write u err fileSize flag d siz offset = do {
     _ \<leftarrow> unimplemented;
     if flag AND (O_RDWR OR O_WRONLY) = 0 then Some (-1)
     else do {
       let fileSizeInPages = (fileSize + 1024 - 1) sdiv 1024;
       let finalFileSize = (if offset + int siz > fileSize then offset + int siz else fileSize);
       let startOffset = offset smod 1024;
       let startPage = offset sdiv 1024;
       let numPages = (startOffset + int siz + 1024 - 1) sdiv 1024;
       write_loop err ((offset + int siz) smod 1024) (nat numPages) startPage 0 startOffset fileSizeInPages
         fileSize finalFileSize (stack_bytes 1024 u) d 0 } }"

section \<open>Headers from uninitialised memory\<close>

lemma is_int32_dec_nth: "i < n \<Longrightarrow> is_int32 (dec_ints n bs ! i)"
  using is_int32_dec_ints [of n bs] by (simp add: list_all_length)

lemma list_all_drop: "list_all P xs \<Longrightarrow> list_all P (drop n xs)"
  by (auto simp: list_all_iff dest: in_set_dropD)

lemma inode_ok_dec: "inode_ok (dec_inode bs)"
  by (simp add: inode_ok_def dec_inode_def Let_def is_int32_dec_nth list_all_drop is_int32_dec_ints
      del: dec_ints.simps)

lemma log_ok_dec: "568 \<le> length bs \<Longrightarrow> log_ok (dec_log bs)"
  by (simp add: log_ok_def dec_log_def Let_def is_int32_dec_nth list_all_drop is_int32_dec_ints
      inode_ok_dec length_bslice del: dec_ints.simps)

lemma log_ok_malloc: "log_ok (log_hdr (malloc_activeLog g))"
  by (simp add: malloc_activeLog_def Let_def log_ok_dec)

section \<open>Creating a file\<close>

text \<open>The log that a new file gets: block \<open>pg div 16\<close>, from page \<open>pg\<close> on.\<close>

definition new_header :: "stack \<Rightarrow> int \<Rightarrow> 32 word \<Rightarrow> int \<Rightarrow> int \<Rightarrow> int \<Rightarrow> logHeader" where
  "new_header u fileID mode logID pg er =
     (let h = log_hdr (malloc_activeLog u)
      in h\<lparr>fInode := initInode (fInode h) mode fileID logID, logId := logID, prev := -1, active := 0,
           total := 1, logType := LTYPE_FILES, firstErases := er, erases := word_of_int er,
           first := pg sdiv 16, fileCount := 1, fileId := (fileId h)[0 := fileID]\<rparr>)"

definition new_alog :: "stack \<Rightarrow> int \<Rightarrow> 32 word \<Rightarrow> int \<Rightarrow> int \<Rightarrow> int \<Rightarrow> activeLog" where
  "new_alog u fileID mode logID pg er =
     (malloc_activeLog u)\<lparr>log_hdr := new_header u fileID mode logID pg er, lastBlock := pg sdiv 16, nextPage := pg\<rparr>"

text \<open>
  A mounted file system with free slots \<open>xs\<close> and partially used free blocks \<open>bs\<close>.
\<close>

definition ready :: "nat \<Rightarrow> CYCstate \<Rightarrow> nat list \<Rightarrow> nat list \<Rightarrow> bool" where
  "ready nb s xs bs \<longleftrightarrow> nand_ok nb (nand s) \<and> length (openFileTable s) = 254
     \<and> length (vmap (vaddrMap s)) = 254 \<and> slot_chain (vmap (vaddrMap s)) (freePtr (vaddrMap s)) xs
     \<and> partial_chain nb (nand s) (partialHead (flists s)) bs"

lemma getLogForFile_new:
  assumes "ready nb s (y # zs) (b # bs)"
  shows "\<exists>v. getLogForFile u fid mode s = Some (brk s, int b + 1,
       s\<lparr>flists := (flists s)\<lparr>partialHead := nextLogBlock (page_at (nand s) b),
                              partialHeadErases := nextBlockErases (page_at (nand s) b)\<rparr>,
         nand := v, brk := brk s + 1,
         alogs := (alogs s)(brk s := Some (new_alog u fid mode (int y) (int b + 1) (partialHeadErases (flists s)))),
         openFileTable := (openFileTable s)[y := brk s],
         vaddrMap := (vaddrMap s)\<lparr>freePtr := \<bar>vmap (vaddrMap s) ! y\<bar>, vmap := (vmap (vaddrMap s))[y := int b + 1]\<rparr>\<rparr>)
     \<and> nand_ok nb v \<and> file_bytes v = file_bytes (nand s)"
proof -
  have r: "nand_ok nb (nand s)" "length (openFileTable s) = 254" "length (vmap (vaddrMap s)) = 254"
    "slot_chain (vmap (vaddrMap s)) (freePtr (vaddrMap s)) (y # zs)"
    "partial_chain nb (nand s) (partialHead (flists s)) (b # bs)"
    using assms unfolding ready_def by blast+
  note y = getFreePtr_chain(1) [OF r(4)]
  have y2: "y < 254" using slot_chain_in_map [OF r(4), of y] r(3) by simp
  obtain v where "getFreeBlock u (flists s) True (nand s) = (partialHeadErases (flists s), int b + 1,
        (flists s)\<lparr>partialHead := nextLogBlock (page_at (nand s) b),
           partialHeadErases := nextBlockErases (page_at (nand s) b)\<rparr>, v)"
    "nand_ok nb v" "file_bytes v = file_bytes (nand s)"
    using getFreeBlock_partial [OF r(1,5), of u] by (elim exE conjE) (rule that)
  then show ?thesis
    using y y2 r(2,3)
    by (intro exI [of _ v]) (simp add: getLogForFile_def set_open_def set_vaddr_def Let_def
        new_alog_def new_header_def initLogHeader_def)
qed

lemma put_header_writes:
  fixes u :: stack and stamp :: "fullPage \<Rightarrow> fullPage"
  assumes "nand_ok nb (nand s)" "alogs s l = Some al" "nextPage al = int k" "k < 16 * nb"
    "1 \<le> k mod 16" "k mod 16 \<le> 12" "next_free (nand s) k" "log_ok (log_hdr al)"
    and stamp: "\<And>p. page_ok p \<Longrightarrow> page_ok (stamp p)"
  defines "al' \<equiv> used_pages 1 (al\<lparr>nextPage := int k + 1\<rparr>)"
  defines "pg \<equiv> stamp ((stack_page u)\<lparr>contents := patch 0 (enc_log (log_hdr al')) (contents (stack_page u))\<rparr>)"
  shows "put_header u stamp l s = Some (s\<lparr>flists := flists s, alogs := (alogs s)(l := Some al'),
      nand := append_page u pg k (nand s)\<rparr>)" "page_ok pg"
proof -
  let ?q = "patch 0 (enc_log (log_hdr al')) (contents (stack_page u))"
  have k: "16 * int (k div 16) + int (k mod 16) = int k" by presburger
  then have "nextPage al = 16 * int (k div 16) + int (k mod 16)" using assms(3) by simp
  from getFreePage_middle [OF this assms(6), of u "flists s" "nand s"] assms(5)
  have g: "getFreePage u (flists s) al (nand s) =
      (\<lparr>nandPage = stack_page u, address = int k\<rparr>, flists s, al', nand s)"
    by (simp add: k al'_def)
  have "log_ok (log_hdr al')" using assms(8) by (simp add: al'_def used_pages_def log_ok_def)
  then have "length (enc_log (log_hdr al')) = 568" by (rule log.length_enc)
  moreover have "length (contents (stack_page u)) = 1024" using page_ok_stack_page [of u] by (simp add: page_ok_def)
  ultimately have "page_ok ((stack_page u)\<lparr>contents := ?q\<rparr>)"
    by (intro page_ok_contents) (simp_all add: length_patch)
  then show ok: "page_ok pg" unfolding pg_def by (rule stamp)
  have "writeNAND u pg (int k) False (nand s) = Some (16776, append_page u pg k (nand s))"
    by (rule writeNAND_append(1) [OF assms(1,4) ok assms(7)])
  then show "put_header u stamp l s = Some (s\<lparr>flists := flists s, alogs := (alogs s)(l := Some al'),
      nand := append_page u pg k (nand s)\<rparr>)"
    by (simp add: put_header_def assms(2) g Let_def flip: pg_def)
qed

lemma slot_chain_update: "x \<notin> set xs \<Longrightarrow> slot_chain (vm[x := a]) p xs = slot_chain vm p xs"
  by (induction vm p xs rule: slot_chain.induct) auto

lemma partial_chain_update:
  "(\<And>j. j \<in> set xs \<Longrightarrow> page_at v' j = page_at v j) \<Longrightarrow> partial_chain nb v' h xs = partial_chain nb v h xs"
  by (induction nb v' h xs rule: partial_chain.induct) auto

lemma log_ok_new_header:
  assumes "is_int32 fid" "is_int32 lid" "is_int32 pg" "0 \<le> pg" "is_int32 er"
  shows "log_ok (new_header u fid mode lid pg er)"
proof -
  let ?h = "log_hdr (malloc_activeLog u)"
  have "log_ok ?h" by (rule log_ok_malloc)
  moreover have "is_int32 (pg sdiv 16)" using assms(3,4) by (auto simp: sdiv_nonneg is_int32_def)
  moreover have "list_all is_int32 ((fileId ?h)[0 := fid])" if "list_all is_int32 (fileId ?h)"
    using that assms(1) by (auto simp: list_all_iff dest!: set_update_subset_insert [THEN subsetD])
  ultimately show ?thesis using assms
    by (simp add: log_ok_def new_header_def Let_def initInode_def inode_ok_def is_int32_def [of "-1"] is_int32_def [of 1] is_int32_def [of 0])
qed

text \<open>File \<open>x\<close> is open once, as \<open>f\<close> at \<open>p\<close>, through the handle \<open>fh\<close>.\<close>

definition open_once :: "nat \<Rightarrow> ptr \<Rightarrow> openFile \<Rightarrow> int \<Rightarrow> ptr \<Rightarrow> CYCstate \<Rightarrow> bool" where
  "open_once x p f flags fh s \<longleftrightarrow> get_open (int x) s = Some p \<and> p \<noteq> NULL \<and> ofiles s p = Some f
     \<and> currentOpens f = 1 \<and> i_file_no (of_inode f) = int x
     \<and> finfos s fh = Some \<lparr>lf_flag = flags, lf_oFile = p\<rparr> \<and> fh < brk s"

text \<open>What creating a file with number \<open>x\<close> and log \<open>y\<close> from page \<open>k\<close> on leaves behind.\<close>

definition created :: "nat \<Rightarrow> nat \<Rightarrow> nat \<Rightarrow> 32 word \<Rightarrow> int \<Rightarrow> ptr \<Rightarrow> CYCstate \<Rightarrow> bool" where
  "created x y k mode flags fh s \<longleftrightarrow>
     get_vaddr (int x) s = Some (int k) \<and> get_vaddr (int y) s = Some (int k)
     \<and> (\<exists>p f. open_once x p f flags fh s \<and> of_address f = int x \<and> i_mode (of_inode f) = mode
          \<and> fInode (dec_log (contents (page_at (nand s) k))) = of_inode f)
     \<and> (let p = page_at (nand s) k; h = dec_log (contents p)
        in pageType p = PTYPE_INODE \<and> logId h = int y \<and> first h = int (k div 16) \<and> active h = 1
          \<and> fileCount h = 1 \<and> fileId h ! 0 = int x \<and> i_links_count (fInode h) = 1 \<and> i_size (fInode h) = 0)"

text \<open>The header of the new log with the link counted, and the state just before it is written.\<close>

definition create_header :: "stack \<Rightarrow> nat \<Rightarrow> nat \<Rightarrow> nat \<Rightarrow> 32 word \<Rightarrow> int \<Rightarrow> logHeader" where
  "create_header u x y b mode er =
     (let h = new_header u (int x) mode (int y) (int b + 1) er
      in h\<lparr>fInode := (fInode h)\<lparr>i_links_count := i_links_count (fInode h) + 1\<rparr>\<rparr>)"

definition create_state :: "stack \<Rightarrow> nat \<Rightarrow> nat \<Rightarrow> nat \<Rightarrow> 32 word \<Rightarrow> int \<Rightarrow> vnand \<Rightarrow> CYCstate \<Rightarrow> CYCstate" where
  "create_state u x y b mode flags v s =
     (let er = partialHeadErases (flists s); h = create_header u x y b mode er
      in s\<lparr>flists := (flists s)\<lparr>partialHead := nextLogBlock (page_at (nand s) b),
                              partialHeadErases := nextBlockErases (page_at (nand s) b)\<rparr>,
      nand := v, vaddrMap := (vaddrMap s)\<lparr>freePtr := \<bar>vmap (vaddrMap s) ! y\<bar>,
        vmap := (vmap (vaddrMap s))[y := int b + 1, x := int b + 1]\<rparr>,
      alogs := (alogs s)(brk s := Some ((new_alog u (int x) mode (int y) (int b + 1) er)\<lparr>log_hdr := h\<rparr>)),
      ofiles := (ofiles s)(Suc (brk s) := Some (initOpenFile (malloc_openFile u) (brk s) (fInode h) (int x))),
      openFileTable := (openFileTable s)[y := brk s, x := Suc (brk s)], brk := Suc (Suc (Suc (brk s))),
      finfos := (finfos s)(Suc (Suc (brk s)) := Some \<lparr>lf_flag = flags, lf_oFile = Suc (brk s)\<rparr>)\<rparr>)"

lemma ready_facts:
  assumes "ready nb s xs bs"
  shows "nand_ok nb (nand s)" "length (openFileTable s) = 254" "length (vmap (vaddrMap s)) = 254"
    "slot_chain (vmap (vaddrMap s)) (freePtr (vaddrMap s)) xs"
    "partial_chain nb (nand s) (partialHead (flists s)) bs"
  using assms unfolding ready_def by blast+

context stub_host
begin

lemma xmp_create_steps:
  assumes rdy: "ready nb s (x # y # zs) (b # bs)"
    and host: "good w" "content w (full_path path) = None"
  shows "\<exists>v w'. xmp_create sys u path mode flags s w =
      put_header u (\<lambda>p. p\<lparr>pageType := PTYPE_INODE\<rparr>) (brk s) (create_state u x y b mode flags v s)
        \<bind> (\<lambda>s'. Some (0, Suc (Suc (brk s)), s', w'))
     \<and> nand_ok nb v \<and> file_bytes v = file_bytes (nand s)
     \<and> good w' \<and> content w' = (content w)(full_path path \<mapsto> enc32 (int x))"
proof -
  note r = ready_facts [OF rdy]
  have xy: "x < 254" "y < 254" "x \<noteq> y"
    using slot_chain_in_map [OF r(4)] slot_chain_distinct [OF r(4)] r(3) by auto
  define s0 where "s0 = s\<lparr>vaddrMap := (vaddrMap s)\<lparr>freePtr := \<bar>vmap (vaddrMap s) ! x\<bar>\<rparr>\<rparr>"
  note fx = getFreePtr_chain [OF r(4)]
  have "ready nb s0 (y # zs) (b # bs)"
    unfolding ready_def s0_def using r fx(2) by (simp del: slot_chain.simps partial_chain.simps)
  from getLogForFile_new [OF this, of u "int x" mode] obtain v1 where
    g: "getLogForFile u (int x) mode s0 = Some (brk s, int b + 1,
       s0\<lparr>flists := (flists s)\<lparr>partialHead := nextLogBlock (page_at (nand s) b),
                              partialHeadErases := nextBlockErases (page_at (nand s) b)\<rparr>,
         nand := v1, brk := brk s + 1,
         alogs := (alogs s)(brk s := Some (new_alog u (int x) mode (int y) (int b + 1) (partialHeadErases (flists s)))),
         openFileTable := (openFileTable s)[y := brk s],
         vaddrMap := (vaddrMap s)\<lparr>freePtr := \<bar>vmap (vaddrMap s) ! y\<bar>, vmap := (vmap (vaddrMap s))[y := int b + 1]\<rparr>\<rparr>)"
    "nand_ok nb v1" "file_bytes v1 = file_bytes (nand s)"
    by (auto simp: s0_def)
  obtain r1 w1 r2 w2 r3 w3 where host3:
    "sys (Open (full_path path) (O_RDWR OR O_CREAT) (448 + 32 + 4)) w = (r1, w1)" "ret r1 \<noteq> -1"
    "sys (Write (ret r1) (enc32 (int x))) w1 = (r2, w2)" "sys (Close (ret r1)) w2 = (r3, w3)"
    "good w3" "content w3 = (content w)(full_path path \<mapsto> enc32 (int x))"
    using create [OF host, of "448 + 32 + 4" "enc32 (int x)"] by (elim exE conjE) (rule that)
  have "xmp_create sys u path mode flags s w =
      put_header u (\<lambda>p. p\<lparr>pageType := PTYPE_INODE\<rparr>) (brk s) (create_state u x y b mode flags v1 s)
        \<bind> (\<lambda>s'. Some (0, Suc (Suc (brk s)), s', w3))"
    using host3 xy r(2,3)
    by (simp add: xmp_create_def fx(1) g(1) [unfolded s0_def] set_vaddr_def set_open_def Let_def
        create_state_def create_header_def new_alog_def)
  with g(2,3) host3(5,6) show ?thesis by (intro exI conjI)
qed

end

lemma create_put_header:
  fixes u :: stack and mode :: "32 word" and flags :: int
  assumes rdy: "ready nb s (x # y # zs) (b # bs)"
    and fits: "b mod 16 \<le> 11" "next_free (nand s) (b + 1)" "b + 1 < 16 * nb"
    and er: "is_int32 (partialHeadErases (flists s))"
    and v: "nand_ok nb v" "file_bytes v = file_bytes (nand s)"
  defines "S \<equiv> create_state u x y b mode flags v s"
  defines "h \<equiv> (create_header u x y b mode (partialHeadErases (flists s)))\<lparr>active := 1\<rparr>"
  shows "\<exists>al' pg. put_header u (\<lambda>p. p\<lparr>pageType := PTYPE_INODE\<rparr>) (brk s) S =
      Some (S\<lparr>flists := flists S, alogs := (alogs S)(brk s := Some al'), nand := append_page u pg (b + 1) v\<rparr>)
    \<and> page_ok pg \<and> pageType pg = PTYPE_INODE \<and> dec_log (contents pg) = h"
proof -
  note r = ready_facts [OF rdy]
  let ?er = "partialHeadErases (flists s)"
  define al where "al = (new_alog u (int x) mode (int y) (int b + 1) ?er)\<lparr>log_hdr := create_header u x y b mode ?er\<rparr>"
  have xy: "x < 254" "y < 254"
    using slot_chain_in_map [OF r(4)] r(3) by auto
  have "nb \<le> 128009" using r(1) by (simp add: nand_ok_def)
  then have "is_int32 (int b + 1)" using fits(3) by (simp add: is_int32_def)
  then have "log_ok (new_header u (int x) mode (int y) (int b + 1) ?er)"
    using xy er by (intro log_ok_new_header) (simp_all add: is_int32_def)
  then have lok: "log_ok (create_header u x y b mode ?er)"
    by (simp add: create_header_def log_ok_def Let_def inode_ok_def)
  have S: "nand_ok nb (nand S)" "alogs S (brk s) = Some al" "nand S = v"
    using v by (simp_all add: S_def create_state_def Let_def al_def)
  have "(b + 1) mod 16 = b mod 16 + 1" using fits(1) by (simp add: mod_Suc)
  then have k: "1 \<le> (b + 1) mod 16" "(b + 1) mod 16 \<le> 12" using fits(1) by simp_all
  have nf: "next_free (nand S) (b + 1)"
    using fits(2) abs_nand_cong [OF v(2)] by (simp add: next_free_def S(3))
  have np: "nextPage al = int (b + 1)" by (simp add: al_def new_alog_def)
  have la: "log_ok (log_hdr al)" using lok by (simp add: al_def)
  define al' where "al' = used_pages 1 (al\<lparr>nextPage := int (b + 1) + 1\<rparr>)"
  define pg where "pg = ((stack_page u)\<lparr>contents := patch 0 (enc_log (log_hdr al')) (contents (stack_page u))\<rparr>)
      \<lparr>pageType := PTYPE_INODE\<rparr>"
  have st: "\<And>p. page_ok p \<Longrightarrow> page_ok (p\<lparr>pageType := PTYPE_INODE\<rparr>)" by (simp add: page_ok_def)
  note put = put_header_writes [where u = u and stamp = "\<lambda>p. p\<lparr>pageType := PTYPE_INODE\<rparr>",
      OF S(1,2) np fits(3) k nf la st, folded al'_def, folded pg_def]
  have hh: "log_hdr al' = h"
    by (simp add: al'_def used_pages_def al_def h_def create_header_def new_header_def Let_def)
  have "log_ok h" using lok by (simp add: h_def log_ok_def)
  then have "dec_log (contents pg) = h"
    using log.dec_enc_app by (simp add: pg_def hh patch_def)
  moreover have "pageType pg = PTYPE_INODE" by (simp add: pg_def)
  ultimately show ?thesis using put S(3) by (intro exI [of _ al'] exI [of _ pg] conjI) simp_all
qed

lemma ready_after_create:
  assumes rdy: "ready nb s (x # y # zs) (b # bs)" and pg: "page_ok pg"
    and fits: "next_free (nand s) (b + 1)" "b + 1 \<notin> set bs" "b + 1 < 16 * nb"
    and v: "nand_ok nb v" "file_bytes v = file_bytes (nand s)"
  shows "ready nb ((create_state u x y b mode flags v s)\<lparr>flists := flists (create_state u x y b mode flags v s),
      alogs := a, nand := append_page u pg (b + 1) v\<rparr>) zs bs"
proof -
  note r = ready_facts [OF rdy]
  have xy: "x \<notin> set zs" "y \<notin> set zs" using slot_chain_distinct [OF r(4)] by auto
  have "next_free v (b + 1)" using fits(1) abs_nand_cong [OF v(2)] by (simp add: next_free_def)
  note app = seq.inv_put [OF v(1) fits(3) pg this] seq.get_put [OF v(1) fits(3) pg this]
  have "page_at v = page_at (nand s)" using v(2) by (intro page_at_cong abs_nand_cong)
  then have "partial_chain nb (append_page u pg (b + 1) v) h bs = partial_chain nb (nand s) h bs" for h
    using fits(2) by (intro partial_chain_update) (simp only: app(2), auto)
  then have "partial_chain nb (append_page u pg (b + 1) v) (nextLogBlock (page_at (nand s) b)) bs"
    using r(5) by simp
  moreover have "slot_chain (vmap (vaddrMap s)) \<bar>vmap (vaddrMap s) ! y\<bar> zs" using r(4) by simp
  ultimately show ?thesis
    using r(2,3) xy app(1) by (simp add: ready_def create_state_def Let_def slot_chain_update)
qed

lemma created_after_create:
  assumes rdy: "ready nb s (x # y # zs) (b # bs)" and pg: "page_ok pg" "pageType pg = PTYPE_INODE"
      "dec_log (contents pg) = (create_header u x y b mode (partialHeadErases (flists s)))\<lparr>active := 1\<rparr>"
    and fits: "next_free (nand s) (b + 1)" "b + 1 < 16 * nb"
    and v: "nand_ok nb v" "file_bytes v = file_bytes (nand s)"
  shows "created x y (b + 1) mode flags (Suc (Suc (brk s)))
     ((create_state u x y b mode flags v s)\<lparr>flists := flists (create_state u x y b mode flags v s),
      alogs := a, nand := append_page u pg (b + 1) v\<rparr>)"
proof -
  note r = ready_facts [OF rdy]
  have xy: "x < 254" "y < 254" "x \<noteq> y"
    using slot_chain_in_map [OF r(4)] slot_chain_distinct [OF r(4)] r(3) by auto
  have "next_free v (b + 1)" using fits(1) abs_nand_cong [OF v(2)] by (simp add: next_free_def)
  from seq.get_put [OF v(1) fits(2) pg(1) this, of u "b + 1"]
  have p: "page_at (append_page u pg (b + 1) v) (b + 1) = pg" by simp
  have "length (fileId (log_hdr (malloc_activeLog u))) = 8" using log_ok_malloc by (simp add: log_ok_def)
  moreover have "(int b + 1) sdiv 16 = int ((b + 1) div 16)" using int_page_arith(1) [of "b + 1"] by (simp add: add.commute)
  ultimately show ?thesis
    using r(2,3) xy p pg(2,3)
    by (simp add: created_def open_once_def create_state_def Let_def get_vaddr_def get_open_def initOpenFile_def
        create_header_def new_header_def initInode_def nth_list_update)
qed

context stub_host
begin

lemma xmp_create_new:
  assumes rdy: "ready nb s (x # y # zs) (b # bs)"
    and fits: "b mod 16 \<le> 11" "next_free (nand s) (b + 1)" "b + 1 \<notin> set bs" "b + 1 < 16 * nb"
    and er: "is_int32 (partialHeadErases (flists s))"
    and host: "good w" "content w (full_path path) = None"
  shows "\<exists>fh s' w'. xmp_create sys u path mode flags s w = Some (0, fh, s', w')
     \<and> good w' \<and> content w' = (content w)(full_path path \<mapsto> enc32 (int x))
     \<and> ready nb s' zs bs \<and> created x y (b + 1) mode flags fh s'"
proof -
  from xmp_create_steps [OF rdy host, of u mode flags] obtain v w' where
    c: "xmp_create sys u path mode flags s w =
      put_header u (\<lambda>p. p\<lparr>pageType := PTYPE_INODE\<rparr>) (brk s) (create_state u x y b mode flags v s)
        \<bind> (\<lambda>s'. Some (0, Suc (Suc (brk s)), s', w'))"
    and v: "nand_ok nb v" "file_bytes v = file_bytes (nand s)"
    and w: "good w'" "content w' = (content w)(full_path path \<mapsto> enc32 (int x))"
    by (elim exE conjE) (rule that)
  from create_put_header [OF rdy fits(1,2,4) er v, of u mode flags] obtain al' pg where
    put: "put_header u (\<lambda>p. p\<lparr>pageType := PTYPE_INODE\<rparr>) (brk s) (create_state u x y b mode flags v s) =
      Some ((create_state u x y b mode flags v s)\<lparr>flists := flists (create_state u x y b mode flags v s),
        alogs := (alogs (create_state u x y b mode flags v s))(brk s := Some al'), nand := append_page u pg (b + 1) v\<rparr>)"
    and pg: "page_ok pg" "pageType pg = PTYPE_INODE"
      "dec_log (contents pg) = (create_header u x y b mode (partialHeadErases (flists s)))\<lparr>active := 1\<rparr>"
    by (elim exE conjE) (rule that)
  show ?thesis
    unfolding c put bind.bind_lunit
    by (intro exI conjI, rule refl, rule w(1), rule w(2), rule ready_after_create [OF rdy pg(1) fits(2-4) v],
        rule created_after_create [OF rdy pg fits(2,4) v])
qed

end

section \<open>The life of a file\<close>

lemma get_open_updates [simp]:
  "get_open i (s\<lparr>brk := b\<rparr>) = get_open i s" "get_open i (s\<lparr>ofiles := f\<rparr>) = get_open i s"
  "get_open i (s\<lparr>finfos := g\<rparr>) = get_open i s" "get_open i (s\<lparr>nand := v\<rparr>) = get_open i s"
  by (simp_all add: get_open_def)

lemma xmp_release_last:
  assumes "finfos s fh = Some fi" "ofiles s (lf_oFile fi) = Some f" "currentOpens f = 1"
    "get_open (i_file_no (of_inode f)) s = Some (lf_oFile fi)" "modified f \<noteq> 1"
  shows "xmp_release u fh s = Some (0, s\<lparr>ofiles := (ofiles s)(lf_oFile fi := Some (f\<lparr>currentOpens := 0\<rparr>)),
      finfos := (finfos s)(fh := None)\<rparr>)"
  using assms by (simp add: xmp_release_def Let_def)

lemma xmp_release_shared:
  assumes "finfos s fh = Some fi" "ofiles s (lf_oFile fi) = Some f" "currentOpens f \<noteq> 1"
    "get_open (i_file_no (of_inode f)) s = Some q"
  shows "xmp_release u fh s = Some (0, s\<lparr>ofiles := (ofiles s)(lf_oFile fi := Some (f\<lparr>currentOpens := currentOpens f - 1\<rparr>)),
      finfos := (finfos s)(fh := None)\<rparr>)"
  using assms by (simp add: xmp_release_def Let_def)

context stub_host
begin

lemma readStubFile_id:
  assumes "good w" "content w p = Some (enc32 i)" "is_int32 i"
  shows "\<exists>w'. readStubFile sys u p w = (i, w') \<and> good w' \<and> content w' = content w"
proof -
  obtain r1 w1 r2 w2 r3 w3 where
    "sys (Open p O_RDWR 0) w = (r1, w1)" "ret r1 \<noteq> -1" "sys (Read (ret r1) 4) w1 = (r2, w2)"
    "outb r2 = take 4 (enc32 i)" "sys (Close (ret r1)) w2 = (r3, w3)" "good w3" "content w3 = content w"
    using read [OF assms(1,2), of 4] by (elim exE conjE) (rule that)
  moreover have "into_buffer (enc32 i) (stack_bytes 4 u) = enc32 i" by (simp add: into_buffer_full)
  ultimately show ?thesis using dec_enc32 [OF assms(3)] by (simp add: readStubFile_def)
qed

lemma xmp_open_open:
  assumes "good w" "content w (full_path path) = Some (enc32 i)" "is_int32 i" "i \<noteq> -1"
    "get_open i s = Some p" "p \<noteq> NULL" "ofiles s p = Some f"
  shows "\<exists>w'. xmp_open sys u path flags s w = Some (0, brk s,
       s\<lparr>brk := brk s + 1, ofiles := (ofiles s)(p := Some (f\<lparr>currentOpens := currentOpens f + 1\<rparr>)),
         finfos := (finfos s)(brk s := Some \<lparr>lf_flag = flags, lf_oFile = p\<rparr>)\<rparr>, w')
     \<and> good w' \<and> content w' = content w"
proof -
  obtain w' where "readStubFile sys u (full_path path) w = (i, w')" "good w'" "content w' = content w"
    using readStubFile_id [OF assms(1-3)] by blast
  with assms(4-7) show ?thesis by (simp add: xmp_open_def Let_def)
qed

lemma xmp_unlink_open:
  assumes "good w" "content w (full_path path) = Some (enc32 i)" "is_int32 i"
    "get_open i s = Some p" "p \<noteq> NULL"
  shows "xmp_unlink sys u path s w = None"
proof -
  obtain r where "sys (Stat (full_path path)) w = (r, w)" "ret r \<noteq> -1" "st_nlink (ostat r) \<le> 1"
    using single [OF assms(1,2)] by blast
  moreover obtain w' where "readStubFile sys u (full_path path) w = (i, w')"
    using readStubFile_id [OF assms(1-3)] by blast
  ultimately show ?thesis using assms(4,5) by (simp add: xmp_unlink_def Let_def)
qed

lemma xmp_unlink_closed:
  assumes host: "good w" "content w (full_path path) = Some (enc32 i)" "is_int32 i"
    and closed: "get_open i s = Some NULL"
    and nand: "nand_ok nb (nand s)" "k < 16 * nb" "get_vaddr i s = Some (int k)"
    and hdr: "h = dec_log (contents (page_at (nand s) k))" "get_vaddr (logId h) s = Some (int k)" "fileCount h = 1"
    and rec: "\<And>v. nand_ok nb v \<Longrightarrow> file_bytes v = file_bytes (nand s) \<Longrightarrow>
       \<exists>v'. logs_recycle u (h\<lparr>fileCount := 0, fileId := (fileId h)[0 := 0]\<rparr>) (int k)
         (eraseCount (page_at (nand s) k)) (flists s, v) = Some (fl', v') \<and> P v'"
  shows "\<exists>v' w'. xmp_unlink sys u path s w = Some (0, s\<lparr>flists := fl', nand := v'\<rparr>, w')
     \<and> content w' = (content w)(full_path path := None) \<and> P v'"
proof -
  obtain r where st: "sys (Stat (full_path path)) w = (r, w)" "ret r \<noteq> -1" "st_nlink (ostat r) \<le> 1"
    using single [OF host(1,2)] by blast
  obtain w1 where w1: "readStubFile sys u (full_path path) w = (i, w1)" "good w1" "content w1 = content w"
    using readStubFile_id [OF host] by blast
  obtain r2 w2 where w2: "sys (Unlink (full_path path)) w1 = (r2, w2)" "ret r2 \<noteq> -1"
    "content w2 = (content w1)(full_path path := None)"
    using remove [OF w1(2)] host(2) w1(3) by metis
  obtain v1 where v1: "readNAND (stack_page u) (int k) (nand s) = (1048, page_at (nand s) k, v1)" "nand_ok nb v1"
    "file_bytes v1 = file_bytes (nand s)"
    using readNAND_page [OF nand(1,2) page_ok_stack_page] by blast
  have pg: "page_at v1 = page_at (nand s)" using v1(3) by (intro page_at_cong abs_nand_cong)
  obtain v2 where v2: "readNAND (stack_page u) (int k) v1 = (1048, page_at (nand s) k, v2)" "nand_ok nb v2"
    "file_bytes v2 = file_bytes (nand s)"
    using readNAND_page [OF v1(2) nand(2) page_ok_stack_page] v1(3) unfolding pg by metis
  obtain v3 where v3: "logs_recycle u (h\<lparr>fileCount := 0, fileId := (fileId h)[0 := 0]\<rparr>) (int k)
      (eraseCount (page_at (nand s) k)) (flists s, v2) = Some (fl', v3)" "P v3"
    using rec [OF v2(2,3)] by blast
  from st w1 w2 closed nand(3) v1(1) v2(1) v3(1) hdr(2,3)
  have "xmp_unlink sys u path s w = Some (0, s\<lparr>flists := fl', nand := v3\<rparr>, w2)"
    by (simp add: xmp_unlink_def Let_def hdr(1) [symmetric] zero_or_errno_def)
  with w2(3) w1(3) v3(2) show ?thesis by auto
qed

end

section \<open>What the handlers guarantee\<close>

text \<open>
  A device whose block 2 holds the only element of the partially used free list, a mounted
  file system on it, and a host without files.
\<close>

definition nand_w :: vnand where
  "nand_w = append_page (\<lambda>_. 7) (zero_page\<lparr>pageType := PTYPE_NEXTLINK\<rparr>) 32 nand3"

definition cyc_w :: CYCstate where
  "cyc_w = (cyc0 nand_w)\<lparr>vaddrMap := formatted_map, openFileTable := replicate 254 0, flists := fl32\<rparr>"

definition host_w :: hostfs where
  "host_w = \<lparr>names = [], nodes = (\<lambda>_. HDir), hfresh = 0, fds = (\<lambda>_. None), fd_fresh = 3\<rparr>"

lemma nand_w_facts: "nand_ok 3 nand_w" "page_at nand_w 32 = zero_page\<lparr>pageType := PTYPE_NEXTLINK\<rparr>" "next_free nand_w 33"
proof -
  have p: "page_ok (zero_page\<lparr>pageType := PTYPE_NEXTLINK\<rparr>)" by (simp add: page_ok_def zero_page_def is_int32_def)
  have f: "next_free nand3 32" using next_free_nand3 [of 2] by simp
  note w = writeNAND_append [OF nand3_ok _ p f, of "\<lambda>_. 7", folded nand_w_def]
  show "nand_ok 3 nand_w" "next_free nand_w 33"
    using w by (simp_all add: next_free_def put_page_def erased_block_def)
  show "page_at nand_w 32 = zero_page\<lparr>pageType := PTYPE_NEXTLINK\<rparr>"
    using seq.get_put [OF nand3_ok _ p f, of "\<lambda>_. 7" 32] by (simp add: nand_w_def)
qed

lemma cyc_w_ready: "ready 3 cyc_w (1 # 2 # [3..<254]) [32]"
proof -
  have "[1..<254] = 1 # 2 # [3..<254]" by (subst upt_conv_Cons, simp, subst upt_conv_Cons, simp, simp only: One_nat_def numeral_2_eq_2 numeral_3_eq_3)
  then have "slot_chain (vmap formatted_map) (freePtr formatted_map) (1 # 2 # [3..<254])"
    using slot_chain_formatted by simp
  moreover have "length (vmap formatted_map) = 254" by (simp add: formatted_map_def del: upt_rec_numeral)
  ultimately show ?thesis
    using nand_w_facts
    by (simp add: ready_def cyc_w_def cyc0_def fl32_def zero_page_def
        del: slot_chain.simps upt_rec_numeral)
qed

lemma host_w_files: "files_only host_w" "file_content host_w p = None"
  by (simp_all add: files_only_def host_w_def file_content_def)

text \<open>
  C1. Creating a file in a mounted file system with two free slots \<open>x\<close>, \<open>y\<close> and a free block:
  the stub file gets the number \<open>x\<close>, the map takes \<open>x\<close> (the file) and \<open>y\<close> (its log) to the page
  after the block's link page, that page holds the log's header with the file's inode, the
  file is open once, and the free slots and blocks left are the rest of the lists.
\<close>

theorem xmp_create_new_file:
  assumes "ready nb s (x # y # zs) (b # bs)" "b mod 16 \<le> 11" "next_free (nand s) (b + 1)" "b + 1 \<notin> set bs"
    "b + 1 < 16 * nb" "is_int32 (partialHeadErases (flists s))" "files_only w" "file_content w (full_path path) = None"
  shows "\<exists>fh s' w'. xmp_create posix u path mode flags s w = Some (0, fh, s', w')
     \<and> file_content w' = (file_content w)(full_path path \<mapsto> enc32 (int x))
     \<and> ready nb s' zs bs \<and> created x y (b + 1) mode flags fh s'"
  using posix_stub.xmp_create_new [OF assms, of u mode flags] by blast

theorem xmp_create_new_file_witness:
  "\<exists>fh s' w'. xmp_create posix (\<lambda>_. 7) ''/f'' 0 2 cyc_w host_w = Some (0, fh, s', w')
     \<and> ready 3 s' [3..<254] [] \<and> created 1 2 33 0 2 fh s'"
proof -
  have "is_int32 (partialHeadErases (flists cyc_w))" "next_free (nand cyc_w) (32 + 1)"
    using nand_w_facts by (simp_all add: cyc_w_def cyc0_def fl32_def is_int32_def)
  with xmp_create_new_file [OF cyc_w_ready, of host_w "''/f''" "\<lambda>_. 7" 0 2] host_w_files show ?thesis
    by auto
qed

text \<open>
  Opening a file that is already open in this mount finds its \<open>openFile\<close> through the stub
  file, counts the open and returns a handle on it; releasing that handle takes the count
  back.
\<close>

theorem open_release_open_file:
  assumes "open_once x p f flags fh s" "x < 254" "files_only w"
    "file_content w (full_path path) = Some (enc32 (int x))"
  shows "\<exists>s1 w1 s2. xmp_open posix u path flags' s w = Some (0, brk s, s1, w1)
     \<and> finfos s1 (brk s) = Some \<lparr>lf_flag = flags', lf_oFile = p\<rparr> \<and> ofiles s1 p = Some (f\<lparr>currentOpens := 2\<rparr>)
     \<and> xmp_release u (brk s) s1 = Some (0, s2) \<and> ofiles s2 p = Some (f\<lparr>currentOpens := 1\<rparr>)
     \<and> finfos s2 fh = finfos s fh"
proof -
  have pf: "get_open (int x) s = Some p" "p \<noteq> NULL" "ofiles s p = Some f"
    "currentOpens f = 1" "i_file_no (of_inode f) = int x" "fh < brk s"
    using assms(1) by (simp_all add: open_once_def)
  have x: "is_int32 (int x)" "int x \<noteq> -1" using assms(2) by (simp_all add: is_int32_def)
  from posix_stub.xmp_open_open [OF assms(3,4) x pf(1-3), of u flags'] obtain w1 where
    o: "xmp_open posix u path flags' s w = Some (0, brk s,
       s\<lparr>brk := brk s + 1, ofiles := (ofiles s)(p := Some (f\<lparr>currentOpens := currentOpens f + 1\<rparr>)),
         finfos := (finfos s)(brk s := Some \<lparr>lf_flag = flags', lf_oFile = p\<rparr>)\<rparr>, w1)" by blast
  define s1 where "s1 = s\<lparr>brk := brk s + 1, ofiles := (ofiles s)(p := Some (f\<lparr>currentOpens := 2\<rparr>)),
         finfos := (finfos s)(brk s := Some \<lparr>lf_flag = flags', lf_oFile = p\<rparr>)\<rparr>"
  define s2 where "s2 = s1\<lparr>ofiles := (ofiles s1)(p := Some (f\<lparr>currentOpens := 1\<rparr>)),
      finfos := (finfos s1)(brk s := None)\<rparr>"
  have "xmp_release u (brk s) s1 = Some (0, s2)"
    using xmp_release_shared [of s1 "brk s" "\<lparr>lf_flag = flags', lf_oFile = p\<rparr>" "f\<lparr>currentOpens := 2\<rparr>" p u] pf
    by (simp add: s1_def s2_def)
  moreover have "xmp_open posix u path flags' s w = Some (0, brk s, s1, w1)" using o pf(4) by (simp add: s1_def)
  moreover have "finfos s2 fh = finfos s fh" "ofiles s2 p = Some (f\<lparr>currentOpens := 1\<rparr>)"
    "ofiles s1 p = Some (f\<lparr>currentOpens := 2\<rparr>)" "finfos s1 (brk s) = Some \<lparr>lf_flag = flags', lf_oFile = p\<rparr>"
    using pf(6) by (simp_all add: s1_def s2_def)
  ultimately show ?thesis by (intro exI conjI)
qed

definition openFile_w :: openFile where
  "openFile_w = \<lparr>currentOpens = 1, mainExtentLog = 9, of_inode = inode0\<lparr>i_file_no := 1\<rparr>, of_address = 1, modified = 0\<rparr>"

definition cyc_open :: CYCstate where
  "cyc_open = cyc_w\<lparr>openFileTable := (openFileTable cyc_w)[1 := 10], ofiles := [10 \<mapsto> openFile_w],
     finfos := [11 \<mapsto> \<lparr>lf_flag = 2, lf_oFile = 10\<rparr>], brk := 12\<rparr>"

definition host_f :: hostfs where
  "host_f = host_w\<lparr>names := [(full_path ''/f'', 0)], nodes := (\<lambda>_. HFile (enc32 1)), hfresh := 1\<rparr>"

lemma cyc_open_once: "open_once 1 10 openFile_w 2 11 cyc_open"
  by (simp add: open_once_def cyc_open_def openFile_w_def get_open_def cyc_w_def)

lemma host_f_files: "files_only host_f" "file_content host_f (full_path ''/f'') = Some (enc32 1)"
  by (simp_all add: files_only_def host_f_def host_w_def file_content_def)

theorem open_release_open_file_witness:
  "\<exists>s1 w1 s2. xmp_open posix (\<lambda>_. 7) ''/f'' 0 cyc_open host_f = Some (0, 12, s1, w1)
     \<and> xmp_release (\<lambda>_. 7) 12 s1 = Some (0, s2) \<and> ofiles s2 10 = Some (openFile_w\<lparr>currentOpens := 1\<rparr>)"
proof -
  have "brk cyc_open = 12" by (simp add: cyc_open_def)
  with open_release_open_file [OF cyc_open_once _ host_f_files(1), of "''/f''" "\<lambda>_. 7" 0] host_f_files(2)
  show ?thesis by auto
qed

text \<open>
  Releasing the last handle of a file leaves its entry in the table of open files (the
  code clears a local variable), so unlinking the closed file takes it for open, and
  \<open>xmp_unlink\<close> ends without a value.
\<close>

theorem release_then_unlink_undefined:
  assumes "open_once x p f flags fh s" "modified f \<noteq> 1" "x < 254" "files_only w"
    "file_content w (full_path path) = Some (enc32 (int x))"
  shows "\<exists>s1. xmp_release u fh s = Some (0, s1) \<and> finfos s1 fh = None \<and> get_open (int x) s1 = Some p
     \<and> xmp_unlink posix u path s1 w = None"
proof -
  have pf: "get_open (int x) s = Some p" "p \<noteq> NULL" "ofiles s p = Some f" "currentOpens f = 1"
    "i_file_no (of_inode f) = int x" "finfos s fh = Some \<lparr>lf_flag = flags, lf_oFile = p\<rparr>"
    using assms(1) by (simp_all add: open_once_def)
  define s1 where "s1 = s\<lparr>ofiles := (ofiles s)(p := Some (f\<lparr>currentOpens := 0\<rparr>)), finfos := (finfos s)(fh := None)\<rparr>"
  have "xmp_release u fh s = Some (0, s1)"
    using xmp_release_last [OF pf(6), of f u] pf assms(2) by (simp add: s1_def)
  moreover have g: "get_open (int x) s1 = Some p" "finfos s1 fh = None" using pf(1) by (simp_all add: s1_def)
  moreover have "is_int32 (int x)" using assms(3) by (simp add: is_int32_def)
  note posix_stub.xmp_unlink_open [OF assms(4,5) this g(1) pf(2), of u]
  ultimately show ?thesis by blast
qed

theorem release_then_unlink_undefined_witness:
  "\<exists>s1. xmp_release (\<lambda>_. 7) 11 cyc_open = Some (0, s1) \<and> get_open 1 s1 = Some 10
     \<and> xmp_unlink posix (\<lambda>_. 7) ''/f'' s1 host_f = None"
  using release_then_unlink_undefined [OF cyc_open_once _ _ host_f_files(1), of "''/f''" "\<lambda>_. 7"] host_f_files(2)
  by (auto simp: openFile_w_def)

text \<open>
  C38. Unlinking a file that is not in the table of open files, whose log has no other file, one block
  and a header page with at least two pages behind it, removes its stub file and makes the
  page \<open>k\<close> of its header the tail of the partially used free list; the map keeps the two virtual
  addresses of the file and its log, which are never handed out again. With no tail before,
  \<open>k\<close> becomes the head as well. Otherwise the head stays and the link to \<open>k\<close> is stored in the old
  tail page exactly if that is the next page of its block to be written: otherwise no
  page changes and \<open>k\<close> is the tail of a list that does not contain it.
\<close>

theorem xmp_unlink_closed_file:
  assumes "files_only w" "file_content w (full_path path) = Some (enc32 (int x))" "x < 254"
    "get_open (int x) s = Some NULL" "nand_ok nb (nand s)" "k < 16 * nb" "k mod 16 \<le> 13"
    "get_vaddr (int x) s = Some (int k)" "h = dec_log (contents (page_at (nand s) k))"
    "get_vaddr (logId h) s = Some (int k)" "fileCount h = 1" "first h = int (k div 16)"
    "partialTail (flists s) = int t" "t < 16 * nb"
  shows "\<exists>s' w'. xmp_unlink posix u path s w = Some (0, s', w')
     \<and> file_content w' = (file_content w)(full_path path := None) \<and> vaddrMap s' = vaddrMap s
     \<and> flists s' = (flists s)\<lparr>partialHead := (if t = 0 then int k else partialHead (flists s)), partialTail := int k\<rparr>
     \<and> page_at (nand s') = (if t \<noteq> 0 \<and> next_free (nand s) t then (page_at (nand s))(t := zero_page\<lparr>nextLogBlock := int k\<rparr>)
         else page_at (nand s))"
proof -
  let ?h = "h\<lparr>fileCount := 0, fileId := (fileId h)[0 := 0]\<rparr>" and ?p = "zero_page\<lparr>nextLogBlock := int k\<rparr>"
  let ?fl = "(flists s)\<lparr>partialHead := (if t = 0 then int k else partialHead (flists s)), partialTail := int k\<rparr>"
  let ?pages = "if t \<noteq> 0 \<and> next_free (nand s) t then (page_at (nand s))(t := ?p) else page_at (nand s)"
  have x: "is_int32 (int x)" using assms(3) by (simp add: is_int32_def)
  have k32: "is_int32 (int k)" using assms(5,6) by (simp add: nand_ok_def is_int32_def)
  then have p: "page_ok ?p" by (simp add: page_ok_def zero_page_def is_int32_def)
  have "\<exists>v'. logs_recycle u ?h (int k) (eraseCount (page_at (nand s) k)) (flists s, v) = Some (?fl, v') \<and> page_at v' = ?pages"
    if v: "nand_ok nb v" "file_bytes v = file_bytes (nand s)" for v
  proof -
    have a: "abs_nand v = abs_nand (nand s)" using v(2) by (rule abs_nand_cong)
    then have pg: "page_at v = page_at (nand s)" "next_free v t = next_free (nand s) t" by (simp_all add: page_at_cong [OF a] next_free_def)
    consider "t = 0" | "t \<noteq> 0" "next_free v t" | "t \<noteq> 0" "\<not> next_free v t" by blast
    then show ?thesis
    proof cases
      case 1
      then show ?thesis using logs_recycle_first [of "flists s" k ?h u] assms(7,12,13) pg by simp
    next
      case 2
      have "page_at (append_page u ?p t v) = (page_at v)(t := ?p)" using seq.get_put [OF v(1) assms(14) p 2(2), of u] by auto
      then show ?thesis
        using logs_recycle_link [OF v(1) assms(13) _ assms(14) 2(2) assms(7) _ k32, of ?h u] assms(12) 2 pg by simp
    next
      case 3
      then have "int (t mod 16) \<noteq> anext (abs_nand v (t div 16))" by (simp add: next_free_def)
      then obtain v' where w: "writeNAND u ?p (int t) False v = Some (-1, v')" "abs_nand v' = abs_nand v"
        using writeNAND_page [OF v(1) assms(14) p, of False u] by auto
      then have "page_at v' = page_at (nand s)" using a by (intro page_at_cong) simp
      then show ?thesis using w(1) 3 pg assms(7,12,13) by (simp add: logs_recycle_def)
    qed
  qed
  from posix_stub.xmp_unlink_closed [OF assms(1,2) x assms(4,5,6,8-11) this]
  show ?thesis by auto
qed

text \<open>A closed file: number 1, log 2, its header on page 33.\<close>

definition log_w :: logHeader where
  "log_w = log0\<lparr>logId := 2, fInode := inode0\<lparr>i_file_no := 1, i_log_no := 2\<rparr>\<rparr>"

definition page_w :: fullPage where
  "page_w = zero_page\<lparr>contents := patch 0 (enc_log log_w) (replicate 1024 0), pageType := PTYPE_INODE\<rparr>"

definition cyc_closed :: CYCstate where
  "cyc_closed = cyc_w\<lparr>nand := append_page (\<lambda>_. 7) page_w 33 nand_w,
     vaddrMap := formatted_map\<lparr>vmap := (vmap formatted_map)[1 := 33, 2 := 33]\<rparr>,
     flists := fl32\<lparr>partialHead := 0, partialTail := 0\<rparr>\<rparr>"

lemma log_w_ok: "log_ok log_w"
  by (simp add: log_ok_def log_w_def log0_def inode_ok_def inode0_def is_int32_def list_all_iff)

lemma page_w_ok: "page_ok page_w"
  using log.length_enc [OF log_w_ok] by (simp add: page_ok_def page_w_def zero_page_def is_int32_def length_patch)

lemma dec_page_w: "dec_log (contents page_w) = log_w"
  using log.dec_enc_app [OF log_w_ok] by (simp add: page_w_def patch_def)

lemma cyc_closed_facts:
  "nand_ok 3 (nand cyc_closed)" "page_at (nand cyc_closed) 33 = page_w" "\<not> next_free (nand cyc_closed) 33"
  "get_vaddr 1 cyc_closed = Some 33" "get_vaddr 2 cyc_closed = Some 33" "get_open 1 cyc_closed = Some NULL"
  "get_open 2 cyc_closed = Some NULL"
proof -
  note w = writeNAND_append [OF nand_w_facts(1) _ page_w_ok nand_w_facts(3), of "\<lambda>_. 7"]
  note f = nand_w_facts(3) [unfolded next_free_def]
  show "nand_ok 3 (nand cyc_closed)" using w(2) by (simp add: cyc_closed_def)
  show "page_at (nand cyc_closed) 33 = page_w"
    using seq.get_put [OF nand_w_facts(1) _ page_w_ok nand_w_facts(3), of "\<lambda>_. 7" 33] by (simp add: cyc_closed_def)
  show "\<not> next_free (nand cyc_closed) 33"
    using w(3) f by (simp add: cyc_closed_def next_free_def put_page_def)
  have "length (vmap formatted_map) = 254" by (simp add: formatted_map_def del: upt_rec_numeral)
  then show "get_vaddr 1 cyc_closed = Some 33" "get_vaddr 2 cyc_closed = Some 33" "get_open 1 cyc_closed = Some NULL"
    "get_open 2 cyc_closed = Some NULL"
    by (simp_all add: get_vaddr_def get_open_def cyc_closed_def cyc_w_def)
qed

theorem xmp_unlink_closed_file_witness:
  "(\<exists>s' w'. xmp_unlink posix (\<lambda>_. 7) ''/f'' cyc_closed host_f = Some (0, s', w')
      \<and> partialHead (flists s') = 33 \<and> vaddrMap s' = vaddrMap cyc_closed)
    \<and> (\<exists>s' w'. xmp_unlink posix (\<lambda>_. 7) ''/f'' (cyc_closed\<lparr>flists := fl32\<lparr>partialHead := 0, partialTail := 33\<rparr>\<rparr>) host_f = Some (0, s', w')
      \<and> partialHead (flists s') = 0 \<and> page_at (nand s') = page_at (nand cyc_closed))"
proof -
  let ?s = "cyc_closed\<lparr>flists := fl32\<lparr>partialHead := 0, partialTail := 33\<rparr>\<rparr>"
  have h: "log_w = dec_log (contents (page_at (nand cyc_closed) 33))" by (simp add: cyc_closed_facts(2) dec_page_w)
  have l: "fileCount log_w = 1" "first log_w = int (33 div 16)" "logId log_w = 2" by (simp_all add: log_w_def log0_def)
  have "partialTail (flists cyc_closed) = int 0" by (simp add: cyc_closed_def)
  then have "\<exists>s' w'. xmp_unlink posix (\<lambda>_. 7) ''/f'' cyc_closed host_f = Some (0, s', w')
     \<and> partialHead (flists s') = 33 \<and> vaddrMap s' = vaddrMap cyc_closed"
    using xmp_unlink_closed_file [of host_f "''/f''" 1 cyc_closed 3 33 log_w 0 "\<lambda>_. 7"] l h host_f_files cyc_closed_facts by auto
  moreover have "get_vaddr i ?s = get_vaddr i cyc_closed" "get_open i ?s = get_open i cyc_closed" for i
    by (simp_all add: get_vaddr_def get_open_def)
  then have "\<exists>s' w'. xmp_unlink posix (\<lambda>_. 7) ''/f'' ?s host_f = Some (0, s', w')
     \<and> partialHead (flists s') = 0 \<and> page_at (nand s') = page_at (nand cyc_closed)"
    using xmp_unlink_closed_file [of host_f "''/f''" 1 ?s 3 33 log_w 33 "\<lambda>_. 7"] l h host_f_files cyc_closed_facts by auto
  ultimately show ?thesis by blast
qed

text \<open>
  Unlinking passes the page that holds the log's header as the page to put on the free
  list, not the one after it. Once that page is the tail of the list, the link for the next
  block cannot be written (the page is not the next free one of its block): the next
  unlinked file's block becomes the tail without being reachable from the head.
\<close>

theorem xmp_unlink_loses_block:
  assumes "files_only w" "file_content w (full_path path) = Some (enc32 (int x))" "x < 254"
    "get_open (int x) s = Some NULL" "nand_ok nb (nand s)" "k < 16 * nb" "k mod 16 \<le> 13"
    "get_vaddr (int x) s = Some (int k)" "h = dec_log (contents (page_at (nand s) k))"
    "get_vaddr (logId h) s = Some (int k)" "fileCount h = 1" "first h = int (k div 16)"
    "partialTail (flists s) = int t" "0 < t" "t < 16 * nb" "\<not> next_free (nand s) t"
    "partial_chain nb (nand s) (partialHead (flists s)) xs"
  shows "\<exists>s' w'. xmp_unlink posix u path s w = Some (0, s', w') \<and> partialTail (flists s') = int k
     \<and> partial_chain nb (nand s') (partialHead (flists s')) xs"
proof -
  let ?h = "h\<lparr>fileCount := 0, fileId := (fileId h)[0 := 0]\<rparr>"
  let ?p = "zero_page\<lparr>nextLogBlock := int k\<rparr>"
  have x: "is_int32 (int x)" using assms(3) by (simp add: is_int32_def)
  have "is_int32 (int k)" using assms(5,6) by (simp add: nand_ok_def is_int32_def)
  then have p: "page_ok ?p" by (simp add: page_ok_def zero_page_def is_int32_def)
  have "\<exists>v'. logs_recycle u ?h (int k) (eraseCount (page_at (nand s) k)) (flists s, v)
      = Some ((flists s)\<lparr>partialTail := int k\<rparr>, v') \<and> abs_nand v' = abs_nand (nand s)"
    if v: "nand_ok nb v" "file_bytes v = file_bytes (nand s)" for v
  proof -
    have a: "abs_nand v = abs_nand (nand s)" using v(2) by (rule abs_nand_cong)
    then have "int (t mod 16) \<noteq> anext (abs_nand v (t div 16))" using assms(16) by (simp add: next_free_def)
    then obtain v' where "writeNAND u ?p (int t) False v = Some (-1, v')" "abs_nand v' = abs_nand v"
      using writeNAND_page [OF v(1) assms(15) p, of False u] by auto
    with a show ?thesis using assms(7,12-14) by (auto simp: logs_recycle_def)
  qed
  from posix_stub.xmp_unlink_closed [OF assms(1,2) x assms(4,5,6,8-11) this]
  obtain v' w' where u: "xmp_unlink posix u path s w
      = Some (0, s\<lparr>flists := (flists s)\<lparr>partialTail := int k\<rparr>, nand := v'\<rparr>, w')" "abs_nand v' = abs_nand (nand s)"
    by blast
  have "partial_chain nb v' (partialHead (flists s)) xs"
    using assms(17) partial_chain_cong [OF page_at_cong [OF u(2)]] by blast
  with u(1) show ?thesis by simp
qed

theorem xmp_unlink_loses_block_witness:
  "\<exists>s' w'. xmp_unlink posix (\<lambda>_. 7) ''/f'' (cyc_closed\<lparr>flists := fl32\<lparr>partialHead := 0, partialTail := 33\<rparr>\<rparr>) host_f
       = Some (0, s', w') \<and> partial_chain 3 (nand s') (partialHead (flists s')) []"
proof -
  let ?s = "cyc_closed\<lparr>flists := fl32\<lparr>partialHead := 0, partialTail := 33\<rparr>\<rparr>"
  have h: "log_w = dec_log (contents (page_at (nand cyc_closed) 33))" by (simp add: cyc_closed_facts(2) dec_page_w)
  have "fileCount log_w = 1" "first log_w = int (33 div 16)" "logId log_w = 2" by (simp_all add: log_w_def log0_def)
  moreover have "get_vaddr i ?s = get_vaddr i cyc_closed" "get_open i ?s = get_open i cyc_closed" for i
    by (simp_all add: get_vaddr_def get_open_def)
  ultimately show ?thesis
    using xmp_unlink_loses_block [of host_f "''/f''" 1 ?s 3 33 log_w 33 "[]" "\<lambda>_. 7"] h host_f_files cyc_closed_facts
    by auto
qed

text \<open>
  A file that is not open, as every file after a remount, cannot be opened: the code copies
  the inode of the new \<open>openFile\<close> from beyond a pointer variable.
\<close>

theorem xmp_open_closed_file:
  assumes "files_only w" "file_content w (full_path path) = Some (enc32 (int x))" "x < 254"
    "get_open (int x) s = Some NULL"
  shows "xmp_open posix u path flags s w = None"
proof -
  have x: "is_int32 (int x)" "int x \<noteq> -1" using assms(3) by (simp_all add: is_int32_def)
  obtain w' where w': "readStubFile posix u (full_path path) w = (int x, w')"
    using posix_stub.readStubFile_id [OF assms(1,2) x(1)] by blast
  have "inode_in (stack_bytes 8 u) = None" by (simp add: inode_in_def stack_bytes_def)
  then have "open_new u (int x) (s\<lparr>brk := brk s + 1\<rparr>) = None"
    by (simp add: open_new_def Let_def split_beta bind_eq_None_conv)
  moreover have "get_open i (s\<lparr>brk := brk s + 1\<rparr>) = get_open i s" for i by (simp add: get_open_def)
  ultimately show ?thesis using x(2) assms(4) by (simp add: xmp_open_def w' Let_def)
qed

theorem xmp_open_closed_file_witness:
  "xmp_open posix (\<lambda>_. 7) ''/f'' 0 cyc_closed host_f = None"
  using xmp_open_closed_file [of host_f "''/f''" 1 cyc_closed] host_f_files cyc_closed_facts by simp

text \<open>
  A read that lies within one page of the file and before its end returns the number of
  bytes asked for and delivers the file's bytes.
\<close>

theorem xmp_read_within_page:
  assumes "flag AND O_WRONLY = 0" "off + siz \<le> length file" "off mod 1024 + siz \<le> 1024" "off < 2 ^ 31"
    "\<And>n pos. pread n pos = Some (bslice (nat pos) n file)"
  shows "xmp_read pread u flag siz (int off) buf = Some (int siz, patch 0 (bslice off siz file) buf)"
proof -
  define pg where "pg = off div 1024 * 1024"
  define i where "i = off mod 1024"
  have off: "off = pg + i" by (simp add: pg_def i_def)
  have "is_int32 (int (off div 1024))" using assms(4) by (auto simp: is_int32_def zdiv_int)
  moreover have "int off sdiv 1024 = int (off div 1024)" "int off smod 1024 = int (off mod 1024)"
    by (simp_all add: sdiv_nonneg smod_nonneg zdiv_int zmod_int)
  ultimately have pn: "int32 (int off sdiv 1024) * 1024 = int pg" "nat (int off smod 1024) = i"
    by (simp_all only: int32_id nat_int pg_def i_def of_nat_mult of_nat_numeral)
  have "off div 1024 * 1024 \<le> off" by simp
  then have "pg < 2 ^ 31" using assms(4) unfolding pg_def by linarith
  then have pw: "int32 (int pg) = int pg" by (simp add: is_int32_def)
  let ?d = "bslice pg 1024 file"
  have i3: "i + siz \<le> 1024" "siz \<le> 1024 - i" using assms(3) by (simp_all add: i_def)
  have "pg + i + siz \<le> length file" using assms(2) off by simp
  with i3 have d: "i + siz \<le> length ?d" by (simp add: bslice_def)
  then have "bslice i siz (into_buffer ?d (stack_bytes 1024 u)) = bslice (pg + i) siz file"
    using i3 by (simp add: into_buffer_def bslice_append_left bslice_bslice)
  with d i3 show ?thesis
    using assms(1,5) by (simp add: xmp_read_def pn pw Let_def read_rest.simps flip: off)
qed

theorem xmp_read_within_page_witness:
  "xmp_read (\<lambda>n pos. Some (bslice (nat pos) n [1, 2, 3, 4])) (\<lambda>_. 7) 0 2 1 [0, 0, 0] = Some (2, [2, 3, 0])"
  using xmp_read_within_page [of 0 1 2 "[1, 2, 3, 4]" "\<lambda>n pos. Some (bslice (nat pos) n [1, 2, 3, 4])" "\<lambda>_. 7" "[0, 0, 0]"]
  by (simp add: bslice_def patch_def)

text \<open>
  A read that starts within a short file and ends behind its last byte still returns the
  number of bytes asked for, when that is at most the length of the file, and delivers
  uninitialised memory for the part behind the end.
\<close>

theorem xmp_read_past_end_leaks:
  assumes "flag AND O_WRONLY = 0" "length file < 1024" "siz \<le> length file" "off + siz \<le> 1024" "off \<le> length file"
    "\<And>n pos. pread n pos = Some (bslice (nat pos) n file)"
  shows "xmp_read pread u flag siz (int off) buf = Some (int siz,
     patch 0 (bslice off siz (file @ drop (length file) (stack_bytes 1024 u))) buf)"
proof -
  have pn: "int off smod 1024 = int off mod 1024" "int off sdiv 1024 = int off div 1024"
    by (simp_all add: sdiv_nonneg smod_nonneg)
  show ?thesis
  proof (cases "off = 1024")
    case True
    then show ?thesis using assms(2,5) by simp
  next
    case False
    then have "off < 1024" using assms(4) by simp
    then have "int off div 1024 = 0" "int off mod 1024 = int off" by simp_all
    moreover have "bslice 0 1024 file = file" using assms(2) by (simp add: bslice_def)
    ultimately show ?thesis
      using assms(1,3,4,6) by (simp add: xmp_read_def pn Let_def read_rest.simps into_buffer_def is_int32_def)
  qed
qed

theorem xmp_read_past_end_leaks_witness:
  "xmp_read (\<lambda>n pos. Some (bslice (nat pos) n [1, 2, 3, 4])) (\<lambda>_. 7) 0 3 3 [0, 0, 0] = Some (3, [4, 7, 7])"
  using xmp_read_past_end_leaks [of 0 "[1, 2, 3, 4]" 3 3 "\<lambda>n pos. Some (bslice (nat pos) n [1, 2, 3, 4])" "\<lambda>_. 7" "[0, 0, 0]"]
  by (simp add: bslice_def patch_def stack_bytes_def map_replicate_const numeral_2_eq_2 del: upt_rec_numeral)

end
