(* ===== verification/Sessions.thy ===== *)
theory Sessions
  imports File_Handlers
begin

text \<open>
  Sessions: a device is formatted by \<open>makefs\<close>, mounted, and then the handlers of
  \<open>passthroughBlocked_fh.c\<close> run in any order on files in one directory of a host that had
  none before. The steps are the handlers themselves; their guards are what the kernel
  guarantees of a request (a file is created under a new name, opened under an existing
  one, released through a handle that is open) and, for \<open>xmp_create\<close>, two conditions that
  the program does not check: two slots of the map and two blocks of the free list are left
  (without them it hands out slot 0 or a block it cannot write), and the memory \<open>malloc\<close>
  returns for the \<open>openFile\<close> does not hold 1 where \<open>modified\<close> is, which \<open>initOpenFile\<close>
  leaves as it is. A session goes on after a request that has a defined result; unlinking a
  file of the session has none.
\<close>

section \<open>Steps\<close>

definition room :: "nat \<Rightarrow> CYCstate \<Rightarrow> bool" where
  "room nb s \<longleftrightarrow> (\<exists>x y zs b b' bs. ready nb s (x # y # zs) (b # b' # bs))"

text \<open>An erased device, formatted and mounted, and a host without files.\<close>

definition mounted :: "nat \<Rightarrow> CYCstate \<Rightarrow> hostfs \<Rightarrow> bool" where
  "mounted nb s w \<longleftrightarrow> (\<exists>opened v0 v f u u' tbl v1.
     initNAND opened v0 = (features v, v) \<and> image_ok nb v \<and> 3 \<le> nb \<and> (\<forall>b < nb. next_free v (16 * b))
     \<and> nextLogBlock (page_at v (16 * (nb - 1))) = 0 \<and> makefs_main u 0 opened v0 = Some (0, Some f)
     \<and> length tbl = 254 \<and> xmp_init u' tbl (Some (f\<lparr>fpos := 0\<rparr>)) (cyc0 v1) = Some s
     \<and> files_only w \<and> (\<forall>path. file_content w (full_path path) = None))"

inductive session :: "nat \<Rightarrow> CYCstate \<Rightarrow> hostfs \<Rightarrow> bool" for nb where
  mount: "mounted nb s w \<Longrightarrow> session nb s w"
| create: "session nb s w \<Longrightarrow> file_content w (full_path path) = None \<Longrightarrow> room nb s \<Longrightarrow>
    modified (malloc_openFile u) \<noteq> 1 \<Longrightarrow> xmp_create posix u path mode flags s w = Some (r, fh, s', w') \<Longrightarrow> session nb s' w'"
| openf: "session nb s w \<Longrightarrow> file_content w (full_path path) \<noteq> None \<Longrightarrow>
    xmp_open posix u path flags s w = Some (r, fh, s', w') \<Longrightarrow> session nb s' w'"
| release: "session nb s w \<Longrightarrow> finfos s fh \<noteq> None \<Longrightarrow> xmp_release u fh s = Some (r, s') \<Longrightarrow> session nb s' w"
| unlink: "session nb s w \<Longrightarrow> xmp_unlink posix u path s w = Some (r, s', w') \<Longrightarrow> session nb s' w'"

section \<open>Invariant\<close>

definition handles :: "CYCstate \<Rightarrow> ptr \<Rightarrow> ptr set" where
  "handles s p = {fh. \<exists>fi. finfos s fh = Some fi \<and> lf_oFile fi = p}"

text \<open>File \<open>x\<close> has its header on page \<open>k\<close>.\<close>

definition header_at :: "nat \<Rightarrow> nat \<Rightarrow> CYCstate \<Rightarrow> bool" where
  "header_at x k s \<longleftrightarrow> get_vaddr (int x) s = Some (int k) \<and> pageType (page_at (nand s) k) = PTYPE_INODE
     \<and> fileId (dec_log (contents (page_at (nand s) k))) ! 0 = int x"

text \<open>File \<open>x\<close> is in the table of open files, as \<open>f\<close> at \<open>p\<close>, with all its handles counted.\<close>

definition counted :: "nat \<Rightarrow> ptr \<Rightarrow> openFile \<Rightarrow> CYCstate \<Rightarrow> bool" where
  "counted x p f s \<longleftrightarrow> get_open (int x) s = Some p \<and> p \<noteq> NULL \<and> p < brk s \<and> ofiles s p = Some f
     \<and> i_file_no (of_inode f) = int x \<and> modified f \<noteq> 1 \<and> currentOpens f = int (card (handles s p))"

text \<open>The blocks on the free list start at page 0, and all but the last have that page written.\<close>

definition usable :: "CYCstate \<Rightarrow> nat list \<Rightarrow> bool" where
  "usable s bs \<longleftrightarrow> is_int32 (partialHeadErases (flists s))
     \<and> (\<forall>b \<in> set bs. b mod 16 = 0 \<and> (b \<noteq> last bs \<longrightarrow> next_free (nand s) (b + 1)))"

text \<open>\<open>F\<close> gives the number of each file by its name in the host.\<close>

definition session_inv :: "nat \<Rightarrow> CYCstate \<Rightarrow> hostfs \<Rightarrow> nat list \<Rightarrow> nat list \<Rightarrow> (string \<rightharpoonup> nat) \<Rightarrow> bool" where
  "session_inv nb s w xs bs F \<longleftrightarrow> ready nb s xs bs \<and> usable s bs \<and> files_only w \<and> 0 < brk s
     \<and> (\<forall>path. file_content w (full_path path) = map_option (\<lambda>x. enc32 (int x)) (F (full_path path)))
     \<and> inj_on F (dom F)
     \<and> (\<forall>x \<in> ran F. x < 254 \<and> x \<notin> set xs \<and> (\<exists>k. header_at x k s \<and> k div 16 \<notin> (\<lambda>b. b div 16) ` set bs)
          \<and> (\<exists>p f. counted x p f s))
     \<and> (\<forall>fh fi. finfos s fh = Some fi \<longrightarrow> fh < brk s \<and> (\<exists>x \<in> ran F. get_open (int x) s = Some (lf_oFile fi)))"

lemma session_invD:
  assumes "session_inv nb s w xs bs F"
  shows "ready nb s xs bs" "usable s bs" "files_only w" "0 < brk s"
    "file_content w (full_path path) = map_option (\<lambda>x. enc32 (int x)) (F (full_path path))" "inj_on F (dom F)"
    "x \<in> ran F \<Longrightarrow> x < 254 \<and> x \<notin> set xs" "x \<in> ran F \<Longrightarrow> \<exists>k. header_at x k s \<and> k div 16 \<notin> (\<lambda>b. b div 16) ` set bs"
    "x \<in> ran F \<Longrightarrow> \<exists>p f. counted x p f s"
    "finfos s fh = Some fi \<Longrightarrow> fh < brk s" "finfos s fh = Some fi \<Longrightarrow> \<exists>x \<in> ran F. get_open (int x) s = Some (lf_oFile fi)"
proof -
  note d = assms [unfolded session_inv_def]
  show "ready nb s xs bs" "usable s bs" "files_only w" "0 < brk s" "inj_on F (dom F)"
    using d by simp_all
  show "file_content w (full_path path) = map_option (\<lambda>x. enc32 (int x)) (F (full_path path))"
    using d by (elim conjE) (erule spec)
  show "x < 254 \<and> x \<notin> set xs" "\<exists>k. header_at x k s \<and> k div 16 \<notin> (\<lambda>b. b div 16) ` set bs" "\<exists>p f. counted x p f s"
    if "x \<in> ran F"
    using d that by simp_all
  show "fh < brk s" "\<exists>x \<in> ran F. get_open (int x) s = Some (lf_oFile fi)" if "finfos s fh = Some fi"
    using d that by simp_all
qed

lemma finite_handles:
  assumes "session_inv nb s w xs bs F"
  shows "finite (handles s p)"
proof (rule finite_subset)
  show "handles s p \<subseteq> {..<brk s}" using session_invD(10) [OF assms] by (auto simp: handles_def)
qed simp

text \<open>The file a handle is of.\<close>

lemma handle_file:
  assumes inv: "session_inv nb s w xs bs F" and fh: "finfos s fh = Some fi"
  obtains x f where "x \<in> ran F" "counted x (lf_oFile fi) f s" "0 < card (handles s (lf_oFile fi))"
proof -
  obtain x where x: "x \<in> ran F" "get_open (int x) s = Some (lf_oFile fi)" using session_invD(11) [OF inv fh] by blast
  obtain p f where c: "counted x p f s" using session_invD(9) [OF inv x(1)] by blast
  then have "counted x (lf_oFile fi) f s" using x(2) by (simp add: counted_def)
  moreover have "fh \<in> handles s (lf_oFile fi)" using fh by (simp add: handles_def)
  then have "0 < card (handles s (lf_oFile fi))" using finite_handles [OF inv] by (auto simp: card_gt_0_iff)
  ultimately show ?thesis using that [OF x(1)] by simp
qed

text \<open>Different files have different \<open>openFile\<close>s.\<close>

lemma counted_inj: "counted x p f s \<Longrightarrow> counted x' p f' s \<Longrightarrow> x = x'"
  by (simp add: counted_def)

section \<open>Opening, releasing and unlinking\<close>

text \<open>Both change the count of one file and the handles; the rest of the state stays.\<close>

lemma recounted_inv:
  assumes inv: "session_inv nb s w xs bs F" and x: "x \<in> ran F" "counted x p f s"
    and new: "get_open (int x) s' = Some p" "ofiles s' = (ofiles s)(p := Some (f\<lparr>currentOpens := int (card (handles s' p))\<rparr>))"
    and same: "\<And>q. q \<noteq> p \<Longrightarrow> handles s' q = handles s q" "vaddrMap s' = vaddrMap s" "openFileTable s' = openFileTable s"
      "nand s' = nand s" "flists s' = flists s" "brk s \<le> brk s'"
    and hs: "\<And>fh fi. finfos s' fh = Some fi \<Longrightarrow> fh < brk s' \<and> (lf_oFile fi = p \<or> finfos s fh = Some fi)"
    and host: "files_only w'" "file_content w' = file_content w"
  shows "session_inv nb s' w' xs bs F"
proof -
  have go: "get_open i s' = get_open i s" "get_vaddr i s' = get_vaddr i s" for i
    by (simp_all add: get_open_def get_vaddr_def same)
  have ready: "ready nb s' xs bs" using session_invD(1) [OF inv] by (simp add: ready_def same)
  have us: "usable s' bs" using session_invD(2) [OF inv] by (simp add: usable_def same)
  have hd: "header_at z k s' = header_at z k s" for z k by (simp add: header_at_def go same)
  have cnt: "\<exists>q g. counted z q g s'" if z: "z \<in> ran F" for z
  proof (cases "z = x")
    case True
    then show ?thesis
      using x(2) new(2) go same(6)
      by (intro exI [of _ p] exI [of _ "f\<lparr>currentOpens := int (card (handles s' p))\<rparr>"]) (auto simp: counted_def)
  next
    case False
    obtain q g where q: "counted z q g s" using session_invD(9) [OF inv z] by blast
    then have "q \<noteq> p" using False x(2) counted_inj by blast
    then have "counted z q g s'" using q new(2) same(1,6) go by (simp add: counted_def)
    then show ?thesis by blast
  qed
  have fi: "\<exists>z \<in> ran F. get_open (int z) s' = Some (lf_oFile fi)" if "finfos s' fh = Some fi" for fh fi
    using hs [OF that] session_invD(11) [OF inv, of fh fi] x(1) new(1) go by metis
  show ?thesis
    unfolding session_inv_def host(2) hd
    using ready us host(1) same(6) session_invD(4-8) [OF inv] cnt fi hs by (auto intro: less_le_trans)
qed

lemma handles_drop: "handles (s\<lparr>ofiles := g, finfos := (finfos s)(fh := None)\<rparr>) p = handles s p - {fh}"
  by (auto simp: handles_def)

lemma release_step:
  assumes inv: "session_inv nb s w xs bs F" and fh: "finfos s fh = Some fi"
  shows "\<exists>s'. xmp_release u fh s = Some (0, s') \<and> session_inv nb s' w xs bs F"
proof -
  define p where "p = lf_oFile fi"
  obtain x f where x: "x \<in> ran F" "counted x p f s" "0 < card (handles s p)"
    using handle_file [OF inv fh] unfolding p_def by blast
  define s' where "s' = s\<lparr>ofiles := (ofiles s)(p := Some (f\<lparr>currentOpens := currentOpens f - 1\<rparr>)),
      finfos := (finfos s)(fh := None)\<rparr>"
  have f: "get_open (int x) s = Some p" "ofiles s p = Some f" "i_file_no (of_inode f) = int x" "modified f \<noteq> 1"
    "currentOpens f = int (card (handles s p))" using x(2) by (simp_all add: counted_def)
  have r: "xmp_release u fh s = Some (0, s')"
    using xmp_release_last [of s fh fi f u] xmp_release_shared [of s fh fi f p u] fh f
    by (cases "currentOpens f = 1") (simp_all add: s'_def p_def)
  have fin: "finite (handles s p)" by (rule finite_handles [OF inv])
  have "fh \<in> handles s p" using fh by (simp add: handles_def p_def)
  then have "currentOpens f - 1 = int (card (handles s' p))"
    using f(5) x(3) fin by (simp add: s'_def handles_drop of_nat_diff)
  then have "session_inv nb s' w xs bs F"
    using f(1) fh session_invD(3,10) [OF inv] unfolding s'_def
    by (intro recounted_inv [OF inv x(1,2)]) (auto simp: handles_drop get_open_def handles_def p_def split: if_splits)
  with r show ?thesis by blast
qed

lemma session_file:
  assumes inv: "session_inv nb s w xs bs F" and c: "file_content w (full_path path) \<noteq> None"
  obtains x p f where "F (full_path path) = Some x" "x \<in> ran F" "file_content w (full_path path) = Some (enc32 (int x))"
    "counted x p f s" "is_int32 (int x)" "int x \<noteq> -1"
proof -
  obtain x where x: "F (full_path path) = Some x" using c session_invD(5) [OF inv, of path] by auto
  then have r: "x \<in> ran F" by (rule ranI)
  then have "is_int32 (int x)" using session_invD(7) [OF inv, of x] by (simp add: is_int32_def)
  moreover obtain p f where "counted x p f s" using session_invD(9) [OF inv r] by blast
  moreover have "file_content w (full_path path) = Some (enc32 (int x))" using x session_invD(5) [OF inv, of path] by simp
  ultimately show ?thesis using that [OF x r] by simp
qed

lemma handles_add:
  "handles (s\<lparr>brk := b, ofiles := g, finfos := (finfos s)(fh := Some \<lparr>lf_flag = fl, lf_oFile = p\<rparr>)\<rparr>) q =
     (if q = p then insert fh (handles s q) else handles s q - {fh})"
  by (auto simp: handles_def)

lemma open_step:
  assumes inv: "session_inv nb s w xs bs F" and c: "file_content w (full_path path) \<noteq> None"
  shows "\<exists>fh s' w'. xmp_open posix u path flags s w = Some (0, fh, s', w') \<and> session_inv nb s' w' xs bs F"
proof -
  obtain x p f where x: "F (full_path path) = Some x" "x \<in> ran F" "file_content w (full_path path) = Some (enc32 (int x))"
    "counted x p f s" "is_int32 (int x)" "int x \<noteq> -1" using session_file [OF inv c] .
  have f: "get_open (int x) s = Some p" "p \<noteq> NULL" "ofiles s p = Some f" "currentOpens f = int (card (handles s p))"
    using x(4) by (simp_all add: counted_def)
  define s' where "s' = s\<lparr>brk := brk s + 1, ofiles := (ofiles s)(p := Some (f\<lparr>currentOpens := currentOpens f + 1\<rparr>)),
      finfos := (finfos s)(brk s := Some \<lparr>lf_flag = flags, lf_oFile = p\<rparr>)\<rparr>"
  obtain w' where w': "xmp_open posix u path flags s w = Some (0, brk s, s', w')" "files_only w'" "file_content w' = file_content w"
    using posix_stub.xmp_open_open [OF session_invD(3) [OF inv] x(3,5,6) f(1-3), of u flags] unfolding s'_def by blast
  have fresh: "finfos s (brk s) = None" using session_invD(10) [OF inv, of "brk s"] by (cases "finfos s (brk s)") auto
  then have old: "brk s \<notin> handles s q" for q by (simp add: handles_def)
  then have "currentOpens f + 1 = int (card (handles s' p))"
    using f(4) finite_handles [OF inv] by (simp add: s'_def handles_add)
  then have "session_inv nb s' w' xs bs F"
    using f(1) w'(2,3) session_invD(10) [OF inv] old unfolding s'_def
    by (intro recounted_inv [OF inv x(2,4)]) (auto simp: handles_add get_open_def less_Suc_eq split: if_splits)
  with w'(1) show ?thesis by blast
qed

text \<open>Unlinking: a file of the session has no defined result, any other name is refused.\<close>

lemma unlink_session_file:
  assumes inv: "session_inv nb s w xs bs F" and c: "file_content w (full_path path) \<noteq> None"
  shows "xmp_unlink posix u path s w = None"
proof -
  obtain x p f where x: "F (full_path path) = Some x" "x \<in> ran F" "file_content w (full_path path) = Some (enc32 (int x))"
    "counted x p f s" "is_int32 (int x)" "int x \<noteq> -1" using session_file [OF inv c] .
  have "get_open (int x) s = Some p" "p \<noteq> NULL" using x(4) by (simp_all add: counted_def)
  then show ?thesis using posix_stub.xmp_unlink_open [OF session_invD(3) [OF inv] x(3,5)] by blast
qed

lemma unlink_other_name:
  assumes "files_only w" "file_content w (full_path path) = None"
  shows "xmp_unlink posix u path s w = Some (- ENOENT, s, w)"
  using file_content_files_only [OF assms] by (simp add: xmp_unlink_def Let_def on_name_def err_res_def)

lemma unlink_step:
  assumes inv: "session_inv nb s w xs bs F" and d: "xmp_unlink posix u path s w = Some (r, s', w')"
  shows "s' = s \<and> w' = w"
proof (cases "file_content w (full_path path)")
  case None
  then show ?thesis using unlink_other_name [OF session_invD(3) [OF inv] None] d by simp
next
  case (Some c)
  then show ?thesis using unlink_session_file [OF inv, of path u] d by simp
qed

section \<open>Creating\<close>

definition after_create :: "stack \<Rightarrow> nat \<Rightarrow> nat \<Rightarrow> nat \<Rightarrow> 32 word \<Rightarrow> int \<Rightarrow> vnand \<Rightarrow> activeLog \<Rightarrow> fullPage \<Rightarrow> CYCstate \<Rightarrow> CYCstate" where
  "after_create u x y b mode flags v al pg s =
     (let S = create_state u x y b mode flags v s
      in S\<lparr>flists := flists S, alogs := (alogs S)(brk s := Some al), nand := append_page u pg (b + 1) v\<rparr>)"

context stub_host
begin

lemma xmp_create_exact:
  assumes rdy: "ready nb s (x # y # zs) (b # bs)"
    and fits: "b mod 16 \<le> 11" "next_free (nand s) (b + 1)" "b + 1 < 16 * nb"
    and er: "is_int32 (partialHeadErases (flists s))"
    and host: "good w" "content w (full_path path) = None"
  obtains v al pg w' where
    "xmp_create sys u path mode flags s w = Some (0, Suc (Suc (brk s)), after_create u x y b mode flags v al pg s, w')"
    "nand_ok nb v" "file_bytes v = file_bytes (nand s)" "page_ok pg" "pageType pg = PTYPE_INODE"
    "dec_log (contents pg) = (create_header u x y b mode (partialHeadErases (flists s)))\<lparr>active := 1\<rparr>"
    "good w'" "content w' = (content w)(full_path path \<mapsto> enc32 (int x))"
proof -
  from xmp_create_steps [OF rdy host, of u mode flags] obtain v w' where
    c: "xmp_create sys u path mode flags s w =
      put_header u (\<lambda>p. p\<lparr>pageType := PTYPE_INODE\<rparr>) (brk s) (create_state u x y b mode flags v s)
        \<bind> (\<lambda>s'. Some (0, Suc (Suc (brk s)), s', w'))"
    and v: "nand_ok nb v" "file_bytes v = file_bytes (nand s)"
    and w: "good w'" "content w' = (content w)(full_path path \<mapsto> enc32 (int x))"
    by (elim exE conjE) (rule that)
  from create_put_header [OF rdy fits er v, of u mode flags] obtain al pg where
    put: "put_header u (\<lambda>p. p\<lparr>pageType := PTYPE_INODE\<rparr>) (brk s) (create_state u x y b mode flags v s) =
      Some ((create_state u x y b mode flags v s)\<lparr>flists := flists (create_state u x y b mode flags v s),
        alogs := (alogs (create_state u x y b mode flags v s))(brk s := Some al), nand := append_page u pg (b + 1) v\<rparr>)"
    and pg: "page_ok pg" "pageType pg = PTYPE_INODE"
      "dec_log (contents pg) = (create_header u x y b mode (partialHeadErases (flists s)))\<lparr>active := 1\<rparr>"
    by (elim exE conjE) (rule that)
  show ?thesis
    by (rule that [OF _ v pg w]) (simp add: c put after_create_def Let_def)
qed

end

text \<open>What creating a file changes.\<close>

lemma after_create_fields [simp]:
  "finfos (after_create u x y b mode flags v al pg s) =
     (finfos s)(Suc (Suc (brk s)) := Some \<lparr>lf_flag = flags, lf_oFile = Suc (brk s)\<rparr>)"
  "brk (after_create u x y b mode flags v al pg s) = Suc (Suc (Suc (brk s)))"
  "nand (after_create u x y b mode flags v al pg s) = append_page u pg (b + 1) v"
  "ofiles (after_create u x y b mode flags v al pg s) = (ofiles s)(Suc (brk s) := Some (initOpenFile (malloc_openFile u)
     (brk s) (fInode (create_header u x y b mode (partialHeadErases (flists s)))) (int x)))"
  "openFileTable (after_create u x y b mode flags v al pg s) = (openFileTable s)[y := brk s, x := Suc (brk s)]"
  "vmap (vaddrMap (after_create u x y b mode flags v al pg s)) = (vmap (vaddrMap s))[y := int b + 1, x := int b + 1]"
  "partialHeadErases (flists (after_create u x y b mode flags v al pg s)) = nextBlockErases (page_at (nand s) b)"
  by (simp_all add: after_create_def create_state_def Let_def)

lemma after_create_handles:
  assumes inv: "session_inv nb s w xs bs F"
  shows "handles (after_create u x y b mode flags v al pg s) q =
    (if q = Suc (brk s) then {Suc (Suc (brk s))} else handles s q)"
proof -
  have p: "lf_oFile fi < brk s" if fi: "finfos s fh = Some fi" for fh fi
  proof -
    obtain z f where "counted z (lf_oFile fi) f s" using handle_file [OF inv fi] .
    then show ?thesis by (simp add: counted_def)
  qed
  have none: "finfos s (Suc (Suc (brk s))) = None"
    using session_invD(10) [OF inv, of "Suc (Suc (brk s))"] by (cases "finfos s (Suc (Suc (brk s)))") auto
  have "handles s (Suc (brk s)) = {}" using p by (force simp: handles_def)
  moreover have "Suc (Suc (brk s)) \<notin> handles s q" using none by (simp add: handles_def)
  moreover have "handles (after_create u x y b mode flags v al pg s) q =
     (if q = Suc (brk s) then insert (Suc (Suc (brk s))) (handles s q) else handles s q - {Suc (Suc (brk s))})"
    by (auto simp: handles_def)
  ultimately show ?thesis by simp
qed

lemma block_start:
  fixes b :: nat
  assumes "b mod 16 = 0"
  shows "(b + 1) div 16 = b div 16" "(b + 1) mod 16 = 1"
proof -
  obtain m where "b = 16 * m" using assms by (metis mod_0_imp_dvd dvdE)
  then show "(b + 1) div 16 = b div 16" "(b + 1) mod 16 = 1" by simp_all
qed

text \<open>The first free block of a session with another one behind it.\<close>

lemma first_block:
  assumes "session_inv nb s w xs (b # b' # bs) F"
  shows "b mod 16 = 0" "next_free (nand s) (b + 1)" "b + 1 < 16 * nb"
    "c \<in> set (b' # bs) \<Longrightarrow> c mod 16 = 0 \<and> (c + 1) div 16 \<noteq> (b + 1) div 16 \<and> c div 16 \<noteq> b div 16"
proof -
  have us: "usable s (b # b' # bs)" using session_invD(2) [OF assms] .
  have chain: "partial_chain nb (nand s) (partialHead (flists s)) (b # b' # bs)"
    using ready_facts(5) [OF session_invD(1) [OF assms]] .
  then have d: "distinct (b # b' # bs)" by (rule partial_chain_distinct)
  then have "b \<noteq> last (b # b' # bs)" by auto
  with us show b: "b mod 16 = 0" "next_free (nand s) (b + 1)" by (auto simp: usable_def)
  have "b < 16 * nb" using chain by simp
  with b(1) show "b + 1 < 16 * nb" by presburger
  show "c mod 16 = 0 \<and> (c + 1) div 16 \<noteq> (b + 1) div 16 \<and> c div 16 \<noteq> b div 16" if c: "c \<in> set (b' # bs)"
  proof -
    have "c mod 16 = 0" using us c unfolding usable_def by (meson list.set_intros(2))
    then obtain n where n: "c = 16 * n" by (metis mod_0_imp_dvd dvdE)
    obtain m where m: "b = 16 * m" using b(1) by (metis mod_0_imp_dvd dvdE)
    have "c \<noteq> b" using d c by auto
    then show ?thesis using m n by simp
  qed
qed

lemma create_step:
  assumes inv: "session_inv nb s w (x # y # zs) (b # b' # bs) F" and new: "file_content w (full_path path) = None"
    and u: "modified (malloc_openFile u) \<noteq> 1"
  shows "\<exists>fh s' w'. xmp_create posix u path mode flags s w = Some (0, fh, s', w')
    \<and> session_inv nb s' w' zs (b' # bs) (F(full_path path \<mapsto> x)) \<and> finfos s' fh \<noteq> None"
proof -
  note rdy = session_invD(1) [OF inv] and r = ready_facts [OF session_invD(1) [OF inv]] and blk = first_block [OF inv]
  have xy: "x < 254" "y < 254" "x \<noteq> y" "x \<notin> set zs" "y \<notin> set zs"
    using slot_chain_in_map [OF r(4)] slot_chain_distinct [OF r(4)] r(3) by auto
  have er: "is_int32 (partialHeadErases (flists s))" using session_invD(2) [OF inv] by (simp add: usable_def)
  have "b mod 16 \<le> 11" using blk(1) by simp
  from posix_stub.xmp_create_exact [OF rdy this blk(2,3) er session_invD(3) [OF inv] new, of u mode flags]
  obtain v al pg w' where
    c: "xmp_create posix u path mode flags s w = Some (0, Suc (Suc (brk s)), after_create u x y b mode flags v al pg s, w')"
    and v: "nand_ok nb v" "file_bytes v = file_bytes (nand s)" and pg: "page_ok pg" "pageType pg = PTYPE_INODE"
    "dec_log (contents pg) = (create_header u x y b mode (partialHeadErases (flists s)))\<lparr>active := 1\<rparr>"
    and w': "files_only w'" "file_content w' = (file_content w)(full_path path \<mapsto> enc32 (int x))" .
  let ?s = "after_create u x y b mode flags v al pg s"
  have nf: "next_free v j = next_free (nand s) j" for j using abs_nand_cong [OF v(2)] by (simp add: next_free_def)
  have pv: "page_at v = page_at (nand s)" using v(2) by (intro page_at_cong abs_nand_cong)
  have nfb: "next_free v (b + 1)" using blk(2) nf by simp
  note app = seq.get_put [OF v(1) blk(3) pg(1) nfb, where u = u] seq.fits_put [OF v(1) blk(3) pg(1) nfb, where u = u]
  have bb: "b + 1 \<notin> set (b' # bs)"
  proof
    assume "b + 1 \<in> set (b' # bs)"
    then have "(b + 1) mod 16 = 0" using blk(4) by blast
    with block_start(2) [OF blk(1)] show False by simp
  qed
  have ready: "ready nb ?s zs (b' # bs)"
    unfolding after_create_def Let_def by (rule ready_after_create [OF rdy pg(1) blk(2) bb blk(3) v])
  have "b < 16 * nb" using blk(3) by simp
  then have "page_ok (page_at (nand s) b)" by (rule page_ok_page_at [OF r(1)])
  then have us: "usable ?s (b' # bs)"
    using session_invD(2) [OF inv] blk(4) app(2) nf by (auto simp: usable_def page_ok_def)
  have Fp: "F (full_path path) = None" using new session_invD(5) [OF inv, of path] by simp
  have xF: "x \<notin> ran F" using session_invD(7) [OF inv, of x] by auto
  have ran: "ran (F(full_path path \<mapsto> x)) = insert x (ran F)" using Fp by (rule ran_map_upd)
  have files: "file_content w' (full_path q) = map_option (\<lambda>x. enc32 (int x)) ((F(full_path path \<mapsto> x)) (full_path q))" for q
    using session_invD(5) [OF inv, of q] w'(2) by simp
  have inj: "inj_on (F(full_path path \<mapsto> x)) (dom (F(full_path path \<mapsto> x)))"
    using session_invD(6) [OF inv] xF by (auto simp: inj_on_def ran_def)
  have p1: "page_at (nand ?s) (b + 1) = pg" using app(1) by simp
  have len8: "length (fileId (log_hdr (malloc_activeLog u))) = 8" using log_ok_malloc by (simp add: log_ok_def)
  have newh: "header_at x (b + 1) ?s"
    unfolding header_at_def p1 using pg(2,3) xy r(3) len8
    by (simp add: get_vaddr_def create_header_def new_header_def Let_def add.commute)
  define f where "f = initOpenFile (malloc_openFile u) (brk s) (fInode (create_header u x y b mode (partialHeadErases (flists s)))) (int x)"
  have f: "i_file_no (of_inode f) = int x" "modified f \<noteq> 1" "currentOpens f = 1"
    using u by (simp_all add: f_def initOpenFile_def create_header_def new_header_def initInode_def Let_def)
  have newc: "counted x (Suc (brk s)) f ?s"
    unfolding counted_def using f xy r(2) by (simp add: get_open_def after_create_handles [OF inv] flip: f_def)
  have newb: "(b + 1) div 16 \<notin> (\<lambda>b. b div 16) ` set (b' # bs)"
  proof -
    have "(b + 1) div 16 = b div 16" using blk(1) by (rule block_start)
    moreover have "b div 16 \<noteq> c div 16" if "c \<in> set (b' # bs)" for c using blk(4) [OF that] by simp
    ultimately show ?thesis unfolding image_iff by (intro notI) (elim bexE, simp)
  qed
  have old: "z < 254 \<and> z \<notin> set zs \<and> (\<exists>k. header_at z k ?s \<and> k div 16 \<notin> (\<lambda>b. b div 16) ` set (b' # bs))
      \<and> (\<exists>p f. counted z p f ?s)" if z: "z \<in> ran F" for z
  proof -
    note zi = session_invD(7) [OF inv z]
    obtain k where k: "header_at z k s" "k div 16 \<notin> (\<lambda>b. b div 16) ` set (b # b' # bs)"
      using session_invD(8) [OF inv z] by blast
    have "k \<noteq> b + 1" using k(2) block_start(1) [OF blk(1)] by auto
    then have "header_at z k ?s" using k(1) zi r(3) app(1) [of k] pv by (simp add: header_at_def get_vaddr_def)
    moreover obtain p f where "counted z p f s" using session_invD(9) [OF inv z] by blast
    then have "counted z p f ?s" using zi r(2) after_create_handles [OF inv]
      by (auto simp: counted_def get_open_def)
    ultimately show ?thesis using k(2) zi by auto
  qed
  have fi: "fh < brk ?s \<and> (\<exists>z \<in> insert x (ran F). get_open (int z) ?s = Some (lf_oFile fi))" if "finfos ?s fh = Some fi" for fh fi
  proof (cases "fh = Suc (Suc (brk s))")
    case True
    then show ?thesis using that xy r(2) by (auto simp: get_open_def)
  next
    case False
    then have o: "finfos s fh = Some fi" using that by simp
    obtain z where z: "z \<in> ran F" "get_open (int z) s = Some (lf_oFile fi)" using session_invD(11) [OF inv o] by blast
    then have "get_open (int z) ?s = Some (lf_oFile fi)"
      using session_invD(7) [OF inv z(1)] r(2) by (simp add: get_open_def)
    then show ?thesis using z(1) session_invD(10) [OF inv o] by auto
  qed
  have "session_inv nb ?s w' zs (b' # bs) (F(full_path path \<mapsto> x))"
    unfolding session_inv_def ran
    using ready us w'(1) files inj xy newh newc newb old fi by (intro conjI ballI allI impI) auto
  moreover have "finfos ?s (Suc (Suc (brk s))) \<noteq> None" by simp
  ultimately show ?thesis using c by blast
qed

lemma roomI: "session_inv nb s w (x # y # zs) (b # b' # bs) F \<Longrightarrow> room nb s"
  unfolding room_def by (drule session_invD(1)) blast

section \<open>The start of a session\<close>

text \<open>The free slots and blocks after mounting.\<close>

definition all_slots :: "nat list" where "all_slots = [1..<254]"

definition all_blocks :: "nat \<Rightarrow> nat list" where "all_blocks nb = map ((*) 16) [2..<nb]"

lemma mount_inv:
  assumes "mounted nb s w"
  shows "session_inv nb s w all_slots (all_blocks nb) (\<lambda>_. None)"
proof -
  from assms obtain opened v0 v f u u' tbl v1 where
    m: "initNAND opened v0 = (features v, v)" "image_ok nb v" "3 \<le> nb" "\<forall>b < nb. next_free v (16 * b)"
    "nextLogBlock (page_at v (16 * (nb - 1))) = 0" "makefs_main u 0 opened v0 = Some (0, Some f)" "length tbl = 254"
    "xmp_init u' tbl (Some (f\<lparr>fpos := 0\<rparr>)) (cyc0 v1) = Some s" and w: "files_only w" "\<forall>path. file_content w (full_path path) = None"
    unfolding mounted_def by (elim exE conjE) (rule that)
  from makefs_formats [OF m(1,2) refl m(3) m(4) [rule_format] m(5), of u] obtain d where
    d: "makefs_main u 0 opened v0 = Some (0, vfd d)" "formatted nb d" "\<forall>b < nb - 1. next_free d (16 * b + 1)" by blast
  have "vfd d = Some f" using d(1) m(6) by simp
  from mount_reads [OF d(2) m(3) this, of u' tbl v1] m(8) have
    s: "vaddrMap s = formatted_map" "flists s = freeLists (format_super nb)" "openFileTable s = clear_table tbl"
    "brk s = 1" "finfos s = (\<lambda>_. None)" "nand_ok nb (nand s)" "abs_nand (nand s) = abs_nand d" by auto
  have "length (vmap formatted_map) = 254" by (simp add: formatted_map_def del: upt_rec_numeral)
  moreover have "partial_chain nb (nand s) (partialHead (flists s)) (all_blocks nb)"
    using d(2) partial_chain_cong [OF page_at_cong [OF s(7)]]
    by (simp add: formatted_def s(2) format_super_def all_blocks_def del: partial_chain.simps)
  moreover have "length (openFileTable s) = 254" using m(7) by (simp add: s(3) clear_table_def)
  ultimately have "ready nb s all_slots (all_blocks nb)"
    using s slot_chain_formatted by (simp add: ready_def all_slots_def del: slot_chain.simps partial_chain.simps upt_rec_numeral)
  moreover have "usable s (all_blocks nb)"
  proof -
    have l: "last (all_blocks nb) = 16 * (nb - 1)" using m(3) by (simp add: all_blocks_def last_map)
    have "next_free (nand s) (16 * b + 1)" if "b < nb - 1" for b
      using d(3) that by (simp add: next_free_def s(7))
    then have "next_free (nand s) (16 * b + 1)" if "b < nb" "16 * b \<noteq> last (all_blocks nb)" for b
      using that unfolding l by (cases "b = nb - 1") simp_all
    then show ?thesis by (auto simp: usable_def s(2) format_super_def zero_super_def is_int32_def all_blocks_def)
  qed
  ultimately show ?thesis using w s by (simp add: session_inv_def)
qed

lemma room_lists:
  assumes "session_inv nb s w xs bs F" "room nb s"
  obtains x y zs b b' cs where "xs = x # y # zs" "bs = b # b' # cs"
proof -
  from assms(2) obtain x y zs b b' cs where r: "ready nb s (x # y # zs) (b # b' # cs)" by (auto simp: room_def)
  note r1 = ready_facts [OF session_invD(1) [OF assms(1)]] and r2 = ready_facts [OF r]
  have "xs = x # y # zs" by (rule slot_chain_unique [OF r1(4) r2(4)])
  moreover have "bs = b # b' # cs" by (rule partial_chain_unique [OF r1(5) r2(5)])
  ultimately show ?thesis by (rule that)
qed

lemma session_has_inv: "session nb s w \<Longrightarrow> \<exists>xs bs F. session_inv nb s w xs bs F"
proof (induction rule: session.induct)
  case (mount s w)
  then show ?case using mount_inv by blast
next
  case (create s w path u mode flags r fh s' w')
  then obtain xs bs F where inv: "session_inv nb s w xs bs F" by blast
  from room_lists [OF inv create.hyps(3)] obtain x y zs b b' cs where "xs = x # y # zs" "bs = b # b' # cs" .
  with create_step [of nb s w x y zs b b' cs F path u mode flags] inv create.hyps show ?case by fastforce
next
  case (openf s w path u flags r fh s' w')
  then obtain xs bs F where inv: "session_inv nb s w xs bs F" by blast
  from open_step [OF inv openf.hyps(2), of u flags] openf.hyps(3) show ?case by fastforce
next
  case (release s w fh u r s')
  then obtain xs bs F where inv: "session_inv nb s w xs bs F" by blast
  from release.hyps(2) obtain fi where "finfos s fh = Some fi" by blast
  from release_step [OF inv this, of u] release.hyps(3) show ?case by fastforce
next
  case (unlink s w path u r s' w')
  then obtain xs bs F where inv: "session_inv nb s w xs bs F" by blast
  with unlink_step [OF inv unlink.hyps(2)] show ?case by blast
qed

section \<open>Creating many files\<close>

fun create_files :: "stack \<Rightarrow> 32 word \<Rightarrow> int \<Rightarrow> string list \<Rightarrow> CYCstate \<Rightarrow> hostfs \<Rightarrow> (int list \<times> CYCstate \<times> hostfs) option" where
  "create_files u mode flags [] s w = Some ([], s, w)"
| "create_files u mode flags (path # paths) s w = do {
     (r, fh, s, w) \<leftarrow> xmp_create posix u path mode flags s w;
     (rs, s, w) \<leftarrow> create_files u mode flags paths s w;
     Some (r # rs, s, w) }"

lemma create_files_inv:
  assumes "session_inv nb s w xs bs F" "2 * length paths \<le> length xs" "length paths < length bs"
    "distinct (map full_path paths)" "\<forall>p \<in> set paths. file_content w (full_path p) = None"
    and u: "modified (malloc_openFile u) \<noteq> 1"
  shows "\<exists>s' w' F'. create_files u mode flags paths s w = Some (replicate (length paths) 0, s', w')
    \<and> session_inv nb s' w' (drop (2 * length paths) xs) (drop (length paths) bs) F'
    \<and> (\<forall>i < length paths. F' (full_path (paths ! i)) = Some (xs ! (2 * i)))
    \<and> (\<forall>q. q \<notin> full_path ` set paths \<longrightarrow> F' q = F q)"
  using assms(1-5)
proof (induction paths arbitrary: s w xs bs F)
  case Nil
  then show ?case by auto
next
  case (Cons path paths)
  obtain x y zs where xs: "xs = x # y # zs" using Cons.prems(2) by (cases xs rule: remdups_adj.cases) auto
  obtain b b' cs where bs: "bs = b # b' # cs" using Cons.prems(3) by (cases bs rule: remdups_adj.cases) auto
  have "file_content w (full_path path) = None" using Cons.prems(5) by simp
  from create_step [OF Cons.prems(1) [unfolded xs bs] this u, of mode flags] obtain fh s1 w1 where
    c: "xmp_create posix u path mode flags s w = Some (0, fh, s1, w1)"
    and inv1: "session_inv nb s1 w1 zs (b' # cs) (F(full_path path \<mapsto> x))" by blast
  have new: "file_content w1 (full_path p) = None" if p: "p \<in> set paths" for p
  proof -
    have "full_path p \<in> full_path ` set paths" using p by (rule imageI)
    moreover have "full_path path \<notin> full_path ` set paths" using Cons.prems(4) by simp
    ultimately have "full_path p \<noteq> full_path path" by metis
    moreover have "file_content w (full_path p) = None" using p Cons.prems(5) by simp
    ultimately show ?thesis using session_invD(5) [OF inv1, of p] session_invD(5) [OF Cons.prems(1), of p] by simp
  qed
  have len: "2 * length paths \<le> length zs" "length paths < length (b' # cs)" "distinct (map full_path paths)"
    using Cons.prems(2-4) by (simp_all add: xs bs)
  from Cons.IH [OF inv1 len] new obtain s' w' F' where
    r: "create_files u mode flags paths s1 w1 = Some (replicate (length paths) 0, s', w')"
    "session_inv nb s' w' (drop (2 * length paths) zs) (drop (length paths) (b' # cs)) F'"
    "\<forall>i < length paths. F' (full_path (paths ! i)) = Some (zs ! (2 * i))"
    "\<forall>q. q \<notin> full_path ` set paths \<longrightarrow> F' q = (F(full_path path \<mapsto> x)) q" by blast
  have "full_path path \<notin> full_path ` set paths" using Cons.prems(4) by simp
  then have fst: "F' (full_path path) = Some x" using r(4) by simp
  have "F' (full_path ((path # paths) ! i)) = Some (xs ! (2 * i))" if "i < length (path # paths)" for i
    using that r(3) fst by (cases i) (simp_all add: xs)
  moreover have "F' q = F q" if "q \<notin> full_path ` set (path # paths)" for q
    using that r(4) by auto
  moreover have "create_files u mode flags (path # paths) s w = Some (replicate (length (path # paths)) 0, s', w')"
    using c r(1) by simp
  moreover have "session_inv nb s' w' (drop (2 * length (path # paths)) xs) (drop (length (path # paths)) bs) F'"
    using r(2) by (simp add: xs bs)
  ultimately show ?case by blast
qed

section \<open>What sessions guarantee\<close>

text \<open>A device of \<open>n\<close> blocks, formatted and mounted.\<close>

lemma mounted_exists:
  assumes "3 \<le> n" "n \<le> 128009"
  shows "\<exists>s. mounted n s host_w"
proof -
  let ?v = "fresh_nand n vnand0"
  have img: "image_ok n ?v" using assms(2) by (rule image_ok_fresh)
  obtain f where f: "vfd ?v = Some f" using image_ok_file [OF img] by blast
  have "fpos f = 8" using f assms(2) by (auto simp: fresh_nand_eq Let_def)
  then have "?v\<lparr>vfd := Some (f\<lparr>fpos := 8\<rparr>)\<rparr> = ?v" using f by (cases ?v, cases f) simp
  with reattach(1) [OF img f, of vnand0] obtain opened where i: "initNAND opened vnand0 = (features ?v, ?v)" by metis
  have er: "abs_nand ?v b = erased_block 0" if "b < n" for b using that assms(2) by (rule fresh_nand_ok(2) [rotated])
  then have nf: "next_free ?v (16 * b)" if "b < n" for b using that by (simp add: next_free_def erased_block_def)
  have "page_at ?v (16 * (n - 1)) = zero_page" using er [of "n - 1"] assms(1) by (simp add: page_at_def erased_block_def)
  then have last: "nextLogBlock (page_at ?v (16 * (n - 1))) = 0" by (simp add: zero_page_def)
  from makefs_formats [OF i img refl assms(1) nf last, of "\<lambda>_. 7"] obtain d where
    d: "makefs_main (\<lambda>_. 7) 0 opened vnand0 = Some (0, vfd d)" "formatted n d" by blast
  then obtain g where g: "vfd d = Some g" using image_ok_file by (auto simp: formatted_def)
  from mount_reads [OF d(2) assms(1) g, of "\<lambda>_. 7" "replicate 254 0" vnand0] obtain s where
    s: "xmp_init (\<lambda>_. 7) (replicate 254 0) (Some (g\<lparr>fpos := 0\<rparr>)) (cyc0 vnand0) = Some s" by blast
  have "mounted n s host_w"
    unfolding mounted_def
    by (rule exI [of _ opened], rule exI [of _ vnand0], rule exI [of _ ?v], rule exI [of _ g], rule exI [of _ "\<lambda>_. 7"],
        rule exI [of _ "\<lambda>_. 7"], rule exI [of _ "replicate 254 0"], rule exI [of _ vnand0])
      (use i img assms(1) nf last d(1) g s host_w_files in auto)
  then show ?thesis ..
qed

text \<open>One file in a session on a device of four blocks.\<close>

lemma session_with_file:
  "\<exists>s w fh fi. session 4 s w \<and> file_content w (full_path ''/f'') = Some (enc32 1) \<and> finfos s fh = Some fi"
proof -
  obtain s where m: "mounted 4 s host_w" using mounted_exists [of 4] by auto
  have sl: "all_slots = 1 # 2 # [3..<254]"
    unfolding all_slots_def by (subst upt_conv_Cons, simp, subst upt_conv_Cons, simp, simp only: One_nat_def numeral_2_eq_2 numeral_3_eq_3)
  have bl: "all_blocks 4 = 32 # 48 # []" by (simp add: all_blocks_def upt_rec)
  note inv = mount_inv [OF m, unfolded sl bl]
  have u: "modified (malloc_openFile (\<lambda>_. 7)) \<noteq> 1" by code_simp
  from create_step [OF inv host_w_files(2) u, of "''/f''" 0 2] obtain fh s' w' where
    c: "xmp_create posix (\<lambda>_. 7) ''/f'' 0 2 s host_w = Some (0, fh, s', w')"
    and inv': "session_inv 4 s' w' [3..<254] [48] [full_path ''/f'' \<mapsto> 1]" and fh: "finfos s' fh \<noteq> None" by blast
  have "room 4 s" using inv by (rule roomI)
  then have "session 4 s' w'" using session.create [OF session.mount [OF m] host_w_files(2) _ u c] by blast
  moreover have "file_content w' (full_path ''/f'') = Some (enc32 1)" using session_invD(5) [OF inv', of "''/f''"] by simp
  ultimately show ?thesis using fh by blast
qed

text \<open>
  C7. In every state a session reaches (where \<open>xmp_create\<close> is called while two slots and two
  blocks are left, and gets memory that does not hold 1 in \<open>modified\<close>), every handle leads to
  an \<open>openFile\<close> whose \<open>currentOpens\<close> is the number of handles on it, and is in the table of
  open files under the number of its inode.
\<close>

theorem handles_counted:
  assumes "session nb s w" "finfos s fh = Some fi"
  shows "\<exists>f. ofiles s (lf_oFile fi) = Some f \<and> currentOpens f = int (card (handles s (lf_oFile fi))) \<and> 0 < currentOpens f
    \<and> get_open (i_file_no (of_inode f)) s = Some (lf_oFile fi)"
proof -
  obtain xs bs F where inv: "session_inv nb s w xs bs F" using session_has_inv [OF assms(1)] by blast
  obtain x f where "counted x (lf_oFile fi) f s" "0 < card (handles s (lf_oFile fi))" using handle_file [OF inv assms(2)] .
  then show ?thesis by (auto simp: counted_def)
qed

theorem handles_counted_witness:
  "\<exists>s w fh fi f. session 4 s w \<and> finfos s fh = Some fi \<and> ofiles s (lf_oFile fi) = Some f
     \<and> currentOpens f = int (card (handles s (lf_oFile fi)))"
proof -
  obtain s w fh fi where s: "session 4 s w" "finfos s fh = Some fi" using session_with_file by blast
  from handles_counted [OF this] s show ?thesis by blast
qed

text \<open>
  C8. In every state a session reaches (where \<open>xmp_create\<close> is called while two slots and two
  blocks are left, and gets memory that does not hold 1 in \<open>modified\<close>), each stub file holds
  the number of a file whose map entry is the address of a header page that names it, and
  the headers of two files with different names are on different pages.
\<close>

theorem stubs_name_headers:
  assumes "session nb s w" "file_content w (full_path path) = Some c" "file_content w (full_path path') = Some c'"
  shows "\<exists>x k x' k'. c = enc32 (int x) \<and> header_at x k s \<and> c' = enc32 (int x') \<and> header_at x' k' s
    \<and> (full_path path \<noteq> full_path path' \<longrightarrow> k \<noteq> k')"
proof -
  obtain xs bs F where inv: "session_inv nb s w xs bs F" using session_has_inv [OF assms(1)] by blast
  obtain x where x: "F (full_path path) = Some x" "c = enc32 (int x)"
    using assms(2) session_invD(5) [OF inv, of path] by auto
  obtain x' where x': "F (full_path path') = Some x'" "c' = enc32 (int x')"
    using assms(3) session_invD(5) [OF inv, of path'] by auto
  obtain k where k: "header_at x k s" using session_invD(8) [OF inv ranI [of F, OF x(1)]] by blast
  obtain k' where k': "header_at x' k' s" using session_invD(8) [OF inv ranI [of F, OF x'(1)]] by blast
  have "k \<noteq> k'" if "full_path path \<noteq> full_path path'"
  proof
    assume "k = k'"
    then have "x = x'" using k k' by (simp add: header_at_def)
    then have "F (full_path path) = F (full_path path')" using x(1) x'(1) by simp
    then have "full_path path = full_path path'"
      by (rule inj_onD [OF session_invD(6) [OF inv]]) (use x(1) x'(1) in auto)
    then show False using that by blast
  qed
  then show ?thesis using x(2) x'(2) k k' by blast
qed

theorem stubs_name_headers_witness:
  "\<exists>s w x k. session 4 s w \<and> file_content w (full_path ''/f'') = Some (enc32 (int x)) \<and> header_at x k s"
proof -
  obtain s w where s: "session 4 s w" "file_content w (full_path ''/f'') = Some (enc32 1)" using session_with_file by blast
  from stubs_name_headers [OF s(1,2,2)] s show ?thesis by metis
qed

text \<open>
  C9. What a request of a session does, in every state it reaches, when the memory of a new
  \<open>openFile\<close> does not hold 1 in \<open>modified\<close>: creating a file under a new name succeeds if
  two slots and two blocks are left; opening an existing file and releasing a handle
  succeed; unlinking a name that does not exist is refused and changes nothing; unlinking a
  file, open or not, is undefined, as the table keeps every file that was ever open.
\<close>

theorem session_requests:
  assumes "session nb s w" "modified (malloc_openFile u) \<noteq> 1"
  shows "(file_content w (full_path path) = None \<longrightarrow>
       (room nb s \<longrightarrow> (\<exists>fh s' w'. xmp_create posix u path mode flags s w = Some (0, fh, s', w') \<and> finfos s' fh \<noteq> None))
       \<and> xmp_unlink posix u path s w = Some (- ENOENT, s, w))
    \<and> (file_content w (full_path path) \<noteq> None \<longrightarrow>
       (\<exists>fh s' w'. xmp_open posix u path flags s w = Some (0, fh, s', w'))
       \<and> xmp_unlink posix u path s w = None)
    \<and> (finfos s h \<noteq> None \<longrightarrow> (\<exists>s'. xmp_release u h s = Some (0, s')))"
proof -
  obtain xs bs F where inv: "session_inv nb s w xs bs F" using session_has_inv [OF assms(1)] by blast
  have "\<exists>fh s' w'. xmp_create posix u path mode flags s w = Some (0, fh, s', w') \<and> finfos s' fh \<noteq> None"
    if c: "file_content w (full_path path) = None" "room nb s"
  proof -
    obtain x y zs b b' cs where "xs = x # y # zs" "bs = b # b' # cs" using room_lists [OF inv c(2)] .
    with create_step [of nb s w x y zs b b' cs F path u mode flags] inv c(1) assms(2) show ?thesis by blast
  qed
  moreover have "\<exists>fh s' w'. xmp_open posix u path flags s w = Some (0, fh, s', w')"
    if "file_content w (full_path path) \<noteq> None"
    using open_step [OF inv that, of u flags] by blast
  moreover have "\<exists>s'. xmp_release u h s = Some (0, s')" if "finfos s h \<noteq> None"
    using that release_step [OF inv, of h _ u] by blast
  ultimately show ?thesis
    using unlink_session_file [OF inv] unlink_other_name [OF session_invD(3) [OF inv]] by blast
qed

theorem session_requests_witness:
  "\<exists>s w fh fi s'. session 4 s w \<and> finfos s fh = Some fi \<and> xmp_release (\<lambda>_. 7) fh s = Some (0, s')
     \<and> file_content w (full_path ''/f'') \<noteq> None \<and> xmp_unlink posix (\<lambda>_. 7) ''/f'' s w = None"
proof -
  obtain s w fh fi where s: "session 4 s w" "finfos s fh = Some fi" "file_content w (full_path ''/f'') = Some (enc32 1)"
    using session_with_file by blast
  have "modified (malloc_openFile (\<lambda>_. 7)) \<noteq> 1" by code_simp
  from session_requests [OF s(1) this, of "''/f''" 0 0 fh] s show ?thesis by auto
qed

text \<open>
  C10. A formatted device of \<open>nb\<close> blocks takes \<open>nb - 3\<close> files, at most 126: creating that many
  under different names right after mounting succeeds for all of them, and file \<open>i\<close> gets the
  number \<open>2 i + 1\<close>. (One block is lost because \<open>makefs\<close> leaves the last one unusable, and
  each file takes two of the 253 slots.)
\<close>

theorem create_files_succeed:
  assumes "mounted nb s w" "length paths \<le> nb - 3" "length paths \<le> 126" "distinct (map full_path paths)"
    "modified (malloc_openFile u) \<noteq> 1"
  shows "\<exists>s' w'. create_files u mode flags paths s w = Some (replicate (length paths) 0, s', w')
    \<and> (\<forall>i < length paths. file_content w' (full_path (paths ! i)) = Some (enc32 (2 * int i + 1)))"
proof -
  note inv = mount_inv [OF assms(1)]
  have nb: "3 \<le> nb" using assms(1) unfolding mounted_def by blast
  have "2 * length paths \<le> length all_slots" using assms(3) by (simp add: all_slots_def del: upt_rec_numeral)
  moreover have "length paths < length (all_blocks nb)" using assms(2) nb by (simp add: all_blocks_def)
  moreover have "\<forall>p \<in> set paths. file_content w (full_path p) = None" using session_invD(5) [OF inv] by simp
  ultimately obtain s' w' F' where
    c: "create_files u mode flags paths s w = Some (replicate (length paths) 0, s', w')"
    "session_inv nb s' w' (drop (2 * length paths) all_slots) (drop (length paths) (all_blocks nb)) F'"
    "\<forall>i < length paths. F' (full_path (paths ! i)) = Some (all_slots ! (2 * i))"
    using create_files_inv [OF inv _ _ assms(4) _ assms(5)] by blast
  have "all_slots ! (2 * i) = 2 * i + 1" if "i < length paths" for i
    using that assms(3) by (simp add: all_slots_def del: upt_rec_numeral)
  then have "file_content w' (full_path (paths ! i)) = Some (enc32 (2 * int i + 1))" if "i < length paths" for i
    using that c(3) session_invD(5) [OF c(2), of "paths ! i"] by (simp add: add.commute)
  with c(1) show ?thesis by blast
qed

theorem create_files_succeed_witness:
  "\<exists>s s' w'. mounted 5 s host_w \<and> create_files (\<lambda>_. 7) 0 2 [''/a'', ''/b''] s host_w = Some ([0, 0], s', w')
     \<and> file_content w' (full_path ''/b'') = Some (enc32 3)"
proof -
  obtain s where m: "mounted 5 s host_w" using mounted_exists [of 5] by auto
  have d: "distinct (map full_path [''/a'', ''/b''])" by code_simp
  have u: "modified (malloc_openFile (\<lambda>_. 7)) \<noteq> 1" by code_simp
  from create_files_succeed [OF m _ _ d u, of 0 2] obtain s' w' where
    "create_files (\<lambda>_. 7) 0 2 [''/a'', ''/b''] s host_w = Some ([0, 0], s', w')"
    "\<forall>i < 2. file_content w' (full_path ([''/a'', ''/b''] ! i)) = Some (enc32 (2 * int i + 1))" by (auto simp: numeral_2_eq_2)
  moreover from this(2) have "file_content w' (full_path ''/b'') = Some (enc32 3)" by (auto dest: spec [of _ 1])
  ultimately show ?thesis using m by blast
qed

end
