(* ===== verification/Show_NAND.thy ===== *)
theory Show_NAND
  imports CYC_State
begin

text \<open>
  The inspection program \<open>showNAND.c\<close>: it walks both free lists, marking the blocks it
  meets, prints the map of virtual addresses, and lists the pages of all unmarked blocks.

  The static variables are a record. What is printed is a list of the literal texts and
  numbers of the calls of \<open>printf\<close>. An access out of the bounds of \<open>blockStat\<close> or of the map
  is the value \<open>Inl OutOfBounds\<close>; the loops that follow pointers read from the device may not
  end, which is \<open>None\<close>.
\<close>

section \<open>State\<close>

datatype blockMark = UNMARKED | COMPLETELY_FREE | PARTIALLY_FREE | USED

datatype out = Lit string | Dec int | Octal "32 word" | Newline

datatype ub = OutOfBounds

record show_state =
  sn_page :: fullPage
  sn_super :: superPage
  sn_features :: nandFeatures
  blockStat :: "blockMark list"
  sn_nand :: vnand
  sn_out :: "out list"

definition printf :: "out list \<Rightarrow> show_state \<Rightarrow> show_state" where
  "printf os s = s\<lparr>sn_out := sn_out s @ os\<rparr>"

section \<open>Free lists\<close>

definition getFreeListHead :: "blockMark \<Rightarrow> show_state \<Rightarrow> int" where
  "getFreeListHead freeListType s =
     (if freeListType = COMPLETELY_FREE then completeHead (freeLists (sn_super s))
      else partialHead (freeLists (sn_super s)))"

definition printPageNumber :: "int \<Rightarrow> int \<Rightarrow> show_state \<Rightarrow> show_state" where
  "printPageNumber blockPtr position s =
     (let s = printf [Dec blockPtr, Lit '', ''] s
      in if position smod 10 = 9 then printf [Newline] s else s)"

text \<open>
  The second condition is the assignment \<open>blockType = freeListType\<close>: it holds for every list
  type but \<open>UNMARKED\<close>, whose value is 0. Result: the error flag and the state.
\<close>

definition markBlockStatistics :: "blockMark \<Rightarrow> int \<Rightarrow> show_state \<Rightarrow> ub + (bool \<times> show_state)" where
  "markBlockStatistics freeListType freeBlockPtr s =
     (let i = freeBlockPtr sdiv BLOCKSIZE
      in if i < 0 \<or> int (length (blockStat s)) \<le> i then Inl OutOfBounds
         else let blockType = blockStat s ! nat i
              in if blockType = UNMARKED then Inr (False, s\<lparr>blockStat := (blockStat s)[nat i := freeListType]\<rparr>)
                 else if freeListType \<noteq> UNMARKED
                 then Inr (True, printf [Newline, Newline, Lit ''****** CYCLE DETECTED IN FREE BLOCK LIST!'', Newline] s)
                 else Inr (True, printf [Newline, Newline, Lit ''****** BLOCK IS IN BOTH FREE LISTS!'', Newline] s))"

definition getNextLogBlock :: "blockMark \<Rightarrow> int \<Rightarrow> show_state \<Rightarrow> int \<times> show_state" where
  "getNextLogBlock freeListType freeBlockPtr s =
     (let (r, p, v) = readNAND (sn_page s)
            (if freeListType = COMPLETELY_FREE then freeBlockPtr + BLOCKSIZE - 1 else freeBlockPtr) (sn_nand s)
      in (nextLogBlock p, s\<lparr>sn_page := p, sn_nand := v\<rparr>))"

definition isValidTail :: "int \<Rightarrow> blockMark \<Rightarrow> show_state \<Rightarrow> bool" where
  "isValidTail previous freeListType s =
     (if previous \<noteq> 0
      then if freeListType = COMPLETELY_FREE then previous = completeTail (freeLists (sn_super s))
           else previous = partialTail (freeLists (sn_super s))
      else True)"

text \<open>The loop of \<open>showFreeList\<close>. Result: \<open>previous\<close> and the state.\<close>

partial_function (option) show_loop ::
  "blockMark \<Rightarrow> int \<Rightarrow> int \<Rightarrow> int \<Rightarrow> show_state \<Rightarrow> (ub + (int \<times> show_state)) option" where
  "show_loop t freeCount previous freeBlockPtr s =
     (if freeBlockPtr = 0 then Some (Inr (previous, s))
      else let s = printPageNumber freeBlockPtr (freeCount + 1) s
           in case markBlockStatistics t freeBlockPtr s of
                Inl e \<Rightarrow> Some (Inl e)
              | Inr (err, s) \<Rightarrow>
                  if err then Some (Inr (previous, s))
                  else let (next, s) = getNextLogBlock t freeBlockPtr s
                       in show_loop t (freeCount + 1) freeBlockPtr next s)"

definition finish_list :: "blockMark \<Rightarrow> int \<times> show_state \<Rightarrow> show_state" where
  "finish_list t r =
     (let (previous, s) = r;
          s = (if isValidTail previous t s then s
               else printf [Newline, Newline, Lit ''****** FREE BLOCK LIST TAIL INVALID IN SUPERBLOCK'', Newline] s)
      in printf [Newline, Newline] s)"

definition showFreeList :: "blockMark \<Rightarrow> show_state \<Rightarrow> (ub + show_state) option" where
  "showFreeList t s = map_option (map_sum id (finish_list t)) (show_loop t 0 0 (getFreeListHead t s) s)"

definition printFreeLists :: "show_state \<Rightarrow> (ub + show_state) option" where
  "printFreeLists s =
     (let s = printf [Lit ''NAND memory contains '', Dec (numBlocks (sn_features s)),
                Lit '' blocks. Total size in bytes is '', Dec (memSize (sn_features s)), Newline,
                Lit ''Completely used block freelist starts at page '', Dec (completeHead (freeLists (sn_super s))),
                Lit '' and ends at '', Dec (completeTail (freeLists (sn_super s))), Newline, Lit ''    ''] s
      in case showFreeList COMPLETELY_FREE s of
           None \<Rightarrow> None
         | Some (Inl e) \<Rightarrow> Some (Inl e)
         | Some (Inr s) \<Rightarrow>
             let s = printf [Lit ''Partially used block freelist starts at page '', Dec (partialHead (freeLists (sn_super s))),
                       Lit '' and ends at '', Dec (partialTail (freeLists (sn_super s))), Newline] s
             in map_option (map_sum id (printf [Newline, Newline])) (showFreeList PARTIALLY_FREE s))"

section \<open>The map of virtual addresses\<close>

definition getVaddrMap :: "show_state \<Rightarrow> addrMap \<times> show_state" where
  "getVaddrMap s =
     (let (r, p, v) = readNAND (sn_page s) BLOCKSIZE (sn_nand s)
      in (dec_map 254 (contents p), s\<lparr>sn_page := p, sn_nand := v\<rparr>))"

text \<open>The index \<open>i\<close> of the loop starts with what is on the stack.\<close>

function active_loop :: "addrMap \<Rightarrow> int \<Rightarrow> show_state \<Rightarrow> ub + show_state" where
  "active_loop m i s =
     (if map_size m \<le> i then Inr s
      else if i < 0 \<or> int (length (vmap m)) \<le> i then Inl OutOfBounds
      else active_loop m (i + 1)
        (if 0 < vmap m ! nat i
         then printf [Lit ''       id '', Dec i, Lit '' maps to address '', Dec (vmap m ! nat i), Newline] s else s))"
  by auto
termination by (relation "measure (\<lambda>(m, i, s). nat (map_size m - i))") auto

declare active_loop.simps [simp del]

definition printActiveMappings :: "stack \<Rightarrow> addrMap \<Rightarrow> show_state \<Rightarrow> ub + show_state" where
  "printActiveMappings u m s = active_loop m (dec32 (stack_bytes 4 u)) s"

partial_function (option) free_loop :: "addrMap \<Rightarrow> int \<Rightarrow> int \<Rightarrow> show_state \<Rightarrow> (ub + show_state) option" where
  "free_loop m freePos freeCount s =
     (if freePos \<le> 0 then Some (Inr s)
      else if int (length (vmap m)) \<le> freePos then Some (Inl OutOfBounds)
      else free_loop m (- (vmap m ! nat freePos)) (freeCount + 1)
        (printf ([Dec freePos, Lit '', ''] @ (if (freeCount + 1) smod 10 = 9 then [Newline, Lit ''     ''] else [])) s))"

definition printFreePositions :: "addrMap \<Rightarrow> show_state \<Rightarrow> (ub + show_state) option" where
  "printFreePositions m s =
     (if freePtr m \<noteq> 0
      then free_loop m (freePtr m) 0 (printf [Lit ''Free entries in address map include:'', Newline, Lit ''     ''] s)
      else Some (Inr (printf [Lit ''Free list in address map is empty '', Newline] s)))"

section \<open>Pages\<close>

definition printPageInfo :: "fullPage \<Rightarrow> show_state \<Rightarrow> show_state" where
  "printPageInfo page s =
     (if pageType page = PTYPE_INODE
      then let ind = fInode (dec_log (contents page))
           in printf [Lit ''Inode for file '', Dec (i_file_no ind), Newline,
                Lit ''     Stored in log number '', Dec (i_log_no ind), Newline,
                Lit ''     Referenced by '', Dec (sint (i_links_count ind)), Lit '' links'', Newline,
                Lit ''     File mode is '', Octal (i_mode ind), Newline,
                Lit ''     File size is '', Dec (sint (i_size ind)), Lit '' with '', Dec (i_pages ind),
                Lit '' active pages'', Newline] s
      else s)"

text \<open>The loop over the \<open>n\<close> last pages of a block, up to the first erased one.\<close>

fun page_loop :: "int \<Rightarrow> nat \<Rightarrow> show_state \<Rightarrow> show_state" where
  "page_loop block 0 s = s"
| "page_loop block (Suc n) s =
     (let pAddr = block * BLOCKSIZE + (BLOCKSIZE - int (Suc n));
          (r, p, v) = readNAND (sn_page s) pAddr (sn_nand s);
          s = s\<lparr>sn_page := p, sn_nand := v\<rparr>
      in if pageType p = PTYPE_ERASED then s
         else page_loop block n (printPageInfo p (printf [Lit ''    Page '', Dec pAddr, Lit '':  ''] s)))"

definition printBlock :: "int \<Rightarrow> show_state \<Rightarrow> show_state" where
  "printBlock block s = page_loop block (nat BLOCKSIZE) s"

fun used_loop :: "nat list \<Rightarrow> show_state \<Rightarrow> show_state" where
  "used_loop [] s = s"
| "used_loop (b # bs) s =
     used_loop bs
       (if blockStat s ! b = UNMARKED
        then printBlock (int b) (printf [Lit ''Contents of used pages in block '', Dec (int b), Lit '':'', Newline]
               (s\<lparr>blockStat := (blockStat s)[b := USED]\<rparr>))
        else s)"

definition updateBlockStatAndPrintUsedPages :: "show_state \<Rightarrow> show_state" where
  "updateBlockStatAndPrintUsedPages s =
     used_loop [2..<nat (numBlocks (sn_features s))] (printf [Lit ''Map of active pages'', Newline] s)"

definition printVaddrMap :: "stack \<Rightarrow> show_state \<Rightarrow> (ub + show_state) option" where
  "printVaddrMap u s =
     (let s = printf [Lit ''Virtual address map stored at page '', Dec (latest_vaddr_map (sn_super s)), Newline] s;
          (m, s) = getVaddrMap s;
          s = printf [Lit ''Address map size = '', Dec (map_size m), Newline] s
      in case printActiveMappings u m s of
           Inl e \<Rightarrow> Some (Inl e)
         | Inr s \<Rightarrow> map_option (map_sum id updateBlockStatAndPrintUsedPages) (printFreePositions m s))"

text \<open>\<open>main\<close>: the return value, what is printed.\<close>

definition showNAND_main :: "stack \<Rightarrow> nat \<Rightarrow> nandfile option \<Rightarrow> vnand \<Rightarrow> (ub + (int \<times> out list)) option" where
  "showNAND_main u args opened v =
     (if 0 < args then Some (Inr (-1, [Lit ''ERROR: makefs TAKES NO ARGS'', Newline]))
      else let (ft, v) = initNAND opened v;
               (r, p, v) = readNAND zero_page 0 v;
               s = \<lparr>sn_page = zero_page, sn_super = dec_super (contents p), sn_features = ft,
                    blockStat = replicate (nat (numBlocks ft)) UNMARKED, sn_nand = v, sn_out = []\<rparr>
           in case printFreeLists s of
                None \<Rightarrow> None
              | Some (Inl e) \<Rightarrow> Some (Inl e)
              | Some (Inr s) \<Rightarrow> map_option (map_sum id (\<lambda>s. (0, sn_out s))) (printVaddrMap u s))"

section \<open>Walking a free list\<close>

definition unmarked :: "show_state \<Rightarrow> nat" where
  "unmarked s = count_list (blockStat s) UNMARKED"

lemma printf_fields [simp]:
  "blockStat (printf os s) = blockStat s" "sn_nand (printf os s) = sn_nand s" "sn_page (printf os s) = sn_page s"
  "sn_super (printf os s) = sn_super s" "sn_features (printf os s) = sn_features s" "sn_out (printf os s) = sn_out s @ os"
  by (simp_all add: printf_def)

lemma printPageNumber_fields [simp]:
  "blockStat (printPageNumber b i s) = blockStat s" "sn_nand (printPageNumber b i s) = sn_nand s"
  "sn_page (printPageNumber b i s) = sn_page s" "sn_super (printPageNumber b i s) = sn_super s"
  "sn_features (printPageNumber b i s) = sn_features s"
  by (simp_all add: printPageNumber_def Let_def)

lemma getNextLogBlock_fields: "getNextLogBlock t b s = (next, s') \<Longrightarrow> blockStat s' = blockStat s"
  by (auto simp: getNextLogBlock_def Let_def split: prod.splits)

lemma count_list_update_less:
  "i < length xs \<Longrightarrow> xs ! i = x \<Longrightarrow> y \<noteq> x \<Longrightarrow> count_list (xs[i := y]) x < count_list xs x"
  by (induction xs arbitrary: i) (auto split: nat.splits)

lemma mark_unmarked:
  assumes "markBlockStatistics t b s = Inr (False, s')" "t \<noteq> UNMARKED"
  shows "unmarked s' < unmarked s"
  using assms count_list_update_less [of "nat (b sdiv BLOCKSIZE)" "blockStat s" UNMARKED t]
  by (auto simp: markBlockStatistics_def Let_def unmarked_def split: if_splits)

text \<open>What is printed for a list of blocks, the first of them being number \<open>i\<close>.\<close>

fun list_out :: "int \<Rightarrow> nat list \<Rightarrow> out list" where
  "list_out i [] = []"
| "list_out i (b # bs) = [Dec (int b), Lit '', ''] @ (if i smod 10 = 9 then [Newline] else []) @ list_out (i + 1) bs"

definition mark_blocks :: "blockMark \<Rightarrow> nat list \<Rightarrow> blockMark list \<Rightarrow> blockMark list" where
  "mark_blocks t bs st = fold (\<lambda>b st. st[b div 16 := t]) bs st"

lemma length_mark_blocks [simp]: "length (mark_blocks t bs st) = length st"
  unfolding mark_blocks_def by (induction bs arbitrary: st) simp_all

lemma printPageNumber_out:
  "sn_out (printPageNumber b i s) = sn_out s @ [Dec b, Lit '', ''] @ (if i smod 10 = 9 then [Newline] else [])"
  by (simp add: printPageNumber_def Let_def)

text \<open>A device that can be read, with a buffer for a page.\<close>

definition readable :: "nat \<Rightarrow> show_state \<Rightarrow> bool" where
  "readable nb s \<longleftrightarrow> nand_ok nb (sn_nand s) \<and> page_ok (sn_page s) \<and> length (blockStat s) = nb"

definition same_device :: "show_state \<Rightarrow> show_state \<Rightarrow> bool" where
  "same_device s s' \<longleftrightarrow> sn_super s' = sn_super s \<and> sn_features s' = sn_features s
     \<and> file_bytes (sn_nand s') = file_bytes (sn_nand s)"

text \<open>
  The links of a device lie inside of it: what the last pages of the blocks (for the list of
  completely used blocks), or all pages (for the other list), hold as the next block is 0 or
  the number of a page of the device. The links may form cycles, and the lists may join.
\<close>

definition link_ok :: "nat \<Rightarrow> blockMark \<Rightarrow> int \<Rightarrow> bool" where
  "link_ok nb t p \<longleftrightarrow> 0 \<le> p \<and> p < 16 * int nb \<and> (t = COMPLETELY_FREE \<longrightarrow> 16 dvd p)"

definition links_ok :: "nat \<Rightarrow> blockMark \<Rightarrow> (nat \<Rightarrow> fullPage) \<Rightarrow> bool" where
  "links_ok nb t pg \<longleftrightarrow> (\<forall>k < 16 * nb. t = COMPLETELY_FREE \<longrightarrow> k mod 16 = 15 \<longrightarrow> link_ok nb t (nextLogBlock (pg k)))
     \<and> (\<forall>k < 16 * nb. t \<noteq> COMPLETELY_FREE \<longrightarrow> link_ok nb t (nextLogBlock (pg k)))"

text \<open>Following a link stays inside of the device.\<close>

lemma getNextLogBlock_inside:
  assumes "readable nb s" "links_ok nb t (page_at (sn_nand s))" "link_ok nb t p"
  shows "\<exists>nxt s'. getNextLogBlock t p s = (nxt, s') \<and> link_ok nb t nxt \<and> readable nb s' \<and> same_device s s'
    \<and> blockStat s' = blockStat s"
proof -
  define k where "k = (if t = COMPLETELY_FREE then nat p + 15 else nat p)"
  have p: "0 \<le> p" "p < 16 * int nb" "t = COMPLETELY_FREE \<Longrightarrow> 16 dvd p" using assms(3) by (simp_all add: link_ok_def)
  have d: "16 dvd nat p" if "t = COMPLETELY_FREE" using p(1) p(3) [OF that] int_dvd_int_iff [of 16 "nat p"] by simp
  have k: "k < 16 * nb"
  proof (cases "t = COMPLETELY_FREE")
    case True
    then obtain q where q: "nat p = 16 * q" using d by (auto elim: dvdE)
    then have "16 * q < 16 * nb" using p(1,2) by linarith
    then show ?thesis using True q by (simp add: k_def)
  next
    case False
    then show ?thesis using p(1,2) by (simp add: k_def)
  qed
  have m: "k mod 16 = 15" if c: "t = COMPLETELY_FREE"
  proof -
    obtain q where "nat p = 16 * q" using d [OF c] by (auto elim: dvdE)
    then have "(nat p + 15) mod 16 = 15" by simp
    then show ?thesis using c by (simp add: k_def)
  qed
  have a: "(if t = COMPLETELY_FREE then p + 16 - 1 else p) = int k" using p(1) by (simp add: k_def)
  have ok: "nand_ok nb (sn_nand s)" "page_ok (sn_page s)" "length (blockStat s) = nb" using assms(1) by (simp_all add: readable_def)
  obtain v' where v': "readNAND (sn_page s) (int k) (sn_nand s) = (1048, page_at (sn_nand s) k, v')" "nand_ok nb v'"
    "file_bytes v' = file_bytes (sn_nand s)" using readNAND_page [OF ok(1) k ok(2)] by blast
  have "getNextLogBlock t p s = (nextLogBlock (page_at (sn_nand s) k), s\<lparr>sn_page := page_at (sn_nand s) k, sn_nand := v'\<rparr>)"
    using v'(1) a by (simp add: getNextLogBlock_def)
  moreover have "link_ok nb t (nextLogBlock (page_at (sn_nand s) k))" using assms(2) k m by (auto simp: links_ok_def)
  moreover have "page_ok (page_at (sn_nand s) k)" by (rule page_ok_page_at [OF ok(1) k])
  ultimately show ?thesis using v'(2,3) ok(3) by (simp add: readable_def same_device_def)
qed

text \<open>Marking stays inside of \<open>blockStat\<close>.\<close>

lemma mark_inside:
  assumes "t \<noteq> UNMARKED" "length (blockStat s) = nb" "link_ok nb t p"
  obtains err s' where "markBlockStatistics t p s = Inr (err, s')" "length (blockStat s') = nb" "sn_nand s' = sn_nand s"
    "sn_page s' = sn_page s" "sn_super s' = sn_super s" "sn_features s' = sn_features s"
proof -
  have "p sdiv 16 = p div 16" "0 \<le> p div 16" using assms(3) by (simp_all add: sdiv_nonneg link_ok_def pos_imp_zdiv_nonneg_iff)
  moreover have "p div 16 < int nb" using assms(3) by (simp add: link_ok_def) linarith
  ultimately have "\<not> (p sdiv 16 < 0 \<or> int (length (blockStat s)) \<le> p sdiv 16)" using assms(2) by simp
  then show ?thesis using assms(1,2) that
    by (cases "blockStat s ! nat (p sdiv 16) = UNMARKED") (simp_all add: markBlockStatistics_def Let_def)
qed

text \<open>
  Every round marks a block or stops, so the loop ends, without an access out of bounds, on
  every device whose links lie inside of it.
\<close>

lemma show_loop_ends:
  assumes "t \<noteq> UNMARKED" "readable nb s" "links_ok nb t (page_at (sn_nand s))" "link_ok nb t p"
  shows "\<exists>r s'. show_loop t freeCount previous p s = Some (Inr (r, s')) \<and> readable nb s' \<and> same_device s s'"
  using assms(2-4)
proof (induction "unmarked s" arbitrary: freeCount previous p s rule: less_induct)
  case less
  let ?s = "printPageNumber p (freeCount + 1) s"
  have st: "length (blockStat ?s) = nb" using less.prems(1) by (simp add: readable_def)
  show ?case
  proof (cases "p = 0")
    case True
    then show ?thesis using less.prems(1) by (simp add: show_loop.simps same_device_def)
  next
    case ptr: False
    obtain err s1 where m: "markBlockStatistics t p ?s = Inr (err, s1)" "length (blockStat s1) = nb" "sn_nand s1 = sn_nand ?s"
      "sn_page s1 = sn_page ?s" "sn_super s1 = sn_super ?s" "sn_features s1 = sn_features ?s"
      by (rule mark_inside [OF assms(1) st less.prems(3)])
    have s1: "readable nb s1" "same_device s s1" using m less.prems(1) by (simp_all add: readable_def same_device_def)
    show ?thesis
    proof (cases err)
      case True
      then show ?thesis using ptr m(1) s1 by (simp add: show_loop.simps Let_def)
    next
      case False
      have l1: "links_ok nb t (page_at (sn_nand s1))" using less.prems(2) m(3) by simp
      obtain nxt s2 where n: "getNextLogBlock t p s1 = (nxt, s2)" "link_ok nb t nxt" "readable nb s2" "same_device s1 s2"
        "blockStat s2 = blockStat s1" using getNextLogBlock_inside [OF s1(1) l1 less.prems(3)] by blast
      have "unmarked s1 < unmarked ?s" using m(1) False assms(1) by (auto intro: mark_unmarked)
      then have lt: "unmarked s2 < unmarked s" using n(5) by (simp add: unmarked_def)
      have "page_at (sn_nand s2) = page_at (sn_nand s1)" using n(4) by (intro page_at_cong abs_nand_cong) (simp add: same_device_def)
      then have "links_ok nb t (page_at (sn_nand s2))" using l1 by simp
      from less.hyps [OF lt n(3) this n(2), of "freeCount + 1" p] obtain r s' where
        s': "show_loop t (freeCount + 1) p nxt s2 = Some (Inr (r, s'))" "readable nb s'" "same_device s2 s'" by blast
      have "show_loop t freeCount previous p s = Some (Inr (r, s'))"
        using ptr m(1) n(1) False s'(1) by (subst show_loop.simps) (simp add: Let_def)
      moreover have "same_device s s'" using s1(2) n(4) s'(3) by (simp add: same_device_def)
      ultimately show ?thesis using s'(2) by blast
    qed
  qed
qed

lemma show_loop_chain:
  assumes "readable nb s" "partial_chain nb (sn_nand s) h bs"
    "distinct (map (\<lambda>b. b div 16) bs)" "\<forall>b \<in> set bs. blockStat s ! (b div 16) = UNMARKED"
  shows "\<exists>s'. show_loop PARTIALLY_FREE i previous h s = Some (Inr (if bs = [] then previous else int (last bs), s'))
    \<and> sn_out s' = sn_out s @ list_out (i + 1) bs \<and> blockStat s' = mark_blocks PARTIALLY_FREE bs (blockStat s)
    \<and> readable nb s' \<and> same_device s s'"
  using assms
proof (induction bs arbitrary: s h i previous)
  case Nil
  then show ?case by (simp add: show_loop.simps mark_blocks_def same_device_def)
next
  case (Cons b bs)
  let ?s1 = "printPageNumber (int b) (i + 1) s"
  let ?s2 = "?s1\<lparr>blockStat := (blockStat s)[b div 16 := PARTIALLY_FREE]\<rparr>"
  have b: "h = int b" "0 < b" "b < 16 * nb" "partial_chain nb (sn_nand s) (nextLogBlock (page_at (sn_nand s) b)) bs"
    using Cons.prems(2) by simp_all
  have ok: "nand_ok nb (sn_nand s)" "page_ok (sn_page s)" "length (blockStat s) = nb"
    using Cons.prems(1) by (simp_all add: readable_def)
  have bd: "int b sdiv 16 = int (b div 16)" "b div 16 < nb" using b(3) by (simp_all add: sdiv_nonneg zdiv_int less_mult_imp_div_less)
  then have mk: "markBlockStatistics PARTIALLY_FREE (int b) ?s1 = Inr (False, ?s2)"
    using ok(3) Cons.prems(4) by (simp add: markBlockStatistics_def Let_def)
  obtain v' where v': "readNAND (sn_page s) (int b) (sn_nand s) = (1048, page_at (sn_nand s) b, v')" "nand_ok nb v'"
    "file_bytes v' = file_bytes (sn_nand s)" using readNAND_page [OF ok(1) b(3) ok(2)] by blast
  let ?s3 = "?s2\<lparr>sn_page := page_at (sn_nand s) b, sn_nand := v'\<rparr>"
  have g: "getNextLogBlock PARTIALLY_FREE (int b) ?s2 = (nextLogBlock (page_at (sn_nand s) b), ?s3)"
    using v'(1) by (simp add: getNextLogBlock_def)
  have pg: "page_at v' = page_at (sn_nand s)" using v'(3) by (intro page_at_cong abs_nand_cong)
  have "page_ok (page_at (sn_nand s) b)" by (rule page_ok_page_at [OF ok(1) b(3)])
  moreover have "partial_chain nb v' (nextLogBlock (page_at (sn_nand s) b)) bs"
    using b(4) partial_chain_cong [OF pg] by simp
  moreover have "\<forall>c \<in> set bs. (blockStat s)[b div 16 := PARTIALLY_FREE] ! (c div 16) = UNMARKED"
    using Cons.prems(3,4) by (auto simp: image_iff nth_list_update)
  ultimately have "\<exists>s'. show_loop PARTIALLY_FREE (i + 1) (int b) (nextLogBlock (page_at (sn_nand s) b)) ?s3
      = Some (Inr (if bs = [] then int b else int (last bs), s'))
    \<and> sn_out s' = sn_out ?s3 @ list_out (i + 1 + 1) bs \<and> blockStat s' = mark_blocks PARTIALLY_FREE bs (blockStat ?s3)
    \<and> readable nb s' \<and> same_device ?s3 s'"
    using v'(2) ok(3) Cons.prems(3) by (intro Cons.IH) (simp_all add: readable_def)
  then obtain s' where s': "show_loop PARTIALLY_FREE (i + 1) (int b) (nextLogBlock (page_at (sn_nand s) b)) ?s3
      = Some (Inr (if bs = [] then int b else int (last bs), s'))"
    "sn_out s' = sn_out ?s3 @ list_out (i + 1 + 1) bs" "blockStat s' = mark_blocks PARTIALLY_FREE bs (blockStat ?s3)"
    "readable nb s'" "same_device ?s3 s'" by blast
  have "show_loop PARTIALLY_FREE i previous h s = Some (Inr (int (last (b # bs)), s'))"
    using b(1,2) mk g s'(1) by (subst show_loop.simps) (auto simp: Let_def)
  then show ?case
    using s'(2-5) v'(3) by (intro exI [of _ s']) (simp add: printPageNumber_out mark_blocks_def same_device_def)
qed

lemma nth_mark_blocks:
  "i < length st \<Longrightarrow> mark_blocks t bs st ! i = (if i \<in> (\<lambda>b. b div 16) ` set bs then t else st ! i)"
  unfolding mark_blocks_def
  by (induction bs arbitrary: st) (auto simp: nth_list_update)

section \<open>Walking the map\<close>

lemma active_loop_none:
  assumes "\<forall>a \<in> set (vmap m). a \<le> 0" "map_size m \<le> int (length (vmap m))" "0 \<le> i"
  shows "active_loop m i s = Inr s"
  using assms
proof (induction m i s rule: active_loop.induct)
  case (1 m i s)
  show ?case
  proof (cases "map_size m \<le> i")
    case False
    then have i: "\<not> (i < 0 \<or> int (length (vmap m)) \<le> i)" "nat i < length (vmap m)" using "1.prems" by auto
    then have "\<not> 0 < vmap m ! nat i" using bspec [OF "1.prems"(1) nth_mem [OF i(2)]] by simp
    with 1 False i(1) show ?thesis by (subst active_loop.simps) simp
  qed (simp add: active_loop.simps)
qed

fun slot_out :: "int \<Rightarrow> nat list \<Rightarrow> out list" where
  "slot_out n [] = []"
| "slot_out n (x # xs) =
     [Dec (int x), Lit '', ''] @ (if (n + 1) smod 10 = 9 then [Newline, Lit ''     ''] else []) @ slot_out (n + 1) xs"

lemma free_loop_chain:
  assumes "slot_chain (vmap m) p xs" "\<forall>a \<in> set (vmap m). a \<le> 0"
  shows "free_loop m p n s = Some (Inr (printf (slot_out n xs) s))"
  using assms(1)
proof (induction xs arbitrary: p n s)
  case Nil
  then show ?case by (simp add: free_loop.simps printf_def)
next
  case (Cons x xs)
  then have x: "p = int x" "0 < x" "x < length (vmap m)" "slot_chain (vmap m) \<bar>vmap m ! x\<bar> xs" by simp_all
  then have "\<bar>vmap m ! x\<bar> = - (vmap m ! x)" using assms(2) by simp
  with Cons.IH [of "- (vmap m ! x)"] x show ?case
    by (subst free_loop.simps) (simp add: printf_def)
qed

lemma used_loop_marked: "\<forall>b \<in> set bs. blockStat s ! b \<noteq> UNMARKED \<Longrightarrow> used_loop bs s = s"
  by (induction bs) simp_all

section \<open>What the program shows\<close>

lemma readable_printf [simp]: "readable nb (printf os s) = readable nb s" "same_device s (printf os s)"
  by (simp_all add: readable_def same_device_def)

lemma showFreeList_ends:
  assumes "t \<noteq> UNMARKED" "readable nb s" "links_ok nb t (page_at (sn_nand s))" "link_ok nb t (getFreeListHead t s)"
  shows "\<exists>s'. showFreeList t s = Some (Inr s') \<and> readable nb s' \<and> same_device s s'"
proof -
  obtain r s1 where s1: "show_loop t 0 0 (getFreeListHead t s) s = Some (Inr (r, s1))" "readable nb s1" "same_device s s1"
    using show_loop_ends [OF assms, of 0 0] by blast
  have "readable nb (finish_list t (r, s1))" "same_device s1 (finish_list t (r, s1))"
    using s1(2) by (simp_all add: finish_list_def Let_def same_device_def)
  then show ?thesis using s1 by (simp add: showFreeList_def same_device_def)
qed

text \<open>
  C36. Printing the free lists ends, without an access out of bounds, on every device whose
  links lie inside of it, whatever they are: cyclic lists and lists that join are walked
  until they come to a marked block, and the device is left as it is. (A link out of the
  device is an access out of \<open>blockStat\<close>: the program does not check it.)
\<close>

theorem printFreeLists_ends:
  assumes "readable nb s"
    "links_ok nb COMPLETELY_FREE (page_at (sn_nand s))" "link_ok nb COMPLETELY_FREE (completeHead (freeLists (sn_super s)))"
    "links_ok nb PARTIALLY_FREE (page_at (sn_nand s))" "link_ok nb PARTIALLY_FREE (partialHead (freeLists (sn_super s)))"
  shows "\<exists>s'. printFreeLists s = Some (Inr s') \<and> readable nb s' \<and> same_device s s'"
proof -
  define s0 where "s0 = printf [Lit ''NAND memory contains '', Dec (numBlocks (sn_features s)),
    Lit '' blocks. Total size in bytes is '', Dec (memSize (sn_features s)), Newline,
    Lit ''Completely used block freelist starts at page '', Dec (completeHead (freeLists (sn_super s))),
    Lit '' and ends at '', Dec (completeTail (freeLists (sn_super s))), Newline, Lit ''    ''] s"
  have s0: "readable nb s0" "same_device s s0" using assms(1) by (simp_all add: s0_def)
  have h0: "getFreeListHead COMPLETELY_FREE s0 = completeHead (freeLists (sn_super s))" by (simp add: s0_def getFreeListHead_def)
  have l0: "links_ok nb COMPLETELY_FREE (page_at (sn_nand s0))" using assms(2) by (simp add: s0_def)
  obtain s1 where s1: "showFreeList COMPLETELY_FREE s0 = Some (Inr s1)" "readable nb s1" "same_device s0 s1"
    using showFreeList_ends [OF _ s0(1) l0] assms(3) h0 by auto
  define s2 where "s2 = printf [Lit ''Partially used block freelist starts at page '', Dec (partialHead (freeLists (sn_super s1))),
    Lit '' and ends at '', Dec (partialTail (freeLists (sn_super s1))), Newline] s1"
  have s2: "readable nb s2" "same_device s s2" using s0(2) s1(2,3) by (simp_all add: s2_def same_device_def)
  have "page_at (sn_nand s2) = page_at (sn_nand s)" using s2(2) by (intro page_at_cong abs_nand_cong) (simp add: same_device_def)
  then have l2: "links_ok nb PARTIALLY_FREE (page_at (sn_nand s2))" using assms(4) by simp
  have h2: "getFreeListHead PARTIALLY_FREE s2 = partialHead (freeLists (sn_super s))"
    using s2(2) by (simp add: getFreeListHead_def same_device_def)
  obtain s3 where s3: "showFreeList PARTIALLY_FREE s2 = Some (Inr s3)" "readable nb s3" "same_device s2 s3"
    using showFreeList_ends [OF _ s2(1) l2] assms(5) h2 by auto
  have "printFreeLists s = Some (Inr (printf [Newline, Newline] s3))"
    using s1(1) s3(1) by (simp add: printFreeLists_def Let_def s0_def s2_def)
  then show ?thesis using s2(2) s3(2,3) by (auto simp: same_device_def)
qed

text \<open>A device whose partially used free list is a cycle: block 2 is linked to itself.\<close>

definition nand_cycle :: vnand where
  "nand_cycle = append_page (\<lambda>_. 7) (zero_page\<lparr>nextLogBlock := 32\<rparr>) 32 nand3"

definition show_cycle :: show_state where
  "show_cycle = \<lparr>sn_page = zero_page, sn_super = zero_super\<lparr>freeLists := (freeLists zero_super)\<lparr>partialHead := 32\<rparr>\<rparr>,
     sn_features = features nand_cycle, blockStat = replicate 3 UNMARKED, sn_nand = nand_cycle, sn_out = []\<rparr>"

theorem printFreeLists_ends_witness:
  "\<exists>s'. printFreeLists show_cycle = Some (Inr s') \<and> nextLogBlock (page_at (sn_nand show_cycle) 32) = 32
    \<and> partialHead (freeLists (sn_super show_cycle)) = 32"
proof -
  have p: "page_ok (zero_page\<lparr>nextLogBlock := 32\<rparr>)" by (simp add: page_ok_def zero_page_def is_int32_def)
  have f: "next_free nand3 32" using next_free_nand3 [of 2] by simp
  have ok: "nand_ok 3 nand_cycle" using seq.inv_put [of 3 nand3 32] p f by (simp add: nand_cycle_def)
  have pg: "page_at nand_cycle k = (if k = 32 then zero_page\<lparr>nextLogBlock := 32\<rparr> else page_at nand3 k)" for k
    using seq.get_put [OF nand3_ok _ p f, of "\<lambda>_. 7" k] by (simp add: nand_cycle_def)
  have z: "nextLogBlock (page_at nand3 k) = 0" if "k < 48" for k
    using that by (simp add: zero_page_def)
  have "links_ok 3 t (page_at nand_cycle)" if "t \<noteq> UNMARKED" for t
    using z by (auto simp: links_ok_def link_ok_def pg)
  moreover have "readable 3 show_cycle" using ok by (simp add: readable_def show_cycle_def)
  ultimately show ?thesis using printFreeLists_ends [of 3 show_cycle]
    by (auto simp: show_cycle_def link_ok_def zero_super_def pg)
qed

lemma partial_chain_pos: "partial_chain nb v h xs \<Longrightarrow> x \<in> set xs \<Longrightarrow> 0 < x"
  by (induction nb v h xs rule: partial_chain.induct) auto

lemma showFreeList_chain:
  assumes "readable nb s" "partial_chain nb (sn_nand s) (partialHead (freeLists (sn_super s))) bs"
    "distinct (map (\<lambda>b. b div 16) bs)" "\<forall>b \<in> set bs. blockStat s ! (b div 16) = UNMARKED"
  shows "\<exists>s'. showFreeList PARTIALLY_FREE s = Some (Inr s')
    \<and> sn_out s' = sn_out s @ list_out 1 bs
        @ (if bs = [] \<or> int (last bs) = partialTail (freeLists (sn_super s)) then []
           else [Newline, Newline, Lit ''****** FREE BLOCK LIST TAIL INVALID IN SUPERBLOCK'', Newline]) @ [Newline, Newline]
    \<and> blockStat s' = mark_blocks PARTIALLY_FREE bs (blockStat s) \<and> readable nb s' \<and> same_device s s'"
proof -
  obtain s' where s': "show_loop PARTIALLY_FREE 0 0 (getFreeListHead PARTIALLY_FREE s) s
      = Some (Inr (if bs = [] then 0 else int (last bs), s'))"
    "sn_out s' = sn_out s @ list_out (0 + 1) bs" "blockStat s' = mark_blocks PARTIALLY_FREE bs (blockStat s)"
    "readable nb s'" "same_device s s'"
    using show_loop_chain [OF assms, of 0 0] by (auto simp: getFreeListHead_def)
  have "0 < last bs" if "bs \<noteq> []" using partial_chain_pos [OF assms(2)] that by simp
  then show ?thesis
    using s' by (auto simp: showFreeList_def finish_list_def isValidTail_def Let_def readable_def same_device_def)
qed

definition error_texts :: "out set" where
  "error_texts = {Lit ''****** CYCLE DETECTED IN FREE BLOCK LIST!'', Lit ''****** BLOCK IS IN BOTH FREE LISTS!'',
     Lit ''****** FREE BLOCK LIST TAIL INVALID IN SUPERBLOCK''}"

lemma list_out_errors: "set (list_out i bs) \<inter> error_texts = {}"
  by (induction bs arbitrary: i) (auto simp: error_texts_def)

lemma slot_out_errors: "set (slot_out i bs) \<inter> error_texts = {}"
  by (induction bs arbitrary: i) (auto simp: error_texts_def)

lemma formatted_map_facts:
  "\<forall>a \<in> set (vmap formatted_map). a \<le> 0" "map_size formatted_map \<le> int (length (vmap formatted_map))"
  "freePtr formatted_map = 1"
  by (auto simp: formatted_map_def simp del: upt_rec_numeral)

text \<open>What is printed before the partially used list, and after it, on a formatted device.\<close>

definition lists_header :: "nandFeatures \<Rightarrow> superPage \<Rightarrow> out list" where
  "lists_header ft sb =
     [Lit ''NAND memory contains '', Dec (numBlocks ft), Lit '' blocks. Total size in bytes is '', Dec (memSize ft), Newline,
      Lit ''Completely used block freelist starts at page '', Dec (completeHead (freeLists sb)),
      Lit '' and ends at '', Dec (completeTail (freeLists sb)), Newline, Lit ''    '', Newline, Newline,
      Lit ''Partially used block freelist starts at page '', Dec (partialHead (freeLists sb)),
      Lit '' and ends at '', Dec (partialTail (freeLists sb)), Newline]"

definition map_report :: "out list" where
  "map_report = [Lit ''Virtual address map stored at page '', Dec 16, Newline, Lit ''Address map size = '', Dec 254, Newline,
     Lit ''Free entries in address map include:'', Newline, Lit ''     ''] @ slot_out 0 [1..<254]
     @ [Lit ''Map of active pages'', Newline]"

lemma report_errors: "set (lists_header ft sb) \<inter> error_texts = {}" "set map_report \<inter> error_texts = {}"
  using slot_out_errors [of 0 "[1..<254]"]
  by (auto simp: lists_header_def map_report_def error_texts_def simp del: upt_rec_numeral)

lemma format_super_facts:
  assumes "3 \<le> nb"
  shows "completeHead (freeLists (format_super nb)) = 0" "partialHead (freeLists (format_super nb)) = 32"
    "partialTail (freeLists (format_super nb)) = 16 * int (nb - 1)" "latest_vaddr_map (format_super nb) = 16"
  using assms by (simp_all add: format_super_def zero_super_def of_nat_diff)

lemma printFreeLists_formatted:
  assumes fmt: "partial_chain nb (sn_nand s) 32 (map ((*) 16) [2..<nb])" "3 \<le> nb" "sn_super s = format_super nb"
    and s: "readable nb s" "blockStat s = replicate nb UNMARKED"
  shows "\<exists>s'. printFreeLists s = Some (Inr s') \<and> readable nb s' \<and> same_device s s'
    \<and> sn_out s' = sn_out s @ lists_header (sn_features s) (sn_super s) @ list_out 1 (map ((*) 16) [2..<nb])
        @ [Newline, Newline, Newline, Newline]
    \<and> blockStat s' = mark_blocks PARTIALLY_FREE (map ((*) 16) [2..<nb]) (replicate nb UNMARKED)"
proof -
  let ?bs = "map ((*) 16) [2..<nb]" and ?s = "printf (lists_header (sn_features s) (sn_super s)) s"
  note sb = format_super_facts [OF fmt(2)]
  have c: "completeHead (freeLists (sn_super s)) = 0 \<Longrightarrow>
      showFreeList COMPLETELY_FREE s = Some (Inr (printf [Newline, Newline] s))" for s
    by (simp add: showFreeList_def getFreeListHead_def show_loop.simps finish_list_def isValidTail_def)
  have p: "printFreeLists s = map_option (map_sum id (printf [Newline, Newline])) (showFreeList PARTIALLY_FREE ?s)"
    using sb(1) fmt(3) by (simp add: printFreeLists_def Let_def c lists_header_def printf_def)
  have r: "readable nb ?s" using s(1) by simp
  have pc: "partial_chain nb (sn_nand ?s) (partialHead (freeLists (sn_super ?s))) ?bs"
    using fmt(1,3) sb(2) by (simp del: partial_chain.simps)
  have dis: "distinct (map (\<lambda>b. b div 16) ?bs)" by (simp add: o_def)
  have um: "\<forall>b \<in> set ?bs. blockStat ?s ! (b div 16) = UNMARKED" using s(2) by auto
  have l: "int (last ?bs) = partialTail (freeLists (sn_super ?s))" using fmt(2,3) sb(3) by (simp add: last_map)
  obtain s1 where s1: "showFreeList PARTIALLY_FREE ?s = Some (Inr s1)"
    "sn_out s1 = sn_out ?s @ list_out 1 ?bs @ [Newline, Newline]"
    "blockStat s1 = mark_blocks PARTIALLY_FREE ?bs (blockStat ?s)" "readable nb s1" "same_device ?s s1"
    using showFreeList_chain [OF r pc dis um] l by auto
  then show ?thesis using p s(2) by (simp add: same_device_def)
qed

lemma printVaddrMap_formatted:
  assumes fmt: "dec_map 254 (contents (page_at (sn_nand s) 16)) = formatted_map" "3 \<le> nb" "sn_super s = format_super nb"
    and s: "readable nb s" "numBlocks (sn_features s) = int nb" "\<forall>b \<in> set [2..<nb]. blockStat s ! b \<noteq> UNMARKED"
    and u: "0 \<le> dec32 (stack_bytes 4 u)"
  shows "\<exists>s'. printVaddrMap u s = Some (Inr s') \<and> sn_out s' = sn_out s @ map_report"
proof -
  have "nand_ok nb (sn_nand s)" "page_ok (sn_page s)" using s(1) by (simp_all add: readable_def)
  from readNAND_page [OF this(1) _ this(2), of 16] fmt(2) obtain v where
    v: "readNAND (sn_page s) 16 (sn_nand s) = (1048, page_at (sn_nand s) 16, v)" by auto
  have used: "used_loop [2..<nb] s' = s'" if "blockStat s' = blockStat s" for s'
    using s(3) that by (intro used_loop_marked) simp
  have sl: "slot_chain (vmap formatted_map) 1 [1..<254]" using slot_chain_formatted formatted_map_facts(3) by simp
  have "map_size formatted_map = 254" by (simp add: formatted_map_def)
  then show ?thesis
    using v fmt s(2) used format_super_facts(4) [OF fmt(2)]
    by (simp add: printVaddrMap_def getVaddrMap_def Let_def printActiveMappings_def
        active_loop_none [OF formatted_map_facts(1,2) u] printFreePositions_def formatted_map_facts(3)
        free_loop_chain [OF sl formatted_map_facts(1)] updateBlockStatAndPrintUsedPages_def map_report_def
        del: upt_rec_numeral)
qed

text \<open>
  Run on a formatted device, \<open>showNAND\<close> returns 0, prints blocks 2 to the last in order as
  the partially used free list, and reports neither a cycle nor an invalid tail, provided
  the index that \<open>printActiveMappings\<close> does not initialise happens not to be negative.
\<close>

theorem showNAND_formatted:
  assumes "formatted nb v" "3 \<le> nb" "vfd v = Some f" "0 \<le> dec32 (stack_bytes 4 u)"
  shows "\<exists>pre post. showNAND_main u 0 (Some (f\<lparr>fpos := 0\<rparr>)) v0 = Some (Inr (0, pre @ list_out 1 (map ((*) 16) [2..<nb]) @ post))
    \<and> (set pre \<union> set (list_out 1 (map ((*) 16) [2..<nb])) \<union> set post) \<inter> error_texts = {}"
proof -
  have img: "image_ok nb v" and sb: "dec_super (contents (page_at v 0)) = format_super nb"
    and mp: "dec_map 254 (contents (page_at v 16)) = formatted_map" and ch: "partial_chain nb v 32 (map ((*) 16) [2..<nb])"
    using assms(1) by (simp_all add: formatted_def)
  define v1 where "v1 = v\<lparr>vfd := Some (f\<lparr>fpos := 8\<rparr>)\<rparr>"
  note re = reattach [OF img assms(3), folded v1_def]
  have ft: "numBlocks (features v) = int nb" using img by (simp add: image_ok_def nand_ok_def)
  have ok1: "nand_ok nb v1" using re(2) by (simp add: image_ok_def)
  obtain v2 where v2: "readNAND zero_page 0 v1 = (1048, page_at v 0, v2)" "nand_ok nb v2" "file_bytes v2 = file_bytes v1"
    using readNAND_page [OF ok1 _ page_ok_zero_page, of 0] assms(2) by (auto simp: page_at_cong [OF re(3)])
  have pg2: "page_at v2 = page_at v" using page_at_cong [OF abs_nand_cong [OF v2(3)]] page_at_cong [OF re(3)] by simp
  define s0 where "s0 = \<lparr>sn_page = zero_page, sn_super = format_super nb, sn_features = features v,
     blockStat = replicate nb UNMARKED, sn_nand = v2, sn_out = []\<rparr>"
  have r0: "readable nb s0" using v2(2) by (simp add: readable_def s0_def)
  have "partial_chain nb (sn_nand s0) 32 (map ((*) 16) [2..<nb])"
    using ch partial_chain_cong [OF pg2] by (simp add: s0_def del: partial_chain.simps)
  from printFreeLists_formatted [OF this assms(2) _ r0] obtain s1 where
    s1: "printFreeLists s0 = Some (Inr s1)" "readable nb s1" "same_device s0 s1"
    "sn_out s1 = lists_header (features v) (format_super nb) @ list_out 1 (map ((*) 16) [2..<nb]) @ [Newline, Newline, Newline, Newline]"
    "blockStat s1 = mark_blocks PARTIALLY_FREE (map ((*) 16) [2..<nb]) (replicate nb UNMARKED)" by (auto simp: s0_def)
  have sd: "sn_super s1 = format_super nb" "sn_features s1 = features v" "file_bytes (sn_nand s1) = file_bytes v2"
    using s1(3) by (simp_all add: same_device_def s0_def)
  have "page_at (sn_nand s1) = page_at v" using page_at_cong [OF abs_nand_cong [OF sd(3)]] pg2 by simp
  then have "dec_map 254 (contents (page_at (sn_nand s1) 16)) = formatted_map" using mp by simp
  moreover have "\<forall>b \<in> set [2..<nb]. blockStat s1 ! b \<noteq> UNMARKED"
    by (auto simp: s1(5) nth_mark_blocks image_image)
  ultimately obtain s2 where s2: "printVaddrMap u s1 = Some (Inr s2)" "sn_out s2 = sn_out s1 @ map_report"
    using printVaddrMap_formatted [OF _ assms(2) sd(1) s1(2) _ _ assms(4)] ft sd(2) by auto
  have "showNAND_main u 0 (Some (f\<lparr>fpos := 0\<rparr>)) v0 = Some (Inr (0, sn_out s2))"
    using re(1) v2(1) sb ft s1(1) s2(1) by (simp add: showNAND_main_def s0_def)
  then show ?thesis
    using report_errors list_out_errors [of 1 "map ((*) 16) [2..<nb]"] s1(4) s2(2)
    by (intro exI [of _ "lists_header (features v) (format_super nb)"] exI [of _ "[Newline, Newline, Newline, Newline] @ map_report"])
      (auto simp: error_texts_def)
qed

theorem showNAND_formatted_witness:
  "\<exists>f pre post. showNAND_main (\<lambda>_. 7) 0 (Some f) vnand0 = Some (Inr (0, pre @ [Dec 32, Lit '', ''] @ post))"
proof -
  obtain v f where v: "formatted 3 v" "vfd v = Some f" using formatted3 by blast
  have u: "0 \<le> dec32 (stack_bytes 4 (\<lambda>_. 7))" by code_simp
  have l: "list_out 1 (map ((*) 16) [2..<3]) = [Dec 32, Lit '', '']" by code_simp
  from showNAND_formatted [OF v(1) _ v(2) u, of vnand0] show ?thesis unfolding l by auto
qed

end
