(* ===== verification/DList.thy ===== *)
theory DList
  imports Main
begin

text \<open>
  Doubly linked lists, as the page cache keeps four of them (\<open>example/cache_code\<close>: the data
  pages by last use, the data and the metadata pages of an open file, the open files by last
  use). A list is seen through its four parts: the functions that give the next and the
  previous node, the head and the tail. \<open>dl_rep\<close> relates it to the HOL list of its nodes.

  The operations here are the pointer manipulations of the code on that view; a locale per
  way of adding (\<open>dl_front\<close>, \<open>dl_back\<close>) states how a concrete list implements them and
  gives its behaviour as an HOL list. They are interpreted for each of the four lists.
\<close>

type_synonym node = nat

record dlist =
  dnext :: "node \<Rightarrow> node"
  dprev :: "node \<Rightarrow> node"
  dhead :: node
  dtail :: node

section \<open>Segments\<close>

text \<open>The nodes \<open>xs\<close> linked both ways, between \<open>pr\<close> and \<open>nx\<close>.\<close>

fun seg :: "(node \<Rightarrow> node) \<Rightarrow> (node \<Rightarrow> node) \<Rightarrow> node \<Rightarrow> node list \<Rightarrow> node \<Rightarrow> bool" where
  "seg n p pr [] nx \<longleftrightarrow> True"
| "seg n p pr (x # xs) nx \<longleftrightarrow> p x = pr \<and> n x = hd (xs @ [nx]) \<and> seg n p x xs nx"

definition dl_rep :: "dlist \<Rightarrow> node list \<Rightarrow> bool" where
  "dl_rep d xs \<longleftrightarrow> distinct xs \<and> 0 \<notin> set xs \<and> seg (dnext d) (dprev d) 0 xs 0
     \<and> dhead d = hd (xs @ [0]) \<and> dtail d = last (0 # xs)"

lemma seg_append:
  "seg n p pr (xs @ ys) nx \<longleftrightarrow> seg n p pr xs (hd (ys @ [nx])) \<and> seg n p (last (pr # xs)) ys nx"
proof (induction xs arbitrary: pr)
  case (Cons x xs)
  then show ?case by (cases xs) auto
qed simp

lemma seg_upd_next [simp]: "x \<notin> set xs \<Longrightarrow> seg (n(x := a)) p pr xs nx = seg n p pr xs nx"
  by (induction xs arbitrary: pr) auto

lemma seg_upd_prev [simp]: "x \<notin> set xs \<Longrightarrow> seg n (p(x := a)) pr xs nx = seg n p pr xs nx"
  by (induction xs arbitrary: pr) auto

lemma seg_cong:
  "(\<And>x. x \<in> set xs \<Longrightarrow> n' x = n x \<and> p' x = p x) \<Longrightarrow> seg n' p' pr xs nx = seg n p pr xs nx"
  by (induction xs arbitrary: pr) auto

text \<open>A list is determined by the links of its own nodes, its head and its tail.\<close>

lemma dl_rep_cong:
  assumes "\<And>x. x \<in> set xs \<Longrightarrow> dnext d' x = dnext d x \<and> dprev d' x = dprev d x" "dhead d' = dhead d" "dtail d' = dtail d"
  shows "dl_rep d' xs = dl_rep d xs"
  using seg_cong [of xs "dnext d'" "dnext d" "dprev d'" "dprev d" 0 0] assms by (simp add: dl_rep_def)

lemma seg_last_next: "seg n p pr (as @ [a]) nx \<Longrightarrow> a \<notin> set as \<Longrightarrow> seg (n(a := y)) p pr (as @ [a]) y"
  by (simp add: seg_append)

lemma seg_first_prev: "seg n p pr (b # bs) nx \<Longrightarrow> b \<notin> set bs \<Longrightarrow> seg n (p(b := q)) q (b # bs) nx"
  by simp

section \<open>Operations\<close>

definition push_front :: "node \<Rightarrow> dlist \<Rightarrow> dlist" where
  "push_front e d =
     (let h = dhead d;
          d1 = d\<lparr>dnext := (dnext d)(e := h), dprev := (dprev d)(e := 0)\<rparr>;
          d2 = (if h = 0 then d1\<lparr>dtail := e\<rparr> else d1\<lparr>dprev := (dprev d1)(h := e)\<rparr>)
      in d2\<lparr>dhead := e\<rparr>)"

definition push_back :: "node \<Rightarrow> dlist \<Rightarrow> dlist" where
  "push_back e d =
     (let t = dtail d;
          d1 = d\<lparr>dprev := (dprev d)(e := t), dnext := (dnext d)(e := 0)\<rparr>;
          d2 = (if t = 0 then d1\<lparr>dhead := e\<rparr> else d1\<lparr>dnext := (dnext d1)(t := e)\<rparr>)
      in d2\<lparr>dtail := e\<rparr>)"

definition unlink_node :: "node \<Rightarrow> dlist \<Rightarrow> dlist" where
  "unlink_node e d =
     (let d1 = (if e = dhead d then d\<lparr>dhead := dnext d e\<rparr>
                else d\<lparr>dnext := (dnext d)(dprev d e := dnext d e)\<rparr>)
      in if e = dtail d1 then d1\<lparr>dtail := dprev d1 e\<rparr>
         else d1\<lparr>dprev := (dprev d1)(dnext d1 e := dprev d1 e)\<rparr>)"

text \<open>Moving a node to the front the way \<open>cache_updateDataLruHead\<close> and \<open>updateLruFileHead\<close> do it.\<close>

definition move_front :: "node \<Rightarrow> dlist \<Rightarrow> dlist" where
  "move_front e d =
     (let pv = dprev d e; nx = dnext d e in
      if pv = 0 then d
      else let d1 = d\<lparr>dnext := (dnext d)(pv := nx), dprev := (dprev d)(pv := e)\<rparr>;
               d2 = (if nx \<noteq> 0 then d1\<lparr>dprev := (dprev d1)(nx := pv)\<rparr> else d1\<lparr>dtail := pv\<rparr>)
           in d2\<lparr>dnext := (dnext d2)(e := dhead d2), dprev := (dprev d2)(e := 0), dhead := e\<rparr>)"

section \<open>Their effect on the list of nodes\<close>

lemma dl_rep_facts:
  assumes "dl_rep d xs"
  shows "distinct xs" "0 \<notin> set xs" "seg (dnext d) (dprev d) 0 xs 0" "dhead d = hd (xs @ [0])" "dtail d = last (0 # xs)"
  using assms by (simp_all add: dl_rep_def)

lemma push_front_rep:
  assumes "dl_rep d xs" "e \<noteq> 0" "e \<notin> set xs"
  shows "dl_rep (push_front e d) (e # xs)"
proof (cases xs)
  case Nil
  with assms show ?thesis by (simp add: dl_rep_def push_front_def)
next
  case (Cons y ys)
  with assms show ?thesis by (auto simp: dl_rep_def push_front_def Let_def)
qed

lemma push_back_rep:
  assumes "dl_rep d xs" "e \<noteq> 0" "e \<notin> set xs"
  shows "dl_rep (push_back e d) (xs @ [e])"
proof (cases xs rule: rev_cases)
  case Nil
  with assms show ?thesis by (simp add: dl_rep_def push_back_def)
next
  case (snoc ys y)
  note r = dl_rep_facts [OF assms(1)]
  have t: "dtail d = y" "y \<noteq> 0" "y \<noteq> e" "y \<notin> set ys" "e \<notin> set ys" using r(1,2,5) snoc assms(3) by auto
  have "seg (dnext d) (dprev d) 0 ys y" "dprev d y = last (0 # ys)"
    using r(3) snoc by (simp_all add: seg_append)
  moreover have "hd ((ys @ [y, e]) @ [0]) = hd ((ys @ [y]) @ [0])" by (cases ys) simp_all
  ultimately show ?thesis
    using r t snoc assms(2) by (simp add: dl_rep_def push_back_def Let_def seg_append)
qed

lemma dl_rep_split:
  assumes "dl_rep d (as @ e # bs)"
  shows "seg (dnext d) (dprev d) 0 as e" "dprev d e = last (0 # as)" "dnext d e = hd (bs @ [0])"
    "seg (dnext d) (dprev d) e bs 0"
  using dl_rep_facts(3) [OF assms] by (simp_all add: seg_append)

text \<open>The pointers an operation follows lead to nodes of the list.\<close>

lemma dl_rep_ends: "dl_rep d xs \<Longrightarrow> dhead d \<noteq> 0 \<Longrightarrow> dhead d \<in> set xs" "dl_rep d xs \<Longrightarrow> dtail d \<noteq> 0 \<Longrightarrow> dtail d \<in> set xs"
  by (cases xs; simp add: dl_rep_def)+

lemma dl_rep_prev:
  assumes "dl_rep d xs" "e \<in> set xs" "e \<noteq> dhead d"
  shows "dprev d e \<in> set xs" "dprev d e \<noteq> e"
proof -
  obtain as bs where xs: "xs = as @ e # bs" using split_list [OF assms(2)] by blast
  with assms have "as \<noteq> []" by (auto simp: dl_rep_def)
  moreover have "dprev d e = last (0 # as)" using dl_rep_split(2) assms(1) xs by blast
  ultimately have "dprev d e \<in> set as" by simp
  then show "dprev d e \<in> set xs" "dprev d e \<noteq> e" using xs dl_rep_facts(1) [OF assms(1)] by auto
qed

lemma dl_rep_next:
  assumes "dl_rep d xs" "e \<in> set xs" "e \<noteq> dtail d"
  shows "dnext d e \<in> set xs" "dnext d e \<noteq> e"
proof -
  obtain as bs where xs: "xs = as @ e # bs" using split_list [OF assms(2)] by blast
  with assms have "bs \<noteq> []" by (auto simp: dl_rep_def)
  moreover have "dnext d e = hd (bs @ [0])" using dl_rep_split(3) assms(1) xs by blast
  ultimately have "dnext d e \<in> set bs" by (cases bs) auto
  then show "dnext d e \<in> set xs" "dnext d e \<noteq> e" using xs dl_rep_facts(1) [OF assms(1)] by auto
qed

lemma dl_rep_neighbours:
  assumes "dl_rep d xs" "e \<in> set xs" "e \<noteq> dhead d" "e \<noteq> dtail d"
  shows "dnext d e \<noteq> dprev d e"
proof -
  obtain as bs where xs: "xs = as @ e # bs" using split_list [OF assms(2)] by blast
  with assms have "as \<noteq> []" "bs \<noteq> []" by (auto simp: dl_rep_def)
  moreover have "dnext d e = hd (bs @ [0])" "dprev d e = last (0 # as)"
    using dl_rep_split(2,3) assms(1) xs by blast+
  ultimately have "dnext d e \<in> set bs" "dprev d e \<in> set as" by (cases bs; simp)+
  then show ?thesis using xs dl_rep_facts(1) [OF assms(1)] by auto
qed

lemma unlink_node_rep:
  assumes "dl_rep d (as @ e # bs)"
  shows "dl_rep (unlink_node e d) (as @ bs)"
proof -
  note r = dl_rep_facts [OF assms] and s = dl_rep_split [OF assms]
  have e: "e \<notin> set as" "e \<notin> set bs" "e \<noteq> 0" using r(1,2) by auto
  have dj: "set as \<inter> set bs = {}" "distinct as" "distinct bs" using r(1) by auto
  have z: "0 \<notin> set as" "0 \<notin> set bs" using r(2) by auto
  show ?thesis
  proof (cases as rule: rev_cases)
    case Nil
    then show ?thesis using r s e dj z by (cases bs) (auto simp: dl_rep_def unlink_node_def Let_def)
  next
    case (snoc as' a)
    have ha: "dhead d = hd (as @ [0])" "e \<noteq> dhead d" "dprev d e = a"
      using r(4) s(2) snoc e by (auto simp: hd_append split: if_splits)
    have "seg (dnext d) (dprev d) 0 (as' @ [a]) e" "a \<notin> set as'" using s(1) dj(2) snoc by auto
    then have as: "seg ((dnext d)(a := hd (bs @ [0]))) (dprev d) 0 as (hd (bs @ [0]))"
      unfolding snoc by (rule seg_last_next)
    show ?thesis
    proof (cases bs)
      case Nil
      with r s e dj z ha as snoc show ?thesis
        by (auto simp: dl_rep_def unlink_node_def Let_def)
    next
      case (Cons b bs')
      have b: "b \<notin> set as" "b \<noteq> a" "a \<notin> set bs" "b \<notin> set bs'" "last bs \<noteq> e"
        using dj snoc Cons e by (auto dest: last_in_set)
      have "seg ((dnext d)(a := b)) ((dprev d)(b := a)) a bs 0"
        using s(4) b Cons by simp
      with as b e dj z ha r s snoc Cons show ?thesis
        by (auto simp: dl_rep_def unlink_node_def Let_def seg_append hd_append)
    qed
  qed
qed

text \<open>Moving the first node is no change, moving the second swaps it with the first.\<close>

lemma move_front_first: "dl_rep d (e # bs) \<Longrightarrow> move_front e d = d"
  by (simp add: dl_rep_def move_front_def)

lemma move_front_second:
  assumes "dl_rep d (a # e # bs)"
  shows "dl_rep (move_front e d) (e # a # bs)"
  using assms by (cases bs) (auto simp: dl_rep_def move_front_def Let_def)

text \<open>The nodes reached from the head by the next links alone.\<close>

fun fwd :: "(node \<Rightarrow> node) \<Rightarrow> node \<Rightarrow> node list \<Rightarrow> bool" where
  "fwd n h [] \<longleftrightarrow> h = 0"
| "fwd n h (x # xs) \<longleftrightarrow> h = x \<and> x \<noteq> 0 \<and> fwd n (n x) xs"

lemma fwd_upd [simp]: "x \<notin> set xs \<Longrightarrow> fwd (n(x := a)) h xs = fwd n h xs"
  by (induction xs arbitrary: h) auto

lemma fwd_cong: "(\<And>x. x \<in> set xs \<Longrightarrow> n' x = n x) \<Longrightarrow> fwd n' h xs = fwd n h xs"
  by (induction xs arbitrary: h) auto

lemma fwd_hd: "fwd n h xs \<Longrightarrow> h = hd (xs @ [0])"
  by (cases xs) auto

text \<open>Inserting a node into a chain: at its start, or after one of its nodes.\<close>

lemma fwd_insert_first: "fwd n h zs \<Longrightarrow> x \<noteq> 0 \<Longrightarrow> x \<notin> set zs \<Longrightarrow> fwd (n(x := h)) x (x # zs)"
  by (simp del: fun_upd_apply add: fun_upd_same)

lemma fwd_insert_after:
  "fwd n h (ys @ y # zs) \<Longrightarrow> distinct (ys @ y # zs) \<Longrightarrow> x \<noteq> 0 \<Longrightarrow> x \<notin> set (ys @ y # zs) \<Longrightarrow>
   fwd (n(x := hd (zs @ [0]), y := x)) h (ys @ y # x # zs)"
proof (induction ys arbitrary: h)
  case Nil
  then have "fwd n (hd (zs @ [0])) zs" using fwd_hd [of n "n y" zs] by simp
  with Nil show ?case by (simp del: fun_upd_apply add: fun_upd_same fun_upd_other)
next
  case (Cons a ys)
  then show ?case by (simp del: fun_upd_apply add: fun_upd_other)
qed

lemma fwd_last: "fwd n h (xs @ [x]) \<Longrightarrow> n x = 0"
  by (induction xs arbitrary: h) auto

lemma seg_fwd: "seg n p pr xs 0 \<Longrightarrow> 0 \<notin> set xs \<Longrightarrow> fwd n (hd (xs @ [0])) xs"
  by (induction xs arbitrary: pr) auto

lemma dl_rep_fwd: "dl_rep d xs \<Longrightarrow> fwd (dnext d) (dhead d) xs"
  using seg_fwd [of "dnext d" "dprev d" 0 xs] by (simp add: dl_rep_def)

lemma fwd_skip:
  assumes "seg n p pr (as @ [a]) e" "0 \<notin> set (as @ [a])" "a \<notin> set as" "a \<notin> set bs" "fwd n y bs"
  shows "fwd (n(a := y)) (hd (as @ [a])) (as @ a # bs)"
  using assms
proof (induction as arbitrary: pr)
  case Nil
  then show ?case by (simp add: fun_upd_same del: fun_upd_apply)
next
  case (Cons x as)
  have "fwd (n(a := y)) (hd (as @ [a])) (as @ a # bs)"
    by (rule Cons.IH [of x]) (use Cons.prems in auto)
  moreover have "n x = hd (as @ [a])" using Cons.prems(1) by (cases as) auto
  ultimately show ?case using Cons.prems(2,3) by (simp del: fun_upd_apply add: fun_upd_other)
qed

text \<open>
  Moving any later node gets the next links right, but not the links back: the old head
  keeps 0 as its previous node, and the node before the moved one gets the moved one.
\<close>

lemma move_front_later:
  assumes "dl_rep d (h # as @ [a] @ e # bs)"
  shows "fwd (dnext (move_front e d)) (dhead (move_front e d)) (e # h # as @ [a] @ bs)"
    "dprev (move_front e d) h = 0" "dprev (move_front e d) a = e"
proof -
  note r = dl_rep_facts [OF assms] and s = dl_rep_split [of d "h # as @ [a]" e bs]
  have sp: "seg (dnext d) (dprev d) 0 ((h # as) @ [a]) e" "dprev d e = a" "dnext d e = hd (bs @ [0])"
    "seg (dnext d) (dprev d) e bs 0"
    using s assms by simp_all
  have ne: "a \<noteq> 0" "e \<noteq> 0" "a \<noteq> e" "h \<noteq> a" "h \<noteq> e" "a \<notin> set (h # as)" "a \<notin> set bs" "e \<notin> set bs" "e \<notin> set as"
    "0 \<notin> set ((h # as) @ [a])" "h \<notin> set bs" "a \<noteq> hd (bs @ [0])" "h \<noteq> hd (bs @ [0])"
    using r(1,2) by (cases bs; auto)+
  have "fwd (dnext d) (hd (bs @ [0])) bs" using sp(4) r(2) by (intro seg_fwd) auto
  from fwd_skip [OF sp(1) ne(10,6,7) this]
  have f: "fwd ((dnext d)(a := hd (bs @ [0]))) h (h # as @ a # bs)" by simp
  have hp: "dprev d h = 0" "dhead d = h" using r(3,4) by simp_all
  have mf: "dnext (move_front e d) = (dnext d)(a := hd (bs @ [0]), e := h)" "dhead (move_front e d) = e"
    using sp ne hp by (simp_all add: move_front_def Let_def)
  show "fwd (dnext (move_front e d)) (dhead (move_front e d)) (e # h # as @ [a] @ bs)"
    using f ne by (simp add: mf)
  show "dprev (move_front e d) h = 0" "dprev (move_front e d) a = e"
    using sp ne hp by (simp_all add: move_front_def Let_def)
qed

section \<open>Interfaces\<close>

text \<open>The list seen through \<open>view\<close> has the nodes \<open>xs\<close>, all of them live.\<close>

definition dl_holds :: "('s \<Rightarrow> dlist) \<Rightarrow> ('s \<Rightarrow> node set) \<Rightarrow> 's \<Rightarrow> node list \<Rightarrow> bool" where
  "dl_holds view live s xs \<longleftrightarrow> dl_rep (view s) xs \<and> set xs \<subseteq> live s"

text \<open>
  A list inside a state: how to see it, the nodes it may touch, and the operation that
  takes a node out of it.
\<close>

locale dl_list =
  fixes view :: "'s \<Rightarrow> dlist" and live :: "'s \<Rightarrow> node set" and remove :: "node \<Rightarrow> 's \<Rightarrow> 's option"
  assumes remove_view: "dl_rep (view s) xs \<Longrightarrow> set xs \<subseteq> live s \<Longrightarrow> e \<in> set xs \<Longrightarrow>
     \<exists>s'. remove e s = Some s' \<and> view s' = unlink_node e (view s) \<and> live s' = live s"
begin

lemma remove_list:
  assumes "dl_holds view live s xs" "e \<in> set xs"
  shows "\<exists>s'. remove e s = Some s' \<and> dl_holds view live s' (remove1 e xs) \<and> live s' = live s"
proof -
  obtain as bs where xs: "xs = as @ e # bs" "e \<notin> set as" using split_list_first [OF assms(2)] by blast
  obtain s' where s': "remove e s = Some s'" "view s' = unlink_node e (view s)" "live s' = live s"
    using remove_view [of s xs e] assms by (auto simp: dl_holds_def)
  have "dl_rep (view s') (as @ bs)" using unlink_node_rep assms(1) by (simp add: s'(2) xs dl_holds_def)
  with s' assms(1) xs show ?thesis by (auto simp: dl_holds_def remove1_append)
qed

end

locale dl_front = dl_list view live remove
  for view :: "'s \<Rightarrow> dlist" and live :: "'s \<Rightarrow> node set" and remove :: "node \<Rightarrow> 's \<Rightarrow> 's option" +
  fixes add :: "node \<Rightarrow> 's \<Rightarrow> 's option"
  assumes add_view: "dl_rep (view s) xs \<Longrightarrow> set xs \<subseteq> live s \<Longrightarrow> e \<in> live s \<Longrightarrow> e \<notin> set xs \<Longrightarrow>
     \<exists>s'. add e s = Some s' \<and> view s' = push_front e (view s) \<and> live s' = live s"
begin

lemma add_list:
  assumes "dl_holds view live s xs" "e \<in> live s" "e \<noteq> 0" "e \<notin> set xs"
  shows "\<exists>s'. add e s = Some s' \<and> dl_holds view live s' (e # xs) \<and> live s' = live s"
  using add_view [of s xs e] push_front_rep [of "view s" xs e] assms by (auto simp: dl_holds_def)

end

text \<open>Adding at the end is done only to a node whose two links are null.\<close>

locale dl_back = dl_list view live remove
  for view :: "'s \<Rightarrow> dlist" and live :: "'s \<Rightarrow> node set" and remove :: "node \<Rightarrow> 's \<Rightarrow> 's option" +
  fixes add :: "node \<Rightarrow> 's \<Rightarrow> 's option"
  assumes add_view: "dl_rep (view s) xs \<Longrightarrow> set xs \<subseteq> live s \<Longrightarrow> e \<in> live s \<Longrightarrow> e \<notin> set xs \<Longrightarrow>
       dnext (view s) e = 0 \<Longrightarrow> dprev (view s) e = 0 \<Longrightarrow>
     \<exists>s'. add e s = Some s' \<and> view s' = push_back e (view s) \<and> live s' = live s"
begin

lemma add_list:
  assumes "dl_holds view live s xs" "e \<in> live s" "e \<noteq> 0" "e \<notin> set xs" "dnext (view s) e = 0" "dprev (view s) e = 0"
  shows "\<exists>s'. add e s = Some s' \<and> dl_holds view live s' (xs @ [e]) \<and> live s' = live s"
  using add_view [of s xs e] push_back_rep [of "view s" xs e] assms by (auto simp: dl_holds_def)

end

end
