(* ===== verification/Page_Cache.thy ===== *)
theory Page_Cache
  imports Complex_Main Disk_Formats DList "HOL-Library.Monad_Syntax" "HOL-Library.Log_Nat" "HOL-Library.List_Lexorder" "HOL-Library.Char_ord"
begin

text \<open>
  The page cache: \<open>example/cache_code/cache.c\<close> on the structures of
  \<open>example/cache_code/cacheStructs.h\<close>.

  Keys, pages, entries, open files and logs are objects in a store; a pointer is a number
  and 0 is the null pointer. The one \<open>addressCache\<close> and the two global pointers of
  \<open>filesystem.c\<close> are fields of the state. \<open>None\<close> is undefined behaviour: a null or freed
  pointer is followed, a string buffer is too short, an \<open>int\<close> overflows. The loops along the
  chain of a bin are partial functions, shown to end on every well-formed table.

  \<open>cache_rep\<close> is the invariant of the hash table: each bin is a chain of entries in strictly
  increasing order of the decimal numbers of their keys. The lemmas show that the cache is
  a map from those numbers to entries.
\<close>

section \<open>Structures\<close>

record pageKey =
  kfile :: node
  dataOffset :: int
  levelsAbove :: int

record cacheEntry =
  ekey :: node
  ewp :: node
  enext :: node
  dirty :: int
  lruDataNext :: node
  lruDataPrev :: node
  fileDataNext :: node
  fileDataPrev :: node
  fileMetadataNext :: node
  fileMetadataPrev :: node

text \<open>The fields of \<open>struct openFile\<close> that the cache uses; \<open>treeHeight\<close> and \<open>c_direct\<close> belong to its inode.\<close>

record cfile =
  c_address :: int
  c_log :: node
  treeHeight :: int
  c_direct :: "int list"
  dataHead :: node
  dataTail :: node
  metadataHead :: node
  metadataTail :: node
  lruFileNext :: node
  lruFilePrev :: node

record cstate =
  ckeys :: "node \<Rightarrow> pageKey option"
  cwps :: "node \<Rightarrow> writeablePage option"
  centries :: "node \<Rightarrow> cacheEntry option"
  cfiles :: "node \<Rightarrow> cfile option"
  calogs :: "node \<Rightarrow> activeLog option"
  hbrk :: node
  MAX_SIZE :: int
  csize :: int
  ctable :: "node list"
  lruDataHead :: node
  lruDataTail :: node
  lruFileHead :: node
  lruFileTail :: node

text \<open>Following a pointer to an entry, and storing through it.\<close>

definition entry_at :: "node \<Rightarrow> cstate \<Rightarrow> cacheEntry option" where
  "entry_at p s = (if p = 0 then None else centries s p)"

definition upd_entry :: "node \<Rightarrow> (cacheEntry \<Rightarrow> cacheEntry) \<Rightarrow> cstate \<Rightarrow> cstate option" where
  "upd_entry p f s = do { e \<leftarrow> entry_at p s; Some (s\<lparr>centries := (centries s)(p := Some (f e))\<rparr>) }"

definition file_at :: "node \<Rightarrow> cstate \<Rightarrow> cfile option" where
  "file_at p s = (if p = 0 then None else cfiles s p)"

definition upd_file :: "node \<Rightarrow> (cfile \<Rightarrow> cfile) \<Rightarrow> cstate \<Rightarrow> cstate option" where
  "upd_file p f s = do { e \<leftarrow> file_at p s; Some (s\<lparr>cfiles := (cfiles s)(p := Some (f e))\<rparr>) }"

section \<open>Creating the cache\<close>

text \<open>\<open>None\<close> here is the null pointer returned for a size below 1.\<close>

definition cache_create :: "int \<Rightarrow> cstate \<Rightarrow> cstate option" where
  "cache_create siz s =
     (if siz < 1 then None
      else Some (s\<lparr>ctable := replicate (nat siz) 0, csize := 0, MAX_SIZE := siz,
                   lruDataHead := 0, lruDataTail := 0\<rparr>))"

section \<open>Keys as decimal strings\<close>

definition add32 :: "int \<Rightarrow> int \<Rightarrow> int option" where
  "add32 x y = (if is_int32 (x + y) then Some (x + y) else None)"

definition key_num :: "cstate \<Rightarrow> node \<Rightarrow> int option" where
  "key_num s k = do {
     key \<leftarrow> (if k = 0 then None else ckeys s k);
     f \<leftarrow> file_at (kfile key) s;
     n \<leftarrow> add32 (c_address f) (dataOffset key);
     add32 n (levelsAbove key) }"

text \<open>\<open>sprintf\<close> with \<open>%d\<close> of a positive number, and \<open>ceil(log10(n))\<close>.\<close>

function decimal :: "nat \<Rightarrow> string" where
  "decimal n = (if n < 10 then [char_of (48 + n)] else decimal (n div 10) @ [char_of (48 + n mod 10)])"
  by auto
termination by (relation "measure (\<lambda>n. n)") auto

declare decimal.simps [simp del]

function clog10 :: "nat \<Rightarrow> nat" where
  "clog10 n = (if n \<le> 1 then 0 else Suc (clog10 ((n + 9) div 10)))"
  by auto
termination by (relation "measure (\<lambda>n. n)") auto

declare clog10.simps [simp del]

lemma decimal_digits:
  "n < 10 \<Longrightarrow> decimal n = [char_of (48 + n)]"
  "10 \<le> n \<Longrightarrow> decimal n = decimal (n div 10) @ [char_of (48 + n mod 10)]"
  by (simp_all add: decimal.simps [of n])

lemma clog10_steps:
  "n \<le> 1 \<Longrightarrow> clog10 n = 0"
  "1 < n \<Longrightarrow> clog10 n = Suc (clog10 ((n + 9) div 10))"
  by (simp_all add: clog10.simps [of n])

text \<open>
  The buffer has \<open>ceil(log10(num)) + 1\<close> bytes, for the digits and the terminating zero; for a
  number that is not positive the logarithm has no value to convert.
\<close>

definition decimal_buf :: "int \<Rightarrow> string option" where
  "decimal_buf num =
     (if 0 < num \<and> length (decimal (nat num)) + 1 \<le> clog10 (nat num) + 1
      then Some (decimal (nat num)) else None)"

definition key_string :: "cstate \<Rightarrow> node \<Rightarrow> string option" where
  "key_string s k = do { n \<leftarrow> key_num s k; decimal_buf n }"

fun strcmp :: "string \<Rightarrow> string \<Rightarrow> int" where
  "strcmp [] [] = 0"
| "strcmp [] (b # bs) = -1"
| "strcmp (a # as) [] = 1"
| "strcmp (a # as) (b # bs) = (if a = b then strcmp as bs else if a < b then -1 else 1)"

definition keyCmp :: "cstate \<Rightarrow> node \<Rightarrow> node \<Rightarrow> int option" where
  "keyCmp s key1 key2 = do { str1 \<leftarrow> key_string s key1; str2 \<leftarrow> key_string s key2; Some (strcmp str1 str2) }"

fun djb2 :: "64 word \<Rightarrow> string \<Rightarrow> 64 word" where
  "djb2 h [] = h"
| "djb2 h (c # cs) = djb2 ((push_bit 5 h + h) + of_nat (of_char c)) cs"

definition hash_bin :: "cstate \<Rightarrow> string \<Rightarrow> nat" where
  "hash_bin s str = unat (djb2 5381 str mod of_int (MAX_SIZE s))"

definition cache_hash :: "cstate \<Rightarrow> node \<Rightarrow> nat option" where
  "cache_hash s key = do { str \<leftarrow> key_string s key; if MAX_SIZE s = 0 then None else Some (hash_bin s str) }"

section \<open>The table\<close>

text \<open>Result: the new entry (0 for the null pointer) and the state.\<close>

definition cache_newEntry :: "node \<Rightarrow> node \<Rightarrow> cstate \<Rightarrow> node \<times> cstate" where
  "cache_newEntry key wp s =
     (if MAX_SIZE s \<le> csize s then (0, s)
      else (hbrk s, s\<lparr>centries := (centries s)(hbrk s := Some
        \<lparr>ekey = key, ewp = wp, enext = 0, dirty = 0, lruDataNext = 0, lruDataPrev = 0,
         fileDataNext = 0, fileDataPrev = 0, fileMetadataNext = 0, fileMetadataPrev = 0\<rparr>),
        hbrk := hbrk s + 1, csize := csize s + 1\<rparr>))"

text \<open>The walk along a bin: \<open>last\<close> and \<open>next\<close> where it stops.\<close>

partial_function (option) bin_search :: "cstate \<Rightarrow> node \<Rightarrow> node \<Rightarrow> node \<Rightarrow> (node \<times> node) option" where
  "bin_search s key lst nxt =
     (if nxt = 0 then Some (lst, nxt)
      else do {
        e \<leftarrow> entry_at nxt s;
        if ekey e = 0 then Some (lst, nxt)
        else do {
          c \<leftarrow> keyCmp s key (ekey e);
          if c > 0 then bin_search s key nxt (enext e) else Some (lst, nxt) } })"

text \<open>\<open>next != NULL && next->key != NULL && keyCmp(key, next->key) == 0\<close>\<close>

definition key_matches :: "cstate \<Rightarrow> node \<Rightarrow> node \<Rightarrow> bool option" where
  "key_matches s key nxt =
     (if nxt = 0 then Some False
      else do {
        e \<leftarrow> entry_at nxt s;
        if ekey e = 0 then Some False
        else do { c \<leftarrow> keyCmp s key (ekey e); Some (c = 0) } })"

text \<open>\<open>free\<close> of a page: nothing for the null pointer, undefined for one that is not allocated.\<close>

definition free_page :: "node \<Rightarrow> cstate \<Rightarrow> cstate option" where
  "free_page p s =
     (if p = 0 then Some s
      else if cwps s p = None then None
      else Some (s\<lparr>cwps := (cwps s)(p := None)\<rparr>))"

definition cache_set :: "node \<Rightarrow> node \<Rightarrow> cstate \<Rightarrow> (node \<times> cstate) option" where
  "cache_set key wp s = do {
     bin \<leftarrow> cache_hash s key;
     let fst_entry = ctable s ! bin;
     (lst, nxt) \<leftarrow> bin_search s key 0 fst_entry;
     found \<leftarrow> key_matches s key nxt;
     if found then do {
       e \<leftarrow> entry_at nxt s;
       s \<leftarrow> free_page (ewp e) s;
       s \<leftarrow> upd_entry nxt (ewp_update (\<lambda>_. wp)) s;
       Some (nxt, s) }
     else do {
       let (newentry, s) = cache_newEntry key wp s;
       if nxt = fst_entry then do {
         s \<leftarrow> upd_entry newentry (enext_update (\<lambda>_. nxt)) s;
         Some (newentry, s\<lparr>ctable := (ctable s)[bin := newentry]\<rparr>) }
       else if nxt = 0 then do {
         s \<leftarrow> upd_entry lst (enext_update (\<lambda>_. newentry)) s;
         Some (newentry, s) }
       else do {
         s \<leftarrow> upd_entry newentry (enext_update (\<lambda>_. nxt)) s;
         s \<leftarrow> upd_entry lst (enext_update (\<lambda>_. newentry)) s;
         Some (newentry, s) } } }"

definition cache_get :: "node \<Rightarrow> cstate \<Rightarrow> node option" where
  "cache_get key s = do {
     bin \<leftarrow> cache_hash s key;
     (lst, pair) \<leftarrow> bin_search s key 0 (ctable s ! bin);
     found \<leftarrow> key_matches s key pair;
     Some (if found then pair else 0) }"

text \<open>The loop of \<open>cache_remove\<close>; it is entered with a null \<open>prev\<close>.\<close>

partial_function (option) remove_walk :: "cstate \<Rightarrow> node \<Rightarrow> node \<Rightarrow> node \<Rightarrow> (node \<times> node) option" where
  "remove_walk s key prv cur =
     (if prv = 0 then Some (prv, cur)
      else do {
        p \<leftarrow> entry_at prv s;
        if ekey p = 0 then Some (prv, cur)
        else do {
          e \<leftarrow> entry_at cur s;
          c \<leftarrow> keyCmp s key (ekey e);
          if c > 0 then remove_walk s key cur (enext e) else Some (prv, cur) } })"

definition cache_remove :: "node \<Rightarrow> cstate \<Rightarrow> cstate option" where
  "cache_remove entry s = do {
     e \<leftarrow> entry_at entry s;
     let key = ekey e;
     bin \<leftarrow> cache_hash s key;
     let cur = ctable s ! bin;
     ce \<leftarrow> entry_at cur s;
     c \<leftarrow> keyCmp s (ekey ce) key;
     s \<leftarrow> (if c = 0 then Some (s\<lparr>ctable := (ctable s)[bin := enext e]\<rparr>)
          else do {
            (prv, cur) \<leftarrow> remove_walk s key 0 cur;
            ce \<leftarrow> entry_at cur s;
            c \<leftarrow> keyCmp s key (ekey ce);
            if c = 0 then upd_entry prv (enext_update (\<lambda>_. enext e)) s else Some s });
     Some (s\<lparr>centries := (centries s)(entry := None), csize := csize s - 1\<rparr>) }"

section \<open>The list of data pages by last use\<close>

definition cache_updateDataLruHead :: "node \<Rightarrow> cstate \<Rightarrow> cstate option" where
  "cache_updateDataLruHead entry s = do {
     e \<leftarrow> entry_at entry s;
     let prv = lruDataPrev e;
     let nxt = lruDataNext e;
     if prv = 0 then Some s
     else do {
       s \<leftarrow> upd_entry prv (\<lambda>p. p\<lparr>lruDataNext := nxt, lruDataPrev := entry\<rparr>) s;
       s \<leftarrow> (if nxt \<noteq> 0 then upd_entry nxt (lruDataPrev_update (\<lambda>_. prv)) s
            else Some (s\<lparr>lruDataTail := prv\<rparr>));
       s \<leftarrow> upd_entry entry (\<lambda>e. e\<lparr>lruDataNext := lruDataHead s, lruDataPrev := 0\<rparr>) s;
       Some (s\<lparr>lruDataHead := entry\<rparr>) } }"

definition cache_addDataPageToLru :: "node \<Rightarrow> cstate \<Rightarrow> cstate option" where
  "cache_addDataPageToLru entry s = do {
     let curHead = lruDataHead s;
     s \<leftarrow> upd_entry entry (\<lambda>e. e\<lparr>lruDataNext := curHead, lruDataPrev := 0\<rparr>) s;
     s \<leftarrow> (if curHead = 0 then Some (s\<lparr>lruDataTail := entry\<rparr>)
          else upd_entry curHead (lruDataPrev_update (\<lambda>_. entry)) s);
     Some (s\<lparr>lruDataHead := entry\<rparr>) }"

definition cache_removeDataPageFromLru :: "node \<Rightarrow> cstate \<Rightarrow> cstate option" where
  "cache_removeDataPageFromLru current s = do {
     c \<leftarrow> entry_at current s;
     s \<leftarrow> (if current = lruDataHead s then Some (s\<lparr>lruDataHead := lruDataNext c\<rparr>)
          else upd_entry (lruDataPrev c) (lruDataNext_update (\<lambda>_. lruDataNext c)) s);
     c \<leftarrow> entry_at current s;
     if current = lruDataTail s then Some (s\<lparr>lruDataTail := lruDataPrev c\<rparr>)
     else upd_entry (lruDataNext c) (lruDataPrev_update (\<lambda>_. lruDataPrev c)) s }"

section \<open>Decimal strings\<close>

lemma strcmp_eq [simp]: "strcmp a b = 0 \<longleftrightarrow> a = b"
  by (induction a b rule: strcmp.induct) auto

lemma strcmp_greater [simp]: "0 < strcmp a b \<longleftrightarrow> b < a"
  by (induction a b rule: strcmp.induct) auto

lemma length_decimal_pos: "0 < length (decimal n)"
  by (simp add: decimal.simps [of n])

lemma decimal_bounds: "n < 10 ^ length (decimal n)" "0 < n \<Longrightarrow> 10 ^ (length (decimal n) - 1) \<le> n"
proof (induction n rule: decimal.induct)
  case (1 n)
  {
    case 1
    show ?case
    proof (cases "n < 10")
      case True
      then show ?thesis by (simp add: decimal.simps [of n])
    next
      case False
      then have "n div 10 < 10 ^ length (decimal (n div 10))" using "1.IH"(1) by simp
      then have "n div 10 + 1 \<le> 10 ^ length (decimal (n div 10))" by simp
      then have "(n div 10 + 1) * 10 \<le> 10 ^ length (decimal (n div 10)) * 10" by (rule mult_le_mono1)
      moreover have "n < (n div 10 + 1) * 10" by simp
      ultimately show ?thesis using False by (simp add: decimal.simps [of n] mult.commute)
    qed
  next
    case 2
    show ?case
    proof (cases "n < 10")
      case True
      then show ?thesis using 2 by (simp add: decimal.simps [of n])
    next
      case False
      then have "10 ^ (length (decimal (n div 10)) - 1) \<le> n div 10" using "1.IH"(2) by simp
      then have "10 ^ (length (decimal (n div 10)) - 1) * 10 \<le> n div 10 * 10" by (rule mult_le_mono1)
      also have "\<dots> \<le> n" by simp
      finally have "10 ^ (length (decimal (n div 10)) - 1) * 10 \<le> n" .
      moreover have "10 ^ length (decimal (n div 10)) = 10 ^ (length (decimal (n div 10)) - 1) * (10 :: nat)"
        using length_decimal_pos [of "n div 10"] by (simp add: power_eq_if)
      ultimately show ?thesis using False by (simp add: decimal.simps [of n])
    qed
  }
qed

lemma clog10_bounds: "n \<le> 10 ^ clog10 n" "1 < n \<Longrightarrow> 10 ^ (clog10 n - 1) < n"
proof (induction n rule: clog10.induct)
  case (1 n)
  {
    case 1
    show ?case
    proof (cases "n \<le> 1")
      case True
      then show ?thesis by (simp add: clog10.simps [of n])
    next
      case False
      then have "(n + 9) div 10 * 10 \<le> 10 ^ clog10 ((n + 9) div 10) * 10" using "1.IH"(1) by (intro mult_le_mono1) simp
      moreover have "n \<le> (n + 9) div 10 * 10" by presburger
      ultimately show ?thesis using False by (simp add: clog10.simps [of n] mult.commute)
    qed
  next
    case 2
    show ?case
    proof (cases "(n + 9) div 10 \<le> 1")
      case True
      then show ?thesis using 2 by (simp add: clog10.simps [of n] clog10.simps [of "(n + 9) div 10"])
    next
      case False
      let ?m = "(n + 9) div 10"
      have "10 ^ (clog10 ?m - 1) < ?m" using "1.IH"(2) 2 False by simp
      then have "10 ^ (clog10 ?m - 1) + 1 \<le> ?m" by simp
      then have "10 ^ (clog10 ?m - 1) * 10 + 10 \<le> n + 9" by presburger
      moreover have "0 < clog10 ?m" using False by (simp add: clog10.simps [of ?m])
      then have "10 ^ clog10 ?m = 10 ^ (clog10 ?m - 1) * (10 :: nat)" by (simp add: power_eq_if)
      ultimately have "10 ^ clog10 ?m < n" by simp
      with 2 show ?thesis by (simp add: clog10.simps [of n])
    qed
  }
qed

text \<open>\<open>clog10\<close> is \<open>ceil(log10(n))\<close>.\<close>

lemma clog10_log: "0 < n \<Longrightarrow> \<lceil>log 10 (real n)\<rceil> = int (clog10 n)"
proof (cases "n = 1")
  case True
  then show ?thesis by (simp add: clog10.simps [of "Suc 0"])
next
  case False
  assume "0 < n"
  with False have n: "1 < n" by simp
  then have c: "0 < clog10 n" by (simp add: clog10.simps [of n])
  have "\<lceil>log (real 10) (real n)\<rceil> = int (clog10 n - 1) + 1"
    using clog10_bounds [of n] n c by (intro ceiling_log_nat_eq_if) simp_all
  with c show ?thesis by simp
qed

text \<open>The buffer is too short exactly for the powers of ten.\<close>

lemma decimal_buf_None: "0 < num \<Longrightarrow> decimal_buf num = None \<longleftrightarrow> (\<exists>k. num = 10 ^ k)"
proof -
  assume num: "0 < num"
  define n where "n = nat num"
  have n: "0 < n" "int n = num" using num by (simp_all add: n_def)
  let ?d = "length (decimal n)" and ?c = "clog10 n"
  have d: "10 ^ (?d - 1) \<le> n" "n < 10 ^ ?d" "0 < ?d" using decimal_bounds [of n] n(1) length_decimal_pos by auto
  have "?d \<le> ?c \<longleftrightarrow> (\<forall>k. n \<noteq> 10 ^ k)"
  proof
    assume le: "?d \<le> ?c"
    show "\<forall>k. n \<noteq> 10 ^ k"
    proof (intro allI notI)
      fix k assume k: "n = 10 ^ k"
      show False
      proof (cases "n = 1")
        case True
        then show False using le d(3) by (simp add: clog10.simps [of "Suc 0"])
      next
        case False
        then have "1 < n" using n(1) by simp
        from clog10_bounds(2) [OF this] have "(10 :: nat) ^ (?c - 1) < 10 ^ k" by (simp only: k)
        then have "?c - 1 < k" by (simp add: power_strict_increasing_iff)
        moreover have "(10 :: nat) ^ k < 10 ^ ?d" using d(2) k by simp
        then have "k < ?d" by (simp add: power_strict_increasing_iff)
        ultimately show False using le by simp
      qed
    qed
  next
    assume "\<forall>k. n \<noteq> 10 ^ k"
    then have "10 ^ (?d - 1) < n" using d(1) by (metis order_le_less)
    then have "(10 :: nat) ^ (?d - 1) < 10 ^ ?c" using clog10_bounds(1) [of n] by (rule less_le_trans)
    then have "?d - 1 < ?c" by (simp add: power_strict_increasing_iff)
    then show "?d \<le> ?c" using d(3) by simp
  qed
  moreover have "(\<exists>k. num = 10 ^ k) \<longleftrightarrow> (\<exists>k. n = 10 ^ k)"
    using n(2) by (metis nat_int nat_power_eq of_nat_numeral of_nat_power zero_le_numeral)
  ultimately show ?thesis using num by (auto simp: decimal_buf_def n_def)
qed

lemma char_of_digit: "a < 10 \<Longrightarrow> b < 10 \<Longrightarrow> (char_of (48 + a) :: char) = char_of (48 + b) \<longleftrightarrow> a = (b :: nat)"
proof
  assume "a < 10" "b < 10" "(char_of (48 + a) :: char) = char_of (48 + b)"
  then have "of_char (char_of (48 + a) :: char) = (of_char (char_of (48 + b) :: char) :: nat)" by simp
  with \<open>a < 10\<close> \<open>b < 10\<close> show "a = b" by simp
qed simp

lemma decimal_inj: "decimal a = decimal b \<Longrightarrow> a = b"
proof (induction a arbitrary: b rule: decimal.induct)
  case (1 a)
  show ?case
  proof (cases "a < 10"; cases "b < 10")
    assume "a < 10" "b < 10"
    then show ?thesis using "1.prems" by (simp add: decimal.simps char_of_digit)
  next
    assume "a < 10" "\<not> b < 10"
    then show ?thesis using "1.prems" length_decimal_pos [of "b div 10"] by (simp add: decimal.simps [of a] decimal.simps [of b])
  next
    assume "\<not> a < 10" "b < 10"
    then show ?thesis using "1.prems" length_decimal_pos [of "a div 10"] by (simp add: decimal.simps [of a] decimal.simps [of b])
  next
    assume ab: "\<not> a < 10" "\<not> b < 10"
    then have "decimal (a div 10) = decimal (b div 10)" "a mod 10 = b mod 10"
      using "1.prems" by (simp_all add: decimal.simps [of a] decimal.simps [of b] char_of_digit)
    with "1.IH" ab(1) have "a div 10 = b div 10" by simp
    with \<open>a mod 10 = b mod 10\<close> show ?thesis by (metis div_mult_mod_eq)
  qed
qed

lemma decimal_buf_inj: "decimal_buf a = Some s \<Longrightarrow> decimal_buf b = Some s \<Longrightarrow> a = b"
  by (auto simp: decimal_buf_def dest!: decimal_inj split: if_splits)

section \<open>The table as a map\<close>

definition enext_of :: "cstate \<Rightarrow> node \<Rightarrow> node" where
  "enext_of s x = (case centries s x of Some e \<Rightarrow> enext e | None \<Rightarrow> 0)"

text \<open>The decimal string of an entry's key.\<close>

definition str_of :: "cstate \<Rightarrow> node \<Rightarrow> string" where
  "str_of s x = the (key_string s (ekey (the (centries s x))))"

definition entry_ok :: "cstate \<Rightarrow> nat \<Rightarrow> node \<Rightarrow> bool" where
  "entry_ok s b x \<longleftrightarrow> x \<noteq> 0 \<and> (\<exists>e. centries s x = Some e \<and> ekey e \<noteq> 0
     \<and> key_string s (ekey e) = Some (str_of s x)) \<and> hash_bin s (str_of s x) = b"

definition bin_ok :: "cstate \<Rightarrow> nat \<Rightarrow> node list \<Rightarrow> bool" where
  "bin_ok s b xs \<longleftrightarrow> fwd (enext_of s) (ctable s ! b) xs \<and> (\<forall>x \<in> set xs. entry_ok s b x)
     \<and> sorted_wrt (<) (map (str_of s) xs)"

definition cache_rep :: "cstate \<Rightarrow> (nat \<Rightarrow> node list) \<Rightarrow> bool" where
  "cache_rep s bins \<longleftrightarrow> 1 \<le> MAX_SIZE s \<and> is_int32 (MAX_SIZE s) \<and> length (ctable s) = nat (MAX_SIZE s)
     \<and> 0 < hbrk s \<and> (\<forall>x. centries s x \<noteq> None \<longrightarrow> x < hbrk s)
     \<and> (\<forall>b < length (ctable s). bin_ok s b (bins b))
     \<and> csize s = (\<Sum>b < length (ctable s). int (length (bins b)))"

lemma key_string_cong:
  "ckeys s' = ckeys s \<Longrightarrow> cfiles s' = cfiles s \<Longrightarrow> key_string s' = key_string s"
proof (rule ext)
  fix k
  assume "ckeys s' = ckeys s" "cfiles s' = cfiles s"
  then have "key_num s' k = key_num s k" by (cases "ckeys s k") (simp_all add: key_num_def file_at_def)
  then show "key_string s' k = key_string s k" by (simp add: key_string_def)
qed

lemma keyCmp_strings:
  "key_string s a = Some x \<Longrightarrow> key_string s b = Some y \<Longrightarrow> keyCmp s a b = Some (strcmp x y)"
  by (simp add: keyCmp_def)

lemma hash_bin_less:
  assumes "1 \<le> MAX_SIZE s" "is_int32 (MAX_SIZE s)"
  shows "hash_bin s str < nat (MAX_SIZE s)"
proof -
  let ?m = "of_int (MAX_SIZE s) :: 64 word"
  have u: "unat ?m = nat (MAX_SIZE s)"
    using assms by (simp add: is_int32_def unat_eq_nat_uint uint_word_of_int_eq take_bit_int_eq_self)
  then have "?m \<noteq> 0" using assms(1) by (auto simp flip: unat_eq_0)
  then have "djb2 5381 str mod ?m < ?m" by (simp add: word_mod_less_divisor word_gt_0)
  then show ?thesis by (simp add: hash_bin_def word_less_nat_alt u)
qed

lemma bin_search_spec:
  assumes "fwd (enext_of s) p xs" "\<forall>x \<in> set xs. entry_ok s b x" "key_string s key = Some str"
  shows "bin_search s key lst p = Some (last (lst # takeWhile (\<lambda>x. str_of s x < str) xs),
     hd (dropWhile (\<lambda>x. str_of s x < str) xs @ [0]))"
  using assms(1,2)
proof (induction xs arbitrary: p lst)
  case Nil
  then show ?case by (simp add: bin_search.simps)
next
  case (Cons x xs)
  then have p: "p = x" "x \<noteq> 0" "fwd (enext_of s) (enext_of s x) xs" by auto
  obtain e where e: "centries s x = Some e" "ekey e \<noteq> 0" "key_string s (ekey e) = Some (str_of s x)"
    using Cons.prems(2) by (auto simp: entry_ok_def)
  have c: "keyCmp s key (ekey e) = Some (strcmp str (str_of s x))" using assms(3) e(3) by (rule keyCmp_strings)
  have n: "enext_of s x = enext e" using e(1) by (simp add: enext_of_def)
  show ?case
    using p e(1,2) c Cons.IH [of "enext e" x] Cons.prems(2) n
    by (subst bin_search.simps) (auto simp: entry_at_def)
qed

lemma key_matches_spec:
  assumes "\<forall>x \<in> set xs. entry_ok s b x" "key_string s key = Some str"
  shows "key_matches s key (hd (xs @ [0])) = Some (xs \<noteq> [] \<and> str_of s (hd xs) = str)"
proof (cases xs)
  case Nil
  then show ?thesis by (simp add: key_matches_def)
next
  case (Cons x ys)
  then obtain e where e: "x \<noteq> 0" "centries s x = Some e" "ekey e \<noteq> 0" "key_string s (ekey e) = Some (str_of s x)"
    using assms(1) by (auto simp: entry_ok_def)
  with keyCmp_strings [OF assms(2) e(4)] Cons show ?thesis by (auto simp: key_matches_def entry_at_def)
qed

text \<open>The entry for a string: the one in its bin that has it, or 0.\<close>

definition lookup :: "cstate \<Rightarrow> (nat \<Rightarrow> node list) \<Rightarrow> string \<Rightarrow> node" where
  "lookup s bins str = hd (filter (\<lambda>x. str_of s x = str) (bins (hash_bin s str)) @ [0])"

lemma sorted_dropWhile_filter:
  fixes f :: "node \<Rightarrow> string"
  assumes "sorted_wrt (<) (map f xs)"
  shows "hd (filter (\<lambda>x. f x = str) xs @ [0]) =
    (let ys = dropWhile (\<lambda>x. f x < str) xs in if ys \<noteq> [] \<and> f (hd ys) = str then hd (ys @ [0]) else 0)"
  using assms
proof (induction xs)
  case Nil
  then show ?case by simp
next
  case (Cons x xs)
  show ?case
  proof (cases "f x < str")
    case True
    then have "f x \<noteq> str" by (rule less_imp_neq)
    with True show ?thesis using Cons by (simp add: Let_def)
  next
    case False
    have "filter (\<lambda>y. f y = str) xs = []" if "f x \<noteq> str"
      using that False Cons.prems by (auto simp: filter_empty_conv)
    with False show ?thesis by (auto simp: Let_def)
  qed
qed

lemma bin_distinct: "bin_ok s b xs \<Longrightarrow> distinct xs"
  by (auto simp: bin_ok_def strict_sorted_iff distinct_map)

lemma bin_live: "bin_ok s b xs \<Longrightarrow> x \<in> set xs \<Longrightarrow> x \<noteq> 0 \<and> centries s x \<noteq> None \<and> hash_bin s (str_of s x) = b"
  by (auto simp: bin_ok_def entry_ok_def)

text \<open>A bin depends only on the keys and the links of its own entries.\<close>

lemma bin_ok_keep:
  assumes "bin_ok s b xs" and keys: "\<And>k str. key_string s k = Some str \<Longrightarrow> key_string s' k = Some str"
    and "MAX_SIZE s' = MAX_SIZE s" "ctable s' ! b = ctable s ! b"
    and "\<And>x. x \<in> set xs \<Longrightarrow> map_option ekey (centries s' x) = map_option ekey (centries s x) \<and> enext_of s' x = enext_of s x"
  shows "bin_ok s' b xs" "\<And>x. x \<in> set xs \<Longrightarrow> str_of s' x = str_of s x"
proof -
  have h: "hash_bin s' = hash_bin s" by (rule ext) (simp add: hash_bin_def assms(3))
  have key: "\<exists>e e'. centries s x = Some e \<and> centries s' x = Some e' \<and> ekey e' = ekey e \<and>
      key_string s' (ekey e) = Some (str_of s x)" if x: "x \<in> set xs" for x
  proof -
    have "entry_ok s b x" using assms(1) x by (simp add: bin_ok_def)
    then obtain e where "centries s x = Some e" "key_string s (ekey e) = Some (str_of s x)" by (auto simp: entry_ok_def)
    then show ?thesis using assms(5) [OF x] keys by auto
  qed
  show str: "str_of s' x = str_of s x" if "x \<in> set xs" for x
    using key [OF that] by (auto simp: str_of_def)
  have "entry_ok s' b x" if "x \<in> set xs" for x
    using assms(1) that key [OF that] str [OF that] by (auto simp: bin_ok_def entry_ok_def h)
  moreover have "sorted_wrt (<) (map (str_of s') xs)" using assms(1) str by (simp add: bin_ok_def cong: map_cong)
  ultimately show "bin_ok s' b xs"
    using assms(1,4,5) fwd_cong [of xs "enext_of s'" "enext_of s"] by (simp add: bin_ok_def)
qed

lemma bin_ok_frame:
  assumes "bin_ok s b xs" "ckeys s' = ckeys s" "cfiles s' = cfiles s" "MAX_SIZE s' = MAX_SIZE s"
    and "ctable s' ! b = ctable s ! b"
    and "\<And>x. x \<in> set xs \<Longrightarrow> map_option ekey (centries s' x) = map_option ekey (centries s x) \<and> enext_of s' x = enext_of s x"
  shows "bin_ok s' b xs" "\<And>x. x \<in> set xs \<Longrightarrow> str_of s' x = str_of s x"
  using bin_ok_keep [OF assms(1) _ assms(4-6)] key_string_cong [OF assms(2,3)] by simp_all

text \<open>Where the walk along a bin splits it.\<close>

definition before :: "cstate \<Rightarrow> (nat \<Rightarrow> node list) \<Rightarrow> string \<Rightarrow> node list" where
  "before s bins str = takeWhile (\<lambda>x. str_of s x < str) (bins (hash_bin s str))"

definition after :: "cstate \<Rightarrow> (nat \<Rightarrow> node list) \<Rightarrow> string \<Rightarrow> node list" where
  "after s bins str = dropWhile (\<lambda>x. str_of s x < str) (bins (hash_bin s str))"

lemma cache_rep_bin:
  assumes "cache_rep s bins"
  shows "hash_bin s str < length (ctable s)" "bin_ok s (hash_bin s str) (before s bins str @ after s bins str)"
    "bins (hash_bin s str) = before s bins str @ after s bins str"
  using assms hash_bin_less [of s str] by (auto simp: cache_rep_def before_def after_def)

lemma cache_search:
  assumes rep: "cache_rep s bins" and key: "key_string s key = Some str"
  defines "b \<equiv> hash_bin s str" and "ys \<equiv> before s bins str" and "zs \<equiv> after s bins str"
  shows "cache_hash s key = Some b" "ctable s ! b = hd ((ys @ zs) @ [0])"
    "bin_search s key 0 (ctable s ! b) = Some (last (0 # ys), hd (zs @ [0]))"
    "key_matches s key (hd (zs @ [0])) = Some (lookup s bins str \<noteq> 0)"
    "lookup s bins str \<noteq> 0 \<Longrightarrow> lookup s bins str = hd (zs @ [0])"
proof -
  have m: "1 \<le> MAX_SIZE s" using rep by (simp add: cache_rep_def)
  have bin: "bin_ok s b (ys @ zs)" and bins: "bins b = ys @ zs"
    using cache_rep_bin [OF rep, of str] by (simp_all add: b_def ys_def zs_def)
  then have f: "fwd (enext_of s) (ctable s ! b) (bins b)" "\<forall>x \<in> set (bins b). entry_ok s b x"
    "sorted_wrt (<) (map (str_of s) (bins b))" by (auto simp: bin_ok_def)
  have z: "\<forall>x \<in> set zs. entry_ok s b x" using f(2) bins by simp
  have l: "lookup s bins str = (if zs \<noteq> [] \<and> str_of s (hd zs) = str then hd (zs @ [0]) else 0)"
    using sorted_dropWhile_filter [OF f(3), of str] by (simp add: lookup_def b_def zs_def after_def Let_def)
  show "cache_hash s key = Some b" using key m by (simp add: cache_hash_def b_def)
  show "ctable s ! b = hd ((ys @ zs) @ [0])" using fwd_hd [OF f(1)] bins by simp
  show "bin_search s key 0 (ctable s ! b) = Some (last (0 # ys), hd (zs @ [0]))"
    using bin_search_spec [OF f(1,2) key, of 0] by (simp add: b_def ys_def zs_def before_def after_def)
  have "zs \<noteq> [] \<Longrightarrow> hd zs \<noteq> 0" using z by (cases zs) (auto simp: entry_ok_def)
  then show "key_matches s key (hd (zs @ [0])) = Some (lookup s bins str \<noteq> 0)"
    using key_matches_spec [OF z key] l by auto
  show "lookup s bins str \<noteq> 0 \<Longrightarrow> lookup s bins str = hd (zs @ [0])" using l by (auto split: if_splits)
qed

lemma cache_get_lookup:
  assumes "cache_rep s bins" "key_string s key = Some str"
  shows "cache_get key s = Some (lookup s bins str)"
  using cache_search [OF assms] by (cases "lookup s bins str = 0") (simp_all add: cache_get_def)

text \<open>Storing under a string that is present replaces the page of its entry.\<close>

lemma cache_set_present:
  assumes rep: "cache_rep s bins" and key: "key_string s key = Some str" and found: "lookup s bins str \<noteq> 0"
  shows "\<exists>e. centries s (lookup s bins str) = Some e \<and>
    cache_set key wp s = do { s1 \<leftarrow> free_page (ewp e) s;
      Some (lookup s bins str, s1\<lparr>centries := (centries s)(lookup s bins str := Some (e\<lparr>ewp := wp\<rparr>))\<rparr>) }"
proof -
  note cs = cache_search [OF rep key]
  let ?x = "lookup s bins str"
  have x: "?x = hd (after s bins str @ [0])" using cs(5) found by simp
  with found have "?x \<in> set (after s bins str)" by (cases "after s bins str") auto
  then have "centries s ?x \<noteq> None" using bin_live [OF cache_rep_bin(2) [OF rep, of str], of ?x] by simp
  then obtain e where e: "centries s ?x = Some e" by auto
  have "cache_set key wp s = do { s1 \<leftarrow> free_page (ewp e) s;
      Some (?x, s1\<lparr>centries := (centries s)(?x := Some (e\<lparr>ewp := wp\<rparr>))\<rparr>) }"
    using cs(1,3,4) found e by (auto simp: cache_set_def x [symmetric] entry_at_def upd_entry_def free_page_def)
  with e show ?thesis by blast
qed

text \<open>
  What keeps the table: the keys that had a string keep it, the entries keep their key and
  their link in the bin. Replacing the page of an entry, its place in the other lists, or
  allocating other objects are of this kind.
\<close>

definition table_kept :: "cstate \<Rightarrow> cstate \<Rightarrow> bool" where
  "table_kept s s' \<longleftrightarrow> (\<forall>k str. key_string s k = Some str \<longrightarrow> key_string s' k = Some str)
     \<and> MAX_SIZE s' = MAX_SIZE s \<and> ctable s' = ctable s \<and> csize s' = csize s \<and> hbrk s \<le> hbrk s'
     \<and> (\<forall>x. map_option (\<lambda>e. (ekey e, enext e)) (centries s' x) = map_option (\<lambda>e. (ekey e, enext e)) (centries s x))"

lemma table_kept_refl [simp]: "table_kept s s"
  by (simp add: table_kept_def)

lemma table_kept_trans: "table_kept s s' \<Longrightarrow> table_kept s' s'' \<Longrightarrow> table_kept s s''"
  by (auto simp: table_kept_def)

lemma cache_rep_kept:
  assumes rep: "cache_rep s bins" and kept: "table_kept s s'"
  shows "cache_rep s' bins" "lookup s' bins = lookup s bins"
proof -
  have ent: "map_option ekey (centries s' x) = map_option ekey (centries s x) \<and> enext_of s' x = enext_of s x" for x
  proof -
    have "map_option (\<lambda>e. (ekey e, enext e)) (centries s' x) = map_option (\<lambda>e. (ekey e, enext e)) (centries s x)"
      using kept by (simp add: table_kept_def)
    then show ?thesis by (cases "centries s x"; cases "centries s' x") (auto simp: enext_of_def)
  qed
  have bin: "bin_ok s' b (bins b)" "\<And>x. x \<in> set (bins b) \<Longrightarrow> str_of s' x = str_of s x" if "b < length (ctable s)" for b
    by (rule bin_ok_keep [of s b "bins b" s']; use rep kept that ent in \<open>simp add: cache_rep_def table_kept_def\<close>)+
  have "x < hbrk s'" if "centries s' x \<noteq> None" for x
  proof -
    have "centries s x \<noteq> None" using that ent [of x] by (cases "centries s x") auto
    then show ?thesis using rep kept by (auto simp: cache_rep_def table_kept_def)
  qed
  with bin(1) rep kept show "cache_rep s' bins" by (simp add: cache_rep_def table_kept_def)
  show "lookup s' bins = lookup s bins"
  proof
    fix str
    have h: "hash_bin s' str = hash_bin s str" using kept by (simp add: hash_bin_def table_kept_def)
    show "lookup s' bins str = lookup s bins str"
      using bin(2) [OF cache_rep_bin(1) [OF rep]] by (simp add: lookup_def h cong: filter_cong)
  qed
qed

text \<open>Storing under a new string.\<close>

definition new_entry :: "node \<Rightarrow> node \<Rightarrow> node \<Rightarrow> cacheEntry" where
  "new_entry key wp nx = \<lparr>ekey = key, ewp = wp, enext = nx, dirty = 0, lruDataNext = 0, lruDataPrev = 0,
     fileDataNext = 0, fileDataPrev = 0, fileMetadataNext = 0, fileMetadataPrev = 0\<rparr>"

definition link_new :: "node list \<Rightarrow> node \<Rightarrow> (node \<Rightarrow> cacheEntry option) \<Rightarrow> node \<Rightarrow> cacheEntry option" where
  "link_new ys x es = (if ys = [] then es
     else es(last ys := map_option (enext_update (\<lambda>_. x)) (es (last ys))))"

definition inserted :: "cstate \<Rightarrow> (nat \<Rightarrow> node list) \<Rightarrow> string \<Rightarrow> node \<Rightarrow> node \<Rightarrow> cstate" where
  "inserted s bins str key wp = s\<lparr>
     centries := link_new (before s bins str) (hbrk s)
       ((centries s)(hbrk s := Some (new_entry key wp (hd (after s bins str @ [0]))))),
     hbrk := hbrk s + 1, csize := csize s + 1,
     ctable := (if before s bins str = [] then (ctable s)[hash_bin s str := hbrk s] else ctable s)\<rparr>"

lemma cache_set_absent:
  assumes rep: "cache_rep s bins" and key: "key_string s key = Some str" and absent: "lookup s bins str = 0"
    and room: "csize s < MAX_SIZE s"
  shows "cache_set key wp s = Some (hbrk s, inserted s bins str key wp)"
proof -
  let ?ys = "before s bins str" and ?zs = "after s bins str"
  note cs = cache_search [OF rep key]
  note bin = cache_rep_bin [OF rep, of str]
  have fresh: "hbrk s \<noteq> 0" "hbrk s \<notin> set (?ys @ ?zs)"
    using rep bin_live [OF bin(2), of "hbrk s"] by (auto simp: cache_rep_def)
  have m: "key_matches s key (hd (?zs @ [0])) = Some False" using cs(4) absent by simp
  note search = cs(1,3) m
  show ?thesis
  proof (cases ?ys rule: rev_cases)
    case Nil
    then have "ctable s ! hash_bin s str = hd (?zs @ [0])" using cs(2) by simp
    with search Nil room fresh show ?thesis
      by (simp add: cache_set_def cache_newEntry_def upd_entry_def entry_at_def inserted_def link_new_def new_entry_def)
  next
    case (snoc ys' y)
    have y: "y \<noteq> 0" "centries s y \<noteq> None" "y \<noteq> hbrk s" using bin_live [OF bin(2), of y] fresh snoc by auto
    then obtain e where e: "centries s y = Some e" by auto
    have "hd (?zs @ [0]) \<notin> set ?ys"
    proof (cases ?zs)
      case Nil
      then show ?thesis using bin_live [OF bin(2), of 0] by auto
    next
      case (Cons z zs')
      then show ?thesis using bin_distinct [OF bin(2)] by auto
    qed
    moreover have "hd ((?ys @ ?zs) @ [0]) \<in> set ?ys" using snoc by (cases ys') simp_all
    ultimately have ne: "ctable s ! hash_bin s str \<noteq> hd (?zs @ [0])" using cs(2) by auto
    have le: "last (0 # ?ys) = y" "last ?ys = y" "?ys \<noteq> []" using snoc by simp_all
    show ?thesis
    proof (cases "hd (?zs @ [0]) = 0")
      case True
      with search ne le y e room fresh show ?thesis
        by (simp add: cache_set_def cache_newEntry_def upd_entry_def entry_at_def inserted_def link_new_def new_entry_def)
    next
      case False
      with search ne le y e room fresh show ?thesis
        by (simp add: cache_set_def cache_newEntry_def upd_entry_def entry_at_def inserted_def link_new_def new_entry_def)
    qed
  qed
qed

lemma inserted_fields:
  "ckeys (inserted s bins str key wp) = ckeys s" "cfiles (inserted s bins str key wp) = cfiles s"
  "cwps (inserted s bins str key wp) = cwps s" "calogs (inserted s bins str key wp) = calogs s"
  "MAX_SIZE (inserted s bins str key wp) = MAX_SIZE s" "csize (inserted s bins str key wp) = csize s + 1"
  "hbrk (inserted s bins str key wp) = hbrk s + 1"
  "length (ctable (inserted s bins str key wp)) = length (ctable s)"
  by (simp_all add: inserted_def)

lemma inserted_str:
  fixes wp :: node
  assumes rep: "cache_rep s bins" and key: "key_string s key = Some str"
  defines "s' \<equiv> inserted s bins str key wp"
  shows "str_of s' (hbrk s) = str" "\<And>x. x \<noteq> hbrk s \<Longrightarrow> str_of s' x = str_of s x"
    "\<And>x. x \<noteq> hbrk s \<Longrightarrow> map_option ekey (centries s' x) = map_option ekey (centries s x)"
    "map_option ekey (centries s' (hbrk s)) = Some key"
proof -
  let ?ys = "before s bins str"
  have live: "last ?ys \<noteq> hbrk s \<and> centries s (last ?ys) \<noteq> None" if "?ys \<noteq> []"
    using that bin_live [OF cache_rep_bin(2) [OF rep, of str], of "last ?ys"] rep by (auto simp: cache_rep_def)
  have k: "key_string s' = key_string s" by (rule key_string_cong) (simp_all add: s'_def inserted_fields)
  show ek: "map_option ekey (centries s' x) = map_option ekey (centries s x)" if "x \<noteq> hbrk s" for x
    using that live by (auto simp: s'_def inserted_def link_new_def)
  show n: "map_option ekey (centries s' (hbrk s)) = Some key"
    using live by (auto simp: s'_def inserted_def link_new_def new_entry_def)
  then show "str_of s' (hbrk s) = str" using key by (auto simp: str_of_def k)
  show "str_of s' x = str_of s x" if "x \<noteq> hbrk s" for x
  proof (cases "centries s x")
    case None
    with ek [OF that] show ?thesis by (simp add: str_of_def k)
  next
    case (Some e)
    with ek [OF that] show ?thesis by (auto simp: str_of_def k)
  qed
qed

lemma inserted_next:
  fixes key wp :: node
  assumes rep: "cache_rep s bins" and y: "before s bins str = ys"
  defines "s' \<equiv> inserted s bins str key wp" and "nx \<equiv> hd (after s bins str @ [0])"
  shows "enext_of s' = (if ys = [] then (enext_of s)(hbrk s := nx)
     else (enext_of s)(hbrk s := nx, last ys := hbrk s))"
proof (cases "ys = []")
  case True
  then show ?thesis using y by (auto simp: fun_eq_iff s'_def enext_of_def inserted_def link_new_def new_entry_def nx_def)
next
  case False
  then have "last ys \<noteq> hbrk s \<and> centries s (last ys) \<noteq> None"
    using bin_live [OF cache_rep_bin(2) [OF rep, of str], of "last ys"] rep y by (auto simp: cache_rep_def)
  with False y show ?thesis
    by (auto simp: fun_eq_iff s'_def enext_of_def inserted_def link_new_def new_entry_def nx_def)
qed

lemma sorted_dropWhile_ge:
  fixes f :: "node \<Rightarrow> string"
  shows "sorted_wrt (<) (map f xs) \<Longrightarrow> x \<in> set (dropWhile (\<lambda>x. f x < str) xs) \<Longrightarrow> str \<le> f x"
proof (induction xs)
  case (Cons y ys)
  show ?case
  proof (cases "f y < str")
    case True
    then show ?thesis using Cons by simp
  next
    case False
    then have "x = y \<or> f y < f x" using Cons.prems by auto
    with False show ?thesis by (auto simp: not_less intro: order_trans less_imp_le)
  qed
qed simp

lemma after_greater:
  assumes rep: "cache_rep s bins" and absent: "lookup s bins str = 0" and x: "x \<in> set (after s bins str)"
  shows "str < str_of s x"
proof -
  note bin = cache_rep_bin [OF rep, of str]
  let ?xs = "bins (hash_bin s str)"
  have srt: "sorted_wrt (<) (map (str_of s) ?xs)" using bin(2,3) by (simp add: bin_ok_def)
  have "str \<le> str_of s x" using sorted_dropWhile_ge [OF srt] x by (simp add: after_def)
  moreover have "filter (\<lambda>y. str_of s y = str) ?xs = []"
  proof (rule ccontr)
    assume ne: "filter (\<lambda>y. str_of s y = str) ?xs \<noteq> []"
    moreover have "hd (filter (\<lambda>y. str_of s y = str) ?xs) \<in> set ?xs" using hd_in_set [OF ne] by auto
    moreover have "0 \<notin> set ?xs" using bin_live [OF bin(2), of 0] bin(3) by auto
    ultimately show False using absent by (metis hd_append2 lookup_def)
  qed
  then have "str_of s x \<noteq> str" using x bin(3) by (auto simp: filter_empty_conv)
  ultimately show ?thesis by auto
qed

lemma inserted_bin:
  fixes wp :: node
  assumes rep: "cache_rep s bins" and key: "key_string s key = Some str" and absent: "lookup s bins str = 0"
    and k0: "key \<noteq> 0"
  defines "s' \<equiv> inserted s bins str key wp" and "b \<equiv> hash_bin s str"
  shows "bin_ok s' b (before s bins str @ hbrk s # after s bins str)"
proof -
  let ?ys = "before s bins str" and ?zs = "after s bins str"
  note bin = cache_rep_bin [OF rep, of str, folded b_def] and st = inserted_str [OF rep key, where wp = wp, folded s'_def]
  have fresh: "hbrk s \<noteq> 0" "hbrk s \<notin> set (?ys @ ?zs)"
    using rep bin_live [OF bin(2), of "hbrk s"] by (auto simp: cache_rep_def)
  have f: "fwd (enext_of s) (ctable s ! b) (?ys @ ?zs)" "\<forall>x \<in> set (?ys @ ?zs). entry_ok s b x"
    "sorted_wrt (<) (map (str_of s) (?ys @ ?zs))" using bin(2) by (auto simp: bin_ok_def)
  have "fwd (enext_of s') (ctable s' ! b) (?ys @ hbrk s # ?zs)"
  proof (cases ?ys rule: rev_cases)
    case Nil
    then have "ctable s' ! b = hbrk s" using bin(1) by (simp add: s'_def inserted_def b_def)
    moreover have "ctable s ! b = hd (?zs @ [0])" using fwd_hd [OF f(1)] Nil by simp
    ultimately show ?thesis
      using fwd_insert_first [of "enext_of s" "ctable s ! b" ?zs "hbrk s"] f(1) fresh Nil
        inserted_next [OF rep Nil, of key wp, folded s'_def] by (simp del: fun_upd_apply)
  next
    case (snoc ys' y)
    then have "ctable s' ! b = ctable s ! b" by (simp add: s'_def inserted_def)
    with fwd_insert_after [of "enext_of s" "ctable s ! b" ys' y ?zs "hbrk s"] f(1) fresh snoc bin_distinct [OF bin(2)]
      inserted_next [OF rep snoc, of key wp, folded s'_def] show ?thesis by (simp del: fun_upd_apply fwd.simps)
  qed
  moreover have "entry_ok s' b x" if "x \<in> set (?ys @ hbrk s # ?zs)" for x
  proof (cases "x = hbrk s")
    case True
    then show ?thesis using st(1,4) key k0 fresh(1) key_string_cong [of s' s]
      by (auto simp: entry_ok_def hash_bin_def b_def s'_def inserted_fields)
  next
    case False
    with that f(2) have "entry_ok s b x" by auto
    with st(2,3) [OF False] show ?thesis using key_string_cong [of s' s]
      by (auto simp: entry_ok_def hash_bin_def s'_def inserted_fields)
  qed
  moreover have "sorted_wrt (<) (map (str_of s') (?ys @ hbrk s # ?zs))"
  proof -
    have "\<forall>x \<in> set ?ys. str_of s x < str" by (auto simp: before_def dest: set_takeWhileD)
    moreover have "\<forall>x \<in> set ?zs. str < str_of s x" using after_greater [OF rep absent] by blast
    moreover have "map (str_of s') ?ys = map (str_of s) ?ys" "map (str_of s') ?zs = map (str_of s) ?zs"
      using fresh(2) by (auto simp: map_eq_conv intro!: st(2))
    ultimately show ?thesis using f(3) st(1) by (simp add: sorted_wrt_append del: map_eq_conv)
  qed
  ultimately show ?thesis by (simp add: bin_ok_def)
qed

lemma sum_length_upd:
  "b < n \<Longrightarrow> (\<Sum>i < n. int (length ((bins(b := xs)) i))) = (\<Sum>i < n. int (length (bins i))) - int (length (bins b)) + int (length xs)"
  for n :: nat and bins :: "nat \<Rightarrow> node list"
proof -
  assume b: "b < n"
  have "(\<Sum>i < n. int (length ((bins(b := xs)) i))) = int (length xs) + (\<Sum>i \<in> {..<n} - {b}. int (length (bins i)))"
    using b by (simp add: sum.remove [of _ b])
  moreover have "(\<Sum>i < n. int (length (bins i))) = int (length (bins b)) + (\<Sum>i \<in> {..<n} - {b}. int (length (bins i)))"
    using b by (simp add: sum.remove [of _ b])
  ultimately show ?thesis by simp
qed

lemma inserted_rep:
  fixes wp :: node
  assumes rep: "cache_rep s bins" and key: "key_string s key = Some str" and absent: "lookup s bins str = 0"
    and k0: "key \<noteq> 0"
  defines "s' \<equiv> inserted s bins str key wp"
    and "bins' \<equiv> bins(hash_bin s str := before s bins str @ hbrk s # after s bins str)"
  shows "cache_rep s' bins'" "lookup s' bins' = (lookup s bins)(str := hbrk s)"
proof -
  let ?b = "hash_bin s str"
  note bin = cache_rep_bin [OF rep, of str] and st = inserted_str [OF rep key, where wp = wp, folded s'_def]
  note flds = inserted_fields [of s bins str key wp, folded s'_def]
  note new = inserted_bin [OF rep key absent k0, of wp, folded s'_def]
  have brk: "centries s (hbrk s) = None" using rep by (auto simp: cache_rep_def)
  have other: "bin_ok s' b (bins b)" if b: "b < length (ctable s)" "b \<noteq> ?b" for b
  proof (rule bin_ok_frame(1) [of s])
    show "bin_ok s b (bins b)" using rep b(1) by (simp add: cache_rep_def)
    then have live: "x \<noteq> hbrk s \<and> x \<notin> set (before s bins str)" if "x \<in> set (bins b)" for x
      using that bin_live [of s b "bins b" x] bin_live [OF bin(2), of x] b(2) brk by auto
    show "map_option ekey (centries s' x) = map_option ekey (centries s x) \<and> enext_of s' x = enext_of s x"
      if "x \<in> set (bins b)" for x
      using live [OF that] st(3) [of x] inserted_next [OF rep refl, of str key wp, folded s'_def]
      by (cases "before s bins str = []") auto
    show "ctable s' ! b = ctable s ! b" using b by (simp add: s'_def inserted_def)
  qed (simp_all add: flds)
  have "x < hbrk s'" if "centries s' x \<noteq> None" for x
    using that st(3) [of x] rep flds(7) by (cases "x = hbrk s"; cases "centries s x") (auto simp: cache_rep_def)
  moreover have "bin_ok s' b (bins' b)" if "b < length (ctable s')" for b
    using that new other [of b] by (cases "b = ?b") (simp_all add: bins'_def flds)
  moreover have "csize s' = (\<Sum>b < length (ctable s'). int (length (bins' b)))"
    using sum_length_upd [OF bin(1), of bins "before s bins str @ hbrk s # after s bins str"] rep bin(3)
    by (simp add: bins'_def flds cache_rep_def del: fun_upd_apply)
  ultimately show "cache_rep s' bins'" using rep flds by (simp add: cache_rep_def)
  have look: "lookup s' bins' t = ((lookup s bins)(str := hbrk s)) t" for t
  proof (cases "hash_bin s t = ?b")
    case True
    have fr: "str_of s' x = str_of s x" if "x \<in> set (before s bins str @ after s bins str)" for x
      using that bin_live [OF bin(2), of x] brk by (intro st(2)) auto
    have no: "filter (\<lambda>x. str_of s x = str) (before s bins str) = []"
      by (auto simp: before_def filter_empty_conv dest: set_takeWhileD)
    show ?thesis using True fr st(1) no bin(3)
      by (auto simp: lookup_def bins'_def hash_bin_def flds cong: filter_cong)
  next
    case False
    have "str_of s' x = str_of s x" if "x \<in> set (bins (hash_bin s t))" for x
      using that bin_live [OF cache_rep_bin(2) [OF rep, of t], of x] cache_rep_bin(3) [OF rep, of t] brk by (intro st(2)) auto
    with False show ?thesis by (auto simp: lookup_def bins'_def hash_bin_def flds cong: filter_cong)
  qed
  then show "lookup s' bins' = (lookup s bins)(str := hbrk s)" by (rule ext)
qed

section \<open>The cache as a map\<close>

text \<open>The table represents a map from decimal strings to entries, with 0 for no entry.\<close>

definition cache_holds :: "cstate \<Rightarrow> (string \<Rightarrow> node) \<Rightarrow> bool" where
  "cache_holds s m \<longleftrightarrow> (\<exists>bins. cache_rep s bins \<and> m = lookup s bins)"

lemma cache_holds_kept: "cache_holds s m \<Longrightarrow> table_kept s s' \<Longrightarrow> cache_holds s' m"
  by (metis cache_holds_def cache_rep_kept)

lemma cache_create_holds:
  assumes "cache_create siz s = Some s'" "is_int32 siz" "\<forall>x. centries s x = None" "0 < hbrk s"
  shows "cache_holds s' (\<lambda>_. 0)"
proof -
  have "cache_rep s' (\<lambda>_. [])" "lookup s' (\<lambda>_. []) = (\<lambda>_. 0)"
    using assms by (auto simp: cache_create_def cache_rep_def bin_ok_def lookup_def split: if_splits)
  then show ?thesis unfolding cache_holds_def by metis
qed

lemma key_string_not_null: "key_string s key = Some str \<Longrightarrow> key \<noteq> 0"
  by (cases "key = 0") (simp_all add: key_string_def key_num_def)

text \<open>The contents: the value of a string's entry; and storing a sequence of keys and values.\<close>

definition contents_of :: "('s \<Rightarrow> node \<Rightarrow> 'v option) \<Rightarrow> 's \<Rightarrow> (string \<Rightarrow> node) \<Rightarrow> string \<Rightarrow> 'v option" where
  "contents_of val s m str = (if m str = 0 then None else val s (m str))"

fun puts :: "('k \<Rightarrow> 'v \<Rightarrow> 's \<Rightarrow> (node \<times> 's) option) \<Rightarrow> ('k \<times> 'v) list \<Rightarrow> 's \<Rightarrow> 's option" where
  "puts put [] s = Some s"
| "puts put ((k, v) # kvs) s = do { (x, s) \<leftarrow> put k v s; puts put kvs s }"

text \<open>
  A cache with the contents \<open>C\<close> owns its pages, and \<open>vs\<close> are to be stored: all of them are
  allocated (in \<open>A\<close>), and no page is there twice. Storing one frees the page it replaces.
\<close>

definition owns :: "(string \<rightharpoonup> 'v) \<Rightarrow> 'v set \<Rightarrow> 'v list \<Rightarrow> bool" where
  "owns C A vs \<longleftrightarrow> ran C \<subseteq> A \<and> inj_on C (dom C) \<and> set vs \<subseteq> A \<and> distinct vs \<and> ran C \<inter> set vs = {}"

lemma owns_store:
  assumes "owns C A (v # vs)" "A - set_option (C str) \<subseteq> A'"
  shows "owns (C(str \<mapsto> v)) A' vs"
proof -
  have o: "ran C \<subseteq> A" "inj_on C (dom C)" "set (v # vs) \<subseteq> A" "distinct (v # vs)" "ran C \<inter> set (v # vs) = {}"
    using assms(1) by (simp_all add: owns_def)
  have old: "w \<in> A'" "w \<noteq> v" "w \<notin> set vs" if "C b = Some w" "b \<noteq> str" for b w
  proof -
    have "w \<in> ran C" using that(1) by (rule ranI)
    then show "w \<noteq> v" "w \<notin> set vs" using o(5) by auto
    have "C str \<noteq> Some w" using o(2) that by (auto simp: inj_on_def dom_def)
    then show "w \<in> A'" using assms(2) o(1) \<open>w \<in> ran C\<close> by (auto simp: subset_iff)
  qed
  have new: "w \<in> A'" if "w \<in> set (v # vs)" for w
  proof -
    have "C str \<noteq> Some w" using that o(5) ranI [of C str w] by auto
    then show ?thesis using assms(2) o(3) that by (auto simp: subset_iff)
  qed
  have "inj_on (C(str \<mapsto> v)) (dom (C(str \<mapsto> v)))"
  proof (rule inj_onI)
    fix a b assume a: "a \<in> dom (C(str \<mapsto> v))" "b \<in> dom (C(str \<mapsto> v))" and eq: "(C(str \<mapsto> v)) a = (C(str \<mapsto> v)) b"
    have n: "C c \<noteq> Some v" if "c \<noteq> str" for c using old(2) [OF _ that, of v] by blast
    consider "a = str" "b = str" | "a \<noteq> str" "b \<noteq> str" using eq n [of a] n [of b] by (auto split: if_splits)
    then show "a = b" using a eq o(2) by cases (auto simp: inj_on_def dom_def)
  qed
  moreover have "ran (C(str \<mapsto> v)) \<subseteq> A'" "ran (C(str \<mapsto> v)) \<inter> set vs = {}"
    using old new o(4) by (auto simp: ran_def split: if_splits)
  ultimately show ?thesis using new o(4) by (auto simp: owns_def)
qed

text \<open>
  The interface its clients use: \<open>get\<close> finds what the map has, \<open>put\<close> keeps the entry of a
  string that is present and takes a new one, while there is room, for a string that is not.
\<close>

locale page_map =
  fixes holds :: "'s \<Rightarrow> (string \<Rightarrow> node) \<Rightarrow> bool" and kstr :: "'s \<Rightarrow> 'k \<Rightarrow> string option"
    and room :: "'s \<Rightarrow> nat" and get :: "'k \<Rightarrow> 's \<Rightarrow> node option"
    and put :: "'k \<Rightarrow> 'v \<Rightarrow> 's \<Rightarrow> (node \<times> 's) option" and val :: "'s \<Rightarrow> node \<Rightarrow> 'v option"
    and alloc :: "'s \<Rightarrow> 'v set"
  assumes get: "holds s m \<Longrightarrow> kstr s k = Some str \<Longrightarrow> get k s = Some (m str)"
    and put_new: "holds s m \<Longrightarrow> kstr s k = Some str \<Longrightarrow> m str = 0 \<Longrightarrow> 0 < room s \<Longrightarrow>
      \<exists>x s'. put k v s = Some (x, s') \<and> x \<noteq> 0 \<and> x \<notin> range m \<and> holds s' (m(str := x)) \<and> kstr s' = kstr s
        \<and> room s = Suc (room s') \<and> val s' x = Some v \<and> (\<forall>y. y \<noteq> x \<longrightarrow> val s' y = val s y) \<and> alloc s \<subseteq> alloc s'"
    and put_old: "holds s m \<Longrightarrow> kstr s k = Some str \<Longrightarrow> m str \<noteq> 0 \<Longrightarrow> val s (m str) = Some w \<Longrightarrow> w \<in> alloc s \<Longrightarrow>
      \<exists>s'. put k v s = Some (m str, s') \<and> holds s' m \<and> kstr s' = kstr s
        \<and> room s' = room s \<and> val s' (m str) = Some v \<and> (\<forall>y. y \<noteq> m str \<longrightarrow> val s' y = val s y) \<and> alloc s - {w} \<subseteq> alloc s'"
    and held: "holds s m \<Longrightarrow> m str \<noteq> 0 \<Longrightarrow> val s (m str) \<noteq> None"
    and inj: "holds s m \<Longrightarrow> m a = m b \<Longrightarrow> m a \<noteq> 0 \<Longrightarrow> a = b"
begin

lemma put_any:
  assumes h: "holds s m" and k: "kstr s k = Some str" and r: "m str \<noteq> 0 \<or> 0 < room s"
    and a: "set_option (contents_of val s m str) \<subseteq> alloc s"
  shows "\<exists>x s' m'. put k v s = Some (x, s') \<and> holds s' m' \<and> m' str = x \<and> kstr s' = kstr s
    \<and> room s \<le> Suc (room s') \<and> contents_of val s' m' = (contents_of val s m)(str := Some v)
    \<and> alloc s - set_option (contents_of val s m str) \<subseteq> alloc s'"
proof (cases "m str = 0")
  case True
  with put_new [OF h k] r obtain x s' where p: "put k v s = Some (x, s')" "x \<noteq> 0" "x \<notin> range m"
    "holds s' (m(str := x))" "kstr s' = kstr s" "room s = Suc (room s')" "val s' x = Some v"
    "\<forall>y. y \<noteq> x \<longrightarrow> val s' y = val s y" "alloc s \<subseteq> alloc s'" by blast
  have "contents_of val s' (m(str := x)) = (contents_of val s m)(str := Some v)"
    using p(2,3,7,8) by (auto simp: contents_of_def fun_eq_iff)
  with p show ?thesis by (intro exI [of _ x] exI [of _ s'] exI [of _ "m(str := x)"]) auto
next
  case False
  then obtain w where w: "val s (m str) = Some w" using held [OF h] by blast
  then have c: "contents_of val s m str = Some w" using False by (simp add: contents_of_def)
  with put_old [OF h k False w, of v] a obtain s' where p: "put k v s = Some (m str, s')" "holds s' m" "kstr s' = kstr s"
    "room s' = room s" "val s' (m str) = Some v" "\<forall>y. y \<noteq> m str \<longrightarrow> val s' y = val s y" "alloc s - {w} \<subseteq> alloc s'" by auto
  have "contents_of val s' m = (contents_of val s m)(str := Some v)"
    using p(5,6) inj [OF h, of _ str] False by (auto simp: contents_of_def fun_eq_iff)
  with p c show ?thesis by (intro exI [of _ "m str"] exI [of _ s'] exI [of _ m]) simp
qed

lemma puts_contents:
  assumes "holds s m" "list_all (\<lambda>(k, v). kstr s k \<noteq> None) kvs" "length kvs \<le> room s"
    "owns (contents_of val s m) (alloc s) (map snd kvs)"
  shows "\<exists>s' m'. puts put kvs s = Some s' \<and> holds s' m' \<and> kstr s' = kstr s
    \<and> contents_of val s' m' = contents_of val s m ++ map_of (rev (map (\<lambda>(k, v). (the (kstr s k), v)) kvs))"
  using assms
proof (induction kvs arbitrary: s m)
  case Nil
  then show ?case by auto
next
  case (Cons kv kvs)
  obtain k v where kv: "kv = (k, v)" by (cases kv)
  with Cons.prems obtain str where str: "kstr s k = Some str" by auto
  have "set_option (contents_of val s m str) \<subseteq> alloc s" using Cons.prems(4) by (auto simp: owns_def ran_def)
  then obtain x s1 m1 where p: "put k v s = Some (x, s1)" "holds s1 m1" "kstr s1 = kstr s" "room s \<le> Suc (room s1)"
    "contents_of val s1 m1 = (contents_of val s m)(str := Some v)" "alloc s - set_option (contents_of val s m str) \<subseteq> alloc s1"
    using put_any [OF Cons.prems(1) str, of v] Cons.prems(3) by auto
  have o: "owns (contents_of val s1 m1) (alloc s1) (map snd kvs)"
    unfolding p(5) using owns_store [of "contents_of val s m" "alloc s" v "map snd kvs" str] p(6) Cons.prems(4) by (simp add: kv)
  obtain s2 m2 where q: "puts put kvs s1 = Some s2" "holds s2 m2" "kstr s2 = kstr s1"
    "contents_of val s2 m2 = contents_of val s1 m1 ++ map_of (rev (map (\<lambda>(k, v). (the (kstr s1 k), v)) kvs))"
    using Cons.IH [OF p(2)] Cons.prems(2,3) p(3,4) o by (auto simp: kv)
  then show ?case using p str by (auto simp: kv map_add_assoc)
qed

end

definition cache_room :: "cstate \<Rightarrow> nat" where
  "cache_room s = nat (MAX_SIZE s - csize s)"

text \<open>The pages that can be given to \<open>free\<close>.\<close>

definition pages_alloc :: "cstate \<Rightarrow> node set" where
  "pages_alloc s = {p. p = 0 \<or> cwps s p \<noteq> None}"

lemma free_page_alloc:
  assumes "p \<in> pages_alloc s"
  obtains C where "free_page p s = Some (s\<lparr>cwps := C\<rparr>)" "\<And>q. q \<noteq> p \<Longrightarrow> C q = cwps s q"
proof (cases "p = 0")
  case True
  then show ?thesis using that [of "cwps s"] by (simp add: free_page_def)
next
  case False
  then show ?thesis using assms that [of "(cwps s)(p := None)"] by (auto simp: free_page_def pages_alloc_def)
qed

definition page_of :: "cstate \<Rightarrow> node \<Rightarrow> node option" where
  "page_of s x = map_option ewp (centries s x)"

lemma lookup_str: "lookup s bins a \<noteq> 0 \<Longrightarrow> str_of s (lookup s bins a) = a \<and> lookup s bins a \<in> set (bins (hash_bin s a))"
proof -
  let ?f = "filter (\<lambda>x. str_of s x = a) (bins (hash_bin s a))"
  assume "lookup s bins a \<noteq> 0"
  then have ne: "?f \<noteq> []" and l: "lookup s bins a = hd ?f" by (auto simp: lookup_def hd_append split: if_splits)
  have "hd ?f \<in> set ?f" using ne by (rule hd_in_set)
  then show ?thesis by (simp add: l)
qed

lemma lookup_live:
  assumes "cache_rep s bins"
  shows "lookup s bins a \<noteq> hbrk s"
proof (cases "lookup s bins a = 0")
  case True
  then show ?thesis using assms by (simp add: cache_rep_def)
next
  case False
  have "centries s (lookup s bins a) \<noteq> None"
    using bin_live [OF cache_rep_bin(2) [OF assms, of a]] lookup_str [OF False] cache_rep_bin(3) [OF assms, of a] by simp
  moreover have "centries s (hbrk s) = None" using assms by (auto simp: cache_rep_def)
  ultimately show ?thesis by metis
qed

lemma page_of_inserted:
  assumes "cache_rep s bins"
  shows "page_of (inserted s bins str key wp) (hbrk s) = Some wp"
    "y \<noteq> hbrk s \<Longrightarrow> page_of (inserted s bins str key wp) y = page_of s y"
proof -
  have "last (before s bins str) \<noteq> hbrk s" if "before s bins str \<noteq> []"
    using that bin_live [OF cache_rep_bin(2) [OF assms, of str], of "last (before s bins str)"] assms
    by (auto simp: cache_rep_def)
  then show "page_of (inserted s bins str key wp) (hbrk s) = Some wp"
    "y \<noteq> hbrk s \<Longrightarrow> page_of (inserted s bins str key wp) y = page_of s y"
    by (auto simp: page_of_def inserted_def link_new_def new_entry_def option.map_comp comp_def)
qed

interpretation pages: page_map cache_holds key_string cache_room cache_get cache_set page_of pages_alloc
proof
  fix s m k str v w
  assume h: "cache_holds s m" and k: "key_string s k = Some str"
  then obtain bins where rep: "cache_rep s bins" and m: "m = lookup s bins" by (auto simp: cache_holds_def)
  show "cache_get k s = Some (m str)" using cache_get_lookup [OF rep k] m by simp
  {
    assume abs: "m str = 0" and room: "0 < cache_room s"
    let ?s = "inserted s bins str k v"
    have "cache_set k v s = Some (hbrk s, ?s)"
      using cache_set_absent [OF rep k] abs room m by (simp add: cache_room_def)
    moreover have "cache_holds ?s (m(str := hbrk s))"
      unfolding cache_holds_def m using inserted_rep [OF rep k _ key_string_not_null [OF k], of v] abs m by metis
    moreover have "hbrk s \<noteq> 0" using rep by (simp add: cache_rep_def)
    moreover have "hbrk s \<notin> range m" using lookup_live [OF rep] by (metis m rangeE)
    moreover have "key_string ?s = key_string s" by (rule key_string_cong) (simp_all add: inserted_fields)
    moreover have "cache_room s = Suc (cache_room ?s)" using room by (simp add: cache_room_def inserted_fields)
    moreover have "pages_alloc s \<subseteq> pages_alloc ?s" by (simp add: pages_alloc_def inserted_fields)
    moreover note page_of_inserted [OF rep, where str = str and key = k and wp = v]
    ultimately show "\<exists>x s'. cache_set k v s = Some (x, s') \<and> x \<noteq> 0 \<and> x \<notin> range m \<and> cache_holds s' (m(str := x))
      \<and> key_string s' = key_string s \<and> cache_room s = Suc (cache_room s') \<and> page_of s' x = Some v
      \<and> (\<forall>y. y \<noteq> x \<longrightarrow> page_of s' y = page_of s y) \<and> pages_alloc s \<subseteq> pages_alloc s'"
      by blast
  }
  {
    assume pres: "m str \<noteq> 0" and pg: "page_of s (m str) = Some w" "w \<in> pages_alloc s"
    obtain e where e: "centries s (m str) = Some e" "cache_set k v s = do { s1 \<leftarrow> free_page (ewp e) s;
      Some (m str, s1\<lparr>centries := (centries s)(m str := Some (e\<lparr>ewp := v\<rparr>))\<rparr>) }"
      using cache_set_present [OF rep k, of v] pres m by auto
    have w: "ewp e = w" using pg(1) e(1) by (simp add: page_of_def)
    obtain C where C: "free_page w s = Some (s\<lparr>cwps := C\<rparr>)" "\<And>q. q \<noteq> w \<Longrightarrow> C q = cwps s q"
      using free_page_alloc [OF pg(2)] by blast
    let ?s = "s\<lparr>cwps := C, centries := (centries s)(m str := Some (e\<lparr>ewp := v\<rparr>))\<rparr>"
    have "cache_set k v s = Some (m str, ?s)" using e(2) C(1) w by simp
    moreover have "table_kept s ?s" using e(1) key_string_cong [of ?s s] by (simp add: table_kept_def)
    note fr = cache_rep_kept [OF rep this]
    have "cache_holds ?s m" unfolding cache_holds_def using fr m by metis
    moreover have "key_string ?s = key_string s" by (rule key_string_cong) simp_all
    moreover have "pages_alloc s - {w} \<subseteq> pages_alloc ?s" using C(2) by (auto simp: pages_alloc_def)
    ultimately show "\<exists>s'. cache_set k v s = Some (m str, s') \<and> cache_holds s' m \<and> key_string s' = key_string s
      \<and> cache_room s' = cache_room s \<and> page_of s' (m str) = Some v \<and> (\<forall>y. y \<noteq> m str \<longrightarrow> page_of s' y = page_of s y)
      \<and> pages_alloc s - {w} \<subseteq> pages_alloc s'"
      by (intro exI [of _ ?s]) (simp add: cache_room_def page_of_def)
  }
next
  fix s m str
  assume "cache_holds s m" "m str \<noteq> 0"
  then obtain bins where rep: "cache_rep s bins" and l: "lookup s bins str \<noteq> 0" "m str = lookup s bins str"
    by (auto simp: cache_holds_def)
  have "centries s (m str) \<noteq> None"
    using bin_live [OF cache_rep_bin(2) [OF rep, of str]] lookup_str [OF l(1)] cache_rep_bin(3) [OF rep, of str] l(2) by simp
  then show "page_of s (m str) \<noteq> None" by (simp add: page_of_def)
next
  fix s m a b
  assume "cache_holds s m" "m a = m b" "m a \<noteq> 0"
  then show "a = b" using lookup_str by (metis cache_holds_def)
qed

section \<open>Removing an entry\<close>

text \<open>The state after an entry was taken from the front of its bin.\<close>

definition removed :: "cstate \<Rightarrow> nat \<Rightarrow> node \<Rightarrow> cstate" where
  "removed s b x = s\<lparr>ctable := (ctable s)[b := enext_of s x], centries := (centries s)(x := None), csize := csize s - 1\<rparr>"

lemma bin_head:
  assumes rep: "cache_rep s bins" and b: "b < length (ctable s)" "bins b = x # xs"
  shows "bin_ok s b (x # xs)" "ctable s ! b = x" "x \<noteq> 0" "hash_bin s (str_of s x) = b"
    "\<exists>e. centries s x = Some e \<and> key_string s (ekey e) = Some (str_of s x) \<and> cache_hash s (ekey e) = Some b"
proof -
  show bin: "bin_ok s b (x # xs)" using rep b by (auto simp: cache_rep_def)
  show "ctable s ! b = x" "x \<noteq> 0" using bin by (simp_all add: bin_ok_def)
  show h: "hash_bin s (str_of s x) = b" using bin_live [OF bin, of x] by simp
  have "1 \<le> MAX_SIZE s" using rep by (simp add: cache_rep_def)
  moreover have "entry_ok s b x" using bin by (simp add: bin_ok_def)
  ultimately show "\<exists>e. centries s x = Some e \<and> key_string s (ekey e) = Some (str_of s x) \<and> cache_hash s (ekey e) = Some b"
    using h by (auto simp: entry_ok_def cache_hash_def)
qed

lemma cache_remove_head:
  assumes rep: "cache_rep s bins" and b: "b < length (ctable s)" "bins b = x # xs"
  shows "cache_remove x s = Some (removed s b x)"
proof -
  note h = bin_head [OF assms]
  obtain e where e: "centries s x = Some e" "key_string s (ekey e) = Some (str_of s x)" "cache_hash s (ekey e) = Some b"
    using h(5) by blast
  have c: "keyCmp s (ekey e) (ekey e) = Some 0" using keyCmp_strings [OF e(2,2)] by (simp add: strcmp_eq [THEN iffD2])
  show ?thesis
    using h(2,3) e c by (simp add: cache_remove_def entry_at_def removed_def enext_of_def)
qed

lemma removed_rep:
  assumes rep: "cache_rep s bins" and b: "b < length (ctable s)" "bins b = x # xs"
  shows "cache_rep (removed s b x) (bins(b := xs))"
    "lookup (removed s b x) (bins(b := xs)) = (lookup s bins)(str_of s x := 0)"
proof -
  let ?s = "removed s b x" and ?bins = "bins(b := xs)"
  note h = bin_head [OF assms]
  have dj: "x \<notin> set (?bins b')" if "b' < length (ctable s)" for b'
    using that bin_distinct [OF h(1)] bin_live [of s b' "bins b'" x] rep h(4) by (auto simp: cache_rep_def)
  have flds: "ckeys ?s = ckeys s" "cfiles ?s = cfiles s" "MAX_SIZE ?s = MAX_SIZE s"
    "length (ctable ?s) = length (ctable s)" "hbrk ?s = hbrk s" "csize ?s = csize s - 1"
    by (simp_all add: removed_def)
  have ent: "centries ?s y = centries s y" "enext_of ?s y = enext_of s y" if "y \<noteq> x" for y
    using that by (simp_all add: removed_def enext_of_def)
  have bin: "bin_ok ?s b' (?bins b')" and str: "\<And>y. y \<in> set (?bins b') \<Longrightarrow> str_of ?s y = str_of s y"
    if b': "b' < length (ctable s)" for b'
  proof -
    let ?t = "s\<lparr>ctable := (ctable s)[b := enext_of s x]\<rparr>"
    have t: "bin_ok ?t b' (?bins b')"
    proof (cases "b' = b")
      case True
      have "bin_ok s b (x # xs)" by (rule h(1))
      then have "fwd (enext_of s) (enext_of s x) xs" "\<forall>y \<in> set xs. entry_ok s b y" "sorted_wrt (<) (map (str_of s) xs)"
        by (auto simp: bin_ok_def)
      moreover have "entry_ok ?t b y = entry_ok s b y" "str_of ?t y = str_of s y" "enext_of ?t = enext_of s" for y
        using key_string_cong [of ?t s] by (auto simp: entry_ok_def str_of_def hash_bin_def enext_of_def fun_eq_iff)
      ultimately show ?thesis using True b(1) by (simp add: bin_ok_def cong: map_cong)
    next
      case False
      show ?thesis
        by (rule bin_ok_frame(1) [of s]) (use False rep b' in \<open>auto simp: cache_rep_def enext_of_def\<close>)
    qed
    show "bin_ok ?s b' (?bins b')"
      by (rule bin_ok_frame(1) [OF t]) (use dj [OF b'] in \<open>auto simp: removed_def enext_of_def\<close>)
    show "str_of ?s y = str_of s y" if "y \<in> set (?bins b')" for y
    proof -
      have "y \<noteq> x" using that dj [OF b'] by metis
      then show ?thesis using key_string_cong [OF flds(1,2)] ent(1) [of y] by (simp add: str_of_def)
    qed
  qed
  have "y < hbrk ?s" if "centries ?s y \<noteq> None" for y
    using that rep by (cases "y = x") (auto simp: removed_def cache_rep_def)
  moreover have "csize ?s = (\<Sum>b < length (ctable ?s). int (length (?bins b)))"
    using sum_length_upd [OF b(1), of bins xs] rep b(2) by (simp add: flds cache_rep_def del: fun_upd_apply)
  ultimately show "cache_rep ?s ?bins" using rep bin flds by (simp add: cache_rep_def del: fun_upd_apply)
  have only: "filter (\<lambda>y. str_of s y = str_of s x) xs = []"
    using h(1) by (auto simp: bin_ok_def filter_empty_conv)
  show "lookup ?s ?bins = (lookup s bins)(str_of s x := 0)"
  proof
    fix a
    have ha: "hash_bin ?s a = hash_bin s a" "hash_bin s a < length (ctable s)"
      using cache_rep_bin(1) [OF rep] by (simp_all add: hash_bin_def flds)
    show "lookup ?s ?bins a = ((lookup s bins)(str_of s x := 0)) a"
    proof (cases "hash_bin s a = b")
      case True
      then show ?thesis using str [OF b(1)] b(2) only h(4)
        by (auto simp: lookup_def ha(1) cong: filter_cong)
    next
      case False
      then show ?thesis using str [OF ha(2)] h(4) by (auto simp: lookup_def ha(1) cong: filter_cong)
    qed
  qed
qed

text \<open>
  An entry behind the front of its bin is freed but stays linked: a walk that reaches it
  follows a freed pointer.
\<close>

lemma bin_search_dangling:
  assumes "\<forall>y \<in> set ys. entry_ok s b y \<and> str_of s y < str" "key_string s key = Some str"
    "fwd (enext_of s) p (ys @ x # zs)" "x \<notin> set ys"
  shows "bin_search (s\<lparr>centries := (centries s)(x := None), csize := c\<rparr>) key lst p = None"
  using assms(1,3,4)
proof (induction ys arbitrary: p lst)
  case Nil
  then show ?case by (subst bin_search.simps) (simp add: entry_at_def)
next
  case (Cons y ys)
  let ?s = "s\<lparr>centries := (centries s)(x := None), csize := c\<rparr>"
  have p: "p = y" "y \<noteq> 0" "fwd (enext_of s) (enext_of s y) (ys @ x # zs)" "y \<noteq> x" using Cons.prems by auto
  obtain e where e: "centries s y = Some e" "ekey e \<noteq> 0" "key_string s (ekey e) = Some (str_of s y)" "str_of s y < str"
    using Cons.prems(1) by (auto simp: entry_ok_def)
  have k: "key_string ?s = key_string s" by (rule key_string_cong) simp_all
  have c: "keyCmp ?s key (ekey e) = Some (strcmp str (str_of s y))"
    using assms(2) e(3) by (intro keyCmp_strings) (simp_all only: k)
  have n: "enext_of s y = enext e" using e(1) by (simp add: enext_of_def)
  have "bin_search ?s key y (enext e) = None"
    by (rule Cons.IH [of "enext e" y]) (use Cons.prems p(3) n in simp_all)
  then show ?case using p(1,2,4) e c by (subst bin_search.simps) (simp add: entry_at_def)
qed

lemma cache_remove_behind:
  assumes rep: "cache_rep s bins" and b: "b < length (ctable s)" "bins b = y # ys @ x # zs"
  shows "cache_remove x s = Some (s\<lparr>centries := (centries s)(x := None), csize := csize s - 1\<rparr>)"
    "\<exists>e. centries s x = Some e \<and> key_string s (ekey e) = Some (str_of s x) \<and>
       cache_get (ekey e) (s\<lparr>centries := (centries s)(x := None), csize := csize s - 1\<rparr>) = None"
proof -
  let ?s = "s\<lparr>centries := (centries s)(x := None), csize := csize s - 1\<rparr>"
  note h = bin_head [OF rep b]
  have m: "1 \<le> MAX_SIZE s" using rep by (simp add: cache_rep_def)
  have f: "fwd (enext_of s) (ctable s ! b) ((y # ys) @ x # zs)"
    "\<forall>z \<in> set (y # ys @ x # zs). entry_ok s b z" "sorted_wrt (<) (map (str_of s) (y # ys @ x # zs))"
    using h(1) by (simp_all add: bin_ok_def)
  have lt: "\<forall>z \<in> set (y # ys). str_of s z < str_of s x" using f(3) by (auto simp: sorted_wrt_append)
  have "entry_ok s b x" "entry_ok s b y" using f(2) by auto
  then obtain e ey where e: "centries s x = Some e" "key_string s (ekey e) = Some (str_of s x)" "x \<noteq> 0"
    and hx: "hash_bin s (str_of s x) = b"
    and ey: "centries s y = Some ey" "key_string s (ekey ey) = Some (str_of s y)" "y \<noteq> 0"
    by (auto simp: entry_ok_def)
  have hash: "cache_hash s (ekey e) = Some b" using e(2) hx m by (simp add: cache_hash_def)
  have ne: "str_of s y \<noteq> str_of s x" using lt by auto
  have c: "keyCmp s (ekey ey) (ekey e) = Some (strcmp (str_of s y) (str_of s x))"
    "keyCmp s (ekey e) (ekey ey) = Some (strcmp (str_of s x) (str_of s y))"
    using keyCmp_strings e(2) ey(2) by blast+
  have "remove_walk s (ekey e) 0 y = Some (0, y)" by (simp add: remove_walk.simps)
  then show "cache_remove x s = Some ?s"
    using e(1,3) ey(1,3) hash h(2) c ne by (simp add: cache_remove_def entry_at_def)
  have "cache_hash ?s (ekey e) = Some b"
    using e(2) hx m key_string_cong [of ?s s] by (simp add: cache_hash_def hash_bin_def)
  moreover have "bin_search ?s (ekey e) 0 (ctable s ! b) = None"
    using bin_search_dangling [OF _ e(2) f(1), of b "csize s - 1" 0] f(2) lt bin_distinct [OF h(1)] by auto
  ultimately have "cache_get (ekey e) ?s = None" by (simp add: cache_get_def)
  with e show "\<exists>e. centries s x = Some e \<and> key_string s (ekey e) = Some (str_of s x) \<and> cache_get (ekey e) ?s = None"
    by blast
qed

section \<open>Properties of the cache\<close>

text \<open>A state with an empty cache, one file (number 7) and its keys.\<close>

definition file7 :: cfile where
  "file7 = \<lparr>c_address = 7, c_log = 0, treeHeight = 3, c_direct = replicate 16 0, dataHead = 0, dataTail = 0,
     metadataHead = 0, metadataTail = 0, lruFileNext = 0, lruFilePrev = 0\<rparr>"

definition empty_cstate :: cstate where
  "empty_cstate = \<lparr>ckeys = (\<lambda>_. None), cwps = (\<lambda>_. None), centries = (\<lambda>_. None), cfiles = [1 \<mapsto> file7],
     calogs = (\<lambda>_. None), hbrk = 100, MAX_SIZE = 0, csize = 0, ctable = [], lruDataHead = 0, lruDataTail = 0,
     lruFileHead = 0, lruFileTail = 0\<rparr>"

definition key_state :: "int \<Rightarrow> (int \<times> int) list \<Rightarrow> cstate" where
  "key_state siz ks = empty_cstate\<lparr>MAX_SIZE := siz, ctable := replicate (nat siz) 0,
     ckeys := (\<lambda>k. if 1 \<le> k \<and> k \<le> length ks
       then Some \<lparr>kfile = 1, dataOffset = fst (ks ! (k - 1)), levelsAbove = snd (ks ! (k - 1))\<rparr> else None)\<rparr>"

lemma key_state_created: "1 \<le> siz \<Longrightarrow> cache_create siz (key_state siz ks) = Some (key_state siz ks)"
  by (simp add: cache_create_def key_state_def empty_cstate_def)

lemma key_state_num:
  assumes "1 \<le> k" "k \<le> length ks"
  shows "key_num (key_state siz ks) k =
    do { n \<leftarrow> add32 7 (fst (ks ! (k - 1))); add32 n (snd (ks ! (k - 1))) }"
  using assms by (simp add: key_num_def key_state_def empty_cstate_def file_at_def file7_def)

lemma decimal_values: "decimal_buf 1031 = Some ''1031''" "decimal_buf 2055 = Some ''2055''"
  "add32 7 1024 = Some 1031" "add32 7 2048 = Some 2055" "add32 7 1023 = Some 1030"
  "add32 1030 1 = Some 1031" "add32 1031 0 = Some 1031" "add32 2055 0 = Some 2055"
  by (simp_all add: decimal_buf_def decimal_digits clog10_steps add32_def is_int32_def char_of_def bit_Suc_0_iff)

lemma key_state_string:
  "key_string (key_state siz ks) k = do { n \<leftarrow> key_num (key_state siz ks) k; decimal_buf n }"
  by (simp add: key_string_def)


text \<open>A new cache of 4 bins, two keys, and three pages.\<close>

definition three_pages :: cstate where
  "three_pages = (key_state 4 [(1024, 0), (2048, 0)])\<lparr>cwps := (\<lambda>p. if 50 \<le> p \<and> p \<le> 52 then Some \<lparr>nandPage = zero_page, address = 0\<rparr> else None)\<rparr>"


text \<open>The entry refers to a page that has been freed.\<close>

definition stale_page :: "cstate \<Rightarrow> node \<Rightarrow> bool" where
  "stale_page s x \<longleftrightarrow> (\<exists>e. entry_at x s = Some e \<and> free_page (ewp e) s = None)"

lemma stale_page_of: "x \<noteq> 0 \<Longrightarrow> page_of s x = Some w \<Longrightarrow> stale_page s x \<longleftrightarrow> free_page w s = None"
  by (auto simp: stale_page_def entry_at_def page_of_def)



text \<open>
  A key can be used only if its number (the sum of file number, offset and level) is
  positive and not a power of ten: otherwise the decimal string does not fit the buffer made
  for it, and every operation of the cache with that key is undefined.
\<close>

theorem cache_key_overflow:
  assumes "key_num s key = Some n" "MAX_SIZE s \<noteq> 0"
  shows "(cache_hash s key = None \<longleftrightarrow> n \<le> 0 \<or> (\<exists>j. n = 10 ^ j)) \<and>
    (n \<le> 0 \<or> (\<exists>j. n = 10 ^ j) \<longrightarrow> cache_get key s = None \<and> cache_set key wp s = None)"
proof -
  have "decimal_buf n = None \<longleftrightarrow> n \<le> 0 \<or> (\<exists>j. n = 10 ^ j)"
    using decimal_buf_None [of n] by (cases "0 < n") (auto simp: decimal_buf_def)
  moreover have "cache_hash s key = None \<longleftrightarrow> decimal_buf n = None"
    using assms by (cases "decimal_buf n") (simp_all add: cache_hash_def key_string_def)
  moreover have "cache_hash s key = None \<Longrightarrow> cache_get key s = None \<and> cache_set key wp s = None"
    by (simp add: cache_get_def cache_set_def)
  ultimately show ?thesis by simp
qed

theorem cache_key_overflow_witness:
  "cache_get 1 (key_state 4 [(93, 0)]) = None \<and> cache_set 1 50 (key_state 4 [(93, 0)]) = None"
proof -
  have k: "key_num (key_state 4 [(93, 0)]) 1 = Some 100" by (simp add: key_state_num add32_def is_int32_def)
  have m: "MAX_SIZE (key_state 4 [(93, 0)]) \<noteq> 0" by (simp add: key_state_def)
  have "\<exists>j. (100 :: int) = 10 ^ j" by (rule exI [of _ 2]) simp
  with cache_key_overflow [OF k m, of 50] show ?thesis by blast
qed

text \<open>
  Storing a new key in a full cache is not refused in an orderly way: either the null
  entry is dereferenced, or null is returned where the callers expect an entry.
\<close>

theorem cache_set_full:
  assumes "cache_rep s bins" "key_string s key = Some str" "lookup s bins str = 0" "csize s = MAX_SIZE s"
  shows "cache_set key wp s = (if before s bins str \<noteq> [] \<and> after s bins str = [] then Some (0, s) else None)"
proof -
  note cs = cache_search [OF assms(1,2)] and bin = cache_rep_bin [OF assms(1), of str]
  have new: "cache_newEntry key wp s = (0, s)" using assms(4) by (simp add: cache_newEntry_def)
  have m: "key_matches s key (hd (after s bins str @ [0])) = Some False" using cs(4) assms(3) by simp
  show ?thesis
  proof (cases "before s bins str" rule: rev_cases)
    case Nil
    with cs(2) have "ctable s ! hash_bin s str = hd (after s bins str @ [0])" by simp
    with cs(1,3) m new Nil show ?thesis by (simp add: cache_set_def upd_entry_def entry_at_def)
  next
    case (snoc ys y)
    have y: "y \<noteq> 0" "centries s y \<noteq> None" using bin_live [OF bin(2), of y] snoc by auto
    then obtain e where e: "centries s y = Some e" by auto
    have "0 \<notin> set (before s bins str @ after s bins str)" using bin_live [OF bin(2), of 0] by blast
    then have ne: "ctable s ! hash_bin s str \<noteq> hd (after s bins str @ [0])"
      using bin_distinct [OF bin(2)] cs(2) snoc by (cases ys; cases "after s bins str") auto
    show ?thesis
    proof (cases "after s bins str")
      case Nil
      have "enext_of s y = 0" using bin(2) Nil snoc fwd_last [of "enext_of s" _ ys y] by (auto simp: bin_ok_def)
      then have "enext e = 0" using e by (simp add: enext_of_def)
      then have "e\<lparr>enext := 0\<rparr> = e" by simp
      then have "upd_entry y (enext_update (\<lambda>_. 0)) s = Some s"
        using y e by (simp add: upd_entry_def entry_at_def fun_upd_idem)
      with cs(1,3) m new ne Nil snoc y show ?thesis by (simp add: cache_set_def)
    next
      case (Cons z zs)
      then have "z \<noteq> 0" using bin_live [OF bin(2), of z] by simp
      with cs(1,3) m new ne Cons snoc show ?thesis by (simp add: cache_set_def upd_entry_def entry_at_def)
    qed
  qed
qed

theorem cache_set_full_witness:
  "\<exists>s. cache_set 1 50 (key_state 1 [(1024, 0), (2048, 0)]) = Some (100, s) \<and>
     (cache_set 2 51 s = None \<or> cache_set 2 51 s = Some (0, s))"
proof -
  let ?s = "key_state 1 [(1024, 0), (2048, 0)]" and ?e = "\<lambda>_ :: nat. [] :: node list"
  have k: "key_string ?s 1 = Some ''1031''" "key_string ?s 2 = Some ''2055''"
    by (simp_all add: key_state_string key_state_num decimal_values)
  have rep: "cache_rep ?s ?e" "lookup ?s ?e = (\<lambda>_. 0)" "csize ?s < MAX_SIZE ?s" "csize ?s = 0" "MAX_SIZE ?s = 1" "hbrk ?s = 100"
    by (auto simp: key_state_def empty_cstate_def cache_rep_def bin_ok_def is_int32_def lookup_def)
  define s' where "s' = inserted ?s ?e ''1031'' 1 50"
  have set: "cache_set 1 50 ?s = Some (100, s')"
    using cache_set_absent [OF rep(1) k(1) _ rep(3), of 50] rep(2,6) by (simp add: s'_def)
  let ?b = "?e(hash_bin ?s ''1031'' := before ?s ?e ''1031'' @ hbrk ?s # after ?s ?e ''1031'')"
  have r: "cache_rep s' ?b" "lookup s' ?b ''2055'' = 0"
    using inserted_rep [OF rep(1) k(1) _ key_string_not_null [OF k(1)], of 50] rep(2) unfolding s'_def by simp_all
  have k2: "key_string s' 2 = Some ''2055''" using k(2) key_string_cong [of s' ?s] by (simp add: s'_def inserted_fields)
  have "csize s' = MAX_SIZE s'" using rep(4,5) by (simp add: s'_def inserted_fields)
  from cache_set_full [OF r(1) k2 r(2) this, of 51] set show ?thesis
    by (intro exI [of _ s']) (simp split: if_splits)
qed

text \<open>
  Removing an entry that is the first of its bin takes exactly its string out of the
  map and keeps the table well-formed, the count of entries included.
\<close>

theorem cache_remove_first:
  assumes "cache_rep s bins" "b < length (ctable s)" "bins b = x # xs"
  shows "\<exists>s'. cache_remove x s = Some s' \<and> cache_rep s' (bins(b := xs)) \<and>
    lookup s' (bins(b := xs)) = (lookup s bins)(str_of s x := 0) \<and> csize s' = csize s - 1"
  using cache_remove_head [OF assms] removed_rep [OF assms] by (intro exI [of _ "removed s b x"]) (simp add: removed_def)

text \<open>
  Removing an entry that is not the first of its bin frees it but leaves it linked: the
  loop that should find its predecessor is never entered. The count is decremented all the
  same, and looking the key up afterwards follows the freed entry.
\<close>

theorem cache_remove_dangling:
  assumes "cache_rep s bins" "b < length (ctable s)" "bins b = y # ys @ x # zs"
  shows "\<exists>s' e. cache_remove x s = Some s' \<and> csize s' = csize s - 1 \<and> centries s x = Some e \<and>
    cache_get (ekey e) s \<noteq> None \<and> cache_get (ekey e) s' = None"
proof -
  obtain e where e: "centries s x = Some e" "key_string s (ekey e) = Some (str_of s x)"
    "cache_get (ekey e) (s\<lparr>centries := (centries s)(x := None), csize := csize s - 1\<rparr>) = None"
    using cache_remove_behind(2) [OF assms] by blast
  then show ?thesis using cache_remove_behind(1) [OF assms] cache_get_lookup [OF assms(1) e(2)] by auto
qed

text \<open>A bin with two entries, for the witnesses: a cache with two bins after storing two pages.\<close>

definition two_pages :: cstate where
  "two_pages = (key_state 2 [(1024, 0), (3072, 0)])\<lparr>csize := 2, ctable := [100, 0], hbrk := 102,
     centries := [100 \<mapsto> new_entry 1 50 101, 101 \<mapsto> new_entry 2 51 0]\<rparr>"

definition two_bins :: "nat \<Rightarrow> node list" where
  "two_bins b = (if b = 0 then [100, 101] else [])"

lemma two_pages_rep: "cache_rep two_pages two_bins"
proof -
  have "add32 7 3072 = Some 3079" "add32 3079 0 = Some 3079" "decimal_buf 3079 = Some ''3079''"
    by (simp_all add: add32_def is_int32_def decimal_buf_def decimal_digits clog10_steps char_of_def bit_Suc_0_iff)
  then have k: "key_string two_pages 1 = Some ''1031''" "key_string two_pages 2 = Some ''3079''"
    using key_string_cong [of two_pages "key_state 2 [(1024, 0), (3072, 0)]"]
    by (simp_all add: two_pages_def key_state_string key_state_num decimal_values)
  have m: "MAX_SIZE two_pages = 2" "ctable two_pages = [100, 0]" by (simp_all add: two_pages_def key_state_def)
  have h: "hash_bin two_pages ''1031'' = 0" "hash_bin two_pages ''3079'' = 0" by (simp_all add: hash_bin_def m)
  have e: "centries two_pages 100 = Some (new_entry 1 50 101)" "centries two_pages 101 = Some (new_entry 2 51 0)"
    by (simp_all add: two_pages_def)
  have st: "str_of two_pages 100 = ''1031''" "str_of two_pages 101 = ''3079''"
    using k by (simp_all add: str_of_def e new_entry_def)
  have "entry_ok two_pages 0 100" "entry_ok two_pages 0 101" using k by (simp_all add: entry_ok_def e st h new_entry_def)
  moreover have "fwd (enext_of two_pages) 100 [100, 101]" by (simp add: enext_of_def e new_entry_def)
  moreover have "''1031'' < ''3079''" by (simp add: less_char_def)
  ultimately have "bin_ok two_pages 0 [100, 101]" by (simp add: bin_ok_def m st)
  moreover have "bin_ok two_pages 1 []" by (simp add: bin_ok_def m)
  moreover have "x < 102" if "centries two_pages x \<noteq> None" for x
    using that by (simp add: two_pages_def key_state_def empty_cstate_def split: if_splits)
  moreover have "csize two_pages = 2" "hbrk two_pages = 102" by (simp_all add: two_pages_def)
  ultimately show ?thesis by (simp add: cache_rep_def two_bins_def m is_int32_def less_Suc_eq numeral_2_eq_2)
qed

theorem cache_remove_first_witness:
  "\<exists>s'. cache_remove 100 two_pages = Some s' \<and> csize s' = 1"
  using cache_remove_first [OF two_pages_rep, of 0 100 "[101]"] by (auto simp: two_pages_def two_bins_def)

theorem cache_remove_dangling_witness:
  "\<exists>s' e. cache_remove 101 two_pages = Some s' \<and> centries two_pages 101 = Some e \<and>
    cache_get (ekey e) two_pages \<noteq> None \<and> cache_get (ekey e) s' = None"
  using cache_remove_dangling [OF two_pages_rep, of 0 100 "[]" 101 "[]"] by (auto simp: two_pages_def two_bins_def)

end
