(* ===== verification/Cache_Lists.thy ===== *)
theory Cache_Lists
  imports Page_Cache
begin

text \<open>
  The lists of the page cache: the data pages by last use (\<open>example/cache_code/cache.c\<close>), the
  data pages and the metadata pages of an open file (\<open>example/cache_code/openFile.c\<close>), and
  the open files by last use (the first part of \<open>example/cache_code/filesystem.c\<close>).

  Each is an instance of the lists of theory \<open>DList\<close>: it is seen through the links in the
  entries (or files) and the head and tail kept in the cache, in the file, or in the two
  global variables. The interpretations show that adding and removing behave as on a HOL
  list as long as a page is added only once.
\<close>

section \<open>Pages of an open file\<close>

definition openFile_addDataPage :: "node \<Rightarrow> node \<Rightarrow> cstate \<Rightarrow> cstate option" where
  "openFile_addDataPage file entry s = do {
     e \<leftarrow> entry_at entry s;
     if fileDataNext e = 0 \<and> fileDataPrev e = 0 then do {
       f \<leftarrow> file_at file s;
       let tail = dataTail f;
       s \<leftarrow> upd_entry entry (\<lambda>e. e\<lparr>fileDataPrev := tail, fileDataNext := 0\<rparr>) s;
       s \<leftarrow> (if tail = 0 then upd_file file (dataHead_update (\<lambda>_. entry)) s
            else upd_entry tail (fileDataNext_update (\<lambda>_. entry)) s);
       upd_file file (dataTail_update (\<lambda>_. entry)) s }
     else Some s }"

definition openFile_removeDataPage :: "node \<Rightarrow> node \<Rightarrow> cstate \<Rightarrow> cstate option" where
  "openFile_removeDataPage file entry s = do {
     f \<leftarrow> file_at file s;
     let head = dataHead f;
     let tail = dataTail f;
     e \<leftarrow> entry_at entry s;
     s \<leftarrow> (if entry = head then upd_file file (dataHead_update (\<lambda>_. fileDataNext e)) s
          else upd_entry (fileDataPrev e) (fileDataNext_update (\<lambda>_. fileDataNext e)) s);
     e \<leftarrow> entry_at entry s;
     if entry = tail then upd_file file (dataTail_update (\<lambda>_. fileDataPrev e)) s
     else upd_entry (fileDataNext e) (fileDataPrev_update (\<lambda>_. fileDataPrev e)) s }"

definition openFile_addMetadataPage :: "node \<Rightarrow> node \<Rightarrow> cstate \<Rightarrow> cstate option" where
  "openFile_addMetadataPage file entry s = do {
     e \<leftarrow> entry_at entry s;
     if fileMetadataNext e = 0 \<and> fileMetadataPrev e = 0 then do {
       f \<leftarrow> file_at file s;
       let tail = metadataTail f;
       if tail = 0 then upd_file file (\<lambda>f. f\<lparr>metadataTail := entry, metadataHead := entry\<rparr>) s
       else do {
         s \<leftarrow> upd_entry tail (fileMetadataNext_update (\<lambda>_. entry)) s;
         s \<leftarrow> upd_entry entry (fileMetadataPrev_update (\<lambda>_. tail)) s;
         upd_file file (metadataTail_update (\<lambda>_. entry)) s } }
     else Some s }"

definition openFile_removeMetadataPage :: "node \<Rightarrow> node \<Rightarrow> cstate \<Rightarrow> cstate option" where
  "openFile_removeMetadataPage file entry s = do {
     f \<leftarrow> file_at file s;
     let head = metadataHead f;
     let tail = metadataTail f;
     e \<leftarrow> entry_at entry s;
     s \<leftarrow> (if entry = head then upd_file file (metadataHead_update (\<lambda>_. fileMetadataNext e)) s
          else upd_entry (fileMetadataPrev e) (fileMetadataNext_update (\<lambda>_. fileMetadataNext e)) s);
     e \<leftarrow> entry_at entry s;
     if entry = tail then upd_file file (metadataTail_update (\<lambda>_. fileMetadataPrev e)) s
     else upd_entry (fileMetadataNext e) (fileMetadataPrev_update (\<lambda>_. fileMetadataPrev e)) s }"

text \<open>The two functions that print the number of cached pages of a file: the number printed.\<close>

partial_function (option) count_pages :: "(cacheEntry \<Rightarrow> node) \<Rightarrow> cstate \<Rightarrow> node \<Rightarrow> int \<Rightarrow> int option" where
  "count_pages nx s current i =
     (if current = 0 then Some i
      else do { e \<leftarrow> entry_at current s; count_pages nx s (nx e) (i + 1) })"

definition openFile_printData :: "node \<Rightarrow> cstate \<Rightarrow> int option" where
  "openFile_printData file s = do { f \<leftarrow> file_at file s; count_pages fileDataNext s (dataHead f) 0 }"

definition openFile_printMetadata :: "node \<Rightarrow> cstate \<Rightarrow> int option" where
  "openFile_printMetadata file s = do { f \<leftarrow> file_at file s; count_pages fileMetadataNext s (metadataHead f) 0 }"

section \<open>Open files by last use\<close>

definition updateLruFileHead :: "node \<Rightarrow> cstate \<Rightarrow> cstate option" where
  "updateLruFileHead file s = do {
     f \<leftarrow> file_at file s;
     let prv = lruFilePrev f;
     let nxt = lruFileNext f;
     if prv = 0 then Some s
     else do {
       s \<leftarrow> upd_file prv (\<lambda>p. p\<lparr>lruFileNext := nxt, lruFilePrev := file\<rparr>) s;
       s \<leftarrow> (if nxt \<noteq> 0 then upd_file nxt (lruFilePrev_update (\<lambda>_. prv)) s
            else Some (s\<lparr>lruFileTail := prv\<rparr>));
       s \<leftarrow> upd_file file (\<lambda>f. f\<lparr>lruFileNext := lruFileHead s, lruFilePrev := 0\<rparr>) s;
       Some (s\<lparr>lruFileHead := file\<rparr>) } }"

definition addFileToLru :: "node \<Rightarrow> cstate \<Rightarrow> cstate option" where
  "addFileToLru file s = do {
     let curHead = lruFileHead s;
     s \<leftarrow> upd_file file (\<lambda>f. f\<lparr>lruFileNext := curHead, lruFilePrev := 0\<rparr>) s;
     s \<leftarrow> (if curHead \<noteq> 0 then upd_file curHead (lruFilePrev_update (\<lambda>_. file)) s
          else Some (s\<lparr>lruFileTail := file\<rparr>));
     Some (s\<lparr>lruFileHead := file\<rparr>) }"

partial_function (option) lruContains :: "cstate \<Rightarrow> node \<Rightarrow> node \<Rightarrow> int option" where
  "lruContains s cur file =
     (if cur = 0 then Some 0
      else if cur = file then Some 1
      else do { f \<leftarrow> file_at cur s; lruContains s (lruFileNext f) file })"

definition fs_updateFileInLru :: "node \<Rightarrow> cstate \<Rightarrow> cstate option" where
  "fs_updateFileInLru file s = do {
     c \<leftarrow> lruContains s (lruFileHead s) file;
     if c = 1 then updateLruFileHead file s else addFileToLru file s }"

text \<open>The part of \<open>fs_removeFileFromLru\<close> that unlinks the file; then the tail it had saved is freed.\<close>

definition unlink_lru_file :: "node \<Rightarrow> cstate \<Rightarrow> cstate option" where
  "unlink_lru_file file s = do {
     f \<leftarrow> file_at file s;
     let nxt = lruFileNext f;
     s \<leftarrow> (if file = lruFileHead s then Some (s\<lparr>lruFileHead := nxt\<rparr>)
          else upd_file (lruFilePrev f) (lruFileNext_update (\<lambda>_. nxt)) s);
     f \<leftarrow> file_at file s;
     if file = lruFileTail s then Some (s\<lparr>lruFileTail := lruFilePrev f\<rparr>)
     else upd_file nxt (lruFilePrev_update (\<lambda>_. lruFilePrev f)) s }"

definition fs_removeFileFromLru :: "node \<Rightarrow> cstate \<Rightarrow> cstate option" where
  "fs_removeFileFromLru file s = do {
     let lruFile = lruFileTail s;
     s \<leftarrow> unlink_lru_file file s;
     Some (s\<lparr>cfiles := (cfiles s)(lruFile := None)\<rparr>) }"

section \<open>Links as functions\<close>

text \<open>A link field of the objects in a store, and the pointers that can be followed.\<close>

definition link :: "('a \<Rightarrow> node) \<Rightarrow> (node \<Rightarrow> 'a option) \<Rightarrow> node \<Rightarrow> node" where
  "link sel m x = (case m x of Some e \<Rightarrow> sel e | None \<Rightarrow> 0)"

definition live :: "(node \<Rightarrow> 'a option) \<Rightarrow> node set" where
  "live m = {x. x \<noteq> 0 \<and> m x \<noteq> None}"

lemma link_upd [simp]: "link sel (m(p \<mapsto> e)) = (link sel m)(p := sel e)"
  by (auto simp: link_def)

lemma live_upd [simp]: "p \<in> live m \<Longrightarrow> live (m(p \<mapsto> e)) = live m"
  by (auto simp: live_def)

lemma link_the: "m x = Some e \<Longrightarrow> link sel m x = sel e"
  by (simp add: link_def)

lemma live_obtain: "x \<in> live m \<Longrightarrow> (\<And>e. x \<noteq> 0 \<Longrightarrow> m x = Some e \<Longrightarrow> thesis) \<Longrightarrow> thesis"
  by (auto simp: live_def)

lemma live_iff: "x \<in> live m \<longleftrightarrow> x \<noteq> 0 \<and> (\<exists>e. m x = Some e)"
  by (auto simp: live_def)

lemmas store_simps = upd_entry_def entry_at_def upd_file_def file_at_def live_iff link_the Let_def fun_upd_idem

section \<open>Data pages by last use\<close>

definition lru_view :: "cstate \<Rightarrow> dlist" where
  "lru_view s = \<lparr>dnext = link lruDataNext (centries s), dprev = link lruDataPrev (centries s),
     dhead = lruDataHead s, dtail = lruDataTail s\<rparr>"

definition live_entries :: "cstate \<Rightarrow> node set" where
  "live_entries s = live (centries s)"

lemma lru_remove_view:
  assumes "dl_rep (lru_view s) xs" "set xs \<subseteq> live_entries s" "e \<in> set xs"
  shows "\<exists>s'. cache_removeDataPageFromLru e s = Some s' \<and> lru_view s' = unlink_node e (lru_view s)
    \<and> live_entries s' = live_entries s"
proof -
  have e: "e \<in> live (centries s)" using assms(2,3) by (auto simp: live_entries_def)
  then obtain c where c: "e \<noteq> 0" "centries s e = Some c" by (rule live_obtain)
  have l: "link sel (centries s) e = sel c" for sel using c(2) by (rule link_the)
  have pv: "lruDataPrev c \<in> live (centries s) \<and> lruDataPrev c \<noteq> e" if "e \<noteq> lruDataHead s"
    using dl_rep_prev [OF assms(1,3)] that assms(2) l
    by (auto simp: lru_view_def live_entries_def)
  have nx: "lruDataNext c \<in> live (centries s) \<and> lruDataNext c \<noteq> e" if "e \<noteq> lruDataTail s"
    using dl_rep_next [OF assms(1,3)] that assms(2) l
    by (auto simp: lru_view_def live_entries_def)
  show ?thesis
    using c pv nx
    by (cases "e = lruDataHead s"; cases "e = lruDataTail s"; cases "lruDataNext c = lruDataPrev c")
      (auto simp: cache_removeDataPageFromLru_def store_simps unlink_node_def lru_view_def live_entries_def)
qed

lemma lru_add_view:
  assumes "dl_rep (lru_view s) xs" "set xs \<subseteq> live_entries s" "e \<in> live_entries s" "e \<notin> set xs"
  shows "\<exists>s'. cache_addDataPageToLru e s = Some s' \<and> lru_view s' = push_front e (lru_view s)
    \<and> live_entries s' = live_entries s"
proof -
  obtain c where c: "e \<noteq> 0" "centries s e = Some c"
    using assms(3) unfolding live_entries_def by (rule live_obtain)
  have h: "lruDataHead s \<in> live (centries s) \<and> lruDataHead s \<noteq> e" if "lruDataHead s \<noteq> 0"
    using dl_rep_ends(1) [OF assms(1)] that assms(2,4) by (auto simp: lru_view_def live_entries_def)
  show ?thesis
    using c h by (cases "lruDataHead s = 0")
      (auto simp: cache_addDataPageToLru_def store_simps push_front_def lru_view_def live_entries_def)
qed

interpretation lru: dl_front lru_view live_entries cache_removeDataPageFromLru cache_addDataPageToLru
  by unfold_locales (rule lru_remove_view lru_add_view; assumption)+

section \<open>Pages of an open file as lists\<close>

definition live_pages :: "node \<Rightarrow> cstate \<Rightarrow> node set" where
  "live_pages file s = {x. file \<in> live (cfiles s)} \<inter> live (centries s)"

lemma live_pages_iff: "x \<in> live_pages file s \<longleftrightarrow> file \<in> live (cfiles s) \<and> x \<in> live (centries s)"
  by (auto simp: live_pages_def)

lemma live_pages_frame:
  "live (centries s') = live (centries s) \<Longrightarrow> live (cfiles s') = live (cfiles s) \<Longrightarrow> live_pages file s' = live_pages file s"
  by (simp add: live_pages_def)

lemma live_pagesE:
  assumes "x \<in> live_pages file s"
  obtains c f where "x \<noteq> 0" "centries s x = Some c" "file \<noteq> 0" "cfiles s file = Some f"
  using assms by (auto simp: live_pages_iff live_iff)

definition fdata_view :: "node \<Rightarrow> cstate \<Rightarrow> dlist" where
  "fdata_view file s = \<lparr>dnext = link fileDataNext (centries s), dprev = link fileDataPrev (centries s),
     dhead = link dataHead (cfiles s) file, dtail = link dataTail (cfiles s) file\<rparr>"

lemma fdata_remove_view:
  assumes "dl_rep (fdata_view file s) xs" "set xs \<subseteq> live_pages file s" "e \<in> set xs"
  shows "\<exists>s'. openFile_removeDataPage file e s = Some s' \<and> fdata_view file s' = unlink_node e (fdata_view file s)
    \<and> live_pages file s' = live_pages file s"
proof -
  obtain c f where c: "e \<noteq> 0" "centries s e = Some c" "file \<noteq> 0" "cfiles s file = Some f"
    using subsetD [OF assms(2,3)] by (rule live_pagesE)
  have l: "link sel (centries s) e = sel c" "link sel' (cfiles s) file = sel' f" for sel sel' using c(2,4) by (simp_all add: link_the)
  have pv: "fileDataPrev c \<in> live (centries s) \<and> fileDataPrev c \<noteq> e" if "e \<noteq> dataHead f"
    using dl_rep_prev [OF assms(1,3)] that assms(2) l by (auto simp: fdata_view_def live_pages_iff)
  have nx: "fileDataNext c \<in> live (centries s) \<and> fileDataNext c \<noteq> e" if "e \<noteq> dataTail f"
    using dl_rep_next [OF assms(1,3)] that assms(2) l by (auto simp: fdata_view_def live_pages_iff)
  have "\<exists>s'. openFile_removeDataPage file e s = Some s' \<and> fdata_view file s' = unlink_node e (fdata_view file s)
    \<and> live (centries s') = live (centries s) \<and> live (cfiles s') = live (cfiles s)"
  proof (cases "e = dataHead f"; cases "e = dataTail f")
    assume "e = dataHead f" "e = dataTail f"
    with c show ?thesis by (simp add: openFile_removeDataPage_def store_simps unlink_node_def fdata_view_def)
  next
    assume h: "e = dataHead f" "e \<noteq> dataTail f"
    then obtain n where "fileDataNext c \<noteq> 0" "fileDataNext c \<noteq> e" "centries s (fileDataNext c) = Some n"
      using nx by (auto simp: live_iff)
    with c h show ?thesis by (simp add: openFile_removeDataPage_def store_simps unlink_node_def fdata_view_def)
  next
    assume h: "e \<noteq> dataHead f" "e = dataTail f"
    then obtain p where "fileDataPrev c \<noteq> 0" "fileDataPrev c \<noteq> e" "centries s (fileDataPrev c) = Some p"
      using pv by (auto simp: live_iff)
    with c h show ?thesis by (simp add: openFile_removeDataPage_def store_simps unlink_node_def fdata_view_def)
  next
    assume h: "e \<noteq> dataHead f" "e \<noteq> dataTail f"
    then obtain p n where pn: "fileDataPrev c \<noteq> 0" "fileDataPrev c \<noteq> e" "centries s (fileDataPrev c) = Some p"
      "fileDataNext c \<noteq> 0" "fileDataNext c \<noteq> e" "centries s (fileDataNext c) = Some n"
      using pv nx by (auto simp: live_iff)
    moreover have "fileDataNext c \<noteq> fileDataPrev c"
      using dl_rep_neighbours [OF assms(1,3)] h l by (auto simp: fdata_view_def)
    moreover from this have "(link fileDataNext (centries s))(fileDataPrev c := fileDataNext c, fileDataNext c := fileDataNext n)
        = (link fileDataNext (centries s))(fileDataPrev c := fileDataNext c)"
      "(link fileDataPrev (centries s))(fileDataPrev c := fileDataPrev p) = link fileDataPrev (centries s)"
      using pn by (auto simp: fun_upd_idem_iff link_the)
    ultimately show ?thesis using c h l pn
      by (simp add: openFile_removeDataPage_def upd_entry_def entry_at_def upd_file_def file_at_def Let_def
          unlink_node_def fdata_view_def live_iff)
  qed
  then show ?thesis using live_pages_frame by blast
qed

lemma fdata_add_view:
  assumes "dl_rep (fdata_view file s) xs" "set xs \<subseteq> live_pages file s" "e \<in> live_pages file s" "e \<notin> set xs"
    and "dnext (fdata_view file s) e = 0" "dprev (fdata_view file s) e = 0"
  shows "\<exists>s'. openFile_addDataPage file e s = Some s' \<and> fdata_view file s' = push_back e (fdata_view file s)
    \<and> live_pages file s' = live_pages file s"
proof -
  obtain c f where c: "e \<noteq> 0" "centries s e = Some c" "file \<noteq> 0" "cfiles s file = Some f"
    using assms(3) by (rule live_pagesE)
  have l: "link sel (centries s) e = sel c" "link sel' (cfiles s) file = sel' f" for sel sel' using c(2,4) by (simp_all add: link_the)
  have z: "fileDataNext c = 0" "fileDataPrev c = 0" using assms(5,6) l by (simp_all add: fdata_view_def)
  have h: "dataTail f \<in> live (centries s) \<and> dataTail f \<noteq> e" if "dataTail f \<noteq> 0"
    using dl_rep_ends(2) [OF assms(1)] that assms(2,4) l by (auto simp: fdata_view_def live_pages_iff)
  have "\<exists>s'. openFile_addDataPage file e s = Some s' \<and> fdata_view file s' = push_back e (fdata_view file s)
    \<and> live (centries s') = live (centries s) \<and> live (cfiles s') = live (cfiles s)"
    using c h z by (cases "dataTail f = 0")
      (auto simp: openFile_addDataPage_def store_simps push_back_def fdata_view_def)
  then show ?thesis using live_pages_frame by blast
qed

interpretation fdata: dl_back "fdata_view f" "live_pages f" "openFile_removeDataPage f" "openFile_addDataPage f" for f
  by unfold_locales (rule fdata_remove_view fdata_add_view; assumption)+

definition fmeta_view :: "node \<Rightarrow> cstate \<Rightarrow> dlist" where
  "fmeta_view file s = \<lparr>dnext = link fileMetadataNext (centries s), dprev = link fileMetadataPrev (centries s),
     dhead = link metadataHead (cfiles s) file, dtail = link metadataTail (cfiles s) file\<rparr>"

lemma fmeta_remove_view:
  assumes "dl_rep (fmeta_view file s) xs" "set xs \<subseteq> live_pages file s" "e \<in> set xs"
  shows "\<exists>s'. openFile_removeMetadataPage file e s = Some s' \<and> fmeta_view file s' = unlink_node e (fmeta_view file s)
    \<and> live_pages file s' = live_pages file s"
proof -
  obtain c f where c: "e \<noteq> 0" "centries s e = Some c" "file \<noteq> 0" "cfiles s file = Some f"
    using subsetD [OF assms(2,3)] by (rule live_pagesE)
  have l: "link sel (centries s) e = sel c" "link sel' (cfiles s) file = sel' f" for sel sel' using c(2,4) by (simp_all add: link_the)
  have pv: "fileMetadataPrev c \<in> live (centries s) \<and> fileMetadataPrev c \<noteq> e" if "e \<noteq> metadataHead f"
    using dl_rep_prev [OF assms(1,3)] that assms(2) l by (auto simp: fmeta_view_def live_pages_iff)
  have nx: "fileMetadataNext c \<in> live (centries s) \<and> fileMetadataNext c \<noteq> e" if "e \<noteq> metadataTail f"
    using dl_rep_next [OF assms(1,3)] that assms(2) l by (auto simp: fmeta_view_def live_pages_iff)
  have "\<exists>s'. openFile_removeMetadataPage file e s = Some s' \<and> fmeta_view file s' = unlink_node e (fmeta_view file s)
    \<and> live (centries s') = live (centries s) \<and> live (cfiles s') = live (cfiles s)"
  proof (cases "e = metadataHead f"; cases "e = metadataTail f")
    assume "e = metadataHead f" "e = metadataTail f"
    with c show ?thesis by (simp add: openFile_removeMetadataPage_def store_simps unlink_node_def fmeta_view_def)
  next
    assume h: "e = metadataHead f" "e \<noteq> metadataTail f"
    then obtain n where "fileMetadataNext c \<noteq> 0" "fileMetadataNext c \<noteq> e" "centries s (fileMetadataNext c) = Some n"
      using nx by (auto simp: live_iff)
    with c h show ?thesis by (simp add: openFile_removeMetadataPage_def store_simps unlink_node_def fmeta_view_def)
  next
    assume h: "e \<noteq> metadataHead f" "e = metadataTail f"
    then obtain p where "fileMetadataPrev c \<noteq> 0" "fileMetadataPrev c \<noteq> e" "centries s (fileMetadataPrev c) = Some p"
      using pv by (auto simp: live_iff)
    with c h show ?thesis by (simp add: openFile_removeMetadataPage_def store_simps unlink_node_def fmeta_view_def)
  next
    assume h: "e \<noteq> metadataHead f" "e \<noteq> metadataTail f"
    then obtain p n where pn: "fileMetadataPrev c \<noteq> 0" "fileMetadataPrev c \<noteq> e" "centries s (fileMetadataPrev c) = Some p"
      "fileMetadataNext c \<noteq> 0" "fileMetadataNext c \<noteq> e" "centries s (fileMetadataNext c) = Some n"
      using pv nx by (auto simp: live_iff)
    moreover have "fileMetadataNext c \<noteq> fileMetadataPrev c"
      using dl_rep_neighbours [OF assms(1,3)] h l by (auto simp: fmeta_view_def)
    moreover from this have "(link fileMetadataNext (centries s))(fileMetadataPrev c := fileMetadataNext c, fileMetadataNext c := fileMetadataNext n)
        = (link fileMetadataNext (centries s))(fileMetadataPrev c := fileMetadataNext c)"
      "(link fileMetadataPrev (centries s))(fileMetadataPrev c := fileMetadataPrev p) = link fileMetadataPrev (centries s)"
      using pn by (auto simp: fun_upd_idem_iff link_the)
    ultimately show ?thesis using c h l pn
      by (simp add: openFile_removeMetadataPage_def upd_entry_def entry_at_def upd_file_def file_at_def Let_def
          unlink_node_def fmeta_view_def live_iff)
  qed
  then show ?thesis using live_pages_frame by blast
qed

lemma fmeta_add_view:
  assumes "dl_rep (fmeta_view file s) xs" "set xs \<subseteq> live_pages file s" "e \<in> live_pages file s" "e \<notin> set xs"
    and "dnext (fmeta_view file s) e = 0" "dprev (fmeta_view file s) e = 0"
  shows "\<exists>s'. openFile_addMetadataPage file e s = Some s' \<and> fmeta_view file s' = push_back e (fmeta_view file s)
    \<and> live_pages file s' = live_pages file s"
proof -
  obtain c f where c: "e \<noteq> 0" "centries s e = Some c" "file \<noteq> 0" "cfiles s file = Some f"
    using assms(3) by (rule live_pagesE)
  have l: "link sel (centries s) e = sel c" "link sel' (cfiles s) file = sel' f" for sel sel' using c(2,4) by (simp_all add: link_the)
  have z: "fileMetadataNext c = 0" "fileMetadataPrev c = 0" using assms(5,6) l by (simp_all add: fmeta_view_def)
  have h: "metadataTail f \<in> live (centries s) \<and> metadataTail f \<noteq> e" if "metadataTail f \<noteq> 0"
    using dl_rep_ends(2) [OF assms(1)] that assms(2,4) l by (auto simp: fmeta_view_def live_pages_iff)
  have "\<exists>s'. openFile_addMetadataPage file e s = Some s' \<and> fmeta_view file s' = push_back e (fmeta_view file s)
    \<and> live (centries s') = live (centries s) \<and> live (cfiles s') = live (cfiles s)"
    using c h z by (cases "metadataTail f = 0")
      (auto simp: openFile_addMetadataPage_def store_simps push_back_def fmeta_view_def)
  then show ?thesis using live_pages_frame by blast
qed

interpretation fmeta: dl_back "fmeta_view f" "live_pages f" "openFile_removeMetadataPage f" "openFile_addMetadataPage f" for f
  by unfold_locales (rule fmeta_remove_view fmeta_add_view; assumption)+

section \<open>Open files by last use as a list\<close>

definition file_view :: "cstate \<Rightarrow> dlist" where
  "file_view s = \<lparr>dnext = link lruFileNext (cfiles s), dprev = link lruFilePrev (cfiles s),
     dhead = lruFileHead s, dtail = lruFileTail s\<rparr>"

definition live_files :: "cstate \<Rightarrow> node set" where
  "live_files s = live (cfiles s)"

lemma file_remove_view:
  assumes "dl_rep (file_view s) xs" "set xs \<subseteq> live_files s" "e \<in> set xs"
  shows "\<exists>s'. unlink_lru_file e s = Some s' \<and> file_view s' = unlink_node e (file_view s)
    \<and> live_files s' = live_files s"
proof -
  have "e \<in> live (cfiles s)" using assms(2,3) by (auto simp: live_files_def)
  then obtain c where c: "e \<noteq> 0" "cfiles s e = Some c" by (rule live_obtain)
  have l: "link sel (cfiles s) e = sel c" for sel using c(2) by (rule link_the)
  have pv: "lruFilePrev c \<in> live (cfiles s) \<and> lruFilePrev c \<noteq> e" if "e \<noteq> lruFileHead s"
    using dl_rep_prev [OF assms(1,3)] that assms(2) l by (auto simp: file_view_def live_files_def)
  have nx: "lruFileNext c \<in> live (cfiles s) \<and> lruFileNext c \<noteq> e" if "e \<noteq> lruFileTail s"
    using dl_rep_next [OF assms(1,3)] that assms(2) l by (auto simp: file_view_def live_files_def)
  show ?thesis
    using c pv nx
    by (cases "e = lruFileHead s"; cases "e = lruFileTail s"; cases "lruFileNext c = lruFilePrev c")
      (auto simp: unlink_lru_file_def store_simps unlink_node_def file_view_def live_files_def)
qed

lemma file_add_view:
  assumes "dl_rep (file_view s) xs" "set xs \<subseteq> live_files s" "e \<in> live_files s" "e \<notin> set xs"
  shows "\<exists>s'. addFileToLru e s = Some s' \<and> file_view s' = push_front e (file_view s)
    \<and> live_files s' = live_files s"
proof -
  obtain c where c: "e \<noteq> 0" "cfiles s e = Some c"
    using assms(3) unfolding live_files_def by (rule live_obtain)
  have h: "lruFileHead s \<in> live (cfiles s) \<and> lruFileHead s \<noteq> e" if "lruFileHead s \<noteq> 0"
    using dl_rep_ends(1) [OF assms(1)] that assms(2,4) by (auto simp: file_view_def live_files_def)
  show ?thesis
    using c h by (cases "lruFileHead s = 0")
      (auto simp: addFileToLru_def store_simps push_front_def file_view_def live_files_def)
qed

interpretation lru_files: dl_front file_view live_files unlink_lru_file addFileToLru
  by unfold_locales (rule file_remove_view file_add_view; assumption)+

section \<open>Walking the lists\<close>

lemma count_pages_list:
  assumes "fwd (link nx (centries s)) p xs" "set xs \<subseteq> live (centries s)"
  shows "count_pages nx s p i = Some (i + int (length xs))"
  using assms
proof (induction xs arbitrary: p i)
  case Nil
  then show ?case by (simp add: count_pages.simps)
next
  case (Cons x xs)
  then obtain e where e: "p = x" "x \<noteq> 0" "centries s x = Some e" by (auto simp: live_iff)
  then have "count_pages nx s (nx e) (i + 1) = Some (i + 1 + int (length xs))"
    using Cons by (simp add: link_the)
  with e show ?case by (subst count_pages.simps) (simp add: entry_at_def)
qed

lemma count_pages_cycle:
  assumes "centries s x = Some e" "nx e = x" "x \<noteq> 0"
  shows "count_pages nx s x i = None"
proof (rule ccontr)
  assume "count_pages nx s x i \<noteq> None"
  then obtain r where r: "count_pages nx s x i = Some r" by auto
  have "nx = nx \<longrightarrow> s = s \<longrightarrow> x = x \<longrightarrow> False"
  proof (rule count_pages.raw_induct [OF _ r, where P = "\<lambda>nx' s' x' i r. nx' = nx \<longrightarrow> s' = s \<longrightarrow> x' = x \<longrightarrow> False"])
    fix f nx' s' x' i r
    assume "\<And>nx' s' x' i r. f nx' s' x' i = Some r \<Longrightarrow> nx' = nx \<longrightarrow> s' = s \<longrightarrow> x' = x \<longrightarrow> False"
      and "(if x' = 0 then Some i else do { e \<leftarrow> entry_at x' s'; f nx' s' (nx' e) (i + 1) }) = Some r"
    then show "nx' = nx \<longrightarrow> s' = s \<longrightarrow> x' = x \<longrightarrow> False" using assms by (auto simp: entry_at_def) blast
  qed
  then show False by simp
qed

lemma lruContains_list:
  assumes "fwd (link lruFileNext (cfiles s)) p xs" "set xs \<subseteq> live (cfiles s)"
  shows "lruContains s p file = Some (if file \<in> set xs then 1 else 0)"
  using assms
proof (induction xs arbitrary: p)
  case Nil
  then show ?case by (simp add: lruContains.simps)
next
  case (Cons x xs)
  then obtain f where f: "p = x" "x \<noteq> 0" "cfiles s x = Some f" by (auto simp: live_iff)
  then have "lruContains s (lruFileNext f) file = Some (if file \<in> set xs then 1 else 0)"
    using Cons by (simp add: link_the)
  with f show ?case by (subst lruContains.simps) (auto simp: file_at_def)
qed

section \<open>Moving to the front\<close>

lemma lru_update_view:
  assumes "dl_rep (lru_view s) xs" "set xs \<subseteq> live_entries s" "e \<in> set xs"
  shows "\<exists>s'. cache_updateDataLruHead e s = Some s' \<and> lru_view s' = move_front e (lru_view s)
    \<and> live_entries s' = live_entries s"
proof -
  have "e \<in> live (centries s)" using assms(2,3) by (auto simp: live_entries_def)
  then obtain c where c: "e \<noteq> 0" "centries s e = Some c" by (rule live_obtain)
  have l: "link sel (centries s) e = sel c" for sel using c(2) by (rule link_the)
  show ?thesis
  proof (cases "lruDataPrev c = 0")
    case True
    with c l show ?thesis by (simp add: cache_updateDataLruHead_def entry_at_def move_front_def lru_view_def)
  next
    case False
    then have "e \<noteq> dhead (lru_view s)" using assms(1,3) l by (cases xs) (auto simp: dl_rep_def lru_view_def)
    then have "lruDataPrev c \<in> live (centries s) \<and> lruDataPrev c \<noteq> e"
      using dl_rep_prev [OF assms(1,3)] assms(2) l by (auto simp: lru_view_def live_entries_def)
    then obtain p where p: "lruDataPrev c \<noteq> e" "centries s (lruDataPrev c) = Some p" by (auto simp: live_iff)
    show ?thesis
    proof (cases "lruDataNext c = 0")
      case True
      with False c l p show ?thesis
        by (simp add: cache_updateDataLruHead_def upd_entry_def entry_at_def move_front_def lru_view_def
            live_entries_def live_iff Let_def)
    next
      case nx: False
      then have "e \<noteq> dtail (lru_view s)" using assms(1,3) l
        by (cases xs rule: rev_cases) (auto simp: dl_rep_def lru_view_def seg_append)
      then have "lruDataNext c \<in> live (centries s) \<and> lruDataNext c \<noteq> e" "lruDataNext c \<noteq> lruDataPrev c"
        using dl_rep_next [OF assms(1,3)] dl_rep_neighbours [OF assms(1,3)] \<open>e \<noteq> dhead (lru_view s)\<close> assms(2) l
        by (auto simp: lru_view_def live_entries_def)
      then obtain n where n: "lruDataNext c \<noteq> e" "centries s (lruDataNext c) = Some n" "lruDataNext c \<noteq> lruDataPrev c"
        by (auto simp: live_iff)
      have "(link lruDataNext (centries s))(lruDataPrev c := lruDataNext c, lruDataNext c := lruDataNext n)
          = (link lruDataNext (centries s))(lruDataPrev c := lruDataNext c)"
        using n by (auto simp: fun_upd_idem_iff link_the)
      with False nx c l p n show ?thesis
        by (simp add: cache_updateDataLruHead_def upd_entry_def entry_at_def move_front_def lru_view_def
            live_entries_def live_iff Let_def)
    qed
  qed
qed

lemma file_update_view:
  assumes "dl_rep (file_view s) xs" "set xs \<subseteq> live_files s" "e \<in> set xs"
  shows "\<exists>s'. updateLruFileHead e s = Some s' \<and> file_view s' = move_front e (file_view s)
    \<and> live_files s' = live_files s"
proof -
  have "e \<in> live (cfiles s)" using assms(2,3) by (auto simp: live_files_def)
  then obtain c where c: "e \<noteq> 0" "cfiles s e = Some c" by (rule live_obtain)
  have l: "link sel (cfiles s) e = sel c" for sel using c(2) by (rule link_the)
  show ?thesis
  proof (cases "lruFilePrev c = 0")
    case True
    with c l show ?thesis by (simp add: updateLruFileHead_def file_at_def move_front_def file_view_def)
  next
    case False
    then have "e \<noteq> dhead (file_view s)" using assms(1,3) l by (cases xs) (auto simp: dl_rep_def file_view_def)
    then have "lruFilePrev c \<in> live (cfiles s) \<and> lruFilePrev c \<noteq> e"
      using dl_rep_prev [OF assms(1,3)] assms(2) l by (auto simp: file_view_def live_files_def)
    then obtain p where p: "lruFilePrev c \<noteq> e" "cfiles s (lruFilePrev c) = Some p" by (auto simp: live_iff)
    show ?thesis
    proof (cases "lruFileNext c = 0")
      case True
      with False c l p show ?thesis
        by (simp add: updateLruFileHead_def upd_file_def file_at_def move_front_def file_view_def
            live_files_def live_iff Let_def)
    next
      case nx: False
      then have "e \<noteq> dtail (file_view s)" using assms(1,3) l
        by (cases xs rule: rev_cases) (auto simp: dl_rep_def file_view_def seg_append)
      then have "lruFileNext c \<in> live (cfiles s) \<and> lruFileNext c \<noteq> e" "lruFileNext c \<noteq> lruFilePrev c"
        using dl_rep_next [OF assms(1,3)] dl_rep_neighbours [OF assms(1,3)] \<open>e \<noteq> dhead (file_view s)\<close> assms(2) l
        by (auto simp: file_view_def live_files_def)
      then obtain n where n: "lruFileNext c \<noteq> e" "cfiles s (lruFileNext c) = Some n" "lruFileNext c \<noteq> lruFilePrev c"
        by (auto simp: live_iff)
      have "(link lruFileNext (cfiles s))(lruFilePrev c := lruFileNext c, lruFileNext c := lruFileNext n)
          = (link lruFileNext (cfiles s))(lruFilePrev c := lruFileNext c)"
        using n by (auto simp: fun_upd_idem_iff link_the)
      with False nx c l p n show ?thesis
        by (simp add: updateLruFileHead_def upd_file_def file_at_def move_front_def file_view_def
            live_files_def live_iff Let_def)
    qed
  qed
qed

text \<open>
  Touching the first or the second entry of a list moves it to the front. Touching a later
  one keeps the order along the next links, but the old head keeps its null link back.
\<close>

lemma lru_touch_early:
  assumes "dl_holds lru_view live_entries s xs" "xs = e # bs \<or> xs = a # e # bs"
  shows "\<exists>s'. cache_updateDataLruHead e s = Some s' \<and> dl_holds lru_view live_entries s' (e # remove1 e xs)"
proof -
  have h: "dl_rep (lru_view s) xs" "set xs \<subseteq> live_entries s" "e \<in> set xs" using assms by (auto simp: dl_holds_def)
  obtain s' where s': "cache_updateDataLruHead e s = Some s'" "lru_view s' = move_front e (lru_view s)"
    "live_entries s' = live_entries s" using lru_update_view [OF h] by blast
  have "dl_rep (move_front e (lru_view s)) (e # remove1 e xs)"
    using assms(2) h(1) move_front_first [of "lru_view s" e bs] move_front_second [of "lru_view s" a e bs]
    by (auto dest: dl_rep_facts(1))
  with s' h(2,3) show ?thesis by (auto simp: dl_holds_def dest: notin_set_remove1 in_mono)
qed

lemma lru_touch_late:
  assumes "dl_holds lru_view live_entries s (h # as @ [a] @ e # bs)"
  shows "\<exists>s'. cache_updateDataLruHead e s = Some s' \<and>
    fwd (link lruDataNext (centries s')) (lruDataHead s') (e # h # as @ [a] @ bs) \<and>
    cache_removeDataPageFromLru h s' = None"
proof -
  let ?xs = "h # as @ [a] @ e # bs"
  have r: "dl_rep (lru_view s) ?xs" "set ?xs \<subseteq> live_entries s" using assms by (auto simp: dl_holds_def)
  obtain s' where s': "cache_updateDataLruHead e s = Some s'" "lru_view s' = move_front e (lru_view s)"
    "live_entries s' = live_entries s" using lru_update_view [OF r, of e] by auto
  note m = move_front_later [OF r(1), folded s'(2)]
  have "dhead (lru_view s') = e" using m(1) by simp
  with m(2) have hd: "lruDataHead s' = e" "link lruDataPrev (centries s') h = 0" "h \<noteq> e"
    using dl_rep_facts(1) [OF r(1)] by (simp_all add: lru_view_def)
  have "h \<in> live (centries s')" using r(2) s'(3) by (simp add: live_entries_def)
  then obtain c where c: "h \<noteq> 0" "centries s' h = Some c" by (rule live_obtain)
  then have "lruDataPrev c = 0" using hd(2) by (simp add: link_the)
  then have "cache_removeDataPageFromLru h s' = None"
    using hd(1,3) c by (simp add: cache_removeDataPageFromLru_def entry_at_def upd_entry_def)
  moreover have "fwd (link lruDataNext (centries s')) (lruDataHead s') (e # h # as @ [a] @ bs)"
    using m(1) by (simp add: lru_view_def del: fwd.simps)
  ultimately show ?thesis using s'(1) by blast
qed

section \<open>Properties of the lists\<close>

text \<open>
  C15. The list of a file's cached data pages: adding a page that is in no list appends it,
  printing counts the pages and returns, and removing any page takes out exactly that one.
\<close>

theorem file_pages_list:
  assumes h: "dl_holds (fdata_view file) (live_pages file) s xs" and e: "e \<in> live_pages file s" "e \<notin> set xs"
    and z: "link fileDataNext (centries s) e = 0" "link fileDataPrev (centries s) e = 0"
  shows "\<exists>s'. openFile_addDataPage file e s = Some s' \<and> openFile_printData file s' = Some (int (length xs) + 1) \<and>
    (\<forall>x \<in> set (xs @ [e]). \<exists>s''. openFile_removeDataPage file x s' = Some s'' \<and>
       dl_holds (fdata_view file) (live_pages file) s'' (remove1 x (xs @ [e])) \<and>
       openFile_printData file s'' = Some (int (length xs)))"
proof -
  have cnt: "openFile_printData file s = Some (int (length ys))" if hs: "dl_holds (fdata_view file) (live_pages file) s ys" and fl: "file \<in> live (cfiles s)" for ys s
  proof -
    have r: "dl_rep (fdata_view file s) ys" "set ys \<subseteq> live (centries s)"
      using hs by (auto simp: dl_holds_def live_pages_def)
    obtain f where f: "file \<noteq> 0" "cfiles s file = Some f" using fl by (rule live_obtain)
    have "fwd (link fileDataNext (centries s)) (dataHead f) ys"
      using dl_rep_fwd [OF r(1)] f by (simp add: fdata_view_def link_the)
    from count_pages_list [OF this r(2), of 0] show ?thesis using f by (simp add: openFile_printData_def file_at_def)
  qed
  have e0: "e \<noteq> 0" "file \<in> live (cfiles s)" using e(1) by (auto simp: live_pages_iff live_iff)
  obtain s' where s': "openFile_addDataPage file e s = Some s'"
    "dl_holds (fdata_view file) (live_pages file) s' (xs @ [e])" "live_pages file s' = live_pages file s"
    using fdata.add_list [OF h e(1) e0(1) e(2)] z by (auto simp: fdata_view_def)
  have f': "file \<in> live (cfiles s')" using e(1) s'(3) by (metis live_pages_iff)
  have "\<exists>s''. openFile_removeDataPage file x s' = Some s'' \<and>
      dl_holds (fdata_view file) (live_pages file) s'' (remove1 x (xs @ [e])) \<and>
      openFile_printData file s'' = Some (int (length xs))" if x: "x \<in> set (xs @ [e])" for x
  proof -
    obtain s'' where s'': "openFile_removeDataPage file x s' = Some s''"
      "dl_holds (fdata_view file) (live_pages file) s'' (remove1 x (xs @ [e]))" "live_pages file s'' = live_pages file s'"
      using fdata.remove_list [OF s'(2) x] by blast
    have "file \<in> live (cfiles s'')" using e(1) s'(3) s''(3) by (metis live_pages_iff)
    from cnt [OF s''(2) this] s'' x show ?thesis by (auto simp: length_remove1)
  qed
  then show ?thesis using s'(1) cnt [OF s'(2) f'] by auto
qed

text \<open>A state with one file and entries that are in no list.\<close>

definition pages_state :: "node list \<Rightarrow> cstate" where
  "pages_state xs = empty_cstate\<lparr>centries := (\<lambda>x. if x \<in> set xs then Some (new_entry 0 0 0) else None)\<rparr>"

lemma pages_state_simps:
  "0 \<notin> set xs \<Longrightarrow> live_pages 1 (pages_state xs) = set xs"
  "dl_holds (fdata_view 1) (live_pages 1) (pages_state xs) []"
  "link fileDataNext (centries (pages_state xs)) x = 0" "link fileDataPrev (centries (pages_state xs)) x = 0"
  by (auto simp: pages_state_def live_pages_def live_def empty_cstate_def file7_def dl_holds_def dl_rep_def
      fdata_view_def link_def new_entry_def split: if_splits intro: ccontr)

theorem file_pages_list_witness:
  "\<exists>s'. openFile_addDataPage 1 5 (pages_state [5, 6]) = Some s' \<and> openFile_printData 1 s' = Some 1"
  using file_pages_list [OF pages_state_simps(2) [of "[5, 6]"], where e = 5] pages_state_simps(1) [of "[5, 6]"]
  by (auto simp: pages_state_simps(3,4))

text \<open>
  The guard that should keep a page from being added twice lets the only page of a list
  be added again: it becomes its own successor, and printing the list never returns.
\<close>

theorem readded_page_loops:
  assumes h: "dl_holds (fdata_view file) (live_pages file) s [e]"
  shows "\<exists>s'. openFile_addDataPage file e s = Some s' \<and> link fileDataNext (centries s') e = e \<and>
    openFile_printData file s' = None"
proof -
  have r: "dl_rep (fdata_view file s) [e]" "e \<in> live_pages file s" using h by (auto simp: dl_holds_def)
  obtain c f where c: "e \<noteq> 0" "centries s e = Some c" "file \<noteq> 0" "cfiles s file = Some f" using r(2) by (rule live_pagesE)
  have d: "fileDataNext c = 0" "fileDataPrev c = 0" "dataHead f = e" "dataTail f = e"
    using r(1) c(2,4) by (auto simp: dl_rep_def fdata_view_def link_the)
  define s' where "s' = s\<lparr>centries := (centries s)(e \<mapsto> c\<lparr>fileDataPrev := e, fileDataNext := e\<rparr>),
    cfiles := (cfiles s)(file \<mapsto> f\<lparr>dataTail := e\<rparr>)\<rparr>"
  have "openFile_addDataPage file e s = Some s'"
    using c d by (simp add: openFile_addDataPage_def entry_at_def file_at_def upd_entry_def upd_file_def s'_def)
  moreover have "link fileDataNext (centries s') e = e" by (simp add: s'_def)
  moreover have "openFile_printData file s' = None"
    using count_pages_cycle [of s' e "c\<lparr>fileDataPrev := e, fileDataNext := e\<rparr>" fileDataNext 0] c d
    by (simp add: openFile_printData_def file_at_def s'_def)
  ultimately show ?thesis by blast
qed

theorem readded_page_loops_witness:
  "\<exists>s s'. openFile_addDataPage 1 5 (pages_state [5]) = Some s \<and> openFile_addDataPage 1 5 s = Some s' \<and>
    openFile_printData 1 s' = None"
proof -
  obtain s where s: "openFile_addDataPage 1 5 (pages_state [5]) = Some s" "dl_holds (fdata_view 1) (live_pages 1) s [5]"
    using fdata.add_list [OF pages_state_simps(2) [of "[5]"], where e = 5] pages_state_simps(1) [of "[5]"]
    by (auto simp: fdata_view_def pages_state_simps(3,4))
  show ?thesis using readded_page_loops [OF s(2)] s(1) by blast
qed

text \<open>
  Touching a page moves it to the front of the list by last use. For the first two
  pages the list stays well-formed; for any later one the old head keeps a null link back,
  so that removing it later follows a null pointer.
\<close>

theorem lru_touch:
  assumes "dl_holds lru_view live_entries s (as @ e # bs)"
  shows "\<exists>s'. cache_updateDataLruHead e s = Some s' \<and>
    fwd (link lruDataNext (centries s')) (lruDataHead s') (e # as @ bs) \<and>
    (if length as < 2 then dl_holds lru_view live_entries s' (e # as @ bs)
     else cache_removeDataPageFromLru (hd as) s' = None)"
proof (cases "length as < 2")
  case True
  then have as: "as = [] \<or> (\<exists>a. as = [a])" by (cases as) (auto simp: length_Suc_conv less_Suc_eq)
  have d: "distinct (as @ e # bs)" using assms by (auto simp: dl_holds_def dl_rep_def)
  obtain s' where s': "cache_updateDataLruHead e s = Some s'" "dl_holds lru_view live_entries s' (e # as @ bs)"
    using lru_touch_early [OF assms, of e bs "hd as"] as d by (auto simp: remove1_append)
  then have "fwd (link lruDataNext (centries s')) (lruDataHead s') (e # as @ bs)"
    using dl_rep_fwd [of "lru_view s'" "e # as @ bs"] by (simp add: dl_holds_def lru_view_def del: fwd.simps)
  with s' True show ?thesis by auto
next
  case False
  then obtain h as' a where "as = h # as' @ [a]"
    by (cases as; cases "tl as" rule: rev_cases) auto
  then show ?thesis using lru_touch_late [of s h as' a e bs] assms False by auto
qed

definition lru_state :: cstate where
  "lru_state = empty_cstate\<lparr>lruDataHead := 5, lruDataTail := 7,
     centries := [5 \<mapsto> (new_entry 1 0 0)\<lparr>lruDataNext := 6\<rparr>,
       6 \<mapsto> (new_entry 2 0 0)\<lparr>lruDataNext := 7, lruDataPrev := 5\<rparr>, 7 \<mapsto> (new_entry 3 0 0)\<lparr>lruDataPrev := 6\<rparr>]\<rparr>"

lemma lru_state_holds: "dl_holds lru_view live_entries lru_state ([5, 6] @ 7 # [])"
  by (auto simp: dl_holds_def dl_rep_def lru_view_def lru_state_def live_entries_def live_def link_def new_entry_def)

theorem lru_touch_witness:
  "\<exists>s'. cache_updateDataLruHead 7 lru_state = Some s' \<and>
    fwd (link lruDataNext (centries s')) (lruDataHead s') [7, 5, 6] \<and> cache_removeDataPageFromLru 5 s' = None"
  using lru_touch [OF lru_state_holds] by (auto simp del: fwd.simps)

text \<open>
  Removing an open file from the list of files frees the least recently used file: that
  is right when it is the one removed (as in an eviction); otherwise the file removed stays
  allocated and the file at the end of the list is freed while it is still linked.
\<close>

theorem remove_file_frees_tail:
  assumes "dl_holds file_view live_files s (xs @ [t])" "x \<in> set (xs @ [t])"
  shows "\<exists>s'. fs_removeFileFromLru x s = Some s' \<and> live_files s' = live_files s - {t} \<and>
    (if x = t then dl_holds file_view live_files s' xs
     else x \<in> live_files s' \<and> lruFileTail s' = t \<and> t \<notin> live_files s')"
proof -
  have r: "dl_rep (file_view s) (xs @ [t])" using assms(1) by (simp add: dl_holds_def)
  have d: "distinct (xs @ [t])" and tl: "lruFileTail s = t"
    using r by (auto simp: dl_rep_def file_view_def)
  obtain s1 where s1: "unlink_lru_file x s = Some s1" "dl_holds file_view live_files s1 (remove1 x (xs @ [t]))"
    "live_files s1 = live_files s" using lru_files.remove_list [OF assms] by blast
  let ?s = "s1\<lparr>cfiles := (cfiles s1)(t := None)\<rparr>"
  have rm: "fs_removeFileFromLru x s = Some ?s" using s1(1) tl by (simp add: fs_removeFileFromLru_def)
  have lv: "live_files ?s = live_files s - {t}" using s1(3) by (auto simp: live_files_def live_def)
  show ?thesis
  proof (cases "x = t")
    case True
    with d have xs: "remove1 x (xs @ [t]) = xs" by (simp add: remove1_append)
    have "link sel (cfiles ?s) y = link sel (cfiles s1) y" if "y \<in> set xs" for sel y
      using that d by (auto simp: link_def)
    then have "dl_rep (file_view ?s) xs = dl_rep (file_view s1) xs"
      by (intro dl_rep_cong) (auto simp: file_view_def)
    then have "dl_holds file_view live_files ?s xs" using s1(2) lv s1(3) d unfolding xs by (auto simp: dl_holds_def)
    with rm lv True show ?thesis by auto
  next
    case False
    then have "remove1 x (xs @ [t]) = remove1 x xs @ [t]" using assms(2) by (simp add: remove1_append)
    with s1(2) have "lruFileTail s1 = t" by (simp add: dl_holds_def dl_rep_def file_view_def)
    moreover have "x \<in> live_files s" using assms by (auto simp: dl_holds_def)
    ultimately show ?thesis using rm lv False by auto
  qed
qed

definition lru_file_state :: cstate where
  "lru_file_state = empty_cstate\<lparr>lruFileHead := 1, lruFileTail := 2,
     cfiles := [1 \<mapsto> file7\<lparr>lruFileNext := 2\<rparr>, 2 \<mapsto> file7\<lparr>lruFilePrev := 1\<rparr>]\<rparr>"

lemma lru_file_state_holds: "dl_holds file_view live_files lru_file_state ([1] @ [2])"
  by (auto simp: dl_holds_def dl_rep_def file_view_def lru_file_state_def live_files_def live_def link_def file7_def)

theorem remove_file_frees_tail_witness:
  "\<exists>s'. fs_removeFileFromLru 1 lru_file_state = Some s' \<and> lruFileTail s' = 2 \<and> 2 \<notin> live_files s'"
  using remove_file_frees_tail [OF lru_file_state_holds, of 1] by auto

end
