(* ===== verification/Cache_FS.thy ===== *)
theory Cache_FS
  imports Cache_Lists VNAND
begin

text \<open>
  The file layer of the page cache: \<open>example/cache_code/filesystem.c\<close> from \<open>getParentKey\<close> on.
  A page is found through its key: file, offset, and level above the data. A page that is
  not cached is read through its parent, up to the inode.

  The NAND is not yet called by this code: \<open>readWpFromDisk\<close> sets single bytes for a few
  addresses and the allocation of free blocks is commented out. The argument \<open>u\<close> gives the
  bytes of memory that was allocated and not written.
\<close>

unbundle bit_operations_syntax

section \<open>C arithmetic\<close>

definition mul32 :: "int \<Rightarrow> int \<Rightarrow> int option" where
  "mul32 x y = (if is_int32 (x * y) then Some (x * y) else None)"

definition div32 :: "int \<Rightarrow> int \<Rightarrow> int option" where
  "div32 x y = (if y = 0 \<or> \<not> is_int32 (x sdiv y) then None else Some (x sdiv y))"

definition sub32 :: "int \<Rightarrow> int \<Rightarrow> int option" where
  "sub32 x y = (if is_int32 (x - y) then Some (x - y) else None)"

definition nth_opt :: "'a list \<Rightarrow> int \<Rightarrow> 'a option" where
  "nth_opt xs i = (if 0 \<le> i \<and> i < int (length xs) then Some (xs ! nat i) else None)"

definition key_at :: "node \<Rightarrow> cstate \<Rightarrow> pageKey option" where
  "key_at k s = (if k = 0 then None else ckeys s k)"

definition wp_at :: "node \<Rightarrow> cstate \<Rightarrow> writeablePage option" where
  "wp_at p s = (if p = 0 then None else cwps s p)"

definition alog_at :: "node \<Rightarrow> cstate \<Rightarrow> activeLog option" where
  "alog_at p s = (if p = 0 then None else calogs s p)"

section \<open>Keys and pages\<close>

text \<open>\<open>INDIRECT_PAGES ^ n\<close> is an exclusive or in C.\<close>

definition getParentKey :: "node \<Rightarrow> cstate \<Rightarrow> (node \<times> cstate) option" where
  "getParentKey childKey s = do {
     child \<leftarrow> key_at childKey s;
     let parentKey = hbrk s;
     lvl \<leftarrow> add32 (levelsAbove child) 1;
     parentDataRange \<leftarrow> mul32 1024 (128 XOR lvl);
     q \<leftarrow> div32 (dataOffset child) parentDataRange;
     parentStartOffset \<leftarrow> mul32 q 8;
     Some (parentKey, s\<lparr>ckeys := (ckeys s)(parentKey \<mapsto> \<lparr>kfile = kfile child,
       dataOffset = parentStartOffset, levelsAbove = lvl\<rparr>), hbrk := hbrk s + 1\<rparr>) }"

definition putPageIntoCache :: "node \<Rightarrow> node \<Rightarrow> cstate \<Rightarrow> (node \<times> cstate) option" where
  "putPageIntoCache page key s = do {
     (entry, s) \<leftarrow> cache_set key page s;
     k \<leftarrow> key_at key s;
     s \<leftarrow> (if levelsAbove k = 0 then do {
            s \<leftarrow> openFile_addDataPage (kfile k) entry s;
            cache_addDataPageToLru entry s }
          else openFile_addMetadataPage (kfile k) entry s);
     s \<leftarrow> fs_updateFileInLru (kfile k) s;
     Some (entry, s) }"

definition malloc_page :: "stack \<Rightarrow> writeablePage" where
  "malloc_page u = \<lparr>nandPage = stack_page u, address = dec32 (stack_bytes 4 (\<lambda>i. u (1048 + i)))\<rparr>"

definition set_byte :: "nat \<Rightarrow> byte \<Rightarrow> writeablePage \<Rightarrow> writeablePage" where
  "set_byte i b wp = wp\<lparr>nandPage := (nandPage wp)\<lparr>contents := (contents (nandPage wp))[i := b]\<rparr>\<rparr>"

text \<open>The last condition of the chain is the assignment \<open>address = 2\<close>, with an empty branch.\<close>

definition readWpFromDisk :: "stack \<Rightarrow> int \<Rightarrow> cstate \<Rightarrow> node \<times> cstate" where
  "readWpFromDisk u addr s =
     (let wp = malloc_page u;
          wp = (if addr \<noteq> 0 then
                  if addr = 300 then set_byte 0 1 wp
                  else if addr = 600 then set_byte 1016 2 wp
                  else if addr = 1 then set_byte 0 3 wp
                  else wp
                else wp)
      in (hbrk s, s\<lparr>cwps := (cwps s)(hbrk s \<mapsto> wp), hbrk := hbrk s + 1\<rparr>))"

definition getIndexInInode :: "int \<Rightarrow> int \<Rightarrow> int option" where
  "getIndexInInode childOffset fileHeight = do {
     h \<leftarrow> sub32 fileHeight 2;
     d \<leftarrow> mul32 16 (128 XOR h);
     div32 childOffset d }"

definition getIndexInParent :: "int \<Rightarrow> int \<Rightarrow> int option" where
  "getIndexInParent childOffset parentOffset = do { d \<leftarrow> sub32 childOffset parentOffset; div32 d 128 }"

text \<open>Result: the entry of the page, 0 if the key is above the file's tree.\<close>

partial_function (option) fs_getPage :: "stack \<Rightarrow> node \<Rightarrow> cstate \<Rightarrow> (node \<times> cstate) option" where
  "fs_getPage u desiredKey s = do {
     key \<leftarrow> key_at desiredKey s;
     f \<leftarrow> file_at (kfile key) s;
     let maxFileHeight = treeHeight f;
     if levelsAbove key \<ge> maxFileHeight then Some (0, s)
     else do {
       desired \<leftarrow> cache_get desiredKey s;
       if desired \<noteq> 0 then Some (desired, s)
       else do {
         (desiredAddr, s) \<leftarrow>
           (if levelsAbove key = maxFileHeight - 1 then do {
              desiredIndex \<leftarrow> getIndexInInode (dataOffset key) maxFileHeight;
              a \<leftarrow> nth_opt (c_direct f) desiredIndex;
              Some (a, s) }
            else do {
              (parentKey, s) \<leftarrow> getParentKey desiredKey s;
              (parent, s) \<leftarrow> fs_getPage u parentKey s;
              pk \<leftarrow> key_at parentKey s;
              desiredIndex \<leftarrow> getIndexInParent (dataOffset key) (dataOffset pk);
              p \<leftarrow> entry_at parent s;
              wp \<leftarrow> wp_at (ewp p) s;
              b \<leftarrow> nth_opt (contents (nandPage wp)) desiredIndex;
              Some (sint b, s) });
         let (wp, s) = readWpFromDisk u desiredAddr s;
         putPageIntoCache wp desiredKey s } } }"

section \<open>Writing\<close>

definition consumeFreeBlock :: "activeLog \<Rightarrow> int \<Rightarrow> int" where
  "consumeFreeBlock alog preferCUFL = 0"

text \<open>What the code does with the log at the ends of a block; it is not called yet.\<close>

definition firstPageOps :: "writeablePage \<Rightarrow> activeLog \<Rightarrow> writeablePage \<times> activeLog" where
  "firstPageOps freePage alog =
     (let alog = alog\<lparr>nextPage := nextPage alog + 1\<rparr>
      in (freePage\<lparr>nandPage := (nandPage freePage)\<lparr>eraseCount := lastErases alog\<rparr>\<rparr>, alog))"

definition thirdToLastPageOps :: "writeablePage \<Rightarrow> activeLog \<Rightarrow> writeablePage \<times> activeLog" where
  "thirdToLastPageOps freePage alog = (freePage, alog\<lparr>nextPage := prev (log_hdr alog) * 16 + (16 - 1)\<rparr>)"

definition secondToLastPageOps :: "writeablePage \<Rightarrow> activeLog \<Rightarrow> writeablePage \<times> activeLog" where
  "secondToLastPageOps freePage alog =
     (let firstPageOfNewBlock = consumeFreeBlock alog 0
      in (freePage\<lparr>nandPage := (nandPage freePage)\<lparr>nextLogBlock := firstPageOfNewBlock,
            nextBlockErases := lastErases alog\<rparr>\<rparr>, alog))"

definition lastPageOps :: "writeablePage \<Rightarrow> activeLog \<Rightarrow> writeablePage \<times> activeLog" where
  "lastPageOps freePage alog =
     (freePage\<lparr>nandPage := (nandPage freePage)\<lparr>nextBlockErases := lastErases alog\<rparr>\<rparr>, alog)"

definition allocateFreePage :: "node \<Rightarrow> node \<Rightarrow> cstate \<Rightarrow> cstate option" where
  "allocateFreePage freePage alog s = do {
     wp \<leftarrow> wp_at freePage s;
     al \<leftarrow> alog_at alog s;
     Some (s\<lparr>cwps := (cwps s)(freePage \<mapsto> wp\<lparr>address := nextPage al\<rparr>),
             calogs := (calogs s)(alog \<mapsto> al\<lparr>log_hdr := (log_hdr al)\<lparr>active := active (log_hdr al) + 1\<rparr>\<rparr>)\<rparr>) }"

definition prepareWriteablePage :: "stack \<Rightarrow> node \<Rightarrow> bytes \<Rightarrow> cstate \<Rightarrow> (node \<times> cstate) option" where
  "prepareWriteablePage u key d s = do {
     let wp = hbrk s;
     let s = s\<lparr>cwps := (cwps s)(wp \<mapsto> malloc_page u), hbrk := hbrk s + 1\<rparr>;
     k \<leftarrow> key_at key s;
     f \<leftarrow> file_at (kfile k) s;
     s \<leftarrow> allocateFreePage wp (c_log f) s;
     p \<leftarrow> wp_at wp s;
     if length d < 1024 then None
     else Some (wp, s\<lparr>cwps := (cwps s)(wp \<mapsto> p\<lparr>nandPage := (nandPage p)\<lparr>contents := take 1024 d\<rparr>\<rparr>)\<rparr>) }"

definition fs_updateParentPage :: "stack \<Rightarrow> node \<Rightarrow> int \<Rightarrow> int \<Rightarrow> cstate \<Rightarrow> cstate option" where
  "fs_updateParentPage u childKey childAddress drt s = do {
     (parentKey, s) \<leftarrow> getParentKey childKey s;
     (parentPage, s) \<leftarrow> fs_getPage u parentKey s;
     if parentPage = 0 then Some s
     else upd_entry parentPage (dirty_update (\<lambda>_. drt)) s }"

definition fs_writeData :: "stack \<Rightarrow> node \<Rightarrow> bytes \<Rightarrow> cstate \<Rightarrow> (node \<times> cstate) option" where
  "fs_writeData u dataKey d s = do {
     (dataPage, s) \<leftarrow> prepareWriteablePage u dataKey d s;
     (entry, s) \<leftarrow> putPageIntoCache dataPage dataKey s;
     wp \<leftarrow> wp_at dataPage s;
     s \<leftarrow> fs_updateParentPage u dataKey (address wp) 1 s;
     Some (dataPage, s) }"

section \<open>Flushing and evicting\<close>

partial_function (option) flush_data_loop :: "node \<Rightarrow> node \<Rightarrow> cstate \<Rightarrow> cstate option" where
  "flush_data_loop file current s =
     (if current = 0 then Some s
      else do {
        e \<leftarrow> entry_at current s;
        let nxt = fileDataNext e;
        s \<leftarrow> openFile_removeDataPage file current s;
        s \<leftarrow> cache_remove current s;
        flush_data_loop file nxt s })"

definition fs_flushDataPages :: "node \<Rightarrow> cstate \<Rightarrow> cstate option" where
  "fs_flushDataPages file s = do { f \<leftarrow> file_at file s; flush_data_loop file (dataHead f) s }"

partial_function (option) flush_level_loop :: "node \<Rightarrow> int \<Rightarrow> node \<Rightarrow> cstate \<Rightarrow> cstate option" where
  "flush_level_loop file level current s =
     (if current = 0 then Some s
      else do {
        e \<leftarrow> entry_at current s;
        let nxt = fileMetadataNext e;
        k \<leftarrow> key_at (ekey e) s;
        s \<leftarrow> (if levelsAbove k = level then do {
               s \<leftarrow> (if dirty e \<noteq> 0 then do {
                      f \<leftarrow> file_at (kfile k) s;
                      allocateFreePage (ewp e) (c_log f) s }
                    else Some s);
               s \<leftarrow> openFile_removeMetadataPage file current s;
               cache_remove current s }
             else Some s);
        flush_level_loop file level nxt s })"

text \<open>The levels from 1 below the height of the tree, lowest first.\<close>

fun flush_levels :: "node \<Rightarrow> int list \<Rightarrow> cstate \<Rightarrow> cstate option" where
  "flush_levels file [] s = Some s"
| "flush_levels file (level # ls) s = do {
     f \<leftarrow> file_at file s;
     s \<leftarrow> flush_level_loop file level (metadataHead f) s;
     flush_levels file ls s }"

definition fs_flushMetadataPages :: "node \<Rightarrow> cstate \<Rightarrow> cstate option" where
  "fs_flushMetadataPages file s = do {
     f \<leftarrow> file_at file s;
     flush_levels file [1..treeHeight f - 1] s }"

definition fs_evictLruFile :: "cstate \<Rightarrow> cstate option" where
  "fs_evictLruFile s = do {
     let lruFile = lruFileTail s;
     s \<leftarrow> fs_flushDataPages lruFile s;
     s \<leftarrow> fs_flushMetadataPages lruFile s;
     fs_removeFileFromLru lruFile s }"

section \<open>What the list operations leave alone\<close>

definition entry_core :: "cacheEntry \<Rightarrow> node \<times> node \<times> node \<times> int" where
  "entry_core e = (ekey e, ewp e, enext e, dirty e)"

definition file_core :: "cfile \<Rightarrow> int \<times> node \<times> int \<times> int list" where
  "file_core f = (c_address f, c_log f, treeHeight f, c_direct f)"

definition only_links :: "cstate \<Rightarrow> cstate \<Rightarrow> bool" where
  "only_links s s' \<longleftrightarrow> (\<forall>x. map_option entry_core (centries s' x) = map_option entry_core (centries s x))
     \<and> (\<forall>x. map_option file_core (cfiles s' x) = map_option file_core (cfiles s x))
     \<and> ckeys s' = ckeys s \<and> cwps s' = cwps s \<and> calogs s' = calogs s \<and> hbrk s' = hbrk s
     \<and> MAX_SIZE s' = MAX_SIZE s \<and> csize s' = csize s \<and> ctable s' = ctable s"

lemma only_links_refl [simp]: "only_links s s"
  by (simp add: only_links_def)

lemma only_links_trans: "only_links s s' \<Longrightarrow> only_links s' s'' \<Longrightarrow> only_links s s''"
  by (simp add: only_links_def)

lemma only_links_upd_entry:
  "upd_entry p f s = Some s' \<Longrightarrow> (\<And>e. entry_core (f e) = entry_core e) \<Longrightarrow> only_links s s'"
  by (auto simp: upd_entry_def entry_at_def only_links_def bind_eq_Some_conv split: if_splits)

lemma only_links_upd_file:
  "upd_file p f s = Some s' \<Longrightarrow> (\<And>e. file_core (f e) = file_core e) \<Longrightarrow> only_links s s'"
  by (auto simp: upd_file_def file_at_def only_links_def bind_eq_Some_conv split: if_splits)

lemma only_links_heads [simp]:
  "only_links s (s\<lparr>lruDataHead := n\<rparr>)" "only_links s (s\<lparr>lruDataTail := n\<rparr>)"
  "only_links s (s\<lparr>lruFileHead := n\<rparr>)" "only_links s (s\<lparr>lruFileTail := n\<rparr>)"
  by (simp_all add: only_links_def)

lemma only_links_live:
  assumes "only_links s s'"
  shows "live (centries s') = live (centries s)" "live (cfiles s') = live (cfiles s)"
proof -
  have "centries s' x = None \<longleftrightarrow> centries s x = None" "cfiles s' x = None \<longleftrightarrow> cfiles s x = None" for x
    using assms by (metis only_links_def map_option_is_None)+
  then show "live (centries s') = live (centries s)" "live (cfiles s') = live (cfiles s)" by (auto simp: live_def)
qed

lemma only_links_file: "only_links s s' \<Longrightarrow> cfiles s f = Some g \<Longrightarrow> \<exists>g'. cfiles s' f = Some g' \<and> file_core g' = file_core g"
  by (auto simp: only_links_def dest: spec [of _ f])

lemma only_links_page: "only_links s s' \<Longrightarrow> page_of s' x = page_of s x"
proof -
  assume "only_links s s'"
  then have "map_option entry_core (centries s' x) = map_option entry_core (centries s x)" by (simp add: only_links_def)
  then show ?thesis by (cases "centries s x"; cases "centries s' x") (auto simp: page_of_def entry_core_def)
qed

lemma key_string_files:
  assumes "\<And>k key. ckeys s k = Some key \<Longrightarrow> ckeys s' k = Some key"
    and "\<And>f g. cfiles s f = Some g \<Longrightarrow> \<exists>g'. cfiles s' f = Some g' \<and> c_address g' = c_address g"
    and "key_string s k = Some str"
  shows "key_string s' k = Some str"
proof -
  obtain key where key: "k \<noteq> 0" "ckeys s k = Some key"
    using assms(3) by (auto simp: key_string_def key_num_def bind_eq_Some_conv split: if_splits)
  then obtain g where g: "kfile key \<noteq> 0" "cfiles s (kfile key) = Some g"
    using assms(3) by (auto simp: key_string_def key_num_def file_at_def bind_eq_Some_conv split: if_splits)
  obtain g' where "cfiles s' (kfile key) = Some g'" "c_address g' = c_address g" using assms(2) [OF g(2)] by blast
  then show ?thesis using assms(1) [OF key(2)] key g assms(3) by (simp add: key_string_def key_num_def file_at_def)
qed

lemma only_links_table: "only_links s s' \<Longrightarrow> table_kept s s'"
proof -
  assume o: "only_links s s'"
  have "key_string s' k = Some str" if "key_string s k = Some str" for k str
  proof (rule key_string_files [OF _ _ that])
    show "ckeys s k = Some key \<Longrightarrow> ckeys s' k = Some key" for k key using o by (simp add: only_links_def)
    show "\<exists>g'. cfiles s' f = Some g' \<and> c_address g' = c_address g" if "cfiles s f = Some g" for f g
      using only_links_file [OF o that] by (auto simp: file_core_def)
  qed
  moreover have "map_option (\<lambda>e. (ekey e, enext e)) (centries s' x) = map_option (\<lambda>e. (ekey e, enext e)) (centries s x)" for x
  proof -
    have "map_option entry_core (centries s' x) = map_option entry_core (centries s x)" using o by (simp add: only_links_def)
    then show ?thesis by (cases "centries s x"; cases "centries s' x") (auto simp: entry_core_def)
  qed
  ultimately show ?thesis using o by (simp add: table_kept_def only_links_def)
qed

text \<open>Storing in an object without changing the link looked at.\<close>

lemma link_keep: "m p = Some e \<Longrightarrow> sel e' = sel e \<Longrightarrow> link sel (m(p \<mapsto> e')) = link sel m"
  by (auto simp: link_def)

lemma upd_entry_link: "upd_entry p f s = Some s' \<Longrightarrow> (\<And>e. sel (f e) = sel e) \<Longrightarrow> link sel (centries s') = link sel (centries s)"
  by (auto simp: upd_entry_def entry_at_def bind_eq_Some_conv link_keep simp del: link_upd split: if_splits)

lemma upd_file_link: "upd_file p f s = Some s' \<Longrightarrow> (\<And>e. sel (f e) = sel e) \<Longrightarrow> link sel (cfiles s') = link sel (cfiles s)"
  by (auto simp: upd_file_def file_at_def bind_eq_Some_conv link_keep simp del: link_upd split: if_splits)

lemma upd_entry_fields:
  "upd_entry p f s = Some s' \<Longrightarrow> cfiles s' = cfiles s \<and> lruDataHead s' = lruDataHead s \<and> lruDataTail s' = lruDataTail s
     \<and> lruFileHead s' = lruFileHead s \<and> lruFileTail s' = lruFileTail s"
  by (auto simp: upd_entry_def bind_eq_Some_conv)

lemma upd_file_fields:
  "upd_file p f s = Some s' \<Longrightarrow> centries s' = centries s \<and> lruDataHead s' = lruDataHead s \<and> lruDataTail s' = lruDataTail s
     \<and> lruFileHead s' = lruFileHead s \<and> lruFileTail s' = lruFileTail s"
  by (auto simp: upd_file_def bind_eq_Some_conv)

text \<open>
  The list of a file's data pages, the list of data pages and the list of files do not share
  links: an operation on one of them keeps the views of the other two.
\<close>

definition keeps_lru :: "cstate \<Rightarrow> cstate \<Rightarrow> bool" where
  "keeps_lru s s' \<longleftrightarrow> only_links s s' \<and> lru_view s' = lru_view s"

definition keeps_files :: "cstate \<Rightarrow> cstate \<Rightarrow> bool" where
  "keeps_files s s' \<longleftrightarrow> only_links s s' \<and> file_view s' = file_view s"

definition keeps_data :: "cstate \<Rightarrow> cstate \<Rightarrow> bool" where
  "keeps_data s s' \<longleftrightarrow> only_links s s' \<and> (\<forall>file. fdata_view file s' = fdata_view file s)"

lemmas keeps_defs = keeps_lru_def keeps_files_def keeps_data_def

lemma keeps_trans:
  "keeps_lru s s' \<Longrightarrow> keeps_lru s' s'' \<Longrightarrow> keeps_lru s s''"
  "keeps_files s s' \<Longrightarrow> keeps_files s' s'' \<Longrightarrow> keeps_files s s''"
  "keeps_data s s' \<Longrightarrow> keeps_data s' s'' \<Longrightarrow> keeps_data s s''"
  by (auto simp: keeps_defs intro: only_links_trans)

lemma keeps_upd_entry:
  assumes "upd_entry p f s = Some s'" "\<And>e. entry_core (f e) = entry_core e"
  shows "(\<And>e. lruDataNext (f e) = lruDataNext e \<and> lruDataPrev (f e) = lruDataPrev e) \<Longrightarrow> keeps_lru s s'"
    "keeps_files s s'"
    "(\<And>e. fileDataNext (f e) = fileDataNext e \<and> fileDataPrev (f e) = fileDataPrev e) \<Longrightarrow> keeps_data s s'"
  using only_links_upd_entry [OF assms] upd_entry_link [OF assms(1)] upd_entry_fields [OF assms(1)]
  by (simp_all add: keeps_defs lru_view_def file_view_def fdata_view_def)

lemma keeps_upd_file:
  assumes "upd_file p f s = Some s'" "\<And>e. file_core (f e) = file_core e"
  shows "keeps_lru s s'"
    "(\<And>e. lruFileNext (f e) = lruFileNext e \<and> lruFilePrev (f e) = lruFilePrev e) \<Longrightarrow> keeps_files s s'"
    "(\<And>e. dataHead (f e) = dataHead e \<and> dataTail (f e) = dataTail e) \<Longrightarrow> keeps_data s s'"
  using only_links_upd_file [OF assms] upd_file_link [OF assms(1)] upd_file_fields [OF assms(1)]
  by (simp_all add: keeps_defs lru_view_def file_view_def fdata_view_def)

lemma keeps_heads:
  "keeps_files s (s\<lparr>lruDataHead := n\<rparr>)" "keeps_files s (s\<lparr>lruDataTail := n\<rparr>)"
  "keeps_data s (s\<lparr>lruDataHead := n\<rparr>)" "keeps_data s (s\<lparr>lruDataTail := n\<rparr>)"
  "keeps_lru s (s\<lparr>lruFileHead := n\<rparr>)" "keeps_lru s (s\<lparr>lruFileTail := n\<rparr>)"
  "keeps_data s (s\<lparr>lruFileHead := n\<rparr>)" "keeps_data s (s\<lparr>lruFileTail := n\<rparr>)"
  by (simp_all add: keeps_defs lru_view_def file_view_def fdata_view_def)

lemmas core_simps = entry_core_def file_core_def

lemma addDataPage_keeps:
  assumes "openFile_addDataPage file e s = Some s'"
  shows "keeps_lru s s'" "keeps_files s s'"
proof -
  have refl: "keeps_lru s s" "keeps_files s s" by (simp_all add: keeps_defs)
  have "s' = s \<or> (\<exists>tail s1 s2. upd_entry e (\<lambda>e. e\<lparr>fileDataPrev := tail, fileDataNext := 0\<rparr>) s = Some s1 \<and>
    (upd_file file (dataHead_update (\<lambda>_. e)) s1 = Some s2 \<or> upd_entry tail (fileDataNext_update (\<lambda>_. e)) s1 = Some s2) \<and>
    upd_file file (dataTail_update (\<lambda>_. e)) s2 = Some s')"
    using assms by (auto simp: openFile_addDataPage_def Let_def bind_eq_Some_conv split: if_splits)
  then consider "s' = s" | tl s1 s2 where "upd_entry e (\<lambda>e. e\<lparr>fileDataPrev := tl, fileDataNext := 0\<rparr>) s = Some s1"
    "upd_file file (dataHead_update (\<lambda>_. e)) s1 = Some s2 \<or> upd_entry tl (fileDataNext_update (\<lambda>_. e)) s1 = Some s2"
    "upd_file file (dataTail_update (\<lambda>_. e)) s2 = Some s'" by blast
  then have "keeps_lru s s' \<and> keeps_files s s'"
  proof cases
    case 1
    then show ?thesis using refl by simp
  next
    case (2 tl s1 s2)
    have "keeps_lru s s1" "keeps_files s s1" by (rule keeps_upd_entry [OF 2(1)]; simp add: core_simps)+
    moreover have "keeps_lru s1 s2" "keeps_files s1 s2"
      using 2(2) by (auto elim!: keeps_upd_entry keeps_upd_file simp: core_simps)
    moreover have "keeps_lru s2 s'" "keeps_files s2 s'" by (rule keeps_upd_file [OF 2(3)]; simp add: core_simps)+
    ultimately show ?thesis by (blast intro: keeps_trans)
  qed
  then show "keeps_lru s s'" "keeps_files s s'" by simp_all
qed

lemma addDataPageToLru_keeps:
  assumes "cache_addDataPageToLru e s = Some s'"
  shows "keeps_data s s'" "keeps_files s s'"
proof -
  obtain s1 s2 where st: "upd_entry e (\<lambda>x. x\<lparr>lruDataNext := lruDataHead s, lruDataPrev := 0\<rparr>) s = Some s1"
    "s2 = s1\<lparr>lruDataTail := e\<rparr> \<or> upd_entry (lruDataHead s) (lruDataPrev_update (\<lambda>_. e)) s1 = Some s2"
    "s' = s2\<lparr>lruDataHead := e\<rparr>"
    using assms by (auto simp: cache_addDataPageToLru_def Let_def bind_eq_Some_conv split: if_splits)
  have "keeps_data s s1" "keeps_files s s1" by (rule keeps_upd_entry [OF st(1)]; simp add: core_simps)+
  moreover have "keeps_data s1 s2" "keeps_files s1 s2"
    using st(2) keeps_heads by (auto elim!: keeps_upd_entry simp: core_simps)
  moreover have "keeps_data s2 s'" "keeps_files s2 s'" using st(3) keeps_heads by simp_all
  ultimately show "keeps_data s s'" "keeps_files s s'" by (blast intro: keeps_trans)+
qed

lemma addFileToLru_keeps:
  assumes "addFileToLru e s = Some s'"
  shows "keeps_data s s'" "keeps_lru s s'"
proof -
  obtain s1 s2 where st: "upd_file e (\<lambda>x. x\<lparr>lruFileNext := lruFileHead s, lruFilePrev := 0\<rparr>) s = Some s1"
    "s2 = s1\<lparr>lruFileTail := e\<rparr> \<or> upd_file (lruFileHead s) (lruFilePrev_update (\<lambda>_. e)) s1 = Some s2"
    "s' = s2\<lparr>lruFileHead := e\<rparr>"
    using assms by (auto simp: addFileToLru_def Let_def bind_eq_Some_conv split: if_splits)
  have "keeps_data s s1" "keeps_lru s s1" by (rule keeps_upd_file [OF st(1)]; simp add: core_simps)+
  moreover have "keeps_data s1 s2" "keeps_lru s1 s2"
    using st(2) keeps_heads by (auto elim!: keeps_upd_file simp: core_simps)
  moreover have "keeps_data s2 s'" "keeps_lru s2 s'" using st(3) keeps_heads by simp_all
  ultimately show "keeps_data s s'" "keeps_lru s s'" by (blast intro: keeps_trans)+
qed

text \<open>A file that is not in the list of files is added in front; the first one stays.\<close>

lemma updateFileInLru_list:
  assumes h: "dl_holds file_view live_files s fl" and f: "file \<in> live_files s" "file \<notin> set fl \<or> fl = file # r"
  shows "\<exists>s'. fs_updateFileInLru file s = Some s' \<and> dl_holds file_view live_files s' (file # remove1 file fl) \<and>
    keeps_data s s' \<and> keeps_lru s s'"
proof -
  have rep: "dl_rep (file_view s) fl" "set fl \<subseteq> live (cfiles s)" using h by (auto simp: dl_holds_def live_files_def)
  have "fwd (link lruFileNext (cfiles s)) (lruFileHead s) fl" using dl_rep_fwd [OF rep(1)] by (simp add: file_view_def)
  note c = lruContains_list [OF this rep(2), of "file"]
  have f0: "file \<noteq> 0" using f(1) by (simp add: live_files_def live_iff)
  show ?thesis
  proof (cases "file \<in> set fl")
    case False
    obtain s' where "addFileToLru file s = Some s'" "dl_holds file_view live_files s' (file # fl)"
      using lru_files.add_list [OF h f(1) f0 False] by blast
    with False c addFileToLru_keeps [of "file" s s'] show ?thesis by (auto simp: fs_updateFileInLru_def remove1_idem)
  next
    case True
    with f(2) have fl: "fl = file # r" by simp
    obtain g where g: "cfiles s file = Some g" using f(1) by (auto simp: live_files_def live_iff)
    have "link lruFilePrev (cfiles s) file = 0" using rep(1) fl by (simp add: dl_rep_def file_view_def)
    then have "updateLruFileHead file s = Some s" using f0 g by (simp add: updateLruFileHead_def file_at_def link_the)
    with True c fl h show ?thesis by (simp add: fs_updateFileInLru_def keeps_defs)
  qed
qed

section \<open>Caching a new data page\<close>

lemma inserted_links:
  fixes str :: string and key wp :: node
  assumes rep: "cache_rep s bins"
  defines "s' \<equiv> inserted s bins str key wp"
  shows "sel (new_entry key wp (hd (after s bins str @ [0]))) = 0 \<Longrightarrow> (\<And>e n. sel (e\<lparr>enext := n\<rparr>) = sel e) \<Longrightarrow>
      link sel (centries s') = link sel (centries s)"
    "live (centries s') = insert (hbrk s) (live (centries s))"
proof -
  have fresh: "centries s (hbrk s) = None" "hbrk s \<noteq> 0" using rep by (auto simp: cache_rep_def)
  have l: "last (before s bins str) \<noteq> hbrk s" "last (before s bins str) \<noteq> 0" "centries s (last (before s bins str)) \<noteq> None"
    if "before s bins str \<noteq> []"
    using that bin_live [OF cache_rep_bin(2) [OF rep, of str], of "last (before s bins str)"] fresh by auto
  show "link sel (centries s') = link sel (centries s)"
    if "sel (new_entry key wp (hd (after s bins str @ [0]))) = 0" "\<And>e n. sel (e\<lparr>enext := n\<rparr>) = sel e"
    using that l fresh by (auto simp: s'_def inserted_def link_new_def link_def fun_eq_iff split: option.splits)
  show "live (centries s') = insert (hbrk s) (live (centries s))"
    using l fresh by (auto simp: s'_def inserted_def link_new_def live_def)
qed

text \<open>The lists and the table that concern one file.\<close>

definition file_cache :: "cstate \<Rightarrow> (string \<Rightarrow> node) \<Rightarrow> node \<Rightarrow> node list \<Rightarrow> node list \<Rightarrow> node list \<Rightarrow> bool" where
  "file_cache s m file xs ds fl \<longleftrightarrow> cache_holds s m \<and> dl_holds (fdata_view file) (live_pages file) s xs
     \<and> dl_holds lru_view live_entries s ds \<and> dl_holds file_view live_files s fl
     \<and> file \<in> live_files s \<and> (\<forall>k. ckeys s k \<noteq> None \<longrightarrow> k < hbrk s) \<and> (file \<notin> set fl \<or> (\<exists>r. fl = file # r))"

lemma inserted_views:
  fixes str :: string and key wp :: node
  assumes "cache_rep s bins"
  defines "s' \<equiv> inserted s bins str key wp"
  shows "fdata_view file s' = fdata_view file s" "lru_view s' = lru_view s" "file_view s' = file_view s"
    "live_pages file s \<subseteq> live_pages file s'" "live_entries s' = insert (hbrk s) (live_entries s)" "live_files s' = live_files s"
    "link fileDataNext (centries s') (hbrk s) = 0" "link fileDataPrev (centries s') (hbrk s) = 0"
    "file \<in> live_files s \<Longrightarrow> hbrk s \<in> live_pages file s'"
proof -
  have n: "link sel (centries s') = link sel (centries s)"
    if "sel \<in> {fileDataNext, fileDataPrev, lruDataNext, lruDataPrev}" for sel
    using that inserted_links(1) [OF assms(1), of sel key wp str, folded s'_def] by (auto simp: new_entry_def)
  have lv: "live (centries s') = insert (hbrk s) (live (centries s))"
    using inserted_links(2) [OF assms(1)] by (simp add: s'_def)
  have f: "cfiles s' = cfiles s" by (simp add: s'_def inserted_fields)
  have h: "lruDataHead s' = lruDataHead s" "lruDataTail s' = lruDataTail s" "lruFileHead s' = lruFileHead s" "lruFileTail s' = lruFileTail s"
    by (simp_all add: s'_def inserted_def)
  have fresh: "centries s (hbrk s) = None" using assms(1) by (auto simp: cache_rep_def)
  show "fdata_view file s' = fdata_view file s" "lru_view s' = lru_view s" "file_view s' = file_view s"
    using n f h by (simp_all add: fdata_view_def lru_view_def file_view_def)
  show "live_pages file s \<subseteq> live_pages file s'" "live_entries s' = insert (hbrk s) (live_entries s)" "live_files s' = live_files s"
    using lv f by (auto simp: live_pages_def live_entries_def live_files_def)
  show "link fileDataNext (centries s') (hbrk s) = 0" "link fileDataPrev (centries s') (hbrk s) = 0"
    using n fresh by (simp_all add: link_def)
  show "file \<in> live_files s \<Longrightarrow> hbrk s \<in> live_pages file s'" using lv f by (simp add: live_pages_iff live_files_def)
qed

lemma live_below_hbrk: "cache_rep s bins \<Longrightarrow> hbrk s \<notin> live (centries s)"
  by (auto simp: cache_rep_def live_def)

lemma dl_holds_kept:
  "dl_holds v l s xs \<Longrightarrow> v s' = v s \<Longrightarrow> l s \<subseteq> l s' \<Longrightarrow> dl_holds v l s' xs"
  by (auto simp: dl_holds_def)

lemma only_links_lives:
  assumes "only_links s s'"
  shows "live_pages file s' = live_pages file s" "live_entries s' = live_entries s" "live_files s' = live_files s"
  using only_links_live [OF assms] by (simp_all add: live_pages_def live_entries_def live_files_def)

lemma put_new_page:
  assumes fc: "file_cache s m file xs ds fl" and k: "key_string s key = Some str"
    "key_at key s = Some kr" "levelsAbove kr = 0" "kfile kr = file"
    and new: "m str = 0" "0 < cache_room s"
  shows "\<exists>s2 s'. only_links s2 s' \<and> cwps s2 = cwps s \<and> ckeys s2 = ckeys s \<and> calogs s2 = calogs s \<and> cfiles s2 = cfiles s \<and>
    hbrk s2 = hbrk s + 1 \<and> page_of s2 (hbrk s) = Some wp \<and> (\<forall>y. y \<noteq> hbrk s \<longrightarrow> page_of s2 y = page_of s y) \<and>
    putPageIntoCache wp key s = Some (hbrk s, s') \<and>
    file_cache s' (m(str := hbrk s)) file (xs @ [hbrk s]) (hbrk s # ds) (file # remove1 file fl)"
proof -
  note fd = fc [unfolded file_cache_def]
  obtain bins where rep: "cache_rep s bins" and m: "m = lookup s bins" using fd by (auto simp: cache_holds_def)
  let ?x = "hbrk s" and ?s = "inserted s bins str key wp"
  note iv = inserted_views [OF rep, where str = str and key = key and wp = wp]
  note fl = inserted_fields [of s bins str key wp]
  have set: "cache_set key wp s = Some (?x, ?s)"
    using cache_set_absent [OF rep k(1)] new m by (simp add: cache_room_def)
  have x0: "?x \<noteq> 0" using rep by (simp add: cache_rep_def)
  have holds: "cache_holds ?s (m(str := ?x))"
    unfolding cache_holds_def m using inserted_rep [OF rep k(1) _ key_string_not_null [OF k(1)], of wp] new(1) m by metis
  have xs: "dl_holds (fdata_view file) (live_pages file) ?s xs" and xn: "?x \<notin> set xs"
    using fd iv(1,4) live_below_hbrk [OF rep] by (auto intro: dl_holds_kept simp: dl_holds_def live_pages_iff)
  obtain s3 where s3: "openFile_addDataPage file ?x ?s = Some s3" "dl_holds (fdata_view file) (live_pages file) s3 (xs @ [?x])"
    using fdata.add_list [OF xs iv(9) x0 xn] fd iv(7,8) by (auto simp: fdata_view_def)
  note k3 = addDataPage_keeps [OF s3(1)]
  have o3: "only_links ?s s3" using k3 by (simp add: keeps_defs)
  have ds: "dl_holds lru_view live_entries s3 ds" "?x \<notin> set ds" "?x \<in> live_entries s3"
    using fd iv(2,5) k3(1) only_links_lives [OF o3] live_below_hbrk [OF rep]
    by (auto simp: dl_holds_def keeps_defs live_entries_def)
  obtain s4 where s4: "cache_addDataPageToLru ?x s3 = Some s4" "dl_holds lru_view live_entries s4 (?x # ds)"
    using lru.add_list [OF ds(1,3) x0 ds(2)] by blast
  note k4 = addDataPageToLru_keeps [OF s4(1)]
  have o4: "only_links s3 s4" using k4 by (simp add: keeps_defs)
  have fls: "dl_holds file_view live_files s4 fl" "file \<in> live_files s4"
    using fd iv(3,6) k3(2) k4(2) only_links_lives [OF o3] only_links_lives [OF o4]
    by (auto simp: dl_holds_def keeps_defs)
  obtain s5 where s5: "fs_updateFileInLru file s4 = Some s5" "dl_holds file_view live_files s5 (file # remove1 file fl)"
    "keeps_data s4 s5" "keeps_lru s4 s5"
    using updateFileInLru_list [OF fls] fd by blast
  have o5: "only_links s4 s5" using s5 by (simp add: keeps_defs)
  have o: "only_links ?s s5" using o3 o4 o5 only_links_trans by blast
  have put: "putPageIntoCache wp key s = Some (?x, s5)"
    using set s3(1) s4(1) s5(1) k(2,3,4) fl(1) by (simp add: putPageIntoCache_def key_at_def split: if_splits)
  have "dl_holds (fdata_view file) (live_pages file) s5 (xs @ [?x])"
    by (rule dl_holds_kept [OF s3(2)])
      (use k4(1) s5(3) only_links_lives [OF o4] only_links_lives [OF o5] in \<open>simp_all add: keeps_defs\<close>)
  moreover have "dl_holds lru_view live_entries s5 (?x # ds)"
    by (rule dl_holds_kept [OF s4(2)]) (use s5(4) only_links_lives [OF o5] in \<open>simp_all add: keeps_defs\<close>)
  moreover have "cache_holds s5 (m(str := ?x))" by (rule cache_holds_kept [OF holds only_links_table [OF o]])
  moreover have "file \<in> live_files s5" using s5(2) by (simp add: dl_holds_def)
  moreover have "\<forall>j. ckeys s5 j \<noteq> None \<longrightarrow> j < hbrk s5" using o fl fd by (auto simp: only_links_def less_SucI)
  ultimately have "file_cache s5 (m(str := ?x)) file (xs @ [?x]) (?x # ds) (file # remove1 file fl)"
    using s5(2) by (simp add: file_cache_def)
  with o put fl page_of_inserted [OF rep, where str = str and key = key and wp = wp] show ?thesis
    by (intro exI [of _ ?s] exI [of _ s5]) simp
qed

section \<open>Properties of the file layer\<close>

lemma sdiv_bound: "is_int32 x \<Longrightarrow> is_int32 (x sdiv 132096) \<and> is_int32 (x sdiv 132096 * 8)"
proof -
  assume x: "is_int32 x"
  then have "\<bar>x\<bar> \<le> 2147483648" by (auto simp: is_int32_def)
  then have b: "\<bar>x\<bar> div 132096 \<le> 16257" by linarith
  moreover have "0 \<le> \<bar>x\<bar> div 132096" by simp
  moreover have "\<bar>x sdiv 132096\<bar> = \<bar>x\<bar> div 132096" by (cases "x = 0") (simp_all add: signed_divide_int_def abs_mult abs_sgn_eq)
  ultimately show ?thesis by (auto simp: is_int32_def)
qed

text \<open>The key of the page above a data page: the range of a parent is 1024 times 129 bytes.\<close>

lemma getParentKey_data:
  assumes "key_at k s = Some kr" "levelsAbove kr = 0" "is_int32 (dataOffset kr)"
  shows "getParentKey k s = Some (hbrk s, s\<lparr>ckeys := (ckeys s)(hbrk s \<mapsto> \<lparr>kfile = kfile kr,
    dataOffset = dataOffset kr sdiv 132096 * 8, levelsAbove = 1\<rparr>), hbrk := hbrk s + 1\<rparr>)"
  using assms sdiv_bound [OF assms(3)]
  by (simp add: getParentKey_def add32_def mul32_def div32_def is_int32_def Let_def)

lemma prepareWriteablePage_state:
  assumes "key_at key s = Some kr" "kfile kr \<noteq> 0" "cfiles s (kfile kr) = Some g" "0 < hbrk s"
    "c_log g \<noteq> 0" "calogs s (c_log g) = Some al" "length d = 1024"
  shows "prepareWriteablePage u key d s = Some (hbrk s, s\<lparr>
    cwps := (cwps s)(hbrk s \<mapsto> (malloc_page u)\<lparr>address := nextPage al,
      nandPage := (nandPage (malloc_page u))\<lparr>contents := d\<rparr>\<rparr>),
    hbrk := hbrk s + 1, calogs := (calogs s)(c_log g \<mapsto> al\<lparr>log_hdr := (log_hdr al)\<lparr>active := active (log_hdr al) + 1\<rparr>\<rparr>)\<rparr>)"
  using assms by (simp add: prepareWriteablePage_def key_at_def file_at_def wp_at_def alog_at_def allocateFreePage_def
      Let_def split: if_splits)


text \<open>A new cache of 200 bins, a file of height 1 with a log, whose next page is 33, and two allocated pages.\<close>

definition log33 :: activeLog where
  "log33 = \<lparr>nextPage = 33, lastBlock = 2, lastErases = 0, log_hdr = dec_log [], alog_fileCount = 1\<rparr>"

definition small_file_state :: cstate where
  "small_file_state = (key_state 200 [(1024, 0), (2048, 0)])\<lparr>cfiles := [1 \<mapsto> file7\<lparr>treeHeight := 1, c_log := 20\<rparr>],
     calogs := [20 \<mapsto> log33], cwps := [50 \<mapsto> malloc_page (\<lambda>_. 0), 51 \<mapsto> malloc_page (\<lambda>_. 0)]\<rparr>"

lemma small_file_state_cache: "file_cache small_file_state (\<lambda>_. 0) 1 [] [] []"
proof -
  have "cache_holds small_file_state (\<lambda>_. 0)"
    by (rule cache_create_holds [of 200 small_file_state])
      (simp_all add: small_file_state_def cache_create_def is_int32_def key_state_def empty_cstate_def)
  then show ?thesis
    by (auto simp: file_cache_def small_file_state_def dl_holds_def dl_rep_def live_files_def live_iff fdata_view_def
        lru_view_def file_view_def link_def key_state_def empty_cstate_def file7_def)
qed

lemma small_file_state_keys:
  "key_string small_file_state 1 = Some ''1031''" "key_at 1 small_file_state = Some \<lparr>kfile = 1, dataOffset = 1024, levelsAbove = 0\<rparr>"
proof -
  have "key_string (key_state 200 [(1024, 0), (2048, 0)]) 1 = Some ''1031''"
    by (simp add: key_state_string key_state_num decimal_values)
  then show "key_string small_file_state 1 = Some ''1031''"
    by (rule key_string_files [rotated 2])
      (auto simp: small_file_state_def key_state_def empty_cstate_def split: if_splits)
  show "key_at 1 small_file_state = Some \<lparr>kfile = 1, dataOffset = 1024, levelsAbove = 0\<rparr>"
    by (simp add: key_at_def small_file_state_def key_state_def)
qed


lemma addDataPage_defined:
  assumes h: "dl_holds (fdata_view file) (live_pages file) s xs" and e: "e \<in> live_pages file s"
  shows "\<exists>s'. openFile_addDataPage file e s = Some s'"
proof -
  obtain c f where c: "e \<noteq> 0" "centries s e = Some c" "file \<noteq> 0" "cfiles s file = Some f" using e by (rule live_pagesE)
  have "dataTail f \<noteq> 0 \<Longrightarrow> dataTail f \<in> live (centries s)"
    using h dl_rep_ends(2) [of "fdata_view file s" xs] c(4)
    by (auto simp: dl_holds_def fdata_view_def link_the live_pages_iff subset_iff)
  with c show ?thesis by (auto simp: openFile_addDataPage_def store_simps)
qed

text \<open>
  Putting a page into the cache again, while it is the most recently used one, adds its
  entry to the list by last use a second time: the entry becomes its own successor.
\<close>

theorem rewritten_page_loops:
  assumes fc: "file_cache s m file xs (x # ds) fl" and k: "key_string s key = Some str"
    "key_at key s = Some kr" "levelsAbove kr = 0" "kfile kr = file" and m: "m str = x" and live: "\<not> stale_page s x"
  shows "\<exists>s'. putPageIntoCache wp key s = Some (x, s') \<and> lruDataHead s' = x \<and> link lruDataNext (centries s') x = x"
proof -
  note fd = fc [unfolded file_cache_def]
  obtain bins where rep: "cache_rep s bins" and mb: "m = lookup s bins" using fd by (auto simp: cache_holds_def)
  have x: "x \<in> live (centries s)" "x \<noteq> 0" "lruDataHead s = x"
    using fd by (auto simp: dl_holds_def live_entries_def live_iff dl_rep_def lru_view_def)
  obtain e where e0: "centries s x = Some e" "cache_set key wp s = do { s1 \<leftarrow> free_page (ewp e) s;
      Some (x, s1\<lparr>centries := (centries s)(x \<mapsto> e\<lparr>ewp := wp\<rparr>)\<rparr>) }"
    using cache_set_present [OF rep k(1), of wp] m mb x(2) by auto
  then have "ewp e \<in> pages_alloc s"
    using live x(2) by (auto simp: stale_page_def entry_at_def free_page_def pages_alloc_def split: if_splits)
  then obtain C where C: "free_page (ewp e) s = Some (s\<lparr>cwps := C\<rparr>)" using free_page_alloc by blast
  define s1 where "s1 = s\<lparr>cwps := C, centries := (centries s)(x \<mapsto> e\<lparr>ewp := wp\<rparr>)\<rparr>"
  have e: "centries s x = Some e" "cache_set key wp s = Some (x, s1)" using e0 C by (simp_all add: s1_def)
  have ln: "link sel (centries s1) = link sel (centries s)" if "\<And>e. sel (e\<lparr>ewp := wp\<rparr>) = sel e" for sel
    using e(1) that by (auto simp: s1_def link_def)
  have lv: "live (centries s1) = live (centries s)" "cfiles s1 = cfiles s" using x(1) by (simp_all add: s1_def)
  have vs: "fdata_view file s1 = fdata_view file s" "lru_view s1 = lru_view s" "file_view s1 = file_view s"
    using ln lv(2) by (simp_all add: fdata_view_def lru_view_def file_view_def s1_def)
  have ls: "live_pages file s1 = live_pages file s" "live_files s1 = live_files s" "live_entries s1 = live_entries s"
    using lv by (simp_all add: live_pages_def live_files_def live_entries_def)
  have xs1: "dl_holds (fdata_view file) (live_pages file) s1 xs" "dl_holds file_view live_files s1 fl"
    using fd vs ls by (auto simp: dl_holds_def)
  have "x \<in> live_pages file s1" using ls x(1) fd by (simp add: live_pages_iff live_files_def)
  then obtain s3 where s3: "openFile_addDataPage file x s1 = Some s3" using addDataPage_defined [OF xs1(1)] by blast
  note k3 = addDataPage_keeps [OF s3]
  have o3: "only_links s1 s3" using k3 by (simp add: keeps_defs)
  have "lru_view s3 = lru_view s" using k3(1) vs(2) by (simp add: keeps_defs)
  then have hd3: "lruDataHead s3 = x" using x(3) by (simp add: lru_view_def)
  have "x \<in> live (centries s3)" using only_links_live(1) [OF o3] lv x(1) by simp
  then obtain e3 where e3: "centries s3 x = Some e3" by (auto simp: live_iff)
  define s4 where "s4 = s3\<lparr>centries := (centries s3)(x \<mapsto> e3\<lparr>lruDataNext := x, lruDataPrev := x\<rparr>), lruDataHead := x\<rparr>"
  have s4: "cache_addDataPageToLru x s3 = Some s4"
    using hd3 e3 x(2) by (simp add: cache_addDataPageToLru_def upd_entry_def entry_at_def s4_def)
  have self: "link lruDataNext (centries s4) x = x" "lruDataHead s4 = x" by (simp_all add: s4_def)
  note k4 = addDataPageToLru_keeps [OF s4]
  have o4: "only_links s3 s4" using k4 by (simp add: keeps_defs)
  have fl4: "dl_holds file_view live_files s4 fl" "file \<in> live_files s4"
    using xs1(2) fd ls k3(2) k4(2) only_links_lives [OF o3] only_links_lives [OF o4] by (auto simp: dl_holds_def keeps_defs)
  obtain s5 where s5: "fs_updateFileInLru file s4 = Some s5" "keeps_lru s4 s5"
    using updateFileInLru_list [OF fl4] fd by blast
  then have "lru_view s5 = lru_view s4" by (simp add: keeps_defs)
  then have "lruDataHead s5 = x" "link lruDataNext (centries s5) x = x" using self by (simp_all add: lru_view_def)
  moreover have "key_at key s1 = Some kr" using k(2) by (simp add: key_at_def s1_def split: if_splits)
  then have "putPageIntoCache wp key s = Some (x, s5)"
    using e(2) s3 s4 s5(1) k(3,4) by (simp add: putPageIntoCache_def)
  ultimately show ?thesis by blast
qed

theorem rewritten_page_loops_witness:
  "\<exists>s1 x s2. putPageIntoCache 50 1 small_file_state = Some (x, s1) \<and>
    putPageIntoCache 51 1 s1 = Some (x, s2) \<and> link lruDataNext (centries s2) x = x"
proof -
  have "0 < cache_room small_file_state" by (simp add: cache_room_def small_file_state_def key_state_def empty_cstate_def)
  with put_new_page [OF small_file_state_cache small_file_state_keys, of 50] obtain s0 s1 where p:
    "only_links s0 s1" "ckeys s0 = ckeys small_file_state" "cfiles s0 = cfiles small_file_state"
    "putPageIntoCache 50 1 small_file_state = Some (hbrk small_file_state, s1)"
    "file_cache s1 ((\<lambda>_. 0)(''1031'' := hbrk small_file_state)) 1 [hbrk small_file_state] [hbrk small_file_state] [1]"
    "cwps s0 = cwps small_file_state" "page_of s0 (hbrk small_file_state) = Some 50"
    by (auto simp: One_nat_def simp del: One_nat_def)
  have "key_string s1 1 = Some ''1031''"
    using small_file_state_keys(1) key_string_cong [OF p(2,3)] only_links_table [OF p(1)] by (simp add: table_kept_def)
  moreover have "key_at 1 s1 = Some \<lparr>kfile = 1, dataOffset = 1024, levelsAbove = 0\<rparr>"
    using small_file_state_keys(2) p(1,2) by (simp add: key_at_def only_links_def)
  moreover have "page_of s1 (hbrk small_file_state) = Some 50" "cwps s1 = cwps small_file_state"
    using p(1,6,7) only_links_page [OF p(1)] by (simp_all add: only_links_def)
  then have "\<not> stale_page s1 (hbrk small_file_state)"
    using stale_page_of [of "hbrk small_file_state" s1 50]
    by (simp add: free_page_def small_file_state_def key_state_def empty_cstate_def)
  ultimately show ?thesis using rewritten_page_loops [OF p(5), of 1] p(4) by fastforce
qed

lemma removeDataPage_keeps:
  assumes "openFile_removeDataPage file e s = Some s'"
  shows "keeps_lru s s'"
proof -
  obtain f c s1 c1 where at: "file_at file s = Some f" "entry_at e s = Some c" "entry_at e s1 = Some c1" and st:
    "(if e = dataHead f then upd_file file (dataHead_update (\<lambda>_. fileDataNext c)) s
      else upd_entry (fileDataPrev c) (fileDataNext_update (\<lambda>_. fileDataNext c)) s) = Some s1"
    "(if e = dataTail f then upd_file file (dataTail_update (\<lambda>_. fileDataPrev c1)) s1
      else upd_entry (fileDataNext c1) (fileDataPrev_update (\<lambda>_. fileDataPrev c1)) s1) = Some s'"
    using assms unfolding openFile_removeDataPage_def Let_def bind_eq_Some_conv
    by (elim exE conjE) (rule that)
  have "keeps_lru s s1" using st(1) by (auto elim!: keeps_upd_file keeps_upd_entry simp: core_simps split: if_splits)
  moreover have "keeps_lru s1 s'" using st(2) by (auto elim!: keeps_upd_file keeps_upd_entry simp: core_simps split: if_splits)
  ultimately show ?thesis by (rule keeps_trans)
qed

lemma flush_loop:
  assumes "dl_holds (fdata_view file) (live_pages file) s xs" "file \<in> live_files s" "cache_rep s bins"
    "\<forall>x \<in> set xs. \<exists>b < length (ctable s). bins b = [x]"
  shows "\<exists>s' bins'. flush_data_loop file (hd (xs @ [0])) s = Some s' \<and> cache_rep s' bins' \<and> file \<in> live_files s' \<and>
    dl_holds (fdata_view file) (live_pages file) s' [] \<and> csize s' = csize s - int (length xs) \<and>
    (\<forall>x. centries s' x = None \<longleftrightarrow> x \<in> set xs \<or> centries s x = None) \<and> lruDataHead s' = lruDataHead s"
  using assms
proof (induction xs arbitrary: s bins)
  case Nil
  then show ?case by (auto simp: flush_data_loop.simps)
next
  case (Cons x xs)
  have h: "dl_rep (fdata_view file s) (x # xs)" "set (x # xs) \<subseteq> live_pages file s" using Cons.prems(1) by (auto simp: dl_holds_def)
  then obtain e f where e: "x \<noteq> 0" "centries s x = Some e" "file \<noteq> 0" "cfiles s file = Some f"
    by (auto elim: live_pagesE)
  have nx: "fileDataNext e = hd (xs @ [0])" "x \<notin> set xs" using h(1) e(2) by (auto simp: dl_rep_def fdata_view_def link_the)
  obtain s1 where s1: "openFile_removeDataPage file x s = Some s1" "dl_holds (fdata_view file) (live_pages file) s1 xs"
    using fdata.remove_list [OF Cons.prems(1), of x] by auto
  have k1: "only_links s s1" "lruDataHead s1 = lruDataHead s"
    using removeDataPage_keeps [OF s1(1)] by (auto simp: keeps_defs lru_view_def)
  obtain b where b: "b < length (ctable s)" "bins b = [x]" using Cons.prems(4) by auto
  have t1: "ctable s1 = ctable s" "csize s1 = csize s" using k1(1) by (simp_all add: only_links_def)
  note rep1 = cache_rep_kept(1) [OF Cons.prems(3) only_links_table [OF k1(1)]]
  have b1: "b < length (ctable s1)" using b(1) t1 by simp
  let ?s2 = "removed s1 b x"
  note rm = cache_remove_head [OF rep1 b1 b(2)] and rep2 = removed_rep(1) [OF rep1 b1 b(2)]
  have f2: "file \<in> live_files ?s2"
    using Cons.prems(2) only_links_lives(3) [OF k1(1)] by (simp add: removed_def live_files_def)
  have "dl_rep (fdata_view file ?s2) xs = dl_rep (fdata_view file s1) xs"
    by (rule dl_rep_cong) (use nx(2) in \<open>auto simp: fdata_view_def removed_def link_def\<close>)
  then have l2: "dl_holds (fdata_view file) (live_pages file) ?s2 xs"
    using s1(2) nx(2) by (auto simp: dl_holds_def live_pages_iff live_iff removed_def subset_iff)
  have "\<exists>b' < length (ctable ?s2). (bins(b := [])) b' = [y]" if y: "y \<in> set xs" for y
  proof -
    obtain b' where b': "b' < length (ctable s)" "bins b' = [y]" using Cons.prems(4) y by auto
    then have "b' \<noteq> b" using b(2) y nx(2) by auto
    with b' show ?thesis using t1 by (intro exI [of _ b']) (simp add: removed_def)
  qed
  then obtain s' bins' where s': "flush_data_loop file (hd (xs @ [0])) ?s2 = Some s'" "cache_rep s' bins'" "file \<in> live_files s'"
    "dl_holds (fdata_view file) (live_pages file) s' []" "csize s' = csize ?s2 - int (length xs)"
    "\<forall>y. centries s' y = None \<longleftrightarrow> y \<in> set xs \<or> centries ?s2 y = None" "lruDataHead s' = lruDataHead ?s2"
    using Cons.IH [OF l2 f2 rep2] by blast
  have "centries s1 y = None \<longleftrightarrow> centries s y = None" for y using k1(1) by (metis only_links_def map_option_is_None)
  then have "\<forall>y. centries s' y = None \<longleftrightarrow> y \<in> set (x # xs) \<or> centries s y = None" using s'(6) by (auto simp: removed_def)
  moreover have "flush_data_loop file x s = Some s'"
    using s1(1) rm s'(1) e(1,2) nx(1) by (subst flush_data_loop.simps) (simp add: entry_at_def)
  ultimately show ?case using s' t1 k1(2) by (intro exI [of _ s'] exI [of _ bins']) (simp add: removed_def)
qed

text \<open>
  C40. Flushing a file of which every cached data page is alone in its bin of the hash table
  takes all of them out of the file's list and frees them, and the loop ends; but the list
  of data pages by last use is not updated: if one of them was its head, the head is now a
  freed entry, and the next use of that list is undefined. (A page that shares its bin with
  another may stay linked in the bin: \<open>cache_remove_dangling\<close>.)
\<close>

theorem flush_leaves_lru_dangling:
  assumes "dl_holds (fdata_view file) (live_pages file) s xs" "file \<in> live_files s" "cache_rep s bins"
    "\<forall>x \<in> set xs. \<exists>b < length (ctable s). bins b = [x]"
  shows "\<exists>s'. fs_flushDataPages file s = Some s' \<and> openFile_printData file s' = Some 0 \<and>
    csize s' = csize s - int (length xs) \<and> lruDataHead s' = lruDataHead s \<and>
    (lruDataHead s \<in> set xs \<longrightarrow> lruDataHead s' \<notin> live_entries s' \<and> cache_updateDataLruHead (lruDataHead s') s' = None)"
proof -
  obtain s' bins' where s': "flush_data_loop file (hd (xs @ [0])) s = Some s'" "file \<in> live_files s'"
    "dl_holds (fdata_view file) (live_pages file) s' []" "csize s' = csize s - int (length xs)"
    "\<forall>x. centries s' x = None \<longleftrightarrow> x \<in> set xs \<or> centries s x = None" "lruDataHead s' = lruDataHead s"
    using flush_loop [OF assms] by blast
  obtain f f' where f: "file \<noteq> 0" "cfiles s file = Some f" "cfiles s' file = Some f'"
    using assms(2) s'(2) by (auto simp: live_files_def live_iff)
  have "dataHead f = hd (xs @ [0])" "dataHead f' = 0"
    using assms(1) s'(3) f by (auto simp: dl_holds_def dl_rep_def fdata_view_def link_the)
  then have "fs_flushDataPages file s = Some s'" "openFile_printData file s' = Some 0"
    using s'(1) f by (simp_all add: fs_flushDataPages_def openFile_printData_def file_at_def count_pages.simps)
  moreover have "lruDataHead s' \<notin> live_entries s' \<and> cache_updateDataLruHead (lruDataHead s') s' = None"
    if "lruDataHead s \<in> set xs"
  proof -
    have c: "centries s' (lruDataHead s') = None" using that s'(5,6) by simp
    then have "entry_at (lruDataHead s') s' = None" by (simp add: entry_at_def)
    with c show ?thesis by (simp add: live_entries_def live_iff cache_updateDataLruHead_def)
  qed
  ultimately show ?thesis using s' by blast
qed

lemma lookup_own:
  assumes rep: "cache_rep s bins" and b: "b < length (ctable s)" and y: "y \<in> set (bins b)"
  shows "lookup s bins (str_of s y) \<noteq> 0 \<and> lookup s bins (str_of s y) = y"
proof -
  have bin: "bin_ok s b (bins b)" using rep b by (simp add: cache_rep_def)
  then have h: "hash_bin s (str_of s y) = b" "y \<noteq> 0" using bin_live [OF bin y] by simp_all
  obtain as bs where xs: "bins b = as @ y # bs" using split_list [OF y] by blast
  have "filter (\<lambda>x. str_of s x = str_of s y) as = []"
    using bin xs by (auto simp: bin_ok_def sorted_wrt_append filter_empty_conv)
  then show ?thesis using h xs by (simp add: lookup_def)
qed

lemma single_list: "distinct xs \<Longrightarrow> x \<in> set xs \<Longrightarrow> (\<And>y. y \<in> set xs \<Longrightarrow> y = x) \<Longrightarrow> xs = [x]"
proof -
  assume a: "distinct xs" "x \<in> set xs" "\<And>y. y \<in> set xs \<Longrightarrow> y = x"
  obtain as bs where xs: "xs = as @ x # bs" using split_list [OF a(2)] by blast
  have "as = []" using a(1) a(3) [of "hd as"] xs by (cases as) auto
  moreover have "bs = []" using a(1) a(3) [of "hd bs"] xs by (cases bs) auto
  ultimately show ?thesis using xs by simp
qed

theorem flush_leaves_lru_dangling_witness:
  "\<exists>x s1 s2. putPageIntoCache 50 1 small_file_state = Some (x, s1) \<and> fs_flushDataPages 1 s1 = Some s2 \<and>
    lruDataHead s2 = x \<and> x \<notin> live_entries s2 \<and> cache_updateDataLruHead x s2 = None"
proof -
  let ?x = "hbrk small_file_state"
  have "0 < cache_room small_file_state" by (simp add: cache_room_def small_file_state_def key_state_def empty_cstate_def)
  with put_new_page [OF small_file_state_cache small_file_state_keys, of 50] obtain s0 s1 where p:
    "only_links s0 s1" "ckeys s0 = ckeys small_file_state" "cfiles s0 = cfiles small_file_state"
    "putPageIntoCache 50 1 small_file_state = Some (?x, s1)"
    "file_cache s1 ((\<lambda>_. 0)(''1031'' := ?x)) 1 [?x] [?x] [1]"
    by (auto simp: One_nat_def simp del: One_nat_def)
  obtain bins where rep: "cache_rep s1 bins" and m: "(\<lambda>_. 0)(''1031'' := ?x) = lookup s1 bins"
    using p(5) by (auto simp: file_cache_def cache_holds_def)
  have l: "lookup s1 bins ''1031'' = ?x" "?x \<noteq> 0" "lookup s1 bins a \<noteq> 0 \<Longrightarrow> a = ''1031''" for a
    unfolding m [symmetric] by (simp_all add: small_file_state_def key_state_def empty_cstate_def split: if_splits)
  let ?b = "hash_bin s1 ''1031''"
  have x: "?x \<in> set (bins ?b)" using lookup_str [of s1 bins "''1031''"] l by simp
  have "bins ?b = [?x]"
  proof -
    have only: "y = ?x" if y: "y \<in> set (bins ?b)" for y
    proof -
      have bin: "bin_ok s1 ?b (bins ?b)" using rep cache_rep_bin(1) [OF rep] by (simp add: cache_rep_def)
      have "lookup s1 bins (str_of s1 y) \<noteq> 0 \<and> lookup s1 bins (str_of s1 y) = y"
        using lookup_own [OF rep _ y] cache_rep_bin(1) [OF rep] by simp
      with l(3) [of "str_of s1 y"] l(1) show ?thesis by simp
    qed
    have "distinct (bins ?b)"
      using bin_distinct [of s1 ?b "bins ?b"] rep cache_rep_bin(1) [OF rep] by (simp add: cache_rep_def)
    then show ?thesis using x only by (rule single_list)
  qed
  then have "\<forall>x \<in> set [?x]. \<exists>b < length (ctable s1). bins b = [x]" using cache_rep_bin(1) [OF rep] by auto
  with flush_leaves_lru_dangling [OF _ _ rep, of 1 "[?x]"] p(4,5) show ?thesis
    by (auto simp: file_cache_def dl_holds_def dl_rep_def lru_view_def)
qed

end
