(* ===== verification/Paged_Proto.thy ===== *)
theory Paged_Proto
  imports VNAND DList
begin

text \<open>
  The first prototype, \<open>JuliaRehaanExample\<close>: a pass-through file system that reads and
  writes files of the host by pages of 1023 bytes through a cache (\<open>pageCache.c\<close>, and
  \<open>xmp_read\<close> and \<open>xmp_write\<close> of \<open>fusexmp_fh.c\<close>, here \<open>paged_read\<close> and \<open>paged_write\<close>).

  The cache is a doubly linked list of nodes in a store; the page a node points to is
  part of the node, as no two nodes share one. The host's file is its bytes, with room for
  what is written. \<open>u\<close> gives the content of the memory that \<open>malloc\<close> returns at an address.
  \<open>None\<close> is undefined behaviour or a walk along the list that does not end.
\<close>

section \<open>The cache\<close>

record pnode =
  pnext :: node
  pprev :: node
  ppath :: string
  ppageNum :: int
  ppage :: bytes

record pcache =
  phead :: node
  pnodes :: "node \<Rightarrow> pnode option"
  pbrk :: node

definition upd_node :: "node \<Rightarrow> (pnode \<Rightarrow> pnode) \<Rightarrow> pcache \<Rightarrow> pcache option" where
  "upd_node x g s = (case pnodes s x of None \<Rightarrow> None | Some nd \<Rightarrow> Some (s\<lparr>pnodes := (pnodes s)(x \<mapsto> g nd)\<rparr>))"

text \<open>\<open>newNode\<close>: the links of the new node are what the memory holds.\<close>

definition newNode :: "(node \<Rightarrow> stack) \<Rightarrow> string \<Rightarrow> int \<Rightarrow> bytes \<Rightarrow> pcache \<Rightarrow> node \<times> pcache" where
  "newNode u path pageNum page s =
     (let x = pbrk s
      in (x, s\<lparr>pbrk := x + 1, pnodes := (pnodes s)(x \<mapsto>
           \<lparr>pnext = nat (dec_le (bslice 0 8 (stack_bytes 40 (u x)))), pprev = nat (dec_le (bslice 8 8 (stack_bytes 40 (u x)))),
            ppath = path, ppageNum = pageNum, ppage = page\<rparr>)\<rparr>))"

partial_function (option) cache_find :: "string \<Rightarrow> int \<Rightarrow> node \<Rightarrow> pcache \<Rightarrow> node option" where
  "cache_find path pageNum finger s =
     (if finger = 0 then Some 0
      else case pnodes s finger of
             None \<Rightarrow> None
           | Some nd \<Rightarrow>
               if path = ppath nd \<and> pageNum = ppageNum nd then Some finger
               else cache_find path pageNum (pnext nd) s)"

text \<open>A page that is found is moved to the head of the list.\<close>

definition touch_node :: "node \<Rightarrow> pcache \<Rightarrow> pcache option" where
  "touch_node finger s = do {
     let currentHead = phead s;
     nd \<leftarrow> pnodes s finger;
     s \<leftarrow> (if pprev nd \<noteq> 0 then upd_node (pprev nd) (pnext_update (\<lambda>_. pnext nd)) s else Some s);
     nd \<leftarrow> pnodes s finger;
     s \<leftarrow> (if pnext nd \<noteq> 0 then upd_node (pnext nd) (pprev_update (\<lambda>_. pprev nd)) s else Some s);
     s \<leftarrow> upd_node finger (pnext_update (\<lambda>_. currentHead)) (s\<lparr>phead := finger\<rparr>);
     s \<leftarrow> (if currentHead \<noteq> 0 then upd_node currentHead (pprev_update (\<lambda>_. finger)) s else Some s);
     upd_node finger (pprev_update (\<lambda>_. 0)) s }"

text \<open>The new buffer of a page of the file \<open>f\<close>.\<close>

definition load_page :: "stack \<Rightarrow> int \<Rightarrow> int \<Rightarrow> bytes \<Rightarrow> bytes" where
  "load_page g pageNum fileSizeInPages f =
     (if pageNum \<ge> fileSizeInPages then replicate 1023 0
      else let buffer = into_buffer (bslice (nat (pageNum * 1023)) 1023 f) (stack_bytes 1023 g)
           in if pageNum = fileSizeInPages then replicate 1023 0 else buffer)"

definition cacheLoop ::
  "(node \<Rightarrow> stack) \<Rightarrow> string \<Rightarrow> int \<Rightarrow> int \<Rightarrow> bytes \<Rightarrow> pcache \<Rightarrow> (node \<times> pcache) option" where
  "cacheLoop u path pageNum fileSizeInPages f s = do {
     finger \<leftarrow> cache_find path pageNum (phead s) s;
     if finger \<noteq> 0 then do { s \<leftarrow> touch_node finger s; Some (finger, s) }
     else do {
       let buffer = load_page (u (pbrk s)) pageNum fileSizeInPages f;
       let (newHead, s) = newNode u path pageNum buffer (s\<lparr>pbrk := pbrk s + 1\<rparr>);
       s \<leftarrow> upd_node newHead (pnext_update (\<lambda>_. phead s)) s;
       s \<leftarrow> (if phead s \<noteq> 0 then upd_node (phead s) (pprev_update (\<lambda>_. newHead)) s else Some s);
       s \<leftarrow> upd_node newHead (pprev_update (\<lambda>_. 0)) s;
       Some (newHead, s\<lparr>phead := newHead\<rparr>) } }"

section \<open>Reading\<close>

text \<open>Where in page number \<open>i\<close> of the read the data is: the start within the page and the length.\<close>

definition read_range :: "int \<Rightarrow> int \<Rightarrow> int \<Rightarrow> int \<Rightarrow> int \<Rightarrow> int \<times> int" where
  "read_range numPages siz startDeviation endDeviation i =
     (if numPages = 1 then (startDeviation, siz)
      else if i = 0 then (startDeviation, 1023 - startDeviation)
      else if i = numPages - 1 \<and> endDeviation \<noteq> 0 then (0, endDeviation)
      else (0, 1023))"

text \<open>The loop, with \<open>n\<close> pages left and \<open>out\<close> in the buffer.\<close>

fun read_pages ::
  "(node \<Rightarrow> stack) \<Rightarrow> string \<Rightarrow> bytes \<Rightarrow> int \<Rightarrow> int \<Rightarrow> int \<Rightarrow> int \<Rightarrow> int \<Rightarrow> int \<Rightarrow> nat \<Rightarrow> bytes \<Rightarrow> pcache
     \<Rightarrow> (bytes \<times> pcache) option" where
  "read_pages u path f fsp siz sd ed np sp 0 out s = Some (out, s)"
| "read_pages u path f fsp siz sd ed np sp (Suc n) out s = do {
     let i = np - int (Suc n);
     let (startWithinPage, toRead) = read_range np siz sd ed i;
     (x, s) \<leftarrow> cacheLoop u path (sp + i) fsp f s;
     nd \<leftarrow> pnodes s x;
     if 0 \<le> startWithinPage \<and> 0 \<le> toRead \<and> startWithinPage + toRead \<le> int (length (ppage nd))
     then read_pages u path f fsp siz sd ed np sp n
            (out @ bslice (nat startWithinPage) (nat toRead) (ppage nd)) s
     else None }"

text \<open>\<open>xmp_read\<close>: the value returned, what is in the buffer, the cache.\<close>

definition paged_read ::
  "(node \<Rightarrow> stack) \<Rightarrow> string \<Rightarrow> nat \<Rightarrow> nat \<Rightarrow> bytes \<Rightarrow> pcache \<Rightarrow> (int \<times> bytes \<times> pcache) option" where
  "paged_read u path siz offset f s =
     (let fileSize = int32 (int (length f));
          fileSizeInPages = (fileSize + 1023 - 1) sdiv 1023
      in if int offset > fileSize then Some (0, [], s)
         else let siz = (if int offset + int siz > fileSize then fileSize - int offset else int siz);
                  startDeviation = int offset smod 1023;
                  endDeviation = (siz + int offset) smod 1023;
                  numPages = int32 ((startDeviation + 1023 + siz - 1) sdiv 1023);
                  startPage = int32 (int offset sdiv 1023)
              in map_option (\<lambda>(out, s). (int (length out), out, s))
                   (read_pages u path f fileSizeInPages siz startDeviation endDeviation numPages startPage (nat numPages) [] s))"

section \<open>Writing\<close>

text \<open>\<open>pwrite\<close> of the host.\<close>

definition file_write :: "nat \<Rightarrow> bytes \<Rightarrow> bytes \<Rightarrow> bytes" where
  "file_write off d f = (if d = [] then f else take off (f @ replicate (off - length f) 0) @ d @ drop (off + length d) f)"

text \<open>The loop, with \<open>n\<close> pages left, \<open>d\<close> the data not yet written and \<open>res\<close> bytes written.\<close>

fun write_pages ::
  "(node \<Rightarrow> stack) \<Rightarrow> string \<Rightarrow> int \<Rightarrow> int \<Rightarrow> int \<Rightarrow> int \<Rightarrow> int \<Rightarrow> int \<Rightarrow> nat \<Rightarrow> int \<Rightarrow> bytes \<Rightarrow> int \<Rightarrow> bytes \<Rightarrow> pcache
     \<Rightarrow> (int \<times> bytes \<times> pcache) option" where
  "write_pages u path err fsp finalFileSize lastEnd np sp 0 startWithinPage d res f s = Some (res, f, s)"
| "write_pages u path err fsp finalFileSize lastEnd np sp (Suc n) startWithinPage d res f s = do {
     let page = np - int (Suc n) + sp;
     let endWithinPage = (if n = 0 then lastEnd else 1023);
     (x, s) \<leftarrow> cacheLoop u path page fsp f s;
     let dataToMove = endWithinPage - startWithinPage;
     if dataToMove < 0 then None
     else do {
       s \<leftarrow> upd_node x (\<lambda>nd. nd\<lparr>ppage := patch (nat startWithinPage) (take (nat dataToMove) d) (ppage nd)\<rparr>) s;
       nd \<leftarrow> pnodes s x;
       let toWrite = (if (page + 1) * 1023 > finalFileSize then finalFileSize - page * 1023 else 1023);
       if toWrite < 0 then Some (- err, f, s)
       else write_pages u path err fsp finalFileSize lastEnd np sp n 0 (drop (nat dataToMove) d) (res + dataToMove)
              (file_write (nat (page * 1023)) (take (nat toWrite) (ppage nd)) f) s } }"

definition paged_write ::
  "(node \<Rightarrow> stack) \<Rightarrow> string \<Rightarrow> int \<Rightarrow> bytes \<Rightarrow> nat \<Rightarrow> bytes \<Rightarrow> pcache \<Rightarrow> (int \<times> bytes \<times> pcache) option" where
  "paged_write u path err d offset f s =
     (let fileSize = int32 (int (length f));
          fileSizeInPages = (fileSize + 1023 - 1) sdiv 1023;
          finalFileSize = (if int offset + int (length d) > fileSize then int32 (int offset + int (length d)) else fileSize);
          startPage = int32 (int offset sdiv 1023);
          startWithinPage = int offset smod 1023;
          numPages = int32 ((startWithinPage + int (length d) + 1023 - 1) sdiv 1023)
      in write_pages u path err fileSizeInPages finalFileSize ((int offset + int (length d)) smod 1023) numPages startPage
           (nat numPages) startWithinPage d 0 f s)"

section \<open>The list of cached pages\<close>

definition nxt :: "pcache \<Rightarrow> node \<Rightarrow> node" where
  "nxt s x = (case pnodes s x of Some nd \<Rightarrow> pnext nd | None \<Rightarrow> 0)"

definition prv :: "pcache \<Rightarrow> node \<Rightarrow> node" where
  "prv s x = (case pnodes s x of Some nd \<Rightarrow> pprev nd | None \<Rightarrow> 0)"

definition page_data :: "pcache \<Rightarrow> node \<Rightarrow> (string \<times> int \<times> bytes) option" where
  "page_data s x = map_option (\<lambda>nd. (ppath nd, ppageNum nd, ppage nd)) (pnodes s x)"

definition page_key :: "pcache \<Rightarrow> node \<Rightarrow> (string \<times> int) option" where
  "page_key s x = map_option (\<lambda>nd. (ppath nd, ppageNum nd)) (pnodes s x)"

definition plist :: "pcache \<Rightarrow> node list \<Rightarrow> dlist" where
  "plist s xs = \<lparr>dnext = nxt s, dprev = prv s, dhead = phead s, dtail = last (0 # xs)\<rparr>"

definition proto_rep :: "pcache \<Rightarrow> node list \<Rightarrow> bool" where
  "proto_rep s xs \<longleftrightarrow> dl_rep (plist s xs) xs \<and> (\<forall>x \<in> set xs. page_data s x \<noteq> None)
     \<and> inj_on (page_key s) (set xs) \<and> (\<forall>x. page_data s x \<noteq> None \<longrightarrow> x < pbrk s) \<and> 0 < pbrk s"

text \<open>What of the file a cached page shows is what the file holds.\<close>

definition shows_file :: "bytes \<Rightarrow> int \<Rightarrow> bytes \<Rightarrow> bool" where
  "shows_file f n b \<longleftrightarrow> 0 \<le> n \<and> length b = 1023 \<and> take (length f - nat n * 1023) b = bslice (nat n * 1023) 1023 f"

definition coherent :: "pcache \<Rightarrow> node list \<Rightarrow> string \<Rightarrow> bytes \<Rightarrow> bool" where
  "coherent s xs path f \<longleftrightarrow>
     (\<forall>x \<in> set xs. \<forall>n b. page_data s x = Some (path, n, b) \<longrightarrow> shows_file f n b)"

lemma proto_repD:
  assumes "proto_rep s xs"
  shows "dl_rep (plist s xs) xs" "\<forall>x \<in> set xs. page_data s x \<noteq> None" "inj_on (page_key s) (set xs)"
    "\<And>x. page_data s x \<noteq> None \<Longrightarrow> x < pbrk s" "0 < pbrk s" "phead s = hd (xs @ [0])" "distinct xs" "0 \<notin> set xs"
    "fwd (nxt s) (phead s) xs"
  using assms dl_rep_fwd [of "plist s xs" xs] by (auto simp: proto_rep_def dl_rep_def plist_def)

lemma page_key_data: "page_key s x = map_option (\<lambda>(p, n, b). (p, n)) (page_data s x)"
  by (simp add: page_key_def page_data_def option.map_comp comp_def)

lemma find_hit:
  assumes "fwd (nxt s) h xs" "\<forall>x \<in> set xs. page_data s x \<noteq> None" "inj_on (page_key s) (set xs)"
    "e \<in> set xs" "page_key s e = Some (path, n)"
  shows "cache_find path n h s = Some e"
  using assms
proof (induction xs arbitrary: h)
  case (Cons x xs)
  then obtain nd where nd: "pnodes s x = Some nd" by (auto simp: page_data_def)
  have "pnext nd = nxt s x" using nd by (simp add: nxt_def)
  then have h: "h = x" "x \<noteq> 0" "fwd (nxt s) (pnext nd) xs" using Cons.prems(1) by auto
  show ?case
  proof (cases "x = e")
    case True
    then show ?thesis using h nd Cons.prems(5) by (subst cache_find.simps) (simp add: page_key_def)
  next
    case False
    then have "page_key s x \<noteq> Some (path, n)" using Cons.prems(3-5) by (metis inj_onD list.set_intros(1))
    then have "\<not> (path = ppath nd \<and> n = ppageNum nd)" using nd by (auto simp: page_key_def)
    moreover have "cache_find path n (pnext nd) s = Some e" using Cons.IH [OF h(3)] Cons.prems False by auto
    ultimately show ?thesis using h nd by (subst cache_find.simps) auto
  qed
qed simp

lemma find_miss:
  assumes "fwd (nxt s) h xs" "\<forall>x \<in> set xs. page_data s x \<noteq> None" "\<forall>x \<in> set xs. page_key s x \<noteq> Some (path, n)"
  shows "cache_find path n h s = Some 0"
  using assms
proof (induction xs arbitrary: h)
  case Nil
  then show ?case by (simp add: cache_find.simps)
next
  case (Cons x xs)
  then obtain nd where nd: "pnodes s x = Some nd" by (auto simp: page_data_def)
  then have "\<not> (path = ppath nd \<and> n = ppageNum nd)" using Cons.prems(3) by (auto simp: page_key_def)
  moreover have "cache_find path n (nxt s x) s = Some 0" using Cons by auto
  ultimately show ?case using Cons.prems(1) nd by (subst cache_find.simps) (simp add: nxt_def)
qed

text \<open>Storing a link changes that link and nothing else.\<close>

lemma upd_next:
  assumes "page_data s x \<noteq> None"
  obtains s' where "upd_node x (pnext_update (\<lambda>_. y)) s = Some s'" "nxt s' = (nxt s)(x := y)" "prv s' = prv s"
    "page_data s' = page_data s" "phead s' = phead s" "pbrk s' = pbrk s"
proof -
  obtain nd where "pnodes s x = Some nd" using assms by (auto simp: page_data_def)
  then show ?thesis
    by (intro that [of "s\<lparr>pnodes := (pnodes s)(x \<mapsto> nd\<lparr>pnext := y\<rparr>)\<rparr>"])
      (auto simp: upd_node_def nxt_def prv_def page_data_def fun_eq_iff)
qed

lemma upd_prev:
  assumes "page_data s x \<noteq> None"
  obtains s' where "upd_node x (pprev_update (\<lambda>_. y)) s = Some s'" "prv s' = (prv s)(x := y)" "nxt s' = nxt s"
    "page_data s' = page_data s" "phead s' = phead s" "pbrk s' = pbrk s"
proof -
  obtain nd where "pnodes s x = Some nd" using assms by (auto simp: page_data_def)
  then show ?thesis
    by (intro that [of "s\<lparr>pnodes := (pnodes s)(x \<mapsto> nd\<lparr>pprev := y\<rparr>)\<rparr>"])
      (auto simp: upd_node_def nxt_def prv_def page_data_def fun_eq_iff)
qed

lemma phead_views [simp]:
  "nxt (s\<lparr>phead := x\<rparr>) = nxt s" "prv (s\<lparr>phead := x\<rparr>) = prv s" "page_data (s\<lparr>phead := x\<rparr>) = page_data s"
  by (simp_all add: nxt_def prv_def page_data_def fun_eq_iff)

lemma node_views:
  assumes "page_data s x \<noteq> None"
  obtains nd where "pnodes s x = Some nd" "pnext nd = nxt s x" "pprev nd = prv s x"
  using assms by (auto simp: page_data_def nxt_def prv_def)

lemma proto_rep_same_data:
  assumes "proto_rep s xs" "page_data s' = page_data s" "pbrk s' = pbrk s" "dl_rep (plist s' ys) ys" "set ys = set xs"
  shows "proto_rep s' ys"
proof -
  have "page_key s' = page_key s" using assms(2) by (simp add: page_key_data fun_eq_iff)
  then show ?thesis using assms by (simp add: proto_rep_def)
qed

text \<open>A page that is not at the head of the list is moved there.\<close>

lemma touch_node_front:
  assumes rep: "proto_rep s (as @ e # bs)" and as: "as \<noteq> []"
  shows "\<exists>s'. touch_node e s = Some s' \<and> proto_rep s' (e # as @ bs) \<and> page_data s' = page_data s"
proof -
  let ?xs = "as @ e # bs"
  let ?d = "plist s ?xs" and ?p = "last as" and ?n = "hd (bs @ [0])" and ?h = "hd as"
  note r = proto_repD [OF rep]
  have links: "prv s e = ?p" "nxt s e = ?n" "phead s = ?h"
    using dl_rep_split [OF r(1)] as r(6) by (simp_all add: plist_def)
  have "\<forall>x \<in> set as. x \<noteq> 0 \<and> x \<noteq> e" "e \<noteq> 0" using r(7,8) by auto
  then have ne: "?p \<noteq> 0" "?h \<noteq> 0" "?p \<noteq> e" "?h \<noteq> e" "e \<noteq> 0" using as by simp_all
  have live: "page_data s ?p \<noteq> None" "page_data s ?h \<noteq> None" "page_data s e \<noteq> None"
    using r(2) as by (simp_all add: last_in_set hd_in_set)
  obtain nd where nd: "pnodes s e = Some nd" "pnext nd = ?n" "pprev nd = ?p" using node_views [OF live(3)] links by metis
  obtain s1 where s1: "upd_node ?p (pnext_update (\<lambda>_. ?n)) s = Some s1" "nxt s1 = (nxt s)(?p := ?n)" "prv s1 = prv s"
    "page_data s1 = page_data s" "phead s1 = phead s" "pbrk s1 = pbrk s" by (rule upd_next [OF live(1)])
  have live1: "page_data s1 e \<noteq> None" using live s1(4) by simp
  obtain nd1 where nd1: "pnodes s1 e = Some nd1" "pnext nd1 = ?n" "pprev nd1 = ?p"
    using node_views [OF live1] links ne(3) s1(2,3) by (metis fun_upd_other)
  obtain s2 where s2: "(if ?n \<noteq> 0 then upd_node ?n (pprev_update (\<lambda>_. ?p)) s1 else Some s1) = Some s2" "nxt s2 = nxt s1"
    "prv s2 = (if ?n \<noteq> 0 then (prv s)(?n := ?p) else prv s)" "page_data s2 = page_data s" "pbrk s2 = pbrk s"
  proof (cases "?n = 0")
    case False
    then have "bs \<noteq> []" by auto
    then have "page_data s1 ?n \<noteq> None" using r(2) s1(4) by simp
    from upd_prev [OF this, of ?p] False s1 that show ?thesis by (metis (no_types, lifting))
  qed (use s1 that in auto)
  have live2: "page_data (s2\<lparr>phead := e\<rparr>) e \<noteq> None" using live s2(4) by simp
  obtain s3 where s3: "upd_node e (pnext_update (\<lambda>_. ?h)) (s2\<lparr>phead := e\<rparr>) = Some s3" "nxt s3 = (nxt s2)(e := ?h)"
    "prv s3 = prv s2" "page_data s3 = page_data s" "phead s3 = e" "pbrk s3 = pbrk s"
    by (rule upd_next [OF live2, of "hd as"]) (use s2 in auto)
  have live3: "page_data s3 ?h \<noteq> None" using live s3(4) by simp
  obtain s4 where s4: "upd_node ?h (pprev_update (\<lambda>_. e)) s3 = Some s4" "prv s4 = (prv s3)(?h := e)" "nxt s4 = nxt s3"
    "page_data s4 = page_data s" "phead s4 = e" "pbrk s4 = pbrk s"
    by (rule upd_prev [OF live3, of e]) (use s3 in auto)
  have live4: "page_data s4 e \<noteq> None" using live s4(4) by simp
  obtain s5 where s5: "upd_node e (pprev_update (\<lambda>_. 0)) s4 = Some s5" "prv s5 = (prv s4)(e := 0)" "nxt s5 = nxt s4"
    "page_data s5 = page_data s" "phead s5 = e" "pbrk s5 = pbrk s"
    by (rule upd_prev [OF live4, of 0]) (use s4 in auto)
  have tail: "e = last (0 # ?xs) \<longleftrightarrow> ?n = 0" using r(7,8) by (cases bs) auto
  have "plist s5 (e # as @ bs) = push_front e (unlink_node e ?d)"
    using tail ne r(8) links as s1(2,3) s2(2,3) s3(2,3) s4(2,3) s5(2,3,5)
    by (cases bs) (auto simp: plist_def push_front_def unlink_node_def Let_def fun_upd_twist)
  moreover have "dl_rep (push_front e (unlink_node e ?d)) (e # as @ bs)"
    using push_front_rep [OF unlink_node_rep [OF r(1)], of e] ne(5) r(7) by simp
  ultimately have "proto_rep s5 (e # as @ bs)" using proto_rep_same_data [OF rep s5(4,6)] by simp
  moreover have "touch_node e s = Some s5"
    using nd nd1 s1(1) s2(1) s3(1) s4(1) s5(1) ne links by (simp add: touch_node_def Let_def split: if_splits)
  ultimately show ?thesis using s5(4) by blast
qed

lemma cacheLoop_miss:
  assumes rep: "proto_rep s xs" and miss: "\<forall>x \<in> set xs. page_key s x \<noteq> Some (path, n)"
  shows "\<exists>s'. cacheLoop u path n fsp f s = Some (pbrk s + 1, s') \<and> proto_rep s' ((pbrk s + 1) # xs)
    \<and> page_data s' = (page_data s)(pbrk s + 1 \<mapsto> (path, n, load_page (u (pbrk s)) n fsp f))
    \<and> pbrk s + 1 \<notin> set xs"
proof -
  let ?x = "pbrk s + 1" and ?b = "load_page (u (pbrk s)) n fsp f"
  note r = proto_repD [OF rep]
  have fnd: "cache_find path n (phead s) s = Some 0" using find_miss [OF r(9,2) miss] .
  have "page_data s ?x = None" using r(4) [of ?x] by (cases "page_data s ?x") auto
  then have new: "page_data s ?x = None" "?x \<notin> set xs" using r(2) by auto
  define t where "t = snd (newNode u path n ?b (s\<lparr>pbrk := ?x\<rparr>))"
  have t: "newNode u path n ?b (s\<lparr>pbrk := ?x\<rparr>) = (?x, t)" "page_data t = (page_data s)(?x \<mapsto> (path, n, ?b))"
    "phead t = phead s" "pbrk t = ?x + 1" "\<forall>y. y \<noteq> ?x \<longrightarrow> nxt t y = nxt s y \<and> prv t y = prv s y"
    by (simp_all add: t_def newNode_def Let_def page_data_def nxt_def prv_def fun_eq_iff)
  have lx: "page_data t ?x \<noteq> None" using t(2) by simp
  obtain s1 where s1: "upd_node ?x (pnext_update (\<lambda>_. phead t)) t = Some s1" "nxt s1 = (nxt t)(?x := phead t)" "prv s1 = prv t"
    "page_data s1 = page_data t" "phead s1 = phead t" "pbrk s1 = pbrk t" by (rule upd_next [OF lx])
  obtain s2 where s2: "(if phead s1 \<noteq> 0 then upd_node (phead s1) (pprev_update (\<lambda>_. ?x)) s1 else Some s1) = Some s2"
    "nxt s2 = nxt s1" "prv s2 = (if phead s \<noteq> 0 then (prv t)(phead s := ?x) else prv t)"
    "page_data s2 = page_data t" "phead s2 = phead t" "pbrk s2 = pbrk t"
  proof (cases "phead s = 0")
    case False
    then have "phead s \<in> set xs" using r(6) by (cases xs) auto
    then have "page_data s1 (phead s1) \<noteq> None" using r(2) s1 t by auto
    from upd_prev [OF this, of ?x] False s1 t(3) that show ?thesis by (metis (no_types, lifting))
  qed (use s1 t that in auto)
  have l2: "page_data s2 ?x \<noteq> None" using lx s2(4) by simp
  obtain s3 where s3: "upd_node ?x (pprev_update (\<lambda>_. 0)) s2 = Some s3" "prv s3 = (prv s2)(?x := 0)" "nxt s3 = nxt s2"
    "page_data s3 = page_data t" "phead s3 = phead t" "pbrk s3 = pbrk t"
    by (rule upd_prev [OF l2, of 0]) (use s2 in auto)
  let ?s = "s3\<lparr>phead := ?x\<rparr>"
  have h: "phead s \<noteq> ?x" using new(2) r(6) by (cases xs) auto
  have "dl_rep (plist ?s (?x # xs)) (?x # xs) = dl_rep (push_front ?x (plist s xs)) (?x # xs)"
    using t(3,5) s1(2,3) s2(2,3) s3(2,3) h r(6,8)
    by (intro dl_rep_cong) (cases xs; auto simp: plist_def push_front_def Let_def)+
  then have "dl_rep (plist ?s (?x # xs)) (?x # xs)" using push_front_rep [OF r(1), of ?x] new(2) by simp
  moreover have pd: "page_data ?s = (page_data s)(?x \<mapsto> (path, n, ?b))" using s3(4) t(2) by simp
  moreover have "inj_on (page_key ?s) (set (?x # xs))"
  proof -
    have k: "page_key ?s y = (if y = ?x then Some (path, n) else page_key s y)" for y unfolding page_key_data pd by simp
    have "inj_on (page_key ?s) (set xs)" using r(3) new(2) unfolding inj_on_def k by auto
    moreover have "page_key ?s ?x \<notin> page_key ?s ` set xs" using miss new(2) unfolding image_def k by auto
    ultimately show ?thesis by auto
  qed
  ultimately have "proto_rep ?s (?x # xs)"
    using r(2,4) s3(6) t(4) unfolding proto_rep_def pd by (fastforce split: if_splits)
  moreover have "cacheLoop u path n fsp f s = Some (?x, ?s)"
    using fnd t(1,3) s1(1,5) s2(1) s3(1) by (simp add: cacheLoop_def Let_def split: if_splits)
  ultimately show ?thesis using pd new(2) by blast
qed

section \<open>Access to a page\<close>

definition at_front :: "pcache \<Rightarrow> string \<Rightarrow> int \<Rightarrow> bool" where
  "at_front s path n \<longleftrightarrow> phead s \<noteq> 0 \<and> page_key s (phead s) = Some (path, n)"

lemma shows_file_slice:
  assumes "shows_file f (int p) b" "st + n \<le> 1023" "p * 1023 + st + n \<le> length f"
  shows "bslice st n b = bslice (p * 1023 + st) n f" "length b = 1023"
proof -
  have t: "take (length f - p * 1023) b = bslice (p * 1023) 1023 f" and l: "length b = 1023"
    using assms(1) by (simp_all add: shows_file_def)
  have "st + n \<le> length f - p * 1023" using assms(3) by simp
  then have "bslice st n b = bslice st n (take (length f - p * 1023) b)" by (simp add: bslice_def drop_take)
  then show "bslice st n b = bslice (p * 1023 + st) n f" using assms(2) by (simp add: t bslice_bslice)
  show "length b = 1023" by (rule l)
qed

lemma load_page_shows:
  assumes "p < fsp \<or> length f \<le> p * 1023"
  shows "shows_file f (int p) (load_page g (int p) (int fsp) f)"
proof (cases "p < fsp")
  case True
  then have l: "load_page g (int p) (int fsp) f = into_buffer (bslice (p * 1023) 1023 f) (stack_bytes 1023 g)"
    by (simp add: load_page_def Let_def nat_mult_distrib)
  show ?thesis unfolding l into_buffer_def shows_file_def by (auto simp: bslice_def stack_bytes_def min_def)
next
  case False
  then show ?thesis using assms by (simp add: shows_file_def load_page_def bslice_def)
qed

text \<open>
  A page that is not the last one used is returned with what the file holds, and is then
  the last one used, whether it was in the cache or not.
\<close>

lemma cacheLoop_access:
  assumes rep: "proto_rep s xs" and coh: "coherent s xs path f" and front: "\<not> at_front s path (int p)"
    and fsp: "p < fsp \<or> length f \<le> p * 1023"
  obtains x s' ys b where "cacheLoop u path (int p) (int fsp) f s = Some (x, s')" "proto_rep s' (x # ys)"
    "coherent s' (x # ys) path f" "page_data s' x = Some (path, int p, b)" "shows_file f (int p) b"
proof (cases "\<forall>x \<in> set xs. page_key s x \<noteq> Some (path, int p)")
  case True
  let ?x = "pbrk s + 1"
  from cacheLoop_miss [OF rep True, of u "int fsp" f] obtain s' where
    c: "cacheLoop u path (int p) (int fsp) f s = Some (?x, s')" "proto_rep s' (?x # xs)"
    "page_data s' = (page_data s)(?x \<mapsto> (path, int p, load_page (u (pbrk s)) (int p) (int fsp) f))" "?x \<notin> set xs" by blast
  have l: "shows_file f (int p) (load_page (u (pbrk s)) (int p) (int fsp) f)" using load_page_shows [OF fsp] .
  have "coherent s' (?x # xs) path f" using coh l c(4) unfolding coherent_def c(3) by auto
  then show ?thesis using that [OF c(1,2)] l c(3) by simp
next
  case False
  note r = proto_repD [OF rep]
  from False obtain e where e: "e \<in> set xs" "page_key s e = Some (path, int p)" by blast
  then obtain as bs where xs: "xs = as @ e # bs" by (meson split_list)
  have "as \<noteq> []"
  proof
    assume "as = []"
    then show False using front e r(6,8) xs by (simp add: at_front_def)
  qed
  from touch_node_front [OF rep [unfolded xs] this] obtain s' where
    t: "touch_node e s = Some s'" "proto_rep s' (e # as @ bs)" "page_data s' = page_data s" by blast
  have "cache_find path (int p) (phead s) s = Some e" using find_hit [OF r(9,2,3) e] .
  moreover have "e \<noteq> 0" using e(1) r(8) by metis
  ultimately have c: "cacheLoop u path (int p) (int fsp) f s = Some (e, s')" using t(1) by (simp add: cacheLoop_def)
  obtain b where b: "page_data s e = Some (path, int p, b)" using e(2) by (auto simp: page_key_data)
  have "coherent s' (e # as @ bs) path f" using coh unfolding coherent_def t(3) xs by auto
  moreover have "shows_file f (int p) b" using coh e(1) b by (auto simp: coherent_def)
  ultimately show ?thesis using that [OF c t(2)] t(3) b by simp
qed

lemma at_front_page:
  assumes "proto_rep s (x # ys)" "page_data s x = Some (path, n, b)"
  shows "at_front s path m \<longleftrightarrow> m = n"
  using proto_repD(6,8) [OF assms(1)] assms(2) by (auto simp: at_front_def page_key_data)

section \<open>Reading\<close>

text \<open>How many bytes the first \<open>i\<close> pages of a read give.\<close>

definition read_upto :: "nat \<Rightarrow> nat \<Rightarrow> nat \<Rightarrow> nat" where
  "read_upto siz sd i = min siz (i * 1023 - sd)"

definition pages_of :: "nat \<Rightarrow> nat \<Rightarrow> nat" where
  "pages_of sd siz = (sd + siz + 1022) div 1023"

lemma pages_of_bounds: "i < pages_of sd siz \<Longrightarrow> i * 1023 < sd + siz" "sd + siz \<le> pages_of sd siz * 1023"
proof -
  let ?t = "sd + siz + 1022"
  have q: "?t div 1023 * 1023 \<le> ?t" "?t < 1023 + ?t div 1023 * 1023"
    by (rule div_times_less_eq_dividend) (rule dividend_less_times_div [of 1023 ?t, unfolded mult.commute [of 1023]], simp)
  show "sd + siz \<le> pages_of sd siz * 1023" using q(2) by (simp add: pages_of_def)
  show "i * 1023 < sd + siz" if "i < pages_of sd siz"
  proof -
    have "(i + 1) * 1023 \<le> pages_of sd siz * 1023" using that by (intro mult_le_mono1) simp
    then show ?thesis using q(1) by (simp add: pages_of_def)
  qed
qed

lemma read_range_upto:
  assumes "sd < 1023" "np = pages_of sd siz" "i < np" "ed = (siz + sd) mod 1023"
  shows "read_range (int np) (int siz) (int sd) (int ed) (int i)
    = (if i = 0 then int sd else 0, int (read_upto siz sd (i + 1) - read_upto siz sd i))"
proof -
  have lo: "i * 1023 < sd + siz" and hi: "sd + siz \<le> np * 1023" using pages_of_bounds assms by simp_all
  consider "np = 1" | "np \<noteq> 1" "i = 0" | "np \<noteq> 1" "0 < i" "i = np - 1" | "np \<noteq> 1" "0 < i" "i < np - 1" using assms(3) by linarith
  then show ?thesis
  proof cases
    case 1
    then have "sd + siz \<le> 1023" using hi by simp
    then show ?thesis using 1 assms(3) by (simp add: read_range_def read_upto_def)
  next
    case 2
    then have "1 < np" using assms(3) by simp
    then have "1 * 1023 < sd + siz" using pages_of_bounds(1) [of 1 sd siz] assms(2) by simp
    then show ?thesis using 2 assms(1) by (simp add: read_range_def read_upto_def of_nat_diff)
  next
    case 3
    have u: "read_upto siz sd (i + 1) = siz" "read_upto siz sd i = i * 1023 - sd"
      using lo hi 3 assms(1) by (simp_all add: read_upto_def)
    have "ed = (if sd + siz = np * 1023 then 0 else sd + siz - i * 1023)"
    proof (cases "sd + siz = np * 1023")
      case False
      then have "sd + siz - i * 1023 < 1023" using hi 3 by auto
      moreover have "sd + siz = (sd + siz - i * 1023) + i * 1023" using lo by simp
      ultimately have "(siz + sd) mod 1023 = sd + siz - i * 1023" by (metis add.commute mod_less mod_mult_self1)
      then show ?thesis using False assms(4) by simp
    qed (use assms(4) in \<open>simp add: add.commute\<close>)
    moreover have "siz - (i * 1023 - sd) = sd + siz - i * 1023" using 3 assms(1) by (cases i) simp_all
    moreover have "sd + siz - i * 1023 = 1023" if "sd + siz = np * 1023" using that 3 by (cases np) simp_all
    ultimately show ?thesis using 3 u lo by (auto simp: read_range_def of_nat_diff)
  next
    case 4
    then have "(i + 1) * 1023 < sd + siz" using pages_of_bounds(1) [of "i + 1" sd siz] assms(2) by simp
    then show ?thesis using 4 assms(1) by (cases i) (auto simp: read_range_def read_upto_def)
  qed
qed

lemma bslice_extend: "bslice a m f @ bslice (a + m) n f = bslice a (m + n) f"
  by (simp add: bslice_def take_add add.commute)

lemma read_upto_page:
  assumes "sd < 1023" "i < pages_of sd siz"
  shows "read_upto siz sd i \<le> read_upto siz sd (i + 1)" "read_upto siz sd (i + 1) \<le> siz"
    "(if i = 0 then sd else 0) + (read_upto siz sd (i + 1) - read_upto siz sd i) \<le> 1023"
    "(sp + i) * 1023 + (if i = 0 then sd else 0) = sp * 1023 + sd + read_upto siz sd i"
  using pages_of_bounds(1) [OF assms(2)] assms(1) by (cases i; auto simp: read_upto_def algebra_simps)+

lemma read_pages_slice:
  assumes sd: "sd < 1023" and off: "offset = sp * 1023 + sd" "offset + siz \<le> length f"
    and np: "np = pages_of sd siz" and fsp: "fsp = pages_of 0 (length f)" and ed: "ed = (siz + sd) mod 1023"
    and "n \<le> np" "proto_rep s xs" "coherent s xs path f" "\<not> at_front s path (int (sp + (np - n)))"
    "out = bslice offset (read_upto siz sd (np - n)) f"
  shows "\<exists>s' ys. read_pages u path f (int fsp) (int siz) (int sd) (int ed) (int np) (int sp) n out s = Some (bslice offset siz f, s')
    \<and> proto_rep s' ys \<and> coherent s' ys path f"
  using assms(7-11)
proof (induction n arbitrary: s xs out)
  case 0
  have "read_upto siz sd np = siz" using pages_of_bounds(2) [of sd siz] np by (simp add: read_upto_def)
  then show ?case using 0 by auto
next
  case (Suc n)
  define i where "i = np - Suc n"
  have i: "i < np" "int np - int (Suc n) = int i" "np - n = i + 1" using Suc.prems(1) by (simp_all add: i_def)
  let ?st = "if i = 0 then sd else 0" and ?to = "read_upto siz sd (i + 1) - read_upto siz sd i"
  note up = read_upto_page [OF sd i(1) [unfolded np]]
  have p: "(sp + i) * 1023 + ?st + ?to \<le> length f" using up(1,2,4) off by simp
  have "sp + i < fsp"
  proof -
    have "i * 1023 < sd + siz" using pages_of_bounds(1) i(1) np by simp
    then have "(sp + i) * 1023 < length f" using off by (simp add: algebra_simps)
    also have "\<dots> \<le> fsp * 1023" using pages_of_bounds(2) [of 0 "length f"] fsp by simp
    finally show ?thesis by simp
  qed
  then have pf: "sp + i < fsp \<or> length f \<le> (sp + i) * 1023" ..
  obtain x s' ys b where c: "cacheLoop u path (int (sp + i)) (int fsp) f s = Some (x, s')" "proto_rep s' (x # ys)"
    "coherent s' (x # ys) path f" "page_data s' x = Some (path, int (sp + i), b)" "shows_file f (int (sp + i)) b"
    by (rule cacheLoop_access [OF Suc.prems(2,3,4) [folded i_def] pf])
  note ld = shows_file_slice [OF c(5) up(3) p]
  obtain nd where nd: "pnodes s' x = Some nd" "ppage nd = b" using c(4) by (auto simp: page_data_def)
  have rr: "read_range (int np) (int siz) (int sd) (int ed) (int i) = (int ?st, int ?to)"
    using read_range_upto [OF sd np i(1) ed] by simp
  have ok: "int ?st + int ?to \<le> int (length (ppage nd))" using up(3) ld(2) nd(2) by simp
  let ?out = "out @ bslice ?st ?to (ppage nd)"
  have "?out = bslice offset (read_upto siz sd (np - n)) f"
  proof -
    have "bslice ?st ?to (ppage nd) = bslice (offset + read_upto siz sd i) ?to f"
      unfolding nd(2) ld(1) up(4) off(1) ..
    then show ?thesis using Suc.prems(5) bslice_extend [of offset "read_upto siz sd i" f ?to] up(1) i(3) by (simp add: i_def)
  qed
  moreover have "\<not> at_front s' path (int (sp + (np - n)))" using at_front_page [OF c(2,4)] i(3) by simp
  ultimately have "\<exists>s'' ys'. read_pages u path f (int fsp) (int siz) (int sd) (int ed) (int np) (int sp) n ?out s' = Some (bslice offset siz f, s'')
      \<and> proto_rep s'' ys' \<and> coherent s'' ys' path f"
    using Suc.IH [of s' "x # ys" ?out] Suc.prems(1) c(2,3) by simp
  then show ?case
    using c(1) nd(1) rr ok i(2) by (simp del: of_nat_Suc)
qed

lemma pages_of_int:
  assumes "sd + siz + 1023 < 2 ^ 31"
  shows "int32 ((int sd + 1023 + int siz - 1) sdiv 1023) = int (pages_of sd siz)"
    "(int siz + 1023 - 1) sdiv 1023 = int (pages_of 0 siz)"
proof -
  have e: "int sd + 1023 + int siz - 1 = int (sd + siz + 1022)" by simp
  have "pages_of sd siz \<le> sd + siz + 1022" by (simp add: pages_of_def)
  then have "is_int32 (int (pages_of sd siz))" using assms by (simp add: is_int32_def)
  moreover have "(int sd + 1023 + int siz - 1) sdiv 1023 = int (pages_of sd siz)"
    unfolding e by (simp add: sdiv_nonneg pages_of_def zdiv_int)
  ultimately show "int32 ((int sd + 1023 + int siz - 1) sdiv 1023) = int (pages_of sd siz)" by simp
  have "int siz + 1023 - 1 = int (0 + siz + 1022)" by simp
  then show "(int siz + 1023 - 1) sdiv 1023 = int (pages_of 0 siz)" by (simp add: sdiv_nonneg pages_of_def zdiv_int)
qed

lemma page_and_start:
  assumes "offset < 2 ^ 31"
  shows "int32 (int offset sdiv 1023) = int (offset div 1023)" "int offset smod 1023 = int (offset mod 1023)"
proof -
  have "offset div 1023 \<le> offset" by simp
  then have "is_int32 (int (offset div 1023))" using assms by (simp add: is_int32_def)
  then show "int32 (int offset sdiv 1023) = int (offset div 1023)" by (simp add: sdiv_nonneg zdiv_int)
  show "int offset smod 1023 = int (offset mod 1023)" by (simp add: smod_nonneg zmod_int)
qed

text \<open>
  C37. If the first page to read is not the one at the head of the list (the one used last), reading
  by pages through the cache gives what reading the file at once gives: the bytes from the
  offset on, as many as were asked for or as are left in the file, and their number; nothing
  behind the end of the file. The cached pages show the file before and after. (A hit on the
  page at the head makes the list cyclic, \<open>head_hit_never_ends\<close>.) The file ends at
  least 2046 bytes before 2 ^ 31.
\<close>

theorem paged_read_slice:
  assumes "proto_rep s xs" "coherent s xs path f" "length f + 2046 < 2 ^ 31" "\<not> at_front s path (int (offset div 1023))"
  shows "\<exists>s' ys. paged_read u path siz offset f s =
      Some (int (min siz (length f - offset)), bslice offset siz f, s') \<and> proto_rep s' ys \<and> coherent s' ys path f"
proof (cases "offset > length f")
  case True
  have "is_int32 (int (length f))" using assms(3) by (simp add: is_int32_def)
  then show ?thesis using True assms by (auto simp: paged_read_def Let_def bslice_def)
next
  case False
  define n where "n = min siz (length f - offset)"
  define sd where "sd = offset mod 1023"
  define np where "np = pages_of sd n"
  have L: "is_int32 (int (length f))" using assms(3) by (simp add: is_int32_def)
  have sd: "sd < 1023" by (simp add: sd_def)
  have off: "offset = offset div 1023 * 1023 + sd" by (simp add: sd_def)
  have n: "offset + n \<le> length f" "n \<le> siz" using False by (simp_all add: n_def)
  have siz: "(if int offset + int siz > int (length f) then int (length f) - int offset else int siz) = int n"
    using False by (auto simp: n_def)
  have b: "sd + n + 1023 < 2 ^ 31" "offset < 2 ^ 31" using assms(3) sd n by simp_all
  have ed: "(int n + int offset) smod 1023 = int ((n + sd) mod 1023)"
  proof -
    have "(n + offset) mod 1023 = (n + sd) mod 1023" unfolding sd_def by (simp add: mod_add_right_eq)
    then have "int (n + offset) mod 1023 = int ((n + sd) mod 1023)" by (metis of_nat_mod of_nat_numeral)
    then show ?thesis using smod_nonneg [of "int (n + offset)" 1023] by simp
  qed
  have "\<exists>s' ys. read_pages u path f (int (pages_of 0 (length f))) (int n) (int sd) (int ((n + sd) mod 1023)) (int np)
      (int (offset div 1023)) np [] s = Some (bslice offset n f, s') \<and> proto_rep s' ys \<and> coherent s' ys path f"
    by (rule read_pages_slice [OF sd off n(1) np_def refl refl le_refl assms(1,2)])
      (use assms(4) in \<open>simp_all add: bslice_def read_upto_def\<close>)
  moreover have "length (bslice offset n f) = n" using n(1) by (simp add: bslice_def)
  moreover have "bslice offset n f = bslice offset siz f" using n by (auto simp: bslice_def n_def min_def)
  moreover have "0 + length f + 1023 < 2 ^ 31" using assms(3) by simp
  ultimately show ?thesis
    using False L siz ed page_and_start [OF b(2), folded sd_def] pages_of_int(1) [OF b(1)] pages_of_int(2) [of 0 "length f"]
    by (auto simp: paged_read_def Let_def np_def n_def [symmetric])
qed

section \<open>Writing\<close>

lemma file_write_patch: "off \<le> length f \<Longrightarrow> file_write off d f = patch off d f"
  by (simp add: file_write_def patch_def)

lemma patch_length: "off \<le> length f \<Longrightarrow> length (patch off d f) = max (length f) (off + length d)"
  by (simp add: patch_def)

lemma patch_extend:
  assumes "off \<le> length f"
  shows "patch (off + length a) c (patch off a f) = patch off (a @ c) f"
  using assms by (simp add: patch_def ac_simps)

lemma patch_nth:
  assumes "off \<le> length f" "k < max (length f) (off + length d)"
  shows "patch off d f ! k = (if off \<le> k \<and> k < off + length d then d ! (k - off) else f ! k)"
  using assms by (auto simp: patch_def nth_append min_def)

text \<open>Writing a changed page back changes the file where the page was changed.\<close>

lemma write_page_patch:
  assumes sh: "shows_file f (int p) b" and st: "st + length c \<le> 1023" "p * 1023 + st \<le> length f"
    and t: "t \<le> 1023" "st + length c \<le> t" "p * 1023 + t \<le> max (length f) (p * 1023 + st + length c)"
  shows "patch (p * 1023) (take t (patch st c b)) f = patch (p * 1023 + st) c f"
    "shows_file (patch (p * 1023 + st) c f) (int p) (patch st c b)"
proof -
  have l: "length b = 1023" and pl: "length (patch st c b) = 1023"
    using sh st(1) by (simp_all add: shows_file_def patch_length)
  have bf: "b ! i = f ! (p * 1023 + i)" if "i < 1023" "p * 1023 + i < length f" for i
  proof -
    have "bslice i 1 b = bslice (p * 1023 + i) 1 f" by (rule shows_file_slice [OF sh]) (use that in simp_all)
    then show ?thesis using that l by (simp add: bslice_def take_Suc_conv_app_nth)
  qed
  have tl: "length (take t (patch st c b)) = t" using pl t(1) by simp
  have le: "max (length f) (p * 1023 + t) = max (length f) (p * 1023 + st + length c)" using t(2,3) by simp
  show "patch (p * 1023) (take t (patch st c b)) f = patch (p * 1023 + st) c f"
  proof (rule nth_equalityI)
    show "length (patch (p * 1023) (take t (patch st c b)) f) = length (patch (p * 1023 + st) c f)"
      using st(2) tl le by (simp add: patch_length del: length_take)
  next
    fix k assume "k < length (patch (p * 1023) (take t (patch st c b)) f)"
    then have k: "k < max (length f) (p * 1023 + t)" using st(2) tl by (simp add: patch_length del: length_take)
    have "patch (p * 1023) (take t (patch st c b)) f ! k
        = (if p * 1023 \<le> k \<and> k < p * 1023 + t then patch st c b ! (k - p * 1023) else f ! k)"
      using patch_nth [of "p * 1023" f k "take t (patch st c b)"] k st(2) tl by (auto simp: less_diff_conv2)
    also have "\<dots> = (if p * 1023 + st \<le> k \<and> k < p * 1023 + st + length c then c ! (k - (p * 1023 + st)) else f ! k)"
      using patch_nth [of st b "k - p * 1023" c] l t st k bf [of "k - p * 1023"] by (auto simp: le_diff_conv2)
    also have "\<dots> = patch (p * 1023 + st) c f ! k" using patch_nth [OF st(2), of k c] k le by simp
    finally show "patch (p * 1023) (take t (patch st c b)) f ! k = patch (p * 1023 + st) c f ! k" .
  qed
  have "take (length (patch (p * 1023 + st) c f) - p * 1023) (patch st c b) = bslice (p * 1023) 1023 (patch (p * 1023 + st) c f)"
  proof (rule nth_equalityI)
    show "length (take (length (patch (p * 1023 + st) c f) - p * 1023) (patch st c b))
        = length (bslice (p * 1023) 1023 (patch (p * 1023 + st) c f))"
      using pl by (simp add: bslice_def min_def)
  next
    fix i assume i: "i < length (take (length (patch (p * 1023 + st) c f) - p * 1023) (patch st c b))"
    then have i: "i < 1023" "p * 1023 + i < max (length f) (p * 1023 + st + length c)"
      using pl st(2) by (simp_all add: patch_length less_diff_conv add.commute)
    have "patch st c b ! i = (if st \<le> i \<and> i < st + length c then c ! (i - st) else b ! i)"
      using patch_nth [of st b i c] l st(1) i(1) by simp
    also have "\<dots> = patch (p * 1023 + st) c f ! (p * 1023 + i)"
      using patch_nth [OF st(2), of "p * 1023 + i" c] i bf [of i] st(2) by auto
    finally show "take (length (patch (p * 1023 + st) c f) - p * 1023) (patch st c b) ! i
        = bslice (p * 1023) 1023 (patch (p * 1023 + st) c f) ! i"
      using i st(2) by (simp add: bslice_def patch_length)
  qed
  then show "shows_file (patch (p * 1023 + st) c f) (int p) (patch st c b)" using pl by (simp add: shows_file_def)
qed

lemma shows_file_other:
  assumes "shows_file f m b" "m \<noteq> int p" "st + length c \<le> 1023" "p * 1023 + st \<le> length f"
  shows "shows_file (patch (p * 1023 + st) c f) m b"
proof -
  obtain k where m: "m = int k" "length b = 1023" "take (length f - k * 1023) b = bslice (k * 1023) 1023 f"
    using assms(1) by (metis nat_0_le shows_file_def)
  let ?f = "patch (p * 1023 + st) c f"
  have l: "length ?f = max (length f) (p * 1023 + st + length c)" using patch_length [OF assms(4)] .
  consider "k < p" | "p < k" using assms(2) m(1) by linarith
  then have "take (length ?f - k * 1023) b = bslice (k * 1023) 1023 ?f"
  proof cases
    case 1
    then have "(k + 1) * 1023 \<le> p * 1023" by (intro mult_le_mono1) simp
    then have "k * 1023 + 1023 \<le> p * 1023 + st" "1023 \<le> length f - k * 1023" "1023 \<le> length ?f - k * 1023" using assms(4) l by simp_all
    then show ?thesis using m(2,3) assms(4) by (simp add: bslice_patch_before)
  next
    case 2
    then have "(p + 1) * 1023 \<le> k * 1023" by (intro mult_le_mono1) simp
    then have k: "p * 1023 + st + length c \<le> k * 1023" using assms(3) by simp
    then have "length ?f - k * 1023 = length f - k * 1023" using l by simp
    moreover have "drop (k * 1023) ?f = drop (k * 1023) f"
    proof -
      have "drop (p * 1023 + st + length c) ?f = drop (p * 1023 + st + length c) f" using assms(4) by (simp add: patch_def)
      then have "drop (k * 1023 - (p * 1023 + st + length c)) (drop (p * 1023 + st + length c) ?f)
          = drop (k * 1023 - (p * 1023 + st + length c)) (drop (p * 1023 + st + length c) f)" by simp
      then show ?thesis using k by simp
    qed
    ultimately show ?thesis using m(3) by (simp add: bslice_def)
  qed
  then show ?thesis using m by (simp add: shows_file_def)
qed

text \<open>Changing the page at the head of the list and the file alike.\<close>

lemma write_page_rep:
  assumes rep: "proto_rep s (x # ys)" and coh: "coherent s (x # ys) path f" and pd: "page_data s x = Some (path, int p, b)"
    and st: "st + length c \<le> 1023" "p * 1023 + st \<le> length f" and sh: "shows_file (patch (p * 1023 + st) c f) (int p) (patch st c b)"
  obtains s' nd where "upd_node x (\<lambda>nd. nd\<lparr>ppage := patch st c (ppage nd)\<rparr>) s = Some s'" "pnodes s' x = Some nd" "ppage nd = patch st c b"
    "page_data s' x = Some (path, int p, patch st c b)" "proto_rep s' (x # ys)" "coherent s' (x # ys) path (patch (p * 1023 + st) c f)"
proof -
  obtain n0 where n0: "pnodes s x = Some n0" "ppath n0 = path" "ppageNum n0 = int p" "ppage n0 = b"
    using pd by (auto simp: page_data_def)
  define s' where "s' = s\<lparr>pnodes := (pnodes s)(x \<mapsto> n0\<lparr>ppage := patch st c b\<rparr>)\<rparr>"
  have v: "page_data s' = (page_data s)(x \<mapsto> (path, int p, patch st c b))" "page_key s' = page_key s" "plist s' = plist s" "pbrk s' = pbrk s"
    using n0 by (auto simp: s'_def page_data_def page_key_def plist_def nxt_def prv_def fun_eq_iff)
  note r = proto_repD [OF rep]
  have "proto_rep s' (x # ys)" using rep r(4) [of x] pd unfolding proto_rep_def v by auto
  moreover have "coherent s' (x # ys) path (patch (p * 1023 + st) c f)"
    unfolding coherent_def v(1)
  proof (intro ballI allI impI)
    fix y m b' assume y: "y \<in> set (x # ys)" "((page_data s)(x \<mapsto> (path, int p, patch st c b))) y = Some (path, m, b')"
    show "shows_file (patch (p * 1023 + st) c f) m b'"
    proof (cases "y = x")
      case False
      then have d: "page_data s y = Some (path, m, b')" using y(2) by simp
      have "m \<noteq> int p"
      proof
        assume "m = int p"
        then have "page_key s y = page_key s x" using d pd by (simp add: page_key_data)
        then show False using r(3) y(1) False by (auto simp: inj_on_def)
      qed
      moreover have "shows_file f m b'" using coh y(1) d by (auto simp: coherent_def)
      ultimately show ?thesis using shows_file_other st by blast
    qed (use y sh in auto)
  qed
  ultimately show ?thesis
    by (intro that [of s' "n0\<lparr>ppage := patch st c b\<rparr>"]) (use n0 v in \<open>simp_all add: s'_def upd_node_def\<close>)
qed

lemma write_end:
  assumes "sd < 1023" "np = pages_of sd siz" "i < np" "le = (siz + sd) mod 1023" "le \<noteq> 0"
  shows "(if i + 1 = np then le else 1023) = (if i = 0 then sd else 0) + (read_upto siz sd (i + 1) - read_upto siz sd i)"
proof (cases "i + 1 = np")
  case True
  have lo: "i * 1023 < sd + siz" and hi: "sd + siz \<le> (i + 1) * 1023" using pages_of_bounds assms(2,3) True by metis+
  define v where "v = sd + siz - i * 1023"
  have v: "v \<le> 1023" "siz + sd = v + i * 1023" using lo hi by (simp_all add: v_def)
  then have "le = v mod 1023" using assms(4) by simp
  then have "v \<noteq> 1023" using assms(5) by auto
  then have "le = v" using v(1) \<open>le = v mod 1023\<close> by simp
  moreover have "(if i = 0 then sd else 0) + (read_upto siz sd (i + 1) - read_upto siz sd i) = v"
    using lo hi assms(1) by (cases i) (auto simp: read_upto_def v_def)
  ultimately show ?thesis using True by simp
next
  case False
  then have "(i + 1) * 1023 < sd + siz" using pages_of_bounds(1) [of "i + 1" sd siz] assms(2,3) by simp
  then show ?thesis using False assms(1) by (cases i) (auto simp: read_upto_def)
qed

lemma write_pages_file:
  assumes sd: "sd < 1023" and off: "offset = sp * 1023 + sd" "offset \<le> length f0"
    and np: "np = pages_of sd (length d0)" and fsp: "fsp = pages_of 0 (length f0)"
    and fin: "fin = max (length f0) (offset + length d0)" and le: "le = (length d0 + sd) mod 1023" "le \<noteq> 0"
    and "n \<le> np" "proto_rep s xs" "coherent s xs path f" "\<not> at_front s path (int (sp + (np - n)))"
    "f = patch offset (take (read_upto (length d0) sd (np - n)) d0) f0" "d = drop (read_upto (length d0) sd (np - n)) d0"
    "res = int (read_upto (length d0) sd (np - n))" "start = (if n = np then int sd else 0)"
  shows "\<exists>s' ys. write_pages u path err (int fsp) (int fin) (int le) (int np) (int sp) n start d res f s
      = Some (int (length d0), patch offset d0 f0, s') \<and> proto_rep s' ys \<and> coherent s' ys path (patch offset d0 f0)"
  using assms(9-16)
proof (induction n arbitrary: s xs f d res start)
  case 0
  have "read_upto (length d0) sd np = length d0" using pages_of_bounds(2) [of sd "length d0"] np by (simp add: read_upto_def)
  then show ?case using 0 by auto
next
  case (Suc n)
  define i where "i = np - Suc n"
  have i: "i < np" "int np - int (Suc n) = int i" "np - n = i + 1" "i + 1 = np \<longleftrightarrow> n = 0" using Suc.prems(1) by (auto simp: i_def)
  define dn where "dn = read_upto (length d0) sd i"
  define to where "to = read_upto (length d0) sd (i + 1) - dn"
  define st where "st = (if i = 0 then sd else 0)"
  define c where "c = take to d"
  define p where "p = sp + i"
  note up = read_upto_page [OF sd i(1) [unfolded np], folded dn_def, folded to_def st_def]
  have ps: "p * 1023 + st = offset + dn" using up(4) [of sp] off(1) by (simp add: p_def)
  have dn: "dn + to \<le> length d0" "read_upto (length d0) sd (np - n) = dn + to" using up(1,2) i(3) by (simp_all add: to_def)
  have f: "f = patch offset (take dn d0) f0" and d: "d = drop dn d0" using Suc.prems(5,6) by (simp_all add: dn_def i_def)
  have lc: "length c = to" "c = take to (drop dn d0)" using dn(1) d by (simp_all add: c_def)
  have lf: "length f = max (length f0) (offset + dn)" using patch_length [OF off(2)] dn(1) by (simp add: f)
  have start: "start = int st" using Suc.prems(1,8) by (auto simp: st_def i_def)
  have we: "(if n = 0 then int le else 1023) - int st = int to" 
    using write_end [OF sd np i(1) le, folded dn_def, folded to_def st_def] i(4) by (auto split: if_splits)
  have low: "p * 1023 < offset + length d0" using pages_of_bounds(1) [of i sd "length d0"] i(1) np off(1) by (simp add: p_def algebra_simps)
  have pf: "p < fsp \<or> length f \<le> p * 1023"
  proof (cases "p < fsp")
    case False
    then have "length f0 \<le> p * 1023" using pages_of_bounds(2) [of 0 "length f0"] fsp mult_le_mono1 [of fsp p 1023] by simp
    moreover have "dn = 0" if "i = 0" using that by (simp add: dn_def read_upto_def)
    ultimately show ?thesis using lf ps off by (cases "i = 0") (auto simp: st_def)
  qed simp
  have front: "\<not> at_front s path (int p)" using Suc.prems(4) by (simp add: p_def i_def)
  obtain x s1 ys b where a: "cacheLoop u path (int p) (int fsp) f s = Some (x, s1)" "proto_rep s1 (x # ys)"
    "coherent s1 (x # ys) path f" "page_data s1 x = Some (path, int p, b)" "shows_file f (int p) b"
    by (rule cacheLoop_access [OF Suc.prems(2,3) front pf])
  define t where "t = min 1023 (fin - p * 1023)"
  have c1: "st + length c \<le> 1023" and c2: "p * 1023 + st \<le> length f" using up(3) lc(1) ps lf by simp_all
  have t: "t \<le> 1023" "st + length c \<le> t" "p * 1023 + t \<le> max (length f) (p * 1023 + st + length c)"
  proof -
    show "t \<le> 1023" by (simp add: t_def)
    have "p * 1023 + st + length c \<le> fin" using ps dn(1) lc(1) fin by simp
    then show "st + length c \<le> t" using c1 by (simp add: t_def)
    show "p * 1023 + t \<le> max (length f) (p * 1023 + st + length c)"
    proof (cases "n = 0")
      case True
      then have "dn + to = length d0" using dn(2) pages_of_bounds(2) [of sd "length d0"] np by (simp add: read_upto_def)
      then have "fin \<le> max (length f) (p * 1023 + st + length c)" using fin lf ps lc(1) by (simp add: max_def)
      moreover have "p * 1023 + t \<le> fin" using low fin by (simp add: t_def)
      ultimately show ?thesis by simp
    next
      case False
      then show ?thesis using we lc(1) by (simp add: t_def)
    qed
  qed
  note wp = write_page_patch [OF a(5) c1 c2 t]
  obtain s2 nd where w: "upd_node x (\<lambda>nd. nd\<lparr>ppage := patch st c (ppage nd)\<rparr>) s1 = Some s2" "pnodes s2 x = Some nd" "ppage nd = patch st c b"
    "page_data s2 x = Some (path, int p, patch st c b)" "proto_rep s2 (x # ys)" "coherent s2 (x # ys) path (patch (p * 1023 + st) c f)"
    by (rule write_page_rep [OF a(2,3,4) c1 c2 wp(2)])
  let ?f = "patch (p * 1023 + st) c f"
  have fw: "file_write (p * 1023) (take t (patch st c b)) f = ?f" using file_write_patch [of "p * 1023" f] c2 wp(1) by simp
  have toW: "(if (int p + 1) * 1023 > int fin then int fin - int p * 1023 else 1023) = int t" using low fin by (auto simp: t_def)
  have "?f = patch offset (take (dn + to) d0) f0"
    using patch_extend [OF off(2), of "take dn d0" c] ps dn(1) lc(2) f by (simp add: take_add)
  moreover have "\<not> at_front s2 path (int (sp + (np - n)))" using at_front_page [OF w(5,4)] i(3) by (simp add: p_def)
  ultimately have "\<exists>s' ys. write_pages u path err (int fsp) (int fin) (int le) (int np) (int sp) n 0 (drop to d) (res + int to) ?f s2
      = Some (int (length d0), patch offset d0 f0, s') \<and> proto_rep s' ys \<and> coherent s' ys path (patch offset d0 f0)"
    by (intro Suc.IH [OF _ w(5,6)]) (use Suc.prems(1,7) d dn(2) i(3) in \<open>simp_all add: dn_def i_def add.commute\<close>)
  moreover have "int np - int (Suc n) + int sp = int p" "nat (int p * 1023) = p * 1023" using i(2) by (simp_all add: p_def nat_mult_distrib)
  ultimately show ?case
    using a(1) w(1-3) we start toW fw by (simp add: Let_def c_def del: of_nat_Suc)
qed

text \<open>
  Writing by pages through the cache is one write to the file: where the write does not
  start behind the end of the file and does not end at the end of a page, the number of
  bytes is returned, the file holds the data at the offset and is unchanged elsewhere, and
  the cached pages show the new file.
\<close>

theorem paged_write_file:
  assumes "proto_rep s xs" "coherent s xs path f" "\<not> at_front s path (int (offset div 1023))"
    "offset \<le> length f" "(offset + length d) mod 1023 \<noteq> 0" "length f + length d + 2046 < 2 ^ 31"
  shows "\<exists>s' ys. paged_write u path err d offset f s = Some (int (length d), file_write offset d f, s')
    \<and> proto_rep s' ys \<and> coherent s' ys path (file_write offset d f)"
proof -
  define sd where "sd = offset mod 1023"
  define np where "np = pages_of sd (length d)"
  define fin where "fin = max (length f) (offset + length d)"
  have L: "is_int32 (int (length f))" "is_int32 (int offset + int (length d))" using assms(4,6) by (simp_all add: is_int32_def)
  have sd: "sd < 1023" by (simp add: sd_def)
  have off: "offset = offset div 1023 * 1023 + sd" by (simp add: sd_def)
  have b: "sd + length d + 1023 < 2 ^ 31" "offset < 2 ^ 31" using assms(4,6) sd by simp_all
  have e: "(offset + length d) mod 1023 = (length d + sd) mod 1023" unfolding sd_def by (simp add: mod_add_right_eq add.commute [of offset])
  have le: "(int offset + int (length d)) smod 1023 = int ((length d + sd) mod 1023)"
  proof -
    have "int (offset + length d) mod 1023 = int ((length d + sd) mod 1023)" using e by (metis of_nat_mod of_nat_numeral)
    then show ?thesis using smod_nonneg [of "int (offset + length d)" 1023] by simp
  qed
  have "\<exists>s' ys. write_pages u path err (int (pages_of 0 (length f))) (int fin) (int ((length d + sd) mod 1023)) (int np)
      (int (offset div 1023)) np (int sd) d 0 f s = Some (int (length d), patch offset d f, s')
      \<and> proto_rep s' ys \<and> coherent s' ys path (patch offset d f)"
    by (rule write_pages_file [OF sd off assms(4) np_def refl fin_def refl _ le_refl assms(1,2)])
      (use assms(3,5) e in \<open>simp_all add: read_upto_def patch_def\<close>)
  moreover have "(if int offset + int (length d) > int (length f) then int32 (int offset + int (length d)) else int (length f)) = int fin"
    using L(2) by (auto simp: fin_def)
  moreover have "int sd + int (length d) + 1023 - 1 = int sd + 1023 + int (length d) - 1" by simp
  moreover have "0 + length f + 1023 < 2 ^ 31" using assms(6) by simp
  ultimately show ?thesis
    using L(1) le page_and_start [OF b(2), folded sd_def] pages_of_int(1) [OF b(1)] pages_of_int(2) [of 0 "length f"] file_write_patch [OF assms(4)]
    by (simp add: paged_write_def Let_def np_def)
qed

section \<open>Where the prototype goes wrong\<close>

lemma cache_find_self_loop:
  assumes "pnodes s h = Some nd" "pnext nd = h" "h \<noteq> 0" "(path, n) \<noteq> (ppath nd, ppageNum nd)"
  shows "cache_find path n h s = None"
proof (rule ccontr)
  assume "cache_find path n h s \<noteq> None"
  then obtain r where r: "cache_find path n h s = Some r" by auto
  have "path = path \<longrightarrow> n = n \<longrightarrow> h = h \<longrightarrow> s = s \<longrightarrow> False"
  proof (rule cache_find.raw_induct [OF _ r, where P = "\<lambda>p' n' h' s' r. p' = path \<longrightarrow> n' = n \<longrightarrow> h' = h \<longrightarrow> s' = s \<longrightarrow> False"])
    fix f p' n' h' s' r
    assume "\<And>p' n' h' s' r. f p' n' h' s' = Some r \<Longrightarrow> p' = path \<longrightarrow> n' = n \<longrightarrow> h' = h \<longrightarrow> s' = s \<longrightarrow> False"
      and "(if h' = 0 then Some 0 else case pnodes s' h' of None \<Rightarrow> None
        | Some nd \<Rightarrow> if p' = ppath nd \<and> n' = ppageNum nd then Some h' else f p' n' (pnext nd) s') = Some r"
    then show "p' = path \<longrightarrow> n' = n \<longrightarrow> h' = h \<longrightarrow> s' = s \<longrightarrow> False" using assms by (auto split: if_splits) blast+
  qed
  then show False by simp
qed

lemma touch_head:
  assumes rep: "proto_rep s (h # xs)"
  shows "\<exists>s' nd. touch_node h s = Some s' \<and> phead s' = h \<and> pnodes s' h = Some nd \<and> pnext nd = h
    \<and> (ppath nd, ppageNum nd, ppage nd) = the (page_data s h)"
proof -
  note r = proto_repD [OF rep]
  obtain nd where nd: "pnodes s h = Some nd" using r(2) by (auto simp: page_data_def)
  have h: "phead s = h" "h \<noteq> 0" "pprev nd = 0" "pnext nd = hd (xs @ [0])"
    using r(1,6,8) nd by (auto simp: dl_rep_def plist_def nxt_def prv_def)
  show ?thesis
  proof (cases xs)
    case Nil
    then show ?thesis using nd h by (simp add: touch_node_def upd_node_def page_data_def Let_def)
  next
    case (Cons y ys)
    then obtain ny where ny: "pnodes s y = Some ny" using r(2) by (auto simp: page_data_def)
    have y: "y \<noteq> 0" "y \<noteq> h" using r(7,8) Cons by auto
    then show ?thesis using Cons nd h ny by (simp add: touch_node_def upd_node_def page_data_def Let_def)
  qed
qed

text \<open>
  A request for the page at the head of the list, that is, for the page used last, is
  answered, but links the page to itself; the next request for any other page never ends.
\<close>

theorem head_hit_never_ends:
  assumes "proto_rep s (h # xs)" "page_data s h = Some (path, n, b)" "(path', n') \<noteq> (path, n)"
  shows "\<exists>s'. cacheLoop u path n fsp f s = Some (h, s') \<and> cacheLoop u' path' n' fsp' f' s' = None"
proof -
  note r = proto_repD [OF assms(1)]
  have "page_key s h = Some (path, n)" using assms(2) by (simp add: page_key_data)
  then have "cache_find path n (phead s) s = Some h" using find_hit [OF r(9,2,3)] by simp
  moreover from touch_head [OF assms(1)] obtain s' nd where t: "touch_node h s = Some s'" "phead s' = h" "pnodes s' h = Some nd"
    "pnext nd = h" "(ppath nd, ppageNum nd, ppage nd) = the (page_data s h)" by blast
  moreover have "h \<noteq> 0" using r(8) by auto
  moreover have "cache_find path' n' h s' = None"
    using cache_find_self_loop [OF t(3,4) \<open>h \<noteq> 0\<close>] t(5) assms(2,3) by simp
  ultimately show ?thesis by (simp add: cacheLoop_def)
qed

text \<open>The cache of a new mount.\<close>

definition empty_pcache :: pcache where
  "empty_pcache = \<lparr>phead = 0, pnodes = \<lambda>_. None, pbrk = 1\<rparr>"

lemma empty_pcache_rep [simp]: "proto_rep empty_pcache []" "coherent empty_pcache [] path f" "\<not> at_front empty_pcache path n"
  by (simp_all add: proto_rep_def dl_rep_def plist_def coherent_def at_front_def page_data_def empty_pcache_def)

theorem paged_read_slice_witness:
  "\<exists>s' ys. paged_read (\<lambda>_ _. 7) ''/a'' 4 1 [1, 2, 3] empty_pcache = Some (2, [2, 3], s') \<and> proto_rep s' ys \<and> coherent s' ys ''/a'' [1, 2, 3]"
  using paged_read_slice [of empty_pcache "[]" "''/a''" "[1, 2, 3]" 1 "\<lambda>_ _. 7" 4] by (simp add: bslice_def)

theorem paged_write_file_witness:
  "\<exists>s' ys. paged_write (\<lambda>_ _. 7) ''/a'' 5 [8, 9] 1 [1, 2] empty_pcache = Some (2, [1, 8, 9], s')
    \<and> proto_rep s' ys \<and> coherent s' ys ''/a'' [1, 8, 9]"
  using paged_write_file [of empty_pcache "[]" "''/a''" "[1, 2]" 1 "[8, 9]" "\<lambda>_ _. 7" 5] by (simp add: file_write_def)

text \<open>
  A write that ends at the end of a page loses what it should put there: a page written to
  an empty file fills it with zeros, and zero bytes are reported as written.
\<close>

theorem full_page_write_lost:
  assumes "length d = 1023"
  shows "\<exists>s'. paged_write u path err d 0 [] empty_pcache = Some (0, replicate 1023 0, s')"
proof -
  have b: "pbrk empty_pcache = 1" by (simp add: empty_pcache_def)
  obtain s1 where c: "cacheLoop u path 0 0 [] empty_pcache = Some (2, s1)"
    "page_data s1 = (page_data empty_pcache)(2 \<mapsto> (path, 0, load_page (u 1) 0 0 []))"
    using cacheLoop_miss [OF empty_pcache_rep(1), of path 0 u 0 "[]"] by (auto simp: b numeral_2_eq_2)
  obtain nd where nd: "pnodes s1 2 = Some nd" "ppage nd = replicate 1023 0"
    using fun_cong [OF c(2), of 2] by (auto simp: page_data_def load_page_def)
  have "(0::int) smod 1023 = 0" "(1022::int) sdiv 1023 = 0" "(2045::int) sdiv 1023 = 1" "(1023::int) smod 1023 = 0" "(0::int) sdiv 1023 = 0"
    by code_simp+
  moreover have "int32 0 = 0" "int32 1 = 1" "int32 1023 = 1023" by code_simp+
  ultimately show ?thesis
    using assms c(1) nd by (simp add: paged_write_def Let_def upd_node_def patch_def file_write_def)
qed

theorem full_page_write_lost_witness:
  "length (replicate 1023 (1 :: 8 word)) = 1023
    \<and> (\<exists>s'. paged_write (\<lambda>_ _. 7) ''/a'' 5 (replicate 1023 1) 0 [] empty_pcache = Some (0, replicate 1023 0, s'))"
  using full_page_write_lost [of "replicate 1023 1" "\<lambda>_ _. 7" "''/a''" 5] by simp

definition one_page :: pcache where
  "one_page = \<lparr>phead = 1, pnodes = [1 \<mapsto> \<lparr>pnext = 0, pprev = 0, ppath = ''/a'', ppageNum = 0, ppage = []\<rparr>], pbrk = 2\<rparr>"

theorem head_hit_never_ends_witness:
  "\<exists>s'. cacheLoop (\<lambda>_ _. 7) ''/a'' 0 1 [] one_page = Some (1, s') \<and> cacheLoop (\<lambda>_ _. 7) ''/a'' 1 1 [] s' = None"
proof (rule head_hit_never_ends)
  show "proto_rep one_page [1]"
    by (simp add: proto_rep_def dl_rep_def plist_def page_data_def one_page_def nxt_def prv_def)
qed (simp_all add: page_data_def one_page_def)

end
