(* ===== verification/Buffers.thy ===== *)
theory Buffers
  imports Cyc_Prelude "HOL-Library.Monad_Syntax"
begin

text \<open>
  Buffer vectors of the FUSE library, \<open>lib/buffer.c\<close>, through which \<open>xmp_write_buf\<close> of
  \<open>example/passthroughBlocked_fh.c\<close> hands the data of a request to the file.

  Memory is a function from addresses to bytes, so that buffers may overlap. Reading and
  writing file descriptors are operations on a world of type \<open>'w\<close>, given by a record
  \<open>fdio\<close>; a negative result stands for -1 with \<open>errno\<close>. \<open>None\<close> is a failed assertion. The
  loops are partial functions; they are shown to return where the operations they call do
  what POSIX says.
\<close>

unbundle bit_operations_syntax

section \<open>Structures\<close>

record fuse_buf =
  bsize :: nat
  bflags :: int
  bmem :: nat
  bfd :: int
  bpos :: int

record fuse_bufvec =
  bcount :: nat
  bidx :: nat
  boff :: nat
  bufs :: "fuse_buf list"

definition FUSE_BUF_IS_FD :: int where "FUSE_BUF_IS_FD = 2"
definition FUSE_BUF_FD_SEEK :: int where "FUSE_BUF_FD_SEEK = 4"
definition FUSE_BUF_FD_RETRY :: int where "FUSE_BUF_FD_RETRY = 8"

definition FUSE_BUF_NO_SPLICE :: int where "FUSE_BUF_NO_SPLICE = 2"
definition FUSE_BUF_FORCE_SPLICE :: int where "FUSE_BUF_FORCE_SPLICE = 4"
definition FUSE_BUF_SPLICE_MOVE :: int where "FUSE_BUF_SPLICE_MOVE = 8"
definition FUSE_BUF_SPLICE_NONBLOCK :: int where "FUSE_BUF_SPLICE_NONBLOCK = 16"

definition FUSE_BUFVEC_INIT :: "nat \<Rightarrow> fuse_bufvec" where
  "FUSE_BUFVEC_INIT siz = \<lparr>bcount = 1, bidx = 0, boff = 0,
     bufs = [\<lparr>bsize = siz, bflags = 0, bmem = 0, bfd = -1, bpos = 0\<rparr>]\<rparr>"

definition has_flag :: "int \<Rightarrow> int \<Rightarrow> bool" where
  "has_flag fl b \<longleftrightarrow> fl AND b \<noteq> 0"

text \<open>
  Access to file descriptors. \<open>splice\<close> gets and returns the two offsets it was given
  pointers to; its flags are those of the system call.
\<close>

record 'w fdio =
  io_write :: "int \<Rightarrow> bytes \<Rightarrow> 'w \<Rightarrow> int \<times> 'w"
  io_pwrite :: "int \<Rightarrow> bytes \<Rightarrow> int \<Rightarrow> 'w \<Rightarrow> int \<times> 'w"
  io_read :: "int \<Rightarrow> nat \<Rightarrow> 'w \<Rightarrow> int \<times> bytes \<times> 'w"
  io_pread :: "int \<Rightarrow> nat \<Rightarrow> int \<Rightarrow> 'w \<Rightarrow> int \<times> bytes \<times> 'w"
  io_splice :: "int \<Rightarrow> int option \<Rightarrow> int \<Rightarrow> int option \<Rightarrow> nat \<Rightarrow> int \<Rightarrow> 'w \<Rightarrow> int \<times> int option \<times> int option \<times> 'w"

type_synonym memory = "nat \<Rightarrow> byte"

definition read_mem :: "nat \<Rightarrow> nat \<Rightarrow> memory \<Rightarrow> bytes" where
  "read_mem a n m = map m [a..<a + n]"

definition write_mem :: "nat \<Rightarrow> bytes \<Rightarrow> memory \<Rightarrow> memory" where
  "write_mem a bs m = (\<lambda>x. if a \<le> x \<and> x < a + length bs then bs ! (x - a) else m x)"

text \<open>Subtraction of \<open>size_t\<close> values.\<close>

definition size_sub :: "nat \<Rightarrow> nat \<Rightarrow> nat" where
  "size_sub a b = nat ((int a - int b) mod 2 ^ 64)"

section \<open>Sizes\<close>

abbreviation (input) SIZE_MAX :: nat where "SIZE_MAX \<equiv> 2 ^ 64 - 1"

definition add_size :: "nat \<Rightarrow> fuse_buf \<Rightarrow> nat" where
  "add_size siz b = (if bsize b = SIZE_MAX then SIZE_MAX else (siz + bsize b) mod 2 ^ 64)"

definition fuse_buf_size :: "fuse_bufvec \<Rightarrow> nat" where
  "fuse_buf_size bufv = foldl add_size 0 (take (bcount bufv) (bufs bufv))"

definition min_size :: "nat \<Rightarrow> nat \<Rightarrow> nat" where
  "min_size s1 s2 = (if s1 < s2 then s1 else s2)"

section \<open>Copying one buffer\<close>

partial_function (option) buf_write_loop ::
  "'w fdio \<Rightarrow> fuse_buf \<Rightarrow> nat \<Rightarrow> fuse_buf \<Rightarrow> nat \<Rightarrow> nat \<Rightarrow> nat \<Rightarrow> memory \<Rightarrow> 'w \<Rightarrow> (int \<times> 'w) option" where
  "buf_write_loop io dst dst_off src src_off len copied m w =
     (if len = 0 then Some (int copied, w)
      else let d = read_mem (bmem src + src_off) len m;
               (res, w) = (if has_flag (bflags dst) FUSE_BUF_FD_SEEK
                           then io_pwrite io (bfd dst) d (bpos dst + int dst_off) w
                           else io_write io (bfd dst) d w)
           in if res < 0 then Some (if copied = 0 then res else int copied, w)
              else if res = 0 then Some (int copied, w)
              else if \<not> has_flag (bflags dst) FUSE_BUF_FD_RETRY then Some (int (copied + nat res), w)
              else buf_write_loop io dst (dst_off + nat res) src (src_off + nat res) (size_sub len (nat res))
                     (copied + nat res) m w)"

definition fuse_buf_write ::
  "'w fdio \<Rightarrow> fuse_buf \<Rightarrow> nat \<Rightarrow> fuse_buf \<Rightarrow> nat \<Rightarrow> nat \<Rightarrow> memory \<Rightarrow> 'w \<Rightarrow> (int \<times> 'w) option" where
  "fuse_buf_write io dst dst_off src src_off len m w = buf_write_loop io dst dst_off src src_off len 0 m w"

partial_function (option) buf_read_loop ::
  "'w fdio \<Rightarrow> fuse_buf \<Rightarrow> nat \<Rightarrow> fuse_buf \<Rightarrow> nat \<Rightarrow> nat \<Rightarrow> nat \<Rightarrow> memory \<Rightarrow> 'w \<Rightarrow> (int \<times> memory \<times> 'w) option" where
  "buf_read_loop io dst dst_off src src_off len copied m w =
     (if len = 0 then Some (int copied, m, w)
      else let (res, d, w) = (if has_flag (bflags src) FUSE_BUF_FD_SEEK
                              then io_pread io (bfd src) len (bpos src + int src_off) w
                              else io_read io (bfd src) len w);
               m = write_mem (bmem dst + dst_off) d m
           in if res < 0 then Some (if copied = 0 then res else int copied, m, w)
              else if res = 0 then Some (int copied, m, w)
              else if \<not> has_flag (bflags src) FUSE_BUF_FD_RETRY then Some (int (copied + nat res), m, w)
              else buf_read_loop io dst (dst_off + nat res) src (src_off + nat res) (size_sub len (nat res))
                     (copied + nat res) m w)"

definition fuse_buf_read ::
  "'w fdio \<Rightarrow> fuse_buf \<Rightarrow> nat \<Rightarrow> fuse_buf \<Rightarrow> nat \<Rightarrow> nat \<Rightarrow> memory \<Rightarrow> 'w \<Rightarrow> (int \<times> memory \<times> 'w) option" where
  "fuse_buf_read io dst dst_off src src_off len m w = buf_read_loop io dst dst_off src src_off len 0 m w"

text \<open>The buffer \<open>buf\<close> of 4096 bytes lies on the stack, at an address \<open>a\<close>.\<close>

partial_function (option) fd_to_fd_loop ::
  "'w fdio \<Rightarrow> nat \<Rightarrow> fuse_buf \<Rightarrow> nat \<Rightarrow> fuse_buf \<Rightarrow> nat \<Rightarrow> nat \<Rightarrow> nat \<Rightarrow> memory \<Rightarrow> 'w \<Rightarrow> (int \<times> memory \<times> 'w) option" where
  "fd_to_fd_loop io a dst dst_off src src_off len copied m w =
     (if len = 0 then Some (int copied, m, w)
      else do {
        let tmp = \<lparr>bsize = 4096, bflags = 0, bmem = a, bfd = 0, bpos = 0\<rparr>;
        let this_len = min_size (bsize tmp) len;
        (res, m, w) \<leftarrow> fuse_buf_read io tmp 0 src src_off this_len m w;
        if res < 0 then Some (if copied = 0 then res else int copied, m, w)
        else if res = 0 then Some (int copied, m, w)
        else do {
          (res, w) \<leftarrow> fuse_buf_write io dst dst_off tmp 0 (nat res) m w;
          if res < 0 then Some (if copied = 0 then res else int copied, m, w)
          else if res = 0 then Some (int copied, m, w)
          else if nat res < this_len then Some (int (copied + nat res), m, w)
          else fd_to_fd_loop io a dst (dst_off + nat res) src (src_off + nat res) (size_sub len (nat res))
                 (copied + nat res) m w } })"

definition fuse_buf_fd_to_fd ::
  "'w fdio \<Rightarrow> nat \<Rightarrow> fuse_buf \<Rightarrow> nat \<Rightarrow> fuse_buf \<Rightarrow> nat \<Rightarrow> nat \<Rightarrow> memory \<Rightarrow> 'w \<Rightarrow> (int \<times> memory \<times> 'w) option" where
  "fuse_buf_fd_to_fd io a dst dst_off src src_off len m w = fd_to_fd_loop io a dst dst_off src src_off len 0 m w"

definition EINVAL_SPLICE :: int where "EINVAL_SPLICE = 22"

partial_function (option) splice_loop ::
  "'w fdio \<Rightarrow> nat \<Rightarrow> fuse_buf \<Rightarrow> nat \<Rightarrow> fuse_buf \<Rightarrow> nat \<Rightarrow> int \<Rightarrow> int \<Rightarrow> int option \<Rightarrow> int option \<Rightarrow> nat \<Rightarrow> nat \<Rightarrow> memory \<Rightarrow> 'w
     \<Rightarrow> (int \<times> memory \<times> 'w) option" where
  "splice_loop io a dst dst_off src src_off fl splice_flags srcpos dstpos len copied m w =
     (if len = 0 then Some (int copied, m, w)
      else let (res, srcpos, dstpos, w) = io_splice io (bfd src) srcpos (bfd dst) dstpos len splice_flags w
           in if res < 0 then
                (if copied \<noteq> 0 then Some (int copied, m, w)
                 else if res \<noteq> - EINVAL_SPLICE \<or> has_flag fl FUSE_BUF_FORCE_SPLICE then Some (res, m, w)
                 else fuse_buf_fd_to_fd io a dst dst_off src src_off len m w)
              else if res = 0 then Some (int copied, m, w)
              else if \<not> has_flag (bflags src) FUSE_BUF_FD_RETRY \<and> \<not> has_flag (bflags dst) FUSE_BUF_FD_RETRY
              then Some (int (copied + nat res), m, w)
              else splice_loop io a dst dst_off src src_off fl splice_flags srcpos dstpos (size_sub len (nat res))
                     (copied + nat res) m w)"

definition fuse_buf_splice ::
  "'w fdio \<Rightarrow> nat \<Rightarrow> fuse_buf \<Rightarrow> nat \<Rightarrow> fuse_buf \<Rightarrow> nat \<Rightarrow> nat \<Rightarrow> int \<Rightarrow> memory \<Rightarrow> 'w \<Rightarrow> (int \<times> memory \<times> 'w) option" where
  "fuse_buf_splice io a dst dst_off src src_off len fl m w =
     (let splice_flags = (if has_flag fl FUSE_BUF_SPLICE_MOVE then 1 else 0)
            OR (if has_flag fl FUSE_BUF_SPLICE_NONBLOCK then 2 else 0);
          srcpos = (if has_flag (bflags src) FUSE_BUF_FD_SEEK then Some (bpos src + int src_off) else None);
          dstpos = (if has_flag (bflags dst) FUSE_BUF_FD_SEEK then Some (bpos dst + int dst_off) else None)
      in splice_loop io a dst dst_off src src_off fl splice_flags srcpos dstpos len 0 m w)"

text \<open>Both \<open>memcpy\<close> of disjoint ranges and \<open>memmove\<close> store the bytes the source range had before.\<close>

definition fuse_buf_copy_one ::
  "'w fdio \<Rightarrow> nat \<Rightarrow> fuse_buf \<Rightarrow> nat \<Rightarrow> fuse_buf \<Rightarrow> nat \<Rightarrow> nat \<Rightarrow> int \<Rightarrow> memory \<Rightarrow> 'w \<Rightarrow> (int \<times> memory \<times> 'w) option" where
  "fuse_buf_copy_one io a dst dst_off src src_off len fl m w =
     (let src_is_fd = has_flag (bflags src) FUSE_BUF_IS_FD;
          dst_is_fd = has_flag (bflags dst) FUSE_BUF_IS_FD
      in if \<not> src_is_fd \<and> \<not> dst_is_fd then
           (let dstmem = bmem dst + dst_off; srcmem = bmem src + src_off
            in Some (int len, if dstmem \<noteq> srcmem then write_mem dstmem (read_mem srcmem len m) m else m, w))
         else if \<not> src_is_fd then
           map_option (\<lambda>(res, w). (res, m, w)) (fuse_buf_write io dst dst_off src src_off len m w)
         else if \<not> dst_is_fd then fuse_buf_read io dst dst_off src src_off len m w
         else if has_flag fl FUSE_BUF_NO_SPLICE then fuse_buf_fd_to_fd io a dst dst_off src src_off len m w
         else fuse_buf_splice io a dst dst_off src src_off len fl m w)"

section \<open>Copying a vector\<close>

definition fuse_bufvec_current :: "fuse_bufvec \<Rightarrow> fuse_buf option" where
  "fuse_bufvec_current bufv = (if bidx bufv < bcount bufv then Some (bufs bufv ! bidx bufv) else None)"

text \<open>Result: false for 0, that is, when the last buffer is used up.\<close>

definition fuse_bufvec_advance :: "fuse_bufvec \<Rightarrow> nat \<Rightarrow> (bool \<times> fuse_bufvec) option" where
  "fuse_bufvec_advance bufv len = do {
     buf \<leftarrow> fuse_bufvec_current bufv;
     let bufv = bufv\<lparr>boff := boff bufv + len\<rparr>;
     if \<not> boff bufv \<le> bsize buf then None
     else if boff bufv = bsize buf then
       (let bufv = bufv\<lparr>bidx := bidx bufv + 1\<rparr>
        in if bidx bufv = bcount bufv then Some (False, bufv) else Some (True, bufv\<lparr>boff := 0\<rparr>))
     else Some (True, bufv) }"

partial_function (option) buf_copy_loop ::
  "'w fdio \<Rightarrow> nat \<Rightarrow> int \<Rightarrow> fuse_bufvec \<Rightarrow> fuse_bufvec \<Rightarrow> nat \<Rightarrow> memory \<Rightarrow> 'w
     \<Rightarrow> (int \<times> fuse_bufvec \<times> fuse_bufvec \<times> memory \<times> 'w) option" where
  "buf_copy_loop io a fl dstv srcv copied m w =
     (case (fuse_bufvec_current srcv, fuse_bufvec_current dstv) of
        (Some src, Some dst) \<Rightarrow>
          do {
            let src_len = size_sub (bsize src) (boff srcv);
            let dst_len = size_sub (bsize dst) (boff dstv);
            let len = min_size src_len dst_len;
            (res, m, w) \<leftarrow> fuse_buf_copy_one io a dst (boff dstv) src (boff srcv) len fl m w;
            if res < 0 then Some (if copied = 0 then res else int copied, dstv, srcv, m, w)
            else do {
              (more, srcv) \<leftarrow> fuse_bufvec_advance srcv (nat res);
              if \<not> more then Some (int (copied + nat res), dstv, srcv, m, w)
              else do {
                (more, dstv) \<leftarrow> fuse_bufvec_advance dstv (nat res);
                if \<not> more then Some (int (copied + nat res), dstv, srcv, m, w)
                else if nat res < len then Some (int (copied + nat res), dstv, srcv, m, w)
                else buf_copy_loop io a fl dstv srcv (copied + nat res) m w } } }
      | _ \<Rightarrow> Some (int copied, dstv, srcv, m, w))"

text \<open>
  \<open>same\<close> tells whether the two pointers are equal. A \<open>size_t\<close> is returned as a \<open>ssize_t\<close>.
\<close>

definition ssize :: "nat \<Rightarrow> int" where
  "ssize n = (if n < 2 ^ 63 then int n else int n - 2 ^ 64)"

definition fuse_buf_copy ::
  "'w fdio \<Rightarrow> nat \<Rightarrow> bool \<Rightarrow> fuse_bufvec \<Rightarrow> fuse_bufvec \<Rightarrow> int \<Rightarrow> memory \<Rightarrow> 'w
     \<Rightarrow> (int \<times> fuse_bufvec \<times> fuse_bufvec \<times> memory \<times> 'w) option" where
  "fuse_buf_copy io a same dstv srcv fl m w =
     (if same then Some (ssize (fuse_buf_size dstv), dstv, srcv, m, w)
      else buf_copy_loop io a fl dstv srcv 0 m w)"

section \<open>The handler\<close>

definition xmp_write_buf ::
  "'w fdio \<Rightarrow> nat \<Rightarrow> fuse_bufvec \<Rightarrow> int \<Rightarrow> memory \<Rightarrow> 'w \<Rightarrow> (int \<times> fuse_bufvec \<times> memory \<times> 'w) option" where
  "xmp_write_buf io a buf offset m w = do {
     let dst = FUSE_BUFVEC_INIT (fuse_buf_size buf);
     let b = (bufs dst ! 0)\<lparr>bflags := FUSE_BUF_IS_FD OR FUSE_BUF_FD_SEEK, bfd := 0, bpos := offset\<rparr>;
     let dst = dst\<lparr>bufs := (bufs dst)[0 := b]\<rparr>;
     (res, dst, buf, m, w) \<leftarrow> fuse_buf_copy io a False dst buf FUSE_BUF_SPLICE_NONBLOCK m w;
     Some (int32 res, buf, m, w) }"

section \<open>Vectors of memory as streams of addresses\<close>

definition buf_range :: "fuse_buf \<Rightarrow> nat list" where
  "buf_range b = [bmem b..<bmem b + bsize b]"

definition addrs :: "fuse_bufvec \<Rightarrow> nat list" where
  "addrs v = drop (boff v) (buf_range (bufs v ! bidx v)) @ concat (map buf_range (drop (Suc (bidx v)) (bufs v)))"

text \<open>A vector that is not used up: all its buffers are memory, the offset lies in the current one.\<close>

definition vec_ok :: "fuse_bufvec \<Rightarrow> bool" where
  "vec_ok v \<longleftrightarrow> bcount v = length (bufs v) \<and> bidx v < bcount v \<and> boff v \<le> bsize (bufs v ! bidx v)
     \<and> list_all (\<lambda>b. bsize b < 2 ^ 64 \<and> \<not> has_flag (bflags b) FUSE_BUF_IS_FD) (bufs v)"

lemma advance_addrs:
  assumes ok: "vec_ok v" and n: "boff v + n \<le> bsize (bufs v ! bidx v)"
  shows "\<exists>more v'. fuse_bufvec_advance v n = Some (more, v') \<and> bcount v' = bcount v \<and>
    (if more then vec_ok v' \<and> addrs v' = drop n (addrs v) else drop n (addrs v) = []) \<and>
    bidx v \<le> bidx v' \<and> (boff v + n = bsize (bufs v ! bidx v) \<longrightarrow> bidx v < bidx v')"
proof -
  let ?b = "bufs v ! bidx v"
  have i: "bidx v < length (bufs v)" "bcount v = length (bufs v)" using ok by (auto simp: vec_ok_def)
  have cur: "fuse_bufvec_current v = Some ?b" using i by (simp add: fuse_bufvec_current_def)
  have d: "drop n (addrs v) = drop (boff v + n) (buf_range ?b) @ concat (map buf_range (drop (Suc (bidx v)) (bufs v)))"
    using n by (simp add: addrs_def buf_range_def ac_simps)
  consider "boff v + n < bsize ?b" | "boff v + n = bsize ?b" "Suc (bidx v) = bcount v"
    | "boff v + n = bsize ?b" "Suc (bidx v) < bcount v" using n i by linarith
  then show ?thesis
  proof cases
    case 1
    let ?v = "v\<lparr>boff := boff v + n\<rparr>"
    have "addrs ?v = drop n (addrs v)" unfolding d by (simp add: addrs_def)
    with 1 cur ok show ?thesis by (auto simp: fuse_bufvec_advance_def vec_ok_def)
  next
    case 2
    then have "drop n (addrs v) = []" unfolding d using i by (simp add: buf_range_def)
    with 2 cur show ?thesis by (intro exI [of _ False]) (simp add: fuse_bufvec_advance_def)
  next
    case 3
    let ?v = "v\<lparr>bidx := Suc (bidx v), boff := 0\<rparr>"
    have "addrs ?v = drop n (addrs v)"
      unfolding d using 3 i by (simp add: addrs_def buf_range_def flip: Cons_nth_drop_Suc)
    moreover have "vec_ok ?v" using 3 ok by (simp add: vec_ok_def)
    ultimately show ?thesis using 3 cur by (intro exI [of _ True]) (simp add: fuse_bufvec_advance_def)
  qed
qed

text \<open>Copying byte by byte along two lists of addresses.\<close>

definition copied_mem :: "nat list \<Rightarrow> nat list \<Rightarrow> memory \<Rightarrow> memory" where
  "copied_mem ds ss m = (\<lambda>x. case map_of (zip ds ss) x of Some y \<Rightarrow> m y | None \<Rightarrow> m x)"

lemma copied_mem_Nil [simp]: "copied_mem [] ss m = m" "copied_mem ds [] m = m"
  by (simp_all add: copied_mem_def)

lemma map_of_zip_upt:
  "map_of (zip [d..<d + n] [s..<s + n]) x = (if d \<le> x \<and> x < d + n then Some (s + (x - d)) else None)"
proof (induction n arbitrary: d s)
  case (Suc n)
  have "[d..<d + Suc n] = d # [Suc d..<Suc d + n]" "[s..<s + Suc n] = s # [Suc s..<Suc s + n]"
    by (simp_all add: upt_conv_Cons)
  then show ?case using Suc [of "Suc d" "Suc s"] by auto
qed simp

lemma write_read_mem: "write_mem d (read_mem s n m) m = copied_mem [d..<d + n] [s..<s + n] m"
  by (auto simp: write_mem_def read_mem_def copied_mem_def map_of_zip_upt fun_eq_iff)

lemma copied_mem_split:
  assumes "set ds \<inter> set ss = {}" "distinct ds"
  shows "copied_mem (drop n ds) (drop n ss) (copied_mem (take n ds) (take n ss) m) = copied_mem ds ss m"
proof
  fix x
  have z: "zip ds ss = zip (take n ds) (take n ss) @ zip (drop n ds) (drop n ss)"
    by (metis append_take_drop_id take_zip drop_zip)
  have src: "map_of (zip (take n ds) (take n ss)) y = None" if "map_of (zip (drop n ds) (drop n ss)) x = Some y" for y
  proof -
    have "y \<in> set (drop n ss)" using that by (auto dest!: map_of_SomeD set_zip_rightD)
    then have "y \<in> set ss" by (rule in_set_dropD)
    then have "y \<notin> set (take n ds)" using assms(1) by (auto dest: in_set_takeD)
    then show ?thesis by (auto simp: map_of_eq_None_iff dest!: set_zip_leftD)
  qed
  have dst: "map_of (zip (take n ds) (take n ss)) x = None" if "map_of (zip (drop n ds) (drop n ss)) x = Some y" for y
  proof -
    have "x \<in> set (drop n ds)" using that by (auto dest!: map_of_SomeD set_zip_leftD)
    then have "x \<notin> set (take n ds)" using assms(2) by (metis append_take_drop_id disjoint_iff distinct_append)
    then show ?thesis by (auto simp: map_of_eq_None_iff dest!: set_zip_leftD)
  qed
  show "copied_mem (drop n ds) (drop n ss) (copied_mem (take n ds) (take n ss) m) x = copied_mem ds ss m x"
    using src dst unfolding copied_mem_def z map_of_append map_add_def by (auto split: option.splits)
qed

lemma size_sub_le: "b \<le> a \<Longrightarrow> a < 2 ^ 64 \<Longrightarrow> size_sub a b = a - b"
  by (simp add: size_sub_def nat_diff_distrib flip: of_nat_diff)

lemma take_addrs:
  assumes "vec_ok v" "boff v + n \<le> bsize (bufs v ! bidx v)"
  shows "take n (addrs v) = [bmem (bufs v ! bidx v) + boff v..<bmem (bufs v ! bidx v) + boff v + n]" "n \<le> length (addrs v)"
proof -
  have "n \<le> length (drop (boff v) (buf_range (bufs v ! bidx v)))" using assms(2) by (simp add: buf_range_def)
  then show "take n (addrs v) = [bmem (bufs v ! bidx v) + boff v..<bmem (bufs v ! bidx v) + boff v + n]" "n \<le> length (addrs v)"
    using assms(2) by (simp_all add: addrs_def buf_range_def take_upt)
qed

lemma buf_copy_memory:
  assumes "vec_ok dstv" "vec_ok srcv" "set (addrs dstv) \<inter> set (addrs srcv) = {}" "distinct (addrs dstv)"
  shows "\<exists>dstv' srcv'. buf_copy_loop io a fl dstv srcv copied m w =
    Some (int (copied + min (length (addrs dstv)) (length (addrs srcv))), dstv', srcv',
      copied_mem (addrs dstv) (addrs srcv) m, w)"
  using assms
proof (induction "(bcount srcv - bidx srcv) + (bcount dstv - bidx dstv)" arbitrary: dstv srcv copied m rule: less_induct)
  case less
  let ?src = "bufs srcv ! bidx srcv" and ?dst = "bufs dstv ! bidx dstv"
  define len where "len = min (bsize ?src - boff srcv) (bsize ?dst - boff dstv)"
  have i: "bidx srcv < bcount srcv" "bidx dstv < bcount dstv" "boff srcv \<le> bsize ?src" "boff dstv \<le> bsize ?dst"
    "bcount srcv = length (bufs srcv)" "bcount dstv = length (bufs dstv)"
    using less.prems(1,2) by (auto simp: vec_ok_def)
  have sz: "bsize ?src < 2 ^ 64" "bsize ?dst < 2 ^ 64" "\<not> has_flag (bflags ?src) FUSE_BUF_IS_FD" "\<not> has_flag (bflags ?dst) FUSE_BUF_IS_FD"
    using less.prems(1,2) i by (auto simp: vec_ok_def list_all_length)
  have cur: "fuse_bufvec_current srcv = Some ?src" "fuse_bufvec_current dstv = Some ?dst"
    using i by (simp_all add: fuse_bufvec_current_def)
  have ln: "min_size (size_sub (bsize ?src) (boff srcv)) (size_sub (bsize ?dst) (boff dstv)) = len"
    using i sz by (simp add: size_sub_le min_size_def len_def min_def)
  have fit: "boff srcv + len \<le> bsize ?src" "boff dstv + len \<le> bsize ?dst" using i by (auto simp: len_def)
  let ?d = "addrs dstv" and ?s = "addrs srcv"
  note ts = take_addrs [OF less.prems(2) fit(1)] and td = take_addrs [OF less.prems(1) fit(2)]
  let ?m = "copied_mem (take len ?d) (take len ?s) m"
  have "fuse_buf_copy_one io a ?dst (boff dstv) ?src (boff srcv) len fl m w = Some (int len, ?m, w)"
  proof (cases "bmem ?dst + boff dstv = bmem ?src + boff srcv")
    case True
    have "len = 0"
    proof (rule ccontr)
      assume "len \<noteq> 0"
      then have "bmem ?dst + boff dstv \<in> set (take len ?d)" "bmem ?dst + boff dstv \<in> set (take len ?s)"
        using ts(1) td(1) True by simp_all
      then show False using less.prems(3) by (auto dest: in_set_takeD)
    qed
    with True sz show ?thesis by (simp add: fuse_buf_copy_one_def)
  next
    case False
    then show ?thesis using sz ts(1) td(1) by (simp add: fuse_buf_copy_one_def write_read_mem Let_def)
  qed
  note one = this
  obtain ms sv where s: "fuse_bufvec_advance srcv len = Some (ms, sv)" "bcount sv = bcount srcv"
    "if ms then vec_ok sv \<and> addrs sv = drop len ?s else drop len ?s = []" "bidx srcv \<le> bidx sv"
    "boff srcv + len = bsize ?src \<longrightarrow> bidx srcv < bidx sv"
    using advance_addrs [OF less.prems(2) fit(1)] by blast
  obtain md dv where d: "fuse_bufvec_advance dstv len = Some (md, dv)" "bcount dv = bcount dstv"
    "if md then vec_ok dv \<and> addrs dv = drop len ?d else drop len ?d = []" "bidx dstv \<le> bidx dv"
    "boff dstv + len = bsize ?dst \<longrightarrow> bidx dstv < bidx dv"
    using advance_addrs [OF less.prems(1) fit(2)] by blast
  note split = copied_mem_split [OF less.prems(3,4), of len m]
  have min: "min (length ?d) (length ?s) = len + min (length (drop len ?d)) (length (drop len ?s))"
    using ts(2) td(2) by simp
  show ?case
  proof (cases "ms \<and> md")
    case False
    then have "copied_mem ?d ?s m = ?m" "min (length ?d) (length ?s) = len"
      using s(3) d(3) split min by (auto split: if_splits)
    with False one ln cur s(1) d(1) show ?thesis by (subst buf_copy_loop.simps) auto
  next
    case True
    then have v: "vec_ok dv" "vec_ok sv" "addrs dv = drop len ?d" "addrs sv = drop len ?s" using s(3) d(3) by auto
    have "boff srcv + len = bsize ?src \<or> boff dstv + len = bsize ?dst" using i by (auto simp: len_def)
    moreover have "bidx sv < bcount sv" "bidx dv < bcount dv" using v by (auto simp: vec_ok_def)
    ultimately have dec: "(bcount sv - bidx sv) + (bcount dv - bidx dv) < (bcount srcv - bidx srcv) + (bcount dstv - bidx dstv)"
      using s(2,4,5) d(2,4,5) by auto
    have dj: "set (addrs dv) \<inter> set (addrs sv) = {}" "distinct (addrs dv)"
      using v less.prems(3,4) by (auto dest: in_set_dropD)
    obtain dstv' srcv' where ih: "buf_copy_loop io a fl dv sv (copied + len) ?m w =
      Some (int (copied + len + min (length (addrs dv)) (length (addrs sv))), dstv', srcv', copied_mem (addrs dv) (addrs sv) ?m, w)"
      using less.hyps [OF dec v(1,2) dj, of "copied + len" ?m] by blast
    have "buf_copy_loop io a fl dstv srcv copied m w = buf_copy_loop io a fl dv sv (copied + len) ?m w"
      using True one ln cur s(1) d(1) by (subst buf_copy_loop.simps) simp
    then show ?thesis using ih v(3,4) split min by (simp add: add.assoc)
  qed
qed

section \<open>Writing to a file\<close>

text \<open>
  What POSIX says of \<open>pwrite\<close> to a regular file with room for the data: it writes a
  non-empty initial part of it at the offset, and nothing else changes.
\<close>

definition put_bytes :: "nat \<Rightarrow> bytes \<Rightarrow> (nat \<Rightarrow> byte) \<Rightarrow> nat \<Rightarrow> byte" where
  "put_bytes p bs c = write_mem p bs c"

locale file_io =
  fixes io :: "'w fdio" and fd :: int and content :: "'w \<Rightarrow> nat \<Rightarrow> byte"
  assumes pwrite_part: "bs \<noteq> [] \<Longrightarrow> \<exists>n w'. io_pwrite io fd bs (int p) w = (int n, w') \<and> 0 < n \<and> n \<le> length bs \<and>
    content w' = put_bytes p (take n bs) (content w)"
begin

lemma write_all:
  assumes "bfd dst = fd" "has_flag (bflags dst) FUSE_BUF_FD_SEEK" "has_flag (bflags dst) FUSE_BUF_FD_RETRY"
    "bpos dst = int p" "len < 2 ^ 64"
  shows "\<exists>w'. buf_write_loop io dst dst_off src src_off len copied m w = Some (int (copied + len), w') \<and>
    content w' = put_bytes (p + dst_off) (read_mem (bmem src + src_off) len m) (content w)"
  using assms(5)
proof (induction len arbitrary: dst_off src_off copied w rule: less_induct)
  case (less len)
  show ?case
  proof (cases "len = 0")
    case True
    then show ?thesis by (auto simp: buf_write_loop.simps put_bytes_def write_mem_def read_mem_def fun_eq_iff)
  next
    case False
    let ?d = "read_mem (bmem src + src_off) len m"
    have "?d \<noteq> []" "length ?d = len" using False by (simp_all add: read_mem_def)
    then obtain n w1 where n: "io_pwrite io fd ?d (int (p + dst_off)) w = (int n, w1)" "0 < n" "n \<le> len"
      "content w1 = put_bytes (p + dst_off) (take n ?d) (content w)" using pwrite_part by metis
    have sub: "size_sub len n = len - n" using n(3) less.prems by (rule size_sub_le)
    have lt: "len - n < len" "len - n < 2 ^ 64" using n(2,3) less.prems by simp_all
    obtain w2 where w2: "buf_write_loop io dst (dst_off + n) src (src_off + n) (len - n) (copied + n) m w1 =
        Some (int (copied + n + (len - n)), w2)"
      "content w2 = put_bytes (p + (dst_off + n)) (read_mem (bmem src + (src_off + n)) (len - n) m) (content w1)"
      using less.IH [OF lt, of "dst_off + n" "src_off + n" "copied + n" w1] by blast
    have "buf_write_loop io dst dst_off src src_off len copied m w = Some (int (copied + len), w2)"
      using False assms n w2(1) sub by (subst buf_write_loop.simps) (simp add: Let_def)
    moreover have "content w2 = put_bytes (p + dst_off) ?d (content w)"
      unfolding w2(2) n(4) using n(2,3) by (auto simp: put_bytes_def write_mem_def read_mem_def fun_eq_iff add.assoc)
    ultimately show ?thesis by blast
  qed
qed

end

text \<open>A file on descriptor 0 whose writes take at most as many bytes as a list of limits says.\<close>

definition limited_pwrite :: "int \<Rightarrow> bytes \<Rightarrow> int \<Rightarrow> (nat \<Rightarrow> byte) \<times> nat list \<Rightarrow> int \<times> (nat \<Rightarrow> byte) \<times> nat list" where
  "limited_pwrite fd bs p w =
     (let n = (case snd w of [] \<Rightarrow> length bs | k # ks \<Rightarrow> min (length bs) (Suc k))
      in (int n, put_bytes (nat p) (take n bs) (fst w), tl (snd w)))"

definition limited_io :: "((nat \<Rightarrow> byte) \<times> nat list) fdio" where
  "limited_io = \<lparr>io_write = (\<lambda>fd bs w. (-9, w)), io_pwrite = limited_pwrite, io_read = (\<lambda>fd n w. (-9, [], w)),
     io_pread = (\<lambda>fd n p w. (-9, [], w)), io_splice = (\<lambda>sfd sp dfd dp n fl w. (-22, sp, dp, w))\<rparr>"

interpretation limited: file_io limited_io 0 fst
  by unfold_locales (auto simp: limited_io_def limited_pwrite_def Let_def split: list.splits)

section \<open>Properties\<close>

lemma map_of_zip_nth_min:
  assumes "distinct xs" "i < min (length xs) (length ys)"
  shows "map_of (zip xs ys) (xs ! i) = Some (ys ! i)"
proof -
  have "distinct (map fst (zip xs ys))" using assms(1) by (simp add: map_fst_zip_take)
  moreover have "(xs ! i, ys ! i) \<in> set (zip xs ys)" using assms(2) by (auto simp: set_zip)
  ultimately show ?thesis by (simp add: map_of_is_SomeI)
qed

text \<open>
  C34. Copying between two vectors of memory buffers returns and moves as many bytes as the
  shorter one has left, in order, across the borders of the buffers on both sides and
  whatever empty buffers they contain; nothing else in memory changes.
\<close>

theorem fuse_buf_copy_memory:
  assumes "vec_ok dstv" "vec_ok srcv" "set (addrs dstv) \<inter> set (addrs srcv) = {}" "distinct (addrs dstv)"
  shows "\<exists>dstv' srcv' m'. fuse_buf_copy io a False dstv srcv fl m w =
    Some (int (min (length (addrs dstv)) (length (addrs srcv))), dstv', srcv', m', w) \<and>
    (\<forall>i < min (length (addrs dstv)) (length (addrs srcv)). m' (addrs dstv ! i) = m (addrs srcv ! i)) \<and>
    (\<forall>x. x \<notin> set (addrs dstv) \<longrightarrow> m' x = m x)"
proof -
  obtain dstv' srcv' where c: "buf_copy_loop io a fl dstv srcv 0 m w =
    Some (int (0 + min (length (addrs dstv)) (length (addrs srcv))), dstv', srcv', copied_mem (addrs dstv) (addrs srcv) m, w)"
    using buf_copy_memory [OF assms, of io a fl 0 m w] by blast
  have "copied_mem (addrs dstv) (addrs srcv) m (addrs dstv ! i) = m (addrs srcv ! i)"
    if "i < min (length (addrs dstv)) (length (addrs srcv))" for i
    using that assms(4) by (simp add: copied_mem_def map_of_zip_nth_min)
  moreover have "copied_mem (addrs dstv) (addrs srcv) m x = m x" if "x \<notin> set (addrs dstv)" for x
  proof -
    have "map_of (zip (addrs dstv) (addrs srcv)) x = None" using that by (auto simp: map_of_eq_None_iff dest: set_zip_leftD)
    then show ?thesis by (simp add: copied_mem_def)
  qed
  ultimately show ?thesis using c by (simp add: fuse_buf_copy_def)
qed

text \<open>Three source buffers (one of them empty) into two destination buffers.\<close>

definition mem_buf :: "nat \<Rightarrow> nat \<Rightarrow> fuse_buf" where
  "mem_buf p n = \<lparr>bsize = n, bflags = 0, bmem = p, bfd = -1, bpos = 0\<rparr>"

definition mem_vec :: "(nat \<times> nat) list \<Rightarrow> fuse_bufvec" where
  "mem_vec ps = \<lparr>bcount = length ps, bidx = 0, boff = 0, bufs = map (\<lambda>(p, n). mem_buf p n) ps\<rparr>"

theorem fuse_buf_copy_memory_witness:
  "\<exists>dstv srcv m. fuse_buf_copy limited_io 9 False (mem_vec [(0, 3), (10, 4)]) (mem_vec [(20, 2), (40, 0), (30, 4)]) 0 (\<lambda>x. of_nat x) ((\<lambda>_. 0), [])
     = Some (6, dstv, srcv, m, (\<lambda>_. 0), []) \<and> m 2 = 30"
proof -
  let ?d = "mem_vec [(0, 3), (10, 4)]" and ?s = "mem_vec [(20, 2), (40, 0), (30, 4)]"
  have a: "addrs ?d = [0, 1, 2, 10, 11, 12, 13]" "addrs ?s = [20, 21, 30, 31, 32, 33]"
    by (simp_all add: addrs_def mem_vec_def mem_buf_def buf_range_def upt_rec numeral_eq_Suc)
  have ok: "vec_ok ?d" "vec_ok ?s" by (simp_all add: vec_ok_def mem_vec_def mem_buf_def has_flag_def)
  have "set (addrs ?d) \<inter> set (addrs ?s) = {}" "distinct (addrs ?d)" by (simp_all add: a)
  from fuse_buf_copy_memory [OF ok this, of limited_io 9 0 "\<lambda>x. of_nat x" "((\<lambda>_. 0), [])"]
  obtain dv sv m where r: "fuse_buf_copy limited_io 9 False ?d ?s 0 (\<lambda>x. of_nat x) ((\<lambda>_. 0), []) = Some (6, dv, sv, m, (\<lambda>_. 0), [])"
    "\<forall>i < 6. m (addrs ?d ! i) = of_nat (addrs ?s ! i)" by (auto simp: a)
  from r(2) [rule_format, of 2] have "m 2 = 30" by (simp add: a)
  with r(1) show ?thesis by blast
qed

text \<open>
  With \<open>FUSE_BUF_FD_RETRY\<close> a write to a file at an offset goes on after short writes
  until all bytes are in the file, and returns their number, for every host whose \<open>pwrite\<close>
  writes a non-empty part of the data.
\<close>

theorem fuse_buf_write_complete:
  assumes "file_io io fd content" "bfd dst = fd" "has_flag (bflags dst) FUSE_BUF_FD_SEEK"
    "has_flag (bflags dst) FUSE_BUF_FD_RETRY" "bpos dst = int p" "len < 2 ^ 64"
  shows "\<exists>w'. fuse_buf_write io dst dst_off src src_off len m w = Some (int len, w') \<and>
    content w' = put_bytes (p + dst_off) (read_mem (bmem src + src_off) len m) (content w)"
  using file_io.write_all [OF assms, of dst_off src src_off 0 m w] by (simp add: fuse_buf_write_def)

theorem fuse_buf_write_complete_witness:
  "\<exists>w'. fuse_buf_write limited_io \<lparr>bsize = 5, bflags = 14, bmem = 0, bfd = 0, bpos = 100\<rparr> 0 (mem_buf 20 5) 0 5 (\<lambda>x. of_nat x)
     ((\<lambda>_. 0), [0, 1]) = Some (5, w') \<and> fst w' 104 = 24"
  using fuse_buf_write_complete [OF limited.file_io_axioms,
      of "\<lparr>bsize = 5, bflags = 14, bmem = 0, bfd = 0, bpos = 100\<rparr>" 100 5 0 "mem_buf 20 5" 0
      "\<lambda>x. of_nat x" "((\<lambda>_. 0), [0, 1])"]
  by (auto simp: has_flag_def FUSE_BUF_FD_SEEK_def FUSE_BUF_FD_RETRY_def put_bytes_def write_mem_def read_mem_def mem_buf_def)

text \<open>
  The size of a vector is the sum of the sizes of its buffers as long as that fits a
  \<open>size_t\<close>. A buffer of unknown size (\<open>SIZE_MAX\<close>) makes the size \<open>SIZE_MAX\<close> only if no buffer
  with data follows it: otherwise the sizes that follow are added to it and wrap around.
\<close>

theorem fuse_buf_size_sum:
  assumes "bcount v = length (bufs v)" "bufs v = bs @ cs"
    "\<forall>b \<in> set cs. bsize b < SIZE_MAX" "sum_list (map bsize cs) < 2 ^ 64"
  shows "(sum_list (map bsize (bs @ cs)) < SIZE_MAX \<longrightarrow> fuse_buf_size v = sum_list (map bsize (bs @ cs))) \<and>
    (bs \<noteq> [] \<and> bsize (last bs) = SIZE_MAX \<and> 0 < sum_list (map bsize cs) \<longrightarrow> fuse_buf_size v = sum_list (map bsize cs) - 1)"
proof -
  have known: "foldl add_size s xs = (s + sum_list (map bsize xs)) mod 2 ^ 64"
    if "\<forall>b \<in> set xs. bsize b < SIZE_MAX" "s < 2 ^ 64" for s xs
    using that
  proof (induction xs arbitrary: s)
    case (Cons x xs)
    then have "foldl add_size s (x # xs) = ((s + bsize x) mod 2 ^ 64 + sum_list (map bsize xs)) mod 2 ^ 64"
      using Cons.IH [of "(s + bsize x) mod 2 ^ 64"] by (simp add: add_size_def [of s x])
    then show ?case by (simp add: mod_add_left_eq add.assoc)
  qed simp
  have sz: "fuse_buf_size v = foldl add_size 0 (bs @ cs)" using assms(1,2) by (simp add: fuse_buf_size_def)
  have "fuse_buf_size v = sum_list (map bsize (bs @ cs))" if s: "sum_list (map bsize (bs @ cs)) < SIZE_MAX"
  proof -
    have "bsize b < SIZE_MAX" if "b \<in> set (bs @ cs)" for b
      using member_le_sum_list [of "bsize b" "map bsize (bs @ cs)"] that s by auto
    then have "fuse_buf_size v = (0 + sum_list (map bsize (bs @ cs))) mod 2 ^ 64" unfolding sz by (intro known) auto
    then show ?thesis using s by simp
  qed
  moreover have "fuse_buf_size v = sum_list (map bsize cs) - 1"
    if l: "bs \<noteq> []" "bsize (last bs) = SIZE_MAX" "0 < sum_list (map bsize cs)"
  proof -
    have "foldl add_size 0 bs = SIZE_MAX" using l(1,2) by (cases bs rule: rev_cases) (simp_all add: add_size_def)
    then have "fuse_buf_size v = (SIZE_MAX + sum_list (map bsize cs)) mod 2 ^ 64" unfolding sz using known [OF assms(3)] by simp
    also have "SIZE_MAX + sum_list (map bsize cs) = 2 ^ 64 + (sum_list (map bsize cs) - 1)" using l(3) by simp
    finally show ?thesis using assms(4) by simp
  qed
  ultimately show ?thesis by blast
qed

theorem fuse_buf_size_sum_witness:
  "fuse_buf_size (mem_vec [(0, SIZE_MAX), (0, 10)]) = 9"
  using fuse_buf_size_sum [of "mem_vec [(0, SIZE_MAX), (0, 10)]" "[mem_buf 0 SIZE_MAX]" "[mem_buf 0 10]"]
  by (simp add: mem_vec_def mem_buf_def)

end
