(* ===== verification/Fuse_Opt.thy ===== *)
theory Fuse_Opt
  imports Main "HOL-Library.Char_ord"
begin

text \<open>
  Parsing of the command line, \<open>lib/fuse_opt.c\<close>: \<open>main\<close> of the file system hands its
  arguments to \<open>fuse_main\<close>, which parses them with this code.

  Strings are without zero characters. The structure the options are stored in is a map
  from offsets to values. The processing function of the caller and \<open>sscanf\<close> with the
  caller's format are parameters. Allocations succeed. Results are the C values, -1 for an
  error, with the context after the call.
\<close>

section \<open>Structures\<close>

datatype optval = VInt int | VStr string

type_synonym optdata = "nat \<Rightarrow> optval option"

record fuse_opt =
  templ :: string
  offset :: nat
  ovalue :: int

type_synonym fuse_opt_proc = "optdata \<Rightarrow> string \<Rightarrow> int \<Rightarrow> string list \<Rightarrow> int \<times> optdata \<times> string list"

record opt_env =
  opt_table :: "fuse_opt list"
  opt_proc :: "fuse_opt_proc option"
  opt_scan :: "string \<Rightarrow> string \<Rightarrow> int option"

record fuse_opt_context =
  odata :: optdata
  argctr :: nat
  oargv :: "string list"
  outargs :: "string list"
  oopts :: "string option"
  nonopt :: nat

definition FUSE_OPT_KEY_OPT :: int where "FUSE_OPT_KEY_OPT = -1"
definition FUSE_OPT_KEY_NONOPT :: int where "FUSE_OPT_KEY_NONOPT = -2"
definition FUSE_OPT_KEY_KEEP :: int where "FUSE_OPT_KEY_KEEP = -3"
definition FUSE_OPT_KEY_DISCARD :: int where "FUSE_OPT_KEY_DISCARD = -4"

text \<open>\<open>-1U\<close>: the option has no variable.\<close>

definition NO_OFFSET :: nat where "NO_OFFSET = 2 ^ 32 - 1"

abbreviation (input) NUL :: char where "NUL \<equiv> CHR 0x00"

text \<open>The character at an index, the terminating zero behind the end.\<close>

definition char_at :: "string \<Rightarrow> nat \<Rightarrow> char" where
  "char_at s i = (if i < length s then s ! i else NUL)"

section \<open>Arguments\<close>

definition fuse_opt_add_arg :: "string list \<Rightarrow> string \<Rightarrow> string list" where
  "fuse_opt_add_arg args arg = args @ [arg]"

definition fuse_opt_insert_arg :: "string list \<Rightarrow> nat \<Rightarrow> string \<Rightarrow> string list" where
  "fuse_opt_insert_arg args pos arg =
     (let args = fuse_opt_add_arg args arg
      in if pos \<noteq> length args - 1
         then take pos args @ [last args] @ butlast (drop pos args) else args)"

definition next_arg :: "fuse_opt_context \<Rightarrow> int \<times> fuse_opt_context" where
  "next_arg ctx = (if argctr ctx + 1 \<ge> length (oargv ctx) then (-1, ctx)
     else (0, ctx\<lparr>argctr := argctr ctx + 1\<rparr>))"

definition add_arg :: "fuse_opt_context \<Rightarrow> string \<Rightarrow> int \<times> fuse_opt_context" where
  "add_arg ctx arg = (0, ctx\<lparr>outargs := fuse_opt_add_arg (outargs ctx) arg\<rparr>)"

section \<open>Option strings\<close>

fun escape :: "bool \<Rightarrow> string \<Rightarrow> string" where
  "escape esc [] = []"
| "escape esc (c # cs) =
     (if esc \<and> (c = CHR '','' \<or> c = CHR 0x5C) then CHR 0x5C # c # escape esc cs else c # escape esc cs)"

definition add_opt_common :: "string option \<Rightarrow> string \<Rightarrow> bool \<Rightarrow> string option" where
  "add_opt_common opts opt esc =
     (let old = (case opts of None \<Rightarrow> [] | Some o' \<Rightarrow> o')
      in Some ((if old \<noteq> [] then old @ [CHR '','']  else []) @ escape esc opt))"

definition fuse_opt_add_opt :: "string option \<Rightarrow> string \<Rightarrow> string option" where
  "fuse_opt_add_opt opts opt = add_opt_common opts opt False"

definition fuse_opt_add_opt_escaped :: "string option \<Rightarrow> string \<Rightarrow> string option" where
  "fuse_opt_add_opt_escaped opts opt = add_opt_common opts opt True"

definition add_opt :: "fuse_opt_context \<Rightarrow> string \<Rightarrow> int \<times> fuse_opt_context" where
  "add_opt ctx opt = (0, ctx\<lparr>oopts := add_opt_common (oopts ctx) opt True\<rparr>)"

section \<open>Matching\<close>

definition call_proc :: "opt_env \<Rightarrow> fuse_opt_context \<Rightarrow> string \<Rightarrow> int \<Rightarrow> bool \<Rightarrow> int \<times> fuse_opt_context" where
  "call_proc env ctx arg key is_o =
     (if key = FUSE_OPT_KEY_DISCARD then (0, ctx)
      else let (res, ctx) =
             (case opt_proc env of
                Some proc \<Rightarrow>
                  if key \<noteq> FUSE_OPT_KEY_KEEP
                  then let (r, d, out) = proc (odata ctx) arg key (outargs ctx)
                       in (if r = -1 \<or> r = 0 then Some r else None, ctx\<lparr>odata := d, outargs := out\<rparr>)
                  else (None, ctx)
              | None \<Rightarrow> (None, ctx))
           in case res of Some r \<Rightarrow> (r, ctx)
              | None \<Rightarrow> if is_o then add_opt ctx arg else add_arg ctx arg)"

fun strchr :: "string \<Rightarrow> char \<Rightarrow> nat option" where
  "strchr [] c = None"
| "strchr (x # xs) c = (if x = c then Some 0 else map_option Suc (strchr xs c))"

text \<open>Result: the index \<open>*sepp\<close> in case of a match.\<close>

definition match_template :: "string \<Rightarrow> string \<Rightarrow> nat option" where
  "match_template t arg =
     (let sep = (case strchr t (CHR ''='') of Some i \<Rightarrow> Some i | None \<Rightarrow> strchr t (CHR '' ''));
          by_sep = (case sep of
             Some i \<Rightarrow> (char_at t (i + 1) = NUL \<or> char_at t (i + 1) = CHR ''%'') \<and>
               (let tlen = (if char_at t i = CHR ''='' then i + 1 else i)
                in length arg \<ge> tlen \<and> take tlen arg = take tlen t)
           | None \<Rightarrow> False)
      in if by_sep then sep else if t = arg then Some 0 else None)"

text \<open>Result: the option that matches, the options behind it in the table, and \<open>*sepp\<close>.\<close>

fun find_opt :: "fuse_opt list \<Rightarrow> string \<Rightarrow> (fuse_opt \<times> fuse_opt list \<times> nat) option" where
  "find_opt [] arg = None"
| "find_opt (opt # opts) arg =
     (case match_template (templ opt) arg of Some sep \<Rightarrow> Some (opt, opts, sep) | None \<Rightarrow> find_opt opts arg)"

definition fuse_opt_match :: "fuse_opt list \<Rightarrow> string \<Rightarrow> int" where
  "fuse_opt_match opts opt = (if find_opt opts opt \<noteq> None then 1 else 0)"

definition process_opt_param ::
  "opt_env \<Rightarrow> fuse_opt_context \<Rightarrow> nat \<Rightarrow> string \<Rightarrow> string \<Rightarrow> int \<times> fuse_opt_context" where
  "process_opt_param env ctx var format param =
     (if char_at format 1 = CHR ''s'' then (0, ctx\<lparr>odata := (odata ctx)(var \<mapsto> VStr param)\<rparr>)
      else case opt_scan env format param of
             Some v \<Rightarrow> (0, ctx\<lparr>odata := (odata ctx)(var \<mapsto> VInt v)\<rparr>)
           | None \<Rightarrow> (-1, ctx))"

definition process_opt ::
  "opt_env \<Rightarrow> fuse_opt_context \<Rightarrow> fuse_opt \<Rightarrow> nat \<Rightarrow> string \<Rightarrow> bool \<Rightarrow> int \<times> fuse_opt_context" where
  "process_opt env ctx opt sep arg is_o =
     (if offset opt = NO_OFFSET then
        (let (res, ctx) = call_proc env ctx arg (ovalue opt) is_o in (if res = -1 then -1 else 0, ctx))
      else if sep \<noteq> 0 \<and> char_at (templ opt) (sep + 1) \<noteq> NUL then
        (let param = drop (if char_at (templ opt) sep = CHR ''='' then sep + 1 else sep) arg;
             (res, ctx) = process_opt_param env ctx (offset opt) (drop (sep + 1) (templ opt)) param
         in (if res = -1 then -1 else 0, ctx))
      else (0, ctx\<lparr>odata := (odata ctx)(offset opt \<mapsto> VInt (ovalue opt))\<rparr>))"

definition process_opt_sep_arg ::
  "opt_env \<Rightarrow> fuse_opt_context \<Rightarrow> fuse_opt \<Rightarrow> nat \<Rightarrow> string \<Rightarrow> bool \<Rightarrow> int \<times> fuse_opt_context" where
  "process_opt_sep_arg env ctx opt sep arg is_o =
     (let (res, ctx) = next_arg ctx
      in if res = -1 then (-1, ctx)
         else process_opt env ctx opt sep (take sep arg @ oargv ctx ! argctr ctx) is_o)"

lemma find_opt_shorter: "find_opt opts arg = Some (opt, rest, sep) \<Longrightarrow> length rest < length opts"
  by (induction opts) (auto split: option.splits)

text \<open>The loop over all options of the table that match.\<close>

function gopt_loop :: "opt_env \<Rightarrow> fuse_opt list \<Rightarrow> fuse_opt_context \<Rightarrow> string \<Rightarrow> bool \<Rightarrow> int \<times> fuse_opt_context" where
  "gopt_loop env opts ctx arg is_o =
     (case find_opt opts arg of
        None \<Rightarrow> (0, ctx)
      | Some (opt, rest, sep) \<Rightarrow>
          let (res, ctx) =
            (if sep \<noteq> 0 \<and> char_at (templ opt) sep = CHR '' '' \<and> char_at arg sep = NUL
             then process_opt_sep_arg env ctx opt sep arg is_o
             else process_opt env ctx opt sep arg is_o)
          in if res = -1 then (-1, ctx) else gopt_loop env rest ctx arg is_o)"
  by auto
termination
  by (relation "measure (\<lambda>(env, opts, ctx, arg, is_o). length opts)") (auto dest: find_opt_shorter)

declare gopt_loop.simps [simp del]

definition process_gopt :: "opt_env \<Rightarrow> fuse_opt_context \<Rightarrow> string \<Rightarrow> bool \<Rightarrow> int \<times> fuse_opt_context" where
  "process_gopt env ctx arg is_o =
     (if find_opt (opt_table env) arg \<noteq> None then gopt_loop env (opt_table env) ctx arg is_o
      else call_proc env ctx arg FUSE_OPT_KEY_OPT is_o)"

section \<open>Groups of options\<close>

definition is_digit :: "char \<Rightarrow> char \<Rightarrow> bool" where
  "is_digit hi c \<longleftrightarrow> CHR ''0'' \<le> c \<and> c \<le> hi"

definition octal_escape :: "string \<Rightarrow> bool" where
  "octal_escape s \<longleftrightarrow> is_digit (CHR ''3'') (char_at s 0) \<and> is_digit (CHR ''7'') (char_at s 1)
     \<and> is_digit (CHR ''7'') (char_at s 2)"

definition octal_value :: "string \<Rightarrow> char" where
  "octal_value s = char_of ((of_char (char_at s 0) - 48) * 64 + (of_char (char_at s 1) - 48) * 8
     + (of_char (char_at s 2) - 48) :: nat)"

text \<open>
  The group is unescaped in place, behind the reading position: \<open>acc\<close> is what was written,
  last character first. A zero character ends the string.
\<close>

definition written :: "string \<Rightarrow> string" where
  "written acc = takeWhile (\<lambda>c. c \<noteq> NUL) (rev acc)"

function option_group :: "opt_env \<Rightarrow> fuse_opt_context \<Rightarrow> string \<Rightarrow> string \<Rightarrow> int \<times> fuse_opt_context" where
  "option_group env ctx acc [] =
     (let (res, ctx) = process_gopt env ctx (written acc) True in (if res = -1 then -1 else 0, ctx))"
| "option_group env ctx acc (c # s) =
     (if c = CHR '','' then
        (let (res, ctx) = process_gopt env ctx (written acc) True
         in if res = -1 then (-1, ctx) else option_group env ctx [] s)
      else if c = CHR 0x5C \<and> s \<noteq> [] then
        (if octal_escape s then option_group env ctx (octal_value s # acc) (drop 3 s)
         else option_group env ctx (hd s # acc) (tl s))
      else option_group env ctx (c # acc) s)"
  by pat_completeness auto
termination by (relation "measure (\<lambda>(env, ctx, acc, s). length s)") auto

definition process_option_group :: "opt_env \<Rightarrow> fuse_opt_context \<Rightarrow> string \<Rightarrow> int \<times> fuse_opt_context" where
  "process_option_group env ctx opts = option_group env ctx [] opts"

section \<open>The command line\<close>

definition process_one :: "opt_env \<Rightarrow> fuse_opt_context \<Rightarrow> string \<Rightarrow> int \<times> fuse_opt_context" where
  "process_one env ctx arg =
     (if nonopt ctx \<noteq> 0 \<or> char_at arg 0 \<noteq> CHR ''-'' then call_proc env ctx arg FUSE_OPT_KEY_NONOPT False
      else if char_at arg 1 = CHR ''o'' then
        (if char_at arg 2 \<noteq> NUL then process_option_group env ctx (drop 2 arg)
         else let (res, ctx) = next_arg ctx
              in if res = -1 then (-1, ctx) else process_option_group env ctx (oargv ctx ! argctr ctx))
      else if char_at arg 1 = CHR ''-'' \<and> char_at arg 2 = NUL then
        (let (res, ctx) = add_arg ctx arg
         in if res = -1 then (-1, ctx) else (0, ctx\<lparr>nonopt := length (outargs ctx)\<rparr>))
      else process_gopt env ctx arg False)"

text \<open>No step reads an argument twice, nor changes the arguments.\<close>

definition advances :: "fuse_opt_context \<Rightarrow> fuse_opt_context \<Rightarrow> bool" where
  "advances ctx ctx' \<longleftrightarrow> oargv ctx' = oargv ctx \<and> argctr ctx \<le> argctr ctx'"

named_theorems parse_steps \<open>the operations of the parser only move forward in the arguments\<close>

lemma advances_refl [simp]: "advances ctx ctx"
  by (simp add: advances_def)

lemma advances_trans: "advances a b \<Longrightarrow> advances b c \<Longrightarrow> advances a c"
  by (simp add: advances_def)

lemma next_arg_advances [parse_steps]: "next_arg ctx = (res, ctx') \<Longrightarrow> advances ctx ctx'"
  by (auto simp: next_arg_def advances_def split: if_splits)

lemma add_arg_advances [parse_steps]: "add_arg ctx arg = (res, ctx') \<Longrightarrow> advances ctx ctx'"
  by (auto simp: add_arg_def advances_def)

lemma call_proc_advances [parse_steps]: "call_proc env ctx arg key is_o = (res, ctx') \<Longrightarrow> advances ctx ctx'"
  by (auto simp: call_proc_def advances_def add_arg_def add_opt_def Let_def
        split: if_splits option.splits prod.splits)

lemma process_opt_advances [parse_steps]:
  "process_opt env ctx opt sep arg is_o = (res, ctx') \<Longrightarrow> advances ctx ctx'"
  by (auto simp: process_opt_def process_opt_param_def Let_def advances_def
        split: if_splits option.splits prod.splits dest: call_proc_advances [unfolded advances_def])

lemma process_opt_sep_arg_advances [parse_steps]:
  "process_opt_sep_arg env ctx opt sep arg is_o = (res, ctx') \<Longrightarrow> advances ctx ctx'"
  by (auto simp: process_opt_sep_arg_def split: if_splits prod.splits
        dest!: next_arg_advances process_opt_advances intro: advances_trans)

lemma gopt_loop_advances [parse_steps]: "gopt_loop env opts ctx arg is_o = (res, ctx') \<Longrightarrow> advances ctx ctx'"
proof (induction env opts ctx arg is_o arbitrary: res ctx' rule: gopt_loop.induct)
  case (1 env opts ctx arg is_o)
  show ?case
  proof (cases "find_opt opts arg")
    case None
    then show ?thesis using "1.prems" by (simp add: gopt_loop.simps)
  next
    case (Some m)
    obtain opt rest sep where m: "m = (opt, rest, sep)" by (cases m) auto
    let ?step = "if sep \<noteq> 0 \<and> char_at (templ opt) sep = CHR '' '' \<and> char_at arg sep = NUL
             then process_opt_sep_arg env ctx opt sep arg is_o
             else process_opt env ctx opt sep arg is_o"
    obtain r c where step: "?step = (r, c)" by fastforce
    have c: "advances ctx c"
      using step by (auto split: if_splits dest: process_opt_sep_arg_advances process_opt_advances)
    show ?thesis
    proof (cases "r = -1")
      case True
      then show ?thesis using "1.prems" Some m step c by (simp add: gopt_loop.simps [of env opts])
    next
      case False
      then have "gopt_loop env rest c arg is_o = (res, ctx')"
        using "1.prems" Some m step by (simp add: gopt_loop.simps [of env opts])
      then show ?thesis
        using "1.IH" [OF Some m [symmetric] refl refl step [symmetric] False] c advances_trans by blast
    qed
  qed
qed

lemma process_gopt_advances [parse_steps]: "process_gopt env ctx arg is_o = (res, ctx') \<Longrightarrow> advances ctx ctx'"
  by (auto simp: process_gopt_def split: if_splits dest: gopt_loop_advances call_proc_advances)

lemma option_group_advances [parse_steps]: "option_group env ctx acc s = (res, ctx') \<Longrightarrow> advances ctx ctx'"
proof (induction env ctx acc s rule: option_group.induct)
  case (1 env ctx acc)
  then show ?case by (auto split: prod.splits dest: process_gopt_advances)
next
  case (2 env ctx acc c s)
  obtain r ctx1 where g: "process_gopt env ctx (written acc) True = (r, ctx1)" by fastforce
  then have adv: "advances ctx ctx1" by (rule process_gopt_advances)
  show ?case
    using 2 g adv by (auto split: if_splits intro: advances_trans)
qed

lemma process_one_advances [parse_steps]: "process_one env ctx arg = (res, ctx') \<Longrightarrow> advances ctx ctx'"
  by (auto simp: process_one_def process_option_group_def add_arg_def advances_def split: if_splits prod.splits
        dest!: call_proc_advances option_group_advances process_gopt_advances next_arg_advances)

function opt_loop :: "opt_env \<Rightarrow> fuse_opt_context \<Rightarrow> int \<times> fuse_opt_context" where
  "opt_loop env ctx =
     (if argctr ctx < length (oargv ctx)
      then let (res, ctx) = process_one env ctx (oargv ctx ! argctr ctx)
           in if res = -1 then (-1, ctx) else opt_loop env (ctx\<lparr>argctr := argctr ctx + 1\<rparr>)
      else (0, ctx))"
  by auto
termination
proof (relation "measure (\<lambda>(env, ctx). length (oargv ctx) - argctr ctx)")
  fix env ctx x res ctx'
  assume "argctr ctx < length (oargv ctx)"
    and "x = process_one env ctx (oargv ctx ! argctr ctx)" "(res, ctx') = x"
  then show "((env, ctx'\<lparr>argctr := argctr ctx' + 1\<rparr>), env, ctx)
      \<in> measure (\<lambda>(env, ctx). length (oargv ctx) - argctr ctx)"
    using process_one_advances [of env ctx "oargv ctx ! argctr ctx" res ctx'] by (auto simp: advances_def)
qed simp

declare opt_loop.simps [simp del]

definition opt_parse :: "opt_env \<Rightarrow> fuse_opt_context \<Rightarrow> int \<times> fuse_opt_context" where
  "opt_parse env ctx =
     (let (res, ctx) = (if length (oargv ctx) \<noteq> 0 then add_arg ctx (oargv ctx ! 0) else (0, ctx))
      in if res = -1 then (-1, ctx)
      else let (res, ctx) = opt_loop env (ctx\<lparr>argctr := 1\<rparr>)
      in if res = -1 then (-1, ctx)
      else let ctx = (case oopts ctx of
                 None \<Rightarrow> ctx
               | Some opts \<Rightarrow> ctx\<lparr>outargs := fuse_opt_insert_arg (fuse_opt_insert_arg (outargs ctx) 1 ''-o'') 2 opts\<rparr>)
      in (0, if nonopt ctx \<noteq> 0 \<and> nonopt ctx = length (outargs ctx) \<and> last (outargs ctx) = ''--''
             then ctx\<lparr>outargs := butlast (outargs ctx)\<rparr> else ctx))"

text \<open>Result: the return value, the data and the arguments afterwards.\<close>

definition fuse_opt_parse :: "opt_env \<Rightarrow> optdata \<Rightarrow> string list \<Rightarrow> int \<times> optdata \<times> string list" where
  "fuse_opt_parse env data args =
     (if args = [] then (0, data, args)
      else let (res, ctx) = opt_parse env \<lparr>odata = data, argctr = 0, oargv = args, outargs = [],
                                           oopts = None, nonopt = 0\<rparr>
           in (res, odata ctx, if res \<noteq> -1 then outargs ctx else args))"

section \<open>Escaping\<close>

text \<open>The options of a group, handled one after the other up to the first error.\<close>

fun process_all :: "opt_env \<Rightarrow> fuse_opt_context \<Rightarrow> string list \<Rightarrow> int \<times> fuse_opt_context" where
  "process_all env ctx [] = (0, ctx)"
| "process_all env ctx (opt # opts) =
     (let (res, ctx) = process_gopt env ctx opt True in if res = -1 then (-1, ctx) else process_all env ctx opts)"

definition add_opts :: "string list \<Rightarrow> string option \<Rightarrow> string option" where
  "add_opts opts acc = fold (\<lambda>opt acc. fuse_opt_add_opt_escaped acc opt) opts acc"

definition plain_opt :: "string \<Rightarrow> bool" where
  "plain_opt opt \<longleftrightarrow> opt \<noteq> [] \<and> NUL \<notin> set opt"

lemma escape_eq_Nil [simp]: "escape esc s = [] \<longleftrightarrow> s = []"
  by (induction s) auto

lemma written_rev [simp]: "NUL \<notin> set s \<Longrightarrow> written (rev s) = s"
  by (auto simp: written_def intro: takeWhile_eq_all_conv [THEN iffD2])

lemma octal_escape_special [simp]:
  "\<not> octal_escape (CHR '','' # s)" "\<not> octal_escape (CHR 0x5C # s)"
  by (simp_all add: octal_escape_def char_at_def is_digit_def less_eq_char_def)

lemma option_group_escaped:
  "option_group env ctx acc (escape True opt @ rest) = option_group env ctx (rev opt @ acc) rest"
  by (induction opt arbitrary: acc) auto

lemma add_opts_Cons:
  "opt \<noteq> [] \<Longrightarrow> old \<noteq> Some [] \<Longrightarrow> add_opts (opt # opts) old =
     add_opts opts (Some ((case old of None \<Rightarrow> [] | Some o' \<Rightarrow> o' @ [CHR '','']) @ escape True opt))"
  by (auto simp: add_opts_def fuse_opt_add_opt_escaped_def add_opt_common_def split: option.splits)

lemma add_opts_Some:
  "\<forall>opt \<in> set opts. opt \<noteq> [] \<Longrightarrow> old \<noteq> [] \<Longrightarrow>
     add_opts opts (Some old) = Some (old @ concat (map (\<lambda>opt. CHR '','' # escape True opt) opts))"
  by (induction opts arbitrary: old) (simp_all add: add_opts_Cons, simp add: add_opts_def)

lemma add_opts_None:
  "\<forall>opt \<in> set (opt # opts). opt \<noteq> [] \<Longrightarrow>
     add_opts (opt # opts) None = Some (escape True opt @ concat (map (\<lambda>opt. CHR '','' # escape True opt) opts))"
  by (simp add: add_opts_Cons add_opts_Some)

lemma gopt_loop_result: "gopt_loop env opts ctx arg is_o = (res, ctx') \<Longrightarrow> res = -1 \<or> res = 0"
proof (induction opts arbitrary: ctx rule: length_induct)
  case (1 opts)
  have "gopt_loop env rest c arg is_o = (res, ctx') \<Longrightarrow> res = -1 \<or> res = 0"
    if "find_opt opts arg = Some (opt, rest, sep)" for opt rest sep c
    using 1 find_opt_shorter [OF that] by blast
  then show ?case
    using "1.prems" by (subst (asm) gopt_loop.simps) (auto simp: Let_def split: option.splits prod.splits if_splits)
qed

lemma process_gopt_result: "process_gopt env ctx opt is_o = (res, ctx') \<Longrightarrow> res = -1 \<or> res = 0"
  by (auto simp: process_gopt_def call_proc_def add_arg_def add_opt_def Let_def
      split: if_splits option.splits prod.splits dest: gopt_loop_result)

lemma option_group_behind:
  "\<forall>opt \<in> set opts. plain_opt opt \<Longrightarrow> NUL \<notin> set first \<Longrightarrow>
     option_group env ctx (rev first) (concat (map (\<lambda>opt. CHR '','' # escape True opt) opts))
       = process_all env ctx (first # opts)"
proof (induction opts arbitrary: ctx first)
  case Nil
  then show ?case
    by (auto split: prod.splits dest: process_gopt_result)
next
  case (Cons opt opts)
  obtain r c where "process_gopt env ctx first True = (r, c)" by fastforce
  then show ?case
    using Cons by (simp add: option_group_escaped plain_opt_def)
qed

text \<open>
  C35. Escaping is undone by parsing: options joined by \<open>fuse_opt_add_opt_escaped\<close>, whatever
  commas and backslashes they contain, are handled by \<open>process_option_group\<close> one by one, in
  order and unchanged, up to the first that fails.
\<close>

theorem option_group_roundtrip:
  assumes "opts \<noteq> []" "\<forall>opt \<in> set opts. plain_opt opt"
    and "fold (\<lambda>opt acc. fuse_opt_add_opt_escaped acc opt) opts None = Some grp"
  shows "process_option_group env ctx grp = process_all env ctx opts"
proof (cases opts)
  case (Cons opt rest)
  then have "grp = escape True opt @ concat (map (\<lambda>opt. CHR '','' # escape True opt) rest)"
    using assms add_opts_None [of opt rest] by (simp add: plain_opt_def add_opts_def)
  then show ?thesis
    using Cons assms(2) option_group_behind [of rest opt env ctx]
    by (simp add: process_option_group_def option_group_escaped plain_opt_def)
qed (use assms in simp)

theorem option_group_roundtrip_witness:
  "process_option_group \<lparr>opt_table = [], opt_proc = None, opt_scan = \<lambda>_ _. None\<rparr>
     \<lparr>odata = \<lambda>_. None, argctr = 0, oargv = [], outargs = [], oopts = None, nonopt = 0\<rparr>
     (''ro,a=1'' @ [CHR 0x5C] @ '',2'') =
   process_all \<lparr>opt_table = [], opt_proc = None, opt_scan = \<lambda>_ _. None\<rparr>
     \<lparr>odata = \<lambda>_. None, argctr = 0, oargv = [], outargs = [], oopts = None, nonopt = 0\<rparr>
     [''ro'', ''a=1,2'']"
  by (rule option_group_roundtrip)
    (simp_all add: plain_opt_def fuse_opt_add_opt_escaped_def add_opt_common_def)

section \<open>Command lines of unknown options\<close>

text \<open>
  A command line, as groups of options behind \<open>-o\<close> and single arguments. An environment
  keeps it when no option of its table matches and it has no processing function: so
  libfuse leaves the options of a later stage to that stage.
\<close>

datatype arg_item = Group "string list" | Single string

fun render :: "arg_item \<Rightarrow> string list" where
  "render (Group opts) = [''-o'', case add_opts opts None of Some grp \<Rightarrow> grp | None \<Rightarrow> []]"
| "render (Single arg) = [arg]"

fun group_opts :: "arg_item \<Rightarrow> string list" where
  "group_opts (Group opts) = opts"
| "group_opts (Single arg) = []"

fun single_args :: "arg_item \<Rightarrow> string list" where
  "single_args (Group opts) = []"
| "single_args (Single arg) = [arg]"

definition unknown :: "opt_env \<Rightarrow> string \<Rightarrow> bool" where
  "unknown env arg \<longleftrightarrow> opt_proc env = None \<and> find_opt (opt_table env) arg = None"

fun kept_item :: "opt_env \<Rightarrow> arg_item \<Rightarrow> bool" where
  "kept_item env (Group opts) \<longleftrightarrow> opts \<noteq> [] \<and> (\<forall>opt \<in> set opts. plain_opt opt \<and> unknown env opt)"
| "kept_item env (Single arg) \<longleftrightarrow> unknown env arg \<and>
     (char_at arg 0 = CHR ''-'' \<longrightarrow> char_at arg 1 \<noteq> CHR ''o'' \<and> \<not> (char_at arg 1 = CHR ''-'' \<and> char_at arg 2 = NUL))"

lemma fuse_opt_insert_arg_at:
  "pos \<le> length args \<Longrightarrow> fuse_opt_insert_arg args pos arg = take pos args @ arg # drop pos args"
  by (auto simp: fuse_opt_insert_arg_def fuse_opt_add_arg_def Let_def)

lemma process_gopt_unknown:
  "unknown env arg \<Longrightarrow> process_gopt env ctx arg is_o = (if is_o then add_opt ctx arg else add_arg ctx arg)"
  by (simp add: unknown_def process_gopt_def call_proc_def FUSE_OPT_KEY_OPT_def FUSE_OPT_KEY_DISCARD_def)

lemma process_all_unknown:
  "\<forall>opt \<in> set opts. unknown env opt \<Longrightarrow> process_all env ctx opts = (0, ctx\<lparr>oopts := add_opts opts (oopts ctx)\<rparr>)"
  by (induction opts arbitrary: ctx)
    (simp_all add: process_gopt_unknown add_opt_def add_opts_def fuse_opt_add_opt_escaped_def)

lemma group_kept:
  assumes "opts \<noteq> []" "\<forall>opt \<in> set opts. plain_opt opt \<and> unknown env opt"
  shows "process_option_group env ctx (case add_opts opts None of Some grp \<Rightarrow> grp | None \<Rightarrow> [])
    = (0, ctx\<lparr>oopts := add_opts opts (oopts ctx)\<rparr>)"
proof (cases opts)
  case (Cons opt rest)
  then have "process_option_group env ctx (case add_opts opts None of Some grp \<Rightarrow> grp | None \<Rightarrow> [])
      = process_all env ctx opts"
    using assms(2) option_group_behind [of rest opt env ctx]
    by (simp add: add_opts_None process_option_group_def option_group_escaped plain_opt_def)
  then show ?thesis using assms(2) by (simp add: process_all_unknown)
qed (use assms in simp)

lemma process_single:
  "kept_item env (Single arg) \<Longrightarrow> nonopt ctx = 0 \<Longrightarrow> process_one env ctx arg = add_arg ctx arg"
  by (auto simp: process_one_def process_gopt_unknown) (auto simp: unknown_def call_proc_def
      FUSE_OPT_KEY_NONOPT_def FUSE_OPT_KEY_DISCARD_def)

text \<open>The loop over the kept part of a command line.\<close>

definition kept_ctx :: "fuse_opt_context \<Rightarrow> arg_item list \<Rightarrow> fuse_opt_context" where
  "kept_ctx ctx items = ctx\<lparr>argctr := argctr ctx + length (concat (map render items)),
     outargs := outargs ctx @ concat (map single_args items),
     oopts := add_opts (concat (map group_opts items)) (oopts ctx)\<rparr>"

lemma kept_ctx_Nil: "kept_ctx ctx [] = ctx"
  by (simp add: kept_ctx_def add_opts_def)

lemma kept_ctx_Cons: "kept_ctx ctx (item # items) = kept_ctx (kept_ctx ctx [item]) items"
  by (simp add: kept_ctx_def add_opts_def)

lemma ctx_update_swap:
  "ctx\<lparr>oopts := opts, argctr := n\<rparr> = ctx\<lparr>argctr := n, oopts := opts\<rparr>"
  "ctx\<lparr>outargs := args, argctr := n\<rparr> = ctx\<lparr>argctr := n, outargs := args\<rparr>"
  by (cases ctx, simp)+

lemma opt_loop_item:
  assumes "kept_item env item" "nonopt ctx = 0" "oargv ctx = pre @ render item @ rest" "argctr ctx = length pre"
  shows "opt_loop env ctx = opt_loop env (kept_ctx ctx [item])"
proof (cases item)
  case (Group opts)
  obtain grp where grp: "grp = (case add_opts opts None of Some grp \<Rightarrow> grp | None \<Rightarrow> [])" by simp
  have "process_one env ctx ''-o'' =
      process_option_group env (ctx\<lparr>argctr := argctr ctx + 1\<rparr>) grp"
    using assms Group by (simp add: process_one_def char_at_def next_arg_def nth_append grp)
  then show ?thesis
    using assms Group group_kept [of opts env "ctx\<lparr>argctr := argctr ctx + 1\<rparr>"]
    by (subst opt_loop.simps) (simp add: grp kept_ctx_def ctx_update_swap)
next
  case (Single arg)
  then show ?thesis
    using assms process_single [of env arg ctx]
    by (subst opt_loop.simps) (simp add: kept_ctx_def add_arg_def fuse_opt_add_arg_def add_opts_def ctx_update_swap)
qed

lemma opt_loop_kept:
  assumes "\<forall>item \<in> set items. kept_item env item" "nonopt ctx = 0"
    "oargv ctx = pre @ concat (map render items) @ rest" "argctr ctx = length pre"
  shows "opt_loop env ctx = opt_loop env (kept_ctx ctx items)"
  using assms
proof (induction items arbitrary: ctx pre)
  case Nil
  then show ?case by (simp add: kept_ctx_Nil)
next
  case (Cons item items)
  have "opt_loop env ctx = opt_loop env (kept_ctx ctx [item])"
    using Cons.prems by (intro opt_loop_item [where pre = pre]) simp_all
  also have "\<dots> = opt_loop env (kept_ctx (kept_ctx ctx [item]) items)"
    using Cons.prems by (intro Cons.IH [where pre = "pre @ render item"]) (simp_all add: kept_ctx_def)
  finally show ?case by (simp add: kept_ctx_Cons [symmetric])
qed

text \<open>The context behind the kept part of a whole command line.\<close>

definition parsed_ctx :: "optdata \<Rightarrow> string \<Rightarrow> arg_item list \<Rightarrow> string list \<Rightarrow> fuse_opt_context" where
  "parsed_ctx data prog items rest =
     \<lparr>odata = data, argctr = 1 + length (concat (map render items)),
      oargv = prog # concat (map render items) @ rest,
      outargs = prog # concat (map single_args items),
      oopts = add_opts (concat (map group_opts items)) None, nonopt = 0\<rparr>"

lemma opt_loop_command_line:
  assumes "\<forall>item \<in> set items. kept_item env item"
  shows "opt_loop env \<lparr>odata = data, argctr = 1, oargv = prog # concat (map render items) @ rest,
      outargs = [prog], oopts = None, nonopt = 0\<rparr> = opt_loop env (parsed_ctx data prog items rest)"
  using opt_loop_kept [OF assms, of "\<lparr>odata = data, argctr = 1, oargv = prog # concat (map render items) @ rest,
      outargs = [prog], oopts = None, nonopt = 0\<rparr>" "[prog]" rest]
  by (simp add: kept_ctx_def parsed_ctx_def)

text \<open>
  A command line of unknown options is kept and put in a normal form: all options of
  its \<open>-o\<close> arguments are joined, in their order, in one \<open>-o\<close> argument behind the program's
  name, and the other arguments follow in their order.
\<close>

theorem fuse_opt_parse_keeps:
  assumes "\<forall>item \<in> set items. kept_item env item"
  shows "fuse_opt_parse env data (prog # concat (map render items)) =
    (0, data, prog # (case add_opts (concat (map group_opts items)) None of
                        None \<Rightarrow> [] | Some grp \<Rightarrow> [''-o'', grp]) @ concat (map single_args items))"
proof -
  have "opt_loop env (parsed_ctx data prog items []) = (0, parsed_ctx data prog items [])"
    by (subst opt_loop.simps) (simp add: parsed_ctx_def)
  then show ?thesis
    using opt_loop_command_line [OF assms, of data prog "[]"]
    by (simp add: fuse_opt_parse_def opt_parse_def add_arg_def fuse_opt_add_arg_def parsed_ctx_def
        fuse_opt_insert_arg_at split: option.splits)
qed

theorem fuse_opt_parse_keeps_witness:
  "fuse_opt_parse \<lparr>opt_table = [], opt_proc = None, opt_scan = \<lambda>_ _. None\<rparr> (\<lambda>_. None)
     [''cyc'', ''mnt'', ''-o'', ''ro'', ''-f'', ''-o'', ''sync''] =
   (0, \<lambda>_. None, [''cyc'', ''-o'', ''ro,sync'', ''mnt'', ''-f''])"
  using fuse_opt_parse_keeps [of "[Single ''mnt'', Group [''ro''], Single ''-f'', Group [''sync'']]"
      "\<lparr>opt_table = [], opt_proc = None, opt_scan = \<lambda>_ _. None\<rparr>" "\<lambda>_. None" "''cyc''"]
  by (simp add: unknown_def plain_opt_def char_at_def add_opts_def fuse_opt_add_opt_escaped_def add_opt_common_def)

text \<open>
  An \<open>-o\<close> at the end of the command line, without its options, is an error, and the
  arguments stay as they were.
\<close>

theorem fuse_opt_parse_missing_argument:
  assumes "\<forall>item \<in> set items. kept_item env item"
  shows "fuse_opt_parse env data (prog # concat (map render items) @ [''-o'']) =
    (-1, data, prog # concat (map render items) @ [''-o''])"
proof -
  have "opt_loop env (parsed_ctx data prog items [''-o'']) = (-1, parsed_ctx data prog items [''-o''])"
    by (subst opt_loop.simps) (simp add: parsed_ctx_def process_one_def char_at_def next_arg_def nth_append)
  then show ?thesis
    using opt_loop_command_line [OF assms, of data prog "[''-o'']"]
    by (simp add: fuse_opt_parse_def opt_parse_def add_arg_def fuse_opt_add_arg_def parsed_ctx_def)
qed

theorem fuse_opt_parse_missing_argument_witness:
  "fuse_opt_parse \<lparr>opt_table = [], opt_proc = None, opt_scan = \<lambda>_ _. None\<rparr> (\<lambda>_. None)
     [''cyc'', ''mnt'', ''-o''] = (-1, \<lambda>_. None, [''cyc'', ''mnt'', ''-o''])"
  using fuse_opt_parse_missing_argument [of "[Single ''mnt'']"
      "\<lparr>opt_table = [], opt_proc = None, opt_scan = \<lambda>_ _. None\<rparr>" "\<lambda>_. None" "''cyc''"]
  by (simp add: unknown_def char_at_def)

text \<open>
  A separator \<open>--\<close> at the end of the command line is removed only if no option was
  kept: the \<open>-o\<close> argument is inserted before the comparison of \<open>nonopt\<close> with the number of
  arguments, which then differ.
\<close>

theorem fuse_opt_parse_separator:
  assumes "\<forall>item \<in> set items. kept_item env item"
  shows "fuse_opt_parse env data (prog # concat (map render items) @ [''--'']) =
    (0, data, case add_opts (concat (map group_opts items)) None of
       None \<Rightarrow> prog # concat (map single_args items)
     | Some grp \<Rightarrow> prog # ''-o'' # grp # concat (map single_args items) @ [''--''])"
proof -
  let ?ctx = "parsed_ctx data prog items [''--'']"
  let ?ctx' = "?ctx\<lparr>argctr := argctr ?ctx + 1, outargs := outargs ?ctx @ [''--''], nonopt := length (outargs ?ctx) + 1\<rparr>"
  have "opt_loop env ?ctx' = (0, ?ctx')"
    by (subst opt_loop.simps) (simp add: parsed_ctx_def)
  then have "opt_loop env ?ctx = (0, ?ctx')"
    by (subst opt_loop.simps)
      (simp add: parsed_ctx_def process_one_def char_at_def nth_append add_arg_def fuse_opt_add_arg_def)
  then show ?thesis
    using opt_loop_command_line [OF assms, of data prog "[''--'']"]
    by (simp add: fuse_opt_parse_def opt_parse_def add_arg_def fuse_opt_add_arg_def parsed_ctx_def
        fuse_opt_insert_arg_at split: option.splits)
qed

theorem fuse_opt_parse_separator_witness:
  "fuse_opt_parse \<lparr>opt_table = [], opt_proc = None, opt_scan = \<lambda>_ _. None\<rparr> (\<lambda>_. None)
     [''cyc'', ''-o'', ''ro'', ''--''] = (0, \<lambda>_. None, [''cyc'', ''-o'', ''ro'', ''--''])"
  using fuse_opt_parse_separator [of "[Group [''ro'']]"
      "\<lparr>opt_table = [], opt_proc = None, opt_scan = \<lambda>_ _. None\<rparr>" "\<lambda>_. None" "''cyc''"]
  by (simp add: unknown_def plain_opt_def add_opts_def fuse_opt_add_opt_escaped_def add_opt_common_def)

end
