(* ===== verification/Record_Locks.thy ===== *)
theory Record_Locks
  imports Main "HOL-Library.Monad_Syntax"
begin

text \<open>
  Locks on ranges of a file, as \<open>fcntl\<close> has them (\<open>lib/fuse.c\<close>): libfuse keeps the locks of a
  node in a list, answers a query from it where it can, and records the locks that the file
  system grants. The list \<open>node->locks\<close> is a list of records, and the loop of \<open>locks_insert\<close>,
  which moves a pointer to a pointer along it, is recursion on the list. \<open>newl1\<close> and \<open>newl2\<close>,
  the two records allocated in advance, are flags; writing through one that is not there
  (or no longer) is \<open>None\<close>. \<open>malloc\<close> succeeds.
\<close>

section \<open>The list of locks\<close>

definition F_RDLCK :: int where
  "F_RDLCK = 0"

definition F_WRLCK :: int where
  "F_WRLCK = 1"

definition F_UNLCK :: int where
  "F_UNLCK = 2"

definition OFFSET_MAX :: int where
  "OFFSET_MAX = 0x7fffffffffffffff"

record rlock =
  ltype :: int
  lstart :: int
  lend :: int
  lpid :: int
  lowner :: nat

record flock =
  l_type :: int
  l_start :: int
  l_len :: int
  l_pid :: int

fun locks_conflict :: "rlock list \<Rightarrow> rlock \<Rightarrow> rlock option" where
  "locks_conflict [] lock = None"
| "locks_conflict (l # ls) lock =
     (if lowner l \<noteq> lowner lock \<and> lstart lock \<le> lend l \<and> lstart l \<le> lend lock \<and> (ltype l = F_WRLCK \<or> ltype lock = F_WRLCK)
      then Some l else locks_conflict ls lock)"

text \<open>What follows the loop: the lock is put where the loop stopped.\<close>

definition put_lock :: "bool \<Rightarrow> rlock \<Rightarrow> rlock list \<Rightarrow> rlock list option" where
  "put_lock newl1 lock ls =
     (if ltype lock \<noteq> F_UNLCK then (if newl1 then Some (lock # ls) else None) else Some ls)"

text \<open>The loop, at the lock \<open>l\<close>: \<open>skip\<close> keeps it, \<open>delete\<close> drops it, \<open>break\<close> ends the loop, \<open>out\<close> returns.\<close>

function locks_loop :: "bool \<Rightarrow> bool \<Rightarrow> rlock \<Rightarrow> rlock list \<Rightarrow> rlock list option" where
  "locks_loop newl1 newl2 lock [] = put_lock newl1 lock []"
| "locks_loop newl1 newl2 lock (l # ls) =
     (if lowner l \<noteq> lowner lock then map_option ((#) l) (locks_loop newl1 newl2 lock ls)
      else if ltype lock = ltype l then
        (if lend l < lstart lock - 1 then map_option ((#) l) (locks_loop newl1 newl2 lock ls)
         else if lend lock < lstart l - 1 then put_lock newl1 lock (l # ls)
         else if lstart l \<le> lstart lock \<and> lend lock \<le> lend l then Some (l # ls)
         else locks_loop newl1 newl2
           (lock\<lparr>lstart := (if lstart l < lstart lock then lstart l else lstart lock),
                 lend := (if lend lock < lend l then lend l else lend lock)\<rparr>) ls)
      else
        (if lend l < lstart lock then map_option ((#) l) (locks_loop newl1 newl2 lock ls)
         else if lend lock < lstart l then put_lock newl1 lock (l # ls)
         else if lstart lock \<le> lstart l \<and> lend l \<le> lend lock then locks_loop newl1 newl2 lock ls
         else if lend l \<le> lend lock then
           map_option ((#) (l\<lparr>lend := lstart lock - 1\<rparr>)) (locks_loop newl1 newl2 lock ls)
         else if lstart lock \<le> lstart l then put_lock newl1 lock (l\<lparr>lstart := lend lock + 1\<rparr> # ls)
         else if newl2 then
           map_option ((#) (l\<lparr>lend := lstart lock - 1\<rparr>)) (locks_loop newl1 False lock (l\<lparr>lstart := lend lock + 1\<rparr> # ls))
         else None))"
  by pat_completeness auto
termination
  by (relation "measures [\<lambda>(a, b, lock, ls). length ls, \<lambda>(a, b, lock, ls). if b then 1 else 0]") auto

definition locks_insert :: "rlock \<Rightarrow> rlock list \<Rightarrow> rlock list option" where
  "locks_insert lock ls =
     (let alloc = (ltype lock \<noteq> F_UNLCK \<or> lstart lock \<noteq> 0 \<or> lend lock \<noteq> OFFSET_MAX)
      in locks_loop alloc alloc lock ls)"

definition flock_to_lock :: "flock \<Rightarrow> nat \<Rightarrow> rlock" where
  "flock_to_lock flock owner =
     \<lparr>ltype = l_type flock, lstart = l_start flock,
      lend = (if l_len flock \<noteq> 0 then l_start flock + l_len flock - 1 else OFFSET_MAX),
      lpid = l_pid flock, lowner = owner\<rparr>"

definition lock_to_flock :: "rlock \<Rightarrow> flock" where
  "lock_to_flock lock =
     \<lparr>l_type = ltype lock, l_start = lstart lock,
      l_len = (if lend lock = OFFSET_MAX then 0 else lend lock - lstart lock + 1),
      l_pid = lpid lock\<rparr>"

text \<open>
  The requests, on the locks of the node: \<open>fs_lock\<close> is the answer of the file system
  (\<open>fuse_lock_common\<close>), \<open>fs_flush\<close> that of its flush. A query is answered with a lock
  (\<open>Inr\<close>) or an error.
\<close>

definition fuse_lib_getlk :: "(flock \<Rightarrow> int \<times> flock) \<Rightarrow> nat \<Rightarrow> flock \<Rightarrow> rlock list \<Rightarrow> int + flock" where
  "fuse_lib_getlk fs_lock owner flock ls =
     (case locks_conflict ls (flock_to_lock flock owner) of
        Some conflict \<Rightarrow> Inr (lock_to_flock conflict)
      | None \<Rightarrow> (let (err, flock) = fs_lock flock in if err = 0 then Inr flock else Inl err))"

definition fuse_lib_setlk :: "(flock \<Rightarrow> int \<times> flock) \<Rightarrow> nat \<Rightarrow> flock \<Rightarrow> rlock list \<Rightarrow> (int \<times> rlock list) option" where
  "fuse_lib_setlk fs_lock owner flock ls =
     (let (err, flock) = fs_lock flock
      in if err = 0 then do { ls \<leftarrow> locks_insert (flock_to_lock flock owner) ls; Some (err, ls) }
         else Some (err, ls))"

definition ENOSYS :: int where
  "ENOSYS = 38"

definition fuse_flush_common :: "int \<Rightarrow> (flock \<Rightarrow> int \<times> flock) \<Rightarrow> nat \<Rightarrow> rlock list \<Rightarrow> (int \<times> rlock list) option" where
  "fuse_flush_common fs_flush fs_lock owner ls =
     (let lock = \<lparr>l_type = F_UNLCK, l_start = 0, l_len = 0, l_pid = 0\<rparr>;
          err = fs_flush;
          (errlock, lock) = fs_lock lock
      in if errlock \<noteq> - ENOSYS then do {
           ls \<leftarrow> locks_insert (flock_to_lock lock owner) ls;
           Some (if err = - ENOSYS then 0 else err, ls) }
         else Some (err, ls))"

section \<open>What is locked\<close>

text \<open>The lock an owner has on a byte; the invariant: per owner the locks are in order, disjoint and merged.\<close>

definition covers :: "rlock \<Rightarrow> int \<Rightarrow> bool" where
  "covers l b \<longleftrightarrow> lstart l \<le> b \<and> b \<le> lend l"

definition lock_at :: "rlock list \<Rightarrow> nat \<Rightarrow> int \<Rightarrow> int option" where
  "lock_at ls own b = map_option ltype (find (\<lambda>l. lowner l = own \<and> covers l b) ls)"

definition in_range :: "rlock \<Rightarrow> bool" where
  "in_range l \<longleftrightarrow> 0 \<le> lstart l \<and> lstart l \<le> lend l \<and> lend l \<le> OFFSET_MAX"

definition before :: "rlock \<Rightarrow> rlock \<Rightarrow> bool" where
  "before l m \<longleftrightarrow> (lowner l = lowner m \<longrightarrow> lend l < lstart m \<and> (ltype l = ltype m \<longrightarrow> lend l + 1 < lstart m))"

definition locks_ok :: "rlock list \<Rightarrow> bool" where
  "locks_ok ls \<longleftrightarrow> (\<forall>l \<in> set ls. in_range l \<and> (ltype l = F_RDLCK \<or> ltype l = F_WRLCK)) \<and> sorted_wrt before ls"

lemma lock_at_Cons: "lock_at (l # ls) own b = (if lowner l = own \<and> covers l b then Some (ltype l) else lock_at ls own b)"
  by (simp add: lock_at_def)

lemma lock_at_Nil [simp]: "lock_at [] own b = None"
  by (simp add: lock_at_def)

lemma lock_at_None: "\<forall>l \<in> set ls. lowner l = own \<longrightarrow> \<not> covers l b \<Longrightarrow> lock_at ls own b = None"
  by (auto simp: lock_at_def find_None_iff)

lemma locks_ok_Cons: "locks_ok (l # ls) \<longleftrightarrow> in_range l \<and> (ltype l = F_RDLCK \<or> ltype l = F_WRLCK) \<and> (\<forall>m \<in> set ls. before l m) \<and> locks_ok ls"
  by (auto simp: locks_ok_def)

text \<open>What setting a lock is to do, with the order the list has to keep with respect to locks before it.\<close>

definition sets :: "rlock \<Rightarrow> rlock list \<Rightarrow> rlock list \<Rightarrow> bool" where
  "sets lock ls ls' \<longleftrightarrow> locks_ok ls'
     \<and> (\<forall>own b. lock_at ls' own b =
          (if own = lowner lock \<and> covers lock b then (if ltype lock = F_UNLCK then None else Some (ltype lock)) else lock_at ls own b))
     \<and> (\<forall>k. before k lock \<longrightarrow> (\<forall>m \<in> set ls. before k m) \<longrightarrow> (\<forall>m \<in> set ls'. before k m))"

lemma setsI:
  assumes "locks_ok ls'" "\<And>own b. lock_at ls' own b =
      (if own = lowner lock \<and> covers lock b then (if ltype lock = F_UNLCK then None else Some (ltype lock)) else lock_at ls own b)"
    "\<And>k m. before k lock \<Longrightarrow> \<forall>m \<in> set ls. before k m \<Longrightarrow> m \<in> set ls' \<Longrightarrow> before k m"
  shows "sets lock ls ls'"
  unfolding sets_def using assms by blast

lemma setsD:
  assumes "sets lock ls ls'"
  shows "locks_ok ls'" "lock_at ls' own b =
      (if own = lowner lock \<and> covers lock b then (if ltype lock = F_UNLCK then None else Some (ltype lock)) else lock_at ls own b)"
    "before k lock \<Longrightarrow> \<forall>m \<in> set ls. before k m \<Longrightarrow> m \<in> set ls' \<Longrightarrow> before k m"
  using assms unfolding sets_def by blast+

definition settable :: "rlock \<Rightarrow> bool" where
  "settable lock \<longleftrightarrow> in_range lock \<and> (ltype lock = F_RDLCK \<or> ltype lock = F_WRLCK \<or> ltype lock = F_UNLCK)"

lemma put_lock_sets:
  assumes "locks_ok ls" "settable lock" "\<forall>m \<in> set ls. before lock m" "newl1 \<or> ltype lock = F_UNLCK"
  shows "\<exists>ls'. put_lock newl1 lock ls = Some ls' \<and> sets lock ls ls'"
proof -
  have free: "lock_at ls (lowner lock) b = None" if "covers lock b" for b
    by (rule lock_at_None) (use assms(3) that in \<open>auto simp: before_def covers_def\<close>)
  show ?thesis
  proof (cases "ltype lock = F_UNLCK")
    case True
    then show ?thesis using assms(1) free by (simp add: put_lock_def sets_def)
  next
    case False
    then have "locks_ok (lock # ls)" using assms(1-3) by (simp add: locks_ok_Cons settable_def)
    then show ?thesis using assms(4) False by (auto simp: put_lock_def sets_def lock_at_Cons)
  qed
qed

lemma sets_skip:
  assumes "sets lock ls ls'" "locks_ok (l # ls)" "before l lock"
  shows "sets lock (l # ls) (l # ls')"
proof -
  have "\<forall>m \<in> set ls'. before l m" using assms by (simp add: sets_def locks_ok_Cons)
  then have "locks_ok (l # ls')" using assms by (simp add: sets_def locks_ok_Cons)
  moreover have "\<not> (lowner l = lowner lock \<and> covers l b \<and> covers lock b)" for b using assms(3) by (auto simp: before_def covers_def)
  ultimately show ?thesis by (intro setsI) (auto simp: lock_at_Cons setsD(2) [OF assms(1)] intro: setsD(3) [OF assms(1)])
qed

lemma sets_from:
  assumes "sets lock ls1 ls'" "\<And>own b. \<not> (own = lowner lock \<and> covers lock b) \<Longrightarrow> lock_at ls1 own b = lock_at ls own b"
    "\<And>k m. before k lock \<Longrightarrow> \<forall>m \<in> set ls. before k m \<Longrightarrow> m \<in> set ls1 \<Longrightarrow> before k m"
  shows "sets lock ls ls'"
proof (rule setsI)
  show "locks_ok ls'" by (rule setsD(1) [OF assms(1)])
  show "lock_at ls' own b = (if own = lowner lock \<and> covers lock b then (if ltype lock = F_UNLCK then None else Some (ltype lock)) else lock_at ls own b)" for own b
    using assms(2) [of own b] setsD(2) [OF assms(1), of own b] by metis
  show "before k m" if "before k lock" "\<forall>m \<in> set ls. before k m" "m \<in> set ls'" for k m
    using setsD(3) [OF assms(1) that(1) _ that(3)] assms(3) [OF that(1,2)] by blast
qed

lemma sets_merge:
  assumes "sets lock' ls ls'" "locks_ok (l # ls)" "lowner l = lowner lock" "ltype lock = ltype l"
    "lstart lock \<le> lend l + 1" "lstart l \<le> lend lock + 1"
    "lock' = lock\<lparr>lstart := min (lstart l) (lstart lock), lend := max (lend l) (lend lock)\<rparr>"
  shows "sets lock (l # ls) ls'"
proof -
  have type: "ltype lock \<noteq> F_UNLCK" using assms(2,4) by (auto simp: locks_ok_Cons F_UNLCK_def F_RDLCK_def F_WRLCK_def)
  have cov: "covers lock' b \<longleftrightarrow> covers lock b \<or> covers l b" for b using assms(5,6,7) by (auto simp: covers_def)
  have "\<forall>k. before k lock \<longrightarrow> before k l \<longrightarrow> before k lock'" using assms(3,4,7) by (auto simp: before_def)
  note before_merged = this
  have same: "lowner lock' = lowner lock" "ltype lock' = ltype lock" using assms(7) by simp_all
  show ?thesis
  proof (rule setsI)
    show "locks_ok ls'" by (rule setsD(1) [OF assms(1)])
    show "lock_at ls' own b = (if own = lowner lock \<and> covers lock b then (if ltype lock = F_UNLCK then None else Some (ltype lock)) else lock_at (l # ls) own b)" for own b
      using type assms(3,4) by (auto simp add: setsD(2) [OF assms(1)] same cov lock_at_Cons)
    show "before k m" if "before k lock" "\<forall>m \<in> set (l # ls). before k m" "m \<in> set ls'" for k m
      using setsD(3) [OF assms(1) _ _ that(3)] before_merged that(1,2) by simp
  qed
qed

text \<open>Where a second record is needed, it is there: no lock has the new one inside it, or it has not been used.\<close>

definition spare :: "bool \<Rightarrow> rlock \<Rightarrow> rlock list \<Rightarrow> bool" where
  "spare newl2 lock ls \<longleftrightarrow> newl2 \<or> (\<forall>l \<in> set ls. lowner l = lowner lock \<longrightarrow> lstart lock \<le> lstart l \<or> lend l \<le> lend lock)"

lemma sets_map:
  assumes "\<exists>ls'. r = Some ls' \<and> sets lock ls ls'" "locks_ok (l # ls)" "before l lock"
  shows "\<exists>ls'. map_option ((#) l) r = Some ls' \<and> sets lock (l # ls) ls'"
  using assms sets_skip by auto

lemma sets_ex_from:
  assumes "\<exists>ls'. r = Some ls' \<and> sets lock ls1 ls'" "\<And>own b. \<not> (own = lowner lock \<and> covers lock b) \<Longrightarrow> lock_at ls1 own b = lock_at ls own b"
    "\<And>k m. before k lock \<Longrightarrow> \<forall>m \<in> set ls. before k m \<Longrightarrow> m \<in> set ls1 \<Longrightarrow> before k m"
  shows "\<exists>ls'. r = Some ls' \<and> sets lock ls ls'"
  using assms(1) sets_from [OF _ assms(2,3)] by blast

text \<open>The two parts of a lock that lie before and after the new one.\<close>

lemma left_part:
  assumes "locks_ok (l # ls)" "lowner l = lowner lock" "ltype lock \<noteq> ltype l" "lstart l < lstart lock" "lstart lock \<le> lend l" "in_range lock"
  shows "locks_ok (l\<lparr>lend := lstart lock - 1\<rparr> # ls)" "before (l\<lparr>lend := lstart lock - 1\<rparr>) lock"
  using assms by (auto simp: locks_ok_Cons in_range_def before_def)

lemma right_part:
  assumes "locks_ok (l # ls)" "lowner l = lowner lock" "ltype lock \<noteq> ltype l" "lend lock < lend l" "lstart l \<le> lend lock" "in_range lock"
  shows "locks_ok (l\<lparr>lstart := lend lock + 1\<rparr> # ls)" "\<forall>m \<in> set (l\<lparr>lstart := lend lock + 1\<rparr> # ls). before lock m"
  using assms by (auto simp: locks_ok_Cons in_range_def before_def)

lemma before_rest:
  assumes "locks_ok (l # ls)" "lowner l = lowner lock" "lend lock < lstart l" "ltype lock = ltype l \<longrightarrow> lend lock + 1 < lstart l"
  shows "\<forall>m \<in> set (l # ls). before lock m"
  using assms by (auto simp: locks_ok_Cons in_range_def before_def)

text \<open>The loop at a lock of the same owner, of the same type and of another type; \<open>IH\<close> is about the locks after it.\<close>

lemma loop_same_type:
  assumes pr: "locks_ok (l # ls)" "settable lock" "newl1 \<or> ltype lock = F_UNLCK" "spare newl2 lock ls"
    and same: "lowner l = lowner lock" "ltype lock = ltype l"
    and IH: "\<And>lock'. settable lock' \<Longrightarrow> newl1 \<or> ltype lock' = F_UNLCK \<Longrightarrow> spare newl2 lock' ls \<Longrightarrow>
      \<exists>ls'. locks_loop newl1 newl2 lock' ls = Some ls' \<and> sets lock' ls ls'"
  shows "\<exists>ls'. locks_loop newl1 newl2 lock (l # ls) = Some ls' \<and> sets lock (l # ls) ls'"
proof -
  consider (left) "lend l < lstart lock - 1" | (right) "\<not> lend l < lstart lock - 1" "lend lock < lstart l - 1"
    | (inside) "\<not> lend l < lstart lock - 1" "\<not> lend lock < lstart l - 1" "lstart l \<le> lstart lock \<and> lend lock \<le> lend l"
    | (merge) "\<not> lend l < lstart lock - 1" "\<not> lend lock < lstart l - 1" "\<not> (lstart l \<le> lstart lock \<and> lend lock \<le> lend l)" by blast
  then show ?thesis
  proof cases
    case left
    then have "before l lock" using same by (simp add: before_def)
    then show ?thesis using sets_map [OF IH [OF pr(2-4)] pr(1)] same left by simp
  next
    case right
    then show ?thesis using put_lock_sets [OF pr(1,2) before_rest [OF pr(1) same(1)] pr(3)] same by simp
  next
    case inside
    have "sets lock (l # ls) (l # ls)"
      by (rule setsI) (use pr(1) same inside in \<open>auto simp: lock_at_Cons covers_def locks_ok_Cons F_UNLCK_def F_RDLCK_def F_WRLCK_def\<close>)
    then show ?thesis using same inside by simp
  next
    case merge
    define lock' where "lock' = lock\<lparr>lstart := if lstart l < lstart lock then lstart l else lstart lock,
      lend := if lend lock < lend l then lend l else lend lock\<rparr>"
    have lk: "lock' = lock\<lparr>lstart := min (lstart l) (lstart lock), lend := max (lend l) (lend lock)\<rparr>"
      by (simp add: lock'_def min_def max_def)
    have "settable lock'" "newl1 \<or> ltype lock' = F_UNLCK" "spare newl2 lock' ls"
      using pr by (auto simp: lk settable_def in_range_def locks_ok_Cons spare_def)
    then obtain ls' where ls': "locks_loop newl1 newl2 lock' ls = Some ls'" "sets lock' ls ls'" using IH by blast
    have "sets lock (l # ls) ls'" by (rule sets_merge [OF ls'(2) pr(1) same _ _ lk]) (use merge in simp_all)
    then show ?thesis using ls'(1) same merge by (auto simp: lock'_def)
  qed
qed

lemma loop_other_type:
  assumes pr: "locks_ok (l # ls)" "settable lock" "newl1 \<or> ltype lock = F_UNLCK" "spare newl2 lock (l # ls)"
    and other: "lowner l = lowner lock" "ltype lock \<noteq> ltype l"
    and IH: "\<exists>ls'. locks_loop newl1 newl2 lock ls = Some ls' \<and> sets lock ls ls'"
  shows "\<exists>ls'. locks_loop newl1 newl2 lock (l # ls) = Some ls' \<and> sets lock (l # ls) ls'"
proof -
  let ?l = "l\<lparr>lend := lstart lock - 1\<rparr>" and ?r = "l\<lparr>lstart := lend lock + 1\<rparr>"
  have ok: "in_range l" "in_range lock" using pr(1,2) by (simp_all add: locks_ok_Cons settable_def)
  have lp: "locks_ok (?l # ls)" "before ?l lock" if "lstart l < lstart lock" "lstart lock \<le> lend l" using left_part [OF pr(1) other that ok(2)] .
  have rp: "\<exists>ls'. put_lock newl1 lock (?r # ls) = Some ls' \<and> sets lock (?r # ls) ls'" if "lend lock < lend l" "lstart l \<le> lend lock"
    using right_part [OF pr(1) other that ok(2)] by (intro put_lock_sets [OF _ pr(2) _ pr(3)])
  consider (left) "lend l < lstart lock" | (right) "\<not> lend l < lstart lock" "lend lock < lstart l"
    | (inside) "\<not> lend l < lstart lock" "\<not> lend lock < lstart l" "lstart lock \<le> lstart l" "lend l \<le> lend lock"
    | (cut_end) "\<not> lend l < lstart lock" "\<not> lend lock < lstart l" "lstart l < lstart lock" "lend l \<le> lend lock"
    | (cut_start) "\<not> lend l < lstart lock" "\<not> lend lock < lstart l" "lend lock < lend l" "lstart lock \<le> lstart l"
    | (split) "\<not> lend l < lstart lock" "\<not> lend lock < lstart l" "lend lock < lend l" "lstart l < lstart lock" by linarith
  then show ?thesis
  proof cases
    case left
    then have "before l lock" using other by (simp add: before_def)
    then show ?thesis using sets_map [OF IH pr(1)] other left by simp
  next
    case right
    then show ?thesis using put_lock_sets [OF pr(1,2) before_rest [OF pr(1) other(1) right(2)] pr(3)] other by simp
  next
    case inside
    from IH have "\<exists>ls'. locks_loop newl1 newl2 lock ls = Some ls' \<and> sets lock (l # ls) ls'"
      by (rule sets_ex_from) (use other inside in \<open>auto simp: lock_at_Cons covers_def\<close>)
    then show ?thesis using other inside by simp
  next
    case cut_end
    have "\<exists>ls'. map_option ((#) ?l) (locks_loop newl1 newl2 lock ls) = Some ls' \<and> sets lock (l # ls) ls'"
      by (rule sets_ex_from [OF sets_map [OF IH lp]]) (use other cut_end in \<open>auto simp: lock_at_Cons covers_def before_def\<close>)
    then show ?thesis using other cut_end by simp
  next
    case cut_start
    have "\<exists>ls'. put_lock newl1 lock (?r # ls) = Some ls' \<and> sets lock (l # ls) ls'"
      by (rule sets_ex_from [OF rp]) (use other cut_start in \<open>auto simp: lock_at_Cons covers_def before_def\<close>)
    then show ?thesis using other cut_start by simp
  next
    case split
    have newl2 using pr(4) other split by (auto simp: spare_def)
    have lr: "locks_ok (?l # ?r # ls)"
      using lp(1) right_part(1) [OF pr(1) other _ _ ok(2)] split ok(2) by (auto simp: locks_ok_Cons before_def in_range_def)
    have "locks_loop newl1 False lock (?r # ls) = put_lock newl1 lock (?r # ls)" using other split ok(2) by (simp add: in_range_def)
    then have r: "\<exists>ls'. locks_loop newl1 False lock (?r # ls) = Some ls' \<and> sets lock (?r # ls) ls'" using rp split by simp
    have "before ?l lock" using lp split by simp
    then have "\<exists>ls'. map_option ((#) ?l) (locks_loop newl1 False lock (?r # ls)) = Some ls' \<and> sets lock (l # ls) ls'"
      by (intro sets_ex_from [OF sets_map [OF r lr]]) (use other split ok(1) in \<open>auto simp: lock_at_Cons covers_def before_def in_range_def\<close>)
    then show ?thesis unfolding locks_loop.simps(2) [of newl1 newl2] using other split \<open>newl2\<close> by simp
  qed
qed

lemma locks_loop_sets:
  assumes "locks_ok ls" "settable lock" "newl1 \<or> ltype lock = F_UNLCK" "spare newl2 lock ls"
  shows "\<exists>ls'. locks_loop newl1 newl2 lock ls = Some ls' \<and> sets lock ls ls'"
  using assms
proof (induction ls arbitrary: lock)
  case Nil
  then show ?case using put_lock_sets [of "[]" lock newl1] by simp
next
  case (Cons l ls)
  have IH: "\<exists>ls'. locks_loop newl1 newl2 lock' ls = Some ls' \<and> sets lock' ls ls'"
    if "settable lock'" "newl1 \<or> ltype lock' = F_UNLCK" "spare newl2 lock' ls" for lock'
    using Cons.IH [OF _ that] Cons.prems(1) by (simp add: locks_ok_Cons)
  have sp: "spare newl2 lock ls" using Cons.prems(4) by (auto simp: spare_def)
  show ?case
  proof (cases "lowner l = lowner lock")
    case False
    then have "before l lock" by (simp add: before_def)
    then show ?thesis using sets_map [OF IH [OF Cons.prems(2,3) sp] Cons.prems(1)] False by simp
  next
    case True
    then show ?thesis
      using loop_same_type [OF Cons.prems(1-3) sp True _ IH] loop_other_type [OF Cons.prems True _ IH [OF Cons.prems(2,3) sp]] by blast
  qed
qed

lemma locks_insert_ok:
  assumes "locks_ok ls" "settable lock"
  shows "\<exists>ls'. locks_insert lock ls = Some ls' \<and> sets lock ls ls'"
proof -
  have "0 \<le> lstart l" if "l \<in> set ls" for l using assms(1) that by (simp add: locks_ok_def in_range_def)
  then show ?thesis unfolding locks_insert_def Let_def by (intro locks_loop_sets [OF assms]) (auto simp: spare_def)
qed

lemma locks_conflict_Some: "locks_conflict ls lock = Some l \<Longrightarrow> l \<in> set ls \<and> lowner l \<noteq> lowner lock
    \<and> lstart lock \<le> lend l \<and> lstart l \<le> lend lock \<and> (ltype l = F_WRLCK \<or> ltype lock = F_WRLCK)"
  by (induction ls) (auto split: if_splits)

lemma locks_conflict_None: "locks_conflict ls lock = None \<longleftrightarrow> (\<forall>l \<in> set ls. \<not> (lowner l \<noteq> lowner lock
    \<and> lstart lock \<le> lend l \<and> lstart l \<le> lend lock \<and> (ltype l = F_WRLCK \<or> ltype lock = F_WRLCK)))"
  by (induction ls) auto

lemma lock_at_Some: "lock_at ls own b = Some t \<Longrightarrow> \<exists>l \<in> set ls. lowner l = own \<and> covers l b \<and> ltype l = t"
  by (auto simp: lock_at_def find_Some_iff)

lemma lock_at_lock:
  assumes "locks_ok ls" "l \<in> set ls" "covers l b"
  shows "lock_at ls (lowner l) b = Some (ltype l)"
  using assms
proof (induction ls)
  case (Cons a ls)
  show ?case
  proof (cases "l \<in> set ls")
    case True
    then have "\<not> (lowner a = lowner l \<and> covers a b)" using Cons.prems(1,3) by (auto simp: locks_ok_Cons before_def covers_def)
    then show ?thesis using Cons.IH True Cons.prems by (auto simp: lock_at_Cons locks_ok_Cons)
  next
    case False
    then show ?thesis using Cons.prems by (simp add: lock_at_Cons)
  qed
qed simp

lemma locks_conflict_iff:
  assumes "locks_ok ls" "in_range lock"
  shows "locks_conflict ls lock = None \<longleftrightarrow>
    (\<forall>own b t. own \<noteq> lowner lock \<longrightarrow> covers lock b \<longrightarrow> lock_at ls own b = Some t \<longrightarrow> t \<noteq> F_WRLCK \<and> ltype lock \<noteq> F_WRLCK)"
proof
  assume n: "locks_conflict ls lock = None"
  show "\<forall>own b t. own \<noteq> lowner lock \<longrightarrow> covers lock b \<longrightarrow> lock_at ls own b = Some t \<longrightarrow> t \<noteq> F_WRLCK \<and> ltype lock \<noteq> F_WRLCK"
  proof (intro allI impI)
    fix own b t
    assume a: "own \<noteq> lowner lock" "covers lock b" "lock_at ls own b = Some t"
    then obtain l where "l \<in> set ls" "lowner l = own" "covers l b" "ltype l = t" using lock_at_Some by blast
    moreover have "lstart lock \<le> lend l" "lstart l \<le> lend lock" using a(2) calculation(3) by (auto simp: covers_def)
    ultimately show "t \<noteq> F_WRLCK \<and> ltype lock \<noteq> F_WRLCK" using n a(1) by (auto simp: locks_conflict_None)
  qed
next
  assume r: "\<forall>own b t. own \<noteq> lowner lock \<longrightarrow> covers lock b \<longrightarrow> lock_at ls own b = Some t \<longrightarrow> t \<noteq> F_WRLCK \<and> ltype lock \<noteq> F_WRLCK"
  show "locks_conflict ls lock = None"
  proof (rule ccontr)
    assume "locks_conflict ls lock \<noteq> None"
    then obtain l where "locks_conflict ls lock = Some l" by blast
    note l = locks_conflict_Some [OF this]
    let ?b = "max (lstart l) (lstart lock)"
    have "in_range l" using assms(1) l by (simp add: locks_ok_def)
    then have c: "covers l ?b" "covers lock ?b" using assms(2) l by (auto simp: covers_def in_range_def)
    then show False using r l lock_at_lock [OF assms(1) _ c(1)] by blast
  qed
qed

section \<open>The interface to a file system\<close>

text \<open>
  What a keeper of locks promises: setting a lock replaces what its owner has on the
  range, and a query tells whether another owner stands in the way.
\<close>

locale lock_book =
  fixes ok :: "'s \<Rightarrow> bool"
    and held :: "'s \<Rightarrow> nat \<Rightarrow> int \<Rightarrow> int option"
    and record_lock :: "rlock \<Rightarrow> 's \<Rightarrow> 's option"
    and conflict :: "'s \<Rightarrow> rlock \<Rightarrow> rlock option"
  assumes record_ok: "ok s \<Longrightarrow> settable l \<Longrightarrow> \<exists>s'. record_lock l s = Some s' \<and> ok s' \<and> (\<forall>own b. held s' own b =
      (if own = lowner l \<and> covers l b then (if ltype l = F_UNLCK then None else Some (ltype l)) else held s own b))"
    and conflict_iff: "ok s \<Longrightarrow> in_range l \<Longrightarrow> conflict s l = None \<longleftrightarrow>
      (\<forall>own b t. own \<noteq> lowner l \<longrightarrow> covers l b \<longrightarrow> held s own b = Some t \<longrightarrow> t \<noteq> F_WRLCK \<and> ltype l \<noteq> F_WRLCK)"
begin

definition exclusive :: "'s \<Rightarrow> bool" where
  "exclusive s \<longleftrightarrow> (\<forall>own1 own2 b. own1 \<noteq> own2 \<longrightarrow> held s own1 b = Some F_WRLCK \<longrightarrow> held s own2 b = None)"

text \<open>
  Recording a lock keeps write locks exclusive if and only if the lock is a release or no other
  owner stands in the way.
\<close>

lemma record_exclusive:
  assumes "ok s" "exclusive s" "settable l"
  shows "\<exists>s'. record_lock l s = Some s' \<and> ok s' \<and> (exclusive s' \<longleftrightarrow> ltype l = F_UNLCK \<or> conflict s l = None)"
proof -
  obtain s' where s': "record_lock l s = Some s'" "ok s'" and h: "\<And>own b. held s' own b =
      (if own = lowner l \<and> covers l b then (if ltype l = F_UNLCK then None else Some (ltype l)) else held s own b)"
    using record_ok [OF assms(1,3)] by blast
  note c = conflict_iff [OF assms(1), of l]
  have r: "in_range l" using assms(3) by (simp add: settable_def)
  have A: "exclusive s'" if f: "ltype l = F_UNLCK \<or> conflict s l = None"
    unfolding exclusive_def
  proof (intro allI impI)
    fix own1 own2 b
    assume a: "own1 \<noteq> own2" "held s' own1 b = Some F_WRLCK"
    have no: "t \<noteq> F_WRLCK \<and> ltype l \<noteq> F_WRLCK" if "ltype l \<noteq> F_UNLCK" "own \<noteq> lowner l" "covers l b" "held s own b = Some t" for own t
      using f c r that by blast
    show "held s' own2 b = None"
    proof (cases "covers l b \<and> (own1 = lowner l \<or> own2 = lowner l)")
      case True
      then show ?thesis using a no [of own1 F_WRLCK] no [of own2] by (auto simp: h split: if_splits) (metis not_None_eq)
    next
      case False
      then have "held s' own1 b = held s own1 b" "held s' own2 b = held s own2 b" by (auto simp: h)
      then show ?thesis using assms(2) a unfolding exclusive_def by metis
    qed
  qed
  have B: "ltype l = F_UNLCK \<or> conflict s l = None" if e: "exclusive s'"
  proof (rule ccontr)
    assume n: "\<not> (ltype l = F_UNLCK \<or> conflict s l = None)"
    then obtain own b t where w: "own \<noteq> lowner l" "covers l b" "held s own b = Some t" "t = F_WRLCK \<or> ltype l = F_WRLCK"
      using c [OF r] by auto
    have hs: "held s' own b = Some t" "held s' (lowner l) b = Some (ltype l)" using w n by (simp_all add: h)
    have ex: "held s' own2 b = None" if "own1 \<noteq> own2" "held s' own1 b = Some F_WRLCK" for own1 own2
      using e that unfolding exclusive_def by blast
    show False
    proof (cases "t = F_WRLCK")
      case True
      then show False using ex [OF w(1)] hs by simp
    next
      case False
      then show False using ex [of "lowner l" own] w(1,4) hs by auto
    qed
  qed
  show ?thesis by (intro exI [of _ s'] conjI s' iffI) (erule A B)+
qed

end

interpretation rlocks: lock_book locks_ok lock_at locks_insert locks_conflict
proof unfold_locales
  show "\<exists>s'. locks_insert l s = Some s' \<and> locks_ok s' \<and> (\<forall>own b. lock_at s' own b =
      (if own = lowner l \<and> covers l b then (if ltype l = F_UNLCK then None else Some (ltype l)) else lock_at s own b))"
    if "locks_ok s" "settable l" for s l using locks_insert_ok [OF that] setsD(1,2) by blast
qed (rule locks_conflict_iff)

section \<open>Sessions\<close>

text \<open>
  The locks of a node after any requests to set and to flush locks. The file system below grants
  what it likes and leaves the request as it is; that the granted locks do not conflict is
  not checked by libfuse and not assumed.
\<close>

definition unlock_all :: flock where
  "unlock_all = \<lparr>l_type = F_UNLCK, l_start = 0, l_len = 0, l_pid = 0\<rparr>"

inductive lock_session :: "rlock list \<Rightarrow> bool" where
  start: "lock_session []"
| setlk: "lock_session ls \<Longrightarrow> settable (flock_to_lock fl own) \<Longrightarrow> snd (fs_lock fl) = fl \<Longrightarrow>
    fuse_lib_setlk fs_lock own fl ls = Some (r, ls') \<Longrightarrow> lock_session ls'"
| flush: "lock_session ls \<Longrightarrow> snd (fs_lock unlock_all) = unlock_all \<Longrightarrow> fuse_flush_common fl fs_lock own ls = Some (r, ls') \<Longrightarrow> lock_session ls'"

lemma unlock_all_lock:
  "settable (flock_to_lock unlock_all own)" "ltype (flock_to_lock unlock_all own) = F_UNLCK" "lowner (flock_to_lock unlock_all own) = own"
  "covers (flock_to_lock unlock_all own) b \<longleftrightarrow> 0 \<le> b \<and> b \<le> OFFSET_MAX"
  by (simp_all add: unlock_all_def flock_to_lock_def settable_def in_range_def OFFSET_MAX_def covers_def)

lemma lock_session_inv: "lock_session ls \<Longrightarrow> locks_ok ls"
proof (induction rule: lock_session.induct)
  case start
  then show ?case by (simp add: locks_ok_def)
next
  case (setlk ls fl own fs_lock r ls')
  obtain s where s: "locks_insert (flock_to_lock fl own) ls = Some s" "sets (flock_to_lock fl own) ls s"
    using locks_insert_ok [OF setlk.IH setlk.hyps(2)] by blast
  define e where "e = fst (fs_lock fl)"
  have e: "fs_lock fl = (e, fl)" by (rule prod_eqI) (simp_all add: setlk.hyps(3) e_def)
  show ?case
  proof (cases "e = 0")
    case True
    then have "ls' = s" using s(1) setlk.hyps(4) e by (simp add: fuse_lib_setlk_def)
    then show ?thesis using setsD(1) [OF s(2)] by simp
  next
    case False
    then have "ls' = ls" using setlk.hyps(4) e by (simp add: fuse_lib_setlk_def)
    then show ?thesis using setlk.IH by simp
  qed
next
  case (flush ls fs_lock fl own r ls')
  obtain s where s: "locks_insert (flock_to_lock unlock_all own) ls = Some s" "sets (flock_to_lock unlock_all own) ls s"
    using locks_insert_ok [OF flush.IH unlock_all_lock(1)] by blast
  from s(1) setsD(1) [OF s(2)] show ?case using flush.hyps(2,3) flush.IH
    by (cases "fs_lock unlock_all") (auto simp: fuse_flush_common_def unlock_all_def [symmetric] split: if_splits)
qed

lemma one_lock_session: "lock_session [\<lparr>ltype = F_WRLCK, lstart = 0, lend = 8, lpid = 1, lowner = 7\<rparr>]"
proof (rule lock_session.setlk [OF lock_session.start])
  let ?fl = "\<lparr>l_type = F_WRLCK, l_start = 0, l_len = 9, l_pid = 1\<rparr>"
  show "fuse_lib_setlk (\<lambda>fl. (0, fl)) 7 ?fl [] = Some (0, [\<lparr>ltype = F_WRLCK, lstart = 0, lend = 8, lpid = 1, lowner = 7\<rparr>])"
    by (simp add: fuse_lib_setlk_def flock_to_lock_def locks_insert_def put_lock_def F_WRLCK_def F_UNLCK_def)
qed (simp_all add: flock_to_lock_def settable_def in_range_def OFFSET_MAX_def)

section \<open>What is shown\<close>

text \<open>
  C27. \<open>locks_insert\<close> sets a lock: it returns, the locks of every owner stay in order, disjoint and
  merged, on the bytes of the range the owner has the new lock (or none, for an unlock), and
  nothing else changes for any owner.
\<close>

theorem locks_insert_sets:
  assumes "locks_ok ls" "in_range lock" "ltype lock = F_RDLCK \<or> ltype lock = F_WRLCK \<or> ltype lock = F_UNLCK"
  shows "\<exists>ls'. locks_insert lock ls = Some ls' \<and> locks_ok ls' \<and> (\<forall>own b. lock_at ls' own b =
    (if own = lowner lock \<and> lstart lock \<le> b \<and> b \<le> lend lock then (if ltype lock = F_UNLCK then None else Some (ltype lock)) else lock_at ls own b))"
  using rlocks.record_ok [OF assms(1), of lock] assms(2,3) unfolding settable_def covers_def by blast

theorem locks_insert_sets_witness:
  "\<exists>ls'. locks_insert \<lparr>ltype = F_UNLCK, lstart = 3, lend = 5, lpid = 1, lowner = 7\<rparr> [\<lparr>ltype = F_WRLCK, lstart = 0, lend = 9, lpid = 1, lowner = 7\<rparr>] = Some ls'
    \<and> length ls' = 2 \<and> locks_ok ls' \<and> lock_at ls' 7 2 = Some F_WRLCK \<and> lock_at ls' 7 4 = None"
  using locks_insert_sets [of "[\<lparr>ltype = F_WRLCK, lstart = 0, lend = 9, lpid = 1, lowner = 7\<rparr>]" "\<lparr>ltype = F_UNLCK, lstart = 3, lend = 5, lpid = 1, lowner = 7\<rparr>"]
  by (simp add: locks_ok_def in_range_def OFFSET_MAX_def F_UNLCK_def F_WRLCK_def F_RDLCK_def lock_at_def covers_def locks_insert_def put_lock_def)

definition write_locks_exclude :: "rlock list \<Rightarrow> bool" where
  "write_locks_exclude ls \<longleftrightarrow> (\<forall>own1 own2 b. own1 \<noteq> own2 \<longrightarrow> lock_at ls own1 b = Some F_WRLCK \<longrightarrow> lock_at ls own2 b = None)"

lemma write_locks_exclude_rlocks: "write_locks_exclude ls = rlocks.exclusive ls"
  by (simp add: write_locks_exclude_def rlocks.exclusive_def)

text \<open>
  C28. \<open>fuse_lib_setlk\<close> records what the file system grants and does not check it: where write
  locks excluded each other before, they do afterwards if and only if the request was a
  release or no lock of another owner stood in the way.
\<close>

theorem setlk_keeps_exclusion:
  assumes "lock_session ls" "write_locks_exclude ls" "settable (flock_to_lock fl own)" "fs_lock fl = (0, fl)"
  shows "\<exists>ls'. fuse_lib_setlk fs_lock own fl ls = Some (0, ls') \<and> lock_session ls'
    \<and> (write_locks_exclude ls' \<longleftrightarrow> l_type fl = F_UNLCK \<or> locks_conflict ls (flock_to_lock fl own) = None)"
proof -
  have ty: "ltype (flock_to_lock fl own) = l_type fl" by (simp add: flock_to_lock_def)
  have "rlocks.exclusive ls" using assms(2) by (simp add: write_locks_exclude_rlocks)
  from rlocks.record_exclusive [OF lock_session_inv [OF assms(1)] this assms(3)]
  obtain ls' where ls': "locks_insert (flock_to_lock fl own) ls = Some ls'"
    "rlocks.exclusive ls' \<longleftrightarrow> ltype (flock_to_lock fl own) = F_UNLCK \<or> locks_conflict ls (flock_to_lock fl own) = None"
    by (elim exE conjE) (rule that)
  have r: "fuse_lib_setlk fs_lock own fl ls = Some (0, ls')" using ls'(1) assms(4) by (simp add: fuse_lib_setlk_def)
  have "lock_session ls'" by (rule lock_session.setlk [OF assms(1,3) _ r]) (simp add: assms(4))
  with r show ?thesis using ls'(2) by (intro exI [of _ ls'] conjI) (simp_all only: write_locks_exclude_rlocks ty)
qed

theorem setlk_keeps_exclusion_witness:
  "\<exists>ls'. fuse_lib_setlk (\<lambda>fl. (0, fl)) 8 \<lparr>l_type = F_RDLCK, l_start = 4, l_len = 0, l_pid = 2\<rparr>
      [\<lparr>ltype = F_WRLCK, lstart = 0, lend = 8, lpid = 1, lowner = 7\<rparr>] = Some (0, ls') \<and> lock_session ls' \<and> \<not> write_locks_exclude ls'"
proof -
  let ?fl = "\<lparr>l_type = F_RDLCK, l_start = 4, l_len = 0, l_pid = 2\<rparr>" and ?ls = "[\<lparr>ltype = F_WRLCK, lstart = 0, lend = 8, lpid = 1, lowner = 7\<rparr>]"
  have "settable (flock_to_lock ?fl 8)" "locks_conflict ?ls (flock_to_lock ?fl 8) \<noteq> None" "l_type ?fl \<noteq> F_UNLCK"
    by (simp_all add: flock_to_lock_def settable_def in_range_def OFFSET_MAX_def F_RDLCK_def F_WRLCK_def F_UNLCK_def)
  moreover have "write_locks_exclude ?ls" by (auto simp: write_locks_exclude_def lock_at_def)
  ultimately show ?thesis
    using setlk_keeps_exclusion [OF one_lock_session, where fs_lock = "\<lambda>fl. (0, fl)" and fl = ?fl and own = 8] by (metis (no_types))
qed

text \<open>
  C32. A query is answered by a lock that stands in the way if there is one, and by the file
  system only if there is none: a write lock of another owner in the range, or, if a write lock
  is asked for, any lock.
\<close>

theorem getlk_finds_conflict:
  assumes "lock_session ls" "in_range (flock_to_lock fl own)"
  shows "if \<exists>own' b t. own' \<noteq> own \<and> covers (flock_to_lock fl own) b \<and> lock_at ls own' b = Some t \<and> (t = F_WRLCK \<or> l_type fl = F_WRLCK)
    then \<exists>l \<in> set ls. fuse_lib_getlk fs_lock own fl ls = Inr (lock_to_flock l) \<and> lowner l \<noteq> own
      \<and> (\<exists>b. covers l b \<and> covers (flock_to_lock fl own) b) \<and> (ltype l = F_WRLCK \<or> l_type fl = F_WRLCK)
    else fuse_lib_getlk fs_lock own fl ls = (if fst (fs_lock fl) = 0 then Inr (snd (fs_lock fl)) else Inl (fst (fs_lock fl)))"
proof -
  let ?lock = "flock_to_lock fl own"
  have ok: "locks_ok ls" by (rule lock_session_inv [OF assms(1)])
  have f: "lowner ?lock = own" "ltype ?lock = l_type fl" by (simp_all add: flock_to_lock_def)
  show ?thesis
  proof (cases "locks_conflict ls ?lock")
    case None
    then show ?thesis using locks_conflict_iff [OF ok assms(2)] f by (auto simp: fuse_lib_getlk_def case_prod_unfold Let_def)
  next
    case (Some l)
    note l = locks_conflict_Some [OF Some]
    have "in_range l" using ok l by (simp add: locks_ok_def)
    then have c: "covers l (max (lstart l) (lstart ?lock))" "covers ?lock (max (lstart l) (lstart ?lock))"
      using l assms(2) by (auto simp: covers_def in_range_def)
    then have "lock_at ls (lowner l) (max (lstart l) (lstart ?lock)) = Some (ltype l)" using lock_at_lock [OF ok] l by blast
    moreover have "fuse_lib_getlk fs_lock own fl ls = Inr (lock_to_flock l)" using Some by (simp add: fuse_lib_getlk_def)
    ultimately show ?thesis using l c f by auto
  qed
qed

theorem getlk_finds_conflict_witness:
  "\<exists>l \<in> set [\<lparr>ltype = F_WRLCK, lstart = 0, lend = 8, lpid = 1, lowner = 7\<rparr>].
    fuse_lib_getlk (\<lambda>fl. (0, fl)) 3 \<lparr>l_type = F_RDLCK, l_start = 4, l_len = 0, l_pid = 2\<rparr> [\<lparr>ltype = F_WRLCK, lstart = 0, lend = 8, lpid = 1, lowner = 7\<rparr>]
      = Inr (lock_to_flock l)"
proof -
  let ?fl = "\<lparr>l_type = F_RDLCK, l_start = 4, l_len = 0, l_pid = 2\<rparr>" and ?ls = "[\<lparr>ltype = F_WRLCK, lstart = 0, lend = 8, lpid = 1, lowner = 7\<rparr>]"
  have r: "in_range (flock_to_lock ?fl 3)" by (simp add: flock_to_lock_def in_range_def OFFSET_MAX_def)
  have "\<exists>own' b t. own' \<noteq> 3 \<and> covers (flock_to_lock ?fl 3) b \<and> lock_at ?ls own' b = Some t \<and> (t = F_WRLCK \<or> l_type ?fl = F_WRLCK)"
    by (rule exI [of _ 7], rule exI [of _ 5]) (simp add: flock_to_lock_def covers_def lock_at_def OFFSET_MAX_def)
  then show ?thesis using getlk_finds_conflict [OF one_lock_session r, of "\<lambda>fl. (0, fl)"] by (simp only: if_True) blast
qed

text \<open>
  Closing releases: when a file is flushed, where the file system has locks, the owner has no lock
  left and the locks of the others are as before.
\<close>

theorem flush_releases_locks:
  assumes "lock_session ls" "fs_lock unlock_all = (e, unlock_all)" "e \<noteq> - ENOSYS"
  shows "\<exists>ls'. fuse_flush_common fl fs_lock own ls = Some (if fl = - ENOSYS then 0 else fl, ls')
    \<and> (\<forall>own' b. lock_at ls' own' b = (if own' = own then None else lock_at ls own' b))"
proof -
  have ok: "locks_ok ls" by (rule lock_session_inv [OF assms(1)])
  obtain ls' where ls': "locks_insert (flock_to_lock unlock_all own) ls = Some ls'" "sets (flock_to_lock unlock_all own) ls ls'"
    using locks_insert_ok [OF ok unlock_all_lock(1)] by blast
  have "lock_at ls own b = None" if "\<not> (0 \<le> b \<and> b \<le> OFFSET_MAX)" for b
    by (rule lock_at_None) (use ok that in \<open>auto simp: locks_ok_def in_range_def covers_def\<close>)
  then have "lock_at ls' own' b = (if own' = own then None else lock_at ls own' b)" for own' b
    using setsD(2) [OF ls'(2), of own' b] by (auto simp: unlock_all_lock)
  then show ?thesis using ls'(1) assms(2,3) by (simp add: fuse_flush_common_def unlock_all_def [symmetric])
qed

theorem flush_releases_locks_witness:
  "\<exists>ls'. fuse_flush_common 0 (\<lambda>fl. (0, fl)) 7 [\<lparr>ltype = F_WRLCK, lstart = 0, lend = 8, lpid = 1, lowner = 7\<rparr>] = Some (0, ls') \<and> lock_at ls' 7 5 = None"
  using flush_releases_locks [OF one_lock_session, of "\<lambda>fl. (0, fl)" 0 0 7] by (auto simp: ENOSYS_def)

text \<open>
  A lock survives the conversion to the form of \<open>fcntl\<close> and back.
\<close>

theorem flock_roundtrip:
  assumes "in_range lock"
  shows "flock_to_lock (lock_to_flock lock) (lowner lock) = lock"
  using assms by (cases lock) (auto simp: flock_to_lock_def lock_to_flock_def in_range_def)

theorem flock_roundtrip_witness:
  "flock_to_lock (lock_to_flock \<lparr>ltype = F_RDLCK, lstart = 3, lend = 5, lpid = 1, lowner = 7\<rparr>) 7 = \<lparr>ltype = F_RDLCK, lstart = 3, lend = 5, lpid = 1, lowner = 7\<rparr>"
  using flock_roundtrip [of "\<lparr>ltype = F_RDLCK, lstart = 3, lend = 5, lpid = 1, lowner = 7\<rparr>"] by (simp add: in_range_def OFFSET_MAX_def)

end
