(* ===== verification/Node_Table.thy ===== *)
theory Node_Table
  imports DList "HOL-Library.Monad_Syntax"
begin

text \<open>
  The hash tables of libfuse (\<open>lib/fuse.c\<close>), which grow and shrink one bucket at a time
  (linear hashing). \<open>struct node_table\<close> is the record \<open>node_table\<close>; the nodes of a bucket
  are linked by a field of the nodes (\<open>id_next\<close> in the table of identifiers, \<open>name_next\<close> in
  that of names), which is here the function \<open>tnext\<close> of the table. The code moves along a bucket
  with the address of a pointer to a node, which is a \<open>slot\<close>: the array's element or
  the field of a node. The functions for the two tables differ only in the field and the hash
  value, here the argument \<open>key\<close>: \<open>None\<close> where computing it would read a freed node.

  \<open>tab_rep\<close> relates a table to the lists of nodes of its buckets. All operations are shown
  to keep it, and the set of nodes in it to change as it should.
\<close>

section \<open>The table\<close>

record node_table =
  array :: "node list"
  tuse :: nat
  tsize :: nat
  tsplit :: nat
  tnext :: "node \<Rightarrow> node"

definition NODE_TABLE_MIN_SIZE :: nat where
  "NODE_TABLE_MIN_SIZE = 8192"

definition node_table_init :: node_table where
  "node_table_init = \<lparr>array = replicate NODE_TABLE_MIN_SIZE 0, tuse = 0, tsize = NODE_TABLE_MIN_SIZE, tsplit = 0, tnext = \<lambda>_. 0\<rparr>"

text \<open>The bucket for a hash value; buckets below \<open>split\<close> have been divided in two.\<close>

definition lin_hash :: "nat \<Rightarrow> node_table \<Rightarrow> nat" where
  "lin_hash h t =
     (let hash = h mod tsize t; oldhash = hash mod (tsize t div 2)
      in if oldhash \<ge> tsplit t then oldhash else hash)"

datatype slot = Bucket nat | After node

fun deref :: "slot \<Rightarrow> node_table \<Rightarrow> node option" where
  "deref (Bucket b) t = (if b < length (array t) then Some (array t ! b) else None)"
| "deref (After x) t = Some (tnext t x)"

fun assign :: "slot \<Rightarrow> node \<Rightarrow> node_table \<Rightarrow> node_table option" where
  "assign (Bucket b) y t = (if b < length (array t) then Some (t\<lparr>array := (array t)[b := y]\<rparr>) else None)"
| "assign (After x) y t = Some (t\<lparr>tnext := (tnext t)(x := y)\<rparr>)"

definition node_table_reduce :: "node_table \<Rightarrow> node_table" where
  "node_table_reduce t =
     (let newsize = tsize t div 2
      in if newsize < NODE_TABLE_MIN_SIZE then t
         else t\<lparr>array := take newsize (array t), tsize := newsize, tsplit := newsize div 2\<rparr>)"

definition node_table_resize :: "node_table \<Rightarrow> node_table" where
  "node_table_resize t =
     t\<lparr>array := array t @ replicate (tsize t) 0, tsize := tsize t * 2, tsplit := 0\<rparr>"

text \<open>The last slot of a bucket, and the slot that leads to a node.\<close>

partial_function (option) slot_end :: "slot \<Rightarrow> node_table \<Rightarrow> slot option" where
  "slot_end nodep t = do {
     x \<leftarrow> deref nodep t;
     if x = 0 then Some nodep else slot_end (After x) t }"

partial_function (option) slot_find :: "node \<Rightarrow> slot \<Rightarrow> node_table \<Rightarrow> slot option option" where
  "slot_find node nodep t = do {
     x \<leftarrow> deref nodep t;
     if x = 0 then Some None
     else if x = node then Some (Some nodep)
     else slot_find node (After x) t }"

fun remerge_loop :: "nat \<Rightarrow> node_table \<Rightarrow> node_table option" where
  "remerge_loop 0 t = Some t"
| "remerge_loop (Suc iter) t =
     (if tsplit t > 0 then do {
        let t = t\<lparr>tsplit := tsplit t - 1\<rparr>;
        let upper = Bucket (tsplit t + tsize t div 2);
        x \<leftarrow> deref upper t;
        if x \<noteq> 0 then do {
          nodep \<leftarrow> slot_end (Bucket (tsplit t)) t;
          t \<leftarrow> assign nodep x t;
          assign upper 0 t }
        else remerge_loop iter t }
      else Some t)"

definition remerge :: "node_table \<Rightarrow> node_table option" where
  "remerge t = remerge_loop 8 (if tsplit t = 0 then node_table_reduce t else t)"

partial_function (option) rehash_loop :: "(node \<Rightarrow> nat option) \<Rightarrow> nat \<Rightarrow> slot \<Rightarrow> node_table \<Rightarrow> node_table option" where
  "rehash_loop key hash nodep t = do {
     node \<leftarrow> deref nodep t;
     if node = 0 then Some t
     else do {
       k \<leftarrow> key node;
       let newhash = lin_hash k t;
       if newhash \<noteq> hash then do {
         t \<leftarrow> assign nodep (tnext t node) t;
         head \<leftarrow> deref (Bucket newhash) t;
         t \<leftarrow> assign (After node) head t;
         t \<leftarrow> assign (Bucket newhash) node t;
         rehash_loop key hash nodep t }
       else rehash_loop key hash (After node) t } }"

definition rehash :: "(node \<Rightarrow> nat option) \<Rightarrow> node_table \<Rightarrow> node_table option" where
  "rehash key t =
     (if tsplit t = tsize t div 2 then Some t
      else do {
        let hash = tsplit t;
        t \<leftarrow> rehash_loop key hash (Bucket hash) (t\<lparr>tsplit := tsplit t + 1\<rparr>);
        Some (if tsplit t = tsize t div 2 then node_table_resize t else t) })"

text \<open>Putting a node in its bucket, and counting it.\<close>

definition tab_add :: "(node \<Rightarrow> nat option) \<Rightarrow> nat \<Rightarrow> node \<Rightarrow> node_table \<Rightarrow> node_table option" where
  "tab_add key hash node t = do {
     head \<leftarrow> deref (Bucket hash) t;
     t \<leftarrow> assign (After node) head t;
     t \<leftarrow> assign (Bucket hash) node t;
     let t = t\<lparr>tuse := tuse t + 1\<rparr>;
     if tuse t \<ge> tsize t div 2 then rehash key t else Some t }"

text \<open>Counting a node that has been taken out (\<open>use\<close> is unsigned).\<close>

definition tab_dec :: "node_table \<Rightarrow> node_table option" where
  "tab_dec t = do {
     let t = t\<lparr>tuse := (if tuse t = 0 then 2 ^ 64 - 1 else tuse t - 1)\<rparr>;
     if tuse t < tsize t div 4 then remerge t else Some t }"

text \<open>The first node of a bucket with a property, or 0.\<close>

partial_function (option) chain_find :: "(node \<Rightarrow> bool option) \<Rightarrow> node \<Rightarrow> node_table \<Rightarrow> node option" where
  "chain_find test x t =
     (if x = 0 then Some 0
      else do {
        found \<leftarrow> test x;
        if found then Some x else chain_find test (tnext t x) t })"

definition tab_find :: "(node \<Rightarrow> bool option) \<Rightarrow> nat \<Rightarrow> node_table \<Rightarrow> node option" where
  "tab_find test hash t = do { x \<leftarrow> deref (Bucket hash) t; chain_find test x t }"

section \<open>Slots and chains\<close>

definition slot_at :: "nat \<Rightarrow> node list \<Rightarrow> slot" where
  "slot_at b as = (if as = [] then Bucket b else After (last as))"

text \<open>The nodes from \<open>h\<close> on up to the node \<open>y\<close>.\<close>

fun lseg :: "(node \<Rightarrow> node) \<Rightarrow> node \<Rightarrow> node list \<Rightarrow> node \<Rightarrow> bool" where
  "lseg n h [] y \<longleftrightarrow> h = y"
| "lseg n h (x # xs) y \<longleftrightarrow> h = x \<and> x \<noteq> 0 \<and> lseg n (n x) xs y"

lemma lseg_upd [simp]: "x \<notin> set xs \<Longrightarrow> lseg (n(x := a)) h xs y = lseg n h xs y"
  by (induction xs arbitrary: h) auto

lemma lseg_cong: "(\<And>x. x \<in> set xs \<Longrightarrow> n' x = n x) \<Longrightarrow> lseg n' h xs y = lseg n h xs y"
  by (induction xs arbitrary: h) auto

lemma lseg_nil: "lseg n h xs 0 = fwd n h xs"
  by (induction xs arbitrary: h) auto

lemma lseg_append: "lseg n h (as @ bs) y \<longleftrightarrow> (\<exists>z. lseg n h as z \<and> lseg n z bs y)"
  by (induction as arbitrary: h) auto

lemma fwd_append: "fwd n h (as @ bs) \<longleftrightarrow> lseg n h as (hd (bs @ [0])) \<and> fwd n (hd (bs @ [0])) bs"
  unfolding lseg_nil [symmetric] lseg_append by (cases bs) auto

lemma lseg_last: "lseg n h (as @ [x]) y \<Longrightarrow> n x = y"
  by (induction as arbitrary: h) auto

lemma deref_slot: "lseg (tnext t) (array t ! b) as y \<Longrightarrow> b < length (array t) \<Longrightarrow> deref (slot_at b as) t = Some y"
  by (cases as rule: rev_cases) (auto simp: slot_at_def dest: lseg_last)

text \<open>Storing through a slot redirects the chain there and leaves the rest of the table.\<close>

definition store_at :: "nat \<Rightarrow> node list \<Rightarrow> node \<Rightarrow> node_table \<Rightarrow> node_table" where
  "store_at b as y t = (if as = [] then t\<lparr>array := (array t)[b := y]\<rparr> else t\<lparr>tnext := (tnext t)(last as := y)\<rparr>)"

lemma store_at_dims [simp]:
  "tuse (store_at b as y t) = tuse t" "tsize (store_at b as y t) = tsize t" "tsplit (store_at b as y t) = tsplit t"
  "length (array (store_at b as y t)) = length (array t)"
  by (simp_all add: store_at_def)

lemma store_at_other:
  "b' \<noteq> b \<Longrightarrow> array (store_at b as y t) ! b' = array t ! b'" "x \<notin> set as \<Longrightarrow> tnext (store_at b as y t) x = tnext t x"
  by (auto simp: store_at_def)

lemma assign_slot: "b < length (array t) \<Longrightarrow> assign (slot_at b as) y t = Some (store_at b as y t)"
  by (simp add: slot_at_def store_at_def)

lemma store_at_lseg:
  assumes "lseg (tnext t) (array t ! b) as z" "b < length (array t)" "distinct as"
  shows "lseg (tnext (store_at b as y t)) (array (store_at b as y t) ! b) as y"
  using assms by (cases as rule: rev_cases) (auto simp: store_at_def lseg_append)

lemma store_at_fwd:
  assumes "lseg (tnext t) (array t ! b) as z" "b < length (array t)" "distinct as" "fwd (tnext t) y ys" "set as \<inter> set ys = {}"
  shows "fwd (tnext (store_at b as y t)) (array (store_at b as y t) ! b) (as @ ys)"
proof -
  have "fwd (tnext (store_at b as y t)) y ys"
    using assms(4,5) fwd_cong [of ys "tnext (store_at b as y t)" "tnext t" y] store_at_other(2) by (metis disjoint_iff)
  then show ?thesis using store_at_lseg [OF assms(1-3), of y] fwd_hd [of _ y ys] by (simp add: fwd_append)
qed

lemma slot_step: "x \<noteq> 0 \<Longrightarrow> After x = slot_at b (as @ [x])"
  by (simp add: slot_at_def)

lemma slot_end_chain:
  assumes "fwd (tnext t) (array t ! b) (as @ bs)" "b < length (array t)"
  shows "slot_end (slot_at b as) t = Some (slot_at b (as @ bs))"
  using assms
proof (induction bs arbitrary: as)
  case Nil
  then have "deref (slot_at b as) t = Some 0" using deref_slot [of t b as 0] by (simp add: lseg_nil)
  then show ?case by (simp add: slot_end.simps)
next
  case (Cons x bs)
  then have x: "x \<noteq> 0" and d: "deref (slot_at b as) t = Some x" using deref_slot [of t b as x] by (auto simp: fwd_append)
  have "slot_end (slot_at b (as @ [x])) t = Some (slot_at b (as @ x # bs))" using Cons.IH [of "as @ [x]"] Cons.prems by simp
  then show ?case using x d slot_step [OF x, of b as] by (subst slot_end.simps) simp
qed

lemma slot_find_chain:
  assumes "fwd (tnext t) (array t ! b) (as @ bs)" "b < length (array t)"
  shows "slot_find x (slot_at b as) t = Some (if x \<in> set bs then Some (slot_at b (as @ takeWhile ((\<noteq>) x) bs)) else None)"
  using assms
proof (induction bs arbitrary: as)
  case Nil
  then have "deref (slot_at b as) t = Some 0" using deref_slot [of t b as 0] by (simp add: lseg_nil)
  then show ?case by (simp add: slot_find.simps)
next
  case (Cons y bs)
  then have y: "y \<noteq> 0" and d: "deref (slot_at b as) t = Some y" using deref_slot [of t b as y] by (auto simp: fwd_append)
  show ?case
  proof (cases "y = x")
    case True
    then show ?thesis using y d by (subst slot_find.simps) simp
  next
    case False
    have "slot_find x (After y) t = Some (if x \<in> set bs then Some (slot_at b ((as @ [y]) @ takeWhile ((\<noteq>) x) bs)) else None)"
      using Cons.IH [of "as @ [y]"] Cons.prems slot_step [OF y, of b as] by simp
    then show ?thesis using False y d by (subst slot_find.simps) simp
  qed
qed

lemma chain_find_list:
  assumes "fwd (tnext t) x xs" "\<forall>y \<in> set xs. test y = Some (P y)"
  shows "chain_find test x t = Some (case find P xs of None \<Rightarrow> 0 | Some y \<Rightarrow> y)"
  using assms by (induction xs arbitrary: x) (auto simp: chain_find.simps)

section \<open>The nodes of a table\<close>

text \<open>\<open>ch b\<close> is the list of the nodes in bucket \<open>b\<close>.\<close>

definition tab_dims :: "node_table \<Rightarrow> bool" where
  "tab_dims t \<longleftrightarrow> length (array t) = tsize t \<and> (\<exists>k. tsize t = NODE_TABLE_MIN_SIZE * 2 ^ k) \<and> tsplit t \<le> tsize t div 2"

definition tab_rep :: "(node \<Rightarrow> nat option) \<Rightarrow> node_table \<Rightarrow> (nat \<Rightarrow> node list) \<Rightarrow> bool" where
  "tab_rep key t ch \<longleftrightarrow> tab_dims t \<and> (\<forall>b < tsize t. fwd (tnext t) (array t ! b) (ch b) \<and> distinct (ch b)
     \<and> (\<forall>x \<in> set (ch b). \<exists>k. key x = Some k \<and> lin_hash k t = b) \<and> (tsplit t + tsize t div 2 \<le> b \<longrightarrow> ch b = []))"

definition tab_holds :: "(node \<Rightarrow> nat option) \<Rightarrow> node_table \<Rightarrow> node set \<Rightarrow> bool" where
  "tab_holds key t X \<longleftrightarrow> (\<exists>ch. tab_rep key t ch \<and> X = (\<Union>b < tsize t. set (ch b)))"

lemma tab_dims_even:
  assumes "tab_dims t"
  shows "tsize t = 2 * (tsize t div 2)" "4096 \<le> tsize t div 2" "0 < tsize t"
proof -
  obtain k where k: "tsize t = 8192 * 2 ^ k" using assms by (auto simp: tab_dims_def NODE_TABLE_MIN_SIZE_def)
  then show "tsize t = 2 * (tsize t div 2)" "4096 \<le> tsize t div 2" "0 < tsize t" by auto
qed

lemma lin_hash_less:
  assumes "tab_dims t"
  shows "lin_hash k t < tsize t" "lin_hash k t < tsplit t + tsize t div 2"
proof -
  define m where "m = tsize t div 2"
  have m: "tsize t = 2 * m" "0 < m" using tab_dims_even [OF assms] by (simp_all add: m_def)
  have "lin_hash k t < tsplit t + m"
  proof (cases "k mod tsize t < m")
    case True
    then show ?thesis by (simp add: lin_hash_def Let_def m_def)
  next
    case False
    define r where "r = k mod tsize t - m"
    have "k mod tsize t < tsize t" using tab_dims_even(3) [OF assms] by simp
    then have r: "k mod tsize t = r + m" "r < m" unfolding r_def using False m(1) by linarith+
    then show ?thesis using m by (simp add: lin_hash_def Let_def)
  qed
  moreover have "tsplit t \<le> m" using assms by (simp add: tab_dims_def m_def)
  ultimately show "lin_hash k t < tsize t" using m(1) by linarith
  show "lin_hash k t < tsplit t + tsize t div 2" using \<open>lin_hash k t < tsplit t + m\<close> by (simp only: m_def)
qed

lemma lin_hash_cong: "tsize t' = tsize t \<Longrightarrow> tsplit t' = tsplit t \<Longrightarrow> lin_hash k t' = lin_hash k t"
  by (simp add: lin_hash_def)

lemma tab_repD:
  assumes "tab_rep key t ch" "b < tsize t"
  shows "fwd (tnext t) (array t ! b) (ch b)" "distinct (ch b)" "b < length (array t)"
    "\<And>x. x \<in> set (ch b) \<Longrightarrow> \<exists>k. key x = Some k \<and> lin_hash k t = b" "tsplit t + tsize t div 2 \<le> b \<Longrightarrow> ch b = []"
  using assms by (auto simp: tab_rep_def tab_dims_def)

lemma tab_rep_bucket:
  assumes "tab_rep key t ch" "b < tsize t" "x \<in> set (ch b)" "b' < tsize t" "x \<in> set (ch b')"
  shows "b' = b"
  using tab_repD(4) [OF assms(1)] assms by (metis option.inject)

lemma tab_holdsI: "tab_rep key t ch \<Longrightarrow> (\<Union>b < tsize t. set (ch b)) = X \<Longrightarrow> tab_holds key t X"
  by (auto simp: tab_holds_def)

lemma union_two_buckets:
  assumes "b < n" "c < n" "b \<noteq> c" "set xs \<union> set ys = set (ch b) \<union> set (ch c)"
  shows "(\<Union>i < n. set ((ch(b := xs, c := ys)) i)) = (\<Union>i < n. set (ch i))"
proof -
  have n: "{..<n} = insert b (insert c ({..<n} - {b, c}))" using assms by auto
  have "(\<Union>i \<in> {..<n} - {b, c}. set ((ch(b := xs, c := ys)) i)) = (\<Union>i \<in> {..<n} - {b, c}. set (ch i))" by auto
  then show ?thesis using assms(3,4) by (subst (1 2) n) auto
qed

lemma tab_holds_in:
  assumes "tab_holds key t X" "x \<in> X"
  shows "x \<noteq> 0" "key x \<noteq> None"
proof -
  obtain ch b where b: "tab_rep key t ch" "b < tsize t" "x \<in> set (ch b)" using assms by (auto simp: tab_holds_def)
  have "fwd n h xs \<Longrightarrow> y \<in> set xs \<Longrightarrow> y \<noteq> 0" for n h xs y by (induction xs arbitrary: h) auto
  then show "x \<noteq> 0" using tab_repD(1) [OF b(1,2)] b(3) by blast
  show "key x \<noteq> None" using tab_repD(4) [OF b] by auto
qed

lemma tab_holds_cong:
  assumes "tab_holds key t X" "\<And>x. x \<in> X \<Longrightarrow> key' x = key x"
  shows "tab_holds key' t X"
proof -
  obtain ch where ch: "tab_rep key t ch" "X = (\<Union>b < tsize t. set (ch b))" using assms(1) by (auto simp: tab_holds_def)
  have "tab_rep key' t ch" using ch assms(2) unfolding tab_rep_def by (metis UN_iff lessThan_iff)
  then show ?thesis using ch(2) by (auto simp: tab_holds_def)
qed

lemma tab_holds_next:
  assumes "tab_holds key t X" "x \<notin> X"
  shows "tab_holds key (t\<lparr>tnext := (tnext t)(x := y)\<rparr>) X"
proof -
  obtain ch where ch: "tab_rep key t ch" "X = (\<Union>b < tsize t. set (ch b))" using assms(1) by (auto simp: tab_holds_def)
  have "tab_rep key (t\<lparr>tnext := (tnext t)(x := y)\<rparr>) ch"
    using ch assms(2) unfolding tab_rep_def tab_dims_def by (auto simp: lin_hash_def)
  then show ?thesis using ch(2) by (auto simp: tab_holds_def)
qed

lemma tab_holds_use: "tab_holds key (t\<lparr>tuse := n\<rparr>) X = tab_holds key t X"
  by (simp add: tab_holds_def tab_rep_def tab_dims_def lin_hash_def)

lemma tab_find_holds:
  assumes "tab_holds key t X" "\<And>y. y \<in> X \<Longrightarrow> test y = Some (P y)" "\<And>y. y \<in> X \<Longrightarrow> P y \<Longrightarrow> key y = Some k"
  shows "\<exists>y. tab_find test (lin_hash k t) t = Some y \<and> (if y = 0 then \<forall>z \<in> X. \<not> P z else y \<in> X \<and> P y)"
proof -
  obtain ch where ch: "tab_rep key t ch" "X = (\<Union>b < tsize t. set (ch b))" using assms(1) by (auto simp: tab_holds_def)
  have dims: "tab_dims t" using ch(1) by (simp add: tab_rep_def)
  define b where "b = lin_hash k t"
  have b: "b < tsize t" using lin_hash_less(1) [OF dims] by (simp add: b_def)
  note r = tab_repD [OF ch(1) b]
  have sub: "set (ch b) \<subseteq> X" using b ch(2) by auto
  have find: "tab_find test b t = Some (case find P (ch b) of None \<Rightarrow> 0 | Some y \<Rightarrow> y)"
    using chain_find_list [OF r(1), of test P] assms(2) sub r(3) by (auto simp: tab_find_def)
  show ?thesis
  proof (cases "find P (ch b)")
    case None
    have "\<not> P z" if z: "z \<in> X" for z
    proof
      assume "P z"
      then have "key z = Some k" using assms(3) z by simp
      moreover obtain b' where "b' < tsize t" "z \<in> set (ch b')" using z ch(2) by auto
      ultimately have "z \<in> set (ch b)" using tab_repD(4) [OF ch(1), of b' z] by (auto simp: b_def)
      then show False using None \<open>P z\<close> by (auto simp: find_None_iff)
    qed
    then show ?thesis using find None by (auto simp: b_def)
  next
    case (Some y)
    then have "y \<in> set (ch b)" "P y" by (auto simp: find_Some_iff)
    then show ?thesis using find Some sub tab_holds_in(1) [OF assms(1)] by (auto simp: b_def)
  qed
qed

text \<open>Taking a node out of its bucket.\<close>

lemma tab_remove_holds:
  assumes "tab_holds key t X" "x \<in> X" "key x = Some k"
  shows "\<exists>sl t'. slot_find x (Bucket (lin_hash k t)) t = Some (Some sl) \<and> assign sl (tnext t x) t = Some t'
    \<and> tab_holds key t' (X - {x}) \<and> tuse t' = tuse t \<and> tsize t' = tsize t \<and> tsplit t' = tsplit t"
proof -
  obtain ch where ch: "tab_rep key t ch" "X = (\<Union>b < tsize t. set (ch b))" using assms(1) by (auto simp: tab_holds_def)
  have dims: "tab_dims t" using ch(1) by (simp add: tab_rep_def)
  define b where "b = lin_hash k t"
  have b: "b < tsize t" using lin_hash_less(1) [OF dims] by (simp add: b_def)
  note r = tab_repD [OF ch(1) b]
  have x: "x \<in> set (ch b)" using assms(2,3) ch tab_repD(4) [OF ch(1)] by (fastforce simp: b_def)
  obtain as cs where ac: "ch b = as @ x # cs" "x \<notin> set as" using x by (meson split_list_first)
  have tw: "takeWhile ((\<noteq>) x) (ch b) = as" using ac by (auto simp: takeWhile_append)
  let ?sl = "slot_at b as" and ?t = "store_at b as (tnext t x) t"
  have "slot_find x (Bucket b) t = Some (Some ?sl)"
    using slot_find_chain [of t b "[]" "ch b" x] r(1,3) x tw by (simp add: slot_at_def)
  moreover have "assign ?sl (tnext t x) t = Some ?t" using assign_slot [OF r(3)] .
  moreover have "tab_rep key ?t (ch(b := as @ cs))"
  proof -
    have l: "lseg (tnext t) (array t ! b) as x" "fwd (tnext t) (tnext t x) cs" using r(1) ac(1) by (simp_all add: fwd_append)
    have "fwd (tnext ?t) (array ?t ! b) (as @ cs)"
      using store_at_fwd [OF l(1) r(3) _ l(2)] r(2) ac(1) by auto
    moreover have "fwd (tnext ?t) (array ?t ! b') (ch b')" if "b' < tsize t" "b' \<noteq> b" for b'
    proof -
      have "y \<notin> set as" if "y \<in> set (ch b')" for y
        using tab_rep_bucket [OF ch(1) b, of y b'] ac(1) that \<open>b' < tsize t\<close> \<open>b' \<noteq> b\<close> by auto
      then show ?thesis
        using fwd_cong [of "ch b'" "tnext ?t" "tnext t"] tab_repD(1) [OF ch(1) \<open>b' < tsize t\<close>] store_at_other \<open>b' \<noteq> b\<close> by metis
    qed
    moreover have "lin_hash j ?t = lin_hash j t" for j by (rule lin_hash_cong) simp_all
    ultimately show ?thesis
      using ch(1) ac(1) r(2) unfolding tab_rep_def tab_dims_def by (auto split: if_splits)
  qed
  moreover have "(\<Union>b' < tsize t. set ((ch(b := as @ cs)) b')) = X - {x}"
  proof -
    have "x \<notin> set (ch b')" if "b' < tsize t" "b' \<noteq> b" for b' using tab_rep_bucket [OF ch(1) b x] that by metis
    moreover have "x \<notin> set as \<union> set cs" using r(2) ac(1) by simp
    ultimately have "set ((ch(b := as @ cs)) b') = set (ch b') - {x}" if "b' < tsize t" for b'
      using that ac(1) by (cases "b' = b") auto
    then show ?thesis unfolding ch(2) by (auto simp del: fun_upd_apply)
  qed
  ultimately show ?thesis
    using tab_holdsI [of key ?t "ch(b := as @ cs)"] by (simp add: b_def del: fun_upd_apply)
qed

section \<open>Growing\<close>

lemma rehash_loop_chain:
  assumes "b < length (array t)" "nb < length (array t)" "b \<noteq> nb"
    and "fwd (tnext t) (array t ! b) (as @ bs)" "fwd (tnext t) (array t ! nb) cs" "distinct (as @ bs)" "set (as @ bs) \<inter> set cs = {}"
    and "\<And>y. y \<in> set bs \<Longrightarrow> \<exists>k. key y = Some k \<and> lin_hash k t = (if st y then b else nb)"
  shows "\<exists>t'. rehash_loop key b (slot_at b as) t = Some t' \<and> tuse t' = tuse t \<and> tsize t' = tsize t \<and> tsplit t' = tsplit t
    \<and> length (array t') = length (array t) \<and> (\<forall>b'. b' \<noteq> b \<and> b' \<noteq> nb \<longrightarrow> array t' ! b' = array t ! b')
    \<and> (\<forall>x. x \<notin> set (as @ bs) \<longrightarrow> tnext t' x = tnext t x) \<and> fwd (tnext t') (array t' ! b) (as @ filter st bs)
    \<and> fwd (tnext t') (array t' ! nb) (rev (filter (\<lambda>y. \<not> st y) bs) @ cs)"
  using assms
proof (induction bs arbitrary: as cs t)
  case Nil
  then have "deref (slot_at b as) t = Some 0" using deref_slot [of t b as 0] by (simp add: lseg_nil)
  then show ?case using Nil by (subst rehash_loop.simps) simp
next
  case (Cons y bs)
  have l: "lseg (tnext t) (array t ! b) as y" "fwd (tnext t) y (y # bs)" using Cons.prems(4) by (simp_all add: fwd_append)
  have y: "y \<noteq> 0" "fwd (tnext t) (tnext t y) bs" using l(2) by simp_all
  have d: "deref (slot_at b as) t = Some y" using deref_slot [OF l(1) Cons.prems(1)] .
  obtain k where k: "key y = Some k" "lin_hash k t = (if st y then b else nb)" using Cons.prems(8) [of y] by auto
  show ?case
  proof (cases "st y")
    case True
    have "rehash_loop key b (slot_at b as) t = rehash_loop key b (slot_at b (as @ [y])) t"
      using d y(1) k True slot_step [OF y(1), of b as] by (subst rehash_loop.simps) simp
    then show ?thesis using Cons.IH [of t "as @ [y]" cs] Cons.prems True by simp
  next
    case False
    define t1 where "t1 = store_at b as (tnext t y) t"
    define t2 where "t2 = t1\<lparr>tnext := (tnext t1)(y := array t1 ! nb), array := (array t1)[nb := y]\<rparr>"
    have d1: "tuse t1 = tuse t" "tsize t1 = tsize t" "tsplit t1 = tsplit t" "length (array t1) = length (array t)"
      "array t1 ! nb = array t ! nb" using store_at_other(1) Cons.prems(3) by (simp_all add: t1_def)
    have c1: "fwd (tnext t1) (array t1 ! b) (as @ bs)"
      unfolding t1_def by (rule store_at_fwd [OF l(1) Cons.prems(1) _ y(2)]) (use Cons.prems(6) in auto)
    have c1': "fwd (tnext t1) (array t1 ! nb) cs"
    proof -
      have "\<And>x. x \<in> set cs \<Longrightarrow> tnext t1 x = tnext t x" unfolding t1_def using store_at_other(2) Cons.prems(7) by (metis disjoint_iff UnI1 set_append)
      then show ?thesis using fwd_cong [of cs "tnext t1" "tnext t"] Cons.prems(5) d1(5) by simp
    qed
    have yn: "y \<notin> set (as @ bs)" "y \<notin> set cs" using Cons.prems(6,7) by auto
    have c2: "fwd (tnext t2) (array t2 ! b) (as @ bs)" "fwd (tnext t2) (array t2 ! nb) (y # cs)"
      using c1 c1' yn y(1) Cons.prems(2,3) d1(4) by (simp_all add: t2_def)
    have d2: "tuse t2 = tuse t" "tsize t2 = tsize t" "tsplit t2 = tsplit t" "length (array t2) = length (array t)" using d1 by (simp_all add: t2_def)
    have o2: "\<forall>b'. b' \<noteq> b \<and> b' \<noteq> nb \<longrightarrow> array t2 ! b' = array t ! b'" "\<forall>x. x \<notin> set (as @ y # bs) \<longrightarrow> tnext t2 x = tnext t x"
      using store_at_other by (auto simp: t2_def t1_def)
    have "rehash_loop key b (slot_at b as) t = rehash_loop key b (slot_at b as) t2"
      using d y(1) k False Cons.prems(2,3) d1(4) assign_slot [OF Cons.prems(1), of as "tnext t y"]
      by (subst rehash_loop.simps) (simp add: t1_def [symmetric] t2_def)
    moreover have "\<exists>k'. key z = Some k' \<and> lin_hash k' t2 = (if st z then b else nb)" if "z \<in> set bs" for z
      using Cons.prems(8) [of z] that lin_hash_cong [OF d2(2,3)] by simp
    note IH = Cons.IH [of t2 as "y # cs", OF _ _ Cons.prems(3) c2 _ _ this]
    ultimately show ?thesis
      using IH Cons.prems(1,2,6,7) False d2 o2 yn by (auto simp: fun_eq_iff)
  qed
qed

text \<open>Dividing the next bucket, doubling and halving the array: where a hash value belongs.\<close>

lemma lin_hash_split:
  assumes "tab_dims t" "tsplit t < tsize t div 2"
  shows "lin_hash k (t\<lparr>tsplit := tsplit t + 1\<rparr>) =
    (if lin_hash k t = tsplit t then (if k mod tsize t < tsize t div 2 then tsplit t else tsplit t + tsize t div 2) else lin_hash k t)"
proof -
  define m where "m = tsize t div 2"
  have m: "tsize t = 2 * m" "0 < m" using tab_dims_even [OF assms(1)] by (simp_all add: m_def)
  define r where "r = k mod tsize t"
  have "r < tsize t" using m by (simp add: r_def)
  then have r: "r = r mod m + (if r < m then 0 else m)" "r mod m < m" using m by (auto simp: mod_if)
  have "lin_hash k t = (if r mod m \<ge> tsplit t then r mod m else r)" "lin_hash k (t\<lparr>tsplit := tsplit t + 1\<rparr>) = (if r mod m \<ge> tsplit t + 1 then r mod m else r)"
    by (simp_all add: lin_hash_def r_def m_def)
  then show ?thesis
    using r assms(2) unfolding r_def [symmetric] m_def [symmetric]
    by (cases "r < m"; cases "tsplit t" "r mod m" rule: linorder_cases) auto
qed

lemma lin_hash_resize:
  assumes "tab_dims t" "tsplit t = tsize t div 2"
  shows "lin_hash k (node_table_resize t) = lin_hash k t"
proof -
  have z: "0 < tsize t div 2" "tsize t \<noteq> 0" using tab_dims_even [OF assms(1)] by simp_all
  have "(k mod (tsize t * 2)) mod tsize t = k mod tsize t" by (simp add: mod_mod_cancel)
  moreover have "(k mod tsize t) mod (tsize t div 2) < tsize t div 2" using z(1) by simp
  ultimately show ?thesis using assms(2) by (auto simp: lin_hash_def node_table_resize_def Let_def)
qed

lemma tab_dims_resize: "tab_dims t \<Longrightarrow> tab_dims (node_table_resize t)"
proof -
  assume a: "tab_dims t"
  then obtain k where "tsize t = NODE_TABLE_MIN_SIZE * 2 ^ k" by (auto simp: tab_dims_def)
  then have "tsize t * 2 = NODE_TABLE_MIN_SIZE * 2 ^ Suc k" by simp
  then have "\<exists>k. tsize t * 2 = NODE_TABLE_MIN_SIZE * 2 ^ k" ..
  then show "tab_dims (node_table_resize t)" using a by (simp add: tab_dims_def node_table_resize_def)
qed

lemma resize_holds:
  assumes "tab_holds key t X" "tsplit t = tsize t div 2"
  shows "tab_holds key (node_table_resize t) X"
proof -
  obtain ch where ch: "tab_rep key t ch" "X = (\<Union>b < tsize t. set (ch b))" using assms(1) by (auto simp: tab_holds_def)
  have dims: "tab_dims t" using ch(1) by (simp add: tab_rep_def)
  define ch' where "ch' b = (if b < tsize t then ch b else [])" for b
  let ?t = "node_table_resize t"
  have len: "length (array t) = tsize t" using dims by (simp add: tab_dims_def)
  have s: "tsize ?t = tsize t * 2" "tsplit ?t = 0" "tnext ?t = tnext t" "array ?t = array t @ replicate (tsize t) 0" by (simp_all add: node_table_resize_def)
  have "tab_rep key ?t ch'"
    using tab_repD(1,2,4) [OF ch(1)] tab_dims_resize [OF dims] len
    by (auto simp: tab_rep_def s ch'_def nth_append lin_hash_resize [OF dims assms(2)])
  moreover have "(\<Union>b < tsize ?t. set (ch' b)) = X" unfolding ch(2) s ch'_def by fastforce
  ultimately show ?thesis by (rule tab_holdsI)
qed

lemma rehash_holds:
  assumes "tab_holds key t X"
  shows "\<exists>t'. rehash key t = Some t' \<and> tab_holds key t' X \<and> tuse t' = tuse t"
proof (cases "tsplit t = tsize t div 2")
  case True
  then show ?thesis using assms by (simp add: rehash_def)
next
  case False
  obtain ch where ch: "tab_rep key t ch" "X = (\<Union>b < tsize t. set (ch b))" using assms(1) by (auto simp: tab_holds_def)
  have dims: "tab_dims t" using ch(1) by (simp add: tab_rep_def)
  define m where "m = tsize t div 2"
  define b where "b = tsplit t"
  define t1 where "t1 = t\<lparr>tsplit := b + 1\<rparr>"
  have m: "tsize t = 2 * m" unfolding m_def by (rule tab_dims_even(1) [OF dims])
  have b: "b < m" "b < tsize t" "b + m < tsize t" using False dims m unfolding tab_dims_def b_def [symmetric] m_def [symmetric] by auto
  define st where "st y = (the (key y) mod tsize t < m)" for y
  have up: "ch (b + m) = []" using tab_repD(5) [OF ch(1) b(3)] by (simp add: b_def m_def)
  have up0: "array t ! (b + m) = 0" using tab_repD(1) [OF ch(1) b(3)] up by simp
  have len: "length (array t1) = tsize t" using dims by (simp add: t1_def tab_dims_def)
  have h1: "lin_hash k t1 = (if lin_hash k t = b then (if k mod tsize t < m then b else b + m) else lin_hash k t)" for k
    using lin_hash_split [OF dims, of k] b(1) by (simp add: t1_def b_def m_def)
  obtain t2 where l: "rehash_loop key b (slot_at b []) t1 = Some t2" "tuse t2 = tuse t1" "tsize t2 = tsize t1" "tsplit t2 = tsplit t1"
    "length (array t2) = length (array t1)" "\<And>b'. b' \<noteq> b \<and> b' \<noteq> b + m \<Longrightarrow> array t2 ! b' = array t1 ! b'"
    "\<And>x. x \<notin> set (ch b) \<Longrightarrow> tnext t2 x = tnext t1 x" "fwd (tnext t2) (array t2 ! b) (filter st (ch b))"
    "fwd (tnext t2) (array t2 ! (b + m)) (rev (filter (\<lambda>y. \<not> st y) (ch b)))"
  proof -
    have "\<exists>t2. rehash_loop key b (slot_at b []) t1 = Some t2 \<and> tuse t2 = tuse t1 \<and> tsize t2 = tsize t1 \<and> tsplit t2 = tsplit t1
      \<and> length (array t2) = length (array t1) \<and> (\<forall>b'. b' \<noteq> b \<and> b' \<noteq> b + m \<longrightarrow> array t2 ! b' = array t1 ! b')
      \<and> (\<forall>x. x \<notin> set ([] @ ch b) \<longrightarrow> tnext t2 x = tnext t1 x) \<and> fwd (tnext t2) (array t2 ! b) ([] @ filter st (ch b))
      \<and> fwd (tnext t2) (array t2 ! (b + m)) (rev (filter (\<lambda>y. \<not> st y) (ch b)) @ [])"
    proof (rule rehash_loop_chain)
      show "\<exists>k. key y = Some k \<and> lin_hash k t1 = (if st y then b else b + m)" if "y \<in> set (ch b)" for y
        using tab_repD(4) [OF ch(1) b(2) that] h1 by (auto simp: st_def)
    qed (use b len tab_repD(1,2) [OF ch(1)] up up0 in \<open>auto simp: t1_def\<close>)
    then show ?thesis using that by auto
  qed
  define ch2 where "ch2 = ch(b := filter st (ch b), b + m := rev (filter (\<lambda>y. \<not> st y) (ch b)))"
  have same: "tsize t1 = tsize t" "tnext t1 = tnext t" "array t1 = array t" "tsplit t1 = b + 1" "tuse t1 = tuse t" by (simp_all add: t1_def)
  have h2: "lin_hash k t2 = lin_hash k t1" for k using lin_hash_cong l(3,4) by metis
  have "tab_rep key t2 ch2"
  proof -
    have "tab_dims t2" using dims l(3-5) same b(1) by (auto simp: tab_dims_def m_def)
    moreover have "fwd (tnext t2) (array t2 ! c) (ch2 c) \<and> distinct (ch2 c) \<and> (\<forall>x \<in> set (ch2 c). \<exists>k. key x = Some k \<and> lin_hash k t2 = c)
        \<and> (tsplit t2 + tsize t2 div 2 \<le> c \<longrightarrow> ch2 c = [])" if c: "c < tsize t2" for c
    proof -
      have c': "c < tsize t" using c l(3) same by simp
      note r = tab_repD [OF ch(1) c'] and rb = tab_repD [OF ch(1) b(2)]
      have s: "tsplit t2 + tsize t2 div 2 = b + 1 + m" using l(3,4) same by (simp add: m_def)
      have hb: "st x \<Longrightarrow> \<exists>k. key x = Some k \<and> lin_hash k t2 = b" "\<not> st x \<Longrightarrow> \<exists>k. key x = Some k \<and> lin_hash k t2 = b + m"
        if "x \<in> set (ch b)" for x
        using rb(4) [OF that] h2 h1 by (auto simp: st_def)
      consider "c = b" | "c = b + m" | "c \<noteq> b" "c \<noteq> b + m" by blast
      then show ?thesis
      proof cases
        case 1
        then show ?thesis using l(8) rb(2) hb s b(1) by (auto simp: ch2_def)
      next
        case 2
        then show ?thesis using l(9) rb(2) hb s b(1) by (auto simp: ch2_def)
      next
        case 3
        have "x \<notin> set (ch b)" if "x \<in> set (ch c)" for x using tab_rep_bucket [OF ch(1) b(2) _ c'] that 3(1) by blast
        then have "fwd (tnext t2) (array t2 ! c) (ch c)"
          using fwd_cong [of "ch c" "tnext t2" "tnext t"] l(6,7) 3 r(1) same by metis
        moreover have "b + 1 + m \<le> c \<Longrightarrow> ch c = []" using r(5) by (simp add: b_def m_def)
        ultimately show ?thesis using 3 r(2,4) s h2 h1 by (fastforce simp: ch2_def)
      qed
    qed
    ultimately show ?thesis by (simp add: tab_rep_def)
  qed
  moreover have "(\<Union>c < tsize t2. set (ch2 c)) = X"
    unfolding ch(2) l(3) same ch2_def by (rule union_two_buckets) (use b up in auto)
  ultimately have h: "tab_holds key t2 X" by (rule tab_holdsI)
  have "rehash key t = Some (if tsplit t2 = tsize t2 div 2 then node_table_resize t2 else t2)"
    using False l(1) by (simp add: rehash_def t1_def b_def slot_at_def)
  moreover have "tuse (node_table_resize t2) = tuse t2" by (simp add: node_table_resize_def)
  ultimately show ?thesis using h resize_holds [OF h] l(2) same by auto
qed

lemma tab_add_holds:
  assumes "tab_holds key t X" "x \<notin> X" "x \<noteq> 0" "key x = Some k"
  shows "\<exists>t'. tab_add key (lin_hash k t) x t = Some t' \<and> tab_holds key t' (insert x X) \<and> tuse t' = tuse t + 1"
proof -
  obtain ch where ch: "tab_rep key t ch" "X = (\<Union>b < tsize t. set (ch b))" using assms(1) by (auto simp: tab_holds_def)
  have dims: "tab_dims t" using ch(1) by (simp add: tab_rep_def)
  define b where "b = lin_hash k t"
  have b: "b < tsize t" "b < tsplit t + tsize t div 2" using lin_hash_less [OF dims] by (simp_all add: b_def)
  note r = tab_repD [OF ch(1) b(1)]
  define t1 where "t1 = t\<lparr>tnext := (tnext t)(x := array t ! b), array := (array t)[b := x], tuse := tuse t + 1\<rparr>"
  have h1: "lin_hash j t1 = lin_hash j t" for j by (rule lin_hash_cong) (simp_all add: t1_def)
  have nx: "x \<notin> set (ch c)" if "c < tsize t" for c using assms(2) ch(2) that by auto
  have "tab_rep key t1 (ch(b := x # ch b))"
    unfolding tab_rep_def h1
  proof (intro conjI allI impI)
    show "tab_dims t1" using dims by (simp add: tab_dims_def t1_def)
  next
    fix c assume c: "c < tsize t1"
    then have c': "c < tsize t" by (simp add: t1_def)
    note rc = tab_repD [OF ch(1) c']
    show "fwd (tnext t1) (array t1 ! c) ((ch(b := x # ch b)) c)"
      using rc(1,3) nx [OF c'] assms(3) by (cases "c = b") (simp_all add: t1_def)
    show "distinct ((ch(b := x # ch b)) c)" using rc(2) nx [OF c'] by auto
    show "\<forall>y \<in> set ((ch(b := x # ch b)) c). \<exists>k. key y = Some k \<and> lin_hash k t = c"
      using rc(4) assms(4) by (auto simp: b_def)
    show "(ch(b := x # ch b)) c = []" if "tsplit t1 + tsize t1 div 2 \<le> c" using rc(5) that b(2) by (auto simp: t1_def)
  qed
  moreover have "(\<Union>c < tsize t1. set ((ch(b := x # ch b)) c)) = insert x X" using b(1) unfolding ch(2) t1_def by (auto split: if_splits)
  ultimately have h: "tab_holds key t1 (insert x X)" by (rule tab_holdsI)
  have "tab_add key b x t = (if tuse t1 \<ge> tsize t1 div 2 then rehash key t1 else Some t1)"
    using r(3) by (simp add: tab_add_def t1_def Let_def)
  moreover have "tuse t1 = tuse t + 1" by (simp add: t1_def)
  ultimately show ?thesis using rehash_holds [OF h] h by (auto simp: b_def)
qed

section \<open>Shrinking\<close>

lemma reduce_holds:
  assumes "tab_holds key t X" "tsplit t = 0"
  shows "tab_holds key (node_table_reduce t) X"
proof (cases "tsize t div 2 < NODE_TABLE_MIN_SIZE")
  case True
  then show ?thesis using assms by (simp add: node_table_reduce_def)
next
  case False
  obtain ch where ch: "tab_rep key t ch" "X = (\<Union>b < tsize t. set (ch b))" using assms(1) by (auto simp: tab_holds_def)
  have dims: "tab_dims t" using ch(1) by (simp add: tab_rep_def)
  obtain k where k: "tsize t = 8192 * 2 ^ k" using dims by (auto simp: tab_dims_def NODE_TABLE_MIN_SIZE_def)
  have "k \<noteq> 0"
  proof
    assume "k = 0"
    then show False using False k by (simp add: NODE_TABLE_MIN_SIZE_def)
  qed
  then obtain j where j: "k = Suc j" by (cases k) auto
  define m where "m = tsize t div 2"
  have m: "tsize t = 2 * m" "m = NODE_TABLE_MIN_SIZE * 2 ^ j" using k j by (simp_all add: m_def NODE_TABLE_MIN_SIZE_def)
  let ?t = "node_table_reduce t"
  have s: "tsize ?t = m" "tsplit ?t = m div 2" "tnext ?t = tnext t" "array ?t = take m (array t)"
    using False by (simp_all add: node_table_reduce_def Let_def m_def)
  have len: "length (array t) = tsize t" using dims by (simp add: tab_dims_def)
  have md: "0 < m div 2" "m = 2 * (m div 2)" using m(2) by (simp_all add: NODE_TABLE_MIN_SIZE_def)
  have h: "lin_hash i ?t = lin_hash i t" for i
  proof -
    have "lin_hash i t = i mod m" using assms(2) m(1) by (simp add: lin_hash_def mod_mod_cancel)
    moreover have "(i mod m) mod (m div 2) < m div 2" using md by simp
    ultimately show ?thesis by (simp add: lin_hash_def s Let_def)
  qed
  have emp: "ch b = []" if "b < tsize t" "m \<le> b" for b using tab_repD(5) [OF ch(1) that(1)] that(2) assms(2) by (simp add: m_def)
  have "tab_dims ?t" using len m s by (auto simp: tab_dims_def)
  then have "tab_rep key ?t ch"
    using tab_repD(1,2,4) [OF ch(1)] md m(1) by (auto simp: tab_rep_def s h)
  moreover have "(\<Union>b < tsize ?t. set (ch b)) = X" unfolding ch(2) s using emp m(1) by force
  ultimately show ?thesis by (rule tab_holdsI)
qed

lemma lin_hash_merge:
  assumes "tab_dims t" "0 < tsplit t"
  shows "lin_hash k (t\<lparr>tsplit := tsplit t - 1\<rparr>) =
    (if lin_hash k t = tsplit t - 1 + tsize t div 2 then tsplit t - 1 else lin_hash k t)"
proof -
  let ?t = "t\<lparr>tsplit := tsplit t - 1\<rparr>"
  have d: "tab_dims ?t" "tsplit ?t < tsize ?t div 2" using assms tab_dims_even [OF assms(1)] by (auto simp: tab_dims_def)
  have "?t\<lparr>tsplit := tsplit ?t + 1\<rparr> = t" using assms(2) by simp
  then have "lin_hash k t = (if lin_hash k ?t = tsplit ?t then (if k mod tsize ?t < tsize ?t div 2 then tsplit ?t else tsplit ?t + tsize ?t div 2) else lin_hash k ?t)"
    using lin_hash_split [OF d, of k] by metis
  then show ?thesis using lin_hash_less(2) [OF d(1), of k] d(2) by (auto split: if_splits)
qed

lemma remerge_loop_holds:
  assumes "tab_holds key t X"
  shows "\<exists>t'. remerge_loop n t = Some t' \<and> tab_holds key t' X \<and> tuse t' = tuse t"
  using assms
proof (induction n arbitrary: t)
  case (Suc n)
  show ?case
  proof (cases "tsplit t > 0")
    case False
    then show ?thesis using Suc.prems by simp
  next
    case True
    obtain ch where ch: "tab_rep key t ch" "X = (\<Union>b < tsize t. set (ch b))" using Suc.prems by (auto simp: tab_holds_def)
    have dims: "tab_dims t" using ch(1) by (simp add: tab_rep_def)
    define b where "b = tsplit t - 1"
    define m where "m = tsize t div 2"
    define t1 where "t1 = t\<lparr>tsplit := b\<rparr>"
    have m: "tsize t = 2 * m" unfolding m_def by (rule tab_dims_even(1) [OF dims])
    have b: "b < m" "b < tsize t" "b + m < tsize t" "tsplit t = b + 1"
      using True dims m unfolding tab_dims_def b_def m_def [symmetric] by auto
    note rb = tab_repD [OF ch(1) b(2)] and ru = tab_repD [OF ch(1) b(3)]
    have h1: "lin_hash k t1 = (if lin_hash k t = b + m then b else lin_hash k t)" for k
      using lin_hash_merge [OF dims True] by (simp add: t1_def b_def m_def)
    have d1: "tab_dims t1" using dims by (auto simp: tab_dims_def t1_def b_def)
    have same: "tsize t1 = tsize t" "array t1 = array t" "tnext t1 = tnext t" "tsplit t1 = b" "tuse t1 = tuse t" by (simp_all add: t1_def)
    have du: "deref (Bucket (b + m)) t1 = Some (array t ! (b + m))" using ru(3) same by simp
    have hx: "\<exists>k. key x = Some k \<and> lin_hash k t1 = (if c = b + m then b else c)" if "c < tsize t" "x \<in> set (ch c)" for c x
      using tab_repD(4) [OF ch(1) that] h1 by auto
    have top: "ch c = []" if "c < tsize t" "b + m < c" for c using tab_repD(5) [OF ch(1) that(1)] that(2) b(4) by (simp add: m_def)
    have step: "remerge_loop (Suc n) t = do {
        x \<leftarrow> deref (Bucket (b + m)) t1;
        if x \<noteq> 0 then do { nodep \<leftarrow> slot_end (Bucket b) t1; t \<leftarrow> assign nodep x t1; assign (Bucket (b + m)) 0 t }
        else remerge_loop n t1 }"
      using True by (simp add: t1_def b_def m_def Let_def del: deref.simps assign.simps cong: if_cong)
    show ?thesis
    proof (cases "array t ! (b + m) = 0")
      case zero: True
      have cz: "ch (b + m) = []" using ru(1) zero by (cases "ch (b + m)") auto
      have "ch c = []" if "c < tsize t" "b + m \<le> c" for c using top cz that by (cases "c = b + m") auto
      then have "tab_rep key t1 ch"
        using tab_repD(1,2) [OF ch(1)] hx cz d1 unfolding tab_rep_def same m_def [symmetric] by fastforce
      then have "tab_holds key t1 X" using ch(2) same by (auto intro!: tab_holdsI)
      moreover have "remerge_loop (Suc n) t = remerge_loop n t1" unfolding step using du zero by simp
      ultimately show ?thesis using Suc.IH [of t1] same by simp
    next
      case False
      let ?as = "ch b" and ?cs = "ch (b + m)"
      define t2 where "t2 = store_at b ?as (array t ! (b + m)) t1"
      define t3 where "t3 = t2\<lparr>array := (array t2)[b + m := 0]\<rparr>"
      have dj: "set (ch c) \<inter> set (ch c') = {}" if "c < tsize t" "c' < tsize t" "c \<noteq> c'" for c c'
        using tab_rep_bucket [OF ch(1) that(1) _ that(2)] that(3) by blast
      have len: "length (array t1) = tsize t" using d1 by (simp add: tab_dims_def same)
      have "fwd (tnext t2) (array t2 ! b) (?as @ ?cs)"
        unfolding t2_def by (rule store_at_fwd [of _ _ _ 0]) (use rb ru dj [OF b(2,3)] b same len in \<open>auto simp: lseg_nil\<close>)
      then have cb: "fwd (tnext t3) (array t3 ! b) (?as @ ?cs)" using b by (simp add: t3_def)
      have co: "fwd (tnext t3) (array t3 ! c) (ch c)" if c: "c < tsize t" "c \<noteq> b" "c \<noteq> b + m" for c
      proof -
        have "tnext t2 x = tnext t x" if "x \<in> set (ch c)" for x
        proof -
          have "x \<notin> set ?as" using dj [OF c(1) b(2) c(2)] that by blast
          then show ?thesis using store_at_other(2) [of x ?as] same(3) by (simp add: t2_def)
        qed
        then show ?thesis
          using fwd_cong [of "ch c" "tnext t2" "tnext t"] tab_repD(1) [OF ch(1) c(1)] store_at_other(1) [OF c(2)] c(3) same
          by (simp add: t3_def t2_def)
      qed
      have s3: "tsize t3 = tsize t" "tsplit t3 = b" "tuse t3 = tuse t" "length (array t3) = tsize t" using same len by (simp_all add: t3_def t2_def)
      have h3: "lin_hash k t3 = lin_hash k t1" for k by (rule lin_hash_cong) (use s3 same in simp_all)
      have z3: "array t3 ! (b + m) = 0" using b(3) len by (simp add: t3_def t2_def)
      define ch3 where "ch3 = ch(b := ?as @ ?cs, b + m := [])"
      have "tab_rep key t3 ch3"
        unfolding tab_rep_def s3 h3
      proof (intro conjI allI impI)
        show "tab_dims t3" using d1 s3 same by (simp add: tab_dims_def)
      next
        fix c assume c: "c < tsize t"
        show "fwd (tnext t3) (array t3 ! c) (ch3 c)" using cb co [OF c] z3 b(1) by (simp add: ch3_def)
        show "distinct (ch3 c)" using tab_repD(2) [OF ch(1) c] rb(2) ru(2) dj [OF b(2,3)] b(1) by (simp add: ch3_def)
        show "\<forall>x \<in> set (ch3 c). \<exists>k. key x = Some k \<and> lin_hash k t1 = c"
          using hx [OF c] hx [OF b(3)] hx [OF b(2)] b(1) by (auto simp: ch3_def)
        show "ch3 c = []" if "b + tsize t div 2 \<le> c" using top [OF c] that b(1) by (auto simp: ch3_def m_def)
      qed
      moreover have "(\<Union>c < tsize t3. set (ch3 c)) = X"
        unfolding s3 ch(2) ch3_def by (rule union_two_buckets) (use b in auto)
      ultimately have "tab_holds key t3 X" by (rule tab_holdsI)
      moreover have "remerge_loop (Suc n) t = Some t3"
      proof -
        have "slot_end (Bucket b) t1 = Some (slot_at b ?as)"
          using slot_end_chain [of t1 b "[]" ?as] rb(1,3) same by (simp add: slot_at_def)
        moreover have "assign (slot_at b ?as) (array t ! (b + m)) t1 = Some t2" unfolding t2_def by (rule assign_slot) (use rb(3) same in simp)
        moreover have "assign (Bucket (b + m)) 0 t2 = Some t3" using b(3) len by (simp add: t3_def t2_def)
        ultimately show ?thesis unfolding step using du False by simp
      qed
      ultimately show ?thesis using s3(3) by simp
    qed
  qed
qed simp

lemma tab_dec_holds:
  assumes "tab_holds key t X" "0 < tuse t"
  shows "\<exists>t'. tab_dec t = Some t' \<and> tab_holds key t' X \<and> tuse t' = tuse t - 1"
proof -
  define t1 where "t1 = t\<lparr>tuse := tuse t - 1\<rparr>"
  have t1: "tab_holds key t1 X" "tuse t1 = tuse t - 1" using assms by (simp_all add: t1_def tab_holds_use)
  let ?t = "if tsplit t1 = 0 then node_table_reduce t1 else t1"
  have "tab_holds key ?t X" "tuse ?t = tuse t1" using reduce_holds [OF t1(1)] t1(1) by (auto simp: node_table_reduce_def Let_def)
  then have "\<exists>t'. remerge t1 = Some t' \<and> tab_holds key t' X \<and> tuse t' = tuse t1"
    unfolding remerge_def using remerge_loop_holds [of key ?t X 8] by simp
  moreover have "tab_dec t = (if tuse t1 < tsize t1 div 4 then remerge t1 else Some t1)" using assms(2) by (simp add: tab_dec_def t1_def Let_def)
  ultimately show ?thesis using t1 by auto
qed

lemma tab_init_holds: "tab_holds key node_table_init {}"
proof -
  have "tab_dims node_table_init" by (auto simp: tab_dims_def node_table_init_def intro: exI [of _ 0])
  then have "tab_rep key node_table_init (\<lambda>_. [])" by (auto simp: tab_rep_def node_table_init_def)
  then show ?thesis by (rule tab_holdsI) simp
qed

end
