(* ===== verification/Fuse_Nodes.thy ===== *)
theory Fuse_Nodes
  imports Node_Table
begin

text \<open>
  The nodes of libfuse (\<open>lib/fuse.c\<close>): the kernel names files by the identifiers of nodes,
  and the handlers of a file system get paths. \<open>struct node\<close> is \<open>fnode\<close> (its links in the two
  tables are in the tables, theory \<open>Node_Table\<close>; fields that belong to open files, locks and
  cached attributes are left out), \<open>struct fuse\<close> is \<open>fuse\<close>. Nodes are in a store by address;
  freeing a node takes it out of the store, and reading it then is \<open>None\<close>. So are \<open>abort\<close>, a
  failing \<open>assert\<close>, and waiting for another thread. \<open>alloc_node\<close> succeeds. The list
  \<open>lru_table\<close> is a list of nodes; a node that is not in it is linked to itself.

  A node lives as long as the kernel knows it or it has children: \<open>refctr\<close> counts both, and
  releasing a node releases its parent in turn. \<open>node_inv\<close> states that and how the tables
  reflect the nodes.
\<close>

section \<open>Nodes\<close>

record fnode =
  nodeid :: nat
  ngeneration :: nat
  refctr :: int
  parent :: node
  nname :: "string option"
  nlookup :: nat
  is_hidden :: bool
  treelock :: int

record fuse =
  fnodes :: "node \<Rightarrow> fnode option"
  fbrk :: node
  name_table :: node_table
  id_table :: node_table
  lru_table :: "node list"
  forget_time :: "node \<Rightarrow> int"
  ctr :: nat
  generation :: nat
  remember :: int

definition FUSE_ROOT_ID :: nat where
  "FUSE_ROOT_ID = 1"

definition FUSE_UNKNOWN_INO :: nat where
  "FUSE_UNKNOWN_INO = 4294967295"

definition mod_node :: "node \<Rightarrow> (fnode \<Rightarrow> fnode) \<Rightarrow> fuse \<Rightarrow> fuse option" where
  "mod_node x g f = (case fnodes f x of None \<Rightarrow> None | Some nd \<Rightarrow> Some (f\<lparr>fnodes := (fnodes f)(x \<mapsto> g nd)\<rparr>))"

text \<open>
  \<open>refctr\<close> is an \<open>int\<close>, and the code counts it up without a check: past \<open>INT_MAX\<close> the
  increment has no defined result.
\<close>

definition INT_MAX :: nat where
  "INT_MAX = 2147483647"

definition inc_refctr :: "node \<Rightarrow> fuse \<Rightarrow> fuse option" where
  "inc_refctr x f = do {
     nd \<leftarrow> fnodes f x;
     if refctr nd < int INT_MAX then mod_node x (\<lambda>nd. nd\<lparr>refctr := refctr nd + 1\<rparr>) f else None }"

definition lru_enabled :: "fuse \<Rightarrow> bool" where
  "lru_enabled f \<longleftrightarrow> remember f > 0"

definition alloc_node :: "fuse \<Rightarrow> node \<times> fuse" where
  "alloc_node f =
     (let x = fbrk f
      in (x, f\<lparr>fbrk := x + 1,
              fnodes := (fnodes f)(x \<mapsto> \<lparr>nodeid = 0, ngeneration = 0, refctr = 0, parent = 0, nname = None,
                nlookup = 0, is_hidden = False, treelock = 0\<rparr>),
              name_table := (name_table f)\<lparr>tnext := (tnext (name_table f))(x := 0)\<rparr>,
              id_table := (id_table f)\<lparr>tnext := (tnext (id_table f))(x := 0)\<rparr>\<rparr>))"

definition free_node :: "node \<Rightarrow> fuse \<Rightarrow> fuse option" where
  "free_node x f = (case fnodes f x of None \<Rightarrow> None | Some nd \<Rightarrow> Some (f\<lparr>fnodes := (fnodes f)(x := None)\<rparr>))"

section \<open>The table of identifiers\<close>

text \<open>The product of 32 bit numbers that \<open>id_hash\<close> starts from.\<close>

definition id_raw :: "nat \<Rightarrow> nat" where
  "id_raw ino = (ino mod 2 ^ 32 * 2654435761) mod 2 ^ 32"

definition id_hash :: "fuse \<Rightarrow> nat \<Rightarrow> nat" where
  "id_hash f ino = lin_hash (id_raw ino) (id_table f)"

definition id_key :: "fuse \<Rightarrow> node \<Rightarrow> nat option" where
  "id_key f x = map_option (\<lambda>nd. id_raw (nodeid nd)) (fnodes f x)"

definition get_node_nocheck :: "fuse \<Rightarrow> nat \<Rightarrow> node option" where
  "get_node_nocheck f ino =
     tab_find (\<lambda>x. map_option (\<lambda>nd. nodeid nd = ino) (fnodes f x)) (id_hash f ino) (id_table f)"

definition get_node :: "fuse \<Rightarrow> nat \<Rightarrow> node option" where
  "get_node f ino = do { x \<leftarrow> get_node_nocheck f ino; if x = 0 then None else Some x }"

definition unhash_id :: "node \<Rightarrow> fuse \<Rightarrow> fuse option" where
  "unhash_id x f = do {
     nd \<leftarrow> fnodes f x;
     r \<leftarrow> slot_find x (Bucket (id_hash f (nodeid nd))) (id_table f);
     case r of
       None \<Rightarrow> Some f
     | Some nodep \<Rightarrow> do {
         t \<leftarrow> assign nodep (tnext (id_table f) x) (id_table f);
         t \<leftarrow> tab_dec t;
         Some (f\<lparr>id_table := t\<rparr>) } }"

definition hash_id :: "node \<Rightarrow> fuse \<Rightarrow> fuse option" where
  "hash_id x f = do {
     nd \<leftarrow> fnodes f x;
     t \<leftarrow> tab_add (id_key f) (id_hash f (nodeid nd)) x (id_table f);
     Some (f\<lparr>id_table := t\<rparr>) }"

text \<open>\<open>next_id\<close> counts on until it finds an identifier that is not in use.\<close>

partial_function (option) next_id :: "fuse \<Rightarrow> (nat \<times> fuse) option" where
  "next_id f = do {
     let c = (ctr f + 1) mod 2 ^ 32;
     let f = f\<lparr>ctr := c, generation := (if c = 0 then (generation f + 1) mod 2 ^ 32 else generation f)\<rparr>;
     if c = 0 \<or> c = FUSE_UNKNOWN_INO then next_id f
     else do {
       x \<leftarrow> get_node_nocheck f c;
       if x \<noteq> 0 then next_id f else Some (c, f) } }"

section \<open>The table of names\<close>

definition name_raw :: "nat \<Rightarrow> string \<Rightarrow> nat" where
  "name_raw par name = foldl (\<lambda>hash c. (hash * 31 + of_char c) mod 2 ^ 64) par name"

definition name_hash :: "fuse \<Rightarrow> nat \<Rightarrow> string \<Rightarrow> nat" where
  "name_hash f par name = lin_hash (name_raw par name) (name_table f)"

definition name_key :: "fuse \<Rightarrow> node \<Rightarrow> nat option" where
  "name_key f x = do {
     nd \<leftarrow> fnodes f x;
     p \<leftarrow> fnodes f (parent nd);
     nm \<leftarrow> nname nd;
     Some (name_raw (nodeid p) nm) }"

definition lookup_node :: "fuse \<Rightarrow> nat \<Rightarrow> string \<Rightarrow> node option" where
  "lookup_node f par name =
     tab_find (\<lambda>x. do {
         nd \<leftarrow> fnodes f x;
         p \<leftarrow> fnodes f (parent nd);
         if nodeid p = par then map_option (\<lambda>nm. nm = name) (nname nd) else Some False })
       (name_hash f par name) (name_table f)"

definition hash_name :: "node \<Rightarrow> nat \<Rightarrow> string \<Rightarrow> fuse \<Rightarrow> fuse option" where
  "hash_name x parentid name f = do {
     let hash = name_hash f parentid name;
     p \<leftarrow> get_node f parentid;
     f \<leftarrow> mod_node x (\<lambda>nd. nd\<lparr>nname := Some name\<rparr>) f;
     f \<leftarrow> inc_refctr p f;
     f \<leftarrow> mod_node x (\<lambda>nd. nd\<lparr>parent := p\<rparr>) f;
     t \<leftarrow> tab_add (name_key f) hash x (name_table f);
     Some (f\<lparr>name_table := t\<rparr>) }"

text \<open>
  The two halves of \<open>unhash_name\<close>, before and after it releases the parent: taking the
  node out of its bucket (a node that is not there is an error), and forgetting its name.
\<close>

definition take_name :: "node \<Rightarrow> fuse \<Rightarrow> fuse option" where
  "take_name x f = do {
     nd \<leftarrow> fnodes f x;
     p \<leftarrow> fnodes f (parent nd);
     nm \<leftarrow> nname nd;
     r \<leftarrow> slot_find x (Bucket (name_hash f (nodeid p) nm)) (name_table f);
     nodep \<leftarrow> r;
     t \<leftarrow> assign nodep (tnext (name_table f) x) (name_table f);
     Some (f\<lparr>name_table := t\<lparr>tnext := (tnext t)(x := 0)\<rparr>\<rparr>) }"

definition drop_name :: "node \<Rightarrow> fuse \<Rightarrow> fuse option" where
  "drop_name x f = do {
     f \<leftarrow> mod_node x (\<lambda>nd. nd\<lparr>nname := None, parent := 0\<rparr>) f;
     t \<leftarrow> tab_dec (name_table f);
     Some (f\<lparr>name_table := t\<rparr>) }"

definition remove_node_lru :: "node \<Rightarrow> fuse \<Rightarrow> fuse" where
  "remove_node_lru x f = f\<lparr>lru_table := remove1 x (lru_table f)\<rparr>"

definition set_forget_time :: "int \<Rightarrow> node \<Rightarrow> fuse \<Rightarrow> fuse" where
  "set_forget_time now x f = f\<lparr>lru_table := remove1 x (lru_table f) @ [x], forget_time := (forget_time f)(x := now)\<rparr>"

section \<open>Releasing a node\<close>

text \<open>
  \<open>unref_node\<close>, \<open>delete_node\<close> and \<open>unhash_name\<close> call each other; \<open>unref_node\<close> has the
  bodies of the other two, which are then defined with it (\<open>unref_node_delete\<close> below).
\<close>

partial_function (option) unref_node :: "node \<Rightarrow> fuse \<Rightarrow> fuse option" where
  "unref_node x f = do {
     nd \<leftarrow> fnodes f x;
     if refctr nd > 0 then do {
       f \<leftarrow> mod_node x (\<lambda>nd. nd\<lparr>refctr := refctr nd - 1\<rparr>) f;
       if refctr nd - 1 = 0 then
         (if treelock nd = 0 then do {
            f \<leftarrow> (case nname nd of
                   None \<Rightarrow> Some f
                 | Some nm \<Rightarrow> do {
                     f \<leftarrow> take_name x f;
                     f \<leftarrow> unref_node (parent nd) f;
                     drop_name x f });
            let f = (if lru_enabled f then remove_node_lru x f else f);
            f \<leftarrow> unhash_id x f;
            free_node x f }
          else None)
       else Some f }
     else None }"

definition unhash_name :: "node \<Rightarrow> fuse \<Rightarrow> fuse option" where
  "unhash_name x f = do {
     nd \<leftarrow> fnodes f x;
     case nname nd of
       None \<Rightarrow> Some f
     | Some nm \<Rightarrow> do {
         f \<leftarrow> take_name x f;
         f \<leftarrow> unref_node (parent nd) f;
         drop_name x f } }"

definition delete_node :: "node \<Rightarrow> fuse \<Rightarrow> fuse option" where
  "delete_node x f = do {
     nd \<leftarrow> fnodes f x;
     if treelock nd = 0 then do {
       f \<leftarrow> unhash_name x f;
       let f = (if lru_enabled f then remove_node_lru x f else f);
       f \<leftarrow> unhash_id x f;
       free_node x f }
     else None }"

lemma unref_node_delete:
  "unref_node x f = do {
     nd \<leftarrow> fnodes f x;
     if refctr nd > 0 then do {
       f \<leftarrow> mod_node x (\<lambda>nd. nd\<lparr>refctr := refctr nd - 1\<rparr>) f;
       if refctr nd - 1 = 0 then delete_node x f else Some f }
     else None }"
proof (cases "fnodes f x")
  case None
  then show ?thesis by (subst unref_node.simps) simp
next
  case (Some nd)
  then show ?thesis
    by (subst unref_node.simps) (cases "nname nd"; simp add: delete_node_def unhash_name_def mod_node_def)
qed

section \<open>Requests\<close>

definition inc_nlookup :: "node \<Rightarrow> fuse \<Rightarrow> fuse option" where
  "inc_nlookup x f = do {
     nd \<leftarrow> fnodes f x;
     f \<leftarrow> (if nlookup nd = 0 then inc_refctr x f else Some f);
     mod_node x (\<lambda>nd. nd\<lparr>nlookup := (nlookup nd + 1) mod 2 ^ 64\<rparr>) f }"

definition find_node :: "nat \<Rightarrow> string option \<Rightarrow> fuse \<Rightarrow> (node \<times> fuse) option" where
  "find_node par name f = do {
     x \<leftarrow> (case name of None \<Rightarrow> get_node f par | Some nm \<Rightarrow> lookup_node f par nm);
     (x, f) \<leftarrow>
       (if x = 0 then do {
          let (x, f) = alloc_node f;
          (c, f) \<leftarrow> next_id f;
          f \<leftarrow> mod_node x (\<lambda>nd. nd\<lparr>nodeid := c, ngeneration := generation f\<rparr>) f;
          f \<leftarrow> (if remember f \<noteq> 0 then inc_nlookup x f else Some f);
          nm \<leftarrow> name;
          f \<leftarrow> hash_name x par nm f;
          f \<leftarrow> hash_id x f;
          Some (x, f) }
        else do {
          nd \<leftarrow> fnodes f x;
          Some (x, if lru_enabled f \<and> nlookup nd = 1 then remove_node_lru x f else f) });
     f \<leftarrow> inc_nlookup x f;
     Some (x, f) }"

definition forget_node :: "int \<Rightarrow> nat \<Rightarrow> nat \<Rightarrow> fuse \<Rightarrow> fuse option" where
  "forget_node now ino n f =
     (if ino = FUSE_ROOT_ID then Some f
      else do {
        x \<leftarrow> get_node f ino;
        nd \<leftarrow> fnodes f x;
        if nlookup nd = n \<and> treelock nd \<noteq> 0 then None
        else if nlookup nd < n then None
        else do {
          f \<leftarrow> mod_node x (\<lambda>nd. nd\<lparr>nlookup := nlookup nd - n\<rparr>) f;
          if nlookup nd - n = 0 then unref_node x f
          else Some (if lru_enabled f \<and> nlookup nd - n = 1 then set_forget_time now x f else f) } })"

definition unlink_node :: "node \<Rightarrow> fuse \<Rightarrow> fuse option" where
  "unlink_node x f = do {
     f \<leftarrow> (if remember f \<noteq> 0 then do {
             nd \<leftarrow> fnodes f x;
             if nlookup nd > 1 then mod_node x (\<lambda>nd. nd\<lparr>nlookup := nlookup nd - 1\<rparr>) f else None }
           else Some f);
     unhash_name x f }"

definition remove_node :: "nat \<Rightarrow> string \<Rightarrow> fuse \<Rightarrow> fuse option" where
  "remove_node dir name f = do {
     x \<leftarrow> lookup_node f dir name;
     if x \<noteq> 0 then unlink_node x f else Some f }"

definition EBUSY :: int where
  "EBUSY = 16"

definition rename_node :: "nat \<Rightarrow> string \<Rightarrow> nat \<Rightarrow> string \<Rightarrow> bool \<Rightarrow> fuse \<Rightarrow> (int \<times> fuse) option" where
  "rename_node olddir oldname newdir newname hide f = do {
     x \<leftarrow> lookup_node f olddir oldname;
     newnode \<leftarrow> lookup_node f newdir newname;
     if x = 0 then Some (0, f)
     else if newnode \<noteq> 0 \<and> hide then Some (- EBUSY, f)
     else do {
       f \<leftarrow> (if newnode \<noteq> 0 then unlink_node newnode f else Some f);
       f \<leftarrow> unhash_name x f;
       f \<leftarrow> hash_name x newdir newname f;
       f \<leftarrow> (if hide then mod_node x (\<lambda>nd. nd\<lparr>is_hidden := True\<rparr>) f else Some f);
       Some (0, f) } }"

definition exchange_node :: "nat \<Rightarrow> string \<Rightarrow> nat \<Rightarrow> string \<Rightarrow> fuse \<Rightarrow> fuse option" where
  "exchange_node olddir oldname newdir newname f = do {
     oldnode \<leftarrow> lookup_node f olddir oldname;
     newnode \<leftarrow> lookup_node f newdir newname;
     f \<leftarrow> (if oldnode \<noteq> 0 then unhash_name oldnode f else Some f);
     f \<leftarrow> (if newnode \<noteq> 0 then unhash_name newnode f else Some f);
     f \<leftarrow> (if oldnode \<noteq> 0 then hash_name oldnode newdir newname f else Some f);
     if newnode \<noteq> 0 then hash_name newnode olddir oldname f else Some f }"

text \<open>The nodes of a new file system, in \<open>fuse_new\<close>.\<close>

definition fuse_new_nodes :: "int \<Rightarrow> fuse option" where
  "fuse_new_nodes rem =
     (let f = \<lparr>fnodes = \<lambda>_. None, fbrk = 1, name_table = node_table_init, id_table = node_table_init, lru_table = [],
               forget_time = \<lambda>_. 0, ctr = 0, generation = 0, remember = rem\<rparr>;
          (root, f) = alloc_node f
      in do {
        f \<leftarrow> mod_node root (\<lambda>nd. nd\<lparr>nname := Some ''/'', parent := 0, nodeid := FUSE_ROOT_ID\<rparr>) f;
        f \<leftarrow> inc_nlookup root f;
        hash_id root f })"

section \<open>The invariant\<close>

definition fn :: "fuse \<Rightarrow> node \<Rightarrow> fnode" where
  "fn f x = the (fnodes f x)"

definition live :: "fuse \<Rightarrow> node set" where
  "live f = {x. fnodes f x \<noteq> None}"

definition named :: "fuse \<Rightarrow> node set" where
  "named f = {x \<in> live f. parent (fn f x) \<noteq> 0}"

definition kids :: "fuse \<Rightarrow> node \<Rightarrow> node set" where
  "kids f p = {x \<in> named f. parent (fn f x) = p}"

definition parents :: "fuse \<Rightarrow> (node \<times> node) set" where
  "parents f = {(x, parent (fn f x)) |x. x \<in> named f}"

definition is_root :: "fnode \<Rightarrow> bool" where
  "is_root nd \<longleftrightarrow> nodeid nd = FUSE_ROOT_ID \<and> parent nd = 0 \<and> nname nd = Some ''/'' \<and> 0 < nlookup nd"

text \<open>
  What holds between requests, and, with \<open>P\<close> and \<open>e\<close>, while nodes are being released: \<open>P\<close>
  are the nodes taken out of the table of names whose names are still to be dropped, and
  \<open>e\<close> counts the references that are still to be released.
\<close>

definition nodes_ok :: "fuse \<Rightarrow> bool" where
  "nodes_ok f \<longleftrightarrow> finite (live f) \<and> 0 \<notin> live f \<and> (\<forall>x \<in> live f. x < fbrk f) \<and> 0 < fbrk f
     \<and> inj_on (\<lambda>x. nodeid (fn f x)) (live f) \<and> (\<forall>x \<in> live f. 0 < nodeid (fn f x) \<and> nodeid (fn f x) < FUSE_UNKNOWN_INO)
     \<and> acyclic (parents f) \<and> (\<exists>r \<in> live f. is_root (fn f r))
     \<and> (\<forall>x \<in> live f. treelock (fn f x) = 0 \<and> (x \<notin> named f \<longrightarrow> is_root (fn f x) \<or> nname (fn f x) = None)) \<and> remember f = 0
     \<and> card (live f) < INT_MAX"

definition names_ok :: "fuse \<Rightarrow> node set \<Rightarrow> bool" where
  "names_ok f P \<longleftrightarrow> P \<subseteq> named f \<and> (\<forall>x \<in> named f - P. parent (fn f x) \<in> live f \<and> nname (fn f x) \<noteq> None)
     \<and> inj_on (\<lambda>x. (parent (fn f x), nname (fn f x))) (named f - P)"

definition tables_ok :: "fuse \<Rightarrow> node set \<Rightarrow> bool" where
  "tables_ok f P \<longleftrightarrow> tab_holds (id_key f) (id_table f) (live f) \<and> tuse (id_table f) = card (live f)
     \<and> tab_holds (name_key f) (name_table f) (named f - P) \<and> tuse (name_table f) = card (named f)"

definition refs_ok :: "fuse \<Rightarrow> node set \<Rightarrow> (node \<Rightarrow> nat) \<Rightarrow> bool" where
  "refs_ok f P e \<longleftrightarrow> (\<forall>x. x \<notin> live f \<longrightarrow> e x = 0)
     \<and> (\<forall>x \<in> live f. refctr (fn f x) = (if 0 < nlookup (fn f x) then 1 else 0) + int (card (kids f x - P)) + int (e x))"

definition node_inv :: "fuse \<Rightarrow> node set \<Rightarrow> (node \<Rightarrow> nat) \<Rightarrow> bool" where
  "node_inv f P e \<longleftrightarrow> nodes_ok f \<and> names_ok f P \<and> tables_ok f P \<and> refs_ok f P e"

text \<open>Every node but those of \<open>Z\<close> is referred to.\<close>

definition held :: "fuse \<Rightarrow> node set \<Rightarrow> bool" where
  "held f Z \<longleftrightarrow> (\<forall>x \<in> live f - Z. 0 < refctr (fn f x))"

text \<open>What releasing leaves: only nodes the kernel does not know are freed, the others keep all but the count.\<close>

definition keeps :: "fuse \<Rightarrow> fuse \<Rightarrow> bool" where
  "keeps f f' \<longleftrightarrow> live f' \<subseteq> live f \<and> (\<forall>x \<in> live f'. (fn f' x)\<lparr>refctr := 0\<rparr> = (fn f x)\<lparr>refctr := 0\<rparr>)
     \<and> (\<forall>x \<in> live f - live f'. nlookup (fn f x) = 0) \<and> ctr f' = ctr f \<and> fbrk f' = fbrk f \<and> remember f' = remember f
     \<and> generation f' = generation f"

lemma node_invD:
  assumes "node_inv f P e"
  shows "nodes_ok f" "names_ok f P" "tables_ok f P" "refs_ok f P e"
  using assms by (simp_all add: node_inv_def)

lemma nodes_okD:
  assumes "nodes_ok f"
  shows "finite (live f)" "0 \<notin> live f" "\<And>x. x \<in> live f \<Longrightarrow> x < fbrk f" "inj_on (\<lambda>x. nodeid (fn f x)) (live f)"
    "\<And>x. x \<in> live f \<Longrightarrow> 0 < nodeid (fn f x) \<and> nodeid (fn f x) < FUSE_UNKNOWN_INO" "acyclic (parents f)"
    "\<And>x. x \<in> live f \<Longrightarrow> treelock (fn f x) = 0" "\<And>x. x \<in> live f \<Longrightarrow> x \<notin> named f \<Longrightarrow> is_root (fn f x) \<or> nname (fn f x) = None"
    "remember f = 0" "\<exists>r \<in> live f. is_root (fn f r)" "finite (named f)" "0 < fbrk f" "card (live f) < INT_MAX"
  using assms by (auto simp: nodes_ok_def named_def)

lemma nodes_okI:
  assumes "finite (live f)" "0 \<notin> live f" "\<And>x. x \<in> live f \<Longrightarrow> x < fbrk f" "0 < fbrk f" "inj_on (\<lambda>x. nodeid (fn f x)) (live f)"
    "acyclic (parents f)" "\<exists>r \<in> live f. is_root (fn f r)" "remember f = 0" "card (live f) < INT_MAX"
    "\<And>x. x \<in> live f \<Longrightarrow> treelock (fn f x) = 0 \<and> (x \<notin> named f \<longrightarrow> is_root (fn f x) \<or> nname (fn f x) = None)
      \<and> 0 < nodeid (fn f x) \<and> nodeid (fn f x) < FUSE_UNKNOWN_INO"
  shows "nodes_ok f"
  using assms by (simp add: nodes_ok_def)

lemma same_but_refctr:
  assumes "(nd' :: fnode)\<lparr>refctr := 0\<rparr> = nd\<lparr>refctr := 0\<rparr>"
  shows "nodeid nd' = nodeid nd" "parent nd' = parent nd" "nname nd' = nname nd" "nlookup nd' = nlookup nd" "is_hidden nd' = is_hidden nd"
  using assms by (cases nd'; cases nd; simp)+

lemma same_but_counts:
  assumes "(nd' :: fnode)\<lparr>refctr := 0, nlookup := 0\<rparr> = nd\<lparr>refctr := 0, nlookup := 0\<rparr>"
  shows "nodeid nd' = nodeid nd" "parent nd' = parent nd" "nname nd' = nname nd" "is_hidden nd' = is_hidden nd"
  using assms by (cases nd'; cases nd; simp)+

lemma live_fn: "x \<in> live f \<longleftrightarrow> fnodes f x = Some (fn f x)"
  by (auto simp: live_def fn_def)

lemma named_live: "x \<in> named f \<Longrightarrow> x \<in> live f"
  by (simp add: named_def)

lemma mod_node_live: "x \<in> live f \<Longrightarrow> mod_node x g f = Some (f\<lparr>fnodes := (fnodes f)(x \<mapsto> g (fn f x))\<rparr>)"
  by (auto simp: mod_node_def live_def fn_def)

lemma live_set_node [simp]: "x \<in> live f \<Longrightarrow> live (f\<lparr>fnodes := (fnodes f)(x \<mapsto> nd)\<rparr>) = live f"
  by (auto simp: live_def)

lemma fn_upd: "fn (f\<lparr>fnodes := (fnodes f)(x \<mapsto> nd)\<rparr>) y = (if y = x then nd else fn f y)"
  by (simp add: fn_def)

lemma views_tables [simp]:
  "live (f\<lparr>name_table := t\<rparr>) = live f" "fn (f\<lparr>name_table := t\<rparr>) = fn f" "live (f\<lparr>id_table := t\<rparr>) = live f" "fn (f\<lparr>id_table := t\<rparr>) = fn f"
  "named (f\<lparr>name_table := t\<rparr>) = named f" "named (f\<lparr>id_table := t\<rparr>) = named f"
  "kids (f\<lparr>name_table := t\<rparr>) = kids f" "kids (f\<lparr>id_table := t\<rparr>) = kids f"
  "parents (f\<lparr>name_table := t\<rparr>) = parents f" "parents (f\<lparr>id_table := t\<rparr>) = parents f"
  "id_key (f\<lparr>name_table := t\<rparr>) = id_key f" "id_key (f\<lparr>id_table := t\<rparr>) = id_key f"
  "name_key (f\<lparr>name_table := t\<rparr>) = name_key f" "name_key (f\<lparr>id_table := t\<rparr>) = name_key f"
  by (simp_all add: live_def fn_def named_def kids_def parents_def id_key_def name_key_def fun_eq_iff)

lemma id_key_live: "x \<in> live f \<Longrightarrow> id_key f x = Some (id_raw (nodeid (fn f x)))"
  by (simp add: live_fn id_key_def)

lemma name_key_live:
  assumes "x \<in> live f" "parent (fn f x) \<in> live f"
  shows "name_key f x = map_option (name_raw (nodeid (fn f (parent (fn f x))))) (nname (fn f x))"
  using assms by (cases "nname (fn f x)") (simp_all add: live_fn name_key_def)

lemma name_key_named:
  assumes "x \<in> live f" "parent (fn f x) \<in> live f" "nname (fn f x) = Some nm"
  shows "name_key f x = Some (name_raw (nodeid (fn f (parent (fn f x)))) nm)"
  using assms by (simp add: live_fn name_key_def)

section \<open>Lookup\<close>

lemma get_node_nocheck_holds:
  assumes "tab_holds (id_key f) (id_table f) X" "X \<subseteq> live f"
  shows "\<exists>x. get_node_nocheck f ino = Some x \<and> (if x = 0 then \<forall>y \<in> X. nodeid (fn f y) \<noteq> ino else x \<in> X \<and> nodeid (fn f x) = ino)"
  unfolding get_node_nocheck_def id_hash_def
  by (rule tab_find_holds [OF assms(1), where P = "\<lambda>y. nodeid (fn f y) = ino"])
    (use assms(2) in \<open>auto simp: live_fn id_key_def subset_iff\<close>)

lemma get_node_nocheck_inv:
  assumes "node_inv f P e"
  shows "\<exists>x. get_node_nocheck f ino = Some x
    \<and> (if x = 0 then \<forall>y \<in> live f. nodeid (fn f y) \<noteq> ino else x \<in> live f \<and> nodeid (fn f x) = ino)"
  using get_node_nocheck_holds [of f "live f"] node_invD(3) [OF assms] by (simp add: tables_ok_def)

lemma get_node_holds:
  assumes "tab_holds (id_key f) (id_table f) X" "X \<subseteq> live f" "inj_on (\<lambda>x. nodeid (fn f x)) X" "x \<in> X"
  shows "get_node f (nodeid (fn f x)) = Some x"
proof -
  obtain y where y: "get_node_nocheck f (nodeid (fn f x)) = Some y"
    "if y = 0 then \<forall>z \<in> X. nodeid (fn f z) \<noteq> nodeid (fn f x) else y \<in> X \<and> nodeid (fn f y) = nodeid (fn f x)"
    using get_node_nocheck_holds [OF assms(1,2)] by blast
  then have "y \<noteq> 0" "y \<in> X" "nodeid (fn f y) = nodeid (fn f x)" using assms(4) by (auto split: if_splits)
  then have "y = x" using assms(3,4) by (auto simp: inj_on_def)
  then show ?thesis using y(1) \<open>y \<noteq> 0\<close> by (simp add: get_node_def)
qed

lemma get_node_live:
  assumes "node_inv f P e" "x \<in> live f"
  shows "get_node f (nodeid (fn f x)) = Some x"
  by (rule get_node_holds [OF _ subset_refl])
    (use assms node_invD(3) [OF assms(1)] nodes_okD(4) [OF node_invD(1) [OF assms(1)]] in \<open>simp_all add: tables_ok_def\<close>)

lemma lookup_node_inv:
  assumes "node_inv f P e" "p \<in> live f"
  shows "\<exists>x. lookup_node f (nodeid (fn f p)) nm = Some x
    \<and> (if x = 0 then \<forall>y \<in> named f - P. \<not> (parent (fn f y) = p \<and> nname (fn f y) = Some nm)
       else x \<in> named f - P \<and> parent (fn f x) = p \<and> nname (fn f x) = Some nm)"
  unfolding lookup_node_def name_hash_def
proof (rule tab_find_holds [where P = "\<lambda>y. parent (fn f y) = p \<and> nname (fn f y) = Some nm" and key = "name_key f"])
  note i = node_invD [OF assms(1)]
  show "tab_holds (name_key f) (name_table f) (named f - P)" using i(3) by (simp add: tables_ok_def)
  fix y assume y: "y \<in> named f - P"
  then have l: "y \<in> live f" "parent (fn f y) \<in> live f" "nname (fn f y) \<noteq> None" using i(2) named_live by (auto simp: names_ok_def)
  have "nodeid (fn f (parent (fn f y))) = nodeid (fn f p) \<longleftrightarrow> parent (fn f y) = p"
    using nodes_okD(4) [OF i(1)] l(2) assms(2) by (auto simp: inj_on_def)
  then show "do {
       nd \<leftarrow> fnodes f y;
       pd \<leftarrow> fnodes f (parent nd);
       if nodeid pd = nodeid (fn f p) then map_option (\<lambda>n. n = nm) (nname nd) else Some False }
     = Some (parent (fn f y) = p \<and> nname (fn f y) = Some nm)"
    using l by (auto simp: live_fn)
  show "name_key f y = Some (name_raw (nodeid (fn f p)) nm)" if "parent (fn f y) = p \<and> nname (fn f y) = Some nm"
    using name_key_named [OF l(1,2)] that by simp
qed

section \<open>Releasing keeps the invariant\<close>

lemma kids_named: "kids f p \<subseteq> named f" "p \<noteq> q \<Longrightarrow> kids f p \<inter> kids f q = {}"
  by (auto simp: kids_def)

lemma take_name_inv:
  assumes inv: "node_inv f P e" and x: "x \<in> named f - P"
  shows "\<exists>t. take_name x f = Some (f\<lparr>name_table := t\<rparr>)
    \<and> node_inv (f\<lparr>name_table := t\<rparr>) (insert x P) (e(parent (fn f x) := e (parent (fn f x)) + 1))"
proof -
  note i = node_invD [OF inv] and n = nodes_okD [OF node_invD(1) [OF inv]]
  let ?p = "parent (fn f x)"
  have l: "x \<in> live f" "?p \<in> live f" using x i(2) named_live by (auto simp: names_ok_def)
  obtain nm where nm: "nname (fn f x) = Some nm" using x i(2) by (auto simp: names_ok_def)
  have th: "tab_holds (name_key f) (name_table f) (named f - P)" "tuse (name_table f) = card (named f)"
    "tab_holds (id_key f) (id_table f) (live f)" "tuse (id_table f) = card (live f)" using i(3) by (simp_all add: tables_ok_def)
  obtain sl t where sl: "slot_find x (Bucket (name_hash f (nodeid (fn f ?p)) nm)) (name_table f) = Some (Some sl)"
    "assign sl (tnext (name_table f) x) (name_table f) = Some t" "tab_holds (name_key f) t (named f - P - {x})" "tuse t = tuse (name_table f)"
    using tab_remove_holds [OF th(1) x name_key_named [OF l nm]] unfolding name_hash_def by blast
  let ?t = "t\<lparr>tnext := (tnext t)(x := 0)\<rparr>"
  have "take_name x f = Some (f\<lparr>name_table := ?t\<rparr>)" using l nm sl(1,2) by (simp add: take_name_def live_fn)
  moreover have "tables_ok (f\<lparr>name_table := ?t\<rparr>) (insert x P)"
  proof -
    have "tab_holds (name_key f) ?t (named f - P - {x})" using tab_holds_next [OF sl(3), of x 0] by simp
    moreover have "named f - P - {x} = named f - insert x P" by auto
    ultimately show ?thesis using th sl(4) by (simp add: tables_ok_def)
  qed
  moreover have "nodes_ok (f\<lparr>name_table := ?t\<rparr>)" using i(1) by (simp add: nodes_ok_def)
  moreover have "names_ok (f\<lparr>name_table := ?t\<rparr>) (insert x P)" using i(2) x by (auto simp: names_ok_def inj_on_def)
  moreover have "refs_ok (f\<lparr>name_table := ?t\<rparr>) (insert x P) (e(?p := e ?p + 1))"
  proof -
    have k: "card (kids f q - P) = card (kids f q - insert x P) + (if q = ?p then 1 else 0)" for q
    proof (cases "q = ?p")
      case True
      then have "x \<in> kids f q - P" using x by (auto simp: kids_def)
      moreover have "finite (kids f q - P)" using n(11) kids_named(1) finite_subset by (metis finite_Diff)
      moreover have "kids f q - P - {x} = kids f q - insert x P" by auto
      ultimately show ?thesis using True card.remove [of "kids f q - P" x] by simp
    next
      case False
      then have "kids f q - insert x P = kids f q - P" by (auto simp: kids_def)
      then have "card (kids f q - insert x P) = card (kids f q - P)" by (rule arg_cong)
      then show ?thesis unfolding if_not_P [OF False] add_0_right by (rule sym)
    qed
    have "refctr (fn f q) = (if 0 < nlookup (fn f q) then 1 else 0) + int (card (kids f q - insert x P)) + int ((e(?p := e ?p + 1)) q)"
      if "q \<in> live f" for q
      using i(4) k [of q] that by (auto simp: refs_ok_def)
    then show ?thesis using i(4) l(2) by (auto simp: refs_ok_def)
  qed
  ultimately show ?thesis unfolding node_inv_def by blast
qed

lemma drop_name_inv:
  assumes inv: "node_inv f (insert x P) e" and x: "x \<notin> P"
  shows "\<exists>f'. drop_name x f = Some f' \<and> node_inv f' P e \<and> live f' = live f \<and> named f' = named f - {x}
    \<and> (\<forall>y. fn f' y = (if y = x then (fn f x)\<lparr>nname := None, parent := 0\<rparr> else fn f y))
    \<and> ctr f' = ctr f \<and> fbrk f' = fbrk f \<and> remember f' = remember f \<and> generation f' = generation f \<and> (\<forall>q. kids f' q = kids f q - {x})"
proof -
  note i = node_invD [OF inv] and n = nodes_okD [OF node_invD(1) [OF inv]]
  have xn: "x \<in> named f" using i(2) by (auto simp: names_ok_def)
  then have xl: "x \<in> live f" by (rule named_live)
  define nd where "nd = (fn f x)\<lparr>nname := None, parent := 0\<rparr>"
  define f1 where "f1 = f\<lparr>fnodes := (fnodes f)(x \<mapsto> nd)\<rparr>"
  have m: "mod_node x (\<lambda>nd. nd\<lparr>nname := None, parent := 0\<rparr>) f = Some f1" using mod_node_live [OF xl] by (simp add: f1_def nd_def)
  have lv: "live f1 = live f" and fn1: "fn f1 y = (if y = x then nd else fn f y)" for y using xl by (simp_all add: f1_def fn_upd)
  have fld: "fbrk f1 = fbrk f" "remember f1 = remember f" "ctr f1 = ctr f" "generation f1 = generation f" "id_table f1 = id_table f"
    "name_table f1 = name_table f" by (simp_all add: f1_def)
  have nm1: "named f1 = named f - {x}" by (auto simp: named_def lv fn1 nd_def)
  have kd1: "kids f1 q = kids f q - {x}" for q by (auto simp: kids_def nm1 fn1)
  have th: "tab_holds (name_key f) (name_table f) (named f - insert x P)" "tuse (name_table f) = card (named f)"
    "tab_holds (id_key f) (id_table f) (live f)" "tuse (id_table f) = card (live f)" using i(3) by (simp_all add: tables_ok_def)
  have pos: "0 < tuse (name_table f)" using xn n(11) th(2) by (auto simp: card_gt_0_iff)
  obtain t where t: "tab_dec (name_table f) = Some t" "tab_holds (name_key f) t (named f - insert x P)" "tuse t = card (named f) - 1"
    using tab_dec_holds [OF th(1) pos] th(2) by auto
  let ?f = "f1\<lparr>name_table := t\<rparr>"
  have "drop_name x f = Some ?f" using m t(1) by (simp add: drop_name_def f1_def)
  moreover have "nodes_ok ?f"
  proof -
    have "parents f1 \<subseteq> parents f" by (auto simp: parents_def nm1 fn1)
    then have "acyclic (parents f1)" using n(6) acyclic_subset by blast
    moreover have "\<exists>r \<in> live f. is_root (fn f1 r)"
    proof -
      obtain r where r: "r \<in> live f" "is_root (fn f r)" using n(10) by blast
      then have "r \<noteq> x" using xn by (auto simp: named_def is_root_def)
      then show ?thesis using r fn1 by auto
    qed
    moreover have "(\<lambda>y. nodeid (fn f1 y)) = (\<lambda>y. nodeid (fn f y))" by (simp add: fun_eq_iff fn1 nd_def)
    then have "inj_on (\<lambda>y. nodeid (fn f1 y)) (live f)" using n(4) by simp
    moreover have "treelock (fn f1 y) = 0 \<and> (y \<notin> named f1 \<longrightarrow> is_root (fn f1 y) \<or> nname (fn f1 y) = None)
        \<and> 0 < nodeid (fn f1 y) \<and> nodeid (fn f1 y) < FUSE_UNKNOWN_INO" if "y \<in> live f" for y
      using n(5,7,8) [OF that] by (auto simp: fn1 nm1 nd_def)
    ultimately show ?thesis
      using n(1-3,9,12,13) fld by (intro nodes_okI) (simp_all add: lv)
  qed
  moreover have "names_ok ?f P"
    using i(2) x unfolding names_ok_def by (auto simp: nm1 lv fn1 inj_on_def)
  moreover have "tables_ok ?f P"
  proof -
    have "id_key f1 = id_key f" using xl by (auto simp: id_key_def f1_def nd_def fun_eq_iff live_fn)
    moreover have "name_key f1 y = name_key f y" if "y \<in> named f - insert x P" for y
    proof -
      have "y \<noteq> x" "y \<in> live f" "parent (fn f y) \<in> live f" using that i(2) named_live by (auto simp: names_ok_def)
      then show ?thesis by (simp add: name_key_live lv fn1 nd_def)
    qed
    then have "tab_holds (name_key f1) t (named f - insert x P)" using tab_holds_cong [OF t(2)] by blast
    moreover have "named f - insert x P = named f1 - P" using nm1 by auto
    moreover have "card (named f1) = card (named f) - 1" using xn n(11) by (simp add: nm1)
    ultimately show ?thesis using th(3,4) t(3) by (simp add: tables_ok_def lv fld)
  qed
  moreover have "refs_ok ?f P e"
  proof -
    have "kids f1 q - P = kids f q - insert x P" for q by (auto simp: kd1)
    then show ?thesis using i(4) by (auto simp: refs_ok_def lv fn1 nd_def)
  qed
  moreover have "ctr ?f = ctr f" "fbrk ?f = fbrk f" "remember ?f = remember f" "generation ?f = generation f" using fld by simp_all
  ultimately show ?thesis using lv nm1 fn1 kd1 unfolding node_inv_def nd_def by auto
qed

text \<open>Changing the counts of a node.\<close>

lemma set_counts_inv:
  assumes inv: "node_inv f P e" and x: "x \<in> live f" and nd: "nd = (fn f x)\<lparr>refctr := r, nlookup := m, is_hidden := h\<rparr>"
    and r: "r = (if 0 < m then 1 else 0) + int (card (kids f x - P)) + int k" and m: "is_root (fn f x) \<Longrightarrow> 0 < m"
  defines "f' \<equiv> f\<lparr>fnodes := (fnodes f)(x \<mapsto> nd)\<rparr>"
  shows "node_inv f' P (e(x := k))" "live f' = live f" "named f' = named f" "kids f' = kids f" "parents f' = parents f"
    "fn f' y = (if y = x then nd else fn f y)"
proof -
  note i = node_invD [OF inv] and n = nodes_okD [OF node_invD(1) [OF inv]]
  show lv: "live f' = live f" and fn1: "fn f' y = (if y = x then nd else fn f y)" for y using x by (simp_all add: f'_def fn_upd)
  have fld: "fbrk f' = fbrk f" "remember f' = remember f" "id_table f' = id_table f" "name_table f' = name_table f" by (simp_all add: f'_def)
  have same: "nodeid (fn f' y) = nodeid (fn f y)" "parent (fn f' y) = parent (fn f y)" "nname (fn f' y) = nname (fn f y)"
    "treelock (fn f' y) = treelock (fn f y)" for y by (simp_all add: fn1 nd)
  have rt: "is_root (fn f y) \<Longrightarrow> is_root (fn f' y)" for y using m by (auto simp: is_root_def fn1 nd)
  show nm1: "named f' = named f" by (simp add: named_def lv same)
  show kd1: "kids f' = kids f" by (simp add: kids_def nm1 same fun_eq_iff)
  show pr1: "parents f' = parents f" by (simp add: parents_def nm1 same)
  have ik: "id_key f' = id_key f" using x by (auto simp: id_key_def f'_def nd fun_eq_iff live_fn)
  have nk: "name_key f' y = name_key f y" if "y \<in> named f - P" for y
  proof -
    have "y \<in> live f" "parent (fn f y) \<in> live f" using that i(2) named_live by (auto simp: names_ok_def)
    then show ?thesis by (simp add: name_key_live lv same)
  qed
  have "nodes_ok f'"
  proof (rule nodes_okI)
    show "\<exists>r \<in> live f'. is_root (fn f' r)" using n(10) rt lv by auto
    fix y assume "y \<in> live f'"
    then show "treelock (fn f' y) = 0 \<and> (y \<notin> named f' \<longrightarrow> is_root (fn f' y) \<or> nname (fn f' y) = None)
        \<and> 0 < nodeid (fn f' y) \<and> nodeid (fn f' y) < FUSE_UNKNOWN_INO"
      using n(5,7,8) [of y] rt lv nm1 same by auto
  qed (use n in \<open>simp_all add: lv same pr1 fld\<close>)
  moreover have "names_ok f' P" using i(2) by (simp add: names_ok_def nm1 same lv)
  moreover have "tables_ok f' P"
    using i(3) tab_holds_cong [of "name_key f" "name_table f" "named f - P" "name_key f'", OF _ nk]
    by (simp add: tables_ok_def fld lv nm1 ik)
  moreover have "refs_ok f' P (e(x := k))" using i(4) x r by (auto simp: refs_ok_def lv kd1 fn1 nd)
  ultimately show "node_inv f' P (e(x := k))" by (simp add: node_inv_def)
qed

lemma dec_refctr_inv:
  assumes inv: "node_inv f P e" and x: "x \<in> live f" "0 < e x"
  shows "\<exists>f'. mod_node x (\<lambda>nd. nd\<lparr>refctr := refctr nd - 1\<rparr>) f = Some f' \<and> node_inv f' P (e(x := e x - 1)) \<and> live f' = live f
    \<and> named f' = named f \<and> kids f' = kids f \<and> parents f' = parents f
    \<and> (\<forall>y. fn f' y = (if y = x then (fn f x)\<lparr>refctr := refctr (fn f x) - 1\<rparr> else fn f y))
    \<and> ctr f' = ctr f \<and> fbrk f' = fbrk f \<and> remember f' = remember f \<and> generation f' = generation f"
proof -
  let ?nd = "(fn f x)\<lparr>refctr := refctr (fn f x) - 1\<rparr>"
  have "?nd = (fn f x)\<lparr>refctr := refctr (fn f x) - 1, nlookup := nlookup (fn f x), is_hidden := is_hidden (fn f x)\<rparr>" by simp
  moreover have "refctr (fn f x) - 1 = (if 0 < nlookup (fn f x) then 1 else 0) + int (card (kids f x - P)) + int (e x - 1)"
    using node_invD(4) [OF inv] x by (auto simp: refs_ok_def)
  moreover have "is_root (fn f x) \<Longrightarrow> 0 < nlookup (fn f x)" by (simp add: is_root_def)
  note set = set_counts_inv [OF inv x(1) calculation this]
  show ?thesis using mod_node_live [OF x(1)] set by simp
qed

text \<open>Freeing a node without a name, children and references.\<close>

lemma free_node_inv:
  assumes inv: "node_inv f P e" and x: "x \<in> live f" "x \<notin> named f" "kids f x \<subseteq> P" "nlookup (fn f x) = 0" "e x = 0"
  shows "\<exists>f1 f'. unhash_id x f = Some f1 \<and> free_node x f1 = Some f' \<and> node_inv f' P e \<and> live f' = live f - {x}
    \<and> (\<forall>y. y \<noteq> x \<longrightarrow> fn f' y = fn f y)
    \<and> ctr f' = ctr f \<and> fbrk f' = fbrk f \<and> remember f' = remember f \<and> generation f' = generation f"
proof -
  note i = node_invD [OF inv] and n = nodes_okD [OF node_invD(1) [OF inv]]
  have th: "tab_holds (name_key f) (name_table f) (named f - P)" "tuse (name_table f) = card (named f)"
    "tab_holds (id_key f) (id_table f) (live f)" "tuse (id_table f) = card (live f)" using i(3) by (simp_all add: tables_ok_def)
  obtain sl t where sl: "slot_find x (Bucket (id_hash f (nodeid (fn f x)))) (id_table f) = Some (Some sl)"
    "assign sl (tnext (id_table f) x) (id_table f) = Some t" "tab_holds (id_key f) t (live f - {x})" "tuse t = tuse (id_table f)"
    using tab_remove_holds [OF th(3) x(1) id_key_live [OF x(1)]] unfolding id_hash_def by blast
  have pos: "0 < tuse t" using x(1) n(1) th(4) sl(4) by (auto simp: card_gt_0_iff)
  obtain t' where t': "tab_dec t = Some t'" "tab_holds (id_key f) t' (live f - {x})" "tuse t' = card (live f) - 1"
    using tab_dec_holds [OF sl(3) pos] sl(4) th(4) by auto
  let ?f1 = "f\<lparr>id_table := t'\<rparr>" and ?f = "f\<lparr>id_table := t', fnodes := (fnodes f)(x := None)\<rparr>"
  have u: "unhash_id x f = Some ?f1" using x(1) sl(1,2) t'(1) by (simp add: unhash_id_def live_fn)
  have fr: "free_node x ?f1 = Some ?f" using x(1) by (simp add: free_node_def live_fn)
  have lv: "live ?f = live f - {x}" by (auto simp: live_def)
  have fn1: "fn ?f y = fn f y" if "y \<noteq> x" for y using that by (simp add: fn_def)
  have nm1: "named ?f = named f"
  proof (rule set_eqI)
    show "y \<in> named ?f \<longleftrightarrow> y \<in> named f" for y
    proof (cases "y = x")
      case True
      then have "y \<notin> live ?f" using lv by simp
      then show ?thesis using True x(2) by (simp add: named_def)
    qed (simp add: named_def lv fn1)
  qed
  have pf: "parent (fn ?f y) = parent (fn f y)" if "y \<in> named f" for y using that x(2) fn1 by metis
  have kd1: "kids ?f q = kids f q" for q using pf by (auto simp: kids_def nm1)
  have xr: "\<not> is_root (fn f x)" using x(4) by (simp add: is_root_def)
  have "nodes_ok ?f"
  proof (rule nodes_okI)
    show "inj_on (\<lambda>y. nodeid (fn ?f y)) (live ?f)" using n(4) by (auto simp: inj_on_def lv fn1)
    have "parents ?f = parents f" unfolding parents_def nm1 using pf by force
    then show "acyclic (parents ?f)" using n(6) by simp
    show "\<exists>r \<in> live ?f. is_root (fn ?f r)" using n(10) xr by (metis fn1 lv Diff_iff singletonD)
    show "card (live ?f) < INT_MAX" using n(13) card_Diff1_le [of "live f" x] unfolding lv by linarith
    fix y assume "y \<in> live ?f"
    then have "y \<in> live f" "y \<noteq> x" using lv by auto
    then show "treelock (fn ?f y) = 0 \<and> (y \<notin> named ?f \<longrightarrow> is_root (fn ?f y) \<or> nname (fn ?f y) = None)
        \<and> 0 < nodeid (fn ?f y) \<and> nodeid (fn ?f y) < FUSE_UNKNOWN_INO"
      using n(5,7,8) by (simp add: fn1 nm1)
  qed (use n lv in simp_all)
  moreover have na: "y \<noteq> x \<and> parent (fn f y) \<noteq> x" if "y \<in> named f - P" for y
    using x(2,3) that by (auto simp: kids_def)
  have "names_ok ?f P" unfolding names_ok_def nm1 lv
  proof (intro conjI ballI)
    show "P \<subseteq> named f" using i(2) by (simp add: names_ok_def)
    show "inj_on (\<lambda>x. (parent (fn ?f x), nname (fn ?f x))) (named f - P)"
      using i(2) na by (auto simp: names_ok_def inj_on_def fn1)
    fix y assume y: "y \<in> named f - P"
    then have "fn ?f y = fn f y" using na fn1 by blast
    then show "parent (fn ?f y) \<in> live f - {x}" "nname (fn ?f y) \<noteq> None"
      using i(2) na [OF y] y by (auto simp: names_ok_def)
  qed
  moreover have "tables_ok ?f P"
  proof -
    have "id_key ?f y = id_key f y" if "y \<in> live f - {x}" for y using that by (simp add: id_key_def)
    then have "tab_holds (id_key ?f) t' (live f - {x})" using tab_holds_cong [OF t'(2)] by blast
    moreover have "name_key ?f y = name_key f y" if y: "y \<in> named f - P" for y
    proof -
      have "y \<in> live f" "parent (fn f y) \<in> live f" using y i(2) named_live by (auto simp: names_ok_def)
      then show ?thesis using na [OF y] by (simp add: name_key_live lv fn1)
    qed
    then have "tab_holds (name_key ?f) (name_table f) (named f - P)" using tab_holds_cong [OF th(1)] by blast
    ultimately show ?thesis using th(2) t'(3) n(1) x(1) by (simp add: tables_ok_def lv nm1)
  qed
  moreover have "refs_ok ?f P e" using i(4) x(5) by (auto simp: refs_ok_def lv fn1 kd1)
  ultimately show ?thesis using u fr lv fn1 unfolding node_inv_def by (intro exI [of _ ?f1] exI [of _ ?f]) simp
qed

text \<open>The node whose references are gone: what \<open>delete_node\<close> does after it has released the name.\<close>

lemma keepsD:
  assumes "keeps f f'" "x \<in> live f'"
  shows "x \<in> live f" "nodeid (fn f' x) = nodeid (fn f x)" "parent (fn f' x) = parent (fn f x)" "nname (fn f' x) = nname (fn f x)"
    "nlookup (fn f' x) = nlookup (fn f x)" "x \<in> named f' \<longleftrightarrow> x \<in> named f" "is_hidden (fn f' x) = is_hidden (fn f x)"
proof -
  have e: "x \<in> live f" "(fn f' x)\<lparr>refctr := 0\<rparr> = (fn f x)\<lparr>refctr := 0\<rparr>" using assms by (auto simp: keeps_def)
  show "x \<in> live f" by (rule e(1))
  show "nodeid (fn f' x) = nodeid (fn f x)" "nname (fn f' x) = nname (fn f x)"
    "nlookup (fn f' x) = nlookup (fn f x)" "is_hidden (fn f' x) = is_hidden (fn f x)"
    and p: "parent (fn f' x) = parent (fn f x)" using same_but_refctr [OF e(2)] by simp_all
  then show "x \<in> named f' \<longleftrightarrow> x \<in> named f" using assms(2) e(1) by (simp add: named_def)
qed

lemma keeps_kids: "keeps f f' \<Longrightarrow> kids f' p \<subseteq> kids f p"
  using keepsD named_live by (fastforce simp: kids_def)

text \<open>Dropping the name of a node, given that its parent can be released.\<close>

definition unnames :: "node \<Rightarrow> fuse \<Rightarrow> fuse \<Rightarrow> bool" where
  "unnames x f f' \<longleftrightarrow> live f' \<subseteq> live f \<and> x \<in> live f' - named f' \<and> (\<forall>y. kids f' y \<subseteq> kids f y)
     \<and> (\<forall>y \<in> live f' - {x}. (fn f' y)\<lparr>refctr := 0\<rparr> = (fn f y)\<lparr>refctr := 0\<rparr>)
     \<and> (fn f' x)\<lparr>refctr := 0\<rparr> = (fn f x)\<lparr>refctr := 0, nname := None, parent := 0\<rparr>
     \<and> (\<forall>y \<in> live f - live f'. nlookup (fn f y) = 0 \<and> (parent (fn f x), y) \<in> (parents f)\<^sup>*)
     \<and> ctr f' = ctr f \<and> fbrk f' = fbrk f \<and> remember f' = remember f \<and> generation f' = generation f"

lemma unhash_name_step:
  assumes inv: "node_inv f P e" and x: "x \<in> named f - P"
    and rel: "\<And>t. node_inv (f\<lparr>name_table := t\<rparr>) (insert x P) (e(parent (fn f x) := e (parent (fn f x)) + 1)) \<Longrightarrow>
      \<exists>f3. unref_node (parent (fn f x)) (f\<lparr>name_table := t\<rparr>) = Some f3 \<and> node_inv f3 (insert x P) e
        \<and> held f3 (insert x P) \<and> keeps (f\<lparr>name_table := t\<rparr>) f3 \<and> insert x P \<subseteq> live f3
        \<and> (\<forall>y \<in> live f - live f3. (parent (fn f x), y) \<in> (parents f)\<^sup>*)"
  shows "\<exists>f'. unhash_name x f = Some f' \<and> node_inv f' P e \<and> held f' (insert x P) \<and> P \<subseteq> live f' \<and> unnames x f f'"
proof -
  obtain nm where nm: "nname (fn f x) = Some nm" using node_invD(2) [OF inv] x by (auto simp: names_ok_def)
  have l: "fnodes f x = Some (fn f x)" using x named_live by (auto simp: live_fn [symmetric])
  obtain t where t: "take_name x f = Some (f\<lparr>name_table := t\<rparr>)"
    "node_inv (f\<lparr>name_table := t\<rparr>) (insert x P) (e(parent (fn f x) := e (parent (fn f x)) + 1))"
    using take_name_inv [OF inv x] by blast
  obtain f3 where f3: "unref_node (parent (fn f x)) (f\<lparr>name_table := t\<rparr>) = Some f3" "node_inv f3 (insert x P) e"
    "held f3 (insert x P)" "keeps (f\<lparr>name_table := t\<rparr>) f3" "insert x P \<subseteq> live f3"
    "\<forall>y \<in> live f - live f3. (parent (fn f x), y) \<in> (parents f)\<^sup>*" using rel [OF t(2)] by blast
  have xP: "x \<notin> P" using x by blast
  obtain f4 where f4: "drop_name x f3 = Some f4" "node_inv f4 P e" "live f4 = live f3" "named f4 = named f3 - {x}"
    "\<And>y. fn f4 y = (if y = x then (fn f3 x)\<lparr>nname := None, parent := 0\<rparr> else fn f3 y)"
    "ctr f4 = ctr f3" "fbrk f4 = fbrk f3" "remember f4 = remember f3" "generation f4 = generation f3" "\<And>q. kids f4 q = kids f3 q - {x}"
    using drop_name_inv [OF f3(2) xP] by blast
  have "unhash_name x f = Some f4" using l nm t(1) f3(1) f4(1) by (simp add: unhash_name_def)
  moreover have "held f4 (insert x P)" using f3(3) f4(3,5) by (auto simp: held_def)
  moreover have "unnames x f f4"
  proof -
    have "(fn f3 x)\<lparr>refctr := 0\<rparr> = (fn f x)\<lparr>refctr := 0\<rparr>" using f3(4,5) by (simp add: keeps_def)
    then have "(fn f4 x)\<lparr>refctr := 0\<rparr> = (fn f x)\<lparr>refctr := 0, nname := None, parent := 0\<rparr>"
      using f4(5) by (cases "fn f3 x"; cases "fn f x") simp
    moreover have "kids f4 y \<subseteq> kids f y" for y using keeps_kids [OF f3(4), of y] f4(10) by auto
    ultimately show ?thesis
      unfolding unnames_def using f4(3-9) f3(4-6) by (simp add: keeps_def)
  qed
  ultimately show ?thesis using f4(2,3) f3(5) by blast
qed

lemma unref_node_inv:
  assumes "node_inv f P e" "held f P" "x \<in> live f" "x \<notin> P" "0 < e x" "\<forall>p \<in> P. (p, x) \<in> (parents f)\<^sup>+"
  shows "\<exists>f'. unref_node x f = Some f' \<and> node_inv f' P (e(x := e x - 1)) \<and> held f' P \<and> keeps f f' \<and> P \<subseteq> live f'
    \<and> (\<forall>y \<in> live f - live f'. (x, y) \<in> (parents f)\<^sup>*)"
  using assms
proof (induction "card (live f - P)" arbitrary: f P e x rule: less_induct)
  case less
  note i = node_invD [OF less.prems(1)] and n = nodes_okD [OF node_invD(1) [OF less.prems(1)]]
  let ?e = "e(x := e x - 1)"
  obtain f1 where f1: "mod_node x (\<lambda>nd. nd\<lparr>refctr := refctr nd - 1\<rparr>) f = Some f1" "node_inv f1 P ?e" "live f1 = live f"
    "named f1 = named f" "kids f1 = kids f" "parents f1 = parents f"
    "\<And>y. fn f1 y = (if y = x then (fn f x)\<lparr>refctr := refctr (fn f x) - 1\<rparr> else fn f y)"
    "ctr f1 = ctr f" "fbrk f1 = fbrk f" "remember f1 = remember f" "generation f1 = generation f"
    using dec_refctr_inv [OF less.prems(1,3,5)] by blast
  have rc: "refctr (fn f x) = (if 0 < nlookup (fn f x) then 1 else 0) + int (card (kids f x - P)) + int (e x)"
    using i(4) less.prems(3) by (simp add: refs_ok_def)
  have PL: "P \<subseteq> live f" using i(2) named_live by (auto simp: names_ok_def)
  have u: "unref_node x f = (if refctr (fn f x) - 1 = 0 then delete_node x f1 else Some f1)"
    using less.prems(3,5) rc f1(1) by (subst unref_node_delete) (simp add: live_fn split: if_splits)
  show ?case
  proof (cases "refctr (fn f x) - 1 = 0")
    case False
    then have "held f1 P" using less.prems(2,3,5) f1(3,7) rc by (auto simp: held_def)
    moreover have "keeps f f1" using f1 by (auto simp: keeps_def)
    ultimately show ?thesis using u False f1(2,3) PL by auto
  next
    case True
    then have z: "nlookup (fn f x) = 0" "card (kids f x - P) = 0" "e x = 1" using rc less.prems(5) by (auto split: if_splits)
    have "finite (kids f x - P)" using n(11) kids_named(1) by (metis finite_Diff finite_subset)
    then have kx: "kids f x \<subseteq> P" using z(2) by auto
    have l1: "fnodes f1 x = Some (fn f1 x)" using less.prems(3) f1(3) by (simp add: live_fn [symmetric])
    have tl: "treelock (fn f1 x) = 0" "nname (fn f1 x) = nname (fn f x)" "parent (fn f1 x) = parent (fn f x)" "nlookup (fn f1 x) = 0"
      using n(7) [OF less.prems(3)] f1(7) z(1) by simp_all
    have held1: "held f1 (insert x P)" using less.prems(2) f1(3,7) by (auto simp: held_def)
    have "\<exists>f4. unhash_name x f1 = Some f4 \<and> node_inv f4 P ?e \<and> held f4 (insert x P) \<and> P \<subseteq> live f4
        \<and> live f4 \<subseteq> live f \<and> x \<in> live f4 - named f4 \<and> kids f4 x \<subseteq> P \<and> nlookup (fn f4 x) = 0
        \<and> (\<forall>y \<in> live f4 - {x}. (fn f4 y)\<lparr>refctr := 0\<rparr> = (fn f y)\<lparr>refctr := 0\<rparr>) \<and> (\<forall>y \<in> live f - live f4. nlookup (fn f y) = 0 \<and> (x, y) \<in> (parents f)\<^sup>*)
        \<and> ctr f4 = ctr f \<and> fbrk f4 = fbrk f \<and> remember f4 = remember f \<and> generation f4 = generation f"
    proof (cases "x \<in> named f")
      case False
      then have "nname (fn f x) = None" using n(8) [OF less.prems(3)] z(1) by (auto simp: is_root_def)
      then have "unhash_name x f1 = Some f1" using l1 tl(2) by (simp add: unhash_name_def)
      then show ?thesis using f1 held1 PL less.prems(3) False kx tl(4) by auto
    next
      case True
      let ?p = "parent (fn f1 x)"
      have xP: "x \<in> named f1 - P" using True less.prems(4) f1(4) by simp
      have pl: "?p \<in> live f1" using node_invD(2) [OF f1(2)] xP by (auto simp: names_ok_def)
      have edge: "(x, ?p) \<in> parents f1" using xP by (auto simp: parents_def)
      have anc: "\<forall>q \<in> insert x P. (q, ?p) \<in> (parents f1)\<^sup>+"
        using less.prems(6) edge f1(6) by (auto intro: trancl_into_trancl)
      then have pP: "?p \<notin> insert x P" using n(6) f1(6) by (auto simp: acyclic_def)
      have sm: "card (live f1 - insert x P) < card (live f - P)"
        using less.prems(3,4) n(1) f1(3) by (intro psubset_card_mono) auto
      have rel: "\<exists>f3. unref_node ?p (f1\<lparr>name_table := t\<rparr>) = Some f3 \<and> node_inv f3 (insert x P) ?e
          \<and> held f3 (insert x P) \<and> keeps (f1\<lparr>name_table := t\<rparr>) f3 \<and> insert x P \<subseteq> live f3
          \<and> (\<forall>y \<in> live f1 - live f3. (?p, y) \<in> (parents f1)\<^sup>*)"
        if ti: "node_inv (f1\<lparr>name_table := t\<rparr>) (insert x P) (?e(?p := ?e ?p + 1))" for t
      proof -
        have "(?e(?p := ?e ?p + 1))(?p := (?e(?p := ?e ?p + 1)) ?p - 1) = ?e" by (simp add: fun_eq_iff)
        note hyp = less.hyps [OF _ ti _ _ pP, unfolded this]
        then show ?thesis using hyp sm held1 pl anc by (simp add: held_def)
      qed
      obtain f4 where f4: "unhash_name x f1 = Some f4" "node_inv f4 P ?e" "held f4 (insert x P)" "P \<subseteq> live f4" "unnames x f1 f4"
        using unhash_name_step [OF f1(2) xP rel] by blast
      have q: "(fn f4 x)\<lparr>refctr := 0\<rparr> = (fn f1 x)\<lparr>refctr := 0, nname := None, parent := 0\<rparr>" using f4(5) by (simp add: unnames_def)
      have "nlookup (fn f4 x) = nlookup (fn f1 x)" using q by (cases "fn f4 x"; cases "fn f1 x") simp
      moreover have "kids f4 x \<subseteq> P" using f4(5) kx f1(5) by (auto simp: unnames_def)
      moreover have "\<forall>y \<in> live f4 - {x}. (fn f4 y)\<lparr>refctr := 0\<rparr> = (fn f y)\<lparr>refctr := 0\<rparr>"
        using f4(5) f1(7) by (simp add: unnames_def)
      moreover have "\<forall>y \<in> live f - live f4. nlookup (fn f y) = 0 \<and> (x, y) \<in> (parents f)\<^sup>*"
      proof
        fix y assume "y \<in> live f - live f4"
        then have "nlookup (fn f1 y) = 0" "(?p, y) \<in> (parents f1)\<^sup>*" using f4(5) f1(3) by (auto simp: unnames_def)
        then show "nlookup (fn f y) = 0 \<and> (x, y) \<in> (parents f)\<^sup>*"
          using f1(6,7) z(1) converse_rtrancl_into_rtrancl [OF edge] by (cases "y = x") auto
      qed
      ultimately show ?thesis using f4 f1(3,8-11) tl(4) by (intro exI [of _ f4]) (simp add: unnames_def)
    qed
    then obtain f4 where f4: "unhash_name x f1 = Some f4" "node_inv f4 P ?e" "held f4 (insert x P)" "P \<subseteq> live f4"
        "live f4 \<subseteq> live f" "x \<in> live f4" "x \<notin> named f4" "kids f4 x \<subseteq> P" "nlookup (fn f4 x) = 0"
        "\<forall>y \<in> live f4 - {x}. (fn f4 y)\<lparr>refctr := 0\<rparr> = (fn f y)\<lparr>refctr := 0\<rparr>" "\<forall>y \<in> live f - live f4. nlookup (fn f y) = 0 \<and> (x, y) \<in> (parents f)\<^sup>*"
        "ctr f4 = ctr f" "fbrk f4 = fbrk f" "remember f4 = remember f" "generation f4 = generation f" by auto
    have e0: "?e x = 0" using z(3) by simp
    obtain f5 f6 where f6: "unhash_id x f4 = Some f5" "free_node x f5 = Some f6" "node_inv f6 P ?e" "live f6 = live f4 - {x}"
      "\<And>y. y \<noteq> x \<Longrightarrow> fn f6 y = fn f4 y" "ctr f6 = ctr f4" "fbrk f6 = fbrk f4" "remember f6 = remember f4" "generation f6 = generation f4"
      using free_node_inv [OF f4(2,6-9) e0] by blast
    have "lru_enabled f4 = False" using nodes_okD(9) [OF node_invD(1) [OF f4(2)]] by (simp add: lru_enabled_def)
    then have "delete_node x f1 = Some f6" using l1 tl(1) f4(1) f6(1,2) by (simp add: delete_node_def)
    moreover have "held f6 P" using f4(3) f6(4,5) by (auto simp: held_def)
    moreover have "keeps f f6" using f4(5,10-15) f6(4-9) z(1) by (auto simp: keeps_def)
    moreover have "P \<subseteq> live f6" using f4(4) f6(4) less.prems(4) by auto
    moreover have "\<forall>y \<in> live f - live f6. (x, y) \<in> (parents f)\<^sup>*" using f4(11) f6(4) by auto
    ultimately show ?thesis using u True f6(3) by simp
  qed
qed

section \<open>Dropping and giving names\<close>

abbreviation nodes_inv :: "fuse \<Rightarrow> bool" where
  "nodes_inv f \<equiv> node_inv f {} (\<lambda>_. 0) \<and> held f {}"

lemma refctr_inv:
  assumes "node_inv f {} (\<lambda>_. 0)" "x \<in> live f"
  shows "refctr (fn f x) = (if 0 < nlookup (fn f x) then 1 else 0) + int (card (kids f x))"
  using node_invD(4) [OF assms(1)] assms(2) by (simp add: refs_ok_def)

text \<open>A node is not its own child, so that there is always room for one more reference to it.\<close>

lemma refctr_room:
  assumes "node_inv f {} (\<lambda>_. 0)" "x \<in> live f"
  shows "refctr (fn f x) < int INT_MAX"
proof -
  note n = nodes_okD [OF node_invD(1) [OF assms(1)]]
  have "x \<notin> kids f x"
    using n(6) by (auto simp: kids_def parents_def acyclic_def dest: r_into_trancl)
  then have "kids f x \<subseteq> live f - {x}" using kids_named named_live by blast
  then have "card (kids f x) \<le> card (live f - {x})" using n(1) by (meson card_mono finite_Diff)
  moreover have "card (live f - {x}) = card (live f) - 1" "0 < card (live f)" using assms(2) n(1) by (auto simp: card_gt_0_iff)
  ultimately have "card (kids f x) + 1 < INT_MAX" using n(13) by linarith
  then show ?thesis using refctr_inv [OF assms] by simp
qed

lemma unhash_name_inv:
  assumes inv: "nodes_inv f" and x: "x \<in> named f"
  shows "\<exists>f'. unhash_name x f = Some f' \<and> nodes_inv f' \<and> unnames x f f' \<and> kids f' x = kids f x"
proof -
  note i = node_invD [OF conjunct1 [OF inv]] and n = nodes_okD [OF node_invD(1) [OF conjunct1 [OF inv]]]
  let ?p = "parent (fn f x)" and ?e = "\<lambda>_ :: node. 0 :: nat"
  have pl: "?p \<in> live f" using i(2) x by (auto simp: names_ok_def)
  have edge: "(x, ?p) \<in> parents f" using x by (auto simp: parents_def)
  then have px: "?p \<notin> {x}" using n(6) by (auto simp: acyclic_def dest: r_into_trancl)
  have rel: "\<exists>f3. unref_node ?p (f\<lparr>name_table := t\<rparr>) = Some f3 \<and> node_inv f3 {x} ?e \<and> held f3 {x}
      \<and> keeps (f\<lparr>name_table := t\<rparr>) f3 \<and> {x} \<subseteq> live f3 \<and> (\<forall>y \<in> live f - live f3. (?p, y) \<in> (parents f)\<^sup>*)"
    if ti: "node_inv (f\<lparr>name_table := t\<rparr>) {x} (?e(?p := ?e ?p + 1))" for t
  proof -
    have "(?e(?p := ?e ?p + 1))(?p := (?e(?p := ?e ?p + 1)) ?p - 1) = ?e" by (simp add: fun_eq_iff)
    note rule = unref_node_inv [OF ti _ _ px, unfolded this]
    have "held f {x}" using inv by (simp add: held_def)
    then show ?thesis using rule pl r_into_trancl [OF edge] by (simp add: held_def)
  qed
  obtain f' where f': "unhash_name x f = Some f'" "node_inv f' {} ?e" "held f' {x}" "unnames x f f'"
    using unhash_name_step [OF conjunct1 [OF inv], of x] x rel by auto
  have ks: "kids f' x = kids f x"
  proof
    show "kids f' x \<subseteq> kids f x" using f'(4) by (simp add: unnames_def)
    show "kids f x \<subseteq> kids f' x"
    proof
      fix y assume y: "y \<in> kids f x"
      then have yx: "(y, x) \<in> parents f" "y \<in> live f" using named_live by (auto simp: kids_def parents_def)
      have "y \<noteq> x" using yx(1) n(6) by (auto simp: acyclic_def dest: r_into_trancl)
      moreover have "y \<in> live f'"
      proof (rule ccontr)
        assume "y \<notin> live f'"
        then have "(?p, y) \<in> (parents f)\<^sup>*" using f'(4) yx(2) by (auto simp: unnames_def)
        then have "(x, x) \<in> (parents f)\<^sup>+" using edge yx(1) by (meson rtrancl_into_trancl1 rtrancl_into_trancl2 trancl_into_trancl)
        then show False using n(6) by (auto simp: acyclic_def)
      qed
      ultimately have "(fn f' y)\<lparr>refctr := 0\<rparr> = (fn f y)\<lparr>refctr := 0\<rparr>" "y \<in> live f'" using f'(4) by (auto simp: unnames_def)
      moreover have "parent (fn f' y) = parent (fn f y)" using calculation(1) by (cases "fn f' y"; cases "fn f y") simp
      ultimately show "y \<in> kids f' x" using y by (simp add: kids_def named_def)
    qed
  qed
  have xl: "x \<in> live f'" "x \<in> live f" "nlookup (fn f' x) = nlookup (fn f x)"
  proof -
    have "(fn f' x)\<lparr>refctr := 0\<rparr> = (fn f x)\<lparr>refctr := 0, nname := None, parent := 0\<rparr>" using f'(4) by (simp add: unnames_def)
    then show "nlookup (fn f' x) = nlookup (fn f x)" by (cases "fn f' x"; cases "fn f x") simp
  qed (use f'(4) x named_live in \<open>auto simp: unnames_def\<close>)
  have "refctr (fn f' x) = refctr (fn f x)"
    using refctr_inv [OF f'(2) xl(1)] refctr_inv [OF conjunct1 [OF inv] xl(2)] ks xl(3) by simp
  then have "held f' {}" using f'(3) inv xl(2) by (auto simp: held_def)
  then show ?thesis using f' ks by blast
qed

lemma hash_name_inv:
  assumes inv: "node_inv f {} (\<lambda>_. 0)" and x: "x \<in> live f" "x \<notin> named f" "nname (fn f x) = None"
    and p: "p \<in> live f" "(p, x) \<notin> (parents f)\<^sup>*" "\<forall>y \<in> kids f p. nname (fn f y) \<noteq> Some nm"
  shows "\<exists>f'. hash_name x (nodeid (fn f p)) nm f = Some f' \<and> node_inv f' {} (\<lambda>_. 0) \<and> live f' = live f \<and> named f' = insert x (named f)
    \<and> parents f' = insert (x, p) (parents f)
    \<and> (\<forall>y. fn f' y = (if y = x then (fn f x)\<lparr>nname := Some nm, parent := p\<rparr> else if y = p then (fn f p)\<lparr>refctr := refctr (fn f p) + 1\<rparr> else fn f y))
    \<and> ctr f' = ctr f \<and> fbrk f' = fbrk f \<and> remember f' = remember f \<and> generation f' = generation f"
proof -
  note i = node_invD [OF inv] and n = nodes_okD [OF node_invD(1) [OF inv]]
  have px: "p \<noteq> x" using p(2) by auto
  have p0: "p \<noteq> 0" using p(1) n(2) by metis
  define ndx where "ndx = (fn f x)\<lparr>nname := Some nm, parent := p\<rparr>"
  define ndp where "ndp = (fn f p)\<lparr>refctr := refctr (fn f p) + 1\<rparr>"
  define f1 where "f1 = f\<lparr>fnodes := (fnodes f)(x \<mapsto> ndx, p \<mapsto> ndp)\<rparr>"
  have fx: "fnodes f x = Some (fn f x)" "fnodes f p = Some (fn f p)" using x(1) p(1) by (simp_all add: live_fn)
  have lv: "live f1 = live f" using fx by (auto simp: f1_def live_def)
  have fn1: "fn f1 y = (if y = x then ndx else if y = p then ndp else fn f y)" for y using px by (simp add: f1_def fn_def)
  have fld: "fbrk f1 = fbrk f" "remember f1 = remember f" "ctr f1 = ctr f" "generation f1 = generation f" "id_table f1 = id_table f"
    "name_table f1 = name_table f" by (simp_all add: f1_def)
  have same: "nodeid (fn f1 y) = nodeid (fn f y)" "nlookup (fn f1 y) = nlookup (fn f y)" "treelock (fn f1 y) = treelock (fn f y)"
    "y \<noteq> x \<Longrightarrow> parent (fn f1 y) = parent (fn f y)" "y \<noteq> x \<Longrightarrow> nname (fn f1 y) = nname (fn f y)" for y
    by (simp_all add: fn1 ndx_def ndp_def)
  have nm1: "named f1 = insert x (named f)"
    using x(1,2) p0 same(4) by (auto simp: named_def lv) (simp_all add: fn1 ndx_def)
  have kd1: "kids f1 q = (if q = p then insert x (kids f p) else kids f q)" for q
    using x(2) same(4) by (auto simp: kids_def nm1) (auto simp: fn1 ndx_def)
  have pr1: "parents f1 = insert (x, p) (parents f)"
  proof -
    have "parents f1 = insert (x, parent (fn f1 x)) {(y, parent (fn f1 y)) |y. y \<in> named f}" by (auto simp: parents_def nm1)
    moreover have "{(y, parent (fn f1 y)) |y. y \<in> named f} = parents f" unfolding parents_def using same(4) x(2) by force
    moreover have "parent (fn f1 x) = p" by (simp add: fn1 ndx_def)
    ultimately show ?thesis by simp
  qed
  have nk: "name_key f1 y = name_key f y" if y: "y \<in> named f" for y
  proof -
    have "y \<in> live f" "parent (fn f y) \<in> live f" "y \<noteq> x" using y i(2) x(2) named_live by (auto simp: names_ok_def)
    then show ?thesis by (simp add: name_key_live lv same)
  qed
  have th: "tab_holds (name_key f) (name_table f) (named f)" "tuse (name_table f) = card (named f)"
    "tab_holds (id_key f) (id_table f) (live f)" "tuse (id_table f) = card (live f)" using i(3) by (simp_all add: tables_ok_def)
  have ik: "id_key f1 = id_key f"
    using fx px by (auto simp: id_key_def f1_def ndx_def ndp_def fun_eq_iff)
  have h1: "tab_holds (name_key f1) (name_table f) (named f)" using tab_holds_cong [OF th(1)] nk by blast
  have kx: "name_key f1 x = Some (name_raw (nodeid (fn f p)) nm)"
    using name_key_named [of x f1 nm] x(1) p(1) lv same(1) by (simp add: fn1 ndx_def ndp_def)
  have x0: "x \<noteq> 0" using x(1) n(2) by metis
  obtain t where t: "tab_add (name_key f1) (name_hash f (nodeid (fn f p)) nm) x (name_table f) = Some t"
    "tab_holds (name_key f1) t (insert x (named f))" "tuse t = card (named f) + 1"
    using tab_add_holds [OF h1 x(2) x0 kx] th(2) unfolding name_hash_def by auto
  let ?f = "f1\<lparr>name_table := t\<rparr>"
  have "hash_name x (nodeid (fn f p)) nm f = Some ?f"
  proof -
    have "(fnodes f)(x \<mapsto> (fn f x)\<lparr>nname := Some nm\<rparr>, p \<mapsto> ndp, x \<mapsto> (fn f x)\<lparr>nname := Some nm, parent := p\<rparr>) = (fnodes f)(x \<mapsto> ndx, p \<mapsto> ndp)"
      using px by (auto simp: fun_eq_iff ndx_def)
    then show ?thesis
      using t(1) fx px get_node_live [OF inv p(1)] refctr_room [OF inv p(1)]
      by (simp add: hash_name_def inc_refctr_def mod_node_def f1_def ndp_def [symmetric])
  qed
  moreover have "nodes_ok ?f"
  proof (rule nodes_okI)
    show "acyclic (parents ?f)" using n(6) p(2) by (simp add: pr1)
    obtain r where r: "r \<in> live f" "is_root (fn f r)" using n(10) by blast
    then have "r \<noteq> x" using x(3) by (auto simp: is_root_def)
    then have "is_root (fn f1 r)" using r same by (simp add: is_root_def)
    then show "\<exists>r \<in> live ?f. is_root (fn ?f r)" using r(1) lv by auto
    fix y assume "y \<in> live ?f"
    then have y: "y \<in> live f" using lv by simp
    then have "y \<notin> named f1 \<longrightarrow> is_root (fn f1 y) \<or> nname (fn f1 y) = None"
      using n(8) [OF y] same [of y] by (auto simp: nm1 is_root_def)
    then show "treelock (fn ?f y) = 0 \<and> (y \<notin> named ?f \<longrightarrow> is_root (fn ?f y) \<or> nname (fn ?f y) = None)
        \<and> 0 < nodeid (fn ?f y) \<and> nodeid (fn ?f y) < FUSE_UNKNOWN_INO"
      using n(5,7) [OF y] by (simp add: same)
  qed (use n in \<open>simp_all add: lv fld same\<close>)
  moreover have "names_ok ?f {}"
  proof -
    have eq: "(parent (fn f1 y), nname (fn f1 y)) = (parent (fn f y), nname (fn f y))" if "y \<in> named f" for y
      using same(4,5) x(2) that by metis
    have "inj_on (\<lambda>y. (parent (fn f1 y), nname (fn f1 y))) (named f)"
      using i(2) inj_on_cong [of "named f", OF eq] by (simp add: names_ok_def)
    moreover have "(parent (fn f1 x), nname (fn f1 x)) \<notin> (\<lambda>y. (parent (fn f1 y), nname (fn f1 y))) ` named f"
    proof
      assume "(parent (fn f1 x), nname (fn f1 x)) \<in> (\<lambda>y. (parent (fn f1 y), nname (fn f1 y))) ` named f"
      then obtain y where y: "y \<in> named f" "(parent (fn f1 x), nname (fn f1 x)) = (parent (fn f1 y), nname (fn f1 y))" by auto
      then have "parent (fn f y) = p" "nname (fn f y) = Some nm" using eq [OF y(1)] by (simp_all add: fn1 ndx_def)
      then show False using p(3) y(1) by (simp add: kids_def)
    qed
    ultimately have "inj_on (\<lambda>y. (parent (fn f1 y), nname (fn f1 y))) (insert x (named f))" using x(2) by simp
    moreover have "parent (fn f1 y) \<in> live f \<and> nname (fn f1 y) \<noteq> None" if "y \<in> insert x (named f)" for y
      using that i(2) p(1) same(4,5) [of y] by (cases "y = x") (auto simp: names_ok_def fn1 ndx_def)
    ultimately show ?thesis by (simp add: names_ok_def nm1 lv)
  qed
  moreover have "tables_ok ?f {}" using th(3,4) t(2,3) n(11) x(2) by (simp add: tables_ok_def lv nm1 ik fld)
  moreover have "refs_ok ?f {} (\<lambda>_. 0)"
  proof -
    have "card (insert x (kids f p)) = card (kids f p) + 1"
      using x(2) n(11) kids_named(1) [of f p] finite_subset by (metis card_insert_disjoint subsetD Suc_eq_plus1)
    then show ?thesis
      using i(4) p(1) px by (auto simp: refs_ok_def lv kd1 same) (auto simp: fn1 ndx_def ndp_def)
  qed
  ultimately show ?thesis using lv nm1 pr1 fn1 fld unfolding node_inv_def ndx_def ndp_def by auto
qed

end
