(* ===== verification/Node_Requests.thy ===== *)
theory Node_Requests
  imports Fuse_Nodes
begin

text \<open>
  The requests of the kernel that change the nodes of libfuse (theory \<open>Fuse_Nodes\<close>): each
  keeps the invariant and has the effect on names and counts that it should have, provided
  the kernel knows the directories it names.
\<close>

section \<open>New identifiers\<close>

lemma get_node_nocheck_ctr [simp]: "get_node_nocheck (f\<lparr>ctr := c, generation := g\<rparr>) ino = get_node_nocheck f ino"
  by (simp add: get_node_nocheck_def id_hash_def)

lemma next_id_step:
  assumes "\<And>c. get_node_nocheck f c \<noteq> None" "get_node_nocheck f c0 = Some 0" "0 < c0" "c0 < FUSE_UNKNOWN_INO" "(ctr f + k) mod 2 ^ 32 = c0" "0 < k"
  shows "\<exists>c g. next_id f = Some (c, f\<lparr>ctr := c, generation := g\<rparr>) \<and> get_node_nocheck f c = Some 0 \<and> 0 < c \<and> c < FUSE_UNKNOWN_INO"
  using assms
proof (induction k arbitrary: f)
  case (Suc k)
  define c where "c = (ctr f + 1) mod 2 ^ 32"
  define g where "g = (if c = 0 then (generation f + 1) mod 2 ^ 32 else generation f)"
  define f1 where "f1 = f\<lparr>ctr := c, generation := g\<rparr>"
  obtain x where x: "get_node_nocheck f c = Some x" using Suc.prems(1) by (meson option.exhaust)
  have u: "next_id f = (if c = 0 \<or> c = FUSE_UNKNOWN_INO \<or> x \<noteq> 0 then next_id f1 else Some (c, f1))"
  proof -
    have "next_id f = (if c = 0 \<or> c = FUSE_UNKNOWN_INO then next_id f1
        else do { x \<leftarrow> get_node_nocheck f1 c; if x \<noteq> 0 then next_id f1 else Some (c, f1) })"
      by (subst next_id.simps) (simp only: Let_def c_def g_def f1_def)
    then show ?thesis using x by (simp add: f1_def)
  qed
  show ?case
  proof (cases "c = 0 \<or> c = FUSE_UNKNOWN_INO \<or> x \<noteq> 0")
    case False
    have "c < 2 ^ 32" by (simp add: c_def)
    then have "c < FUSE_UNKNOWN_INO" using False by (simp add: FUSE_UNKNOWN_INO_def)
    then show ?thesis using u False x by (auto simp: f1_def)
  next
    case True
    then have "c \<noteq> c0" using x Suc.prems(2-4) by auto
    then have k: "0 < k" using Suc.prems(5) by (cases k) (auto simp: c_def)
    have "(ctr f1 + k) mod 2 ^ 32 = (ctr f + 1 + k) mod 2 ^ 32" unfolding f1_def c_def by (simp add: mod_add_left_eq)
    then have "(ctr f1 + k) mod 2 ^ 32 = c0" using Suc.prems(5) by simp
    from Suc.IH [OF _ _ Suc.prems(3,4) this k] Suc.prems(1,2) obtain c' g' where
      "next_id f1 = Some (c', f1\<lparr>ctr := c', generation := g'\<rparr>)" "get_node_nocheck f c' = Some 0" "0 < c'" "c' < FUSE_UNKNOWN_INO"
      by (auto simp: f1_def)
    then show ?thesis using u True by (auto simp: f1_def)
  qed
qed simp

lemma next_id_fresh:
  assumes "\<And>c. get_node_nocheck f c \<noteq> None" "get_node_nocheck f c0 = Some 0" "0 < c0" "c0 < FUSE_UNKNOWN_INO"
  shows "\<exists>c g. next_id f = Some (c, f\<lparr>ctr := c, generation := g\<rparr>) \<and> get_node_nocheck f c = Some 0 \<and> 0 < c \<and> c < FUSE_UNKNOWN_INO"
proof -
  define q where "q = ctr f div 2 ^ 32"
  define r where "r = ctr f mod 2 ^ 32"
  define k where "k = 2 ^ 32 - r + c0"
  have b: "r < 2 ^ 32" "c0 < 2 ^ 32" using assms(4) by (simp_all add: FUSE_UNKNOWN_INO_def r_def)
  have "ctr f = q * 2 ^ 32 + r" by (simp add: q_def r_def)
  then have "ctr f + k = (q + 1) * 2 ^ 32 + c0" using b(1) by (simp add: k_def)
  then have "(ctr f + k) mod 2 ^ 32 = c0" using b(2) by (metis mod_less mod_mult_self3)
  moreover have "0 < k" using assms(3) by (simp add: k_def)
  ultimately show ?thesis using next_id_step [OF assms] by blast
qed

lemma free_id:
  assumes "nodes_ok f"
  shows "\<exists>c. 0 < c \<and> c < FUSE_UNKNOWN_INO \<and> (\<forall>y \<in> live f. nodeid (fn f y) \<noteq> c)"
proof (rule ccontr)
  assume "\<not> ?thesis"
  then have "{1..<FUSE_UNKNOWN_INO} \<subseteq> (\<lambda>y. nodeid (fn f y)) ` live f" by force
  then have "card {1..<FUSE_UNKNOWN_INO} \<le> card (live f)" using nodes_okD(1) [OF assms] by (meson card_image_le card_mono finite_imageI le_trans)
  then show False using nodes_okD(13) [OF assms] by (simp add: FUSE_UNKNOWN_INO_def INT_MAX_def)
qed

section \<open>New nodes\<close>

lemma new_node_table:
  assumes inv: "node_inv f {} (\<lambda>_. 0)" and g: "fnodes g = (fnodes f)(fbrk f \<mapsto> nd)"
    "id_table g = (id_table f)\<lparr>tnext := (tnext (id_table f))(fbrk f := 0)\<rparr>"
  shows "tab_holds (id_key g) (id_table g) (live f)" "fbrk f \<notin> live f" "live g = insert (fbrk f) (live f)"
    "fn g y = (if y = fbrk f then nd else fn f y)"
proof -
  show xl: "fbrk f \<notin> live f" using nodes_okD(3) [OF node_invD(1) [OF inv]] by blast
  have "tab_holds (id_key f) (id_table f) (live f)" using node_invD(3) [OF inv] by (simp add: tables_ok_def)
  then have "tab_holds (id_key f) (id_table g) (live f)" unfolding g(2) by (rule tab_holds_next [OF _ xl])
  moreover have "\<And>y. y \<in> live f \<Longrightarrow> id_key g y = id_key f y" using xl by (auto simp: id_key_def g(1))
  ultimately show "tab_holds (id_key g) (id_table g) (live f)" by (rule tab_holds_cong)
  show "live g = insert (fbrk f) (live f)" "fn g y = (if y = fbrk f then nd else fn f y)" by (auto simp: live_def fn_def g(1))
qed

text \<open>A node that has its identifier but no name yet, put in the table of identifiers.\<close>

lemma hash_new_id_inv:
  assumes inv: "nodes_inv f" and c: "0 < c" "c < FUSE_UNKNOWN_INO" "\<forall>y \<in> live f. nodeid (fn f y) \<noteq> c"
    and room: "card (live f) + 1 < INT_MAX"
    and nd: "nodeid nd = c" "parent nd = 0" "nname nd = None" "nlookup nd = 0" "refctr nd = 0" "treelock nd = 0"
  defines "x \<equiv> fbrk f"
  assumes g: "fnodes g = (fnodes f)(x \<mapsto> nd)" "fbrk g = x + 1" "id_table g = (id_table f)\<lparr>tnext := (tnext (id_table f))(x := 0)\<rparr>"
    "name_table g = (name_table f)\<lparr>tnext := (tnext (name_table f))(x := 0)\<rparr>" "remember g = remember f"
  shows "\<exists>t. hash_id x g = Some (g\<lparr>id_table := t\<rparr>) \<and> node_inv (g\<lparr>id_table := t\<rparr>) {} (\<lambda>_. 0) \<and> held (g\<lparr>id_table := t\<rparr>) {x}"
    and "live g = insert x (live f)" "fn g y = (if y = x then nd else fn f y)" "parents g = parents f" "named g = named f" "x \<notin> live f"
proof -
  have inv1: "node_inv f {} (\<lambda>_. 0)" using inv by simp
  note i = node_invD [OF inv1] and n = nodes_okD [OF node_invD(1) [OF inv1]]
  note new = new_node_table [OF inv1 g(1,3) [unfolded x_def], folded x_def]
  note hi = new(1)
  show xl: "x \<notin> live f" and lv: "live g = insert x (live f)" by (rule new(2)) (rule new(3))
  show fn1: "fn g y = (if y = x then nd else fn f y)" for y by (rule new(4))
  have ne: "y \<noteq> x" if "y \<in> live f" for y using that xl by blast
  show nm1: "named g = named f" using ne nd(2) by (auto simp: named_def lv fn1)
  have fnn: "fn g y = fn f y" if "y \<in> named f" for y using ne [OF named_live [OF that]] by (simp add: fn1)
  show pr1: "parents g = parents f" unfolding parents_def nm1 using fnn by force
  have kd1: "kids g q = kids f q" for q using fnn by (auto simp: kids_def nm1)
  have th: "tab_holds (name_key f) (name_table f) (named f)" "tuse (name_table f) = card (named f)"
    "tab_holds (id_key f) (id_table f) (live f)" "tuse (id_table f) = card (live f)" using i(3) by (simp_all add: tables_ok_def)
  have kx: "id_key g x = Some (id_raw c)" using nd(1) by (simp add: id_key_def g(1))
  have x0: "x \<noteq> 0" using n(12) by (simp add: x_def)
  obtain t where t: "tab_add (id_key g) (id_hash g c) x (id_table g) = Some t" "tab_holds (id_key g) t (insert x (live f))" "tuse t = card (live f) + 1"
    using tab_add_holds [OF hi xl x0 kx] th(4) unfolding id_hash_def by (auto simp: g(3))
  have "hash_id x g = Some (g\<lparr>id_table := t\<rparr>)" using t(1) nd(1) by (simp add: hash_id_def g(1))
  moreover have "nodes_ok (g\<lparr>id_table := t\<rparr>)"
  proof (rule nodes_okI)
    have "inj_on (\<lambda>y. nodeid (fn g y)) (live f)" using n(4) inj_on_cong [of "live f" "\<lambda>y. nodeid (fn g y)" "\<lambda>y. nodeid (fn f y)"] ne by (simp add: fn1)
    moreover have "nodeid (fn g x) \<notin> (\<lambda>y. nodeid (fn g y)) ` live f" using c(3) ne nd(1) by (auto simp: fn1)
    ultimately show "inj_on (\<lambda>y. nodeid (fn (g\<lparr>id_table := t\<rparr>) y)) (live (g\<lparr>id_table := t\<rparr>))" using xl by (simp add: lv)
    show "\<exists>r \<in> live (g\<lparr>id_table := t\<rparr>). is_root (fn (g\<lparr>id_table := t\<rparr>) r)" using n(10) ne by (auto simp: lv fn1)
    show "finite (live (g\<lparr>id_table := t\<rparr>))" "acyclic (parents (g\<lparr>id_table := t\<rparr>))" "remember (g\<lparr>id_table := t\<rparr>) = 0"
      "0 < fbrk (g\<lparr>id_table := t\<rparr>)" "card (live (g\<lparr>id_table := t\<rparr>)) < INT_MAX" using n room xl by (simp_all add: lv pr1 g)
    show "0 \<notin> live (g\<lparr>id_table := t\<rparr>)" using n(2) x0 by (simp add: lv)
    fix y assume "y \<in> live (g\<lparr>id_table := t\<rparr>)"
    then consider "y = x" | "y \<in> live f" "y \<noteq> x" using ne lv by auto
    then show "treelock (fn (g\<lparr>id_table := t\<rparr>) y) = 0
        \<and> (y \<notin> named (g\<lparr>id_table := t\<rparr>) \<longrightarrow> is_root (fn (g\<lparr>id_table := t\<rparr>) y) \<or> nname (fn (g\<lparr>id_table := t\<rparr>) y) = None)
        \<and> 0 < nodeid (fn (g\<lparr>id_table := t\<rparr>) y) \<and> nodeid (fn (g\<lparr>id_table := t\<rparr>) y) < FUSE_UNKNOWN_INO"
      using n(5,7,8) nd c by cases (simp_all add: fn1 nm1)
    show "y < fbrk (g\<lparr>id_table := t\<rparr>)" using \<open>y \<in> live (g\<lparr>id_table := t\<rparr>)\<close> n(3) [of y] by (auto simp: lv g x_def)
  qed
  moreover have "names_ok (g\<lparr>id_table := t\<rparr>) {}"
    using i(2) inj_on_cong [of "named f" "\<lambda>y. (parent (fn g y), nname (fn g y))" "\<lambda>y. (parent (fn f y), nname (fn f y))"]
    by (auto simp: names_ok_def nm1 lv fnn)
  moreover have "tables_ok (g\<lparr>id_table := t\<rparr>) {}"
  proof -
    have "name_key g y = name_key f y" if y: "y \<in> named f" for y
    proof -
      have "y \<in> live f" "parent (fn f y) \<in> live f" using y i(2) named_live by (auto simp: names_ok_def)
      then show ?thesis using ne by (simp add: name_key_live lv fn1)
    qed
    moreover have "tab_holds (name_key f) (name_table g) (named f)" unfolding g(4) using tab_holds_next [OF th(1)] xl named_live by blast
    ultimately have "tab_holds (name_key g) (name_table g) (named f)" using tab_holds_cong by metis
    then show ?thesis using t(2,3) th(2) n(1) xl by (simp add: tables_ok_def lv nm1 g(4))
  qed
  moreover have "refs_ok (g\<lparr>id_table := t\<rparr>) {} (\<lambda>_. 0)"
  proof -
    have "kids f x = {}" using i(2) xl by (auto simp: kids_def names_ok_def)
    then show ?thesis using i(4) nd ne by (auto simp: refs_ok_def lv fn1 kd1)
  qed
  moreover have "held (g\<lparr>id_table := t\<rparr>) {x}" using inv ne by (auto simp: held_def lv fn1)
  ultimately show "\<exists>t. hash_id x g = Some (g\<lparr>id_table := t\<rparr>) \<and> node_inv (g\<lparr>id_table := t\<rparr>) {} (\<lambda>_. 0) \<and> held (g\<lparr>id_table := t\<rparr>) {x}"
    unfolding node_inv_def by blast
qed

text \<open>The two tables can be filled in either order.\<close>

lemma hash_name_then_id:
  assumes id: "hash_id x g = Some (g\<lparr>id_table := t\<rparr>)" and nm: "hash_name x par nm (g\<lparr>id_table := t\<rparr>) = Some f'"
    and p: "get_node g par = Some p" "get_node (g\<lparr>id_table := t\<rparr>) par = Some p" and x: "p \<noteq> x" "x \<in> live g" "p \<in> live g"
    and room: "refctr (fn g p) < int INT_MAX"
  shows "do { f \<leftarrow> hash_name x par nm g; hash_id x f } = Some f'"
proof -
  define N where "N = (fnodes g)(x \<mapsto> (fn g x)\<lparr>nname := Some nm, parent := p\<rparr>, p \<mapsto> (fn g p)\<lparr>refctr := refctr (fn g p) + 1\<rparr>)"
  have fx: "fnodes g x = Some (fn g x)" "fnodes g p = Some (fn g p)" using x by (simp_all add: live_fn)
  have N: "(fnodes g)(x \<mapsto> (fn g x)\<lparr>nname := Some nm\<rparr>, p \<mapsto> (fn g p)\<lparr>refctr := refctr (fn g p) + 1\<rparr>,
      x \<mapsto> (fn g x)\<lparr>nname := Some nm, parent := p\<rparr>) = N" using x(1) by (auto simp: N_def fun_eq_iff)
  have nk: "name_key (g\<lparr>id_table := t, fnodes := N\<rparr>) = name_key (g\<lparr>fnodes := N\<rparr>)" by (simp add: name_key_def fun_eq_iff)
  have h: "hash_name x par nm (g\<lparr>id_table := t\<rparr>) = do {
      tn \<leftarrow> tab_add (name_key (g\<lparr>fnodes := N\<rparr>)) (name_hash g par nm) x (name_table g);
      Some (g\<lparr>id_table := t, fnodes := N, name_table := tn\<rparr>) }"
    using p(2) fx x(1) N nk room by (simp add: hash_name_def inc_refctr_def mod_node_def name_hash_def)
  then obtain tn where tn: "tab_add (name_key (g\<lparr>fnodes := N\<rparr>)) (name_hash g par nm) x (name_table g) = Some tn"
    "f' = g\<lparr>id_table := t, fnodes := N, name_table := tn\<rparr>" using nm by (auto split: bind_splits)
  have h': "hash_name x par nm g = Some (g\<lparr>fnodes := N, name_table := tn\<rparr>)"
    using p(1) fx x(1) N tn(1) room by (simp add: hash_name_def inc_refctr_def mod_node_def)
  have nx: "fnodes (g\<lparr>fnodes := N, name_table := tn\<rparr>) x = Some ((fn g x)\<lparr>nname := Some nm, parent := p\<rparr>)" using x(1) by (simp add: N_def)
  have ik: "id_key (g\<lparr>fnodes := N, name_table := tn\<rparr>) = id_key g" using fx x(1) by (auto simp: id_key_def N_def fun_eq_iff)
  have "tab_add (id_key g) (id_hash g (nodeid (fn g x))) x (id_table g) = Some t"
    using id fx(1) by (auto simp: hash_id_def split: bind_splits dest: arg_cong [where f = id_table])
  then show ?thesis using h' nx ik tn(2) by (simp add: hash_id_def id_hash_def)
qed

section \<open>Lookups\<close>

lemma inc_nlookup_inv:
  assumes inv: "node_inv f {} (\<lambda>_. 0)" "held f {x}" and x: "x \<in> live f" "nlookup (fn f x) + 1 < 2 ^ 64"
  shows "\<exists>f'. inc_nlookup x f = Some f' \<and> nodes_inv f' \<and> live f' = live f \<and> named f' = named f \<and> parents f' = parents f
    \<and> nlookup (fn f' x) = nlookup (fn f x) + 1 \<and> (fn f' x)\<lparr>refctr := 0, nlookup := 0\<rparr> = (fn f x)\<lparr>refctr := 0, nlookup := 0\<rparr>
    \<and> (\<forall>y. y \<noteq> x \<longrightarrow> fn f' y = fn f y)"
proof -
  let ?r = "if nlookup (fn f x) = 0 then refctr (fn f x) + 1 else refctr (fn f x)" and ?m = "nlookup (fn f x) + 1"
  let ?nd = "(fn f x)\<lparr>refctr := ?r, nlookup := ?m\<rparr>"
  have r: "?r = (if 0 < ?m then 1 else 0) + int (card (kids f x - {})) + int 0" using refctr_inv [OF inv(1) x(1)] by auto
  have m: "is_root (fn f x) \<Longrightarrow> 0 < ?m" by simp
  have nd: "?nd = (fn f x)\<lparr>refctr := ?r, nlookup := ?m, is_hidden := is_hidden (fn f x)\<rparr>" by simp
  note set = set_counts_inv [OF inv(1) x(1) nd r m]
  let ?f = "f\<lparr>fnodes := (fnodes f)(x \<mapsto> ?nd)\<rparr>"
  have "inc_nlookup x f = Some ?f"
    using x refctr_room [OF inv(1) x(1)] by (auto simp: inc_nlookup_def inc_refctr_def mod_node_def live_fn)
  moreover have "(\<lambda>_ :: node. 0 :: nat)(x := 0) = (\<lambda>_. 0)" by auto
  then have "node_inv ?f {} (\<lambda>_. 0)" using set(1) by (simp only:)
  moreover have "held ?f {}" using inv(2) r set(2,6) by (auto simp: held_def)
  ultimately show ?thesis using set(2,3,5,6) by auto
qed

text \<open>What a lookup of the name \<open>nm\<close> in the directory \<open>p\<close> does: it finds the node \<open>x\<close>, or creates it.\<close>

definition looked_up :: "node \<Rightarrow> string \<Rightarrow> node \<Rightarrow> fuse \<Rightarrow> fuse \<Rightarrow> bool" where
  "looked_up p nm x f f' \<longleftrightarrow> live f' = insert x (live f) \<and> x \<in> named f' \<and> parent (fn f' x) = p \<and> nname (fn f' x) = Some nm
     \<and> nlookup (fn f' x) = (if x \<in> live f then nlookup (fn f x) else 0) + 1
     \<and> (x \<in> live f \<longrightarrow> nodeid (fn f' x) = nodeid (fn f x)) \<and> parents f' = insert (x, p) (parents f)
     \<and> (\<forall>y \<in> live f - {x}. (fn f' y)\<lparr>refctr := 0\<rparr> = (fn f y)\<lparr>refctr := 0\<rparr>)"

lemma find_node_old:
  assumes inv: "nodes_inv f" and x: "x \<in> named f" "parent (fn f x) = p" "nname (fn f x) = Some nm" "nlookup (fn f x) + 1 < 2 ^ 64"
    and l: "lookup_node f par nm = Some x"
  shows "\<exists>f'. find_node par (Some nm) f = Some (x, f') \<and> nodes_inv f' \<and> looked_up p nm x f f'"
proof -
  have inv': "node_inv f {} (\<lambda>_. 0)" "held f {x}" and xl: "x \<in> live f" using inv named_live [OF x(1)] by (simp_all add: held_def)
  note n = nodes_okD [OF node_invD(1) [OF inv'(1)]]
  obtain f' where f': "inc_nlookup x f = Some f'" "nodes_inv f'" "live f' = live f" "named f' = named f" "parents f' = parents f"
    "nlookup (fn f' x) = nlookup (fn f x) + 1" "(fn f' x)\<lparr>refctr := 0, nlookup := 0\<rparr> = (fn f x)\<lparr>refctr := 0, nlookup := 0\<rparr>"
    "\<forall>y. y \<noteq> x \<longrightarrow> fn f' y = fn f y" using inc_nlookup_inv [OF inv' xl x(4)] by blast
  have core: "parent (fn f' x) = parent (fn f x)" "nname (fn f' x) = nname (fn f x)" "nodeid (fn f' x) = nodeid (fn f x)"
    using same_but_counts [OF f'(7)] by simp_all
  have "x \<noteq> 0" using xl n(2) by metis
  moreover have "lru_enabled f = False" using n(9) by (simp add: lru_enabled_def)
  ultimately have "find_node par (Some nm) f = Some (x, f')" using l f'(1) xl by (simp add: find_node_def live_fn)
  moreover have "(x, p) \<in> parents f" using x(1,2) by (auto simp: parents_def)
  then have "looked_up p nm x f f'" unfolding looked_up_def using f' core x xl by (auto simp: insert_absorb)
  ultimately show ?thesis using f'(2) by blast
qed

lemma find_node_new:
  assumes inv: "nodes_inv f" and p: "p \<in> live f" "\<forall>y \<in> kids f p. nname (fn f y) \<noteq> Some nm"
    and l: "lookup_node f (nodeid (fn f p)) nm = Some 0" and room: "card (live f) + 1 < INT_MAX"
  shows "\<exists>x f'. find_node (nodeid (fn f p)) (Some nm) f = Some (x, f') \<and> nodes_inv f' \<and> x \<notin> live f \<and> looked_up p nm x f f'"
proof -
  have inv': "node_inv f {} (\<lambda>_. 0)" using inv by simp
  note i = node_invD [OF inv'] and n = nodes_okD [OF node_invD(1) [OF inv']]
  define x where "x = fbrk f"
  define f1 where "f1 = snd (alloc_node f)"
  have al: "alloc_node f = (x, f1)" "fnodes f1 = (fnodes f)(fbrk f \<mapsto> the (fnodes f1 x))"
    "id_table f1 = (id_table f)\<lparr>tnext := (tnext (id_table f))(fbrk f := 0)\<rparr>"
    by (simp_all add: f1_def x_def alloc_node_def Let_def)
  note new = new_node_table [OF inv' al(2,3)]
  have fnx: "fn f1 y = fn f y" if "y \<in> live f" for y using that new(2,4) by auto
  have look: "\<exists>y. get_node_nocheck f1 c = Some y \<and> (if y = 0 then \<forall>z \<in> live f. nodeid (fn f z) \<noteq> c else y \<in> live f \<and> nodeid (fn f y) = c)" for c
    using get_node_nocheck_holds [OF new(1), of c] new(3) fnx by fastforce
  obtain c0 where c0: "0 < c0" "c0 < FUSE_UNKNOWN_INO" "\<forall>y \<in> live f. nodeid (fn f y) \<noteq> c0" using free_id [OF i(1)] by blast
  have nn: "get_node_nocheck f1 c \<noteq> None" for c using look [of c] by auto
  have "get_node_nocheck f1 c0 = Some 0" using look [of c0] c0(3) by (auto split: if_splits)
  then obtain c g where c: "next_id f1 = Some (c, f1\<lparr>ctr := c, generation := g\<rparr>)" "get_node_nocheck f1 c = Some 0" "0 < c" "c < FUSE_UNKNOWN_INO"
    using next_id_fresh [OF nn _ c0(1,2)] by blast
  have fresh: "\<forall>y \<in> live f. nodeid (fn f y) \<noteq> c" using look [of c] c(2) by (auto split: if_splits)
  define nd where "nd = \<lparr>nodeid = c, ngeneration = g, refctr = 0, parent = 0, nname = None, nlookup = 0, is_hidden = False, treelock = 0\<rparr>"
  define f2 where "f2 = f1\<lparr>ctr := c, generation := g, fnodes := (fnodes f)(x \<mapsto> nd)\<rparr>"
  have m: "mod_node x (\<lambda>nd. nd\<lparr>nodeid := c, ngeneration := g\<rparr>) (f1\<lparr>ctr := c, generation := g\<rparr>) = Some f2"
    by (simp add: mod_node_def f2_def f1_def x_def alloc_node_def Let_def nd_def)
  have g2: "fnodes f2 = (fnodes f)(fbrk f \<mapsto> nd)" "fbrk f2 = fbrk f + 1" "id_table f2 = (id_table f)\<lparr>tnext := (tnext (id_table f))(fbrk f := 0)\<rparr>"
    "name_table f2 = (name_table f)\<lparr>tnext := (tnext (name_table f))(fbrk f := 0)\<rparr>" "remember f2 = remember f"
    by (simp_all add: f2_def f1_def x_def alloc_node_def Let_def)
  have ndf: "nodeid nd = c" "parent nd = 0" "nname nd = None" "nlookup nd = 0" "refctr nd = 0" "treelock nd = 0" by (simp_all add: nd_def)
  note hi = hash_new_id_inv [OF inv c(3,4) fresh room ndf g2, folded x_def]
  obtain t where t: "hash_id x f2 = Some (f2\<lparr>id_table := t\<rparr>)" "node_inv (f2\<lparr>id_table := t\<rparr>) {} (\<lambda>_. 0)" "held (f2\<lparr>id_table := t\<rparr>) {x}"
    using hi(1) by blast
  let ?g = "f2\<lparr>id_table := t\<rparr>"
  have px: "p \<noteq> x" using p(1) hi(6) by auto
  have pid: "nodeid (fn ?g p) = nodeid (fn f p)" "fn ?g p = fn f p" using px hi(3) by simp_all
  have nocyc: "(p, x) \<notin> (parents ?g)\<^sup>*"
  proof
    assume "(p, x) \<in> (parents ?g)\<^sup>*"
    then obtain q where "(q, x) \<in> parents f" using px hi(4) by (auto elim: rtranclE)
    then have "x \<in> live f" using i(2) by (auto simp: parents_def names_ok_def)
    then show False using hi(6) by simp
  qed
  have kd: "\<forall>y \<in> kids ?g p. nname (fn ?g y) \<noteq> Some nm"
    using p(2) hi(3,5,6) named_live by (auto simp: kids_def)
  have xg: "x \<in> live ?g" "x \<notin> named ?g" "nname (fn ?g x) = None" and pg: "p \<in> live ?g"
    using hi(2,3,5,6) named_live [of x f] ndf(3) p(1) by auto
  obtain f3 where f3: "hash_name x (nodeid (fn f p)) nm ?g = Some f3" "node_inv f3 {} (\<lambda>_. 0)" "live f3 = live ?g"
    "named f3 = insert x (named ?g)" "parents f3 = insert (x, p) (parents ?g)"
    "\<And>y. fn f3 y = (if y = x then (fn ?g x)\<lparr>nname := Some nm, parent := p\<rparr> else if y = p then (fn ?g p)\<lparr>refctr := refctr (fn ?g p) + 1\<rparr> else fn ?g y)"
    using hash_name_inv [OF t(2) xg pg nocyc kd, unfolded pid(1)] by blast
  have gn: "get_node f2 (nodeid (fn f p)) = Some p"
  proof -
    have e: "nodeid (fn f2 y) = nodeid (fn f y)" if "y \<in> live f" for y using that hi(3,6) by auto
    have "inj_on (\<lambda>y. nodeid (fn f2 y)) (live f)" using n(4) inj_on_cong [of "live f", OF e] by simp
    then show ?thesis using get_node_holds [OF new_node_table(1) [OF inv' g2(1,3)], of p] hi(2) p(1) pid by auto
  qed
  have gn': "get_node ?g (nodeid (fn f p)) = Some p" using get_node_live [OF t(2), of p] p(1) hi(2) pid by simp
  have fin: "do { f \<leftarrow> hash_name x (nodeid (fn f p)) nm f2; hash_id x f } = Some f3"
    by (rule hash_name_then_id [OF t(1) f3(1) gn gn' px]) (use hi(2) p(1) refctr_room [OF t(2) pg] in auto)
  have "0 < refctr (fn ?g p)" using t(3) pg px by (simp add: held_def)
  then have held3: "held f3 {x}" using t(3) f3(3,6) by (auto simp: held_def)
  have x3: "x \<in> live f3" "nlookup (fn f3 x) = 0" using f3(3,6) hi(2,3) ndf by simp_all
  obtain f4 where f4: "inc_nlookup x f3 = Some f4" "nodes_inv f4" "live f4 = live f3" "named f4 = named f3" "parents f4 = parents f3"
    "nlookup (fn f4 x) = nlookup (fn f3 x) + 1" "(fn f4 x)\<lparr>refctr := 0, nlookup := 0\<rparr> = (fn f3 x)\<lparr>refctr := 0, nlookup := 0\<rparr>"
    "\<forall>y. y \<noteq> x \<longrightarrow> fn f4 y = fn f3 y" using inc_nlookup_inv [OF f3(2) held3 x3(1)] x3(2) by auto
  have core: "parent (fn f4 x) = p" "nname (fn f4 x) = Some nm" using same_but_counts [OF f4(7)] f3(6) [of x] by simp_all
  have "remember f2 = 0" using n(9) g2(5) by simp
  then have "find_node (nodeid (fn f p)) (Some nm) f = Some (x, f4)"
    using l al(1) c(1) m fin f4(1) by (auto simp: find_node_def split: bind_splits)
  moreover have "(fn f4 y)\<lparr>refctr := 0\<rparr> = (fn f y)\<lparr>refctr := 0\<rparr>" if "y \<in> live f - {x}" for y
    using that f4(8) f3(6) [of y] hi(3) [of y] pid(2) by (cases "y = p") auto
  then have "looked_up p nm x f f4"
    unfolding looked_up_def using f4(3-6) f3(3-5) core hi(2,4-6) x3(2) by simp
  ultimately show ?thesis using f4(2) hi(6) by blast
qed

lemma find_node_inv:
  assumes inv: "nodes_inv f" and p: "p \<in> live f" and room: "card (live f) + 1 < INT_MAX" "\<forall>x \<in> live f. nlookup (fn f x) + 1 < 2 ^ 64"
  shows "\<exists>x f'. find_node (nodeid (fn f p)) (Some nm) f = Some (x, f') \<and> nodes_inv f' \<and> looked_up p nm x f f'"
proof -
  obtain x where x: "lookup_node f (nodeid (fn f p)) nm = Some x"
    "if x = 0 then \<forall>y \<in> named f - {}. \<not> (parent (fn f y) = p \<and> nname (fn f y) = Some nm)
     else x \<in> named f - {} \<and> parent (fn f x) = p \<and> nname (fn f x) = Some nm"
    using lookup_node_inv [OF conjunct1 [OF inv] p] by blast
  show ?thesis
  proof (cases "x = 0")
    case True
    then have "\<forall>y \<in> kids f p. nname (fn f y) \<noteq> Some nm" using x(2) by (auto simp: kids_def)
    then show ?thesis using find_node_new [OF inv p _ _ room(1)] x(1) True by blast
  next
    case False
    then have "x \<in> named f" "parent (fn f x) = p" "nname (fn f x) = Some nm" using x(2) by auto
    moreover have "nlookup (fn f x) + 1 < 2 ^ 64" using room(2) named_live [OF calculation(1)] by blast
    ultimately show ?thesis using find_node_old [OF inv _ _ _ _ x(1)] by blast
  qed
qed

section \<open>Forgetting and unlinking\<close>

lemma forget_node_inv:
  assumes inv: "nodes_inv f" and x: "x \<in> live f" "\<not> is_root (fn f x)" "nodeid (fn f x) \<noteq> FUSE_ROOT_ID" "k \<le> nlookup (fn f x)" "0 < nlookup (fn f x)"
  shows "\<exists>f'. forget_node now (nodeid (fn f x)) k f = Some f' \<and> nodes_inv f' \<and> live f' \<subseteq> live f
    \<and> (x \<in> live f' \<longrightarrow> nlookup (fn f' x) = nlookup (fn f x) - k) \<and> (x \<notin> live f' \<longrightarrow> k = nlookup (fn f x))
    \<and> (\<forall>y \<in> live f - live f'. y = x \<or> nlookup (fn f y) = 0)
    \<and> (\<forall>y \<in> live f'. (fn f' y)\<lparr>refctr := 0, nlookup := 0\<rparr> = (fn f y)\<lparr>refctr := 0, nlookup := 0\<rparr>)
    \<and> (\<forall>y \<in> live f' - {x}. nlookup (fn f' y) = nlookup (fn f y))"
proof -
  have inv': "node_inv f {} (\<lambda>_. 0)" using inv by simp
  note n = nodes_okD [OF node_invD(1) [OF inv']]
  define m where "m = nlookup (fn f x) - k"
  define e where "e = (if m = 0 then 1 else 0 :: nat)"
  have r: "refctr (fn f x) = (if 0 < m then 1 else 0) + int (card (kids f x - {})) + int e"
    using refctr_inv [OF inv' x(1)] x(5) by (simp add: e_def)
  let ?nd = "(fn f x)\<lparr>refctr := refctr (fn f x), nlookup := m\<rparr>"
  have mm: "is_root (fn f x) \<Longrightarrow> 0 < m" using x(2) by simp
  have nd: "?nd = (fn f x)\<lparr>refctr := refctr (fn f x), nlookup := m, is_hidden := is_hidden (fn f x)\<rparr>" by simp
  note set = set_counts_inv [OF inv' x(1) nd r mm]
  let ?f = "f\<lparr>fnodes := (fnodes f)(x \<mapsto> ?nd)\<rparr>"
  have md: "mod_node x (\<lambda>nd. nd\<lparr>nlookup := nlookup nd - k\<rparr>) f = Some ?f" using mod_node_live [OF x(1)] by (simp add: m_def)
  have hd: "held ?f {}" using inv set(2,6) by (auto simp: held_def)
  have lru: "lru_enabled ?f = False" using n(9) by (simp add: lru_enabled_def)
  have fg: "forget_node now (nodeid (fn f x)) k f = (if m = 0 then unref_node x ?f else Some ?f)"
    using x(3,4) get_node_live [OF inv' x(1)] x(1) n(7) [OF x(1)] md lru by (simp add: forget_node_def live_fn m_def)
  show ?thesis
  proof (cases "m = 0")
    case False
    then have "(\<lambda>_ :: node. 0 :: nat)(x := e) = (\<lambda>_. 0)" by (auto simp: e_def)
    then have "node_inv ?f {} (\<lambda>_. 0)" using set(1) by (simp only:)
    then show ?thesis using fg False hd set(2,6) m_def x(1) by auto
  next
    case True
    then have e1: "e = 1" by (simp add: e_def)
    have "\<exists>f'. unref_node x ?f = Some f' \<and> node_inv f' {} (((\<lambda>_. 0)(x := e))(x := ((\<lambda>_. 0)(x := e)) x - 1)) \<and> held f' {} \<and> keeps ?f f' \<and> {} \<subseteq> live f'
        \<and> (\<forall>y \<in> live ?f - live f'. (x, y) \<in> (parents ?f)\<^sup>*)"
      by (rule unref_node_inv [OF set(1) hd]) (use set(2) x(1) e1 in simp_all)
    moreover have "((\<lambda>_. 0)(x := e))(x := ((\<lambda>_. 0)(x := e)) x - 1) = (\<lambda>_ :: node. 0 :: nat)" using e1 by auto
    ultimately obtain f' where f': "unref_node x ?f = Some f'" "node_inv f' {} (\<lambda>_. 0)" "held f' {}" "keeps ?f f'" by auto
    have sub: "live f' \<subseteq> live f" using f'(4) set(2) by (simp add: keeps_def)
    have look: "nlookup (fn f' y) = (if y = x then m else nlookup (fn f y))" if "y \<in> live f'" for y
      using keepsD(5) [OF f'(4) that] set(6) by simp
    have core: "(fn f' y)\<lparr>refctr := 0, nlookup := 0\<rparr> = (fn f y)\<lparr>refctr := 0, nlookup := 0\<rparr>" if "y \<in> live f'" for y
    proof -
      have "(fn f' y)\<lparr>refctr := 0\<rparr> = (fn ?f y)\<lparr>refctr := 0\<rparr>" using f'(4) that by (simp add: keeps_def)
      then show ?thesis using set(6) [of y] by (cases "fn f' y"; cases "fn ?f y"; cases "fn f y") (auto split: if_splits)
    qed
    have gone: "y = x \<or> nlookup (fn f y) = 0" if "y \<in> live f - live f'" for y
    proof -
      have "nlookup (fn ?f y) = 0" using f'(4) that set(2) by (simp add: keeps_def)
      then show ?thesis using set(6) [of y] by (auto split: if_splits)
    qed
    have "k = nlookup (fn f x)" using True x(4) by (simp add: m_def)
    then show ?thesis using fg True f'(1-3) sub look core gone m_def by auto
  qed
qed

text \<open>Dropping a name: the node loses it, and only nodes the kernel does not know are freed.\<close>

lemma unnamesD:
  assumes "unnames x f f'"
  shows "live f' \<subseteq> live f" "x \<in> live f'" "x \<notin> named f'" "nname (fn f' x) = None" "nlookup (fn f' x) = nlookup (fn f x)"
    "nodeid (fn f' x) = nodeid (fn f x)" "\<And>y. y \<in> live f - live f' \<Longrightarrow> nlookup (fn f y) = 0"
    "\<And>y. y \<in> live f' \<Longrightarrow> y \<noteq> x \<Longrightarrow> (fn f' y)\<lparr>refctr := 0\<rparr> = (fn f y)\<lparr>refctr := 0\<rparr>"
proof -
  have "(fn f' x)\<lparr>refctr := 0\<rparr> = (fn f x)\<lparr>refctr := 0, nname := None, parent := 0\<rparr>" using assms by (simp add: unnames_def)
  then show "nname (fn f' x) = None" "nlookup (fn f' x) = nlookup (fn f x)" "nodeid (fn f' x) = nodeid (fn f x)"
    by (cases "fn f' x"; cases "fn f x"; simp)+
qed (use assms in \<open>auto simp: unnames_def\<close>)

lemma remove_node_inv:
  assumes inv: "nodes_inv f" and p: "p \<in> live f"
  shows "\<exists>f'. remove_node (nodeid (fn f p)) nm f = Some f' \<and> nodes_inv f'
    \<and> (f' = f \<and> (\<forall>y \<in> kids f p. nname (fn f y) \<noteq> Some nm)
       \<or> (\<exists>x \<in> kids f p. nname (fn f x) = Some nm \<and> unnames x f f'))"
proof -
  obtain x where x: "lookup_node f (nodeid (fn f p)) nm = Some x"
    "if x = 0 then \<forall>y \<in> named f - {}. \<not> (parent (fn f y) = p \<and> nname (fn f y) = Some nm)
     else x \<in> named f - {} \<and> parent (fn f x) = p \<and> nname (fn f x) = Some nm"
    using lookup_node_inv [OF conjunct1 [OF inv] p] by blast
  have rem: "remember f = 0" using nodes_okD(9) [OF node_invD(1) [OF conjunct1 [OF inv]]] .
  show ?thesis
  proof (cases "x = 0")
    case True
    then show ?thesis using x inv by (auto simp: remove_node_def kids_def)
  next
    case False
    then have xn: "x \<in> named f" "parent (fn f x) = p" "nname (fn f x) = Some nm" using x(2) by auto
    obtain f' where "unhash_name x f = Some f'" "nodes_inv f'" "unnames x f f'" using unhash_name_inv [OF inv xn(1)] by blast
    then show ?thesis using x(1) False rem xn by (auto simp: remove_node_def unlink_node_def kids_def)
  qed
qed

section \<open>Renaming\<close>

text \<open>Nodes keep their identifiers and the kernel's count; only nodes with no count are freed.\<close>

definition kept :: "fuse \<Rightarrow> fuse \<Rightarrow> bool" where
  "kept f f' \<longleftrightarrow> live f' \<subseteq> live f \<and> (\<forall>y \<in> live f'. nodeid (fn f' y) = nodeid (fn f y) \<and> nlookup (fn f' y) = nlookup (fn f y))
     \<and> (\<forall>y \<in> live f - live f'. nlookup (fn f y) = 0)"

lemma kept_refl [simp]: "kept f f"
  by (simp add: kept_def)

lemma kept_trans: "kept f g \<Longrightarrow> kept g h \<Longrightarrow> kept f h"
  by (fastforce simp: kept_def)

lemma kept_live: "kept f f' \<Longrightarrow> x \<in> live f \<Longrightarrow> 0 < nlookup (fn f x) \<Longrightarrow> x \<in> live f' \<and> 0 < nlookup (fn f' x) \<and> nodeid (fn f' x) = nodeid (fn f x)"
  by (cases "x \<in> live f'") (auto simp: kept_def)

lemma unnames_kept: "unnames x f f' \<Longrightarrow> kept f f'"
  using unnamesD [of x f f'] same_but_refctr unfolding kept_def by (metis DiffI)

lemma unnames_parents:
  assumes "unnames x f f'"
  shows "parents f' \<subseteq> parents f"
proof
  fix e assume "e \<in> parents f'"
  then obtain y where y: "e = (y, parent (fn f' y))" "y \<in> named f'" by (auto simp: parents_def)
  then have "y \<in> kids f' (parent (fn f' y))" by (simp add: kids_def)
  then have "y \<in> kids f (parent (fn f' y))" using assms by (auto simp: unnames_def)
  then show "e \<in> parents f" using y by (auto simp: kids_def parents_def)
qed

lemma unnames_kid:
  assumes "unnames x f f'" "z \<in> kids f' p"
  shows "z \<in> kids f p" "z \<noteq> x" "nname (fn f' z) = nname (fn f z)"
proof -
  show z: "z \<in> kids f p" using assms by (auto simp: unnames_def)
  show zx: "z \<noteq> x" using assms unnamesD(3) [OF assms(1)] by (auto simp: kids_def)
  have "z \<in> live f'" using assms(2) named_live by (auto simp: kids_def)
  then show "nname (fn f' z) = nname (fn f z)" using same_but_refctr(3) [OF unnamesD(8) [OF assms(1)]] zx by blast
qed

lemma hide_inv:
  assumes "nodes_inv f" "x \<in> live f"
  shows "\<exists>f'. mod_node x (\<lambda>nd. nd\<lparr>is_hidden := True\<rparr>) f = Some f' \<and> nodes_inv f' \<and> kept f f' \<and> named f' = named f
    \<and> parents f' = parents f \<and> fn f' x = (fn f x)\<lparr>is_hidden := True\<rparr>"
proof -
  let ?nd = "(fn f x)\<lparr>is_hidden := True\<rparr>"
  have nd: "?nd = (fn f x)\<lparr>refctr := refctr (fn f x), nlookup := nlookup (fn f x), is_hidden := True\<rparr>" by simp
  have r: "refctr (fn f x) = (if 0 < nlookup (fn f x) then 1 else 0) + int (card (kids f x - {})) + int 0"
    using refctr_inv [OF conjunct1 [OF assms(1)] assms(2)] by simp
  have m: "is_root (fn f x) \<Longrightarrow> 0 < nlookup (fn f x)" by (simp add: is_root_def)
  note set = set_counts_inv [OF conjunct1 [OF assms(1)] assms(2) nd r m]
  have "(\<lambda>_ :: node. 0 :: nat)(x := 0) = (\<lambda>_. 0)" by auto
  then have "node_inv (f\<lparr>fnodes := (fnodes f)(x \<mapsto> ?nd)\<rparr>) {} (\<lambda>_. 0)" using set(1) by (simp only:)
  then show ?thesis using mod_node_live [OF assms(2)] set(2,3,5,6) assms(1) by (auto simp: kept_def held_def)
qed

lemma lookup_kid:
  assumes inv: "nodes_inv f" and p: "p \<in> live f" "x \<in> kids f p" "nname (fn f x) = Some nm"
  shows "lookup_node f (nodeid (fn f p)) nm = Some x"
proof -
  note i = node_invD [OF conjunct1 [OF inv]]
  obtain y where y: "lookup_node f (nodeid (fn f p)) nm = Some y"
    "if y = 0 then \<forall>z \<in> named f - {}. \<not> (parent (fn f z) = p \<and> nname (fn f z) = Some nm)
     else y \<in> named f - {} \<and> parent (fn f y) = p \<and> nname (fn f y) = Some nm"
    using lookup_node_inv [OF conjunct1 [OF inv] p(1)] by blast
  then have "y \<in> named f" "parent (fn f y) = p" "nname (fn f y) = Some nm" using p(2,3) by (auto simp: kids_def split: if_splits)
  then have "y = x" using i(2) p(2,3) by (auto simp: names_ok_def inj_on_def kids_def)
  then show ?thesis using y(1) by simp
qed

lemma lookup_none:
  assumes inv: "nodes_inv f" and p: "p \<in> live f" "\<forall>y \<in> kids f p. nname (fn f y) \<noteq> Some nm"
  shows "lookup_node f (nodeid (fn f p)) nm = Some 0"
proof -
  obtain y where y: "lookup_node f (nodeid (fn f p)) nm = Some y"
    "if y = 0 then \<forall>z \<in> named f - {}. \<not> (parent (fn f z) = p \<and> nname (fn f z) = Some nm)
     else y \<in> named f - {} \<and> parent (fn f y) = p \<and> nname (fn f y) = Some nm"
    using lookup_node_inv [OF conjunct1 [OF inv] p(1)] by blast
  then have "y = 0" using p(2) by (auto simp: kids_def split: if_splits)
  then show ?thesis using y(1) by simp
qed

text \<open>Giving a node without a name one: the second half of a move.\<close>

lemma give_name_inv:
  assumes inv: "nodes_inv f" and x: "x \<in> live f" "x \<notin> named f" "nname (fn f x) = None"
    and p: "p \<in> live f" "(p, x) \<notin> (parents f)\<^sup>*" "\<forall>z \<in> kids f p. nname (fn f z) \<noteq> Some nm"
  shows "\<exists>f'. hash_name x (nodeid (fn f p)) nm f = Some f' \<and> nodes_inv f' \<and> kept f f' \<and> kept f' f \<and> parents f' = insert (x, p) (parents f)
    \<and> named f' = insert x (named f) \<and> parent (fn f' x) = p \<and> nname (fn f' x) = Some nm
    \<and> (\<forall>y. y \<noteq> x \<longrightarrow> (fn f' y)\<lparr>refctr := 0\<rparr> = (fn f y)\<lparr>refctr := 0\<rparr>)"
proof -
  obtain f' where f': "hash_name x (nodeid (fn f p)) nm f = Some f'" "node_inv f' {} (\<lambda>_. 0)" "live f' = live f"
    "named f' = insert x (named f)" "parents f' = insert (x, p) (parents f)"
    "\<And>y. fn f' y = (if y = x then (fn f x)\<lparr>nname := Some nm, parent := p\<rparr> else if y = p then (fn f p)\<lparr>refctr := refctr (fn f p) + 1\<rparr> else fn f y)"
    using hash_name_inv [OF conjunct1 [OF inv] x p] by blast
  have "0 < refctr (fn f p)" using inv p(1) by (simp add: held_def)
  then have "held f' {}" using inv f'(3,6) by (auto simp: held_def)
  moreover have "kept f f'" "kept f' f" using f'(3,6) by (auto simp: kept_def)
  ultimately show ?thesis using f' by auto
qed

lemma unnames_named: "unnames x f f' \<Longrightarrow> named f' \<subseteq> named f"
  using unnames_parents [of x f f'] by (auto simp: parents_def)

lemma move_name_inv:
  assumes inv: "nodes_inv f" and x: "x \<in> named f" and p: "p \<in> live f" "0 < nlookup (fn f p)" "(p, x) \<notin> (parents f)\<^sup>*"
    and free: "\<forall>z \<in> kids f p - {x}. nname (fn f z) \<noteq> Some nm" and par: "par = nodeid (fn f p)"
  shows "\<exists>f'. do { f \<leftarrow> unhash_name x f; hash_name x par nm f } = Some f' \<and> nodes_inv f' \<and> kept f f'
    \<and> named f' \<subseteq> named f \<and> x \<in> named f' \<and> parent (fn f' x) = p \<and> nname (fn f' x) = Some nm"
proof -
  obtain f1 where f1: "unhash_name x f = Some f1" "nodes_inv f1" "unnames x f f1" using unhash_name_inv [OF inv x] by blast
  note k1 = unnames_kept [OF f1(3)] and u = unnamesD [OF f1(3)]
  have p1: "p \<in> live f1" "nodeid (fn f1 p) = par" using kept_live [OF k1 p(1,2)] par by auto
  have cyc: "(p, x) \<notin> (parents f1)\<^sup>*" using p(3) rtrancl_mono [OF unnames_parents [OF f1(3)]] by blast
  have fr: "\<forall>z \<in> kids f1 p. nname (fn f1 z) \<noteq> Some nm" using unnames_kid [OF f1(3)] free by fastforce
  obtain f' where f': "hash_name x par nm f1 = Some f'" "nodes_inv f'" "kept f1 f'" "named f' = insert x (named f1)"
    "parent (fn f' x) = p" "nname (fn f' x) = Some nm"
    using give_name_inv [OF f1(2) u(2-4) p1(1) cyc fr, unfolded p1(2)] by blast
  then show ?thesis using f1(1) kept_trans [OF k1 f'(3)] unnames_named [OF f1(3)] x by auto
qed

lemma rename_node_inv:
  assumes inv: "nodes_inv f" and p: "p1 \<in> live f" "p2 \<in> live f" "0 < nlookup (fn f p2)"
    and x: "x \<in> kids f p1" "nname (fn f x) = Some nm1" "(p2, x) \<notin> (parents f)\<^sup>*" and ne: "(p1, nm1) \<noteq> (p2, nm2)"
    and hide: "hide \<longrightarrow> (\<forall>y \<in> kids f p2. nname (fn f y) \<noteq> Some nm2)"
  shows "\<exists>f'. rename_node (nodeid (fn f p1)) nm1 (nodeid (fn f p2)) nm2 hide f = Some (0, f') \<and> nodes_inv f' \<and> kept f f'
    \<and> x \<in> named f' \<and> parent (fn f' x) = p2 \<and> nname (fn f' x) = Some nm2
    \<and> (\<forall>y \<in> kids f p2. nname (fn f y) = Some nm2 \<longrightarrow> y \<notin> named f')"
proof -
  have rem: "remember f = 0" using nodes_okD(9) [OF node_invD(1) [OF conjunct1 [OF inv]]] .
  have lx: "lookup_node f (nodeid (fn f p1)) nm1 = Some x" using lookup_kid [OF inv p(1) x(1,2)] .
  have xn: "x \<in> named f" "parent (fn f x) = p1" using x(1) by (simp_all add: kids_def)
  have x0: "x \<noteq> 0" using named_live [OF xn(1)] nodes_okD(2) [OF node_invD(1) [OF conjunct1 [OF inv]]] by metis
  have "\<exists>y f1. lookup_node f (nodeid (fn f p2)) nm2 = Some y \<and> (if y \<noteq> 0 then unlink_node y f else Some f) = Some f1 \<and> nodes_inv f1
      \<and> kept f f1 \<and> x \<in> named f1 \<and> parents f1 \<subseteq> parents f \<and> (\<forall>z \<in> kids f1 p2. nname (fn f1 z) \<noteq> Some nm2) \<and> (hide \<longrightarrow> y = 0)
      \<and> (\<forall>z \<in> kids f p2. nname (fn f z) = Some nm2 \<longrightarrow> z \<notin> named f1)"
  proof (cases "\<forall>y \<in> kids f p2. nname (fn f y) \<noteq> Some nm2")
    case True
    then show ?thesis using lookup_none [OF inv p(2) True] inv xn(1) by auto
  next
    case False
    then obtain y where y: "y \<in> kids f p2" "nname (fn f y) = Some nm2" by blast
    have yn: "y \<in> named f" "parent (fn f y) = p2" using y(1) by (simp_all add: kids_def)
    have yx: "y \<noteq> x" using ne xn(2) yn(2) x(2) y(2) by auto
    have y0: "y \<noteq> 0" using named_live [OF yn(1)] nodes_okD(2) [OF node_invD(1) [OF conjunct1 [OF inv]]] by metis
    obtain f1 where f1: "unhash_name y f = Some f1" "nodes_inv f1" "unnames y f f1" using unhash_name_inv [OF inv yn(1)] by blast
    have xl: "x \<in> live f1" using f1(3) x(3) named_live [OF xn(1)] yn(2) by (auto simp: unnames_def)
    have "parent (fn f1 x) = parent (fn f x)" using same_but_refctr(2) [OF unnamesD(8) [OF f1(3) xl]] yx by blast
    then have xn1: "x \<in> named f1" using xl xn by (simp add: named_def)
    have uniq: "z = y" if "z \<in> kids f p2" "nname (fn f z) = Some nm2" for z
      using that y node_invD(2) [OF conjunct1 [OF inv]] by (auto simp: names_ok_def inj_on_def kids_def)
    have "nname (fn f1 z) \<noteq> Some nm2" if "z \<in> kids f1 p2" for z using unnames_kid [OF f1(3) that] uniq by metis
    moreover have "unlink_node y f = Some f1" using rem f1(1) by (simp add: unlink_node_def)
    moreover have "\<forall>z \<in> kids f p2. nname (fn f z) = Some nm2 \<longrightarrow> z \<notin> named f1" using uniq unnamesD(3) [OF f1(3)] by blast
    moreover have "\<not> hide" using hide y by blast
    ultimately show ?thesis
      using lookup_kid [OF inv p(2) y] y0 f1(2) unnames_kept [OF f1(3)] xn1 unnames_parents [OF f1(3)]
      by (intro exI [of _ y] exI [of _ f1]) simp
  qed
  then obtain y f1 where f1: "lookup_node f (nodeid (fn f p2)) nm2 = Some y" "(if y \<noteq> 0 then unlink_node y f else Some f) = Some f1" "nodes_inv f1"
    "kept f f1" "x \<in> named f1" "parents f1 \<subseteq> parents f" "\<forall>z \<in> kids f1 p2. nname (fn f1 z) \<noteq> Some nm2" "hide \<longrightarrow> y = 0"
    "\<forall>z \<in> kids f p2. nname (fn f z) = Some nm2 \<longrightarrow> z \<notin> named f1" by blast
  have pl: "p2 \<in> live f1" "0 < nlookup (fn f1 p2)" "nodeid (fn f p2) = nodeid (fn f1 p2)" using kept_live [OF f1(4) p(2,3)] by auto
  have cyc: "(p2, x) \<notin> (parents f1)\<^sup>*" using x(3) rtrancl_mono [OF f1(6)] by blast
  have fr: "\<forall>z \<in> kids f1 p2 - {x}. nname (fn f1 z) \<noteq> Some nm2" using f1(7) by blast
  obtain f2 where f2: "do { g \<leftarrow> unhash_name x f1; hash_name x (nodeid (fn f p2)) nm2 g } = Some f2" "nodes_inv f2" "kept f1 f2"
    "named f2 \<subseteq> named f1" "x \<in> named f2" "parent (fn f2 x) = p2" "nname (fn f2 x) = Some nm2"
    using move_name_inv [OF f1(3,5) pl(1,2) cyc fr pl(3)] by blast
  obtain f3 where f3: "(if hide then mod_node x (\<lambda>nd. nd\<lparr>is_hidden := True\<rparr>) f2 else Some f2) = Some f3" "nodes_inv f3" "kept f2 f3"
    "named f3 = named f2" "parent (fn f3 x) = p2" "nname (fn f3 x) = Some nm2"
    using hide_inv [OF f2(2) named_live [OF f2(5)]] f2 by (cases hide) auto
  obtain g where g: "unhash_name x f1 = Some g" "hash_name x (nodeid (fn f p2)) nm2 g = Some f2" using f2(1) by (auto split: bind_splits)
  have "\<not> (y \<noteq> 0 \<and> hide)" using f1(8) by blast
  then have "rename_node (nodeid (fn f p1)) nm1 (nodeid (fn f p2)) nm2 hide f = Some (0, f3)"
    unfolding rename_node_def lx f1(1) using x0 f1(2) g f3(1) by auto
  then show ?thesis
    using f3 f2(4,5) f1(9) kept_trans [OF f1(4) kept_trans [OF f2(3) f3(3)]] by (intro exI [of _ f3]) auto
qed

end
