(* ===== verification/Node_Sessions.thy ===== *)
theory Node_Sessions
  imports Node_Requests
begin

text \<open>
  Sessions: what the kernel may ask of the nodes of libfuse, in any order. \<open>K ino\<close> is
  the number of lookups of the node \<open>ino\<close> that the kernel has not forgotten; it names only
  directories it knows, forgets what it has looked up, and does not move a directory below
  itself. The configuration is the default one, which does not remember forgotten nodes.
  A lookup is made only while there are fewer than \<open>2 ^ 31 - 2\<close> nodes, and while no count of
  lookups is \<open>2 ^ 64 - 1\<close>: libfuse counts the references to a node in an \<open>int\<close> that it does
  not check (\<open>inc_refctr\<close>), and the program ends in undefined behaviour without that bound.
\<close>

inductive node_session :: "fuse \<Rightarrow> (nat \<Rightarrow> nat) \<Rightarrow> bool" where
  start: "fuse_new_nodes 0 = Some f \<Longrightarrow> node_session f ((\<lambda>_. 0)(FUSE_ROOT_ID := 1))"
| lookup: "node_session f K \<Longrightarrow> 0 < K dir \<Longrightarrow> card (live f) + 1 < INT_MAX \<Longrightarrow> \<forall>ino. K ino + 1 < 2 ^ 64 \<Longrightarrow>
    find_node dir (Some nm) f = Some (x, f') \<Longrightarrow> node_session f' (K(nodeid (fn f' x) := K (nodeid (fn f' x)) + 1))"
| forget: "node_session f K \<Longrightarrow> ino \<noteq> FUSE_ROOT_ID \<Longrightarrow> 0 < K ino \<Longrightarrow> n \<le> K ino \<Longrightarrow>
    forget_node now ino n f = Some f' \<Longrightarrow> node_session f' (K(ino := K ino - n))"
| remove: "node_session f K \<Longrightarrow> 0 < K dir \<Longrightarrow> remove_node dir nm f = Some f' \<Longrightarrow> node_session f' K"
| rename: "node_session f K \<Longrightarrow> 0 < K olddir \<Longrightarrow> 0 < K newdir \<Longrightarrow> (olddir, nm1) \<noteq> (newdir, nm2) \<Longrightarrow>
    (\<And>x d. lookup_node f olddir nm1 = Some x \<Longrightarrow> get_node f newdir = Some d \<Longrightarrow> (d, x) \<notin> (parents f)\<^sup>*) \<Longrightarrow>
    rename_node olddir nm1 newdir nm2 hide f = Some (r, f') \<Longrightarrow> node_session f' K"

section \<open>The count of the kernel\<close>

definition counted :: "fuse \<Rightarrow> (nat \<Rightarrow> nat) \<Rightarrow> bool" where
  "counted f K \<longleftrightarrow> (\<forall>x \<in> live f. nlookup (fn f x) = K (nodeid (fn f x))) \<and> (\<forall>ino. 0 < K ino \<longrightarrow> (\<exists>x \<in> live f. nodeid (fn f x) = ino))"

lemma fuse_new_ex:
  "\<exists>f. fuse_new_nodes 0 = Some f \<and> nodes_inv f \<and> live f = {1} \<and> is_root (fn f 1) \<and> nlookup (fn f 1) = 1"
proof -
  define nd where "nd = \<lparr>nodeid = 1, ngeneration = 0, refctr = 1, parent = 0, nname = Some ''/'', nlookup = 1, is_hidden = False, treelock = 0\<rparr>"
  define t where "t = node_table_init\<lparr>tnext := (tnext node_table_init)(1 := 0)\<rparr>"
  define g where "g = \<lparr>fnodes = [1 \<mapsto> nd], fbrk = 1 + 1, name_table = t, id_table = t, lru_table = [],
      forget_time = \<lambda>_. 0, ctr = 0, generation = 0, remember = 0\<rparr>"
  have h: "fuse_new_nodes 0 = hash_id 1 g"
    by (simp add: fuse_new_nodes_def alloc_node_def Let_def mod_node_def inc_nlookup_def inc_refctr_def INT_MAX_def g_def nd_def t_def FUSE_ROOT_ID_def)
  have th: "tab_holds key t {}" for key unfolding t_def by (rule tab_holds_next [OF tab_init_holds]) simp
  have "id_key g 1 = Some (id_raw 1)" by (simp add: id_key_def g_def nd_def)
  from tab_add_holds [of "id_key g" t "{}" 1 "id_raw 1"] th this obtain t' where t': "tab_add (id_key g) (lin_hash (id_raw 1) t) 1 t = Some t'"
    "tab_holds (id_key g) t' {1}" "tuse t' = tuse t + 1" by auto
  have "tuse t = 0" by (simp add: t_def node_table_init_def)
  define f where f: "f = g\<lparr>id_table := t'\<rparr>"
  have ex: "fuse_new_nodes 0 = Some f" using h t'(1) f by (simp add: hash_id_def id_hash_def g_def nd_def)
  have lv: "live f = {Suc 0}" and fn1: "fn f (Suc 0) = nd" by (auto simp: f g_def live_def fn_def)
  have nm: "named f = {}" by (auto simp: named_def lv fn1 nd_def)
  have rt: "is_root nd" by (simp add: is_root_def nd_def FUSE_ROOT_ID_def)
  have ndf: "treelock nd = 0" "nodeid nd = 1" by (simp_all add: nd_def)
  have ff: "fbrk f = 2" "remember f = 0" by (simp_all add: f g_def)
  have "nodes_ok f"
    by (rule nodes_okI) (simp_all add: lv fn1 nm rt parents_def ndf FUSE_UNKNOWN_INO_def INT_MAX_def ff acyclic_def)
  moreover have "names_ok f {}" by (simp add: names_ok_def nm)
  moreover have "id_key f = id_key g" by (simp add: f)
  then have "tables_ok f {}" using t'(2,3) th \<open>tuse t = 0\<close> by (simp add: tables_ok_def lv nm) (simp add: f g_def)
  moreover have "refs_ok f {} (\<lambda>_. 0)" by (simp add: refs_ok_def lv fn1 kids_def nm nd_def)
  moreover have "held f {}" by (simp add: held_def lv fn1 nd_def)
  ultimately have "nodes_inv f" by (simp add: node_inv_def)
  moreover have "live f = {1}" "is_root (fn f 1)" "nlookup (fn f 1) = 1" using lv fn1 rt by (simp_all add: nd_def)
  ultimately show ?thesis using ex by blast
qed

lemma fuse_new_inv:
  assumes "fuse_new_nodes 0 = Some f"
  shows "nodes_inv f" "live f = {1}" "is_root (fn f 1)" "nlookup (fn f 1) = 1"
  using fuse_new_ex assms by auto

lemma counted_node:
  assumes "nodes_inv f" "counted f K" "0 < K ino"
  obtains x where "x \<in> live f" "nodeid (fn f x) = ino" "nlookup (fn f x) = K ino" "get_node f ino = Some x"
proof -
  obtain x where x: "x \<in> live f" "nodeid (fn f x) = ino" using assms(2,3) by (auto simp: counted_def)
  have "nlookup (fn f x) = K ino" using assms(2) x by (auto simp: counted_def)
  moreover have "get_node f ino = Some x" using get_node_live [OF conjunct1 [OF assms(1)] x(1)] x(2) by simp
  ultimately show ?thesis using that x by blast
qed

lemma counted_kept:
  assumes "counted f K" "kept f f'"
  shows "counted f' K"
  using assms kept_live [OF assms(2)] unfolding counted_def kept_def by (metis subsetD)

lemma counted_looked_up:
  assumes inv: "nodes_inv f'" and c: "counted f K" and l: "looked_up p nm x f f'"
  shows "counted f' (K(nodeid (fn f' x) := K (nodeid (fn f' x)) + 1))"
proof -
  let ?i = "nodeid (fn f' x)"
  note u = l [unfolded looked_up_def]
  have inj: "inj_on (\<lambda>y. nodeid (fn f' y)) (live f')" using nodes_okD(4) [OF node_invD(1)] inv by blast
  have old: "nodeid (fn f' y) = nodeid (fn f y)" "nlookup (fn f' y) = nlookup (fn f y)" if "y \<in> live f" "y \<noteq> x" for y
    using that u same_but_refctr [of "fn f' y" "fn f y"] by auto
  have oid: "nodeid (fn f' y) = nodeid (fn f y)" if "y \<in> live f" for y using that u old by (cases "y = x") auto
  have ne: "nodeid (fn f' y) \<noteq> ?i" if "y \<in> live f" "y \<noteq> x" for y using inj that u by (auto simp: inj_on_def)
  have new: "K ?i = 0" if "x \<notin> live f"
  proof (rule ccontr)
    assume "K ?i \<noteq> 0"
    then obtain z where "z \<in> live f" "nodeid (fn f z) = ?i" using c by (auto simp: counted_def)
    then show False using ne [of z] oid [of z] that by auto
  qed
  have "nlookup (fn f' y) = (K(?i := K ?i + 1)) (nodeid (fn f' y))" if "y \<in> live f'" for y
  proof (cases "y = x")
    case True
    then show ?thesis using u new c oid [of x] by (auto simp: counted_def)
  next
    case False
    then have "y \<in> live f" using that u by auto
    then show ?thesis using old [OF _ False] ne [OF _ False] c by (auto simp: counted_def)
  qed
  moreover have "\<exists>y \<in> live f'. nodeid (fn f' y) = ino" if "0 < (K(?i := K ?i + 1)) ino" for ino
  proof (cases "ino = ?i")
    case True
    then show ?thesis using u by auto
  next
    case False
    then have "0 < K ino" using that by simp
    then obtain z where "z \<in> live f" "nodeid (fn f z) = ino" using c by (auto simp: counted_def)
    then show ?thesis using u oid by auto
  qed
  ultimately show ?thesis by (simp add: counted_def)
qed

text \<open>Each request in a session returns, and what it returns is again such a state.\<close>

lemma lookup_step:
  assumes "nodes_inv f" "counted f K" "0 < K dir" "card (live f) + 1 < INT_MAX" "\<forall>ino. K ino + 1 < 2 ^ 64"
  obtains p x f' where "p \<in> live f" "nodeid (fn f p) = dir" "find_node dir (Some nm) f = Some (x, f')" "nodes_inv f'" "looked_up p nm x f f'"
proof -
  obtain p where p: "p \<in> live f" "nodeid (fn f p) = dir" using counted_node [OF assms(1-3)] by metis
  have "\<forall>x \<in> live f. nlookup (fn f x) + 1 < 2 ^ 64" using assms(2,5) by (auto simp: counted_def)
  then show ?thesis using find_node_inv [OF assms(1) p(1) assms(4)] p that by blast
qed

lemma forget_step:
  assumes "nodes_inv f" "counted f K" "ino \<noteq> FUSE_ROOT_ID" "0 < K ino" "n \<le> K ino"
  obtains f' where "forget_node now ino n f = Some f'" "nodes_inv f'" "counted f' (K(ino := K ino - n))"
proof -
  obtain x where x: "x \<in> live f" "nodeid (fn f x) = ino" "nlookup (fn f x) = K ino" using counted_node [OF assms(1,2,4)] by metis
  have r: "\<not> is_root (fn f x)" "nodeid (fn f x) \<noteq> FUSE_ROOT_ID" using x(2) assms(3) by (auto simp: is_root_def)
  have "n \<le> nlookup (fn f x)" "0 < nlookup (fn f x)" using x(3) assms(4,5) by simp_all
  then obtain f' where f': "forget_node now ino n f = Some f'" "nodes_inv f'" "live f' \<subseteq> live f"
    "x \<in> live f' \<longrightarrow> nlookup (fn f' x) = nlookup (fn f x) - n" "x \<notin> live f' \<longrightarrow> n = nlookup (fn f x)"
    "\<forall>y \<in> live f - live f'. y = x \<or> nlookup (fn f y) = 0"
    "\<forall>y \<in> live f'. (fn f' y)\<lparr>refctr := 0, nlookup := 0\<rparr> = (fn f y)\<lparr>refctr := 0, nlookup := 0\<rparr>"
    "\<forall>y \<in> live f' - {x}. nlookup (fn f' y) = nlookup (fn f y)" using forget_node_inv [OF assms(1) x(1) r, of n now, unfolded x(2)] by blast
  have inj: "inj_on (\<lambda>y. nodeid (fn f y)) (live f)" using nodes_okD(4) [OF node_invD(1)] assms(1) by blast
  have oid: "nodeid (fn f' y) = nodeid (fn f y)" if "y \<in> live f'" for y using same_but_counts(1) [OF bspec [OF f'(7) that]] .
  have ne: "nodeid (fn f y) \<noteq> ino" if "y \<in> live f" "y \<noteq> x" for y using inj that x by (auto simp: inj_on_def)
  have "nlookup (fn f' y) = (K(ino := K ino - n)) (nodeid (fn f' y))" if "y \<in> live f'" for y
  proof (cases "y = x")
    case True
    then show ?thesis using f'(4) oid that x(2,3) by simp
  next
    case False
    moreover have "y \<in> live f" using that f'(3) by blast
    ultimately show ?thesis using f'(8) that oid [OF that] ne assms(2) by (simp add: counted_def)
  qed
  moreover have "\<exists>y \<in> live f'. nodeid (fn f' y) = i" if i: "0 < (K(ino := K ino - n)) i" for i
  proof -
    have "0 < K i" using i by (auto split: if_splits)
    then obtain z where z: "z \<in> live f" "nodeid (fn f z) = i" "nlookup (fn f z) = K i" using counted_node [OF assms(1,2)] by metis
    have "z \<in> live f'"
    proof (rule ccontr)
      assume nz: "z \<notin> live f'"
      then have "z = x" using f'(6) z \<open>0 < K i\<close> by auto
      then show False using f'(5) nz x z i by simp
    qed
    then show ?thesis using oid z(2) by auto
  qed
  ultimately have "counted f' (K(ino := K ino - n))" by (simp add: counted_def)
  then show ?thesis using that f'(1,2) by blast
qed

lemma remove_step:
  assumes "nodes_inv f" "counted f K" "0 < K dir"
  obtains f' where "remove_node dir nm f = Some f'" "nodes_inv f'" "kept f f'"
proof -
  obtain p where p: "p \<in> live f" "nodeid (fn f p) = dir" using counted_node [OF assms] by metis
  then show ?thesis using remove_node_inv [OF assms(1) p(1), of nm] unnames_kept that by auto
qed

lemma rename_step:
  assumes inv: "nodes_inv f" "counted f K" and d: "0 < K olddir" "0 < K newdir" "(olddir, nm1) \<noteq> (newdir, nm2)"
    and legal: "\<And>x d. lookup_node f olddir nm1 = Some x \<Longrightarrow> get_node f newdir = Some d \<Longrightarrow> (d, x) \<notin> (parents f)\<^sup>*"
  obtains r f' where "rename_node olddir nm1 newdir nm2 hide f = Some (r, f')" "nodes_inv f'" "kept f f'"
proof -
  obtain p1 where p1: "p1 \<in> live f" "nodeid (fn f p1) = olddir" using counted_node [OF inv d(1)] by metis
  obtain p2 where p2: "p2 \<in> live f" "nodeid (fn f p2) = newdir" "nlookup (fn f p2) = K newdir" "get_node f newdir = Some p2"
    using counted_node [OF inv d(2)] by metis
  have ex: "\<exists>r f'. rename_node olddir nm1 newdir nm2 hide f = Some (r, f') \<and> nodes_inv f' \<and> kept f f'"
  proof (cases "\<exists>x \<in> kids f p1. nname (fn f x) = Some nm1")
    case True
    then obtain x where x: "x \<in> kids f p1" "nname (fn f x) = Some nm1" by blast
    have lx: "lookup_node f olddir nm1 = Some x" using lookup_kid [OF inv(1) p1(1) x] p1(2) by simp
    show ?thesis
    proof (cases "hide \<longrightarrow> (\<forall>y \<in> kids f p2. nname (fn f y) \<noteq> Some nm2)")
      case True
      have ne: "(p1, nm1) \<noteq> (p2, nm2)" using d(3) p1(2) p2(2) by auto
      have pos: "0 < nlookup (fn f p2)" using p2(3) d(2) by simp
      show ?thesis using rename_node_inv [OF inv(1) p1(1) p2(1) pos x legal [OF lx p2(4)] ne True] p1(2) p2(2) by blast
    next
      case False
      then obtain y where y: "hide" "y \<in> kids f p2" "nname (fn f y) = Some nm2" by blast
      then have "lookup_node f newdir nm2 = Some y" using lookup_kid [OF inv(1) p2(1)] p2(2) by blast
      moreover have "x \<noteq> 0" "y \<noteq> 0" using x(1) y(2) named_live nodes_okD(2) [OF node_invD(1) [OF conjunct1 [OF inv(1)]]] by (metis kids_named(1) subsetD)+
      ultimately have "rename_node olddir nm1 newdir nm2 hide f = Some (- EBUSY, f)" using lx y(1) by (simp add: rename_node_def)
      then show ?thesis using inv(1) kept_refl by blast
    qed
  next
    case False
    then have "lookup_node f olddir nm1 = Some 0" using lookup_none [OF inv(1) p1(1)] p1(2) by blast
    moreover obtain y where "lookup_node f newdir nm2 = Some y" using lookup_node_inv [OF conjunct1 [OF inv(1)] p2(1)] p2(2) by blast
    ultimately show ?thesis using inv(1) by (auto simp: rename_node_def)
  qed
  then show ?thesis using that by blast
qed

lemma session_inv:
  assumes "node_session f K"
  shows "nodes_inv f \<and> counted f K"
  using assms
proof induction
  case (start f)
  note s = fuse_new_inv [OF start]
  have "nodeid (fn f 1) = FUSE_ROOT_ID" using s(3) by (simp add: is_root_def)
  then have "counted f ((\<lambda>_. 0)(FUSE_ROOT_ID := 1))" using s(2,4) by (auto simp: counted_def)
  then show ?case using s(1) by blast
next
  case (lookup f K dir nm x f')
  obtain p y g where g: "find_node dir (Some nm) f = Some (y, g)" "nodes_inv g" "looked_up p nm y f g"
    by (rule lookup_step [OF conjunct1 [OF lookup.IH] conjunct2 [OF lookup.IH] lookup.hyps(2-4), of nm])
  have eq: "x = y" "f' = g" using g(1) lookup.hyps(5) by simp_all
  show ?case unfolding eq using counted_looked_up [OF g(2) conjunct2 [OF lookup.IH] g(3)] g(2) by blast
next
  case (forget f K ino n now f')
  obtain g where g: "forget_node now ino n f = Some g" "nodes_inv g" "counted g (K(ino := K ino - n))"
    by (rule forget_step [OF conjunct1 [OF forget.IH] conjunct2 [OF forget.IH] forget.hyps(2-4), of now])
  have eq: "f' = g" using g(1) forget.hyps(5) by simp
  show ?case unfolding eq using g(2,3) by blast
next
  case (remove f K dir nm f')
  obtain g where "remove_node dir nm f = Some g" "nodes_inv g" "kept f g"
    by (rule remove_step [OF conjunct1 [OF remove.IH] conjunct2 [OF remove.IH] remove.hyps(2), of nm])
  then show ?case using remove.hyps(3) remove.IH counted_kept by auto
next
  case (rename f K olddir newdir nm1 nm2 hide r f')
  obtain r' g where "rename_node olddir nm1 newdir nm2 hide f = Some (r', g)" "nodes_inv g" "kept f g"
    by (rule rename_step [OF conjunct1 [OF rename.IH] conjunct2 [OF rename.IH] rename.hyps(2-5), of hide])
  then show ?case using rename.hyps(6) rename.IH counted_kept by auto
qed

text \<open>Two sessions: a new file system, and one lookup in its root directory.\<close>

lemma new_session:
  obtains f where "fuse_new_nodes 0 = Some f" "node_session f ((\<lambda>_. 0)(FUSE_ROOT_ID := 1))" "live f = {1}" "nodeid (fn f 1) = FUSE_ROOT_ID" "named f = {}"
proof -
  obtain f where f: "fuse_new_nodes 0 = Some f" "live f = {1}" "is_root (fn f 1)" using fuse_new_ex by blast
  then have "named f = {}" by (auto simp: named_def is_root_def)
  then show ?thesis using that f node_session.start [OF f(1)] by (simp add: is_root_def)
qed

lemma lookup_session:
  obtains f f' x K where "fuse_new_nodes 0 = Some f" "find_node FUSE_ROOT_ID (Some nm) f = Some (x, f')" "node_session f' K" "0 < K FUSE_ROOT_ID"
    "0 < K (nodeid (fn f' x))" "live f' = {1, x}" "named f' = {x}" "parent (fn f' x) = 1" "nname (fn f' x) = Some nm" "lookup_node f' FUSE_ROOT_ID nm = Some x"
    "get_node f' FUSE_ROOT_ID = Some 1" "(1, x) \<notin> (parents f')\<^sup>*"
proof -
  let ?K = "(\<lambda>_. 0)(FUSE_ROOT_ID := 1) :: nat \<Rightarrow> nat"
  obtain f where f: "fuse_new_nodes 0 = Some f" "node_session f ?K" "live f = {1}" "nodeid (fn f 1) = FUSE_ROOT_ID" "named f = {}" by (rule new_session)
  have pre: "0 < ?K FUSE_ROOT_ID" "card (live f) + 1 < INT_MAX" "\<forall>ino. ?K ino + 1 < 2 ^ 64" by (simp_all add: f(3) INT_MAX_def)
  note si = session_inv [OF f(2)]
  obtain p x f' where s: "p \<in> live f" "find_node FUSE_ROOT_ID (Some nm) f = Some (x, f')" "nodes_inv f'" "looked_up p nm x f f'"
    using lookup_step [OF conjunct1 [OF si] conjunct2 [OF si] pre, of nm] by metis
  have p: "p = 1" using s(1) f(3) by simp
  have ss: "node_session f' (?K(nodeid (fn f' x) := ?K (nodeid (fn f' x)) + 1))" by (rule node_session.lookup [OF f(2) pre s(2)])
  have x: "x \<in> named f'" "live f' = insert x (live f)" "parent (fn f' x) = 1" "nname (fn f' x) = Some nm" "parents f' = insert (x, 1) (parents f)"
    using s(4) p by (simp_all add: looked_up_def)
  have ps: "parents f' = {(x, 1)}" using x(5) f(5) by (simp add: parents_def)
  then have nm': "named f' = {x}" by (auto simp: parents_def)
  have ac: "acyclic (parents f')" using nodes_okD(6) [OF node_invD(1) [OF conjunct1 [OF s(3)]]] .
  then have "x \<noteq> 1" using ps by (auto simp: acyclic_def)
  then have "(1, x) \<notin> (parents f')\<^sup>*" unfolding ps by (auto elim!: converse_rtranclE)
  moreover have i1: "nodeid (fn f' 1) = FUSE_ROOT_ID" using s(4) f(3,4) \<open>x \<noteq> 1\<close> same_but_refctr(1) [of "fn f' 1" "fn f 1"] by (simp add: looked_up_def)
  moreover have "get_node f' FUSE_ROOT_ID = Some 1" using get_node_live [OF conjunct1 [OF s(3)], of 1] x(2) f(3) i1 by simp
  moreover have "lookup_node f' FUSE_ROOT_ID nm = Some x" using lookup_kid [OF s(3), of 1 x nm] x f(3) i1 by (simp add: kids_def)
  moreover have kk: "0 < (?K(nodeid (fn f' x) := ?K (nodeid (fn f' x)) + 1)) i" if "i = FUSE_ROOT_ID \<or> i = nodeid (fn f' x)" for i
    using that by auto
  moreover have lv: "live f' = {1, x}" using x(2) f(3) by auto
  ultimately show ?thesis by (intro that [OF f(1) s(2) ss kk kk lv nm' x(3,4)]) simp_all
qed

section \<open>What a session guarantees\<close>

text \<open>
  C23. Every node the kernel knows is there: \<open>get_node\<close> finds it by its number, it has been
  counted as often as the kernel looked it up, and its reference count is one for the
  kernel and one for each child. The lookups of the session are made while there are fewer
  than \<open>2 ^ 31 - 2\<close> nodes, so that the count, a C \<open>int\<close>, has room for all of them.
\<close>

theorem known_nodes_found:
  assumes "node_session f K" "0 < K ino"
  shows "\<exists>x nd. get_node f ino = Some x \<and> fnodes f x = Some nd \<and> nodeid nd = ino \<and> nlookup nd = K ino
    \<and> refctr nd = 1 + int (card {y. \<exists>nd'. fnodes f y = Some nd' \<and> parent nd' = x})"
proof -
  have inv: "nodes_inv f" "counted f K" using session_inv [OF assms(1)] by simp_all
  obtain x where x: "x \<in> live f" "nodeid (fn f x) = ino" "nlookup (fn f x) = K ino" "get_node f ino = Some x"
    by (rule counted_node [OF inv assms(2)])
  have "x \<noteq> 0" using x(1) nodes_okD(2) [OF node_invD(1) [OF conjunct1 [OF inv(1)]]] by metis
  then have "{y. \<exists>nd'. fnodes f y = Some nd' \<and> parent nd' = x} = kids f x" by (auto simp: kids_def named_def live_def fn_def)
  then show ?thesis using x refctr_inv [OF conjunct1 [OF inv(1)] x(1)] assms(2) by (auto simp: live_fn)
qed

theorem known_nodes_found_witness:
  "\<exists>f f' y K. fuse_new_nodes 0 = Some f \<and> find_node FUSE_ROOT_ID (Some ''a'') f = Some (y, f') \<and> node_session f' K
    \<and> (\<exists>x nd. get_node f' FUSE_ROOT_ID = Some x \<and> fnodes f' x = Some nd \<and> nodeid nd = FUSE_ROOT_ID \<and> nlookup nd = K FUSE_ROOT_ID
      \<and> refctr nd = 1 + int (card {y. \<exists>nd'. fnodes f' y = Some nd' \<and> parent nd' = x}))"
proof -
  obtain f f' y K where f: "fuse_new_nodes 0 = Some f" "find_node FUSE_ROOT_ID (Some ''a'') f = Some (y, f')" "node_session f' K" "0 < K FUSE_ROOT_ID"
    by (rule lookup_session)
  show ?thesis using f(1,2,3) known_nodes_found [OF f(3,4)] by blast
qed



text \<open>
  C31. No request in a session fails inside the library: the nodes it names are found, no freed
  node is read, no assertion is violated, no reference count (an \<open>int\<close>) overflows, and it
  returns; for a lookup, if there are fewer than \<open>2 ^ 31 - 2\<close> nodes and no count of lookups is
  about to wrap. Every lookup of the session was made under the same condition.
\<close>

theorem node_requests_return:
  assumes "node_session f K"
  shows "(0 < K dir \<longrightarrow> card (live f) + 1 < INT_MAX \<longrightarrow> (\<forall>ino. K ino + 1 < 2 ^ 64) \<longrightarrow> find_node dir (Some nm) f \<noteq> None)
    \<and> (ino \<noteq> FUSE_ROOT_ID \<longrightarrow> 0 < K ino \<longrightarrow> n \<le> K ino \<longrightarrow> forget_node now ino n f \<noteq> None)
    \<and> (0 < K dir \<longrightarrow> remove_node dir nm f \<noteq> None)
    \<and> (0 < K dir \<longrightarrow> 0 < K newdir \<longrightarrow> (dir, nm) \<noteq> (newdir, nm2) \<longrightarrow>
       (\<forall>x d. lookup_node f dir nm = Some x \<longrightarrow> get_node f newdir = Some d \<longrightarrow> (d, x) \<notin> (parents f)\<^sup>*) \<longrightarrow>
       rename_node dir nm newdir nm2 hide f \<noteq> None)"
proof -
  have inv: "nodes_inv f" "counted f K" using session_inv [OF assms(1)] by simp_all
  have "find_node dir (Some nm) f \<noteq> None" if "0 < K dir" "card (live f) + 1 < INT_MAX" "\<forall>ino. K ino + 1 < 2 ^ 64"
    using lookup_step [OF inv that, of nm] by (metis option.discI)
  moreover have "forget_node now ino n f \<noteq> None" if "ino \<noteq> FUSE_ROOT_ID" "0 < K ino" "n \<le> K ino"
    using forget_step [OF inv that, of now] by (metis option.discI)
  moreover have "remove_node dir nm f \<noteq> None" if "0 < K dir" using remove_step [OF inv that, of nm] by (metis option.discI)
  moreover have "rename_node dir nm newdir nm2 hide f \<noteq> None" if "0 < K dir" "0 < K newdir" "(dir, nm) \<noteq> (newdir, nm2)"
      "\<And>x d. lookup_node f dir nm = Some x \<Longrightarrow> get_node f newdir = Some d \<Longrightarrow> (d, x) \<notin> (parents f)\<^sup>*"
    using rename_step [OF inv that, of hide] by (metis option.discI)
  ultimately show ?thesis by blast
qed

theorem node_requests_return_witness:
  "\<exists>f K. fuse_new_nodes 0 = Some f \<and> node_session f K \<and> find_node FUSE_ROOT_ID (Some ''a'') f \<noteq> None \<and> remove_node FUSE_ROOT_ID ''a'' f \<noteq> None"
proof -
  obtain f where f: "fuse_new_nodes 0 = Some f" "node_session f ((\<lambda>_. 0)(FUSE_ROOT_ID := 1))" "live f = {1}" by (rule new_session)
  have "find_node FUSE_ROOT_ID (Some ''a'') f \<noteq> None" "remove_node FUSE_ROOT_ID ''a'' f \<noteq> None"
    using node_requests_return [OF f(2), of FUSE_ROOT_ID "''a''"] f(3) by (simp_all add: INT_MAX_def)
  then show ?thesis using f(1,2) by blast
qed

text \<open>
  After a lookup the name leads to the node it returned, which is the one the name led to
  before; if there was none, the node is new.
\<close>

theorem lookup_finds_name:
  assumes "node_session f K" "0 < K dir" "card (live f) + 1 < INT_MAX" "\<forall>ino. K ino + 1 < 2 ^ 64"
  shows "\<exists>x y f'. find_node dir (Some nm) f = Some (x, f') \<and> lookup_node f' dir nm = Some x
    \<and> lookup_node f dir nm = Some y \<and> (y = x \<or> y = 0 \<and> fnodes f x = None)"
proof -
  have inv: "nodes_inv f" "counted f K" using session_inv [OF assms(1)] by simp_all
  obtain p where p: "p \<in> live f" "nodeid (fn f p) = dir" using counted_node [OF inv assms(2)] by metis
  have up: "\<forall>x \<in> live f. nlookup (fn f x) + 1 < 2 ^ 64" using inv(2) assms(4) by (auto simp: counted_def)
  have "\<exists>x y f'. find_node dir (Some nm) f = Some (x, f') \<and> nodes_inv f' \<and> looked_up p nm x f f' \<and> lookup_node f dir nm = Some y
      \<and> (y = x \<or> y = 0 \<and> fnodes f x = None)"
  proof (cases "\<exists>y \<in> kids f p. nname (fn f y) = Some nm")
    case False
    then have kd: "\<forall>y \<in> kids f p. nname (fn f y) \<noteq> Some nm" by blast
    have l0: "lookup_node f (nodeid (fn f p)) nm = Some 0" using lookup_none [OF inv(1) p(1) kd] .
    obtain x f' where "find_node (nodeid (fn f p)) (Some nm) f = Some (x, f')" "nodes_inv f'" "x \<notin> live f" "looked_up p nm x f f'"
      using find_node_new [OF inv(1) p(1) kd l0 assms(3)] by blast
    then show ?thesis using l0 p(2) by (auto simp: live_def)
  next
    case True
    then obtain y where y: "y \<in> kids f p" "nname (fn f y) = Some nm" by blast
    then have "y \<in> named f" "parent (fn f y) = p" by (simp_all add: kids_def)
    moreover have l: "lookup_node f dir nm = Some y" using lookup_kid [OF inv(1) p(1) y] p(2) by simp
    ultimately show ?thesis using find_node_old [OF inv(1) _ _ y(2) _ l] up named_live by blast
  qed
  then obtain x y f' where f': "find_node dir (Some nm) f = Some (x, f')" "nodes_inv f'" "looked_up p nm x f f'" "lookup_node f dir nm = Some y"
    "y = x \<or> y = 0 \<and> fnodes f x = None" by blast
  have k: "x \<in> kids f' p" "nname (fn f' x) = Some nm" using f'(3) by (simp_all add: looked_up_def kids_def)
  have pl: "p \<in> live f'" "nodeid (fn f' p) = dir"
    using f'(3) p(1,2) same_but_refctr(1) [of "fn f' p" "fn f p"] by (cases "p = x"; auto simp: looked_up_def)+
  show ?thesis using f'(1,4,5) lookup_kid [OF f'(2) pl(1) k] pl(2) by auto
qed

theorem lookup_finds_name_witness:
  "\<exists>f. fuse_new_nodes 0 = Some f \<and> (\<exists>x y f'. find_node FUSE_ROOT_ID (Some ''a'') f = Some (x, f') \<and> lookup_node f' FUSE_ROOT_ID ''a'' = Some x
    \<and> lookup_node f FUSE_ROOT_ID ''a'' = Some y \<and> (y = x \<or> y = 0 \<and> fnodes f x = None))"
proof -
  obtain f where f: "fuse_new_nodes 0 = Some f" "node_session f ((\<lambda>_. 0)(FUSE_ROOT_ID := 1))" "live f = {1}" by (rule new_session)
  show ?thesis using f(1) lookup_finds_name [OF f(2), of FUSE_ROOT_ID "''a''"] f(3) by (simp add: INT_MAX_def)
qed

text \<open>
  After a rename the new name leads to the node the old one led to.
\<close>

theorem rename_moves_name:
  assumes "node_session f K" "0 < K dir" "0 < K newdir" "(dir, nm) \<noteq> (newdir, nm2)" "lookup_node f dir nm = Some x" "x \<noteq> 0"
    "\<forall>d. get_node f newdir = Some d \<longrightarrow> (d, x) \<notin> (parents f)\<^sup>*"
  shows "\<exists>f'. rename_node dir nm newdir nm2 False f = Some (0, f') \<and> lookup_node f' newdir nm2 = Some x"
proof -
  have inv: "nodes_inv f" "counted f K" using session_inv [OF assms(1)] by simp_all
  obtain p where p: "p \<in> live f" "nodeid (fn f p) = dir" using counted_node [OF inv assms(2)] by metis
  obtain q where q: "q \<in> live f" "nodeid (fn f q) = newdir" "nlookup (fn f q) = K newdir" "get_node f newdir = Some q"
    using counted_node [OF inv assms(3)] by metis
  have k: "x \<in> kids f p" "nname (fn f x) = Some nm"
    using lookup_node_inv [OF conjunct1 [OF inv(1)] p(1), of nm] p(2) assms(5,6) by (auto simp: kids_def)
  have ne: "(p, nm) \<noteq> (q, nm2)" using assms(4) p(2) q(2) by auto
  have pos: "0 < nlookup (fn f q)" using q(3) assms(3) by simp
  have cyc: "(q, x) \<notin> (parents f)\<^sup>*" using assms(7) q(4) by blast
  obtain f' where f': "rename_node dir nm newdir nm2 False f = Some (0, f')" "nodes_inv f'" "kept f f'"
    "x \<in> named f'" "parent (fn f' x) = q" "nname (fn f' x) = Some nm2"
    using rename_node_inv [OF inv(1) p(1) q(1) pos k cyc ne, of False] p(2) q(2) by auto
  have "q \<in> live f'" "nodeid (fn f' q) = newdir" using kept_live [OF f'(3) q(1) pos] q(2) by simp_all
  then show ?thesis using f' lookup_kid [OF f'(2), of q x nm2] by (auto simp: kids_def)
qed

theorem rename_moves_name_witness:
  "\<exists>f f1 x. fuse_new_nodes 0 = Some f \<and> find_node FUSE_ROOT_ID (Some ''a'') f = Some (x, f1)
    \<and> (\<exists>f'. rename_node FUSE_ROOT_ID ''a'' FUSE_ROOT_ID ''b'' False f1 = Some (0, f') \<and> lookup_node f' FUSE_ROOT_ID ''b'' = Some x)"
proof -
  obtain f f1 x K where f: "fuse_new_nodes 0 = Some f" "find_node FUSE_ROOT_ID (Some ''a'') f = Some (x, f1)" "node_session f1 K" "0 < K FUSE_ROOT_ID"
    "named f1 = {x}" "lookup_node f1 FUSE_ROOT_ID ''a'' = Some x" "get_node f1 FUSE_ROOT_ID = Some 1" "(1, x) \<notin> (parents f1)\<^sup>*"
    by (rule lookup_session)
  have "x \<in> live f1" using f(5) named_live by blast
  then have "x \<noteq> 0" using nodes_okD(2) [OF node_invD(1) [OF conjunct1 [OF conjunct1 [OF session_inv [OF f(3)]]]]] by metis
  have "\<exists>f'. rename_node FUSE_ROOT_ID ''a'' FUSE_ROOT_ID ''b'' False f1 = Some (0, f') \<and> lookup_node f' FUSE_ROOT_ID ''b'' = Some x"
    by (rule rename_moves_name [OF f(3,4,4) _ f(6) \<open>x \<noteq> 0\<close>]) (use f(7,8) in simp_all)
  then show ?thesis using f(1,2) by blast
qed

end
