(* ===== verification/Node_Paths.thy ===== *)
theory Node_Paths
  imports Node_Sessions
begin

text \<open>
  From nodes to paths (\<open>lib/fuse.c\<close>): \<open>try_get_path\<close> follows the parents of a node to the root,
  writing the names from the end of a buffer to its front and locking the nodes it passes;
  \<open>unlock_path\<close> unlocks them. A buffer is its characters and the position \<open>s\<close> of the first
  one in use; \<open>u\<close> gives what \<open>malloc\<close> and \<open>realloc\<close> leave in it. Locks are counted in
  \<open>treelock\<close>: \<open>n > 0\<close> for \<open>n\<close> readers, \<open>-1\<close> for a writer, and \<open>INT_MIN\<close> is added when a
  writer waits. A request that has to wait gets \<open>EAGAIN\<close>.
\<close>

definition ENOENT :: int where
  "ENOENT = 2"

definition EAGAIN :: int where
  "EAGAIN = 11"

definition TREELOCK_WRITE :: int where
  "TREELOCK_WRITE = - 1"

definition TREELOCK_WAIT_OFFSET :: int where
  "TREELOCK_WAIT_OFFSET = - (2 ^ 31)"

section \<open>The buffer\<close>

text \<open>Doubling a 32 bit size until \<open>need\<close> fits; where it cannot fit, this does not end.\<close>

partial_function (option) grow_size :: "nat \<Rightarrow> nat \<Rightarrow> nat option" where
  "grow_size need newbufsize =
     (if newbufsize < need then grow_size need (if newbufsize \<ge> 2 ^ 31 then 2 ^ 32 - 1 else newbufsize * 2)
      else Some newbufsize)"

definition add_name :: "(nat \<Rightarrow> char) \<Rightarrow> string \<Rightarrow> string \<times> nat \<Rightarrow> (string \<times> nat) option" where
  "add_name u name = (\<lambda>(buf, s). do {
     let len = length name;
     (buf, s) \<leftarrow>
       (if s \<le> len then do {
          let bufsize = length buf;
          let pathlen = bufsize - s;
          newbufsize \<leftarrow> grow_size (pathlen + len + 1) bufsize;
          let newbuf = buf @ map u [bufsize..<newbufsize];
          let s' = newbufsize - pathlen;
          Some (take s' newbuf @ take pathlen (drop s newbuf), s') }
        else Some (buf, s));
     let s = s - len;
     let buf = take s buf @ name @ drop (s + len) buf;
     Some (buf[s - 1 := CHR ''/''], s - 1) })"

section \<open>Paths\<close>

text \<open>\<open>(err, node, buffer, state)\<close>: the node the loop has stopped at.\<close>

partial_function (option) path_loop ::
  "(nat \<Rightarrow> char) \<Rightarrow> bool \<Rightarrow> node \<Rightarrow> string \<times> nat \<Rightarrow> fuse \<Rightarrow> (int \<times> node \<times> (string \<times> nat) \<times> fuse) option" where
  "path_loop u need_lock node b f = do {
     nd \<leftarrow> fnodes f node;
     if nodeid nd = FUSE_ROOT_ID then Some (0, node, b, f)
     else case nname nd of
       None \<Rightarrow> Some (- ENOENT, node, b, f)
     | Some nm \<Rightarrow>
         if parent nd = 0 then Some (- ENOENT, node, b, f)
         else do {
           b \<leftarrow> add_name u nm b;
           if need_lock then
             (if treelock nd < 0 then Some (- EAGAIN, node, b, f)
              else do {
                f \<leftarrow> mod_node node (\<lambda>nd. nd\<lparr>treelock := treelock nd + 1\<rparr>) f;
                path_loop u need_lock (parent nd) b f })
           else path_loop u need_lock (parent nd) b f } }"

partial_function (option) unlock_loop :: "node \<Rightarrow> node \<Rightarrow> fuse \<Rightarrow> fuse option" where
  "unlock_loop end node f =
     (if node = end then Some f
      else do {
        nd \<leftarrow> fnodes f node;
        if nodeid nd = FUSE_ROOT_ID then Some f
        else if treelock nd = 0 \<or> treelock nd = TREELOCK_WAIT_OFFSET \<or> treelock nd = TREELOCK_WRITE then None
        else do {
          f \<leftarrow> mod_node node (\<lambda>nd. nd\<lparr>treelock := (if treelock nd - 1 = TREELOCK_WAIT_OFFSET then 0 else treelock nd - 1)\<rparr>) f;
          unlock_loop end (parent nd) f } })"

definition unlock_path :: "nat \<Rightarrow> node \<Rightarrow> node \<Rightarrow> fuse \<Rightarrow> fuse option" where
  "unlock_path ino wnode end f = do {
     f \<leftarrow> (if wnode \<noteq> 0 then do {
             nd \<leftarrow> fnodes f wnode;
             if treelock nd = TREELOCK_WRITE then mod_node wnode (\<lambda>nd. nd\<lparr>treelock := 0\<rparr>) f else None }
           else Some f);
     node \<leftarrow> get_node f ino;
     unlock_loop end node f }"

text \<open>What is in the buffer as a C string.\<close>

definition c_str :: "string \<times> nat \<Rightarrow> string" where
  "c_str = (\<lambda>(buf, s). takeWhile (\<lambda>c. c \<noteq> CHR 0x00) (drop s buf))"

text \<open>\<open>want\<close>: the node with the name is to be locked for writing (\<open>wnodep\<close>).\<close>

definition try_get_path ::
  "(nat \<Rightarrow> char) \<Rightarrow> nat \<Rightarrow> string option \<Rightarrow> bool \<Rightarrow> bool \<Rightarrow> fuse \<Rightarrow> (int \<times> string option \<times> node \<times> fuse) option" where
  "try_get_path u ino name want need_lock f = do {
     let b = ((map u [0..<256])[255 := CHR 0x00], 255);
     b \<leftarrow> (case name of None \<Rightarrow> Some b | Some nm \<Rightarrow> add_name u nm b);
     (busy, wnode, f) \<leftarrow>
       (if want then do {
          nm \<leftarrow> name;
          w \<leftarrow> (if need_lock then lookup_node f ino nm else None);
          if w = 0 then Some (False, 0, f)
          else do {
            nd \<leftarrow> fnodes f w;
            if treelock nd \<noteq> 0 then do {
              f \<leftarrow> (if treelock nd > 0 then mod_node w (\<lambda>nd. nd\<lparr>treelock := treelock nd + TREELOCK_WAIT_OFFSET\<rparr>) f else Some f);
              Some (True, w, f) }
            else do {
              f \<leftarrow> mod_node w (\<lambda>nd. nd\<lparr>treelock := TREELOCK_WRITE\<rparr>) f;
              Some (False, w, f) } } }
        else Some (False, 0, f));
     if busy then Some (- EAGAIN, None, 0, f)
     else do {
       node \<leftarrow> get_node f ino;
       (err, end, b, f) \<leftarrow> path_loop u need_lock node b f;
       if err = 0 then Some (0, Some (if c_str b \<noteq> [] then c_str b else ''/''), wnode, f)
       else do {
         f \<leftarrow> (if need_lock then unlock_path ino wnode end f else Some f);
         Some (err, None, 0, f) } } }"

section \<open>The buffer holds the path\<close>

lemma grow_size_range:
  assumes "need < 2 ^ 32" "0 < n" "n < 2 ^ 32"
  shows "\<exists>m. grow_size need n = Some m \<and> need \<le> m \<and> n \<le> m \<and> m < 2 ^ 32"
  using assms
proof (induction "need - n" arbitrary: n rule: less_induct)
  case less
  show ?case
  proof (cases "n < need")
    case False
    then show ?thesis using less.prems by (subst grow_size.simps) simp
  next
    case True
    define n' where "n' = (if n \<ge> 2 ^ 31 then 2 ^ 32 - 1 else n * 2)"
    have n': "n < n'" "0 < n'" "n' < 2 ^ 32" using True less.prems by (auto simp: n'_def)
    then have "\<exists>m. grow_size need n' = Some m \<and> need \<le> m \<and> n' \<le> m \<and> m < 2 ^ 32" using less.hyps [of n'] less.prems(1) True by simp
    moreover have "grow_size need n = grow_size need n'" using True by (subst grow_size.simps) (simp add: n'_def)
    ultimately show ?thesis using n'(1) by auto
  qed
qed

lemma grow_size_enough:
  assumes "need < 2 ^ 32" "0 < n"
  shows "\<exists>m. grow_size need n = Some m \<and> need \<le> m \<and> n \<le> m"
proof (cases "n < need")
  case True
  then have "n < 2 ^ 32" using assms(1) by simp
  then show ?thesis using grow_size_range [OF assms] by blast
next
  case False
  then show ?thesis by (subst grow_size.simps) simp
qed

lemma add_name_front:
  assumes "s < length buf" "length buf - s + length name + 1 < 2 ^ 32"
  shows "\<exists>buf' s'. add_name u name (buf, s) = Some (buf', s') \<and> s' < length buf' \<and> drop s' buf' = CHR ''/'' # name @ drop s buf"
proof -
  have wr: "s1 - length name - 1 < length b1 \<and>
      drop (s1 - length name - 1) ((take (s1 - length name) b1 @ name @ drop (s1 - length name + length name) b1)[s1 - length name - 1 := CHR ''/''])
        = CHR ''/'' # name @ drop s1 b1" if "length name < s1" "s1 \<le> length b1" for s1 b1
  proof -
    define k where "k = s1 - length name - 1"
    have k: "s1 - length name = Suc k" "k < length b1" "s1 = Suc k + length name" using that by (simp_all add: k_def)
    have "take (Suc k) b1 = take k b1 @ [b1 ! k]" using k(2) by (simp add: take_Suc_conv_app_nth)
    then show ?thesis using k by (simp add: list_update_append min_def add.commute)
  qed
  show ?thesis
  proof (cases "s \<le> length name")
    case False
    then show ?thesis using wr [of s buf] assms(1) by (auto simp: add_name_def Let_def)
  next
    case True
    let ?p = "length buf - s"
    obtain m where m: "grow_size (?p + length name + 1) (length buf) = Some m" "?p + length name + 1 \<le> m" "length buf \<le> m"
      using grow_size_enough [OF assms(2)] assms(1) by (metis gr_zeroI not_less_zero)
    define nb where "nb = buf @ map u [length buf..<m]"
    define s1 where "s1 = m - ?p"
    define b1 where "b1 = take s1 nb @ take ?p (drop s nb)"
    have nb: "length nb = m" using m(3) by (simp add: nb_def)
    have "take ?p (drop s nb) = drop s buf" using assms(1) by (simp add: nb_def)
    then have b1: "drop s1 b1 = drop s buf" "length b1 = m" using nb m(2) by (simp_all add: b1_def s1_def)
    have "length name < s1" "s1 \<le> length b1" using m(2) b1(2) by (simp_all add: s1_def)
    note w = wr [OF this]
    let ?buf = "(take (s1 - length name) b1 @ name @ drop (s1 - length name + length name) b1)[s1 - length name - 1 := CHR ''/'']"
    have "add_name u name (buf, s) = Some (?buf, s1 - length name - 1)"
      unfolding b1_def nb_def s1_def using True m(1) by (simp only: add_name_def prod.case Let_def if_True bind.bind_lunit)
    moreover have "length ?buf = length b1" using m(2) b1(2) by (simp add: s1_def)
    ultimately show ?thesis using w b1(1) by auto
  qed
qed

section \<open>Going up and locking\<close>

text \<open>
  The nodes from \<open>x\<close> up to, and without, the node \<open>z\<close>, with their names; the path they
  spell; and the state in which the node \<open>y\<close> has the lock \<open>L y\<close>.
\<close>

fun up :: "fuse \<Rightarrow> node \<Rightarrow> (node \<times> string) list \<Rightarrow> node \<Rightarrow> bool" where
  "up f x [] z \<longleftrightarrow> x = z"
| "up f x ((y, nm) # ps) z \<longleftrightarrow> y = x \<and> x \<in> named f \<and> nodeid (fn f x) \<noteq> FUSE_ROOT_ID \<and> nname (fn f x) = Some nm
     \<and> up f (parent (fn f x)) ps z"

definition path_of :: "(node \<times> string) list \<Rightarrow> string" where
  "path_of ps = concat (map (\<lambda>(y, nm). CHR ''/'' # nm) (rev ps))"

definition passed :: "(node \<times> string) list \<Rightarrow> node set" where
  "passed ps = fst ` set ps"

definition relock :: "(node \<Rightarrow> int) \<Rightarrow> fuse \<Rightarrow> fuse" where
  "relock L f = f\<lparr>fnodes := (\<lambda>y. map_option (\<lambda>nd. nd\<lparr>treelock := L y\<rparr>) (fnodes f y))\<rparr>"

definition lock_more :: "node set \<Rightarrow> (node \<Rightarrow> int) \<Rightarrow> node \<Rightarrow> int" where
  "lock_more X L y = (if y \<in> X then L y + 1 else L y)"

lemma path_of_simps [simp]: "path_of [] = []" "path_of ((y, nm) # ps) = path_of ps @ CHR ''/'' # nm"
  by (simp_all add: path_of_def)

lemma passed_simps [simp]: "passed [] = {}" "passed ((y, nm) # ps) = insert y (passed ps)"
  by (simp_all add: passed_def)

lemma relock_fnodes: "fnodes (relock L f) y = map_option (\<lambda>nd. nd\<lparr>treelock := L y\<rparr>) (fnodes f y)"
  by (simp add: relock_def)

lemma relock_mod: "x \<in> live f \<Longrightarrow> mod_node x (\<lambda>nd. nd\<lparr>treelock := g (treelock nd)\<rparr>) (relock L f) = Some (relock (L(x := g (L x))) f)"
  by (auto simp: mod_node_def relock_def live_def fun_eq_iff)

lemma relock_same: "\<forall>y \<in> live f. treelock (fn f y) = L y \<Longrightarrow> relock L f = f"
proof -
  assume L: "\<forall>y \<in> live f. treelock (fn f y) = L y"
  have "map_option (\<lambda>nd. nd\<lparr>treelock := L y\<rparr>) (fnodes f y) = fnodes f y" for y
    using L by (cases "fnodes f y") (auto simp: live_def fn_def)
  then show ?thesis by (simp add: relock_def)
qed

lemma relock_get_node [simp]: "get_node (relock L f) ino = get_node f ino"
  by (simp add: get_node_def get_node_nocheck_def relock_def id_hash_def option.map_comp o_def)

lemma relock_lookup_node [simp]: "lookup_node (relock L f) dir nm = lookup_node f dir nm"
proof -
  have "(\<lambda>x. do { nd \<leftarrow> fnodes (relock L f) x; p \<leftarrow> fnodes (relock L f) (parent nd);
           if nodeid p = dir then map_option (\<lambda>n. n = nm) (nname nd) else Some False }) =
        (\<lambda>x. do { nd \<leftarrow> fnodes f x; p \<leftarrow> fnodes f (parent nd);
           if nodeid p = dir then map_option (\<lambda>n. n = nm) (nname nd) else Some False })"
    by (auto simp: relock_fnodes fun_eq_iff bind_eq_None_conv split: bind_splits)
  then show ?thesis by (simp add: lookup_node_def name_hash_def relock_def)
qed

text \<open>What the loop answers at the node it stops at.\<close>

definition stop_code :: "bool \<Rightarrow> (node \<Rightarrow> int) \<Rightarrow> fuse \<Rightarrow> node \<Rightarrow> int option" where
  "stop_code need_lock L f z =
     (if nodeid (fn f z) = FUSE_ROOT_ID then Some 0
      else if nname (fn f z) = None \<or> parent (fn f z) = 0 then Some (- ENOENT)
      else if need_lock \<and> L z < 0 then Some (- EAGAIN) else None)"

lemma path_loop_up:
  assumes "up f x ps z" "z \<in> live f" "stop_code need_lock L f z = Some err" "distinct (map fst ps)" "z \<notin> passed ps"
    "\<forall>y \<in> passed ps. 0 \<le> L y" "s < length buf" "length (drop s buf) + length (path_of ps) + (case nname (fn f z) of None \<Rightarrow> 0 | Some nm \<Rightarrow> length nm + 1) < 2 ^ 32"
  shows "\<exists>buf' s'. path_loop u need_lock x (buf, s) (relock L f) = Some (err, z, (buf', s'), relock (if need_lock then lock_more (passed ps) L else L) f)
    \<and> (err = 0 \<longrightarrow> drop s' buf' = path_of ps @ drop s buf)"
  using assms
proof (induction ps arbitrary: x L buf s)
  case Nil
  have z: "fnodes (relock L f) z = Some ((fn f z)\<lparr>treelock := L z\<rparr>)" using Nil.prems(2) by (simp add: relock_fnodes live_fn)
  have "lock_more {} L = L" by (simp add: lock_more_def fun_eq_iff)
  show ?case
  proof (cases "nodeid (fn f z) = FUSE_ROOT_ID \<or> nname (fn f z) = None \<or> parent (fn f z) = 0")
    case True
    then show ?thesis using Nil.prems(1,3) z \<open>lock_more {} L = L\<close>
      by (subst path_loop.simps) (auto simp: stop_code_def split: if_splits option.split)
  next
    case False
    then obtain nm where nm: "nname (fn f z) = Some nm" by auto
    obtain buf' s' where b: "add_name u nm (buf, s) = Some (buf', s')" using add_name_front [OF Nil.prems(7), of nm u] Nil.prems(8) nm by auto
    show ?thesis using False nm b Nil.prems(1,3) z \<open>lock_more {} L = L\<close>
      by (subst path_loop.simps) (auto simp: stop_code_def EAGAIN_def split: if_splits)
  qed
next
  case (Cons a ps)
  obtain nm where a: "a = (x, nm)" using Cons.prems(1) by (cases a) auto
  have x: "x \<in> live f" "nodeid (fn f x) \<noteq> FUSE_ROOT_ID" "nname (fn f x) = Some nm" "parent (fn f x) \<noteq> 0" "up f (parent (fn f x)) ps z"
    using Cons.prems(1) by (auto simp: a named_def)
  have fx: "fnodes (relock L f) x = Some ((fn f x)\<lparr>treelock := L x\<rparr>)" using x(1) by (simp add: relock_fnodes live_fn)
  obtain b1 s1 where b: "add_name u nm (buf, s) = Some (b1, s1)" "s1 < length b1" "drop s1 b1 = CHR ''/'' # nm @ drop s buf"
    using add_name_front [OF Cons.prems(7), of nm u] Cons.prems(8) a by auto
  define L1 where "L1 = (if need_lock then L(x := L x + 1) else L)"
  have zx: "z \<noteq> x" "z \<notin> passed ps" "x \<notin> passed ps" "distinct (map fst ps)" "0 \<le> L x" using Cons.prems(4,5,6) by (auto simp: a passed_def)
  have "L1 z = L z" using zx(1) by (simp add: L1_def)
  then have st: "stop_code need_lock L1 f z = Some err" using Cons.prems(3) by (simp only: stop_code_def)
  have nn: "\<forall>y \<in> passed ps. 0 \<le> L1 y" using Cons.prems(6) zx(3) by (auto simp: a L1_def)
  have lm: "(if need_lock then lock_more (passed ps) L1 else L1) = (if need_lock then lock_more (passed (a # ps)) L else L)"
    using zx(3) by (auto simp: L1_def lock_more_def a fun_eq_iff)
  have len: "length (drop s1 b1) + length (path_of ps) + (case nname (fn f z) of None \<Rightarrow> 0 | Some nm \<Rightarrow> length nm + 1) < 2 ^ 32"
    using Cons.prems(8) a b(3) by simp
  note IH = Cons.IH [OF x(5) Cons.prems(2) st zx(4,2) nn b(2) len, unfolded lm]
  have "path_loop u need_lock x (buf, s) (relock L f) = path_loop u need_lock (parent (fn f x)) (b1, s1) (relock L1 f)"
    using x fx b(1) zx(5) relock_mod [OF x(1), of "\<lambda>l. l + 1" L] by (subst path_loop.simps) (simp add: L1_def)
  then show ?case using IH b(3) by (auto simp: a)
qed

text \<open>What \<open>unlock_path\<close> does to one lock: the last reader also takes the mark of the waiting writer.\<close>

definition unlocked :: "int \<Rightarrow> int" where
  "unlocked l = (if l - 1 = TREELOCK_WAIT_OFFSET then 0 else l - 1)"

lemma unlocked_reader [simp]: "0 \<le> l \<Longrightarrow> unlocked (l + 1) = l"
  by (simp add: unlocked_def TREELOCK_WAIT_OFFSET_def)

lemma unlock_loop_up:
  assumes "up f x ps z" "z \<in> live f" "distinct (map fst ps)" "end \<notin> passed ps" "end = z \<or> nodeid (fn f z) = FUSE_ROOT_ID"
    "\<forall>y \<in> passed ps. L y \<noteq> 0 \<and> L y \<noteq> TREELOCK_WAIT_OFFSET \<and> L y \<noteq> TREELOCK_WRITE"
  shows "unlock_loop end x (relock L f) = Some (relock (\<lambda>y. if y \<in> passed ps then unlocked (L y) else L y) f)"
  using assms
proof (induction ps arbitrary: x L)
  case Nil
  have "fnodes (relock L f) z = Some ((fn f z)\<lparr>treelock := L z\<rparr>)" using Nil.prems(2) by (simp add: relock_fnodes live_fn)
  then show ?case using Nil.prems by (subst unlock_loop.simps) auto
next
  case (Cons a ps)
  obtain nm where a: "a = (x, nm)" using Cons.prems(1) by (cases a) auto
  have x: "x \<in> live f" "nodeid (fn f x) \<noteq> FUSE_ROOT_ID" "up f (parent (fn f x)) ps z"
    using Cons.prems(1) by (auto simp: a named_def)
  have fx: "fnodes (relock L f) x = Some ((fn f x)\<lparr>treelock := L x\<rparr>)" using x(1) by (simp add: relock_fnodes live_fn)
  have zx: "x \<notin> passed ps" "distinct (map fst ps)" "end \<noteq> x" "end \<notin> passed ps"
    "\<forall>y \<in> passed ps. L y \<noteq> 0 \<and> L y \<noteq> TREELOCK_WAIT_OFFSET \<and> L y \<noteq> TREELOCK_WRITE" "L x \<noteq> 0" "L x \<noteq> TREELOCK_WAIT_OFFSET" "L x \<noteq> TREELOCK_WRITE"
    using Cons.prems(3-6) by (auto simp: a passed_def)
  have "unlock_loop end x (relock L f) = unlock_loop end (parent (fn f x)) (relock (L(x := unlocked (L x))) f)"
    using x(2) fx zx(3,6-8) relock_mod [OF x(1), of unlocked L] by (subst unlock_loop.simps) (simp add: unlocked_def)
  also have "\<dots> = Some (relock (\<lambda>y. if y \<in> passed ps then unlocked ((L(x := unlocked (L x))) y) else (L(x := unlocked (L x))) y) f)"
    by (rule Cons.IH [OF x(3) Cons.prems(2) zx(2,4) Cons.prems(5)]) (use zx(1,5) in auto)
  also have "(\<lambda>y. if y \<in> passed ps then unlocked ((L(x := unlocked (L x))) y) else (L(x := unlocked (L x))) y)
      = (\<lambda>y. if y \<in> passed (a # ps) then unlocked (L y) else L y)"
    using zx(1) by (auto simp: a fun_eq_iff)
  finally show ?case .
qed

section \<open>The way to the root\<close>

lemma up_named: "up f x ps z \<Longrightarrow> passed ps \<subseteq> named f"
  by (induction ps arbitrary: x) fastforce+

lemma up_reach: "up f x ps z \<Longrightarrow> (x, z) \<in> (parents f)\<^sup>* \<and> (\<forall>y \<in> passed ps. (x, y) \<in> (parents f)\<^sup>* \<and> (y, z) \<in> (parents f)\<^sup>+)"
proof (induction ps arbitrary: x)
  case (Cons a ps)
  then have x: "fst a = x" "(x, parent (fn f x)) \<in> parents f" "up f (parent (fn f x)) ps z" by (cases a; auto simp: parents_def)+
  note IH = Cons.IH [OF x(3)]
  have "(x, z) \<in> (parents f)\<^sup>+" using IH x(2) by (meson rtrancl_into_trancl2)
  moreover have "passed (a # ps) = insert x (passed ps)" using x(1) by (cases a) simp
  ultimately show ?case using IH x(2) by (auto intro: converse_rtrancl_into_rtrancl)
qed simp

lemma up_distinct:
  assumes "acyclic (parents f)" "up f x ps z"
  shows "distinct (map fst ps) \<and> z \<notin> passed ps"
  using assms(2)
proof (induction ps arbitrary: x)
  case (Cons a ps)
  then obtain nm where a: "a = (x, nm)" and x: "(x, parent (fn f x)) \<in> parents f" "up f (parent (fn f x)) ps z" by (cases a) (auto simp: parents_def)
  have "x \<notin> passed ps"
  proof
    assume "x \<in> passed ps"
    then have "(parent (fn f x), x) \<in> (parents f)\<^sup>*" using up_reach [OF x(2)] by blast
    then have "(x, x) \<in> (parents f)\<^sup>+" using x(1) by (meson rtrancl_into_trancl2)
    then show False using assms(1) by (simp add: acyclic_def)
  qed
  moreover have "z \<noteq> x"
  proof
    assume "z = x"
    then have "(x, x) \<in> (parents f)\<^sup>+" using up_reach [OF x(2)] x(1) by (meson rtrancl_into_trancl2)
    then show False using assms(1) by (simp add: acyclic_def)
  qed
  ultimately show ?case using Cons.IH [OF x(2)] by (simp add: a passed_def)
qed simp

lemma up_ex:
  assumes "nodes_inv f" "x \<in> live f"
  shows "\<exists>ps z. up f x ps z \<and> z \<in> live f \<and> z \<notin> named f"
proof -
  note n = nodes_okD [OF node_invD(1) [OF conjunct1 [OF assms(1)]]]
  have nk: "\<forall>x \<in> named f. parent (fn f x) \<in> live f \<and> nname (fn f x) \<noteq> None"
    using node_invD(2) [OF conjunct1 [OF assms(1)]] by (simp add: names_ok_def)
  obtain r where r: "r \<in> live f" "is_root (fn f r)" using n(10) by blast
  have "parents f = (\<lambda>x. (x, parent (fn f x))) ` named f" by (auto simp: parents_def)
  then have "wf ((parents f)\<inverse>)" using n(6,11) by (simp add: finite_acyclic_wf_converse)
  then show ?thesis using assms(2)
  proof (induction x)
    case (less x)
    show ?case
    proof (cases "x \<in> named f")
      case False
      then show ?thesis using less.prems by (intro exI [of _ "[]"] exI [of _ x]) simp
    next
      case True
      then have p: "(x, parent (fn f x)) \<in> parents f" "parent (fn f x) \<in> live f" "nname (fn f x) \<noteq> None" using nk by (auto simp: parents_def)
      then obtain ps z where z: "up f (parent (fn f x)) ps z" "z \<in> live f" "z \<notin> named f" using less.IH by blast
      have "x \<noteq> r" using True r(2) by (auto simp: named_def is_root_def)
      then have "nodeid (fn f x) \<noteq> FUSE_ROOT_ID" using n(4) less.prems r by (auto simp: inj_on_def is_root_def)
      then have "up f x ((x, the (nname (fn f x))) # ps) z" using z(1) True p(3) by auto
      then show ?thesis using z(2,3) by blast
    qed
  qed
qed

lemma up_part:
  assumes "up f x ps z" "w \<in> passed ps"
  shows "\<exists>qs. up f x qs w \<and> passed qs \<subseteq> passed ps"
  using assms
proof (induction ps arbitrary: x)
  case (Cons a ps)
  obtain nm where a: "a = (x, nm)" using Cons.prems(1) by (cases a) auto
  show ?case
  proof (cases "w = x")
    case True
    then show ?thesis by (intro exI [of _ "[]"]) simp
  next
    case False
    then obtain qs where "up f (parent (fn f x)) qs w" "passed qs \<subseteq> passed ps" using Cons a by auto
    then show ?thesis using Cons.prems(1) by (intro exI [of _ "a # qs"]) (auto simp: a)
  qed
qed simp

lemma up_through:
  assumes "up f x ps z" "z \<notin> named f" "w \<in> named f" "(x, w) \<in> (parents f)\<^sup>*"
  shows "w \<in> passed ps"
  using assms(1,4)
proof (induction ps arbitrary: x)
  case Nil
  have "(x, w) \<in> (parents f)\<^sup>+ \<or> x = w" using Nil.prems(2) by (auto simp: rtrancl_eq_or_trancl)
  then show ?case using Nil.prems(1) assms(2,3) by (auto simp: parents_def dest!: tranclD)
next
  case (Cons a ps)
  obtain nm where a: "a = (x, nm)" "up f (parent (fn f x)) ps z" using Cons.prems(1) by (cases a) auto
  show ?case
  proof (cases "x = w")
    case False
    then have "(parent (fn f x), w) \<in> (parents f)\<^sup>*" using Cons.prems(2) by (auto simp: parents_def elim!: converse_rtranclE)
    then show ?thesis using Cons.IH [OF a(2)] a(1) by simp
  qed (simp add: a(1))
qed

section \<open>Paths of nodes\<close>

text \<open>The room the names of all nodes take in a path, the suffix of a request, and what is written for a path.\<close>

definition names_length :: "fuse \<Rightarrow> nat" where
  "names_length f = (\<Sum>x \<in> named f. length (the (nname (fn f x))) + 1)"

definition suffix_of :: "string option \<Rightarrow> string" where
  "suffix_of name = (case name of None \<Rightarrow> [] | Some nm \<Rightarrow> CHR ''/'' # nm)"

definition slashed :: "string \<Rightarrow> string" where
  "slashed p = (if p = [] then ''/'' else p)"

definition c_names :: "fuse \<Rightarrow> bool" where
  "c_names f \<longleftrightarrow> (\<forall>x \<in> named f. CHR 0x00 \<notin> set (the (nname (fn f x))))"

lemma path_length:
  assumes "acyclic (parents f)" "finite (named f)" "up f x ps z" "z \<in> live f"
  shows "length (path_of ps) + (case nname (fn f z) of None \<Rightarrow> 0 | Some nm \<Rightarrow> if z \<in> named f then length nm + 1 else 0) \<le> names_length f"
proof -
  let ?g = "\<lambda>x. length (the (nname (fn f x))) + 1"
  have ps: "length (path_of ps) = sum_list (map ?g (map fst ps))" using assms(3) by (induction ps arbitrary: x) auto
  have d: "distinct (map fst ps)" "z \<notin> passed ps" using up_distinct [OF assms(1,3)] by simp_all
  have "sum_list (map ?g (map fst ps)) = sum ?g (passed ps)" using sum.distinct_set_conv_list [OF d(1), of ?g] by (simp add: passed_def)
  then have l: "length (path_of ps) = sum ?g (passed ps)" using ps by simp
  have fin: "finite (passed ps)" by (simp add: passed_def)
  show ?thesis
  proof (cases "z \<in> named f \<and> nname (fn f z) \<noteq> None")
    case True
    have "sum ?g (insert z (passed ps)) \<le> names_length f" unfolding names_length_def
      by (rule sum_mono2) (use assms(2) up_named [OF assms(3)] True in auto)
    then show ?thesis using True d(2) fin l by auto
  next
    case False
    have "sum ?g (passed ps) \<le> names_length f" unfolding names_length_def
      by (rule sum_mono2) (use assms(2) up_named [OF assms(3)] in auto)
    then show ?thesis using False l by (auto split: option.split)
  qed
qed

lemma path_no_nul: "c_names f \<Longrightarrow> up f x ps z \<Longrightarrow> CHR 0x00 \<notin> set (path_of ps)"
  by (induction ps arbitrary: x) (fastforce simp: c_names_def)+

lemma takeWhile_nul: "c \<notin> set xs \<Longrightarrow> takeWhile (\<lambda>d. d \<noteq> c) (xs @ [c]) = xs"
  by (induction xs) auto

lemma suffix_buf:
  assumes "length (suffix_of name) + 2 < 2 ^ 32"
  shows "\<exists>buf s. (case name of None \<Rightarrow> Some ((map u [0..<256])[255 := CHR 0x00], 255)
      | Some nm \<Rightarrow> add_name u nm ((map u [0..<256])[255 := CHR 0x00], 255)) = Some (buf, s)
    \<and> s < length buf \<and> drop s buf = suffix_of name @ [CHR 0x00]"
proof -
  let ?b = "(map u [0..<256])[255 := CHR 0x00]"
  have len: "length ?b = Suc 255" by (simp only: length_list_update length_map length_upt)
  have "drop 255 ?b = ?b ! 255 # drop (Suc 255) ?b" by (rule Cons_nth_drop_Suc [symmetric]) (simp only: len)
  then have b: "255 < length ?b" "drop 255 ?b = [CHR 0x00]" using len by (simp_all add: nth_list_update_eq)
  show ?thesis
  proof (cases name)
    case None
    then show ?thesis using b by (simp add: suffix_of_def)
  next
    case (Some nm)
    then show ?thesis using add_name_front [OF b(1), of nm u] assms b(2) by (simp add: suffix_of_def)
  qed
qed

lemma unlock_path_up:
  assumes "get_node f ino = Some x" "up f x ps z" "z \<in> live f" "distinct (map fst ps)" "end \<notin> passed ps" "end = z \<or> nodeid (fn f z) = FUSE_ROOT_ID"
    "\<forall>y \<in> passed ps. 0 \<le> L y" "w = 0 \<or> w \<in> live f \<and> L w = TREELOCK_WRITE" "w \<notin> passed ps"
  shows "unlock_path ino w end (relock (lock_more (passed ps) L) f) = Some (relock (if w \<noteq> 0 then L(w := 0) else L) f)"
proof -
  define M where "M = (if w \<noteq> 0 then (lock_more (passed ps) L)(w := 0) else lock_more (passed ps) L)"
  have "unlock_path ino w end (relock (lock_more (passed ps) L) f) = unlock_loop end x (relock M f)"
    using assms(1,8,9) relock_mod [of w f "\<lambda>_. 0" "lock_more (passed ps) L"] by (auto simp: unlock_path_def relock_fnodes live_fn M_def lock_more_def)
  also have "\<dots> = Some (relock (\<lambda>y. if y \<in> passed ps then unlocked (M y) else M y) f)"
    by (rule unlock_loop_up [OF assms(2-6)])
      (use assms(7,9) in \<open>auto simp: M_def lock_more_def TREELOCK_WAIT_OFFSET_def TREELOCK_WRITE_def\<close>)
  also have "(\<lambda>y. if y \<in> passed ps then unlocked (M y) else M y) = (if w \<noteq> 0 then L(w := 0) else L)"
    using assms(7,9) by (auto simp: M_def lock_more_def fun_eq_iff)
  finally show ?thesis .
qed

text \<open>
  The second half of \<open>try_get_path\<close>, from a state with the locks \<open>L\<close>: a node \<open>w\<close> has been
  locked for writing, or \<open>w = 0\<close>.
\<close>

lemma try_rest:
  assumes inv: "nodes_inv f" "c_names f" and x: "get_node f ino = Some x" "up f x ps z" "z \<in> live f"
    and st: "stop_code nl L f z = Some err" "\<forall>y \<in> passed ps. 0 \<le> L y"
    and b: "s < length buf" "drop s buf = sfx @ [CHR 0x00]" "CHR 0x00 \<notin> set sfx" "names_length f + length sfx + 3 < 2 ^ 32"
    and w: "w = 0 \<or> nl \<and> w \<in> live f \<and> L w = TREELOCK_WRITE"
  shows "(do {
       node \<leftarrow> get_node (relock L f) ino;
       (err, end, b, f) \<leftarrow> path_loop u nl node (buf, s) (relock L f);
       if err = 0 then Some (0, Some (if c_str b \<noteq> [] then c_str b else ''/''), w, f)
       else do {
         f \<leftarrow> (if nl then unlock_path ino w end f else Some f);
         Some (err, None, 0, f) } }) =
    Some (if err = 0 then (0, Some (slashed (path_of ps @ sfx)), w, relock (if nl then lock_more (passed ps) L else L) f)
          else (err, None, 0, relock (if w \<noteq> 0 then L(w := 0) else L) f))"
proof -
  note n = nodes_okD [OF node_invD(1) [OF conjunct1 [OF inv(1)]]]
  have d: "distinct (map fst ps)" "z \<notin> passed ps" using up_distinct [OF n(6) x(2)] by simp_all
  have zl: "length nm \<le> 1" if "nname (fn f z) = Some nm" "z \<notin> named f" for nm using n(8) [OF x(3) that(2)] that(1) by (auto simp: is_root_def)
  have "length (drop s buf) + length (path_of ps) + (case nname (fn f z) of None \<Rightarrow> 0 | Some nm \<Rightarrow> length nm + 1) < 2 ^ 32"
    using path_length [OF n(6,11) x(2,3)] b(2,4) zl by (auto split: option.splits if_splits)
  from path_loop_up [OF x(2,3) st(1) d st(2) b(1) this] obtain buf' s' where pl:
    "path_loop u nl x (buf, s) (relock L f) = Some (err, z, (buf', s'), relock (if nl then lock_more (passed ps) L else L) f)"
    "err = 0 \<longrightarrow> drop s' buf' = path_of ps @ drop s buf" by blast
  show ?thesis
  proof (cases "err = 0")
    case True
    have "takeWhile (\<lambda>c. c \<noteq> CHR 0x00) ((path_of ps @ sfx) @ [CHR 0x00]) = path_of ps @ sfx"
      by (rule takeWhile_nul) (use path_no_nul [OF inv(2) x(2)] b(3) in simp)
    then have "c_str (buf', s') = path_of ps @ sfx" using pl(2) True b(2) by (simp add: c_str_def)
    then show ?thesis using True x(1) pl(1) by (auto simp: slashed_def)
  next
    case False
    have wp: "w \<notin> passed ps" using w st(2) up_named [OF x(2)] n(2) named_live by (auto simp: TREELOCK_WRITE_def)
    have un: "unlock_path ino w z (relock (lock_more (passed ps) L) f) = Some (relock (if w \<noteq> 0 then L(w := 0) else L) f)" if nl
      by (rule unlock_path_up [OF x d(1,2) _ st(2) _ wp]) (use w in auto)
    show ?thesis
    proof (cases nl)
      case True
      then show ?thesis using False x(1) pl(1) un by simp
    next
      case nl: False
      then show ?thesis using False x(1) pl(1) w by auto
    qed
  qed
qed

lemma try_read:
  assumes "nodes_inv f" "c_names f" "get_node f ino = Some x" "up f x ps z" "z \<in> live f" "stop_code nl L f z = Some err" "\<forall>y \<in> passed ps. 0 \<le> L y"
    "CHR 0x00 \<notin> set (suffix_of name)" "names_length f + length (suffix_of name) + 3 < 2 ^ 32"
  shows "try_get_path u ino name False nl (relock L f) =
    Some (if err = 0 then (0, Some (slashed (path_of ps @ suffix_of name)), 0, relock (if nl then lock_more (passed ps) L else L) f)
          else (err, None, 0, relock L f))"
proof -
  have "length (suffix_of name) + 2 < 2 ^ 32" using assms(9) by simp
  from suffix_buf [OF this, of u] obtain buf s where b: "(case name of None \<Rightarrow> Some ((map u [0..<256])[255 := CHR 0x00], 255)
      | Some nm \<Rightarrow> add_name u nm ((map u [0..<256])[255 := CHR 0x00], 255)) = Some (buf, s)"
    "s < length buf" "drop s buf = suffix_of name @ [CHR 0x00]" by blast
  note r = try_rest [OF assms(1-7) b(2,3) assms(8,9), of 0 u]
  show ?thesis unfolding try_get_path_def Let_def b(1) using r by (simp only: if_False bind.bind_lunit prod.case simp_thms)
qed

lemma try_write:
  assumes "nodes_inv f" "c_names f" "get_node f ino = Some x" "up f x ps z" "z \<in> live f" "lookup_node f ino nm = Some w" "w \<noteq> 0" "w \<in> live f" "L w = 0"
    "stop_code True (L(w := TREELOCK_WRITE)) f z = Some err" "\<forall>y \<in> passed ps. 0 \<le> L y" "w \<notin> passed ps"
    "CHR 0x00 \<notin> set nm" "names_length f + length nm + 4 < 2 ^ 32"
  shows "try_get_path u ino (Some nm) True True (relock L f) =
    Some (if err = 0 then (0, Some (path_of ps @ CHR ''/'' # nm), w, relock (lock_more (passed ps) (L(w := TREELOCK_WRITE))) f)
          else (err, None, 0, relock L f))"
proof -
  have sfx: "CHR 0x00 \<notin> set (suffix_of (Some nm))" "names_length f + length (suffix_of (Some nm)) + 3 < 2 ^ 32" using assms(13,14) by (simp_all add: suffix_of_def)
  have "length (suffix_of (Some nm)) + 2 < 2 ^ 32" using sfx(2) by simp
  from suffix_buf [OF this, of u] obtain buf s where b: "add_name u nm ((map u [0..<256])[255 := CHR 0x00], 255) = Some (buf, s)"
    "s < length buf" "drop s buf = suffix_of (Some nm) @ [CHR 0x00]" by auto
  let ?L = "L(w := TREELOCK_WRITE)"
  have nn: "\<forall>y \<in> passed ps. 0 \<le> ?L y" using assms(11,12) by auto
  have ww: "w = 0 \<or> True \<and> w \<in> live f \<and> ?L w = TREELOCK_WRITE" using assms(8) by simp
  note r = try_rest [OF assms(1-5,10) nn b(2,3) sfx ww, of u]
  have m: "mod_node w (\<lambda>nd. nd\<lparr>treelock := TREELOCK_WRITE\<rparr>) (relock L f) = Some (relock ?L f)" using relock_mod [OF assms(8), of "\<lambda>_. TREELOCK_WRITE" L] by simp
  have fw: "fnodes (relock L f) w = Some ((fn f w)\<lparr>treelock := L w\<rparr>)" using assms(8) by (simp add: relock_fnodes live_fn)
  have tl: "treelock ((fn f w)\<lparr>treelock := L w\<rparr>) = 0" using assms(9) by simp
  have bk: "?L(w := 0) = L" using assms(9) by (simp add: fun_eq_iff)
  have sl: "slashed (path_of ps @ suffix_of (Some nm)) = path_of ps @ CHR ''/'' # nm" by (simp add: slashed_def suffix_of_def)
  show ?thesis unfolding try_get_path_def Let_def option.case b(1) relock_lookup_node assms(6)
    using r m fw tl by (simp only: if_False if_True bind.bind_lunit prod.case simp_thms assms(6,7) not_False_eq_True bk sl)
qed

lemma try_busy:
  assumes "lookup_node f ino nm = Some w" "w \<in> live f" "w \<noteq> 0" "L w \<noteq> 0" "length nm + 3 < 2 ^ 32"
  shows "try_get_path u ino (Some nm) True True (relock L f) =
    Some (- EAGAIN, None, 0, relock (if 0 < L w then L(w := L w + TREELOCK_WAIT_OFFSET) else L) f)"
proof -
  have "length (suffix_of (Some nm)) + 2 < 2 ^ 32" using assms(5) by (simp add: suffix_of_def)
  from suffix_buf [OF this, of u] obtain buf s where b: "add_name u nm ((map u [0..<256])[255 := CHR 0x00], 255) = Some (buf, s)" by auto
  have fw: "fnodes (relock L f) w = Some ((fn f w)\<lparr>treelock := L w\<rparr>)" using assms(2) by (simp add: relock_fnodes live_fn)
  show ?thesis unfolding try_get_path_def Let_def option.case b relock_lookup_node
    using fw assms(1,3,4) relock_mod [OF assms(2), of "\<lambda>l. l + TREELOCK_WAIT_OFFSET" L] by simp
qed

section \<open>Requests by path\<close>

text \<open>Where a list of names leads from a directory.\<close>

fun walk :: "fuse \<Rightarrow> nat \<Rightarrow> string list \<Rightarrow> nat option" where
  "walk f dir [] = Some dir"
| "walk f dir (nm # nms) = do {
     x \<leftarrow> lookup_node f dir nm;
     if x = 0 then None else do { nd \<leftarrow> fnodes f x; walk f (nodeid nd) nms } }"

definition spell :: "string list \<Rightarrow> string" where
  "spell nms = concat (map (\<lambda>nm. CHR ''/'' # nm) nms)"

lemma walk_append: "walk f dir (nms @ [nm]) = walk f dir nms \<bind> (\<lambda>d. walk f d [nm])"
  by (induction nms arbitrary: dir) (auto split: bind_splits)

lemma spell_path: "spell (rev (map snd ps)) = path_of ps"
  by (simp add: spell_def path_of_def rev_map case_prod_unfold o_def)

lemma up_walk:
  assumes inv: "nodes_inv f" and "up f x ps z" "z \<in> live f"
  shows "x \<in> live f \<and> walk f (nodeid (fn f z)) (rev (map snd ps)) = Some (nodeid (fn f x))"
  using assms(2)
proof (induction ps arbitrary: x)
  case Nil
  then show ?case using assms(3) by simp
next
  case (Cons a ps)
  obtain nm where a: "a = (x, nm)" using Cons.prems by (cases a) auto
  have x: "x \<in> named f" "nname (fn f x) = Some nm" "up f (parent (fn f x)) ps z" using Cons.prems by (simp_all add: a)
  note IH = Cons.IH [OF x(3)]
  have "lookup_node f (nodeid (fn f (parent (fn f x)))) nm = Some x"
    by (rule lookup_kid [OF inv _ _ x(2)]) (use IH x(1) in \<open>simp_all add: kids_def\<close>)
  moreover have "x \<in> live f" "x \<noteq> 0" using x(1) named_live nodes_okD(2) [OF node_invD(1) [OF conjunct1 [OF inv]]] by metis+
  ultimately show ?case using IH by (simp add: a walk_append live_fn del: walk.simps(2)) (simp add: live_fn)
qed

lemma named_not_root:
  assumes "nodes_inv f" "x \<in> named f"
  shows "nodeid (fn f x) \<noteq> FUSE_ROOT_ID"
proof -
  note n = nodes_okD [OF node_invD(1) [OF conjunct1 [OF assms(1)]]]
  obtain r where r: "r \<in> live f" "is_root (fn f r)" using n(10) by blast
  then have "x \<noteq> r" using assms(2) by (auto simp: named_def is_root_def)
  then show ?thesis using n(4) named_live [OF assms(2)] r by (auto simp: inj_on_def is_root_def)
qed

lemma up_end: "up f x ps z \<Longrightarrow> z \<notin> named f \<Longrightarrow> up f x qs w \<Longrightarrow> w \<notin> named f \<Longrightarrow> z = w"
proof (induction ps arbitrary: x qs)
  case Nil
  then show ?case by (cases qs) auto
next
  case (Cons a ps)
  obtain b qs' where "qs = b # qs'" using Cons.prems by (cases qs; cases a) auto
  then show ?case using Cons by (cases a; cases b) auto
qed

lemma walk_up:
  assumes inv: "nodes_inv f" and "walk f FUSE_ROOT_ID nms = Some ino"
  shows "\<exists>x ps r. x \<in> live f \<and> nodeid (fn f x) = ino \<and> up f x ps r \<and> r \<notin> named f \<and> nodeid (fn f r) = FUSE_ROOT_ID
    \<and> rev (map snd ps) = nms"
  using assms(2)
proof (induction nms arbitrary: ino rule: rev_induct)
  case Nil
  obtain r where r: "r \<in> live f" "is_root (fn f r)" using nodes_okD(10) [OF node_invD(1) [OF conjunct1 [OF inv]]] by blast
  then have "up f r [] r" "r \<notin> named f" "nodeid (fn f r) = ino" "nodeid (fn f r) = FUSE_ROOT_ID" using Nil by (auto simp: is_root_def named_def)
  then show ?case using r(1) by (intro exI [of _ r] exI [of _ "[]"]) simp
next
  case (snoc nm nms)
  obtain d y where d: "walk f FUSE_ROOT_ID nms = Some d" "lookup_node f d nm = Some y" "y \<noteq> 0" "map_option nodeid (fnodes f y) = Some ino"
    using snoc.prems by (auto simp: walk_append split: bind_splits if_splits)
  obtain x ps r where x: "x \<in> live f" "nodeid (fn f x) = d" "up f x ps r" "r \<notin> named f" "nodeid (fn f r) = FUSE_ROOT_ID" "rev (map snd ps) = nms"
    using snoc.IH [OF d(1)] by blast
  have y: "y \<in> named f" "parent (fn f y) = x" "nname (fn f y) = Some nm"
    using lookup_node_inv [OF conjunct1 [OF inv] x(1), of nm] x(2) d(2,3) by auto
  have "up f y ((y, nm) # ps) r" using x(3) y named_not_root [OF inv y(1)] by simp
  moreover have "y \<in> live f" "nodeid (fn f y) = ino" using y(1) d(4) named_live by (auto simp: live_fn)
  moreover have "rev (map snd ((y, nm) # ps)) = nms @ [nm]" using x(6) by simp
  ultimately show ?case using x(4,5) by blast
qed

lemma up_walk_end:
  assumes "nodes_inv f" "up f x ps z" "x \<in> live f"
  shows "z \<in> live f"
  using assms(2,3)
proof (induction ps arbitrary: x)
  case (Cons a ps)
  then have "x \<in> named f" "up f (parent (fn f x)) ps z" by (cases a; auto)+
  moreover have "parent (fn f x) \<in> live f" using node_invD(2) [OF conjunct1 [OF assms(1)]] calculation(1) by (simp add: names_ok_def)
  ultimately show ?case using Cons.IH by blast
qed simp

lemma session_path:
  assumes "node_session f K" "0 < K ino"
  obtains x ps z where "get_node f ino = Some x" "x \<in> live f" "nodeid (fn f x) = ino" "up f x ps z" "z \<in> live f" "z \<notin> named f"
    "stop_code nl L f z = Some (if nodeid (fn f z) = FUSE_ROOT_ID then 0 else - ENOENT)"
proof -
  have inv: "nodes_inv f" "counted f K" using session_inv [OF assms(1)] by simp_all
  obtain x where x: "x \<in> live f" "nodeid (fn f x) = ino" "get_node f ino = Some x" using counted_node [OF inv assms(2)] by metis
  obtain ps z where z: "up f x ps z" "z \<in> live f" "z \<notin> named f" using up_ex [OF inv(1) x(1)] by blast
  then have "parent (fn f z) = 0" by (simp add: named_def)
  then have "stop_code nl L f z = Some (if nodeid (fn f z) = FUSE_ROOT_ID then 0 else - ENOENT)" by (simp add: stop_code_def)
  then show ?thesis using that x z by blast
qed

lemma session_unlocked: "node_session f K \<Longrightarrow> relock (\<lambda>_. 0) f = f"
  by (rule relock_same) (use session_inv nodes_okD(7) node_invD(1) in blast)

lemma session_locks:
  assumes "node_session f K" "c_names f" "names_length f + 3 < 2 ^ 32" "get_node f ino = Some x" "up f x ps z" "z \<in> live f" "nodeid (fn f z) = FUSE_ROOT_ID"
  shows "try_get_path u ino None False True f = Some (0, Some (slashed (path_of ps)), 0, relock (lock_more (passed ps) (\<lambda>_. 0)) f)"
    "unlock_path ino 0 0 (relock (lock_more (passed ps) (\<lambda>_. 0)) f) = Some f"
proof -
  have inv: "nodes_inv f" using session_inv [OF assms(1)] by simp
  note n = nodes_okD [OF node_invD(1) [OF conjunct1 [OF inv]]]
  have d: "distinct (map fst ps)" using up_distinct [OF n(6) assms(5)] by simp
  have "0 \<notin> passed ps" using up_named [OF assms(5)] n(2) named_live by blast
  then show "unlock_path ino 0 0 (relock (lock_more (passed ps) (\<lambda>_. 0)) f) = Some f"
    using unlock_path_up [OF assms(4-6) d, of 0 "\<lambda>_. 0" 0] assms(7) session_unlocked [OF assms(1)] by simp
  have st: "stop_code True (\<lambda>_. 0) f z = Some 0" using assms(7) by (simp add: stop_code_def)
  show "try_get_path u ino None False True f = Some (0, Some (slashed (path_of ps)), 0, relock (lock_more (passed ps) (\<lambda>_. 0)) f)"
    using try_read [OF inv assms(2,4-6) st, of None u] assms(3) session_unlocked [OF assms(1)] by (simp add: suffix_of_def)
qed

text \<open>
  C24. The path of a node leads to it: for a node the kernel knows, \<open>try_get_path\<close> answers a path
  whose names lead from the root to the node by \<open>lookup_node\<close>, with the path locked, and
  \<open>unlock_path\<close> then restores the state; or the node, or a directory above it, has been
  removed, and it answers \<open>ENOENT\<close> with no lock held.
\<close>

theorem path_leads_to_node:
  assumes "node_session f K" "0 < K ino" "c_names f" "names_length f + 3 < 2 ^ 32"
  shows "(\<exists>nms f'. try_get_path u ino None False True f = Some (0, Some (if nms = [] then ''/'' else spell nms), 0, f')
      \<and> walk f FUSE_ROOT_ID nms = Some ino \<and> unlock_path ino 0 0 f' = Some f)
    \<or> try_get_path u ino None False True f = Some (- ENOENT, None, 0, f) \<and> (\<forall>nms. walk f FUSE_ROOT_ID nms \<noteq> Some ino)"
proof -
  have inv: "nodes_inv f" using session_inv [OF assms(1)] by simp
  obtain x ps z where x: "get_node f ino = Some x" "x \<in> live f" "nodeid (fn f x) = ino" "up f x ps z" "z \<in> live f" "z \<notin> named f"
    "stop_code True (\<lambda>_. 0) f z = Some (if nodeid (fn f z) = FUSE_ROOT_ID then 0 else - ENOENT)" by (rule session_path [OF assms(1,2)])
  show ?thesis
  proof (cases "nodeid (fn f z) = FUSE_ROOT_ID")
    case True
    let ?nms = "rev (map snd ps)"
    have "slashed (path_of ps) = (if ?nms = [] then ''/'' else spell ?nms)" unfolding spell_path by (cases ps) (auto simp: slashed_def)
    note t = session_locks(1) [OF assms(1,3,4) x(1,4,5) True, of u, unfolded this]
    have "walk f FUSE_ROOT_ID ?nms = Some ino" using up_walk [OF inv x(4,5)] x(3) True by simp
    then show ?thesis using t session_locks(2) [OF assms(1,3,4) x(1,4,5) True] by blast
  next
    case False
    have "walk f FUSE_ROOT_ID nms \<noteq> Some ino" for nms
    proof
      assume "walk f FUSE_ROOT_ID nms = Some ino"
      from walk_up [OF inv this] obtain y qs r where y: "y \<in> live f" "nodeid (fn f y) = ino" "up f y qs r" "r \<notin> named f" "nodeid (fn f r) = FUSE_ROOT_ID"
        by blast
      have "y = x" using y(1,2) x(2,3) nodes_okD(4) [OF node_invD(1) [OF conjunct1 [OF inv]]] by (auto simp: inj_on_def)
      then show False using up_end [OF x(4,6) _ y(4)] y(3,5) False by blast
    qed
    then show ?thesis using try_read [OF inv assms(3) x(1,4,5,7), of None u] assms(4) session_unlocked [OF assms(1)] False
      by (simp add: suffix_of_def ENOENT_def)
  qed
qed

theorem path_leads_to_node_witness:
  "\<exists>f f1 x K. fuse_new_nodes 0 = Some f \<and> find_node FUSE_ROOT_ID (Some ''a'') f = Some (x, f1) \<and> node_session f1 K \<and> 0 < K (nodeid (fn f1 x))
    \<and> ((\<exists>nms f'. try_get_path (\<lambda>_. CHR ''x'') (nodeid (fn f1 x)) None False True f1 = Some (0, Some (if nms = [] then ''/'' else spell nms), 0, f')
        \<and> walk f1 FUSE_ROOT_ID nms = Some (nodeid (fn f1 x)) \<and> unlock_path (nodeid (fn f1 x)) 0 0 f' = Some f1)
      \<or> try_get_path (\<lambda>_. CHR ''x'') (nodeid (fn f1 x)) None False True f1 = Some (- ENOENT, None, 0, f1)
        \<and> (\<forall>nms. walk f1 FUSE_ROOT_ID nms \<noteq> Some (nodeid (fn f1 x))))"
proof -
  obtain f f1 x K where f: "fuse_new_nodes 0 = Some f" "find_node FUSE_ROOT_ID (Some ''a'') f = Some (x, f1)" "node_session f1 K" "0 < K (nodeid (fn f1 x))"
    "named f1 = {x}" "nname (fn f1 x) = Some ''a''" by (rule lookup_session)
  have "c_names f1" "names_length f1 + 3 < 2 ^ 32" using f(5,6) by (simp_all add: c_names_def names_length_def)
  from path_leads_to_node [OF f(3,4) this] show ?thesis using f(1-4) by blast
qed

section \<open>Readers and writers\<close>

lemma path_locked:
  assumes inv: "nodes_inv f" "c_names f" and x: "get_node f ino = Some x" "x \<in> live f" and w: "w \<in> named f" "(x, w) \<in> (parents f)\<^sup>*"
    and L: "L w < 0" "\<forall>y. y \<noteq> w \<longrightarrow> 0 \<le> L y"
    and nm: "CHR 0x00 \<notin> set (suffix_of name)" "names_length f + length (suffix_of name) + 3 < 2 ^ 32"
  shows "try_get_path u ino name False True (relock L f) = Some (- EAGAIN, None, 0, relock L f)"
proof -
  note n = nodes_okD [OF node_invD(1) [OF conjunct1 [OF inv(1)]]]
  obtain ps z where z: "up f x ps z" "z \<notin> named f" using up_ex [OF inv(1) x(2)] by blast
  have "w \<in> passed ps" by (rule up_through [OF z w])
  then obtain qs where qs: "up f x qs w" using up_part [OF z(1)] by blast
  have "nname (fn f w) \<noteq> None" using node_invD(2) [OF conjunct1 [OF inv(1)]] w(1) by (simp add: names_ok_def)
  then have st: "stop_code True L f w = Some (- EAGAIN)" using named_not_root [OF inv(1) w(1)] w(1) L(1) by (auto simp: stop_code_def named_def)
  have "\<forall>y \<in> passed qs. 0 \<le> L y" using up_distinct [OF n(6) qs] L(2) by auto
  from try_read [OF inv x(1) qs named_live [OF w(1)] st this nm] show ?thesis by (simp add: EAGAIN_def)
qed

lemma child_not_passed:
  assumes "nodes_inv f" "w \<in> kids f x" "up f x ps z"
  shows "w \<notin> passed ps"
proof
  assume "w \<in> passed ps"
  then have "(x, w) \<in> (parents f)\<^sup>*" using up_reach [OF assms(3)] by blast
  moreover have "(w, x) \<in> parents f" using assms(2) by (auto simp: kids_def parents_def)
  ultimately have "(w, w) \<in> (parents f)\<^sup>+" by (meson rtrancl_into_trancl2)
  then show False using nodes_okD(6) [OF node_invD(1) [OF conjunct1 [OF assms(1)]]] by (simp add: acyclic_def)
qed

lemma session_child:
  assumes "node_session f K" "0 < K dir" "lookup_node f dir nm = Some w" "w \<noteq> 0"
  obtains x where "get_node f dir = Some x" "x \<in> live f" "w \<in> kids f x" "w \<in> named f"
proof -
  have inv: "nodes_inv f" "counted f K" using session_inv [OF assms(1)] by simp_all
  obtain x where x: "x \<in> live f" "nodeid (fn f x) = dir" "get_node f dir = Some x" using counted_node [OF inv assms(2)] by metis
  then have "w \<in> named f" "parent (fn f w) = x" using lookup_node_inv [OF conjunct1 [OF inv(1)] x(1), of nm] assms(3,4) by auto
  then show ?thesis using that x by (simp add: kids_def)
qed

text \<open>
  C25. A writer excludes all others: while the entry \<open>nm\<close> of a directory is locked for writing (a
  removal or a rename), a request for a path through that entry has to wait and leaves no
  lock behind; unlocking restores the state.
\<close>

theorem writer_excludes:
  assumes "node_session f K" "0 < K dir" "walk f FUSE_ROOT_ID nms = Some dir" "lookup_node f dir nm = Some w" "w \<noteq> 0"
    "c_names f" "CHR 0x00 \<notin> set nm" "names_length f + length nm + 4 < 2 ^ 32"
  shows "\<exists>p f'. try_get_path u dir (Some nm) True True f = Some (0, Some (p @ CHR ''/'' # nm), w, f') \<and> unlock_path dir w 0 f' = Some f
    \<and> (\<forall>ino x. 0 < K ino \<longrightarrow> get_node f ino = Some x \<longrightarrow> (x, w) \<in> (parents f)\<^sup>* \<longrightarrow>
        try_get_path u ino None False True f' = Some (- EAGAIN, None, 0, f'))"
proof -
  have inv: "nodes_inv f" "counted f K" using session_inv [OF assms(1)] by simp_all
  note n = nodes_okD [OF node_invD(1) [OF conjunct1 [OF inv(1)]]]
  obtain x where x: "get_node f dir = Some x" "x \<in> live f" "w \<in> kids f x" "w \<in> named f" by (rule session_child [OF assms(1,2,4,5)])
  obtain y ps r where y: "y \<in> live f" "nodeid (fn f y) = dir" "up f y ps r" "r \<notin> named f" "nodeid (fn f r) = FUSE_ROOT_ID"
    using walk_up [OF inv(1) assms(3)] by blast
  have "y = x" using get_node_live [OF conjunct1 [OF inv(1)] y(1)] y(2) x(1) by simp
  then have up: "up f x ps r" using y(3) by simp
  have r: "r \<in> live f" using up_walk_end [OF inv(1) up x(2)] .
  have wp: "w \<notin> passed ps" by (rule child_not_passed [OF inv(1) x(3) up])
  have wl: "w \<in> live f" using x(4) named_live by blast
  let ?L = "(\<lambda>_. 0)(w := TREELOCK_WRITE) :: node \<Rightarrow> int"
  let ?f = "relock (lock_more (passed ps) ?L) f"
  have st: "stop_code True ?L f r = Some 0" using y(5) by (simp add: stop_code_def)
  have t: "try_get_path u dir (Some nm) True True f = Some (0, Some (path_of ps @ CHR ''/'' # nm), w, ?f)"
    using try_write [OF inv(1) assms(6) x(1) up r assms(4,5) wl _ st _ wp assms(7,8), of u] session_unlocked [OF assms(1)] by simp
  have d: "distinct (map fst ps)" using up_distinct [OF n(6) up] by simp
  have "0 \<notin> passed ps" using up_named [OF up] n(2) named_live by blast
  then have "unlock_path dir w 0 ?f = Some (relock (if w \<noteq> 0 then ?L(w := 0) else ?L) f)"
    by (intro unlock_path_up [OF x(1) up r d]) (use y(5) wl wp in auto)
  moreover have "?L(w := 0) = (\<lambda>_. 0)" by (simp add: fun_eq_iff)
  ultimately have un: "unlock_path dir w 0 ?f = Some f" using session_unlocked [OF assms(1)] assms(5) by simp
  have ex: "try_get_path u ino None False True ?f = Some (- EAGAIN, None, 0, ?f)" if "0 < K ino" "get_node f ino = Some x'" "(x', w) \<in> (parents f)\<^sup>*" for ino x'
  proof -
    have "x' \<in> live f" using counted_node [OF inv that(1)] that(2) by (metis option.inject)
    then show ?thesis by (intro path_locked [OF inv(1) assms(6) that(2) _ x(4) that(3)])
      (use wp assms(8) in \<open>auto simp: lock_more_def TREELOCK_WRITE_def suffix_of_def\<close>)
  qed
  show ?thesis using t un ex by blast
qed

theorem writer_excludes_witness:
  "\<exists>f f1 w K. fuse_new_nodes 0 = Some f \<and> find_node FUSE_ROOT_ID (Some ''a'') f = Some (w, f1) \<and> node_session f1 K \<and> 0 < K (nodeid (fn f1 w))
    \<and> (\<exists>p f'. try_get_path (\<lambda>_. CHR ''x'') FUSE_ROOT_ID (Some ''a'') True True f1 = Some (0, Some (p @ CHR ''/'' # ''a''), w, f') \<and> unlock_path FUSE_ROOT_ID w 0 f' = Some f1
      \<and> (\<forall>ino x. 0 < K ino \<longrightarrow> get_node f1 ino = Some x \<longrightarrow> (x, w) \<in> (parents f1)\<^sup>* \<longrightarrow>
          try_get_path (\<lambda>_. CHR ''x'') ino None False True f' = Some (- EAGAIN, None, 0, f')))"
proof -
  obtain f f1 w K where f: "fuse_new_nodes 0 = Some f" "find_node FUSE_ROOT_ID (Some ''a'') f = Some (w, f1)" "node_session f1 K" "0 < K FUSE_ROOT_ID"
    "0 < K (nodeid (fn f1 w))" "named f1 = {w}" "nname (fn f1 w) = Some ''a''" "lookup_node f1 FUSE_ROOT_ID ''a'' = Some w" by (rule lookup_session)
  have "w \<in> live f1" using f(6) named_live by blast
  then have w: "w \<noteq> 0" using nodes_okD(2) [OF node_invD(1) [OF conjunct1 [OF conjunct1 [OF session_inv [OF f(3)]]]]] by metis
  have c: "c_names f1" "CHR 0x00 \<notin> set ''a''" "names_length f1 + length ''a'' + 4 < 2 ^ 32" using f(6,7) by (simp_all add: c_names_def names_length_def)
  show ?thesis using f(1-3,5) writer_excludes [OF f(3,4) walk.simps(1) f(8) w c] by blast
qed

text \<open>
  C26. Writers are not starved: where a path through the entry is locked, a writer of the entry has to
  wait, and from then on new requests through the entry wait as well; when the first request
  unlocks its path, no lock and no mark is left, so that the writer can go on.
\<close>

theorem writer_waits:
  assumes "node_session f K" "0 < K dir" "0 < K ino" "walk f FUSE_ROOT_ID nms = Some ino" "lookup_node f dir nm = Some w" "w \<noteq> 0"
    "get_node f ino = Some x" "(x, w) \<in> (parents f)\<^sup>*" "c_names f" "names_length f + length nm + 4 < 2 ^ 32"
  shows "\<exists>p f1 f2. try_get_path u ino None False True f = Some (0, Some p, 0, f1)
    \<and> try_get_path u dir (Some nm) True True f1 = Some (- EAGAIN, None, 0, f2)
    \<and> (\<forall>ino' y. 0 < K ino' \<longrightarrow> get_node f ino' = Some y \<longrightarrow> (y, w) \<in> (parents f)\<^sup>* \<longrightarrow>
        try_get_path u ino' None False True f2 = Some (- EAGAIN, None, 0, f2))
    \<and> unlock_path ino 0 0 f2 = Some f"
proof -
  have inv: "nodes_inv f" "counted f K" using session_inv [OF assms(1)] by simp_all
  note n = nodes_okD [OF node_invD(1) [OF conjunct1 [OF inv(1)]]]
  have wn: "w \<in> named f" by (rule session_child [OF assms(1,2,5,6)]) simp
  have wl: "w \<in> live f" using wn named_live by blast
  obtain y ps r where y: "y \<in> live f" "nodeid (fn f y) = ino" "up f y ps r" "r \<notin> named f" "nodeid (fn f r) = FUSE_ROOT_ID"
    using walk_up [OF inv(1) assms(4)] by blast
  have "y = x" using get_node_live [OF conjunct1 [OF inv(1)] y(1)] y(2) assms(7) by simp
  then have up: "up f x ps r" and xl: "x \<in> live f" using y(1,3) by simp_all
  have r: "r \<in> live f" using up_walk_end [OF inv(1) up xl] .
  have wp: "w \<in> passed ps" by (rule up_through [OF up y(4) wn assms(8)])
  have nl: "names_length f + 3 < 2 ^ 32" "length nm + 3 < 2 ^ 32" using assms(10) by simp_all
  let ?L = "lock_more (passed ps) (\<lambda>_. 0)"
  define M where "M = ?L(w := 1 + TREELOCK_WAIT_OFFSET)"
  have t: "try_get_path u ino None False True f = Some (0, Some (slashed (path_of ps)), 0, relock ?L f)"
    by (rule session_locks(1) [OF assms(1,9) nl(1) assms(7) up r y(5)])
  have b: "try_get_path u dir (Some nm) True True (relock ?L f) = Some (- EAGAIN, None, 0, relock M f)"
    using try_busy [OF assms(5) wl assms(6) _ nl(2), of ?L u] wp by (simp add: M_def lock_more_def)
  have ex: "try_get_path u ino' None False True (relock M f) = Some (- EAGAIN, None, 0, relock M f)"
    if "0 < K ino'" "get_node f ino' = Some y'" "(y', w) \<in> (parents f)\<^sup>*" for ino' y'
  proof -
    have "y' \<in> live f" using counted_node [OF inv that(1)] that(2) by (metis option.inject)
    then show ?thesis by (intro path_locked [OF inv(1) assms(9) that(2) _ wn that(3)])
      (use nl(1) in \<open>auto simp: M_def lock_more_def TREELOCK_WAIT_OFFSET_def suffix_of_def\<close>)
  qed
  have d: "distinct (map fst ps)" "0 \<notin> passed ps" using up_distinct [OF n(6) up] up_named [OF up] n(2) named_live by blast+
  have "unlock_loop 0 x (relock M f) = Some (relock (\<lambda>y. if y \<in> passed ps then unlocked (M y) else M y) f)"
    by (rule unlock_loop_up [OF up r d]) (use y(5) in \<open>auto simp: M_def lock_more_def TREELOCK_WAIT_OFFSET_def TREELOCK_WRITE_def\<close>)
  moreover have "(\<lambda>y. if y \<in> passed ps then unlocked (M y) else M y) = (\<lambda>_. 0)"
    using wp by (auto simp: M_def lock_more_def unlocked_def TREELOCK_WAIT_OFFSET_def fun_eq_iff)
  ultimately have "unlock_path ino 0 0 (relock M f) = Some f" using assms(7) session_unlocked [OF assms(1)] by (simp add: unlock_path_def)
  then show ?thesis using t b ex by blast
qed

theorem writer_waits_witness:
  "\<exists>f f1 w K p f2 f3. fuse_new_nodes 0 = Some f \<and> find_node FUSE_ROOT_ID (Some ''a'') f = Some (w, f1) \<and> node_session f1 K
    \<and> try_get_path (\<lambda>_. CHR ''x'') (nodeid (fn f1 w)) None False True f1 = Some (0, Some p, 0, f2)
    \<and> try_get_path (\<lambda>_. CHR ''x'') FUSE_ROOT_ID (Some ''a'') True True f2 = Some (- EAGAIN, None, 0, f3)
    \<and> unlock_path (nodeid (fn f1 w)) 0 0 f3 = Some f1"
proof -
  obtain f f1 w K where f: "fuse_new_nodes 0 = Some f" "find_node FUSE_ROOT_ID (Some ''a'') f = Some (w, f1)" "node_session f1 K" "0 < K FUSE_ROOT_ID"
    "0 < K (nodeid (fn f1 w))" "named f1 = {w}" "nname (fn f1 w) = Some ''a''" "lookup_node f1 FUSE_ROOT_ID ''a'' = Some w" by (rule lookup_session)
  have wl: "w \<in> live f1" using f(6) named_live by blast
  note inv = conjunct1 [OF session_inv [OF f(3)]]
  have w: "w \<noteq> 0" using wl nodes_okD(2) [OF node_invD(1) [OF conjunct1 [OF inv]]] by metis
  have c: "c_names f1" "names_length f1 + length ''a'' + 4 < 2 ^ 32" using f(6,7) by (simp_all add: c_names_def names_length_def)
  have g: "get_node f1 (nodeid (fn f1 w)) = Some w" by (rule get_node_live [OF conjunct1 [OF inv] wl])
  have wk: "walk f1 FUSE_ROOT_ID [''a''] = Some (nodeid (fn f1 w))" using f(8) w wl by (simp add: live_fn)
  show ?thesis using f(1-3) writer_waits [OF f(3,4,5) wk f(8) w g _ c] by blast
qed

end
