(* ===== verification/Fuse_Lib.thy ===== *)
theory Fuse_Lib
  imports Node_Paths Cyc_Prelude Complex_Main
begin

text \<open>
  The requests of the kernel, as libfuse answers them (\<open>lib/fuse.c\<close>, the functions
  \<open>fuse_lib_*\<close>): each turns the identifiers of the request into locked paths, calls an
  operation of the file system with them, brings the nodes up to date and unlocks the
  paths. The operations are a parameter, a record of functions on a world \<open>'w\<close>; one that
  a file system does not have is \<open>None\<close>. A reply is a value; \<open>gone\<close> says that the kernel
  has dropped the request meanwhile (\<open>fuse_reply_*\<close> answered \<open>ENOENT\<close>). Waiting for a
  path is \<open>None\<close>, as there is no other thread. \<open>u\<close> is the content of uninitialised
  memory, \<open>now\<close> the time. Timeouts (\<open>double\<close>) are real numbers, a time of a file is its
  seconds and nanoseconds. Interrupts, debug output and the cache of attributes
  (\<open>auto_cache\<close>) are left out. \<open>open_count\<close> is a function on nodes beside the store of nodes;
  addresses are not used again, so that it is 0 for a new node.
\<close>

section \<open>Data\<close>

record lstat =
  st_ino :: nat
  st_mode :: int
  st_nlink :: nat
  st_uid :: nat
  st_gid :: nat
  st_rdev :: nat
  st_size :: int
  st_blksize :: nat
  st_blocks :: int
  st_atime :: "int \<times> nat"
  st_mtime :: "int \<times> nat"
  st_ctime :: "int \<times> nat"

record finfo =
  fi_flags :: int
  fi_fh :: nat
  fi_direct_io :: bool
  fi_keep_cache :: bool

record 'w fs_op =
  op_getattr :: "(string option \<Rightarrow> finfo option \<Rightarrow> 'w \<Rightarrow> int \<times> lstat \<times> 'w) option"
  op_readlink :: "(string \<Rightarrow> 'w \<Rightarrow> int \<times> string \<times> 'w) option"
  op_mknod :: "(string \<Rightarrow> int \<Rightarrow> nat \<Rightarrow> 'w \<Rightarrow> int \<times> 'w) option"
  op_mkdir :: "(string \<Rightarrow> int \<Rightarrow> 'w \<Rightarrow> int \<times> 'w) option"
  op_unlink :: "(string \<Rightarrow> 'w \<Rightarrow> int \<times> 'w) option"
  op_rmdir :: "(string \<Rightarrow> 'w \<Rightarrow> int \<times> 'w) option"
  op_symlink :: "(string \<Rightarrow> string \<Rightarrow> 'w \<Rightarrow> int \<times> 'w) option"
  op_rename :: "(string \<Rightarrow> string \<Rightarrow> nat \<Rightarrow> 'w \<Rightarrow> int \<times> 'w) option"
  op_link :: "(string \<Rightarrow> string \<Rightarrow> 'w \<Rightarrow> int \<times> 'w) option"
  op_open :: "(string \<Rightarrow> finfo \<Rightarrow> 'w \<Rightarrow> int \<times> finfo \<times> 'w) option"
  op_release :: "(string option \<Rightarrow> finfo \<Rightarrow> 'w \<Rightarrow> int \<times> 'w) option"
  op_access :: "(string \<Rightarrow> int \<Rightarrow> 'w \<Rightarrow> int \<times> 'w) option"
  op_create :: "(string \<Rightarrow> int \<Rightarrow> finfo \<Rightarrow> 'w \<Rightarrow> int \<times> finfo \<times> 'w) option"

record fuse_config =
  c_set_gid :: bool
  c_gid :: nat
  c_set_uid :: bool
  c_uid :: nat
  c_set_mode :: bool
  c_umask :: int
  c_entry_timeout :: real
  c_negative_timeout :: real
  c_attr_timeout :: real
  c_hard_remove :: bool
  c_use_ino :: bool
  c_readdir_ino :: bool
  c_direct_io :: bool
  c_kernel_cache :: bool
  c_nullpath_ok :: bool

record entry =
  e_ino :: nat
  e_generation :: nat
  e_attr :: lstat
  e_attr_timeout :: real
  e_entry_timeout :: real

datatype reply = Reply_none | Reply_err int | Reply_entry entry | Reply_attr lstat real | Reply_readlink string
  | Reply_open finfo | Reply_create entry finfo | Reply_buf bytes

record flib =
  nodes :: fuse
  open_count :: "node \<Rightarrow> int"
  hidectr :: nat

definition ENOSYS :: int where
  "ENOSYS = 38"

definition ESTALE :: int where
  "ESTALE = 116"

definition EIO :: int where
  "EIO = 5"

definition zero_stat :: lstat where
  "zero_stat = \<lparr>st_ino = 0, st_mode = 0, st_nlink = 0, st_uid = 0, st_gid = 0, st_rdev = 0, st_size = 0, st_blksize = 0, st_blocks = 0,
     st_atime = (0, 0), st_mtime = (0, 0), st_ctime = (0, 0)\<rparr>"

definition zero_entry :: entry where
  "zero_entry = \<lparr>e_ino = 0, e_generation = 0, e_attr = zero_stat, e_attr_timeout = 0, e_entry_timeout = 0\<rparr>"

definition S_ISREG :: "int \<Rightarrow> bool" where
  "S_ISREG mode \<longleftrightarrow> and mode 0xF000 = 0x8000"

section \<open>Operations of the file system\<close>

definition fuse_fs_getattr :: "'w fs_op \<Rightarrow> string option \<Rightarrow> finfo option \<Rightarrow> 'w \<Rightarrow> int \<times> lstat \<times> 'w" where
  "fuse_fs_getattr fs path fi w = (case op_getattr fs of Some g \<Rightarrow> g path fi w | None \<Rightarrow> (- ENOSYS, zero_stat, w))"

definition fuse_fs_rename :: "'w fs_op \<Rightarrow> string \<Rightarrow> string \<Rightarrow> nat \<Rightarrow> 'w \<Rightarrow> int \<times> 'w" where
  "fuse_fs_rename fs oldpath newpath flags w = (case op_rename fs of Some g \<Rightarrow> g oldpath newpath flags w | None \<Rightarrow> (- ENOSYS, w))"

definition fuse_fs_unlink :: "'w fs_op \<Rightarrow> string \<Rightarrow> 'w \<Rightarrow> int \<times> 'w" where
  "fuse_fs_unlink fs path w = (case op_unlink fs of Some g \<Rightarrow> g path w | None \<Rightarrow> (- ENOSYS, w))"

definition fuse_fs_rmdir :: "'w fs_op \<Rightarrow> string \<Rightarrow> 'w \<Rightarrow> int \<times> 'w" where
  "fuse_fs_rmdir fs path w = (case op_rmdir fs of Some g \<Rightarrow> g path w | None \<Rightarrow> (- ENOSYS, w))"

definition fuse_fs_symlink :: "'w fs_op \<Rightarrow> string \<Rightarrow> string \<Rightarrow> 'w \<Rightarrow> int \<times> 'w" where
  "fuse_fs_symlink fs linkname path w = (case op_symlink fs of Some g \<Rightarrow> g linkname path w | None \<Rightarrow> (- ENOSYS, w))"

definition fuse_fs_link :: "'w fs_op \<Rightarrow> string \<Rightarrow> string \<Rightarrow> 'w \<Rightarrow> int \<times> 'w" where
  "fuse_fs_link fs oldpath newpath w = (case op_link fs of Some g \<Rightarrow> g oldpath newpath w | None \<Rightarrow> (- ENOSYS, w))"

definition fuse_fs_release :: "'w fs_op \<Rightarrow> string option \<Rightarrow> finfo \<Rightarrow> 'w \<Rightarrow> int \<times> 'w" where
  "fuse_fs_release fs path fi w = (case op_release fs of Some g \<Rightarrow> g path fi w | None \<Rightarrow> (0, w))"

definition fuse_fs_open :: "'w fs_op \<Rightarrow> string \<Rightarrow> finfo \<Rightarrow> 'w \<Rightarrow> int \<times> finfo \<times> 'w" where
  "fuse_fs_open fs path fi w = (case op_open fs of Some g \<Rightarrow> g path fi w | None \<Rightarrow> (0, fi, w))"

definition fuse_fs_create :: "'w fs_op \<Rightarrow> string \<Rightarrow> int \<Rightarrow> finfo \<Rightarrow> 'w \<Rightarrow> int \<times> finfo \<times> 'w" where
  "fuse_fs_create fs path mode fi w = (case op_create fs of Some g \<Rightarrow> g path mode fi w | None \<Rightarrow> (- ENOSYS, fi, w))"

definition fuse_fs_access :: "'w fs_op \<Rightarrow> string \<Rightarrow> int \<Rightarrow> 'w \<Rightarrow> int \<times> 'w" where
  "fuse_fs_access fs path msk w = (case op_access fs of Some g \<Rightarrow> g path msk w | None \<Rightarrow> (- ENOSYS, w))"

definition fuse_fs_readlink :: "'w fs_op \<Rightarrow> string \<Rightarrow> 'w \<Rightarrow> int \<times> string \<times> 'w" where
  "fuse_fs_readlink fs path w = (case op_readlink fs of Some g \<Rightarrow> g path w | None \<Rightarrow> (- ENOSYS, [], w))"

definition fuse_fs_mknod :: "'w fs_op \<Rightarrow> string \<Rightarrow> int \<Rightarrow> nat \<Rightarrow> 'w \<Rightarrow> int \<times> 'w" where
  "fuse_fs_mknod fs path mode rdev w = (case op_mknod fs of Some g \<Rightarrow> g path mode rdev w | None \<Rightarrow> (- ENOSYS, w))"

definition fuse_fs_mkdir :: "'w fs_op \<Rightarrow> string \<Rightarrow> int \<Rightarrow> 'w \<Rightarrow> int \<times> 'w" where
  "fuse_fs_mkdir fs path mode w = (case op_mkdir fs of Some g \<Rightarrow> g path mode w | None \<Rightarrow> (- ENOSYS, w))"

section \<open>Paths of requests\<close>

definition get_path_common :: "(nat \<Rightarrow> char) \<Rightarrow> nat \<Rightarrow> string option \<Rightarrow> bool \<Rightarrow> fuse \<Rightarrow> (int \<times> string option \<times> node \<times> fuse) option" where
  "get_path_common u ino name want f = do {
     (err, path, wnode, f) \<leftarrow> try_get_path u ino name want True f;
     if err = - EAGAIN then None else Some (err, path, wnode, f) }"

definition get_path_nullok :: "(nat \<Rightarrow> char) \<Rightarrow> fuse_config \<Rightarrow> nat \<Rightarrow> fuse \<Rightarrow> (int \<times> string option \<times> fuse) option" where
  "get_path_nullok u cf ino f =
     (if c_nullpath_ok cf then Some (0, None, f)
      else do {
        (err, path, wnode, f) \<leftarrow> get_path_common u ino None False f;
        Some (if err = - ENOENT then 0 else err, path, f) })"

definition try_get_path2 ::
  "(nat \<Rightarrow> char) \<Rightarrow> nat \<Rightarrow> string option \<Rightarrow> nat \<Rightarrow> string option \<Rightarrow> bool \<Rightarrow> bool \<Rightarrow> fuse
     \<Rightarrow> (int \<times> string option \<times> string option \<times> node \<times> node \<times> fuse) option" where
  "try_get_path2 u ino1 name1 ino2 name2 want1 want2 f = do {
     (err, path1, wnode1, f) \<leftarrow> try_get_path u ino1 name1 want1 True f;
     if err = 0 then do {
       (err, path2, wnode2, f) \<leftarrow> try_get_path u ino2 name2 want2 True f;
       if err \<noteq> 0 then do {
         f \<leftarrow> unlock_path ino1 wnode1 0 f;
         Some (err, None, None, 0, 0, f) }
       else Some (0, path1, path2, wnode1, wnode2, f) }
     else Some (err, None, None, 0, 0, f) }"

definition get_path2 ::
  "(nat \<Rightarrow> char) \<Rightarrow> nat \<Rightarrow> string option \<Rightarrow> nat \<Rightarrow> string option \<Rightarrow> bool \<Rightarrow> bool \<Rightarrow> fuse
     \<Rightarrow> (int \<times> string option \<times> string option \<times> node \<times> node \<times> fuse) option" where
  "get_path2 u ino1 name1 ino2 name2 want1 want2 f = do {
     (err, r) \<leftarrow> try_get_path2 u ino1 name1 ino2 name2 want1 want2 f;
     if err = - EAGAIN then None else Some (err, r) }"

definition free_path_wrlock :: "nat \<Rightarrow> node \<Rightarrow> fuse \<Rightarrow> fuse option" where
  "free_path_wrlock ino wnode f = unlock_path ino wnode 0 f"

definition free_path :: "nat \<Rightarrow> string option \<Rightarrow> fuse \<Rightarrow> fuse option" where
  "free_path ino path f = (case path of None \<Rightarrow> Some f | Some p \<Rightarrow> free_path_wrlock ino 0 f)"

definition free_path2 :: "nat \<Rightarrow> nat \<Rightarrow> node \<Rightarrow> node \<Rightarrow> fuse \<Rightarrow> fuse option" where
  "free_path2 ino1 ino2 wnode1 wnode2 f = do { f \<leftarrow> unlock_path ino1 wnode1 0 f; unlock_path ino2 wnode2 0 f }"

section \<open>Hiding open files\<close>

definition is_open :: "nat \<Rightarrow> string \<Rightarrow> flib \<Rightarrow> bool option" where
  "is_open dir name l = do { x \<leftarrow> lookup_node (nodes l) dir name; Some (x \<noteq> 0 \<and> open_count l x > 0) }"

definition hex_digit :: "nat \<Rightarrow> char" where
  "hex_digit d = ''0123456789abcdef'' ! d"

text \<open>\<open>%08x\<close>\<close>

definition hex8 :: "nat \<Rightarrow> string" where
  "hex8 n = map (\<lambda>i. hex_digit (n div 16 ^ (7 - i) mod 16)) [0..<8]"

definition fuse_hidden :: "nat \<Rightarrow> nat \<Rightarrow> string" where
  "fuse_hidden ino c = ''.fuse_hidden'' @ hex8 (ino mod 2 ^ 32) @ hex8 c"

partial_function (option) hidden_loop :: "nat \<Rightarrow> nat \<Rightarrow> flib \<Rightarrow> (string \<times> flib) option" where
  "hidden_loop dir ino l = do {
     let c = (hidectr l + 1) mod 2 ^ 32;
     let l = l\<lparr>hidectr := c\<rparr>;
     x \<leftarrow> lookup_node (nodes l) dir (fuse_hidden ino c);
     if x \<noteq> 0 then hidden_loop dir ino l else Some (fuse_hidden ino c, l) }"

fun hidden_name :: "(nat \<Rightarrow> char) \<Rightarrow> 'w fs_op \<Rightarrow> nat \<Rightarrow> nat \<Rightarrow> string \<Rightarrow> flib \<Rightarrow> 'w \<Rightarrow> (string option \<times> string \<times> flib \<times> 'w) option" where
  "hidden_name u fs 0 dir oldname l w = Some (None, [], l, w)"
| "hidden_name u fs (Suc failctr) dir oldname l w = do {
     x \<leftarrow> lookup_node (nodes l) dir oldname;
     if x = 0 then Some (None, [], l, w)
     else do {
       nd \<leftarrow> fnodes (nodes l) x;
       (newname, l) \<leftarrow> hidden_loop dir (nodeid nd) l;
       (res, newpath, wnode, f) \<leftarrow> try_get_path u dir (Some newname) False False (nodes l);
       let l = l\<lparr>nodes := f\<rparr>;
       if res \<noteq> 0 then Some (newpath, newname, l, w)
       else do {
         p \<leftarrow> newpath;
         let (res, st, w) = fuse_fs_getattr fs (Some p) None w;
         if res = - ENOENT then Some (Some p, newname, l, w)
         else if res = 0 then hidden_name u fs failctr dir oldname l w
         else Some (None, newname, l, w) } } }"

definition hide_node :: "(nat \<Rightarrow> char) \<Rightarrow> 'w fs_op \<Rightarrow> string \<Rightarrow> nat \<Rightarrow> string \<Rightarrow> flib \<Rightarrow> 'w \<Rightarrow> (int \<times> flib \<times> 'w) option" where
  "hide_node u fs oldpath dir oldname l w = do {
     (newpath, newname, l, w) \<leftarrow> hidden_name u fs 10 dir oldname l w;
     case newpath of
       None \<Rightarrow> Some (- EBUSY, l, w)
     | Some p \<Rightarrow>
         (let (err, w) = fuse_fs_rename fs oldpath p 0 w
          in if err = 0 then do {
               (err, f) \<leftarrow> rename_node dir oldname dir newname True (nodes l);
               Some (err, l\<lparr>nodes := f\<rparr>, w) }
             else Some (err, l, w)) }"

section \<open>Replies and lookups\<close>

definition set_stat :: "fuse_config \<Rightarrow> nat \<Rightarrow> lstat \<Rightarrow> lstat" where
  "set_stat cf ino st =
     (let st = (if \<not> c_use_ino cf then st\<lparr>st_ino := ino\<rparr> else st);
          st = (if c_set_mode cf then st\<lparr>st_mode := or (and (st_mode st) 0xF000) (and 0x1FF (not (c_umask cf)))\<rparr> else st);
          st = (if c_set_uid cf then st\<lparr>st_uid := c_uid cf\<rparr> else st)
      in if c_set_gid cf then st\<lparr>st_gid := c_gid cf\<rparr> else st)"

definition do_lookup :: "fuse_config \<Rightarrow> nat \<Rightarrow> string option \<Rightarrow> entry \<Rightarrow> flib \<Rightarrow> (entry \<times> flib) option" where
  "do_lookup cf ino name e l = do {
     (x, f) \<leftarrow> find_node ino name (nodes l);
     nd \<leftarrow> fnodes f x;
     let e = e\<lparr>e_ino := nodeid nd, e_generation := ngeneration nd, e_entry_timeout := c_entry_timeout cf, e_attr_timeout := c_attr_timeout cf\<rparr>;
     Some (e\<lparr>e_attr := set_stat cf (e_ino e) (e_attr e)\<rparr>, l\<lparr>nodes := f\<rparr>) }"

definition lookup_path ::
  "'w fs_op \<Rightarrow> fuse_config \<Rightarrow> nat \<Rightarrow> string option \<Rightarrow> string \<Rightarrow> finfo option \<Rightarrow> flib \<Rightarrow> 'w \<Rightarrow> (int \<times> entry \<times> flib \<times> 'w) option" where
  "lookup_path fs cf ino name path fi l w =
     (let (res, st, w) = fuse_fs_getattr fs (Some path) fi w;
          e = zero_entry\<lparr>e_attr := st\<rparr>
      in if res = 0 then do { (e, l) \<leftarrow> do_lookup cf ino name e l; Some (0, e, l, w) }
         else Some (res, e, l, w))"

definition lib_forget :: "int \<Rightarrow> nat \<Rightarrow> nat \<Rightarrow> flib \<Rightarrow> flib option" where
  "lib_forget now ino n l = do { f \<leftarrow> forget_node now ino n (nodes l); Some (l\<lparr>nodes := f\<rparr>) }"

definition reply_entry :: "bool \<Rightarrow> int \<Rightarrow> entry \<Rightarrow> int \<Rightarrow> flib \<Rightarrow> (reply \<times> flib) option" where
  "reply_entry gone now e err l =
     (if err = 0 then do {
        l \<leftarrow> (if gone \<and> e_ino e \<noteq> 0 then lib_forget now (e_ino e) 1 l else Some l);
        Some (Reply_entry e, l) }
      else Some (Reply_err (- err), l))"

definition free_path_lib :: "nat \<Rightarrow> string option \<Rightarrow> flib \<Rightarrow> flib option" where
  "free_path_lib ino path l = do { f \<leftarrow> free_path ino path (nodes l); Some (l\<lparr>nodes := f\<rparr>) }"

text \<open>
  \<open>fuse_lib_lookup\<close> from \<open>get_path_name\<close> on; \<open>dot\<close> is the node whose count a lookup of \<open>.\<close>
  has taken, or 0.
\<close>

definition lookup_rest ::
  "(nat \<Rightarrow> char) \<Rightarrow> 'w fs_op \<Rightarrow> fuse_config \<Rightarrow> bool \<Rightarrow> int \<Rightarrow> nat \<Rightarrow> string option \<Rightarrow> node \<Rightarrow> flib \<Rightarrow> 'w \<Rightarrow> (reply \<times> flib \<times> 'w) option" where
  "lookup_rest u fs cf gone now par name dot l w = do {
     (err, path, wnode, f) \<leftarrow> get_path_common u par name False (nodes l);
     let l = l\<lparr>nodes := f\<rparr>;
     (err, e, l, w) \<leftarrow>
       (if err = 0 then do {
          p \<leftarrow> path;
          (err, e, l, w) \<leftarrow> lookup_path fs cf par name p None l w;
          let (err, e) = (if err = - ENOENT \<and> c_negative_timeout cf \<noteq> 0
                          then (0, e\<lparr>e_ino := 0, e_entry_timeout := c_negative_timeout cf\<rparr>) else (err, e));
          l \<leftarrow> free_path_lib par path l;
          Some (err, e, l, w) }
        else Some (err, zero_entry, l, w));
     l \<leftarrow> (if dot \<noteq> 0 then do { f \<leftarrow> unref_node dot (nodes l); Some (l\<lparr>nodes := f\<rparr>) } else Some l);
     (r, l) \<leftarrow> reply_entry gone now e err l;
     Some (r, l, w) }"

definition fuse_lib_lookup ::
  "(nat \<Rightarrow> char) \<Rightarrow> 'w fs_op \<Rightarrow> fuse_config \<Rightarrow> bool \<Rightarrow> int \<Rightarrow> nat \<Rightarrow> string \<Rightarrow> flib \<Rightarrow> 'w \<Rightarrow> (reply \<times> flib \<times> 'w) option" where
  "fuse_lib_lookup u fs cf gone now par name l w =
     (if name = ''.'' then do {
        dot \<leftarrow> get_node_nocheck (nodes l) par;
        if dot = 0 then Some (Reply_err ESTALE, l, w)
        else do {
          f \<leftarrow> inc_refctr dot (nodes l);
          lookup_rest u fs cf gone now par None dot (l\<lparr>nodes := f\<rparr>) w } }
      else if name = ''..'' then do {
        x \<leftarrow> get_node (nodes l) par;
        nd \<leftarrow> fnodes (nodes l) x;
        p \<leftarrow> fnodes (nodes l) (parent nd);
        lookup_rest u fs cf gone now (nodeid p) None 0 l w }
      else lookup_rest u fs cf gone now par (Some name) 0 l w)"

section \<open>Requests\<close>

definition fuse_lib_forget :: "int \<Rightarrow> nat \<Rightarrow> nat \<Rightarrow> flib \<Rightarrow> (reply \<times> flib) option" where
  "fuse_lib_forget now ino n l = do { l \<leftarrow> lib_forget now ino n l; Some (Reply_none, l) }"

fun forget_multi :: "int \<Rightarrow> (nat \<times> nat) list \<Rightarrow> flib \<Rightarrow> flib option" where
  "forget_multi now [] l = Some l"
| "forget_multi now ((ino, n) # forgets) l = do { l \<leftarrow> lib_forget now ino n l; forget_multi now forgets l }"

definition fuse_lib_forget_multi :: "int \<Rightarrow> (nat \<times> nat) list \<Rightarrow> flib \<Rightarrow> (reply \<times> flib) option" where
  "fuse_lib_forget_multi now forgets l = do { l \<leftarrow> forget_multi now forgets l; Some (Reply_none, l) }"

definition fuse_lib_getattr ::
  "(nat \<Rightarrow> char) \<Rightarrow> 'w fs_op \<Rightarrow> fuse_config \<Rightarrow> nat \<Rightarrow> finfo option \<Rightarrow> flib \<Rightarrow> 'w \<Rightarrow> (reply \<times> flib \<times> 'w) option" where
  "fuse_lib_getattr u fs cf ino fi l w = do {
     (err, path, f) \<leftarrow>
       (if fi \<noteq> None then get_path_nullok u cf ino (nodes l)
        else do { (err, path, wnode, f) \<leftarrow> get_path_common u ino None False (nodes l); Some (err, path, f) });
     let l = l\<lparr>nodes := f\<rparr>;
     (err, st, l, w) \<leftarrow>
       (if err = 0 then do {
          let (err, st, w) = fuse_fs_getattr fs path fi w;
          l \<leftarrow> free_path_lib ino path l;
          Some (err, st, l, w) }
        else Some (err, zero_stat, l, w));
     if err = 0 then do {
       x \<leftarrow> get_node (nodes l) ino;
       nd \<leftarrow> fnodes (nodes l) x;
       let st = (if is_hidden nd \<and> st_nlink st > 0 then st\<lparr>st_nlink := st_nlink st - 1\<rparr> else st);
       Some (Reply_attr (set_stat cf ino st) (c_attr_timeout cf), l, w) }
     else Some (Reply_err (- err), l, w) }"

definition fuse_lib_access :: "(nat \<Rightarrow> char) \<Rightarrow> 'w fs_op \<Rightarrow> nat \<Rightarrow> int \<Rightarrow> flib \<Rightarrow> 'w \<Rightarrow> (reply \<times> flib \<times> 'w) option" where
  "fuse_lib_access u fs ino msk l w = do {
     (err, path, wnode, f) \<leftarrow> get_path_common u ino None False (nodes l);
     let l = l\<lparr>nodes := f\<rparr>;
     (err, l, w) \<leftarrow>
       (if err = 0 then do {
          p \<leftarrow> path;
          let (err, w) = fuse_fs_access fs p msk w;
          l \<leftarrow> free_path_lib ino path l;
          Some (err, l, w) }
        else Some (err, l, w));
     Some (Reply_err (- err), l, w) }"

text \<open>\<open>linkname\<close> holds 4096 characters and is terminated at its end at the latest.\<close>

definition fuse_lib_readlink :: "(nat \<Rightarrow> char) \<Rightarrow> 'w fs_op \<Rightarrow> nat \<Rightarrow> flib \<Rightarrow> 'w \<Rightarrow> (reply \<times> flib \<times> 'w) option" where
  "fuse_lib_readlink u fs ino l w = do {
     (err, path, wnode, f) \<leftarrow> get_path_common u ino None False (nodes l);
     let l = l\<lparr>nodes := f\<rparr>;
     (err, linkname, l, w) \<leftarrow>
       (if err = 0 then do {
          p \<leftarrow> path;
          let (err, linkname, w) = fuse_fs_readlink fs p w;
          l \<leftarrow> free_path_lib ino path l;
          Some (err, linkname, l, w) }
        else Some (err, [], l, w));
     Some (if err = 0 then Reply_readlink (take 4096 linkname) else Reply_err (- err), l, w) }"

definition fuse_lib_mknod ::
  "(nat \<Rightarrow> char) \<Rightarrow> 'w fs_op \<Rightarrow> fuse_config \<Rightarrow> bool \<Rightarrow> int \<Rightarrow> nat \<Rightarrow> string \<Rightarrow> int \<Rightarrow> nat \<Rightarrow> flib \<Rightarrow> 'w \<Rightarrow> (reply \<times> flib \<times> 'w) option" where
  "fuse_lib_mknod u fs cf gone now par name mode rdev l w = do {
     (err, path, wnode, f) \<leftarrow> get_path_common u par (Some name) False (nodes l);
     let l = l\<lparr>nodes := f\<rparr>;
     (err, e, l, w) \<leftarrow>
       (if err = 0 then do {
          p \<leftarrow> path;
          (err, e, l, w) \<leftarrow>
            (if S_ISREG mode then
               (let fi = \<lparr>fi_flags = 0xC1, fi_fh = 0, fi_direct_io = False, fi_keep_cache = False\<rparr>;
                    (err, fi, w) = fuse_fs_create fs p mode fi w
                in if err = 0 then do {
                     (err, e, l, w) \<leftarrow> lookup_path fs cf par (Some name) p (Some fi) l w;
                     let (r, w) = fuse_fs_release fs path fi w;
                     Some (err, e, l, w) }
                   else Some (err, zero_entry, l, w))
             else Some (- ENOSYS, zero_entry, l, w));
          (err, e, l, w) \<leftarrow>
            (if err = - ENOSYS then
               (let (err, w) = fuse_fs_mknod fs p mode rdev w
                in if err = 0 then lookup_path fs cf par (Some name) p None l w else Some (err, e, l, w))
             else Some (err, e, l, w));
          l \<leftarrow> free_path_lib par path l;
          Some (err, e, l, w) }
        else Some (err, zero_entry, l, w));
     (r, l) \<leftarrow> reply_entry gone now e err l;
     Some (r, l, w) }"

definition fuse_lib_mkdir ::
  "(nat \<Rightarrow> char) \<Rightarrow> 'w fs_op \<Rightarrow> fuse_config \<Rightarrow> bool \<Rightarrow> int \<Rightarrow> nat \<Rightarrow> string \<Rightarrow> int \<Rightarrow> flib \<Rightarrow> 'w \<Rightarrow> (reply \<times> flib \<times> 'w) option" where
  "fuse_lib_mkdir u fs cf gone now par name mode l w = do {
     (err, path, wnode, f) \<leftarrow> get_path_common u par (Some name) False (nodes l);
     let l = l\<lparr>nodes := f\<rparr>;
     (err, e, l, w) \<leftarrow>
       (if err = 0 then do {
          p \<leftarrow> path;
          let (err, w) = fuse_fs_mkdir fs p mode w;
          (err, e, l, w) \<leftarrow> (if err = 0 then lookup_path fs cf par (Some name) p None l w else Some (err, zero_entry, l, w));
          l \<leftarrow> free_path_lib par path l;
          Some (err, e, l, w) }
        else Some (err, zero_entry, l, w));
     (r, l) \<leftarrow> reply_entry gone now e err l;
     Some (r, l, w) }"

definition fuse_lib_symlink ::
  "(nat \<Rightarrow> char) \<Rightarrow> 'w fs_op \<Rightarrow> fuse_config \<Rightarrow> bool \<Rightarrow> int \<Rightarrow> string \<Rightarrow> nat \<Rightarrow> string \<Rightarrow> flib \<Rightarrow> 'w \<Rightarrow> (reply \<times> flib \<times> 'w) option" where
  "fuse_lib_symlink u fs cf gone now linkname par name l w = do {
     (err, path, wnode, f) \<leftarrow> get_path_common u par (Some name) False (nodes l);
     let l = l\<lparr>nodes := f\<rparr>;
     (err, e, l, w) \<leftarrow>
       (if err = 0 then do {
          p \<leftarrow> path;
          let (err, w) = fuse_fs_symlink fs linkname p w;
          (err, e, l, w) \<leftarrow> (if err = 0 then lookup_path fs cf par (Some name) p None l w else Some (err, zero_entry, l, w));
          l \<leftarrow> free_path_lib par path l;
          Some (err, e, l, w) }
        else Some (err, zero_entry, l, w));
     (r, l) \<leftarrow> reply_entry gone now e err l;
     Some (r, l, w) }"

definition remove_node_lib :: "nat \<Rightarrow> string \<Rightarrow> flib \<Rightarrow> flib option" where
  "remove_node_lib dir name l = do { f \<leftarrow> remove_node dir name (nodes l); Some (l\<lparr>nodes := f\<rparr>) }"

definition free_path_wrlock_lib :: "nat \<Rightarrow> node \<Rightarrow> flib \<Rightarrow> flib option" where
  "free_path_wrlock_lib ino wnode l = do { f \<leftarrow> free_path_wrlock ino wnode (nodes l); Some (l\<lparr>nodes := f\<rparr>) }"

definition fuse_lib_unlink ::
  "(nat \<Rightarrow> char) \<Rightarrow> 'w fs_op \<Rightarrow> fuse_config \<Rightarrow> nat \<Rightarrow> string \<Rightarrow> flib \<Rightarrow> 'w \<Rightarrow> (reply \<times> flib \<times> 'w) option" where
  "fuse_lib_unlink u fs cf par name l w = do {
     (err, path, wnode, f) \<leftarrow> get_path_common u par (Some name) True (nodes l);
     let l = l\<lparr>nodes := f\<rparr>;
     (err, l, w) \<leftarrow>
       (if err = 0 then do {
          p \<leftarrow> path;
          opened \<leftarrow> (if c_hard_remove cf then Some False else is_open par name l);
          (err, l, w) \<leftarrow>
            (if opened then hide_node u fs p par name l w
             else
               (let (err, w) = fuse_fs_unlink fs p w
                in do { l \<leftarrow> (if err = 0 then remove_node_lib par name l else Some l); Some (err, l, w) }));
          l \<leftarrow> free_path_wrlock_lib par wnode l;
          Some (err, l, w) }
        else Some (err, l, w));
     Some (Reply_err (- err), l, w) }"

definition fuse_lib_rmdir ::
  "(nat \<Rightarrow> char) \<Rightarrow> 'w fs_op \<Rightarrow> nat \<Rightarrow> string \<Rightarrow> flib \<Rightarrow> 'w \<Rightarrow> (reply \<times> flib \<times> 'w) option" where
  "fuse_lib_rmdir u fs par name l w = do {
     (err, path, wnode, f) \<leftarrow> get_path_common u par (Some name) True (nodes l);
     let l = l\<lparr>nodes := f\<rparr>;
     (err, l, w) \<leftarrow>
       (if err = 0 then do {
          p \<leftarrow> path;
          let (err, w) = fuse_fs_rmdir fs p w;
          l \<leftarrow> (if err = 0 then remove_node_lib par name l else Some l);
          l \<leftarrow> free_path_wrlock_lib par wnode l;
          Some (err, l, w) }
        else Some (err, l, w));
     Some (Reply_err (- err), l, w) }"

definition RENAME_EXCHANGE :: nat where
  "RENAME_EXCHANGE = 2"

definition fuse_lib_rename ::
  "(nat \<Rightarrow> char) \<Rightarrow> 'w fs_op \<Rightarrow> fuse_config \<Rightarrow> nat \<Rightarrow> string \<Rightarrow> nat \<Rightarrow> string \<Rightarrow> nat \<Rightarrow> flib \<Rightarrow> 'w \<Rightarrow> (reply \<times> flib \<times> 'w) option" where
  "fuse_lib_rename u fs cf olddir oldname newdir newname flags l w = do {
     let exchange = (flags div RENAME_EXCHANGE mod 2 = 1);
     (err, oldpath, newpath, wnode1, wnode2, f) \<leftarrow> get_path2 u olddir (Some oldname) newdir (Some newname) True True (nodes l);
     let l = l\<lparr>nodes := f\<rparr>;
     (err, l, w) \<leftarrow>
       (if err = 0 then do {
          op \<leftarrow> oldpath;
          np \<leftarrow> newpath;
          opened \<leftarrow> (if c_hard_remove cf \<or> exchange then Some False else is_open newdir newname l);
          (err, l, w) \<leftarrow> (if opened then hide_node u fs np newdir newname l w else Some (0, l, w));
          (err, l, w) \<leftarrow>
            (if err = 0 then
               (let (err, w) = fuse_fs_rename fs op np flags w
                in if err = 0 then do {
                     (err, f) \<leftarrow> (if exchange then do { f \<leftarrow> exchange_node olddir oldname newdir newname (nodes l); Some (0, f) }
                                 else rename_node olddir oldname newdir newname False (nodes l));
                     Some (err, l\<lparr>nodes := f\<rparr>, w) }
                   else Some (err, l, w))
             else Some (err, l, w));
          f \<leftarrow> free_path2 olddir newdir wnode1 wnode2 (nodes l);
          Some (err, l\<lparr>nodes := f\<rparr>, w) }
        else Some (err, l, w));
     Some (Reply_err (- err), l, w) }"

definition fuse_lib_link ::
  "(nat \<Rightarrow> char) \<Rightarrow> 'w fs_op \<Rightarrow> fuse_config \<Rightarrow> bool \<Rightarrow> int \<Rightarrow> nat \<Rightarrow> nat \<Rightarrow> string \<Rightarrow> flib \<Rightarrow> 'w \<Rightarrow> (reply \<times> flib \<times> 'w) option" where
  "fuse_lib_link u fs cf gone now ino newparent newname l w = do {
     (err, oldpath, newpath, wnode1, wnode2, f) \<leftarrow> get_path2 u ino None newparent (Some newname) False False (nodes l);
     let l = l\<lparr>nodes := f\<rparr>;
     (err, e, l, w) \<leftarrow>
       (if err = 0 then do {
          op \<leftarrow> oldpath;
          np \<leftarrow> newpath;
          let (err, w) = fuse_fs_link fs op np w;
          (err, e, l, w) \<leftarrow> (if err = 0 then lookup_path fs cf newparent (Some newname) np None l w else Some (err, zero_entry, l, w));
          f \<leftarrow> free_path2 ino newparent 0 0 (nodes l);
          Some (err, e, l\<lparr>nodes := f\<rparr>, w) }
        else Some (err, zero_entry, l, w));
     (r, l) \<leftarrow> reply_entry gone now e err l;
     Some (r, l, w) }"

section \<open>Open files\<close>

definition fuse_do_release ::
  "(nat \<Rightarrow> char) \<Rightarrow> 'w fs_op \<Rightarrow> fuse_config \<Rightarrow> nat \<Rightarrow> string option \<Rightarrow> finfo \<Rightarrow> flib \<Rightarrow> 'w \<Rightarrow> (flib \<times> 'w) option" where
  "fuse_do_release u fs cf ino path fi l w = do {
     let (r, w) = fuse_fs_release fs path fi w;
     x \<leftarrow> get_node (nodes l) ino;
     nd \<leftarrow> fnodes (nodes l) x;
     if open_count l x > 0 then do {
       let l = l\<lparr>open_count := (open_count l)(x := open_count l x - 1)\<rparr>;
       if is_hidden nd \<and> open_count l x = 0 then do {
         f \<leftarrow> mod_node x (\<lambda>nd. nd\<lparr>is_hidden := False\<rparr>) (nodes l);
         let l = l\<lparr>nodes := f\<rparr>;
         case path of
           Some p \<Rightarrow> (let (r, w) = fuse_fs_unlink fs p w in Some (l, w))
         | None \<Rightarrow>
             if c_nullpath_ok cf then do {
               (err, up, wnode, f) \<leftarrow> get_path_common u ino None False (nodes l);
               let l = l\<lparr>nodes := f\<rparr>;
               w \<leftarrow> (if err = 0 then do { p \<leftarrow> up; let (r, w) = fuse_fs_unlink fs p w; Some w } else Some w);
               l \<leftarrow> free_path_lib ino up l;
               Some (l, w) }
             else Some (l, w) }
       else Some (l, w) }
     else None }"

definition opened_info :: "fuse_config \<Rightarrow> finfo \<Rightarrow> finfo" where
  "opened_info cf fi = fi\<lparr>fi_direct_io := fi_direct_io fi \<or> c_direct_io cf, fi_keep_cache := fi_keep_cache fi \<or> c_kernel_cache cf\<rparr>"

definition fuse_lib_create ::
  "(nat \<Rightarrow> char) \<Rightarrow> 'w fs_op \<Rightarrow> fuse_config \<Rightarrow> bool \<Rightarrow> int \<Rightarrow> nat \<Rightarrow> string \<Rightarrow> int \<Rightarrow> finfo \<Rightarrow> flib \<Rightarrow> 'w \<Rightarrow> (reply \<times> flib \<times> 'w) option" where
  "fuse_lib_create u fs cf gone now par name mode fi l w = do {
     (err, path, wnode, f) \<leftarrow> get_path_common u par (Some name) False (nodes l);
     let l = l\<lparr>nodes := f\<rparr>;
     (err, e, fi, l, w) \<leftarrow>
       (if err = 0 then do {
          p \<leftarrow> path;
          let (err, fi, w) = fuse_fs_create fs p mode fi w;
          if err = 0 then do {
            (err, e, l, w) \<leftarrow> lookup_path fs cf par (Some name) p (Some fi) l w;
            if err \<noteq> 0 then (let (r, w) = fuse_fs_release fs path fi w in Some (err, e, fi, l, w))
            else if \<not> S_ISREG (st_mode (e_attr e)) then
              (let (r, w) = fuse_fs_release fs path fi w
               in do { l \<leftarrow> lib_forget now (e_ino e) 1 l; Some (- EIO, e, fi, l, w) })
            else Some (0, e, opened_info cf fi, l, w) }
          else Some (err, zero_entry, fi, l, w) }
        else Some (err, zero_entry, fi, l, w));
     (r, l, w) \<leftarrow>
       (if err = 0 then do {
          x \<leftarrow> get_node (nodes l) (e_ino e);
          let l = l\<lparr>open_count := (open_count l)(x := open_count l x + 1)\<rparr>;
          (l, w) \<leftarrow> (if gone then do {
                       (l, w) \<leftarrow> fuse_do_release u fs cf (e_ino e) path fi l w;
                       l \<leftarrow> lib_forget now (e_ino e) 1 l;
                       Some (l, w) }
                     else Some (l, w));
          Some (Reply_create e fi, l, w) }
        else Some (Reply_err (- err), l, w));
     l \<leftarrow> free_path_lib par path l;
     Some (r, l, w) }"

definition fuse_lib_open ::
  "(nat \<Rightarrow> char) \<Rightarrow> 'w fs_op \<Rightarrow> fuse_config \<Rightarrow> bool \<Rightarrow> nat \<Rightarrow> finfo \<Rightarrow> flib \<Rightarrow> 'w \<Rightarrow> (reply \<times> flib \<times> 'w) option" where
  "fuse_lib_open u fs cf gone ino fi l w = do {
     (err, path, wnode, f) \<leftarrow> get_path_common u ino None False (nodes l);
     let l = l\<lparr>nodes := f\<rparr>;
     (err, fi, w) \<leftarrow>
       (if err = 0 then do {
          p \<leftarrow> path;
          let (err, fi, w) = fuse_fs_open fs p fi w;
          Some (err, if err = 0 then opened_info cf fi else fi, w) }
        else Some (err, fi, w));
     (r, l, w) \<leftarrow>
       (if err = 0 then do {
          x \<leftarrow> get_node (nodes l) ino;
          let l = l\<lparr>open_count := (open_count l)(x := open_count l x + 1)\<rparr>;
          (l, w) \<leftarrow> (if gone then fuse_do_release u fs cf ino path fi l w else Some (l, w));
          Some (Reply_open fi, l, w) }
        else Some (Reply_err (- err), l, w));
     l \<leftarrow> free_path_lib ino path l;
     Some (r, l, w) }"

text \<open>\<open>flush\<close>: the answer of \<open>fuse_flush_common\<close> (theory \<open>Record_Locks\<close>), if the kernel asks for a flush.\<close>

definition fuse_lib_release ::
  "(nat \<Rightarrow> char) \<Rightarrow> 'w fs_op \<Rightarrow> fuse_config \<Rightarrow> int option \<Rightarrow> nat \<Rightarrow> finfo \<Rightarrow> flib \<Rightarrow> 'w \<Rightarrow> (reply \<times> flib \<times> 'w) option" where
  "fuse_lib_release u fs cf flush ino fi l w = do {
     (err, path, f) \<leftarrow> get_path_nullok u cf ino (nodes l);
     let l = l\<lparr>nodes := f\<rparr>;
     let err = (case flush of None \<Rightarrow> 0 | Some err \<Rightarrow> if err = - ENOSYS then 0 else err);
     (l, w) \<leftarrow> fuse_do_release u fs cf ino path fi l w;
     l \<leftarrow> free_path_lib ino path l;
     Some (Reply_err (- err), l, w) }"

end
