(* ===== verification/Dir_Handles.thy ===== *)
theory Dir_Handles
  imports Fuse_Lib
begin

text \<open>
  Reading directories through libfuse (\<open>lib/fuse.c\<close>: \<open>fuse_lib_opendir\<close> to
  \<open>fuse_lib_fsyncdir\<close>; \<open>lib/fuse_lowlevel.c\<close>: \<open>fuse_add_direntry\<close>). An open directory has a
  handle with a buffer (\<open>dh_contents\<close>, \<open>None\<close> for \<open>NULL\<close>) and a list of entries. The file
  system delivers entries to a callback: with an offset, then they go to the buffer until
  it is full, or without one, then they go to the list, from which every request takes
  its part. A write outside of the buffer is \<open>None\<close>. The linked list of entries (\<open>first\<close>,
  \<open>last\<close>) is a list; it is appended to only after \<open>readdir_fill\<close> has set \<open>last\<close>. A request
  holds the lock of its handle from beginning to end. \<open>unsigned\<close> values are natural
  numbers, reduced by \<open>u32\<close> where they may leave the range.
\<close>

definition u32 :: "int \<Rightarrow> nat" where
  "u32 x = nat (x mod 2 ^ 32)"

section \<open>Entries in the buffer\<close>

definition FUSE_NAME_OFFSET :: nat where
  "FUSE_NAME_OFFSET = 24"

definition FUSE_NAME_OFFSET_DIRENTPLUS :: nat where
  "FUSE_NAME_OFFSET_DIRENTPLUS = 152"

definition FUSE_DIRENT_ALIGN :: "nat \<Rightarrow> nat" where
  "FUSE_DIRENT_ALIGN x = (x + 8 - 1) div 8 * 8"

text \<open>\<open>struct fuse_dirent\<close> with the name and the padding that follow it.\<close>

definition dirent_bytes :: "lstat \<Rightarrow> int \<Rightarrow> string \<Rightarrow> nat \<Rightarrow> bytes" where
  "dirent_bytes st off name pad =
     enc_le 8 (int (st_ino st)) @ enc_le 8 off @ enc_le 4 (int (length name))
     @ enc_le 4 (drop_bit 12 (and (st_mode st) 0xF000)) @ map of_char name @ replicate pad 0"

definition fuse_add_direntry :: "bytes option \<Rightarrow> nat \<Rightarrow> nat \<Rightarrow> string \<Rightarrow> lstat \<Rightarrow> int \<Rightarrow> (nat \<times> bytes option) option" where
  "fuse_add_direntry buf pos bufsize name st off =
     (let entlen = FUSE_NAME_OFFSET + length name;
          entlen_padded = FUSE_DIRENT_ALIGN entlen
      in if (buf = None \<and> pos = 0) \<or> entlen_padded > bufsize then Some (entlen_padded, buf)
         else do {
           b \<leftarrow> buf;
           if pos + entlen_padded > length b then None
           else Some (entlen_padded, Some (patch pos (dirent_bytes st off name (entlen_padded - entlen)) b)) })"

definition convert_stat :: "lstat \<Rightarrow> bytes" where
  "convert_stat st =
     enc_le 8 (int (st_ino st)) @ enc_le 8 (st_size st) @ enc_le 8 (st_blocks st)
     @ enc_le 8 (fst (st_atime st)) @ enc_le 8 (fst (st_mtime st)) @ enc_le 8 (fst (st_ctime st))
     @ enc_le 4 (int (snd (st_atime st))) @ enc_le 4 (int (snd (st_mtime st))) @ enc_le 4 (int (snd (st_ctime st)))
     @ enc_le 4 (st_mode st) @ enc_le 4 (int (st_nlink st)) @ enc_le 4 (int (st_uid st)) @ enc_le 4 (int (st_gid st))
     @ enc_le 4 (int (st_rdev st)) @ enc_le 4 (int (st_blksize st)) @ enc_le 4 0"

definition calc_timeout_sec :: "real \<Rightarrow> nat" where
  "calc_timeout_sec t = (if t > 2 ^ 64 - 1 then 2 ^ 64 - 1 else if t < 0 then 0 else nat \<lfloor>t\<rfloor>)"

definition calc_timeout_nsec :: "real \<Rightarrow> nat" where
  "calc_timeout_nsec t =
     (let f = t - real (calc_timeout_sec t)
      in if f < 0 then 0 else if f \<ge> 999999999 / 1000000000 then 999999999 else nat \<lfloor>f * 1000000000\<rfloor>)"

definition fill_entry :: "entry \<Rightarrow> bytes" where
  "fill_entry e =
     enc_le 8 (int (e_ino e)) @ enc_le 8 (int (e_generation e))
     @ enc_le 8 (int (calc_timeout_sec (e_entry_timeout e))) @ enc_le 8 (int (calc_timeout_sec (e_attr_timeout e)))
     @ enc_le 4 (int (calc_timeout_nsec (e_entry_timeout e))) @ enc_le 4 (int (calc_timeout_nsec (e_attr_timeout e)))
     @ convert_stat (e_attr e)"

definition fuse_add_direntry_plus :: "bytes option \<Rightarrow> nat \<Rightarrow> nat \<Rightarrow> string \<Rightarrow> entry \<Rightarrow> int \<Rightarrow> (nat \<times> bytes option) option" where
  "fuse_add_direntry_plus buf pos bufsize name e off =
     (let entlen = FUSE_NAME_OFFSET_DIRENTPLUS + length name;
          entlen_padded = FUSE_DIRENT_ALIGN entlen
      in if (buf = None \<and> pos = 0) \<or> entlen_padded > bufsize then Some (entlen_padded, buf)
         else do {
           b \<leftarrow> buf;
           if pos + entlen_padded > length b then None
           else Some (entlen_padded, Some (patch pos (fill_entry e @ dirent_bytes (e_attr e) off name (entlen_padded - entlen)) b)) })"

section \<open>Handles\<close>

record direntry =
  de_stat :: lstat
  de_name :: string

record fuse_dh =
  dh_contents :: "bytes option"
  dh_first :: "direntry list"
  dh_len :: nat
  dh_size :: nat
  dh_needlen :: nat
  dh_filled :: bool
  dh_fh :: nat
  dh_error :: int
  dh_nodeid :: nat

text \<open>\<open>ub\<close> is what \<open>realloc\<close> leaves in the new part of the buffer.\<close>

definition extend_contents :: "(nat \<Rightarrow> byte) \<Rightarrow> nat \<Rightarrow> fuse_dh \<Rightarrow> fuse_dh option" where
  "extend_contents ub minsize dh =
     (if minsize > dh_size dh then do {
        newsize \<leftarrow> grow_size minsize (if dh_size dh = 0 then 1024 else dh_size dh);
        let old = (case dh_contents dh of None \<Rightarrow> [] | Some b \<Rightarrow> b);
        Some (dh\<lparr>dh_contents := Some (old @ map ub [length old..<newsize]), dh_size := newsize\<rparr>) }
      else Some dh)"

definition fuse_add_direntry_to_dh :: "fuse_dh \<Rightarrow> string \<Rightarrow> lstat \<Rightarrow> fuse_dh" where
  "fuse_add_direntry_to_dh dh name st = dh\<lparr>dh_first := dh_first dh @ [\<lparr>de_stat = st, de_name = name\<rparr>]\<rparr>"

definition lookup_nodeid :: "nat \<Rightarrow> string \<Rightarrow> flib \<Rightarrow> nat option" where
  "lookup_nodeid par name l = do {
     node \<leftarrow> lookup_node (nodes l) par name;
     if node \<noteq> 0 then do { nd \<leftarrow> fnodes (nodes l) node; Some (nodeid nd) }
     else Some FUSE_UNKNOWN_INO }"

section \<open>The callback\<close>

definition FUSE_READDIR_PLUS :: int where
  "FUSE_READDIR_PLUS = 1"

definition FUSE_FILL_DIR_PLUS :: int where
  "FUSE_FILL_DIR_PLUS = 2"

text \<open>The buffer a file system hands to the callback: \<open>None\<close> once behaviour was undefined.\<close>

type_synonym dirbuf = "(fuse_dh \<times> flib) option"
type_synonym filler = "dirbuf \<Rightarrow> string \<Rightarrow> lstat option \<Rightarrow> int \<Rightarrow> int \<Rightarrow> int \<times> dirbuf"

text \<open>Adding an entry with the offset behind it: \<open>add\<close> writes it at a position of the buffer.\<close>

definition fill_buffer ::
  "(nat \<Rightarrow> byte) \<Rightarrow> (bytes option \<Rightarrow> nat \<Rightarrow> nat \<Rightarrow> (nat \<times> bytes option) option) \<Rightarrow> fuse_dh \<Rightarrow> (int \<times> fuse_dh) option" where
  "fill_buffer ub add dh =
     (if dh_first dh \<noteq> [] then Some (1, dh\<lparr>dh_error := - EIO\<rparr>)
      else do {
        dh \<leftarrow> extend_contents ub (dh_needlen dh) dh;
        let dh = dh\<lparr>dh_filled := False\<rparr>;
        (thislen, c) \<leftarrow> add (dh_contents dh) (dh_len dh) (u32 (int (dh_needlen dh) - int (dh_len dh)));
        let newlen = dh_len dh + thislen;
        let dh = dh\<lparr>dh_contents := c\<rparr>;
        if newlen > dh_needlen dh then Some (1, dh)
        else Some (0, dh\<lparr>dh_len := newlen\<rparr>) })"

definition fill_list :: "string \<Rightarrow> lstat \<Rightarrow> fuse_dh \<Rightarrow> int \<times> fuse_dh" where
  "fill_list name st dh =
     (if \<not> dh_filled dh then (1, dh\<lparr>dh_error := - EIO\<rparr>)
      else (0, fuse_add_direntry_to_dh dh name st))"

definition fill_dir ::
  "(nat \<Rightarrow> byte) \<Rightarrow> fuse_config \<Rightarrow> string \<Rightarrow> lstat option \<Rightarrow> int \<Rightarrow> int \<Rightarrow> fuse_dh \<Rightarrow> flib \<Rightarrow> (int \<times> fuse_dh \<times> flib) option" where
  "fill_dir ub cf name statp off flags dh l =
     (if and flags (not FUSE_FILL_DIR_PLUS) \<noteq> 0 then Some (1, dh\<lparr>dh_error := - EIO\<rparr>, l)
      else do {
        let st = (case statp of Some st \<Rightarrow> st | None \<Rightarrow> zero_stat\<lparr>st_ino := FUSE_UNKNOWN_INO\<rparr>);
        st \<leftarrow> (if c_use_ino cf then Some st
               else do {
                 ino \<leftarrow> (if c_readdir_ino cf then lookup_nodeid (dh_nodeid dh) name l else Some FUSE_UNKNOWN_INO);
                 Some (st\<lparr>st_ino := ino\<rparr>) });
        (r, dh) \<leftarrow>
          (if off \<noteq> 0 then fill_buffer ub (\<lambda>c p n. fuse_add_direntry c p n name st off) dh
           else Some (fill_list name st dh));
        Some (r, dh, l) })"

definition is_dot_or_dotdot :: "string \<Rightarrow> bool" where
  "is_dot_or_dotdot name \<longleftrightarrow> name = ''.'' \<or> name = ''..''"

definition fill_dir_plus ::
  "(nat \<Rightarrow> byte) \<Rightarrow> fuse_config \<Rightarrow> string \<Rightarrow> lstat option \<Rightarrow> int \<Rightarrow> int \<Rightarrow> fuse_dh \<Rightarrow> flib \<Rightarrow> (int \<times> fuse_dh \<times> flib) option" where
  "fill_dir_plus ub cf name statp off flags dh l =
     (if and flags (not FUSE_FILL_DIR_PLUS) \<noteq> 0 then Some (1, dh\<lparr>dh_error := - EIO\<rparr>, l)
      else do {
        (e, l) \<leftarrow>
          (if off \<noteq> 0 \<and> statp \<noteq> None \<and> and flags FUSE_FILL_DIR_PLUS \<noteq> 0 then
             (let e = zero_entry\<lparr>e_attr := the statp\<rparr>
              in if is_dot_or_dotdot name then Some (e, l) else do_lookup cf (dh_nodeid dh) (Some name) e l)
           else do {
             ino \<leftarrow> (if \<not> c_use_ino cf \<and> c_readdir_ino cf then lookup_nodeid (dh_nodeid dh) name l else Some FUSE_UNKNOWN_INO);
             Some (zero_entry\<lparr>e_attr := zero_stat\<lparr>st_ino := ino\<rparr>\<rparr>, l) });
        (r, dh) \<leftarrow>
          (if off \<noteq> 0 then fill_buffer ub (\<lambda>c p n. fuse_add_direntry_plus c p n name e off) dh
           else Some (fill_list name (e_attr e) dh));
        Some (r, dh, l) })"

text \<open>The callback as the file system sees it.\<close>

definition as_filler :: "(string \<Rightarrow> lstat option \<Rightarrow> int \<Rightarrow> int \<Rightarrow> fuse_dh \<Rightarrow> flib \<Rightarrow> (int \<times> fuse_dh \<times> flib) option) \<Rightarrow> filler" where
  "as_filler g buf name statp off flags =
     (case buf of
        None \<Rightarrow> (1, None)
      | Some (dh, l) \<Rightarrow> (case g name statp off flags dh l of None \<Rightarrow> (1, None) | Some (r, dh, l) \<Rightarrow> (r, Some (dh, l))))"

section \<open>Operations of the file system on directories\<close>

record 'w dir_op =
  op_opendir :: "(string \<Rightarrow> finfo \<Rightarrow> 'w \<Rightarrow> int \<times> finfo \<times> 'w) option"
  op_readdir :: "(string option \<Rightarrow> dirbuf \<Rightarrow> filler \<Rightarrow> int \<Rightarrow> finfo \<Rightarrow> int \<Rightarrow> 'w \<Rightarrow> int \<times> dirbuf \<times> 'w) option"
  op_releasedir :: "(string option \<Rightarrow> finfo \<Rightarrow> 'w \<Rightarrow> int \<times> 'w) option"
  op_fsyncdir :: "(string option \<Rightarrow> int \<Rightarrow> finfo \<Rightarrow> 'w \<Rightarrow> int \<times> 'w) option"

definition fuse_fs_opendir :: "'w dir_op \<Rightarrow> string \<Rightarrow> finfo \<Rightarrow> 'w \<Rightarrow> int \<times> finfo \<times> 'w" where
  "fuse_fs_opendir fs path fi w = (case op_opendir fs of Some g \<Rightarrow> g path fi w | None \<Rightarrow> (0, fi, w))"

definition fuse_fs_readdir ::
  "'w dir_op \<Rightarrow> string option \<Rightarrow> dirbuf \<Rightarrow> filler \<Rightarrow> int \<Rightarrow> finfo \<Rightarrow> int \<Rightarrow> 'w \<Rightarrow> int \<times> dirbuf \<times> 'w" where
  "fuse_fs_readdir fs path buf fl off fi flags w =
     (case op_readdir fs of Some g \<Rightarrow> g path buf fl off fi flags w | None \<Rightarrow> (- ENOSYS, buf, w))"

definition fuse_fs_releasedir :: "'w dir_op \<Rightarrow> string option \<Rightarrow> finfo \<Rightarrow> 'w \<Rightarrow> int \<times> 'w" where
  "fuse_fs_releasedir fs path fi w = (case op_releasedir fs of Some g \<Rightarrow> g path fi w | None \<Rightarrow> (0, w))"

definition fuse_fs_fsyncdir :: "'w dir_op \<Rightarrow> string option \<Rightarrow> int \<Rightarrow> finfo \<Rightarrow> 'w \<Rightarrow> int \<times> 'w" where
  "fuse_fs_fsyncdir fs path datasync fi w = (case op_fsyncdir fs of Some g \<Rightarrow> g path datasync fi w | None \<Rightarrow> (- ENOSYS, w))"

section \<open>Filling a handle\<close>

definition zero_finfo :: finfo where
  "zero_finfo = \<lparr>fi_flags = 0, fi_fh = 0, fi_direct_io = False, fi_keep_cache = False\<rparr>"

text \<open>\<open>get_dirhandle\<close> also gives the information the file system gets: its own handle.\<close>

definition dir_info :: "fuse_dh \<Rightarrow> finfo" where
  "dir_info dh = zero_finfo\<lparr>fi_fh := dh_fh dh\<rparr>"

definition dir_path :: "(nat \<Rightarrow> char) \<Rightarrow> 'w dir_op \<Rightarrow> fuse_config \<Rightarrow> nat \<Rightarrow> fuse \<Rightarrow> (int \<times> string option \<times> fuse) option" where
  "dir_path u fs cf ino f =
     (if op_readdir fs \<noteq> None then get_path_nullok u cf ino f
      else do { (err, path, wnode, f) \<leftarrow> get_path_common u ino None False f; Some (err, path, f) })"

definition readdir_fill ::
  "(nat \<Rightarrow> char) \<Rightarrow> (nat \<Rightarrow> byte) \<Rightarrow> 'w dir_op \<Rightarrow> fuse_config \<Rightarrow> nat \<Rightarrow> nat \<Rightarrow> int \<Rightarrow> int \<Rightarrow> fuse_dh \<Rightarrow> flib \<Rightarrow> 'w
     \<Rightarrow> (int \<times> fuse_dh \<times> flib \<times> 'w) option" where
  "readdir_fill u ub fs cf ino sz off flags dh l w = do {
     (err, path, f) \<leftarrow> dir_path u fs cf ino (nodes l);
     let l = l\<lparr>nodes := f\<rparr>;
     if err = 0 then do {
       let fillr = (if and flags FUSE_READDIR_PLUS \<noteq> 0 then fill_dir_plus ub cf else fill_dir ub cf);
       let dh = dh\<lparr>dh_first := [], dh_len := 0, dh_error := 0, dh_needlen := u32 (int sz), dh_filled := True\<rparr>;
       let (err, buf, w) = fuse_fs_readdir fs path (Some (dh, l)) (as_filler fillr) off (dir_info dh) flags w;
       (dh, l) \<leftarrow> buf;
       let err = (if err = 0 then dh_error dh else err);
       let dh = (if err \<noteq> 0 then dh\<lparr>dh_filled := False\<rparr> else dh);
       l \<leftarrow> free_path_lib ino path l;
       Some (err, dh, l, w) }
     else Some (err, dh, l, w) }"

fun skip_entries :: "int \<Rightarrow> int \<Rightarrow> direntry list \<Rightarrow> int \<times> direntry list" where
  "skip_entries off pos [] = (pos, [])"
| "skip_entries off pos (de # des) = (if pos < off then skip_entries off (pos + 1) des else (pos, de # des))"

fun list_loop :: "int \<Rightarrow> int \<Rightarrow> direntry list \<Rightarrow> fuse_dh \<Rightarrow> fuse_dh option" where
  "list_loop flags pos [] dh = Some dh"
| "list_loop flags pos (de # des) dh = do {
     let rem = u32 (int (dh_needlen dh) - int (dh_len dh));
     let pos = pos + 1;
     (n, c) \<leftarrow>
       (if and flags FUSE_READDIR_PLUS \<noteq> 0 then fuse_add_direntry_plus (dh_contents dh) (dh_len dh) rem (de_name de) (zero_entry\<lparr>e_attr := de_stat de\<rparr>) pos
        else fuse_add_direntry (dh_contents dh) (dh_len dh) rem (de_name de) (de_stat de) pos);
     let thislen = u32 (int n);
     let newlen = u32 (int (dh_len dh) + int thislen);
     let dh = dh\<lparr>dh_contents := c\<rparr>;
     if newlen > dh_needlen dh then Some dh
     else list_loop flags pos des (dh\<lparr>dh_len := newlen\<rparr>) }"

definition readdir_fill_from_list :: "(nat \<Rightarrow> byte) \<Rightarrow> int \<Rightarrow> int \<Rightarrow> fuse_dh \<Rightarrow> fuse_dh option" where
  "readdir_fill_from_list ub off flags dh = do {
     dh \<leftarrow> extend_contents ub (dh_needlen dh) (dh\<lparr>dh_len := 0\<rparr>);
     let (pos, des) = skip_entries off 0 (dh_first dh);
     list_loop flags pos des dh }"

section \<open>Requests\<close>

record dlib =
  dlib_l :: flib
  handles :: "nat \<Rightarrow> fuse_dh option"
  next_dh :: nat

text \<open>\<open>fuse_reply_buf\<close> sends the first \<open>dh_len\<close> bytes.\<close>

definition dh_reply :: "fuse_dh \<Rightarrow> reply" where
  "dh_reply dh = Reply_buf (case dh_contents dh of None \<Rightarrow> [] | Some b \<Rightarrow> take (dh_len dh) b)"

definition fuse_readdir_common ::
  "(nat \<Rightarrow> char) \<Rightarrow> (nat \<Rightarrow> byte) \<Rightarrow> 'w dir_op \<Rightarrow> fuse_config \<Rightarrow> nat \<Rightarrow> nat \<Rightarrow> int \<Rightarrow> nat \<Rightarrow> int \<Rightarrow> dlib \<Rightarrow> 'w
     \<Rightarrow> (reply \<times> dlib \<times> 'w) option" where
  "fuse_readdir_common u ub fs cf ino sz off fh flags d w = do {
     dh \<leftarrow> handles d fh;
     let dh = (if off = 0 then dh\<lparr>dh_filled := False\<rparr> else dh);
     (err, dh, l, w) \<leftarrow>
       (if \<not> dh_filled dh then readdir_fill u ub fs cf ino sz off flags dh (dlib_l d) w
        else Some (0, dh, dlib_l d, w));
     if err \<noteq> 0 then Some (Reply_err (- err), d\<lparr>dlib_l := l, handles := (handles d)(fh \<mapsto> dh)\<rparr>, w)
     else do {
       dh \<leftarrow> (if dh_filled dh then readdir_fill_from_list ub off flags (dh\<lparr>dh_needlen := u32 (int sz)\<rparr>)
              else Some dh);
       Some (dh_reply dh, d\<lparr>dlib_l := l, handles := (handles d)(fh \<mapsto> dh)\<rparr>, w) } }"

definition fuse_lib_readdir ::
  "(nat \<Rightarrow> char) \<Rightarrow> (nat \<Rightarrow> byte) \<Rightarrow> 'w dir_op \<Rightarrow> fuse_config \<Rightarrow> nat \<Rightarrow> nat \<Rightarrow> int \<Rightarrow> nat \<Rightarrow> dlib \<Rightarrow> 'w
     \<Rightarrow> (reply \<times> dlib \<times> 'w) option" where
  "fuse_lib_readdir u ub fs cf ino sz off fh d w = fuse_readdir_common u ub fs cf ino sz off fh 0 d w"

definition fuse_lib_readdirplus ::
  "(nat \<Rightarrow> char) \<Rightarrow> (nat \<Rightarrow> byte) \<Rightarrow> 'w dir_op \<Rightarrow> fuse_config \<Rightarrow> nat \<Rightarrow> nat \<Rightarrow> int \<Rightarrow> nat \<Rightarrow> dlib \<Rightarrow> 'w
     \<Rightarrow> (reply \<times> dlib \<times> 'w) option" where
  "fuse_lib_readdirplus u ub fs cf ino sz off fh d w = fuse_readdir_common u ub fs cf ino sz off fh FUSE_READDIR_PLUS d w"

definition new_handle :: "nat \<Rightarrow> fuse_dh" where
  "new_handle ino = \<lparr>dh_contents = None, dh_first = [], dh_len = 0, dh_size = 0, dh_needlen = 0, dh_filled = False,
     dh_fh = 0, dh_error = 0, dh_nodeid = ino\<rparr>"

definition fuse_lib_opendir ::
  "(nat \<Rightarrow> char) \<Rightarrow> 'w dir_op \<Rightarrow> bool \<Rightarrow> nat \<Rightarrow> finfo \<Rightarrow> dlib \<Rightarrow> 'w \<Rightarrow> (reply \<times> dlib \<times> 'w) option" where
  "fuse_lib_opendir u fs gone ino llfi d w = do {
     let h = next_dh d;
     let dh = new_handle ino;
     let llfi = llfi\<lparr>fi_fh := h\<rparr>;
     let fi = zero_finfo\<lparr>fi_flags := fi_flags llfi\<rparr>;
     (err, path, wnode, f) \<leftarrow> get_path_common u ino None False (nodes (dlib_l d));
     let l = (dlib_l d)\<lparr>nodes := f\<rparr>;
     (err, fi, dh, w) \<leftarrow>
       (if err = 0 then do {
          p \<leftarrow> path;
          let (err, fi, w) = fuse_fs_opendir fs p fi w;
          Some (err, fi, dh\<lparr>dh_fh := fi_fh fi\<rparr>, w) }
        else Some (err, fi, dh, w));
     let (r, kept, w) =
       (if err = 0 then
          (if gone then (let (_, w) = fuse_fs_releasedir fs path fi w in (Reply_open llfi, False, w))
           else (Reply_open llfi, True, w))
        else (Reply_err (- err), False, w));
     l \<leftarrow> free_path_lib ino path l;
     Some (r, d\<lparr>dlib_l := l, handles := (handles d)(h := if kept then Some dh else None), next_dh := h + 1\<rparr>, w) }"

definition fuse_lib_releasedir ::
  "(nat \<Rightarrow> char) \<Rightarrow> 'w dir_op \<Rightarrow> fuse_config \<Rightarrow> nat \<Rightarrow> nat \<Rightarrow> dlib \<Rightarrow> 'w \<Rightarrow> (reply \<times> dlib \<times> 'w) option" where
  "fuse_lib_releasedir u fs cf ino fh d w = do {
     dh \<leftarrow> handles d fh;
     (err, path, f) \<leftarrow> get_path_nullok u cf ino (nodes (dlib_l d));
     let (_, w) = fuse_fs_releasedir fs path (dir_info dh) w;
     l \<leftarrow> free_path_lib ino path ((dlib_l d)\<lparr>nodes := f\<rparr>);
     Some (Reply_err 0, d\<lparr>dlib_l := l, handles := (handles d)(fh := None)\<rparr>, w) }"

definition fuse_lib_fsyncdir ::
  "(nat \<Rightarrow> char) \<Rightarrow> 'w dir_op \<Rightarrow> fuse_config \<Rightarrow> nat \<Rightarrow> int \<Rightarrow> nat \<Rightarrow> dlib \<Rightarrow> 'w \<Rightarrow> (reply \<times> dlib \<times> 'w) option" where
  "fuse_lib_fsyncdir u fs cf ino datasync fh d w = do {
     dh \<leftarrow> handles d fh;
     (err, path, f) \<leftarrow> get_path_nullok u cf ino (nodes (dlib_l d));
     if err = 0 then do {
       let (err, w) = fuse_fs_fsyncdir fs path datasync (dir_info dh) w;
       l \<leftarrow> free_path_lib ino path ((dlib_l d)\<lparr>nodes := f\<rparr>);
       Some (Reply_err (- err), d\<lparr>dlib_l := l\<rparr>, w) }
     else Some (Reply_err (- err), d\<lparr>dlib_l := (dlib_l d)\<lparr>nodes := f\<rparr>\<rparr>, w) }"

end
