(* ===== verification/Dir_Reading.thy ===== *)
theory Dir_Reading
  imports Dir_Handles
begin

text \<open>
  What a directory handle of libfuse holds (theory \<open>Dir_Handles\<close>): entries are written one
  after the other as long as they fit and never outside of the buffer, and whoever reads
  the reply by the layout of \<open>include/fuse_kernel.h\<close> gets them back. The locale
  \<open>dir_server\<close> says what a server of directory reads promises; that a client then gets
  every entry once is shown in it.
\<close>

section \<open>Handles\<close>

definition dh_ok :: "fuse_dh \<Rightarrow> bool" where
  "dh_ok dh \<longleftrightarrow> (case dh_contents dh of None \<Rightarrow> dh_size dh = 0 | Some b \<Rightarrow> length b = dh_size dh)
     \<and> dh_size dh < 2 ^ 32 \<and> dh_needlen dh < 2 ^ 32 \<and> dh_len dh \<le> dh_needlen dh \<and> (0 < dh_len dh \<longrightarrow> dh_needlen dh \<le> dh_size dh)"

lemma dh_ok_reset: "dh_ok dh \<Longrightarrow> n < 2 ^ 32 \<Longrightarrow> dh_ok (dh\<lparr>dh_needlen := n, dh_len := 0\<rparr>)"
  by (simp add: dh_ok_def split: option.splits)

definition written :: "fuse_dh \<Rightarrow> bytes" where
  "written dh = (case dh_contents dh of None \<Rightarrow> [] | Some b \<Rightarrow> take (dh_len dh) b)"

lemma dh_reply_written: "dh_reply dh = Reply_buf (written dh)"
  by (simp add: dh_reply_def written_def)

lemma written_length: "dh_ok dh \<Longrightarrow> length (written dh) = dh_len dh"
  by (auto simp: dh_ok_def written_def split: option.splits)

definition dh_same :: "fuse_dh \<Rightarrow> fuse_dh \<Rightarrow> bool" where
  "dh_same dh dh' \<longleftrightarrow> dh_first dh' = dh_first dh \<and> dh_needlen dh' = dh_needlen dh \<and> dh_fh dh' = dh_fh dh
     \<and> dh_error dh' = dh_error dh \<and> dh_nodeid dh' = dh_nodeid dh"

lemma u32_small [simp]: "0 \<le> x \<Longrightarrow> x < 2 ^ 32 \<Longrightarrow> u32 x = nat x"
  by (simp add: u32_def)

lemma u32_bound: "u32 x < 2 ^ 32"
proof -
  have "x mod 2 ^ 32 < 2 ^ 32" by (rule pos_mod_bound) simp
  then show ?thesis by (simp add: u32_def nat_less_iff)
qed

lemma u32_less [simp]: "u32 x < 4294967296"
  using u32_bound [of x] by simp

lemma u32_le: "u32 (int n) \<le> n"
  by (simp add: u32_def nat_mod_distrib zmod_le_nonneg_dividend nat_le_iff)

lemma extend_contents_ok:
  assumes "dh_ok dh"
  obtains c n where "extend_contents ub (dh_needlen dh) dh = Some (dh\<lparr>dh_contents := c, dh_size := n\<rparr>)"
    "dh_ok (dh\<lparr>dh_contents := c, dh_size := n\<rparr>)" "dh_needlen dh \<le> n" "written (dh\<lparr>dh_contents := c, dh_size := n\<rparr>) = written dh"
    "0 < dh_needlen dh \<longrightarrow> c \<noteq> None"
proof (cases "dh_size dh < dh_needlen dh")
  case False
  have "dh\<lparr>dh_contents := dh_contents dh, dh_size := dh_size dh\<rparr> = dh" by simp
  then show ?thesis using that [of "dh_size dh" "dh_contents dh"] assms False by (auto simp: extend_contents_def dh_ok_def split: option.splits)
next
  case True
  define n0 where "n0 = (if dh_size dh = 0 then 1024 else dh_size dh)"
  have "0 < n0" "n0 < 2 ^ 32" "dh_size dh \<le> n0" using assms by (simp_all add: n0_def dh_ok_def)
  then obtain n where n: "grow_size (dh_needlen dh) n0 = Some n" "dh_needlen dh \<le> n" "dh_size dh \<le> n" "n < 2 ^ 32"
    using grow_size_range [of "dh_needlen dh" n0] assms by (auto simp: dh_ok_def)
  let ?old = "case dh_contents dh of None \<Rightarrow> [] | Some b \<Rightarrow> b"
  have l: "length ?old = dh_size dh" using assms by (auto simp: dh_ok_def split: option.splits)
  let ?c = "Some (?old @ map ub [length ?old..<n])"
  have "dh_len dh = 0" using assms True by (auto simp: dh_ok_def)
  moreover have "extend_contents ub (dh_needlen dh) dh = Some (dh\<lparr>dh_contents := ?c, dh_size := n\<rparr>)"
    using True n(1) by (simp add: extend_contents_def n0_def Let_def)
  moreover have "dh_ok (dh\<lparr>dh_contents := ?c, dh_size := n\<rparr>)" using assms n(2-4) l by (simp add: dh_ok_def)
  ultimately show ?thesis using that n(2) by (simp add: written_def split: option.splits)
qed

section \<open>Adding an entry\<close>

text \<open>\<open>add\<close> writes the bytes \<open>x\<close> where they fit.\<close>

definition adds :: "(bytes option \<Rightarrow> nat \<Rightarrow> nat \<Rightarrow> (nat \<times> bytes option) option) \<Rightarrow> bytes \<Rightarrow> bool" where
  "adds add x \<longleftrightarrow> x \<noteq> []
     \<and> (\<forall>c pos n. c = None \<and> pos = 0 \<or> n < length x \<longrightarrow> add c pos n = Some (length x, c))
     \<and> (\<forall>b pos n. length x \<le> n \<and> pos + length x \<le> length b \<longrightarrow> add (Some b) pos n = Some (length x, Some (patch pos x b)))"

lemma adds_full: "adds add x \<Longrightarrow> n < length x \<Longrightarrow> add c pos n = Some (length x, c)"
  unfolding adds_def by blast

definition ent_len :: "nat \<Rightarrow> nat" where
  "ent_len n = FUSE_DIRENT_ALIGN (FUSE_NAME_OFFSET + n)"

definition plus_len :: "nat \<Rightarrow> nat" where
  "plus_len n = FUSE_DIRENT_ALIGN (FUSE_NAME_OFFSET_DIRENTPLUS + n)"

lemma align_le: "x \<le> FUSE_DIRENT_ALIGN x"
  by (simp add: FUSE_DIRENT_ALIGN_def)

lemma align_less: "FUSE_DIRENT_ALIGN x < x + 8"
  by (simp add: FUSE_DIRENT_ALIGN_def)

definition ent_bytes :: "lstat \<Rightarrow> int \<Rightarrow> string \<Rightarrow> bytes" where
  "ent_bytes st off nm = dirent_bytes st off nm (ent_len (length nm) - (FUSE_NAME_OFFSET + length nm))"

definition plus_bytes :: "entry \<Rightarrow> int \<Rightarrow> string \<Rightarrow> bytes" where
  "plus_bytes e off nm = fill_entry e @ dirent_bytes (e_attr e) off nm (plus_len (length nm) - (FUSE_NAME_OFFSET_DIRENTPLUS + length nm))"

lemma length_dirent_bytes: "length (dirent_bytes st off nm pad) = 24 + length nm + pad"
  by (simp add: dirent_bytes_def)

lemma length_fill_entry: "length (fill_entry e) = 128"
  by (simp add: fill_entry_def convert_stat_def)

lemma length_ent_bytes: "length (ent_bytes st off nm) = ent_len (length nm)"
  using align_le [of "24 + length nm"] by (simp add: ent_bytes_def length_dirent_bytes ent_len_def FUSE_NAME_OFFSET_def)

lemma length_plus_bytes: "length (plus_bytes e off nm) = plus_len (length nm)"
  using align_le [of "152 + length nm"] by (simp add: plus_bytes_def length_dirent_bytes length_fill_entry plus_len_def FUSE_NAME_OFFSET_DIRENTPLUS_def)

lemma ent_len_pos: "0 < ent_len n" "0 < plus_len n"
  using align_le [of "24 + n"] align_le [of "152 + n"]
  by (simp_all add: ent_len_def plus_len_def FUSE_NAME_OFFSET_def FUSE_NAME_OFFSET_DIRENTPLUS_def)

lemma adds_direntry: "adds (\<lambda>c p n. fuse_add_direntry c p n nm st off) (ent_bytes st off nm)"
  using ent_len_pos(1) [of "length nm"] unfolding adds_def length_greater_0_conv [symmetric] length_ent_bytes
  by (auto simp: fuse_add_direntry_def Let_def ent_bytes_def simp flip: ent_len_def)

lemma adds_direntry_plus: "adds (\<lambda>c p n. fuse_add_direntry_plus c p n nm e off) (plus_bytes e off nm)"
  using ent_len_pos(2) [of "length nm"] unfolding adds_def length_greater_0_conv [symmetric] length_plus_bytes
  by (auto simp: fuse_add_direntry_plus_def Let_def plus_bytes_def simp flip: plus_len_def)

lemma add_step:
  assumes "dh_ok dh" "dh_needlen dh \<le> dh_size dh" "adds add x"
  shows "if dh_len dh + length x \<le> dh_needlen dh
    then \<exists>c. add (dh_contents dh) (dh_len dh) (u32 (int (dh_needlen dh) - int (dh_len dh))) = Some (length x, c)
      \<and> dh_ok (dh\<lparr>dh_contents := c, dh_len := dh_len dh + length x\<rparr>)
      \<and> written (dh\<lparr>dh_contents := c, dh_len := dh_len dh + length x\<rparr>) = written dh @ x
    else add (dh_contents dh) (dh_len dh) (u32 (int (dh_needlen dh) - int (dh_len dh))) = Some (length x, dh_contents dh)"
proof -
  have r: "u32 (int (dh_needlen dh) - int (dh_len dh)) = dh_needlen dh - dh_len dh" using assms(1) by (simp add: dh_ok_def nat_diff_distrib)
  have x: "x \<noteq> []" using assms(3) by (simp add: adds_def)
  show ?thesis
  proof (cases "dh_len dh + length x \<le> dh_needlen dh")
    case False
    then have "dh_needlen dh - dh_len dh < length x" using x by (cases x) auto
    then have "add (dh_contents dh) (dh_len dh) (dh_needlen dh - dh_len dh) = Some (length x, dh_contents dh)"
      by (rule adds_full [OF assms(3)])
    then show ?thesis using False r by simp
  next
    case True
    then obtain b where b: "dh_contents dh = Some b" "length b = dh_size dh"
      using assms(1,2) x by (auto simp: dh_ok_def split: option.splits)
    have "add (Some b) (dh_len dh) (dh_needlen dh - dh_len dh) = Some (length x, Some (patch (dh_len dh) x b))"
      using assms(2,3) True b(2) unfolding adds_def by simp
    moreover have "dh_ok (dh\<lparr>dh_contents := Some (patch (dh_len dh) x b), dh_len := dh_len dh + length x\<rparr>)"
      using assms(1,2) True b by (simp add: dh_ok_def patch_def)
    moreover have "take (dh_len dh + length x) (patch (dh_len dh) x b) = take (dh_len dh) b @ x"
      using assms(2) True b(2) x by (auto simp: patch_def min_def) (metis add_le_same_cancel1 le_trans length_0_conv le_zero_eq)
    ultimately show ?thesis using True r b(1) by (simp add: written_def)
  qed
qed

text \<open>\<open>fill_buffer\<close> has written the entry behind the others, or there was no room.\<close>

lemma fill_buffer_ok:
  assumes "dh_ok dh" "dh_first dh = []" "adds add x"
  obtains r dh' where "fill_buffer ub add dh = Some (r, dh')" "dh_ok dh'" "dh_same dh dh'" "\<not> dh_filled dh'"
    "if dh_len dh + length x \<le> dh_needlen dh then r = 0 \<and> written dh' = written dh @ x \<and> dh_len dh' = dh_len dh + length x
     else r = 1 \<and> written dh' = written dh \<and> dh_len dh' = dh_len dh"
proof -
  obtain c n where e: "extend_contents ub (dh_needlen dh) dh = Some (dh\<lparr>dh_contents := c, dh_size := n\<rparr>)"
    "dh_ok (dh\<lparr>dh_contents := c, dh_size := n\<rparr>)" "dh_needlen dh \<le> n" "written (dh\<lparr>dh_contents := c, dh_size := n\<rparr>) = written dh"
    by (rule extend_contents_ok [OF assms(1), of ub])
  let ?dh = "dh\<lparr>dh_contents := c, dh_size := n, dh_filled := False\<rparr>"
  have ok: "dh_ok ?dh" "written ?dh = written dh" using e(2,4) by (simp_all add: dh_ok_def written_def split: option.splits)
  show ?thesis
  proof (cases "dh_len dh + length x \<le> dh_needlen dh")
    case True
    then obtain c' where c': "add c (dh_len dh) (u32 (int (dh_needlen dh) - int (dh_len dh))) = Some (length x, c')"
      "dh_ok (?dh\<lparr>dh_contents := c', dh_len := dh_len dh + length x\<rparr>)"
      "written (?dh\<lparr>dh_contents := c', dh_len := dh_len dh + length x\<rparr>) = written dh @ x"
      using add_step [OF ok(1) _ assms(3)] e(3) ok(2) by auto
    show ?thesis
      by (rule that [of 0 "?dh\<lparr>dh_contents := c', dh_len := dh_len dh + length x\<rparr>"])
        (use c' assms(2) True in \<open>simp_all add: fill_buffer_def e(1) dh_same_def\<close>)
  next
    case False
    then have a: "add c (dh_len dh) (u32 (int (dh_needlen dh) - int (dh_len dh))) = Some (length x, c)"
      using add_step [OF ok(1) _ assms(3)] e(3) by simp
    show ?thesis
      by (rule that [of 1 ?dh]) (use a ok assms(2) False in \<open>simp_all add: fill_buffer_def e(1) dh_same_def\<close>)
  qed
qed

section \<open>The list of a handle\<close>

text \<open>The first entries that fit into \<open>n\<close> bytes.\<close>

fun fitting :: "nat \<Rightarrow> bytes list \<Rightarrow> bytes list" where
  "fitting n [] = []"
| "fitting n (x # xs) = (if length x \<le> n then x # fitting (n - length x) xs else [])"

lemma fitting_length: "length (concat (fitting n xs)) \<le> n"
  by (induction n xs rule: fitting.induct) auto

lemma fitting_take: "fitting n xs = take (length (fitting n xs)) xs"
  by (induction n xs rule: fitting.induct) auto

lemma fitting_some: "xs \<noteq> [] \<Longrightarrow> length (hd xs) \<le> n \<Longrightarrow> fitting n xs \<noteq> []"
  by (cases xs) auto

definition list_item :: "int \<Rightarrow> int \<Rightarrow> direntry \<Rightarrow> bytes" where
  "list_item flags pos de = (if and flags FUSE_READDIR_PLUS \<noteq> 0 then plus_bytes (zero_entry\<lparr>e_attr := de_stat de\<rparr>) pos (de_name de)
     else ent_bytes (de_stat de) pos (de_name de))"

fun list_items :: "int \<Rightarrow> int \<Rightarrow> direntry list \<Rightarrow> bytes list" where
  "list_items flags pos [] = []"
| "list_items flags pos (de # des) = list_item flags (pos + 1) de # list_items flags (pos + 1) des"

definition list_add :: "int \<Rightarrow> int \<Rightarrow> direntry \<Rightarrow> bytes option \<Rightarrow> nat \<Rightarrow> nat \<Rightarrow> (nat \<times> bytes option) option" where
  "list_add flags pos de c p n =
     (if and flags FUSE_READDIR_PLUS \<noteq> 0 then fuse_add_direntry_plus c p n (de_name de) (zero_entry\<lparr>e_attr := de_stat de\<rparr>) pos
      else fuse_add_direntry c p n (de_name de) (de_stat de) pos)"

lemma list_loop_Cons:
  "list_loop flags pos (de # des) dh = do {
     (n, c) \<leftarrow> list_add flags (pos + 1) de (dh_contents dh) (dh_len dh) (u32 (int (dh_needlen dh) - int (dh_len dh)));
     let newlen = u32 (int (dh_len dh) + int (u32 (int n)));
     if newlen > dh_needlen dh then Some (dh\<lparr>dh_contents := c\<rparr>)
     else list_loop flags (pos + 1) des (dh\<lparr>dh_contents := c, dh_len := newlen\<rparr>) }"
  by (simp add: list_add_def Let_def)

lemma adds_list_item: "adds (list_add flags pos de) (list_item flags pos de)"
  using adds_direntry adds_direntry_plus unfolding list_add_def list_item_def by (cases "and flags FUSE_READDIR_PLUS = 0") simp_all

text \<open>Whatever the entries are, the loop stays inside of the buffer.\<close>

lemma list_loop_ok:
  assumes "dh_ok dh" "dh_needlen dh \<le> dh_size dh"
  shows "\<exists>dh'. list_loop flags pos des dh = Some dh' \<and> dh_ok dh' \<and> dh_same dh dh' \<and> dh_filled dh' = dh_filled dh"
  using assms
proof (induction des arbitrary: pos dh)
  case Nil
  then show ?case by (simp add: dh_same_def)
next
  case (Cons de des)
  let ?x = "list_item flags (pos + 1) de"
  let ?n = "u32 (int (dh_len dh) + int (u32 (int (length ?x))))"
  let ?more = "dh_len dh + length ?x \<le> dh_needlen dh"
  have "\<exists>c. list_add flags (pos + 1) de (dh_contents dh) (dh_len dh) (u32 (int (dh_needlen dh) - int (dh_len dh))) = Some (length ?x, c)
      \<and> dh_ok (dh\<lparr>dh_contents := c\<rparr>)"
    using add_step [OF Cons.prems adds_list_item [of flags "pos + 1" de]] Cons.prems(1)
    by (cases ?more) (auto simp: dh_ok_def split: option.splits)
  then obtain c where c: "list_add flags (pos + 1) de (dh_contents dh) (dh_len dh) (u32 (int (dh_needlen dh) - int (dh_len dh))) = Some (length ?x, c)"
    "dh_ok (dh\<lparr>dh_contents := c\<rparr>)" by blast
  show ?case
  proof (cases "?n > dh_needlen dh")
    case True
    then show ?thesis using c by (simp add: list_loop_Cons dh_same_def del: list_loop.simps)
  next
    case False
    let ?dh = "dh\<lparr>dh_contents := c, dh_len := ?n\<rparr>"
    have "dh_ok ?dh" "dh_needlen ?dh \<le> dh_size ?dh" using c(2) Cons.prems(2) False by (simp_all add: dh_ok_def split: option.splits)
    from Cons.IH [OF this, of "pos + 1"] show ?thesis using c(1) False
      by (auto simp: list_loop_Cons dh_same_def Let_def simp del: list_loop.simps)
  qed
qed

text \<open>Where no length wraps around, it has written the entries that fit.\<close>

lemma list_loop_writes:
  assumes "dh_ok dh" "dh_needlen dh \<le> dh_size dh" "dh_needlen dh < 2 ^ 31" "\<forall>x \<in> set (list_items flags pos des). length x < 2 ^ 31"
  shows "\<exists>dh'. list_loop flags pos des dh = Some dh' \<and> dh_ok dh' \<and> dh_same dh dh' \<and> dh_filled dh' = dh_filled dh
    \<and> written dh' = written dh @ concat (fitting (dh_needlen dh - dh_len dh) (list_items flags pos des))"
  using assms
proof (induction des arbitrary: pos dh)
  case Nil
  then show ?case by (simp add: dh_same_def)
next
  case (Cons de des)
  let ?x = "list_item flags (pos + 1) de"
  have l: "u32 (int (dh_len dh) + int (u32 (int (length ?x)))) = dh_len dh + length ?x"
    using Cons.prems(1,3,4) by (simp add: dh_ok_def nat_add_distrib)
  have le: "dh_len dh \<le> dh_needlen dh" using Cons.prems(1) by (simp add: dh_ok_def)
  note step = add_step [OF Cons.prems(1,2) adds_list_item [of flags "pos + 1" de]]
  show ?case
  proof (cases "dh_len dh + length ?x \<le> dh_needlen dh")
    case False
    then have "list_loop flags pos (de # des) dh = Some dh" using step l by (simp add: list_loop_Cons Let_def del: list_loop.simps)
    then show ?thesis using False le Cons.prems(1) by (auto simp: dh_same_def)
  next
    case True
    then obtain c where c: "list_add flags (pos + 1) de (dh_contents dh) (dh_len dh) (u32 (int (dh_needlen dh) - int (dh_len dh))) = Some (length ?x, c)"
      "dh_ok (dh\<lparr>dh_contents := c, dh_len := dh_len dh + length ?x\<rparr>)" "written (dh\<lparr>dh_contents := c, dh_len := dh_len dh + length ?x\<rparr>) = written dh @ ?x"
      using step by auto
    let ?dh = "dh\<lparr>dh_contents := c, dh_len := dh_len dh + length ?x\<rparr>"
    have "dh_needlen ?dh \<le> dh_size ?dh" "dh_needlen ?dh < 2 ^ 31" "\<forall>x \<in> set (list_items flags (pos + 1) des). length x < 2 ^ 31"
      using Cons.prems(2-4) by simp_all
    from Cons.IH [OF c(2) this] obtain dh' where "list_loop flags (pos + 1) des ?dh = Some dh'" "dh_ok dh'" "dh_same ?dh dh'" "dh_filled dh' = dh_filled dh"
      "written dh' = written dh @ ?x @ concat (fitting (dh_needlen dh - (dh_len dh + length ?x)) (list_items flags (pos + 1) des))" using c(3) by auto
    moreover from this have "list_loop flags pos (de # des) dh = Some dh'" using c(1) True l by (simp add: list_loop_Cons Let_def del: list_loop.simps)
    moreover have "length ?x \<le> dh_needlen dh - dh_len dh" using True by simp
    ultimately show ?thesis by (auto simp: dh_same_def)
  qed
qed

lemma skip_entries_drop: "k \<le> length des \<Longrightarrow> skip_entries (pos + int k) pos des = (pos + int k, drop k des)"
proof (induction des arbitrary: pos k)
  case Nil
  then show ?case by simp
next
  case (Cons de des)
  show ?case
  proof (cases k)
    case (Suc j)
    then show ?thesis using Cons.IH [of j "pos + 1"] Cons.prems by (simp add: algebra_simps)
  qed simp
qed

lemma extend_reset:
  assumes "dh_ok (dh\<lparr>dh_len := 0\<rparr>)"
  obtains c n where "extend_contents ub (dh_needlen dh) (dh\<lparr>dh_len := 0\<rparr>) = Some (dh\<lparr>dh_len := 0, dh_contents := c, dh_size := n\<rparr>)"
    "dh_ok (dh\<lparr>dh_len := 0, dh_contents := c, dh_size := n\<rparr>)" "dh_needlen dh \<le> n"
  by (rule extend_contents_ok [OF assms, of ub]) (rule that, simp_all)

lemma from_list_ok:
  assumes "dh_ok (dh\<lparr>dh_len := 0\<rparr>)"
  obtains dh' where "readdir_fill_from_list ub off flags dh = Some dh'" "dh_ok dh'" "dh_same dh dh'" "dh_filled dh' = dh_filled dh"
proof -
  obtain c n where e: "extend_contents ub (dh_needlen dh) (dh\<lparr>dh_len := 0\<rparr>) = Some (dh\<lparr>dh_len := 0, dh_contents := c, dh_size := n\<rparr>)"
    "dh_ok (dh\<lparr>dh_len := 0, dh_contents := c, dh_size := n\<rparr>)" "dh_needlen dh \<le> n"
    by (rule extend_reset [OF assms])
  obtain pos des where s: "skip_entries off 0 (dh_first dh) = (pos, des)" by fastforce
  show ?thesis
    using list_loop_ok [OF e(2), of flags pos des] e(1,3) s that
    by (auto simp: readdir_fill_from_list_def dh_same_def)
qed

lemma from_list_writes:
  assumes "dh_ok (dh\<lparr>dh_len := 0\<rparr>)" "dh_needlen dh < 2 ^ 31" "k \<le> length (dh_first dh)"
    "\<forall>x \<in> set (list_items flags (int k) (drop k (dh_first dh))). length x < 2 ^ 31"
  obtains dh' where "readdir_fill_from_list ub (int k) flags dh = Some dh'" "dh_ok dh'" "dh_same dh dh'" "dh_filled dh' = dh_filled dh"
    "written dh' = concat (fitting (dh_needlen dh) (list_items flags (int k) (drop k (dh_first dh))))"
proof -
  obtain c n where e: "extend_contents ub (dh_needlen dh) (dh\<lparr>dh_len := 0\<rparr>) = Some (dh\<lparr>dh_len := 0, dh_contents := c, dh_size := n\<rparr>)"
    "dh_ok (dh\<lparr>dh_len := 0, dh_contents := c, dh_size := n\<rparr>)" "dh_needlen dh \<le> n"
    by (rule extend_reset [OF assms(1)])
  have s: "skip_entries (int k) 0 (dh_first dh) = (int k, drop k (dh_first dh))" using skip_entries_drop [OF assms(3), of 0] by simp
  have w0: "written (dh\<lparr>dh_len := 0, dh_contents := c, dh_size := n\<rparr>) = []" by (simp add: written_def split: option.splits)
  show ?thesis
    using list_loop_writes [OF e(2), of flags "int k" "drop k (dh_first dh)"] e(1,3) s assms(2,4) that w0
    by (auto simp: readdir_fill_from_list_def dh_same_def)
qed

section \<open>Reading a reply\<close>

text \<open>
  A reply by the layout of \<open>struct fuse_dirent\<close>, each entry taking \<open>FUSE_DIRENT_SIZE\<close>
  bytes: inode, offset, name, type.
\<close>

type_synonym kernel_entry = "int \<times> int \<times> string \<times> int"

definition dirent_namelen :: "bytes \<Rightarrow> nat" where
  "dirent_namelen bs = nat (dec_le (bslice 16 4 bs))"

function parse_dirents :: "bytes \<Rightarrow> kernel_entry list" where
  "parse_dirents bs =
     (let n = dirent_namelen bs; reclen = FUSE_DIRENT_ALIGN (FUSE_NAME_OFFSET + n)
      in if length bs < FUSE_NAME_OFFSET \<or> length bs < reclen then []
         else (dec_le (bslice 0 8 bs), dec_le (bslice 8 8 bs), map (\<lambda>b. char_of (uint b)) (bslice 24 n bs), dec_le (bslice 20 4 bs))
           # parse_dirents (drop reclen bs))"
  by auto
termination
proof (relation "measure length", goal_cases)
  case (2 bs n reclen)
  have "0 < reclen" using 2 ent_len_pos(1) by (simp add: ent_len_def)
  then show ?case using 2 by (auto simp: FUSE_NAME_OFFSET_def intro!: diff_less)
qed simp

declare parse_dirents.simps [simp del]

text \<open>Entries whose fields fit their width.\<close>

definition entry_fits :: "lstat \<Rightarrow> int \<Rightarrow> string \<Rightarrow> bool" where
  "entry_fits st off nm \<longleftrightarrow> st_ino st < 2 ^ 64 \<and> 0 \<le> off \<and> off < 2 ^ 63 \<and> length nm < 2 ^ 32"

definition seen :: "lstat \<Rightarrow> int \<Rightarrow> string \<Rightarrow> kernel_entry" where
  "seen st off nm = (int (st_ino st), off, nm, drop_bit 12 (and (st_mode st) 0xF000))"

lemma parse_nil [simp]: "parse_dirents [] = []"
  by (subst parse_dirents.simps) (simp add: FUSE_NAME_OFFSET_def)

lemma mode_type_range: "0 \<le> drop_bit 12 (and m (0xF000 :: int))" "drop_bit 12 (and m (0xF000 :: int)) < 256 ^ 4"
proof -
  have "and m 0xF000 \<le> (0xF000 :: int)" by (rule AND_upper2) simp
  then have "and m (0xF000 :: int) div 2 ^ 12 \<le> 0xF000 div 2 ^ 12" by (rule zdiv_mono1) simp
  then show "drop_bit 12 (and m (0xF000 :: int)) < 256 ^ 4" by (simp add: drop_bit_eq_div)
  show "0 \<le> drop_bit 12 (and m (0xF000 :: int))" by simp
qed

lemma char_of_byte [simp]: "char_of (uint (of_char c :: byte)) = c"
proof -
  have "uint (of_char c :: byte) = of_char c mod 256"
    by (simp add: of_char_def flip: uint_word_of_int)
  then show ?thesis by simp
qed

lemma parse_entry:
  assumes "entry_fits st off nm"
  shows "parse_dirents (ent_bytes st off nm @ bs) = seen st off nm # parse_dirents bs"
proof -
  let ?x = "ent_bytes st off nm @ bs"
  define pad where "pad = ent_len (length nm) - (FUSE_NAME_OFFSET + length nm)"
  have x: "?x = enc_le 8 (int (st_ino st)) @ enc_le 8 off @ enc_le 4 (int (length nm)) @ enc_le 4 (drop_bit 12 (and (st_mode st) 0xF000))
      @ map of_char nm @ replicate pad 0 @ bs"
    by (simp add: ent_bytes_def dirent_bytes_def pad_def)
  have sl: "bslice 0 8 ?x = enc_le 8 (int (st_ino st))" "bslice 8 8 ?x = enc_le 8 off" "bslice 16 4 ?x = enc_le 4 (int (length nm))"
    "bslice 20 4 ?x = enc_le 4 (drop_bit 12 (and (st_mode st) 0xF000))" "bslice 24 (length nm) ?x = map of_char nm"
    unfolding x by (simp_all add: bslice_def)
  have n: "dirent_namelen ?x = length nm" using assms by (simp add: dirent_namelen_def sl dec_enc_le entry_fits_def)
  have l: "FUSE_DIRENT_ALIGN (FUSE_NAME_OFFSET + length nm) = length (ent_bytes st off nm)" by (simp add: length_ent_bytes ent_len_def)
  have t: "drop_bit 12 (and (st_mode st) 0xF000) mod 256 ^ 4 = drop_bit 12 (and (st_mode st) 0xF000)"
    using mode_type_range by (rule mod_pos_pos_trivial)
  have "FUSE_NAME_OFFSET \<le> length (ent_bytes st off nm)" using align_le [of "FUSE_NAME_OFFSET + length nm"] l by simp
  then show ?thesis using assms
    by (subst parse_dirents.simps) (simp add: Let_def n l sl dec_enc_le t seen_def entry_fits_def o_def del: append_assoc)
qed

lemma parse_entries:
  "\<forall>(st, off, nm) \<in> set es. entry_fits st off nm \<Longrightarrow>
    parse_dirents (concat (map (\<lambda>(st, off, nm). ent_bytes st off nm) es)) = map (\<lambda>(st, off, nm). seen st off nm) es"
  by (induction es) (auto simp: parse_entry)

text \<open>The entries \<open>es\<close> of a directory from the one behind offset \<open>k\<close> on, with the offsets behind them.\<close>

fun numbered :: "int \<Rightarrow> (lstat \<times> string) list \<Rightarrow> (lstat \<times> int \<times> string) list" where
  "numbered k [] = []"
| "numbered k ((st, nm) # es) = (st, k + 1, nm) # numbered (k + 1) es"

definition dir_bytes :: "int \<Rightarrow> (lstat \<times> string) list \<Rightarrow> bytes list" where
  "dir_bytes k es = map (\<lambda>(st, off, nm). ent_bytes st off nm) (numbered k es)"

definition dir_seen :: "(lstat \<times> string) list \<Rightarrow> kernel_entry list" where
  "dir_seen es = map (\<lambda>(st, off, nm). seen st off nm) (numbered 0 es)"

lemma length_numbered [simp]: "length (numbered k es) = length es"
  by (induction k es rule: numbered.induct) auto

lemma numbered_nth: "i < length es \<Longrightarrow> numbered k es ! i = (fst (es ! i), k + int i + 1, snd (es ! i))"
  by (induction k es arbitrary: i rule: numbered.induct) (auto simp: nth_Cons')

lemma numbered_drop: "drop j (numbered k es) = numbered (k + int j) (drop j es)"
  by (rule nth_equalityI) (auto simp: numbered_nth)

lemma dir_bytes_Nil [simp]: "dir_bytes k [] = []"
  by (simp add: dir_bytes_def)

lemma length_dir_bytes [simp]: "length (dir_bytes k es) = length es"
  by (simp add: dir_bytes_def)

lemma length_dir_seen [simp]: "length (dir_seen es) = length es"
  by (simp add: dir_seen_def)

lemma dir_seen_offset: "i < length es \<Longrightarrow> fst (snd (dir_seen es ! i)) = int i + 1"
  by (simp add: dir_seen_def numbered_nth seen_def)

lemma list_items_bytes: "list_items 0 k des = dir_bytes k (map (\<lambda>de. (de_stat de, de_name de)) des)"
  by (induction des arbitrary: k) (simp_all add: dir_bytes_def list_item_def)

text \<open>A directory whose entries fit the fields and each a reply of \<open>n\<close> bytes.\<close>

definition dir_fits :: "nat \<Rightarrow> (lstat \<times> string) list \<Rightarrow> bool" where
  "dir_fits n es \<longleftrightarrow> length es < 2 ^ 62 \<and> n < 2 ^ 31 \<and> (\<forall>(st, nm) \<in> set es. st_ino st < 2 ^ 64 \<and> ent_len (length nm) \<le> n)"

lemma dir_fits_entry:
  assumes "dir_fits n es" "i < length es"
  shows "entry_fits (fst (es ! i)) (int i + 1) (snd (es ! i))"
    "ent_len (length (snd (es ! i))) \<le> n"
proof -
  have e: "ent_len (length (snd (es ! i))) \<le> n" "st_ino (fst (es ! i)) < 2 ^ 64" using assms nth_mem [OF assms(2)] by (auto simp: dir_fits_def split_beta)
  then show "ent_len (length (snd (es ! i))) \<le> n" by simp
  have "length (snd (es ! i)) < 2 ^ 32" using e(1) assms(1) align_le [of "FUSE_NAME_OFFSET + length (snd (es ! i))"] by (simp add: dir_fits_def ent_len_def)
  then show "entry_fits (fst (es ! i)) (int i + 1) (snd (es ! i))" using e(2) assms by (simp add: dir_fits_def entry_fits_def)
qed

lemma dir_bytes_small:
  assumes "dir_fits n es"
  shows "\<forall>x \<in> set (dir_bytes k (drop j es)). length x < 2 ^ 31"
proof
  fix x assume "x \<in> set (dir_bytes k (drop j es))"
  then obtain i where "i < length es - j" "x = ent_bytes (fst (es ! (j + i))) (k + int i + 1) (snd (es ! (j + i)))"
    by (auto simp: dir_bytes_def in_set_conv_nth numbered_nth)
  then have "j + i < length es" "length x = ent_len (length (snd (es ! (j + i))))" by (simp_all add: length_ent_bytes)
  then show "length x < 2 ^ 31" using dir_fits_entry(2) [OF assms] assms by (fastforce simp: dir_fits_def)
qed

text \<open>A reply with the entries from the \<open>k\<close>-th on that fit is read as those entries.\<close>

lemma dir_reply:
  assumes "dir_fits n es" "k \<le> length es"
  shows "\<exists>m. parse_dirents (concat (fitting n (dir_bytes (int k) (drop k es)))) = take m (drop k (dir_seen es)) \<and> (k < length es \<longrightarrow> 0 < m)
    \<and> m = length (fitting n (dir_bytes (int k) (drop k es))) \<and> k + m \<le> length es"
proof -
  let ?xs = "dir_bytes (int k) (drop k es)"
  let ?m = "length (fitting n ?xs)"
  have nb: "numbered (int k) (drop k es) = drop k (numbered 0 es)" using numbered_drop [of k 0 es] by simp
  have f: "fitting n ?xs = map (\<lambda>(st, off, nm). ent_bytes st off nm) (take ?m (drop k (numbered 0 es)))"
  proof -
    have "take j ?xs = map (\<lambda>(st, off, nm). ent_bytes st off nm) (take j (drop k (numbered 0 es)))" for j by (simp add: dir_bytes_def nb take_map)
    then show ?thesis by (rule trans [OF fitting_take])
  qed
  have all: "\<forall>(st, off, nm) \<in> set (numbered 0 es). entry_fits st off nm"
  proof
    fix x assume "x \<in> set (numbered 0 es)"
    then obtain i where i: "i < length es" "x = (fst (es ! i), int i + 1, snd (es ! i))" by (auto simp: in_set_conv_nth numbered_nth)
    then show "case x of (st, off, nm) \<Rightarrow> entry_fits st off nm" using dir_fits_entry(1) [OF assms(1) i(1)] by simp
  qed
  have "\<forall>(st, off, nm) \<in> set (take ?m (drop k (numbered 0 es))). entry_fits st off nm"
    using all by (blast dest: in_set_takeD in_set_dropD)
  then have "parse_dirents (concat (fitting n ?xs)) = map (\<lambda>(st, off, nm). seen st off nm) (take ?m (drop k (numbered 0 es)))"
    by (subst f) (rule parse_entries)
  also have "\<dots> = take ?m (drop k (dir_seen es))" by (simp add: dir_seen_def take_map drop_map)
  finally have p: "parse_dirents (concat (fitting n ?xs)) = take ?m (drop k (dir_seen es))" .
  have m: "?m \<le> length ?xs" using fitting_take [of n ?xs] by (metis length_take min.cobounded1)
  have "0 < ?m" if "k < length es"
  proof -
    have "drop k es = es ! k # drop (Suc k) es" using that by (rule Cons_nth_drop_Suc [symmetric])
    then have "hd ?xs = ent_bytes (fst (es ! k)) (int k + 1) (snd (es ! k))" "?xs \<noteq> []" by (cases "es ! k"; simp add: dir_bytes_def)+
    then have "fitting n ?xs \<noteq> []" using dir_fits_entry(2) [OF assms(1) that] by (intro fitting_some) (simp_all add: length_ent_bytes)
    then show ?thesis by simp
  qed
  then show ?thesis using p m assms(2) by auto
qed

section \<open>Reading a directory to its end\<close>

text \<open>A client that goes on from the offset of the last entry until a reply is empty.\<close>

definition reply_buf :: "reply \<Rightarrow> bytes option" where
  "reply_buf r = (case r of Reply_buf b \<Rightarrow> Some b | _ \<Rightarrow> None)"

partial_function (option) dir_stream :: "(int \<Rightarrow> 's \<Rightarrow> (reply \<times> 's) option) \<Rightarrow> int \<Rightarrow> 's \<Rightarrow> kernel_entry list option" where
  "dir_stream req off s = do {
     (r, s) \<leftarrow> req off s;
     b \<leftarrow> reply_buf r;
     let es = parse_dirents b;
     if es = [] then Some []
     else do { rest \<leftarrow> dir_stream req (fst (snd (last es))) s; Some (es @ rest) } }"

locale dir_server =
  fixes req :: "int \<Rightarrow> 's \<Rightarrow> (reply \<times> 's) option"
    and stands :: "nat \<Rightarrow> 's \<Rightarrow> bool"
    and xs :: "kernel_entry list"
  assumes offsets: "i < length xs \<Longrightarrow> fst (snd (xs ! i)) = int i + 1"
    and serve: "stands k s \<Longrightarrow> k \<le> length xs \<Longrightarrow>
      \<exists>b s' m. req (int k) s = Some (Reply_buf b, s') \<and> parse_dirents b = take m (drop k xs) \<and> (k < length xs \<longrightarrow> 0 < m) \<and> k + m \<le> length xs \<and> stands (k + m) s'"
begin

lemma stream: "stands k s \<Longrightarrow> k \<le> length xs \<Longrightarrow> dir_stream req (int k) s = Some (drop k xs)"
proof (induction "length xs - k" arbitrary: k s rule: less_induct)
  case less
  obtain b s' m where r: "req (int k) s = Some (Reply_buf b, s')" "parse_dirents b = take m (drop k xs)" "k < length xs \<longrightarrow> 0 < m"
    "k + m \<le> length xs" "stands (k + m) s'" using serve [OF less.prems] by blast
  show ?case
  proof (cases "k < length xs")
    case False
    then show ?thesis using r less.prems(2) by (subst dir_stream.simps) (simp add: reply_buf_def)
  next
    case True
    then have m: "0 < m" using r(3) by simp
    have ne: "take m (drop k xs) \<noteq> []" using True m by simp
    moreover have "length (take m (drop k xs)) = m" using r(4) by simp
    ultimately have "last (take m (drop k xs)) = xs ! (k + m - 1)" using m r(4) by (simp add: last_conv_nth)
    then have l: "fst (snd (last (take m (drop k xs)))) = int (k + m)" using offsets [of "k + m - 1"] r(4) m by simp
    have "dir_stream req (int (k + m)) s' = Some (drop (k + m) xs)" using less.hyps [of "k + m"] r(4,5) m True by simp
    moreover have "take m (drop k xs) @ drop (k + m) xs = drop k xs" using append_take_drop_id [of m "drop k xs"] by (simp add: add.commute)
    ultimately show ?thesis using r(1,2) l ne by (subst dir_stream.simps) (simp add: reply_buf_def Let_def)
  qed
qed

end

end
