(* ===== verification/Locked_Nodes.thy ===== *)
theory Locked_Nodes
  imports Node_Paths
begin

text \<open>
  The requests on nodes do not depend on the locks that are held: on the state with the
  locks \<open>L\<close> they do what they do without locks, as long as no locked node is freed. So what
  holds between requests also holds while paths are locked.
\<close>

section \<open>Views\<close>

lemma relock_fields [simp]:
  "fbrk (relock L f) = fbrk f" "name_table (relock L f) = name_table f" "id_table (relock L f) = id_table f" "ctr (relock L f) = ctr f"
  "generation (relock L f) = generation f" "remember (relock L f) = remember f" "lru_table (relock L f) = lru_table f" "forget_time (relock L f) = forget_time f"
  by (simp_all add: relock_def)

lemma relock_keys [simp]: "id_key (relock L f) = id_key f" "name_key (relock L f) = name_key f"
proof -
  show "id_key (relock L f) = id_key f" by (simp add: id_key_def relock_fnodes option.map_comp o_def fun_eq_iff)
  show "name_key (relock L f) = name_key f"
    by (auto simp: name_key_def relock_fnodes fun_eq_iff bind_eq_None_conv split: bind_splits)
qed

lemma relock_hash [simp]: "id_hash (relock L f) i = id_hash f i" "name_hash (relock L f) d nm = name_hash f d nm"
  "get_node_nocheck (relock L f) i = get_node_nocheck f i"
  by (simp_all add: id_hash_def name_hash_def get_node_nocheck_def relock_fnodes option.map_comp o_def)

lemma relock_tables: "(relock L f)\<lparr>name_table := t\<rparr> = relock L (f\<lparr>name_table := t\<rparr>)" "(relock L f)\<lparr>id_table := t\<rparr> = relock L (f\<lparr>id_table := t\<rparr>)"
  "(relock L f)\<lparr>ctr := c, generation := g\<rparr> = relock L (f\<lparr>ctr := c, generation := g\<rparr>)"
  by (simp_all add: relock_def)

lemma relock_mod_other:
  assumes "mod_node x g f = Some f'" "\<And>nd t. g (nd\<lparr>treelock := t\<rparr>) = (g nd)\<lparr>treelock := t\<rparr>"
  shows "mod_node x g (relock L f) = Some (relock L f')"
  using assms by (cases "fnodes f x") (auto simp: mod_node_def relock_def fun_eq_iff)

section \<open>Requests that free nothing\<close>

lemma relock_hash_id: "hash_id x f = Some f' \<Longrightarrow> hash_id x (relock L f) = Some (relock L f')"
  by (auto simp: hash_id_def relock_fnodes relock_tables split: bind_splits)

lemma relock_inc_refctr:
  assumes "inc_refctr x f = Some f'"
  shows "inc_refctr x (relock L f) = Some (relock L f')"
proof -
  obtain nd where nd: "fnodes f x = Some nd" "refctr nd < int INT_MAX" "mod_node x (\<lambda>nd. nd\<lparr>refctr := refctr nd + 1\<rparr>) f = Some f'"
    using assms by (auto simp: inc_refctr_def split: bind_splits if_splits)
  have "mod_node x (\<lambda>nd. nd\<lparr>refctr := refctr nd + 1\<rparr>) (relock L f) = Some (relock L f')" by (rule relock_mod_other [OF nd(3)]) simp
  then show ?thesis using nd(1,2) by (simp add: inc_refctr_def relock_fnodes)
qed

lemma relock_inc_nlookup:
  assumes "inc_nlookup x f = Some f'"
  shows "inc_nlookup x (relock L f) = Some (relock L f')"
proof -
  obtain nd f1 where nd: "fnodes f x = Some nd" "(if nlookup nd = 0 then inc_refctr x f else Some f) = Some f1"
    "mod_node x (\<lambda>nd. nd\<lparr>nlookup := (nlookup nd + 1) mod 2 ^ 64\<rparr>) f1 = Some f'"
    using assms by (auto simp: inc_nlookup_def split: bind_splits)
  have "(if nlookup nd = 0 then inc_refctr x (relock L f) else Some (relock L f)) = Some (relock L f1)"
    using nd(2) relock_inc_refctr by (auto split: if_splits)
  moreover have "mod_node x (\<lambda>nd. nd\<lparr>nlookup := (nlookup nd + 1) mod 2 ^ 64\<rparr>) (relock L f1) = Some (relock L f')"
    by (rule relock_mod_other [OF nd(3)]) simp
  ultimately show ?thesis using nd(1) by (simp add: inc_nlookup_def relock_fnodes)
qed

lemma relock_hash_name:
  assumes "hash_name x d nm f = Some f'"
  shows "hash_name x d nm (relock L f) = Some (relock L f')"
proof -
  obtain p f1 f2 f3 t where s: "get_node f d = Some p" "mod_node x (\<lambda>nd. nd\<lparr>nname := Some nm\<rparr>) f = Some f1"
    "inc_refctr p f1 = Some f2" "mod_node x (\<lambda>nd. nd\<lparr>parent := p\<rparr>) f2 = Some f3"
    "tab_add (name_key f3) (name_hash f d nm) x (name_table f3) = Some t" "f' = f3\<lparr>name_table := t\<rparr>"
    using assms by (auto simp: hash_name_def Let_def split: bind_splits)
  show ?thesis unfolding hash_name_def Let_def
    using s(1,5,6) relock_mod_other [OF s(2), of L] relock_inc_refctr [OF s(3), of L] relock_mod_other [OF s(4), of L] by (simp add: relock_tables)
qed

lemma relock_next_id:
  assumes "next_id f = Some r"
  shows "next_id (relock L f) = Some (fst r, relock L (snd r))"
proof (rule next_id.raw_induct [OF _ assms, where P = "\<lambda>f r. next_id (relock L f) = Some (fst r, relock L (snd r))"], goal_cases)
  case (1 rec f r)
  define c where "c = (ctr f + 1) mod 2 ^ 32"
  define g where "g = f\<lparr>ctr := c, generation := (if c = 0 then (generation f + 1) mod 2 ^ 32 else generation f)\<rparr>"
  have step: "next_id (relock L f) = (if c = 0 \<or> c = FUSE_UNKNOWN_INO then next_id (relock L g)
      else do { x \<leftarrow> get_node_nocheck g c; if x \<noteq> 0 then next_id (relock L g) else Some (c, relock L g) })"
    by (subst next_id.simps) (simp only: Let_def relock_fields relock_tables relock_hash c_def g_def)
  have r: "(if c = 0 \<or> c = FUSE_UNKNOWN_INO then rec g
      else do { x \<leftarrow> get_node_nocheck g c; if x \<noteq> 0 then rec g else Some (c, g) }) = Some r"
    using 1(2) by (simp only: Let_def c_def g_def)
  show ?case
  proof (cases "c = 0 \<or> c = FUSE_UNKNOWN_INO")
    case True
    then show ?thesis using 1(1) [of g r] r by (simp only: step if_True)
  next
    case False
    then have "do { x \<leftarrow> get_node_nocheck g c; if x \<noteq> 0 then rec g else Some (c, g) } = Some r" using r by (simp only: if_False)
    then obtain x where x: "get_node_nocheck g c = Some x" "(if x \<noteq> 0 then rec g else Some (c, g)) = Some r" by (cases "get_node_nocheck g c") auto
    show ?thesis using x 1(1) [of g r] False by (cases "x = 0") (auto simp: step)
  qed
qed

lemma relock_alloc: "L (fbrk f) = 0 \<Longrightarrow> alloc_node (relock L f) = (fst (alloc_node f), relock L (snd (alloc_node f)))"
  by (simp add: alloc_node_def relock_def Let_def fun_eq_iff)

lemma relock_find_node:
  assumes "find_node par (Some nm) f = Some (x, f')" "remember f = 0" "L (fbrk f) = 0"
  shows "find_node par (Some nm) (relock L f) = Some (x, relock L f')"
proof -
  have rem: "\<not> lru_enabled f" "\<not> lru_enabled (relock L f)" using assms(2) by (simp_all add: lru_enabled_def)
  obtain y where y: "lookup_node f par nm = Some y" using assms(1) by (auto simp: find_node_def split: bind_splits)
  show ?thesis
  proof (cases "y = 0")
    case True
    obtain z f1 where al: "alloc_node f = (z, f1)" by (cases "alloc_node f")
    obtain c f2 f3 f4 f5 f6 where s: "next_id f1 = Some (c, f2)"
      "mod_node z (\<lambda>nd. nd\<lparr>nodeid := c, ngeneration := generation f2\<rparr>) f2 = Some f3"
      "(if remember f3 \<noteq> 0 then inc_nlookup z f3 else Some f3) = Some f4"
      "hash_name z par nm f4 = Some f5" "hash_id z f5 = Some f6" "inc_nlookup x f6 = Some f'" "z = x"
      using assms(1) unfolding find_node_def by (simp add: y True al Let_def bind_eq_Some_conv) (elim exE conjE, erule (6) that)
    have "mod_node z (\<lambda>nd. nd\<lparr>nodeid := c, ngeneration := generation f2\<rparr>) (relock L f2) = Some (relock L f3)"
      by (rule relock_mod_other [OF s(2)]) simp
    note fs = y True al s(7) assms(3) relock_alloc [of L f] relock_next_id [OF s(1), of L] this
      relock_hash_name [OF s(4), of L] relock_hash_id [OF s(5), of L] relock_inc_nlookup [OF s(6), of L]
    show ?thesis
    proof (cases "remember f3 = 0")
      case True
      then have "f4 = f3" using s(3) by simp
      then show ?thesis unfolding find_node_def using fs True by (simp add: Let_def)
    next
      case False
      then have "inc_nlookup z (relock L f3) = Some (relock L f4)" using s(3) relock_inc_nlookup by simp
      then show ?thesis unfolding find_node_def using fs False by (simp add: Let_def)
    qed
  next
    case False
    then show ?thesis using assms(1) y rem relock_inc_nlookup by (auto simp: find_node_def relock_fnodes Let_def split: bind_splits)
  qed
qed

section \<open>Requests that free nodes\<close>

text \<open>No node that is freed is locked.\<close>

definition frees_unlocked :: "(node \<Rightarrow> int) \<Rightarrow> fuse \<Rightarrow> fuse \<Rightarrow> bool" where
  "frees_unlocked L f f' \<longleftrightarrow> live f' \<subseteq> live f \<and> (\<forall>y \<in> live f - live f'. L y = 0)"

lemma live_relock [simp]: "live (relock L f) = live f"
  by (auto simp: live_def relock_fnodes)

lemma mod_node_live_eq: "mod_node x g f = Some f' \<Longrightarrow> live f' = live f"
  by (auto simp: mod_node_def live_def split: option.splits if_splits)

lemma take_name_live: "take_name x f = Some f' \<Longrightarrow> live f' = live f"
  by (auto simp: take_name_def live_def split: bind_splits)

lemma drop_name_live: "drop_name x f = Some f' \<Longrightarrow> live f' = live f"
  by (auto simp: drop_name_def live_def mod_node_def split: bind_splits option.splits if_splits)

lemma unhash_id_live: "unhash_id x f = Some f' \<Longrightarrow> live f' = live f"
  by (auto simp: unhash_id_def live_def split: bind_splits option.splits)

lemma relock_take_name: "take_name x f = Some f' \<Longrightarrow> take_name x (relock L f) = Some (relock L f')"
  by (auto simp: take_name_def relock_fnodes relock_tables split: bind_splits)

lemma relock_drop_name:
  assumes "drop_name x f = Some f'"
  shows "drop_name x (relock L f) = Some (relock L f')"
proof -
  obtain f1 t where "mod_node x (\<lambda>nd. nd\<lparr>nname := None, parent := 0\<rparr>) f = Some f1" "tab_dec (name_table f1) = Some t" "f' = f1\<lparr>name_table := t\<rparr>"
    using assms by (auto simp: drop_name_def split: bind_splits)
  moreover have "mod_node x (\<lambda>nd. nd\<lparr>nname := None, parent := 0\<rparr>) (relock L f) = Some (relock L f1)"
    by (rule relock_mod_other [OF calculation(1)]) simp
  ultimately show ?thesis by (simp add: drop_name_def relock_tables)
qed

lemma relock_unhash_id: "unhash_id x f = Some f' \<Longrightarrow> unhash_id x (relock L f) = Some (relock L f')"
  by (auto simp: unhash_id_def relock_fnodes relock_tables split: bind_splits option.splits)

lemma relock_lru [simp]: "remove_node_lru x (relock L f) = relock L (remove_node_lru x f)" "lru_enabled (relock L f) = lru_enabled f"
  by (simp_all add: remove_node_lru_def relock_def lru_enabled_def)

lemma live_lru [simp]: "live (remove_node_lru x f) = live f"
  by (simp add: remove_node_lru_def live_def)

lemma relock_free_node: "free_node x f = Some f' \<Longrightarrow> free_node x (relock L f) = Some (relock L f')"
  by (auto simp: free_node_def relock_def fun_eq_iff split: option.splits)

lemma relock_unref_node:
  assumes "unref_node x f = Some f'"
  shows "live f' \<subseteq> live f \<and> (frees_unlocked L f f' \<longrightarrow> unref_node x (relock L f) = Some (relock L f'))"
proof (rule unref_node.raw_induct [where xa = "(x, f)" and y = f' and P = "\<lambda>x f f'. live f' \<subseteq> live f \<and>
    (frees_unlocked L f f' \<longrightarrow> unref_node x (relock L f) = Some (relock L f'))", unfolded prod.case, OF _ assms], goal_cases)
  case (1 rec x f f')
  obtain nd f1 where nd: "fnodes f x = Some nd" "refctr nd > 0" "mod_node x (\<lambda>nd. nd\<lparr>refctr := refctr nd - 1\<rparr>) f = Some f1"
    using 1(2) by (auto split: bind_splits if_splits)
  have m: "mod_node x (\<lambda>nd. nd\<lparr>refctr := refctr nd - 1\<rparr>) (relock L f) = Some (relock L f1)"
    by (rule relock_mod_other [OF nd(3)]) simp
  have l1: "live f1 = live f" by (rule mod_node_live_eq [OF nd(3)])
  show ?case
  proof (cases "refctr nd - 1 = 0")
    case False
    then have "f' = f1" using 1(2) nd by simp
    then show ?thesis using False nd m l1 by (subst unref_node.simps) (simp add: relock_fnodes)
  next
    case True
    obtain f2 f3 where s: "treelock nd = 0"
      "(case nname nd of None \<Rightarrow> Some f1 | Some nm \<Rightarrow> do { f \<leftarrow> take_name x f1; f \<leftarrow> rec (parent nd) f; drop_name x f }) = Some f2"
      "unhash_id x (if lru_enabled f2 then remove_node_lru x f2 else f2) = Some f3" "free_node x f3 = Some f'"
      using 1(2) nd True by (auto simp: Let_def split: bind_splits if_splits)
    have l3: "live f3 = live f2" using unhash_id_live [OF s(3)] by (simp split: if_splits)
    have l4: "live f' = live f3 - {x}" using s(4) by (auto simp: free_node_def live_def split: option.splits if_splits)
    have rest: "live f2 \<subseteq> live f1 \<and> (frees_unlocked L f1 f2 \<longrightarrow>
      (case nname nd of None \<Rightarrow> Some (relock L f1) | Some nm \<Rightarrow> do { f \<leftarrow> take_name x (relock L f1); f \<leftarrow> unref_node (parent nd) f; drop_name x f }) = Some (relock L f2))"
    proof (cases "nname nd")
      case None
      then show ?thesis using s(2) by simp
    next
      case (Some nm)
      then obtain g1 g2 where g: "take_name x f1 = Some g1" "rec (parent nd) g1 = Some g2" "drop_name x g2 = Some f2"
        using s(2) by (auto split: bind_splits)
      note lv = take_name_live [OF g(1)] drop_name_live [OF g(3)]
      show ?thesis using 1(1) [OF g(2)] Some lv relock_take_name [OF g(1), of L] relock_drop_name [OF g(3), of L] by (simp add: frees_unlocked_def)
    qed
    have "unref_node x (relock L f) = Some (relock L f')" if "frees_unlocked L f f'"
    proof -
      have "x \<in> live f" using nd(1) by (simp add: live_def)
      then have Lx: "L x = 0" using that l4 by (auto simp: frees_unlocked_def)
      have "frees_unlocked L f1 f2" using that rest l1 l3 l4 by (auto simp: frees_unlocked_def)
      then have r: "(case nname nd of None \<Rightarrow> Some (relock L f1) | Some nm \<Rightarrow> do { f \<leftarrow> take_name x (relock L f1); f \<leftarrow> unref_node (parent nd) f; drop_name x f })
        = Some (relock L f2)" using rest by blast
      have u: "unhash_id x (if lru_enabled f2 then remove_node_lru x (relock L f2) else relock L f2) = Some (relock L f3)"
        using relock_unhash_id [OF s(3), of L] by (simp split: if_splits)
      show ?thesis
        using nd(1,2) m True Lx r u relock_free_node [OF s(4), of L] by (subst unref_node.simps) (cases "nname nd"; simp add: relock_fnodes Let_def del: bind_assoc)
    qed
    then show ?thesis using rest l1 l3 l4 by blast
  qed
qed

lemma relock_unhash_name:
  assumes "unhash_name x f = Some f'"
  shows "live f' \<subseteq> live f \<and> (frees_unlocked L f f' \<longrightarrow> unhash_name x (relock L f) = Some (relock L f'))"
proof -
  obtain nd where nd: "fnodes f x = Some nd" using assms by (auto simp: unhash_name_def split: bind_splits)
  show ?thesis
  proof (cases "nname nd")
    case None
    then show ?thesis using assms nd by (simp add: unhash_name_def relock_fnodes)
  next
    case (Some nm)
    then obtain g1 g2 where g: "take_name x f = Some g1" "unref_node (parent nd) g1 = Some g2" "drop_name x g2 = Some f'"
      using assms nd by (auto simp: unhash_name_def split: bind_splits)
    note lv = take_name_live [OF g(1)] drop_name_live [OF g(3)]
    show ?thesis using relock_unref_node [OF g(2), of L] Some nd lv relock_take_name [OF g(1), of L] relock_drop_name [OF g(3), of L]
      by (simp add: frees_unlocked_def unhash_name_def relock_fnodes)
  qed
qed

lemma hash_name_live: "hash_name x d nm f = Some f' \<Longrightarrow> live f' = live f"
  by (auto simp: hash_name_def inc_refctr_def live_def mod_node_def Let_def split: bind_splits option.splits if_splits)

lemma relock_unlink_node:
  assumes "Fuse_Nodes.unlink_node x f = Some f'" "remember f = 0"
  shows "live f' \<subseteq> live f \<and> (frees_unlocked L f f' \<longrightarrow> Fuse_Nodes.unlink_node x (relock L f) = Some (relock L f'))"
  using relock_unhash_name assms by (simp add: Fuse_Nodes.unlink_node_def)

lemma relock_remove_node:
  assumes "remove_node d nm f = Some f'" "remember f = 0" "frees_unlocked L f f'"
  shows "remove_node d nm (relock L f) = Some (relock L f')"
  using assms relock_unlink_node [of _ f f' L] by (auto simp: remove_node_def split: bind_splits if_splits)

lemma relock_rename_node:
  assumes "rename_node d1 nm1 d2 nm2 False f = Some (r, f')" "remember f = 0" "frees_unlocked L f f'"
  shows "rename_node d1 nm1 d2 nm2 False (relock L f) = Some (r, relock L f')"
proof -
  obtain x y where xy: "lookup_node f d1 nm1 = Some x" "lookup_node f d2 nm2 = Some y" using assms(1) by (auto simp: rename_node_def split: bind_splits)
  show ?thesis
  proof (cases "x = 0")
    case True
    then show ?thesis using assms(1) xy by (simp add: rename_node_def)
  next
    case False
    obtain g1 g2 where g: "(if y \<noteq> 0 then Fuse_Nodes.unlink_node y f else Some f) = Some g1" "unhash_name x g1 = Some g2"
      "hash_name x d2 nm2 g2 = Some f'" "r = 0"
      using assms(1) xy False unfolding rename_node_def by (auto simp: bind_eq_Some_conv)
    have l1: "live g1 \<subseteq> live f" using g(1) relock_unlink_node [OF _ assms(2)] by (auto split: if_splits)
    have l2: "live g2 \<subseteq> live g1" using relock_unhash_name [OF g(2)] by blast
    have l3: "live f' = live g2" by (rule hash_name_live [OF g(3)])
    have "frees_unlocked L f g1" "frees_unlocked L g1 g2" using assms(3) l1 l2 l3 by (auto simp: frees_unlocked_def)
    then have "(if y \<noteq> 0 then Fuse_Nodes.unlink_node y (relock L f) else Some (relock L f)) = Some (relock L g1)" "unhash_name x (relock L g1) = Some (relock L g2)"
      using g(1) relock_unlink_node [OF _ assms(2)] relock_unhash_name [OF g(2)] by (auto split: if_splits)
    then show ?thesis unfolding rename_node_def using xy False g(4) relock_hash_name [OF g(3), of L] by simp
  qed
qed

section \<open>Paths stay while they are locked\<close>

text \<open>The nodes on the way from \<open>x\<close> to the root are as before.\<close>

definition way_kept :: "node \<Rightarrow> fuse \<Rightarrow> fuse \<Rightarrow> bool" where
  "way_kept x f f' \<longleftrightarrow> (\<forall>y. (x, y) \<in> (parents f)\<^sup>* \<longrightarrow> y \<in> live f \<longrightarrow> y \<in> live f' \<and> nodeid (fn f' y) = nodeid (fn f y)
     \<and> parent (fn f' y) = parent (fn f y) \<and> nname (fn f' y) = nname (fn f y))"

lemma way_kept_refl [simp]: "way_kept x f f"
  by (simp add: way_kept_def)

lemma up_kept:
  assumes "up f x ps z" "way_kept x f f'" "nodes_inv f" "x \<in> live f"
  shows "up f' x ps z \<and> z \<in> live f' \<and> nodeid (fn f' z) = nodeid (fn f z)"
  using assms(1,2,4)
proof (induction ps arbitrary: x)
  case Nil
  then show ?case by (simp add: way_kept_def)
next
  case (Cons a ps)
  obtain nm where a: "a = (x, nm)" using Cons.prems(1) by (cases a) auto
  have x: "x \<in> named f" "nodeid (fn f x) \<noteq> FUSE_ROOT_ID" "nname (fn f x) = Some nm" "up f (parent (fn f x)) ps z" using Cons.prems(1) by (simp_all add: a)
  have p: "(x, parent (fn f x)) \<in> parents f" "parent (fn f x) \<in> live f"
    using x(1) node_invD(2) [OF conjunct1 [OF assms(3)]] by (auto simp: parents_def names_ok_def)
  have k: "x \<in> live f'" "nodeid (fn f' x) = nodeid (fn f x)" "parent (fn f' x) = parent (fn f x)" "nname (fn f' x) = nname (fn f x)"
    using Cons.prems(2,3) by (auto simp: way_kept_def)
  have "way_kept (parent (fn f x)) f f'" using Cons.prems(2) p(1) by (auto simp: way_kept_def intro: converse_rtrancl_into_rtrancl)
  from Cons.IH [OF x(4) this p(2)] show ?case using x k by (auto simp: a named_def)
qed

end
