(* ===== verification/Lib_Requests.thy ===== *)
theory Lib_Requests
  imports Fuse_Lib Locked_Nodes
begin

text \<open>
  What the requests of the kernel do (\<open>lib/fuse.c\<close>, theory \<open>Fuse_Lib\<close>): the locks a request
  takes are gone when it replies, the file system is called with the path of the node, and
  the nodes change as theory \<open>Node_Sessions\<close> has it.
\<close>

section \<open>Locking the path of a request\<close>

text \<open>The locks of a request: the nodes of the path for reading, and \<open>w\<close>, if any, for writing.\<close>

definition req_locks :: "node \<Rightarrow> (node \<times> string) list \<Rightarrow> node \<Rightarrow> int" where
  "req_locks w ps = lock_more (passed ps) (if w = 0 then (\<lambda>_. 0) else (\<lambda>_. 0)(w := TREELOCK_WRITE))"

lemma nodes_unlocked: "nodes_inv f \<Longrightarrow> relock (\<lambda>_. 0) f = f"
  by (rule relock_same) (use nodes_okD(7) node_invD(1) in blast)

lemma req_locks_free: "y \<notin> passed ps \<Longrightarrow> y \<noteq> w \<Longrightarrow> req_locks w ps y = 0"
  by (simp add: req_locks_def lock_more_def)

lemma unlock_request:
  assumes inv: "nodes_inv f" "nodes_inv f'" and x: "get_node f' ino = Some x" "x \<in> live f" "up f x ps z" "nodeid (fn f z) = FUSE_ROOT_ID"
    and kept: "way_kept x f f'" and w: "w = 0 \<or> w \<in> live f'" "w \<notin> passed ps"
  shows "unlock_path ino w 0 (relock (req_locks w ps) f') = Some f'"
proof -
  have u: "up f' x ps z" "z \<in> live f'" "nodeid (fn f' z) = FUSE_ROOT_ID" using up_kept [OF x(3) kept inv(1) x(2)] x(4) by simp_all
  note n = nodes_okD [OF node_invD(1) [OF conjunct1 [OF inv(2)]]]
  have d: "distinct (map fst ps)" using up_distinct [OF n(6) u(1)] by simp
  have p0: "0 \<notin> passed ps" using up_named [OF u(1)] n(2) named_live by blast
  let ?L = "if w = 0 then (\<lambda>_. 0) else (\<lambda>_. 0)(w := TREELOCK_WRITE) :: node \<Rightarrow> int"
  have "unlock_path ino w 0 (relock (lock_more (passed ps) ?L) f') = Some (relock (if w \<noteq> 0 then ?L(w := 0) else ?L) f')"
    by (intro unlock_path_up [OF x(1) u(1,2) d p0]) (use u(3) w in auto)
  moreover have "(if w \<noteq> 0 then ?L(w := 0) else ?L) = (\<lambda>_. 0)" by (simp add: fun_eq_iff)
  ultimately show ?thesis using nodes_unlocked [OF inv(2)] by (simp only: req_locks_def)
qed

lemma try_write_none:
  assumes "lookup_node f ino nm = Some 0"
  shows "try_get_path u ino (Some nm) True True f = try_get_path u ino (Some nm) False True f"
  using assms by (simp add: try_get_path_def Let_def)

text \<open>A request with room for its path.\<close>

definition path_room :: "fuse \<Rightarrow> string option \<Rightarrow> bool" where
  "path_room f name \<longleftrightarrow> c_names f \<and> CHR 0x00 \<notin> set (suffix_of name) \<and> names_length f + length (suffix_of name) + 3 < 2 ^ 32"

lemma lock_request:
  assumes inv: "nodes_inv f" and x: "get_node f ino = Some x" "x \<in> live f" "up f x ps z" "z \<in> live f" "nodeid (fn f z) = FUSE_ROOT_ID"
    and room: "path_room f name" and w: "if want then \<exists>nm. name = Some nm \<and> lookup_node f ino nm = Some w \<and> (w = 0 \<or> w \<in> live f) else w = 0"
    and wp: "w \<notin> passed ps"
  shows "get_path_common u ino name want f = Some (0, Some (slashed (path_of ps @ suffix_of name)), w, relock (req_locks w ps) f)"
proof -
  have r: "c_names f" "CHR 0x00 \<notin> set (suffix_of name)" "names_length f + length (suffix_of name) + 3 < 2 ^ 32" using room by (simp_all add: path_room_def)
  have st: "stop_code True L f z = Some 0" for L using x(5) by (simp add: stop_code_def)
  have rd: "try_get_path u ino name False True f = Some (0, Some (slashed (path_of ps @ suffix_of name)), 0, relock (req_locks 0 ps) f)"
    using try_read [OF inv r(1) x(1,3,4) st _ r(2,3), of "\<lambda>_. 0" u] nodes_unlocked [OF inv] by (simp add: req_locks_def)
  show ?thesis
  proof (cases "w = 0")
    case True
    then have "try_get_path u ino name want True f = try_get_path u ino name False True f" using w try_write_none by (auto split: if_splits)
    then show ?thesis using rd True by (simp add: get_path_common_def EAGAIN_def)
  next
    case False
    then obtain nm where nm: "want" "name = Some nm" "lookup_node f ino nm = Some w" "w \<in> live f" using w by (auto split: if_splits)
    have nl: "CHR 0x00 \<notin> set nm" "names_length f + length nm + 4 < 2 ^ 32" using r(2,3) nm(2) by (simp_all add: suffix_of_def)
    have "try_get_path u ino (Some nm) True True f = Some (0, Some (path_of ps @ CHR ''/'' # nm), w, relock (req_locks w ps) f)"
      using try_write [OF inv r(1) x(1,3,4) nm(3) False nm(4) _ st _ wp nl, of "\<lambda>_. 0" u] nodes_unlocked [OF inv] False by (simp add: req_locks_def)
    then show ?thesis using nm(1,2) by (simp add: get_path_common_def EAGAIN_def slashed_def suffix_of_def)
  qed
qed

text \<open>For a node that names lead to: the state is locked, and can be unlocked after the request has changed the nodes.\<close>

lemma request_path:
  assumes s: "node_session f K" "0 < K ino" and wk: "walk f FUSE_ROOT_ID nms = Some ino" and room: "path_room f name"
    and want: "want \<longrightarrow> name \<noteq> None"
  obtains x ps w where "get_node f ino = Some x" "x \<in> live f" "nodeid (fn f x) = ino" "passed ps \<subseteq> named f" "0 < nlookup (fn f x)"
    "get_path_common u ino name want f = Some (0, Some (slashed (spell nms @ suffix_of name)), w, relock (req_locks w ps) f)"
    "if want then lookup_node f ino (the name) = Some w \<and> (w = 0 \<or> w \<in> kids f x) else w = 0"
    "\<forall>y \<in> passed ps. (x, y) \<in> (parents f)\<^sup>*" "w \<notin> passed ps"
    "\<And>f'. nodes_inv f' \<Longrightarrow> get_node f' ino = Some x \<Longrightarrow> way_kept x f f' \<Longrightarrow> w = 0 \<or> w \<in> live f' \<Longrightarrow>
      unlock_path ino w 0 (relock (req_locks w ps) f') = Some f'"
proof -
  have inv: "nodes_inv f" "counted f K" using session_inv [OF s(1)] by simp_all
  obtain x where x: "x \<in> live f" "nodeid (fn f x) = ino" "nlookup (fn f x) = K ino" "get_node f ino = Some x" using counted_node [OF inv s(2)] by metis
  obtain y ps r where y: "y \<in> live f" "nodeid (fn f y) = ino" "up f y ps r" "r \<notin> named f" "nodeid (fn f r) = FUSE_ROOT_ID" "rev (map snd ps) = nms"
    using walk_up [OF inv(1) wk] by blast
  have "y = x" using get_node_live [OF conjunct1 [OF inv(1)] y(1)] y(2) x(4) by simp
  then have up: "up f x ps r" using y(3) by simp
  have r: "r \<in> live f" using up_walk_end [OF inv(1) up x(1)] .
  have pp: "passed ps \<subseteq> named f" by (rule up_named [OF up])
  have n0: "0 \<notin> live f" using nodes_okD(2) [OF node_invD(1) [OF conjunct1 [OF inv(1)]]] .
  obtain w where w: "if want then lookup_node f ino (the name) = Some w \<and> (w = 0 \<or> w \<in> kids f x) else w = 0"
  proof (cases want)
    case True
    obtain w where w: "lookup_node f (nodeid (fn f x)) (the name) = Some w"
      "if w = 0 then \<forall>y \<in> named f - {}. \<not> (parent (fn f y) = x \<and> nname (fn f y) = Some (the name)) else w \<in> named f - {} \<and> parent (fn f w) = x \<and> nname (fn f w) = Some (the name)"
      using lookup_node_inv [OF conjunct1 [OF inv(1)] x(1), of "the name"] by blast
    then have "w = 0 \<or> w \<in> kids f x" by (auto simp: kids_def split: if_splits)
    then show ?thesis using that w(1) x(2) True by auto
  next
    case False
    then show ?thesis using that by simp
  qed
  have wp: "w \<notin> passed ps"
  proof (cases "w = 0")
    case True
    then show ?thesis using pp n0 named_live by blast
  next
    case False
    then show ?thesis using w child_not_passed [OF inv(1) _ up] by (auto split: if_splits)
  qed
  have wl: "if want then \<exists>nm. name = Some nm \<and> lookup_node f ino nm = Some w \<and> (w = 0 \<or> w \<in> live f) else w = 0"
    using w want named_live by (auto simp: kids_def)
  have g: "get_path_common u ino name want f = Some (0, Some (slashed (spell nms @ suffix_of name)), w, relock (req_locks w ps) f)"
    using lock_request [OF inv(1) x(4,1) up r y(5) room wl wp, of u] y(6) spell_path [of ps] by simp
  have reach: "\<forall>y \<in> passed ps. (x, y) \<in> (parents f)\<^sup>*" using up_reach [OF up] by blast
  have un: "unlock_path ino w 0 (relock (req_locks w ps) f') = Some f'"
    if "nodes_inv f'" "get_node f' ino = Some x" "way_kept x f f'" "w = 0 \<or> w \<in> live f'" for f'
    by (rule unlock_request [OF inv(1) that(1,2) x(1) up y(5) that(3,4) wp])
  show ?thesis by (rule that [OF x(4,1,2) pp _ g w reach wp un]) (use x(3) s(2) in simp)
qed

lemma slashed_name: "slashed (p @ suffix_of (Some nm)) = p @ CHR ''/'' # nm" "slashed (p @ CHR ''/'' # nm) = p @ CHR ''/'' # nm"
  by (simp_all add: slashed_def suffix_of_def)

text \<open>The two kinds of requests with one path.\<close>

lemma reader_path:
  assumes "node_session f K" "0 < K ino" "walk f FUSE_ROOT_ID nms = Some ino" "path_room f name"
  obtains x ps where "get_node f ino = Some x" "x \<in> live f" "nodeid (fn f x) = ino" "passed ps \<subseteq> named f"
    "get_path_common u ino name False f = Some (0, Some (slashed (spell nms @ suffix_of name)), 0, relock (req_locks 0 ps) f)"
    "unlock_path ino 0 0 (relock (req_locks 0 ps) f) = Some f"
    "\<And>f'. nodes_inv f' \<Longrightarrow> get_node f' ino = Some x \<Longrightarrow> way_kept x f f' \<Longrightarrow> unlock_path ino 0 0 (relock (req_locks 0 ps) f') = Some f'"
proof -
  obtain x ps w where x: "get_node f ino = Some x" "x \<in> live f" "nodeid (fn f x) = ino" "passed ps \<subseteq> named f" "0 < nlookup (fn f x)"
    "get_path_common u ino name False f = Some (0, Some (slashed (spell nms @ suffix_of name)), w, relock (req_locks w ps) f)"
    "if False then lookup_node f ino (the name) = Some w \<and> (w = 0 \<or> w \<in> kids f x) else w = 0"
    and un: "\<And>f'. nodes_inv f' \<Longrightarrow> get_node f' ino = Some x \<Longrightarrow> way_kept x f f' \<Longrightarrow> w = 0 \<or> w \<in> live f' \<Longrightarrow>
      unlock_path ino w 0 (relock (req_locks w ps) f') = Some f'"
    by (rule request_path [OF assms, of False]) (simp, blast)
  have w: "w = 0" using x(7) by simp
  have "nodes_inv f" using session_inv [OF assms(1)] by simp
  then have "unlock_path ino 0 0 (relock (req_locks 0 ps) f) = Some f" using un x(1) by (simp add: w)
  then show ?thesis using that [OF x(1-4) x(6) [unfolded w]] un by (simp add: w)
qed

lemma writer_path:
  assumes "node_session f K" "0 < K ino" "walk f FUSE_ROOT_ID nms = Some ino" "path_room f (Some nm)"
  obtains x ps w where "get_node f ino = Some x" "x \<in> live f" "nodeid (fn f x) = ino" "passed ps \<subseteq> named f" "0 < nlookup (fn f x)"
    "\<forall>y \<in> passed ps. (x, y) \<in> (parents f)\<^sup>*" "w \<notin> passed ps" "lookup_node f ino nm = Some w" "w = 0 \<or> w \<in> kids f x"
    "get_path_common u ino (Some nm) True f = Some (0, Some (spell nms @ CHR ''/'' # nm), w, relock (req_locks w ps) f)"
    "unlock_path ino w 0 (relock (req_locks w ps) f) = Some f"
    "\<And>f'. nodes_inv f' \<Longrightarrow> get_node f' ino = Some x \<Longrightarrow> way_kept x f f' \<Longrightarrow> w = 0 \<or> w \<in> live f' \<Longrightarrow>
      unlock_path ino w 0 (relock (req_locks w ps) f') = Some f'"
proof -
  obtain x ps w where x: "get_node f ino = Some x" "x \<in> live f" "nodeid (fn f x) = ino" "passed ps \<subseteq> named f" "0 < nlookup (fn f x)"
    "get_path_common u ino (Some nm) True f = Some (0, Some (slashed (spell nms @ suffix_of (Some nm))), w, relock (req_locks w ps) f)"
    "if True then lookup_node f ino (the (Some nm)) = Some w \<and> (w = 0 \<or> w \<in> kids f x) else w = 0"
    "\<forall>y \<in> passed ps. (x, y) \<in> (parents f)\<^sup>*" "w \<notin> passed ps"
    and un: "\<And>f'. nodes_inv f' \<Longrightarrow> get_node f' ino = Some x \<Longrightarrow> way_kept x f f' \<Longrightarrow> w = 0 \<or> w \<in> live f' \<Longrightarrow>
      unlock_path ino w 0 (relock (req_locks w ps) f') = Some f'"
    by (rule request_path [OF assms, of True]) (simp, blast)
  have w: "lookup_node f ino nm = Some w" "w = 0 \<or> w \<in> kids f x" using x(7) by simp_all
  have "nodes_inv f" using session_inv [OF assms(1)] by simp
  then have "unlock_path ino w 0 (relock (req_locks w ps) f) = Some f"
    using un [of f] x(1) w(2) by (auto simp: kids_def named_def)
  then show ?thesis using that [OF x(1-5,8,9) w x(6) [unfolded slashed_name]] un by blast
qed

section \<open>The way is kept\<close>

lemma way_keptI:
  assumes inv: "nodes_inv f" "nodes_inv f'" and x: "x \<in> live f" "x \<in> live f'"
    and same: "\<And>y. (x, y) \<in> (parents f)\<^sup>* \<Longrightarrow> y \<in> live f' \<Longrightarrow> y \<in> live f \<Longrightarrow> (fn f' y)\<lparr>refctr := 0\<rparr> = (fn f y)\<lparr>refctr := 0\<rparr>"
  shows "way_kept x f f'"
proof -
  have "y \<in> live f' \<and> y \<in> live f" if "(x, y) \<in> (parents f)\<^sup>*" for y
    using that
  proof (induction rule: rtrancl_induct)
    case (step y z)
    have y: "y \<in> named f" "z = parent (fn f y)" using step.hyps(2) by (auto simp: parents_def)
    have e: "parent (fn f' y) = parent (fn f y)" using same_but_refctr(2) [OF same [OF step.hyps(1)]] step.IH by simp
    have "y \<in> named f'" using step.IH y(1) e by (simp add: named_def)
    then have "z \<in> live f'" using node_invD(2) [OF conjunct1 [OF inv(2)]] y(2) e by (auto simp: names_ok_def)
    moreover have "z \<in> live f" using node_invD(2) [OF conjunct1 [OF inv(1)]] y by (auto simp: names_ok_def)
    ultimately show ?case by simp
  qed (use x in simp)
  then show ?thesis using same same_but_refctr unfolding way_kept_def by metis
qed

lemma kid_not_above:
  assumes "nodes_inv f" "y \<in> kids f x"
  shows "(x, y) \<notin> (parents f)\<^sup>*"
proof
  assume "(x, y) \<in> (parents f)\<^sup>*"
  moreover have "(y, x) \<in> parents f" using assms(2) by (auto simp: kids_def parents_def)
  ultimately have "(y, y) \<in> (parents f)\<^sup>+" by (meson rtrancl_into_trancl2)
  then show False using nodes_okD(6) [OF node_invD(1) [OF conjunct1 [OF assms(1)]]] by (simp add: acyclic_def)
qed

lemma looked_up_way:
  assumes inv: "nodes_inv f" "nodes_inv f'" and x: "x \<in> live f" and l: "looked_up x nm y f f'"
  shows "way_kept x f f'" "get_node f' (nodeid (fn f x)) = Some x"
proof -
  note u = l [unfolded looked_up_def]
  have xl: "x \<in> live f'" using x u by simp
  have yx: "(x, y) \<notin> (parents f)\<^sup>* \<or> y \<notin> live f"
  proof (rule ccontr)
    assume "\<not> ((x, y) \<notin> (parents f)\<^sup>* \<or> y \<notin> live f)"
    moreover have "parents f \<subseteq> parents f'" using u by blast
    ultimately have "(x, y) \<in> (parents f')\<^sup>*" using rtrancl_mono by blast
    moreover have "y \<in> kids f' x" using u by (simp add: kids_def)
    ultimately show False using kid_not_above [OF inv(2)] by blast
  qed
  show "way_kept x f f'"
  proof (rule way_keptI [OF inv x xl])
    fix z assume z: "(x, z) \<in> (parents f)\<^sup>*" "z \<in> live f'" "z \<in> live f"
    then have "z \<noteq> y" using yx by blast
    then show "(fn f' z)\<lparr>refctr := 0\<rparr> = (fn f z)\<lparr>refctr := 0\<rparr>" using u z(3) by blast
  qed
  have "nodeid (fn f' x) = nodeid (fn f x)" using u x same_but_refctr(1) [of "fn f' x" "fn f x"] by (cases "x = y") auto
  then show "get_node f' (nodeid (fn f x)) = Some x" using get_node_live [OF conjunct1 [OF inv(2)] xl] by simp
qed

lemma unnames_way:
  assumes inv: "nodes_inv f" "nodes_inv f'" and p: "p \<in> live f" "0 < nlookup (fn f p)" "(p, x) \<notin> (parents f)\<^sup>*" and u: "unnames x f f'"
  shows "way_kept p f f'" "get_node f' (nodeid (fn f p)) = Some p"
proof -
  have pl: "p \<in> live f'" using unnamesD(7) [OF u, of p] p(1,2) by (cases "p \<in> live f'") auto
  have px: "p \<noteq> x" using p(3) by auto
  show "way_kept p f f'"
  proof (rule way_keptI [OF inv p(1) pl])
    fix z assume "(p, z) \<in> (parents f)\<^sup>*" "z \<in> live f'" "z \<in> live f"
    then show "(fn f' z)\<lparr>refctr := 0\<rparr> = (fn f z)\<lparr>refctr := 0\<rparr>" using unnamesD(8) [OF u, of z] p(3) by (cases "z = x") auto
  qed
  have "nodeid (fn f' p) = nodeid (fn f p)" using same_but_refctr(1) [OF unnamesD(8) [OF u pl px]] .
  then show "get_node f' (nodeid (fn f p)) = Some p" using get_node_live [OF conjunct1 [OF inv(2)] pl] by simp
qed

section \<open>Requests that look up\<close>

definition entry_of :: "fuse_config \<Rightarrow> lstat \<Rightarrow> fuse \<Rightarrow> node \<Rightarrow> entry" where
  "entry_of cf st f x = \<lparr>e_ino = nodeid (fn f x), e_generation = ngeneration (fn f x), e_attr = set_stat cf (nodeid (fn f x)) st,
     e_attr_timeout = c_attr_timeout cf, e_entry_timeout = c_entry_timeout cf\<rparr>"

text \<open>What is needed for a lookup to have an identifier and a count to take.\<close>

definition lookup_room :: "fuse \<Rightarrow> (nat \<Rightarrow> nat) \<Rightarrow> bool" where
  "lookup_room f K \<longleftrightarrow> card (live f) + 1 < INT_MAX \<and> (\<forall>ino. K ino + 1 < 2 ^ 64)"

lemma lookup_session_next:
  "node_session f K \<Longrightarrow> 0 < K par \<Longrightarrow> lookup_room f K \<Longrightarrow> find_node par (Some name) f = Some (y, f') \<Longrightarrow>
    node_session f' (K(nodeid (fn f' y) := K (nodeid (fn f' y)) + 1))"
  using node_session.lookup by (simp add: lookup_room_def)

lemma locked_lookup:
  assumes s: "node_session (nodes l) K" "0 < K par" "lookup_room (nodes l) K" and x: "get_node (nodes l) par = Some x" "x \<in> live (nodes l)" "nodeid (fn (nodes l) x) = par"
    and ps: "passed ps \<subseteq> named (nodes l)"
    and un: "\<And>f'. nodes_inv f' \<Longrightarrow> get_node f' par = Some x \<Longrightarrow> way_kept x (nodes l) f' \<Longrightarrow>
      unlock_path par 0 0 (relock (req_locks 0 ps) f') = Some f'"
  shows "\<exists>y f'. find_node par (Some name) (nodes l) = Some (y, f')
    \<and> do_lookup cf par (Some name) (zero_entry\<lparr>e_attr := st\<rparr>) (l\<lparr>nodes := relock (req_locks 0 ps) (nodes l)\<rparr>)
      = Some (entry_of cf st f' y, l\<lparr>nodes := relock (req_locks 0 ps) f'\<rparr>)
    \<and> unlock_path par 0 0 (relock (req_locks 0 ps) f') = Some f'"
proof -
  let ?f = "nodes l"
  have inv: "nodes_inv ?f" "counted ?f K" using session_inv [OF s(1)] by simp_all
  note n = nodes_okD [OF node_invD(1) [OF conjunct1 [OF inv(1)]]]
  obtain p y f' where f': "p \<in> live ?f" "nodeid (fn ?f p) = par" "find_node par (Some name) ?f = Some (y, f')" "nodes_inv f'" "looked_up p name y ?f f'"
    using lookup_step [OF inv s(2), of name] s(3) unfolding lookup_room_def by metis
  have "p = x" using get_node_live [OF conjunct1 [OF inv(1)] f'(1)] f'(2) x(1) by simp
  then have lu: "looked_up x name y ?f f'" using f'(5) by simp
  have "fbrk ?f \<notin> passed ps" using ps named_live n(3) by fastforce
  then have "req_locks 0 ps (fbrk ?f) = 0" using n(12) by (simp add: req_locks_def lock_more_def)
  then have fl: "find_node par (Some name) (relock (req_locks 0 ps) ?f) = Some (y, relock (req_locks 0 ps) f')"
    using relock_find_node [OF f'(3) n(9)] by blast
  have "y \<in> live f'" using lu by (simp add: looked_up_def)
  then have "fnodes (relock (req_locks 0 ps) f') y = Some ((fn f' y)\<lparr>treelock := req_locks 0 ps y\<rparr>)" by (simp add: relock_fnodes live_fn)
  then have "do_lookup cf par (Some name) (zero_entry\<lparr>e_attr := st\<rparr>) (l\<lparr>nodes := relock (req_locks 0 ps) ?f\<rparr>)
      = Some (entry_of cf st f' y, l\<lparr>nodes := relock (req_locks 0 ps) f'\<rparr>)"
    using fl by (simp add: do_lookup_def entry_of_def zero_entry_def Let_def)
  moreover have "unlock_path par 0 0 (relock (req_locks 0 ps) f') = Some f'"
    by (rule un [OF f'(4)]) (use looked_up_way [OF inv(1) f'(4) x(2) lu] x(3) in auto)
  ultimately show ?thesis using f'(3) by blast
qed

text \<open>
  Creating a directory: the operation is called with the path of the parent and the name;
  where it succeeds and the attributes can be read, the reply names the node that a lookup
  of the name gives, and the nodes are those after that lookup; in every other case the
  reply is the error and the nodes are as before. No lock is left.
\<close>

theorem mkdir_request:
  assumes "node_session (nodes l) K" "0 < K par" "walk (nodes l) FUSE_ROOT_ID nms = Some par" "path_room (nodes l) (Some name)" "lookup_room (nodes l) K"
  shows "let path = spell nms @ CHR ''/'' # name; (err, w1) = fuse_fs_mkdir fs path mode w; (err', st, w2) = fuse_fs_getattr fs (Some path) None w1
    in if err \<noteq> 0 then fuse_lib_mkdir u fs cf False now par name mode l w = Some (Reply_err (- err), l, w1)
       else if err' \<noteq> 0 then fuse_lib_mkdir u fs cf False now par name mode l w = Some (Reply_err (- err'), l, w2)
       else \<exists>x f'. find_node par (Some name) (nodes l) = Some (x, f') \<and> node_session f' (K(nodeid (fn f' x) := K (nodeid (fn f' x)) + 1))
         \<and> fuse_lib_mkdir u fs cf False now par name mode l w = Some (Reply_entry (entry_of cf st f' x), l\<lparr>nodes := f'\<rparr>, w2)"
proof -
  let ?f = "nodes l" and ?path = "spell nms @ CHR ''/'' # name"
  obtain err w1 where m: "fuse_fs_mkdir fs ?path mode w = (err, w1)" by (cases "fuse_fs_mkdir fs ?path mode w")
  obtain err' st w2 where g: "fuse_fs_getattr fs (Some ?path) None w1 = (err', st, w2)" by (cases "fuse_fs_getattr fs (Some ?path) None w1")
  obtain x ps where x: "get_node ?f par = Some x" "x \<in> live ?f" "nodeid (fn ?f x) = par" "passed ps \<subseteq> named ?f"
    "get_path_common u par (Some name) False ?f = Some (0, Some (slashed (spell nms @ suffix_of (Some name))), 0, relock (req_locks 0 ps) ?f)"
    "unlock_path par 0 0 (relock (req_locks 0 ps) ?f) = Some ?f"
    and un: "\<And>f'. nodes_inv f' \<Longrightarrow> get_node f' par = Some x \<Longrightarrow> way_kept x ?f f' \<Longrightarrow> unlock_path par 0 0 (relock (req_locks 0 ps) f') = Some f'"
    by (rule reader_path [OF assms(1-4)]) blast
  note p = x(5) [unfolded slashed_name]
  obtain y f' where lk: "find_node par (Some name) ?f = Some (y, f')"
    "do_lookup cf par (Some name) (zero_entry\<lparr>e_attr := st\<rparr>) (l\<lparr>nodes := relock (req_locks 0 ps) ?f\<rparr>) = Some (entry_of cf st f' y, l\<lparr>nodes := relock (req_locks 0 ps) f'\<rparr>)"
    "unlock_path par 0 0 (relock (req_locks 0 ps) f') = Some f'"
    using locked_lookup [OF assms(1,2,5) x(1-4) un] by blast
  show ?thesis
    using lk(1,3) x(6) lookup_session_next [OF assms(1,2,5) lk(1)] by (simp add: Let_def m g fuse_lib_mkdir_def p lookup_path_def lk(2) free_path_lib_def free_path_def free_path_wrlock_def reply_entry_def)
qed

text \<open>
  C22. Looking up a name (other than the dots): the attributes of the path of the name are read;
  if there are none and the answer may be kept, the reply is an entry without a node.
\<close>

theorem lookup_request:
  assumes "node_session (nodes l) K" "0 < K par" "walk (nodes l) FUSE_ROOT_ID nms = Some par" "path_room (nodes l) (Some name)" "lookup_room (nodes l) K"
    "name \<noteq> ''.''" "name \<noteq> ''..''"
  shows "let (err, st, w') = fuse_fs_getattr fs (Some (spell nms @ CHR ''/'' # name)) None w
    in if err = 0 then \<exists>x f'. find_node par (Some name) (nodes l) = Some (x, f') \<and> node_session f' (K(nodeid (fn f' x) := K (nodeid (fn f' x)) + 1))
         \<and> fuse_lib_lookup u fs cf False now par name l w = Some (Reply_entry (entry_of cf st f' x), l\<lparr>nodes := f'\<rparr>, w')
       else fuse_lib_lookup u fs cf False now par name l w =
         Some (if err = - ENOENT \<and> c_negative_timeout cf \<noteq> 0
               then Reply_entry (zero_entry\<lparr>e_attr := st, e_entry_timeout := c_negative_timeout cf\<rparr>) else Reply_err (- err), l, w')"
proof -
  let ?f = "nodes l" and ?path = "spell nms @ CHR ''/'' # name"
  obtain err st w' where g: "fuse_fs_getattr fs (Some ?path) None w = (err, st, w')" by (cases "fuse_fs_getattr fs (Some ?path) None w")
  obtain x ps where x: "get_node ?f par = Some x" "x \<in> live ?f" "nodeid (fn ?f x) = par" "passed ps \<subseteq> named ?f"
    "get_path_common u par (Some name) False ?f = Some (0, Some (slashed (spell nms @ suffix_of (Some name))), 0, relock (req_locks 0 ps) ?f)"
    "unlock_path par 0 0 (relock (req_locks 0 ps) ?f) = Some ?f"
    and un: "\<And>f'. nodes_inv f' \<Longrightarrow> get_node f' par = Some x \<Longrightarrow> way_kept x ?f f' \<Longrightarrow> unlock_path par 0 0 (relock (req_locks 0 ps) f') = Some f'"
    by (rule reader_path [OF assms(1-4)]) blast
  note p = x(5) [unfolded slashed_name]
  obtain y f' where lk: "find_node par (Some name) ?f = Some (y, f')"
    "do_lookup cf par (Some name) (zero_entry\<lparr>e_attr := st\<rparr>) (l\<lparr>nodes := relock (req_locks 0 ps) ?f\<rparr>) = Some (entry_of cf st f' y, l\<lparr>nodes := relock (req_locks 0 ps) f'\<rparr>)"
    "unlock_path par 0 0 (relock (req_locks 0 ps) f') = Some f'"
    using locked_lookup [OF assms(1,2,5) x(1-4) un] by blast
  have "fuse_lib_lookup u fs cf False now par name l w = lookup_rest u fs cf False now par (Some name) 0 l w"
    using assms(6,7) by (simp add: fuse_lib_lookup_def)
  note rest = this lookup_rest_def p lookup_path_def free_path_lib_def free_path_def free_path_wrlock_def reply_entry_def
  show ?thesis
  proof (cases "err = 0")
    case True
    then show ?thesis using lk(1,3) lookup_session_next [OF assms(1,2,5) lk(1)] by (simp add: Let_def g rest lk(2) ENOENT_def)
  next
    case False
    then show ?thesis using x(6) by (simp add: Let_def g rest zero_entry_def)
  qed
qed

lemma locked_remove:
  assumes inv: "nodes_inv f" and x: "get_node f par = Some x" "x \<in> live f" "nodeid (fn f x) = par" "passed ps \<subseteq> named f" "0 < nlookup (fn f x)"
    and ps: "\<forall>y \<in> passed ps. (x, y) \<in> (parents f)\<^sup>*" and w: "lookup_node f par nm = Some w" "w = 0 \<or> w \<in> kids f x"
    and un: "\<And>f'. nodes_inv f' \<Longrightarrow> get_node f' par = Some x \<Longrightarrow> way_kept x f f' \<Longrightarrow> w = 0 \<or> w \<in> live f' \<Longrightarrow>
      unlock_path par w 0 (relock (req_locks w ps) f') = Some f'"
  shows "\<exists>f'. remove_node par nm f = Some f' \<and> remove_node par nm (relock (req_locks w ps) f) = Some (relock (req_locks w ps) f')
    \<and> unlock_path par w 0 (relock (req_locks w ps) f') = Some f'"
proof -
  note n = nodes_okD [OF node_invD(1) [OF conjunct1 [OF inv]]]
  obtain f' where f': "remove_node par nm f = Some f'" "nodes_inv f'"
    "f' = f \<and> (\<forall>y \<in> kids f x. nname (fn f y) \<noteq> Some nm) \<or> (\<exists>y \<in> kids f x. nname (fn f y) = Some nm \<and> unnames y f f')"
    using remove_node_inv [OF inv x(2), of nm] x(3) by auto
  show ?thesis
  proof (cases "\<exists>y \<in> kids f x. nname (fn f y) = Some nm")
    case False
    then have e: "f' = f" using f'(3) by blast
    have "w = 0" using w False lookup_node_inv [OF conjunct1 [OF inv] x(2), of nm] x(3) by (auto simp: kids_def split: if_splits)
    then have "remove_node par nm (relock (req_locks w ps) f) = Some (relock (req_locks w ps) f)" using w(1) by (simp add: remove_node_def)
    moreover have "unlock_path par w 0 (relock (req_locks w ps) f) = Some f" by (rule un [OF inv x(1)]) (use \<open>w = 0\<close> in simp_all)
    ultimately show ?thesis using f'(1) e by simp
  next
    case True
    then obtain y where y: "y \<in> kids f x" "nname (fn f y) = Some nm" "unnames y f f'" using f'(3) by blast
    have "w = y" using lookup_kid [OF inv x(2) y(1,2)] x(3) w(1) by simp
    have nw: "(x, y) \<notin> (parents f)\<^sup>*" by (rule kid_not_above [OF inv y(1)])
    note way = unnames_way [OF inv f'(2) x(2,5) nw y(3)]
    have "frees_unlocked (req_locks w ps) f f'"
      unfolding frees_unlocked_def
    proof (intro conjI ballI)
      show "live f' \<subseteq> live f" using unnamesD(1) [OF y(3)] .
      fix z assume z: "z \<in> live f - live f'"
      have "z \<notin> passed ps" using z ps way(1) by (auto simp: way_kept_def)
      moreover have "z \<noteq> w" using z unnamesD(2) [OF y(3)] \<open>w = y\<close> by auto
      ultimately show "req_locks w ps z = 0" by (rule req_locks_free)
    qed
    then have "remove_node par nm (relock (req_locks w ps) f) = Some (relock (req_locks w ps) f')" by (rule relock_remove_node [OF f'(1) n(9)])
    moreover have "unlock_path par w 0 (relock (req_locks w ps) f') = Some f'"
      by (rule un [OF f'(2)]) (use way x(3) unnamesD(2) [OF y(3)] \<open>w = y\<close> in auto)
    ultimately show ?thesis using f'(1) by blast
  qed
qed

text \<open>
  C13. Removing a directory in a directory that the kernel knows, in a session of nodes whose names
  have no zero byte and fit a path buffer: the operation is called with the path of the name, and
  where it succeeds the name is taken from the nodes; otherwise the error is replied and the nodes
  are as before. The entry was locked for writing; no lock is left.
\<close>

theorem rmdir_request:
  assumes "node_session (nodes l) K" "0 < K par" "walk (nodes l) FUSE_ROOT_ID nms = Some par" "path_room (nodes l) (Some name)"
  shows "let (err, w1) = fuse_fs_rmdir fs (spell nms @ CHR ''/'' # name) w
    in if err \<noteq> 0 then fuse_lib_rmdir u fs par name l w = Some (Reply_err (- err), l, w1)
       else \<exists>f'. remove_node par name (nodes l) = Some f' \<and> node_session f' K \<and> fuse_lib_rmdir u fs par name l w = Some (Reply_err 0, l\<lparr>nodes := f'\<rparr>, w1)"
proof -
  let ?f = "nodes l" and ?path = "spell nms @ CHR ''/'' # name"
  obtain err w1 where m: "fuse_fs_rmdir fs ?path w = (err, w1)" by (cases "fuse_fs_rmdir fs ?path w")
  have inv: "nodes_inv ?f" using session_inv [OF assms(1)] by simp
  obtain x ps wn where x: "get_node ?f par = Some x" "x \<in> live ?f" "nodeid (fn ?f x) = par" "passed ps \<subseteq> named ?f" "0 < nlookup (fn ?f x)"
    "\<forall>y \<in> passed ps. (x, y) \<in> (parents ?f)\<^sup>*" "lookup_node ?f par name = Some wn" "wn = 0 \<or> wn \<in> kids ?f x"
    "get_path_common u par (Some name) True ?f = Some (0, Some ?path, wn, relock (req_locks wn ps) ?f)"
    "unlock_path par wn 0 (relock (req_locks wn ps) ?f) = Some ?f"
    and un: "\<And>f'. nodes_inv f' \<Longrightarrow> get_node f' par = Some x \<Longrightarrow> way_kept x ?f f' \<Longrightarrow> wn = 0 \<or> wn \<in> live f' \<Longrightarrow>
      unlock_path par wn 0 (relock (req_locks wn ps) f') = Some f'"
    by (rule writer_path [OF assms]) blast
  obtain f' where f': "remove_node par name ?f = Some f'" "remove_node par name (relock (req_locks wn ps) ?f) = Some (relock (req_locks wn ps) f')"
    "unlock_path par wn 0 (relock (req_locks wn ps) f') = Some f'"
    using locked_remove [OF inv x(1-8) un] by blast
  show ?thesis using x(10) f' node_session.remove [OF assms(1,2) f'(1)]
    by (simp add: Let_def m fuse_lib_rmdir_def x(9) remove_node_lib_def free_path_wrlock_lib_def free_path_wrlock_def)
qed

section \<open>Requests with two paths\<close>

lemma way_kept_trans:
  assumes "way_kept x f g" "way_kept x g h" "nodes_inv f" "x \<in> live f"
  shows "way_kept x f h"
proof -
  have "(x, y) \<in> (parents g)\<^sup>* \<and> y \<in> live f" if "(x, y) \<in> (parents f)\<^sup>*" for y
    using that
  proof (induction rule: rtrancl_induct)
    case (step y z)
    have y: "y \<in> named f" "z = parent (fn f y)" using step.hyps(2) by (auto simp: parents_def)
    have "y \<in> live g" "parent (fn g y) = z" using assms(1) step.hyps(1) step.IH y(2) by (auto simp: way_kept_def)
    then have "(y, z) \<in> parents g" using y by (auto simp: parents_def named_def)
    moreover have "z \<in> live f" using y node_invD(2) [OF conjunct1 [OF assms(3)]] by (auto simp: names_ok_def)
    ultimately show ?case using step.IH by (meson rtrancl.rtrancl_into_rtrancl)
  qed (use assms(4) in simp)
  then show ?thesis using assms(1,2) unfolding way_kept_def by metis
qed

lemma hash_name_others:
  assumes "hash_name x d nm f = Some f'" "z \<noteq> x"
  shows "(fn f' z)\<lparr>refctr := 0\<rparr> = (fn f z)\<lparr>refctr := 0\<rparr>"
  using assms by (auto simp: hash_name_def inc_refctr_def fn_def mod_node_def Let_def split: bind_splits option.splits if_splits)

text \<open>What a rename leaves: the ways of other nodes, and both entries.\<close>

lemma rename_steps:
  assumes inv: "nodes_inv f" and r: "rename_node d1 nm1 d2 nm2 False f = Some (0, f')"
    and x: "lookup_node f d1 nm1 = Some x" "x \<in> kids f p1" and y: "lookup_node f d2 nm2 = Some y" "y = 0 \<or> y \<in> kids f p2" "y \<noteq> x"
    and cyc: "(p2, x) \<notin> (parents f)\<^sup>*" "(p1, y) \<notin> (parents f)\<^sup>*"
  obtains g1 g2 where "nodes_inv g1" "nodes_inv g2" "g1 = f \<and> y = 0 \<or> y \<noteq> 0 \<and> unnames y f g1" "x \<in> named g1" "parent (fn g1 x) = p1"
    "unnames x g1 g2" "hash_name x d2 nm2 g2 = Some f'" "y = 0 \<or> y \<in> live f'" "x \<in> live f'" "parents g1 \<subseteq> parents f"
proof -
  note n = nodes_okD [OF node_invD(1) [OF conjunct1 [OF inv]]]
  have xn: "x \<in> named f" "parent (fn f x) = p1" using x(2) by (simp_all add: kids_def)
  have x0: "x \<noteq> 0" using named_live [OF xn(1)] n(2) by metis
  obtain g1 g2 where g: "(if y \<noteq> 0 then Fuse_Nodes.unlink_node y f else Some f) = Some g1" "unhash_name x g1 = Some g2" "hash_name x d2 nm2 g2 = Some f'"
    using r x(1) y(1) x0 unfolding rename_node_def by (auto simp: bind_eq_Some_conv)
  have g1: "nodes_inv g1 \<and> (g1 = f \<and> y = 0 \<or> y \<noteq> 0 \<and> unnames y f g1) \<and> x \<in> named g1 \<and> parent (fn g1 x) = p1 \<and> parents g1 \<subseteq> parents f"
  proof (cases "y = 0")
    case True
    then show ?thesis using g(1) inv xn by simp
  next
    case False
    then have yn: "y \<in> named f" "parent (fn f y) = p2" using y(2) by (simp_all add: kids_def)
    have "unhash_name y f = Some g1" using g(1) False n(9) by (simp add: Fuse_Nodes.unlink_node_def)
    then have u: "nodes_inv g1" "unnames y f g1" using unhash_name_inv [OF inv yn(1)] by auto
    have xl: "x \<in> live g1" using u(2) cyc(1) named_live [OF xn(1)] yn(2) by (auto simp: unnames_def)
    have "parent (fn g1 x) = p1" using same_but_refctr(2) [OF unnamesD(8) [OF u(2) xl]] y(3) xn(2) by simp
    then show ?thesis using u False xl xn unnames_parents [OF u(2)] by (auto simp: named_def)
  qed
  then obtain g2' where u2: "unhash_name x g1 = Some g2'" "nodes_inv g2'" "unnames x g1 g2'" using unhash_name_inv [of g1 x] by blast
  have e: "g2' = g2" using u2(1) g(2) by simp
  have l3: "live f' = live g2" by (rule hash_name_live [OF g(3)])
  have "y \<in> live g2" if "y \<noteq> 0"
  proof -
    have "y \<in> live g1" using g1 unnamesD(2) that by blast
    moreover have "(p1, y) \<notin> (parents g1)\<^sup>*" using cyc(2) g1 rtrancl_mono by blast
    ultimately show ?thesis using u2(3) g1 unfolding e unnames_def by blast
  qed
  then have "y = 0 \<or> y \<in> live f'" using l3 by blast
  moreover have "x \<in> live f'" using unnamesD(2) [OF u2(3)] l3 e by blast
  ultimately show ?thesis using that [of g1 g2] g1 u2(2,3) g(3) unfolding e by blast
qed

lemma rename_way:
  assumes inv: "nodes_inv f" "nodes_inv f'" and r: "rename_node d1 nm1 d2 nm2 False f = Some (0, f')"
    and x: "lookup_node f d1 nm1 = Some x" "x \<in> kids f p1" and y: "lookup_node f d2 nm2 = Some y" "y = 0 \<or> y \<in> kids f p2" "y \<noteq> x"
    and cyc: "(p2, x) \<notin> (parents f)\<^sup>*" "(p1, y) \<notin> (parents f)\<^sup>*"
    and p: "p \<in> live f" "0 < nlookup (fn f p)" "(p, x) \<notin> (parents f)\<^sup>*" "(p, y) \<notin> (parents f)\<^sup>*"
  shows "way_kept p f f' \<and> get_node f' (nodeid (fn f p)) = Some p"
proof -
  obtain g1 g2 where g: "nodes_inv g1" "nodes_inv g2" "g1 = f \<and> y = 0 \<or> y \<noteq> 0 \<and> unnames y f g1" "x \<in> named g1" "parent (fn g1 x) = p1"
    "unnames x g1 g2" "hash_name x d2 nm2 g2 = Some f'" "parents g1 \<subseteq> parents f"
    by (rule rename_steps [OF inv(1) r x y cyc])
  have w1: "way_kept p f g1 \<and> p \<in> live g1 \<and> nlookup (fn g1 p) = nlookup (fn f p) \<and> nodeid (fn g1 p) = nodeid (fn f p)"
  proof (cases "y = 0")
    case True
    then show ?thesis using g(3) p(1) by simp
  next
    case False
    then have u: "unnames y f g1" using g(3) by blast
    have "way_kept p f g1" by (rule unnames_way [OF inv(1) g(1) p(1,2,4) u])
    then show ?thesis using kept_live [OF unnames_kept [OF u] p(1,2)] unnames_kept [OF u] by (auto simp: kept_def)
  qed
  have cx: "(p, x) \<notin> (parents g1)\<^sup>*" using p(3) rtrancl_mono [OF g(8)] by blast
  have w2: "way_kept p g1 g2" using unnames_way(1) [OF g(1,2) _ _ cx g(6)] w1 p(2) by simp
  have k2: "p \<in> live g2" "nodeid (fn g2 p) = nodeid (fn f p)" using kept_live [OF unnames_kept [OF g(6)], of p] w1 p(2) by auto
  have px: "p \<noteq> x" using p(3) by auto
  have l3: "live f' = live g2" by (rule hash_name_live [OF g(7)])
  have w12: "way_kept p f g2" by (rule way_kept_trans [OF _ w2 inv(1) p(1)]) (use w1 in blast)
  have "parents g2 \<subseteq> parents f" using unnames_parents [OF g(6)] g(8) by blast
  then have cx2: "(p, x) \<notin> (parents g2)\<^sup>*" using p(3) rtrancl_mono by blast
  have "way_kept p g2 f'"
  proof (rule way_keptI [OF g(2) inv(2) k2(1)])
    show "p \<in> live f'" using k2(1) l3 by simp
    fix z assume "(p, z) \<in> (parents g2)\<^sup>*"
    then have "z \<noteq> x" using cx2 by blast
    then show "(fn f' z)\<lparr>refctr := 0\<rparr> = (fn g2 z)\<lparr>refctr := 0\<rparr>" by (rule hash_name_others [OF g(7)])
  qed
  then have "way_kept p f f'" by (rule way_kept_trans [OF w12 _ inv(1) p(1)])
  moreover have "nodeid (fn f' p) = nodeid (fn f p)" using calculation p(1) by (auto simp: way_kept_def)
  moreover have "p \<in> live f'" using k2(1) l3 by simp
  ultimately show ?thesis using get_node_live [OF conjunct1 [OF inv(2)], of p] by auto
qed

lemma zero_not_above: "nodes_inv f \<Longrightarrow> p \<in> live f \<Longrightarrow> (p, 0) \<notin> (parents f)\<^sup>*"
  using nodes_okD(2) [OF node_invD(1), of f "{}" "\<lambda>_. 0"] by (auto simp: parents_def named_def elim: rtranclE)

lemma walk_path:
  assumes "node_session f K" "0 < K ino" "walk f FUSE_ROOT_ID nms = Some ino"
  obtains x ps r where "get_node f ino = Some x" "x \<in> live f" "nodeid (fn f x) = ino" "0 < nlookup (fn f x)" "up f x ps r" "r \<in> live f"
    "nodeid (fn f r) = FUSE_ROOT_ID" "path_of ps = spell nms" "passed ps \<subseteq> named f" "\<forall>y \<in> passed ps. (x, y) \<in> (parents f)\<^sup>*"
proof -
  have inv: "nodes_inv f" "counted f K" using session_inv [OF assms(1)] by simp_all
  obtain x where x: "x \<in> live f" "nodeid (fn f x) = ino" "nlookup (fn f x) = K ino" "get_node f ino = Some x" using counted_node [OF inv assms(2)] by metis
  obtain y ps r where y: "y \<in> live f" "nodeid (fn f y) = ino" "up f y ps r" "r \<notin> named f" "nodeid (fn f r) = FUSE_ROOT_ID" "rev (map snd ps) = nms"
    using walk_up [OF inv(1) assms(3)] by blast
  have "y = x" using get_node_live [OF conjunct1 [OF inv(1)] y(1)] y(2) x(4) by simp
  then have up: "up f x ps r" using y(3) by simp
  show ?thesis
    by (rule that [OF x(4,1,2) _ up up_walk_end [OF inv(1) up x(1)] y(5) _ up_named [OF up]])
      (use x(3) assms(2) y(6) spell_path [of ps] up_reach [OF up] in auto)
qed

text \<open>The locks of a request with two paths.\<close>

definition pair_locks :: "node \<Rightarrow> (node \<times> string) list \<Rightarrow> node \<Rightarrow> (node \<times> string) list \<Rightarrow> node \<Rightarrow> int" where
  "pair_locks w1 ps1 w2 ps2 =
     lock_more (passed ps1) (lock_more (passed ps2) (\<lambda>z. if z \<noteq> 0 \<and> (z = w1 \<or> z = w2) then TREELOCK_WRITE else 0))"

lemma pair_locks_free: "z \<notin> passed ps1 \<Longrightarrow> z \<notin> passed ps2 \<Longrightarrow> z \<noteq> w1 \<Longrightarrow> z \<noteq> w2 \<Longrightarrow> pair_locks w1 ps1 w2 ps2 z = 0"
  by (simp add: pair_locks_def lock_more_def)

lemma lock_second:
  assumes inv: "nodes_inv f" and x: "get_node f ino = Some x" "x \<in> live f" "up f x ps z" "z \<in> live f" "nodeid (fn f z) = FUSE_ROOT_ID"
    and room: "path_room f (Some nm)" and w: "lookup_node f ino nm = Some w" "w = 0 \<or> w \<in> live f" "w \<notin> passed ps" "w \<notin> passed ps1" "w \<noteq> w1"
    and w1: "w1 \<notin> passed ps" "w1 \<notin> passed ps1" "w1 \<noteq> 0"
  shows "try_get_path u ino (Some nm) True True (relock (req_locks w1 ps1) f)
    = Some (0, Some (path_of ps @ CHR ''/'' # nm), w, relock (pair_locks w1 ps1 w ps) f)"
proof -
  have r: "c_names f" "CHR 0x00 \<notin> set nm" "names_length f + length nm + 4 < 2 ^ 32" using room by (simp_all add: path_room_def suffix_of_def)
  have st: "stop_code True L f z = Some 0" for L using x(5) by (simp add: stop_code_def)
  have nn: "\<forall>y \<in> passed ps. 0 \<le> req_locks w1 ps1 y" using w1 by (auto simp: req_locks_def lock_more_def TREELOCK_WRITE_def)
  show ?thesis
  proof (cases "w = 0")
    case True
    have "lock_more (passed ps) (req_locks w1 ps1) = pair_locks w1 ps1 w ps"
      using w1(2,3) True by (auto simp: req_locks_def pair_locks_def lock_more_def fun_eq_iff)
    moreover have "try_get_path u ino (Some nm) True True (relock (req_locks w1 ps1) f) = try_get_path u ino (Some nm) False True (relock (req_locks w1 ps1) f)"
      by (rule try_write_none) (use w(1) True in simp)
    ultimately show ?thesis
      using try_read [OF inv r(1) x(1,3,4) st nn, of "Some nm" u] r(2,3) True by (simp add: slashed_name) (simp add: suffix_of_def)
  next
    case False
    then have wl: "w \<in> live f" using w(2) by simp
    have "req_locks w1 ps1 w = 0" by (rule req_locks_free [OF w(4,5)])
    moreover have "lock_more (passed ps) ((req_locks w1 ps1)(w := TREELOCK_WRITE)) = pair_locks w1 ps1 w ps"
      using w1 w False by (auto simp: req_locks_def pair_locks_def lock_more_def fun_eq_iff)
    ultimately show ?thesis using try_write [OF inv r(1) x(1,3,4) w(1) False wl _ st nn w(3) r(2,3), of u] by simp
  qed
qed

lemma unlock_pair:
  assumes inv: "nodes_inv f" "nodes_inv f'"
    and x1: "get_node f' ino1 = Some x1" "x1 \<in> live f" "up f x1 ps1 z1" "nodeid (fn f z1) = FUSE_ROOT_ID" "way_kept x1 f f'"
    and x2: "get_node f' ino2 = Some x2" "x2 \<in> live f" "up f x2 ps2 z2" "nodeid (fn f z2) = FUSE_ROOT_ID" "way_kept x2 f f'"
    and w1: "w1 \<in> live f'" "w1 \<notin> passed ps1" "w1 \<notin> passed ps2" and w2: "w2 = 0 \<or> w2 \<in> live f'" "w2 \<notin> passed ps1" "w2 \<notin> passed ps2" "w2 \<noteq> w1"
  shows "free_path2 ino1 ino2 w1 w2 (relock (pair_locks w1 ps1 w2 ps2) f') = Some f'"
proof -
  have u: "up f' x1 ps1 z1" "z1 \<in> live f'" "nodeid (fn f' z1) = FUSE_ROOT_ID" using up_kept [OF x1(3,5) inv(1) x1(2)] x1(4) by simp_all
  note n = nodes_okD [OF node_invD(1) [OF conjunct1 [OF inv(2)]]]
  have d: "distinct (map fst ps1)" using up_distinct [OF n(6) u(1)] by simp
  have p0: "0 \<notin> passed ps1" using up_named [OF u(1)] n(2) named_live by blast
  have w10: "w1 \<noteq> 0" using w1(1) n(2) by metis
  let ?M = "lock_more (passed ps2) (\<lambda>z. if z \<noteq> 0 \<and> (z = w1 \<or> z = w2) then TREELOCK_WRITE else 0)"
  have "unlock_path ino1 w1 0 (relock (lock_more (passed ps1) ?M) f') = Some (relock (if w1 \<noteq> 0 then ?M(w1 := 0) else ?M) f')"
    by (intro unlock_path_up [OF x1(1) u(1,2) d p0]) (use u(3) w1 w2 w10 in \<open>auto simp: lock_more_def\<close>)
  moreover have "?M(w1 := 0) = req_locks w2 ps2" using w1(3) w2(3,4) by (auto simp: req_locks_def lock_more_def fun_eq_iff)
  ultimately have "unlock_path ino1 w1 0 (relock (pair_locks w1 ps1 w2 ps2) f') = Some (relock (req_locks w2 ps2) f')"
    using w10 by (simp add: pair_locks_def)
  then show ?thesis using unlock_request [OF inv x2(1-5) w2(1,3)] by (simp add: free_path2_def)
qed

lemma get_path_common_try: "get_path_common u ino name want f = Some (0, r) \<Longrightarrow> try_get_path u ino name want True f = Some (0, r)"
  by (auto simp: get_path_common_def split: bind_splits if_splits)

text \<open>Between locking and unlocking two paths, a rename does what it does without locks.\<close>

lemma locked_rename:
  assumes s: "node_session f K" "0 < K olddir" "0 < K newdir" and wk: "walk f FUSE_ROOT_ID nms1 = Some olddir" "walk f FUSE_ROOT_ID nms2 = Some newdir"
    and room: "path_room f (Some nm1)" "path_room f (Some nm2)" and ne: "(olddir, nm1) \<noteq> (newdir, nm2)"
    and x: "lookup_node f olddir nm1 = Some x" "x \<noteq> 0" and y: "lookup_node f newdir nm2 = Some y"
    and legal: "\<forall>d. get_node f newdir = Some d \<longrightarrow> (d, x) \<notin> (parents f)\<^sup>*" "\<forall>d. get_node f olddir = Some d \<longrightarrow> (d, y) \<notin> (parents f)\<^sup>*"
  obtains L f' where "get_path2 u olddir (Some nm1) newdir (Some nm2) True True f
      = Some (0, Some (spell nms1 @ CHR ''/'' # nm1), Some (spell nms2 @ CHR ''/'' # nm2), x, y, relock L f)"
    "free_path2 olddir newdir x y (relock L f) = Some f" "rename_node olddir nm1 newdir nm2 False f = Some (0, f')" "node_session f' K"
    "rename_node olddir nm1 newdir nm2 False (relock L f) = Some (0, relock L f')" "free_path2 olddir newdir x y (relock L f') = Some f'"
proof -
  have inv: "nodes_inv f" using session_inv [OF s(1)] by simp
  note n = nodes_okD [OF node_invD(1) [OF conjunct1 [OF inv]]]
  obtain p1 ps1 r1 where p1: "get_node f olddir = Some p1" "p1 \<in> live f" "nodeid (fn f p1) = olddir" "0 < nlookup (fn f p1)" "up f p1 ps1 r1" "r1 \<in> live f"
    "nodeid (fn f r1) = FUSE_ROOT_ID" "path_of ps1 = spell nms1" "passed ps1 \<subseteq> named f" "\<forall>y \<in> passed ps1. (p1, y) \<in> (parents f)\<^sup>*"
    by (rule walk_path [OF s(1,2) wk(1)])
  obtain p2 ps2 r2 where p2: "get_node f newdir = Some p2" "p2 \<in> live f" "nodeid (fn f p2) = newdir" "0 < nlookup (fn f p2)" "up f p2 ps2 r2" "r2 \<in> live f"
    "nodeid (fn f r2) = FUSE_ROOT_ID" "path_of ps2 = spell nms2" "passed ps2 \<subseteq> named f" "\<forall>y \<in> passed ps2. (p2, y) \<in> (parents f)\<^sup>*"
    by (rule walk_path [OF s(1,3) wk(2)])
  have xk: "x \<in> kids f p1" "nname (fn f x) = Some nm1" using lookup_node_inv [OF conjunct1 [OF inv] p1(2), of nm1] p1(3) x by (auto simp: kids_def)
  have yk: "y = 0 \<or> y \<in> kids f p2 \<and> nname (fn f y) = Some nm2"
    using lookup_node_inv [OF conjunct1 [OF inv] p2(2), of nm2] p2(3) y by (auto simp: kids_def split: if_splits)
  have yx: "y \<noteq> x" using yk xk x(2) ne p1(3) p2(3) by (auto simp: kids_def)
  have cyc: "(p2, x) \<notin> (parents f)\<^sup>*" "(p1, y) \<notin> (parents f)\<^sup>*" using legal p1(1) p2(1) by auto
  have cx1: "(p1, x) \<notin> (parents f)\<^sup>*" by (rule kid_not_above [OF inv xk(1)])
  have cy2: "(p2, y) \<notin> (parents f)\<^sup>*" using yk kid_not_above [OF inv] zero_not_above [OF inv p2(2)] by blast
  have fresh: "x \<notin> passed ps1" "x \<notin> passed ps2" "y \<notin> passed ps1" "y \<notin> passed ps2" using p1(10) p2(10) cyc cx1 cy2 by auto
  have lv: "x \<in> live f" "y = 0 \<or> y \<in> live f" using xk(1) yk named_live by (auto simp: kids_def)
  define L where "L = pair_locks x ps1 y ps2"
  have "get_path_common u olddir (Some nm1) True f = Some (0, Some (slashed (path_of ps1 @ suffix_of (Some nm1))), x, relock (req_locks x ps1) f)"
    by (rule lock_request [OF inv p1(1,2,5,6,7) room(1) _ fresh(1)]) (use x(1) lv(1) in auto)
  note t1 = get_path_common_try [OF this, unfolded slashed_name p1(8)]
  have t2: "try_get_path u newdir (Some nm2) True True (relock (req_locks x ps1) f) = Some (0, Some (path_of ps2 @ CHR ''/'' # nm2), y, relock L f)"
    unfolding L_def by (rule lock_second [OF inv p2(1,2,5,6,7) room(2) y lv(2) fresh(4,3) yx fresh(2,1) x(2)])
  have gp: "get_path2 u olddir (Some nm1) newdir (Some nm2) True True f
      = Some (0, Some (spell nms1 @ CHR ''/'' # nm1), Some (spell nms2 @ CHR ''/'' # nm2), x, y, relock L f)"
    using t1 t2 by (simp add: get_path2_def try_get_path2_def p2(8) EAGAIN_def)
  have f0: "free_path2 olddir newdir x y (relock L f) = Some f"
    unfolding L_def by (rule unlock_pair [OF inv inv p1(1,2,5,7) way_kept_refl p2(1,2,5,7) way_kept_refl lv(1) fresh(1,2) lv(2) fresh(3,4) yx])
  have ne': "(p1, nm1) \<noteq> (p2, nm2)" using ne p1(3) p2(3) by auto
  have hd: "False \<longrightarrow> (\<forall>y \<in> kids f p2. nname (fn f y) \<noteq> Some nm2)" by simp
  obtain f' where f': "rename_node olddir nm1 newdir nm2 False f = Some (0, f')" "nodes_inv f'" "kept f f'"
    using rename_node_inv [OF inv p1(2) p2(2,4) xk cyc(1) ne' hd] p1(3) p2(3) by auto
  have yk': "y = 0 \<or> y \<in> kids f p2" using yk by blast
  have ends: "y = 0 \<or> y \<in> live f'" "x \<in> live f'" using rename_steps [OF inv f'(1) x(1) xk(1) y yk' yx cyc] by blast+
  note way = rename_way [OF inv f'(2,1) x(1) xk(1) y yk' yx cyc]
  have w1: "way_kept p1 f f'" "get_node f' olddir = Some p1" using way [OF p1(2,4) cx1 cyc(2)] p1(3) by simp_all
  have w2: "way_kept p2 f f'" "get_node f' newdir = Some p2" using way [OF p2(2,4) cyc(1) cy2] p2(3) by simp_all
  have "frees_unlocked L f f'"
    unfolding frees_unlocked_def
  proof (intro conjI ballI)
    show "live f' \<subseteq> live f" using f'(3) by (simp add: kept_def)
    fix z assume z: "z \<in> live f - live f'"
    have "z \<notin> passed ps1" using z p1(10) w1(1) by (auto simp: way_kept_def)
    moreover have "z \<notin> passed ps2" using z p2(10) w2(1) by (auto simp: way_kept_def)
    moreover have "z \<noteq> x" "z \<noteq> y" using z ends n(2) by auto
    ultimately show "L z = 0" unfolding L_def by (rule pair_locks_free)
  qed
  then have rl: "rename_node olddir nm1 newdir nm2 False (relock L f) = Some (0, relock L f')" by (rule relock_rename_node [OF f'(1) n(9)])
  have f1: "free_path2 olddir newdir x y (relock L f') = Some f'"
    unfolding L_def by (rule unlock_pair [OF inv f'(2) w1(2) p1(2,5,7) w1(1) w2(2) p2(2,5,7) w2(1) ends(2) fresh(1,2) ends(1) fresh(3,4) yx])
  have "node_session f' K"
    by (rule node_session.rename [OF s ne _ f'(1)]) (use legal(1) x(1) in auto)
  then show ?thesis using that gp f0 f'(1) rl f1 by blast
qed

text \<open>
  C21. A rename request without \<open>RENAME_EXCHANGE\<close> (\<open>flags\<close> below 2) of an entry whose node is known, where
  the target is not open (or is removed at once, \<open>hard_remove\<close>) and the kernel does not move a
  directory below itself or onto a directory above the entry: the operation is called with the two
  paths, and where it succeeds the node gets its new name. Both entries were locked for
  writing; no lock is left. (An open target is hidden under another name first, and an exchange
  calls \<open>exchange_node\<close>.)
\<close>

theorem rename_request:
  assumes "node_session (nodes l) K" "0 < K olddir" "0 < K newdir" "walk (nodes l) FUSE_ROOT_ID nms1 = Some olddir" "walk (nodes l) FUSE_ROOT_ID nms2 = Some newdir"
    "path_room (nodes l) (Some nm1)" "path_room (nodes l) (Some nm2)" "(olddir, nm1) \<noteq> (newdir, nm2)"
    "lookup_node (nodes l) olddir nm1 = Some x" "x \<noteq> 0" "lookup_node (nodes l) newdir nm2 = Some y"
    "\<forall>d. get_node (nodes l) newdir = Some d \<longrightarrow> (d, x) \<notin> (parents (nodes l))\<^sup>*" "\<forall>d. get_node (nodes l) olddir = Some d \<longrightarrow> (d, y) \<notin> (parents (nodes l))\<^sup>*"
    "c_hard_remove cf \<or> y = 0 \<or> open_count l y = 0" "flags < 2"
  shows "let (err, w1) = fuse_fs_rename fs (spell nms1 @ CHR ''/'' # nm1) (spell nms2 @ CHR ''/'' # nm2) flags w
    in if err \<noteq> 0 then fuse_lib_rename u fs cf olddir nm1 newdir nm2 flags l w = Some (Reply_err (- err), l, w1)
       else \<exists>f'. rename_node olddir nm1 newdir nm2 False (nodes l) = Some (0, f') \<and> node_session f' K
         \<and> fuse_lib_rename u fs cf olddir nm1 newdir nm2 flags l w = Some (Reply_err 0, l\<lparr>nodes := f'\<rparr>, w1)"
proof -
  let ?f = "nodes l" and ?op = "spell nms1 @ CHR ''/'' # nm1" and ?np = "spell nms2 @ CHR ''/'' # nm2"
  obtain err w1 where m: "fuse_fs_rename fs ?op ?np flags w = (err, w1)" by (cases "fuse_fs_rename fs ?op ?np flags w")
  obtain L f' where r: "get_path2 u olddir (Some nm1) newdir (Some nm2) True True ?f = Some (0, Some ?op, Some ?np, x, y, relock L ?f)"
    "free_path2 olddir newdir x y (relock L ?f) = Some ?f" "rename_node olddir nm1 newdir nm2 False ?f = Some (0, f')" "node_session f' K"
    "rename_node olddir nm1 newdir nm2 False (relock L ?f) = Some (0, relock L f')" "free_path2 olddir newdir x y (relock L f') = Some f'"
    by (rule locked_rename [OF assms(1-13)])
  have ex: "flags div RENAME_EXCHANGE = 0" using assms(15) by (simp add: RENAME_EXCHANGE_def)
  have io: "c_hard_remove cf \<or> is_open newdir nm2 (l\<lparr>nodes := relock L ?f\<rparr>) = Some False" using assms(11,14) by (auto simp: is_open_def)
  show ?thesis
  proof (cases "err = 0")
    case True
    then show ?thesis using r(2-6) io by (auto simp: fuse_lib_rename_def ex r(1) m Let_def)
  next
    case False
    then show ?thesis using r(2) io by (auto simp: fuse_lib_rename_def ex r(1) m Let_def)
  qed
qed

section \<open>Removed directories\<close>

text \<open>
  A directory that the kernel still knows but that has been removed (no names lead to it) has
  no path: requests in it are answered with \<open>ENOENT\<close>, the file system is not called and the
  nodes stay as they are.
\<close>

theorem removed_directory_requests:
  assumes "node_session (nodes l) K" "0 < K par" "\<forall>nms. walk (nodes l) FUSE_ROOT_ID nms \<noteq> Some par" "path_room (nodes l) (Some name)"
    "name \<noteq> ''.''" "name \<noteq> ''..''"
  shows "fuse_lib_lookup u fs cf False now par name l w = Some (Reply_err ENOENT, l, w)
    \<and> fuse_lib_mkdir u fs cf False now par name mode l w = Some (Reply_err ENOENT, l, w)
    \<and> fuse_lib_rmdir u fs par name l w = Some (Reply_err ENOENT, l, w)"
proof -
  let ?f = "nodes l"
  have inv: "nodes_inv ?f" using session_inv [OF assms(1)] by simp
  obtain x ps z where x: "get_node ?f par = Some x" "x \<in> live ?f" "nodeid (fn ?f x) = par" "up ?f x ps z" "z \<in> live ?f" "z \<notin> named ?f"
    by (rule session_path [OF assms(1,2)])
  have "nodeid (fn ?f z) \<noteq> FUSE_ROOT_ID" using up_walk [OF inv x(4,5)] x(3) assms(3) by metis
  then have st: "stop_code True L ?f z = Some (- ENOENT)" for L using x(6,5) by (simp add: stop_code_def named_def)
  have r: "c_names ?f" "CHR 0x00 \<notin> set (suffix_of (Some name))" "names_length ?f + length (suffix_of (Some name)) + 3 < 2 ^ 32"
    using assms(4) by (simp_all add: path_room_def)
  have rd: "try_get_path u par (Some name) False True ?f = Some (- ENOENT, None, 0, ?f)"
    using try_read [OF inv r(1) x(1,4,5) st _ r(2,3), of "\<lambda>_. 0" u] nodes_unlocked [OF inv] by (simp add: ENOENT_def)
  obtain w' where w': "lookup_node ?f par name = Some w'" "w' = 0 \<or> w' \<in> kids ?f x"
    using lookup_node_inv [OF conjunct1 [OF inv] x(2), of name] x(3) by (auto simp: kids_def split: if_splits)
  have wr: "try_get_path u par (Some name) True True ?f = Some (- ENOENT, None, 0, ?f)"
  proof (cases "w' = 0")
    case True
    then show ?thesis using rd try_write_none w'(1) by simp
  next
    case False
    then have k: "w' \<in> kids ?f x" using w'(2) by blast
    have "w' \<in> live ?f" using k named_live by (auto simp: kids_def)
    moreover have "CHR 0x00 \<notin> set name" "names_length ?f + length name + 4 < 2 ^ 32" using r(2,3) by (simp_all add: suffix_of_def)
    ultimately show ?thesis
      using try_write [OF inv r(1) x(1,4,5) w'(1) False _ _ st _ child_not_passed [OF inv k x(4)], of "\<lambda>_. 0" u] nodes_unlocked [OF inv]
      by (simp add: ENOENT_def)
  qed
  have "get_path_common u par (Some name) b ?f = Some (- ENOENT, None, 0, ?f)" for b
    using rd wr by (cases b) (simp_all add: get_path_common_def ENOENT_def EAGAIN_def)
  then show ?thesis using assms(5,6)
    by (simp add: fuse_lib_lookup_def lookup_rest_def fuse_lib_mkdir_def fuse_lib_rmdir_def reply_entry_def ENOENT_def)
qed

section \<open>Requests on a new file system\<close>

text \<open>A file system on which every operation succeeds.\<close>

definition yes_fs :: "unit fs_op" where
  "yes_fs = \<lparr>op_getattr = Some (\<lambda>p fi w. (0, zero_stat, w)), op_readlink = None, op_mknod = None, op_mkdir = Some (\<lambda>p m w. (0, w)), op_unlink = None,
     op_rmdir = Some (\<lambda>p w. (0, w)), op_symlink = None, op_rename = Some (\<lambda>p q fl w. (0, w)), op_link = None, op_open = None, op_release = None,
     op_access = None, op_create = None\<rparr>"

definition plain_config :: fuse_config where
  "plain_config = \<lparr>c_set_gid = False, c_gid = 0, c_set_uid = False, c_uid = 0, c_set_mode = False, c_umask = 0, c_entry_timeout = 1, c_negative_timeout = 0,
     c_attr_timeout = 1, c_hard_remove = False, c_use_ino = False, c_readdir_ino = False, c_direct_io = False, c_kernel_cache = False, c_nullpath_ok = False\<rparr>"

definition new_lib :: "fuse \<Rightarrow> flib" where
  "new_lib f = \<lparr>nodes = f, open_count = \<lambda>_. 0, hidectr = 0\<rparr>"

lemma new_lib_session:
  obtains f where "fuse_new_nodes 0 = Some f" "node_session (nodes (new_lib f)) ((\<lambda>_. 0)(FUSE_ROOT_ID := 1))" "path_room (nodes (new_lib f)) (Some ''a'')"
    "lookup_room (nodes (new_lib f)) ((\<lambda>_. 0)(FUSE_ROOT_ID := 1))" "live f = {1}" "nodeid (fn f 1) = FUSE_ROOT_ID" "named f = {}"
proof -
  obtain f where f: "fuse_new_nodes 0 = Some f" "node_session f ((\<lambda>_. 0)(FUSE_ROOT_ID := 1))" "live f = {1}" "nodeid (fn f 1) = FUSE_ROOT_ID" "named f = {}"
    by (rule new_session)
  have "path_room f (Some ''a'')" using f(5) by (simp add: path_room_def c_names_def names_length_def suffix_of_def)
  moreover have "lookup_room f ((\<lambda>_. 0)(FUSE_ROOT_ID := 1))" using f(3) by (simp add: lookup_room_def INT_MAX_def)
  ultimately show ?thesis using that [of f] f by (simp add: new_lib_def)
qed

theorem mkdir_request_witness:
  "\<exists>f x f'. fuse_new_nodes 0 = Some f \<and> find_node FUSE_ROOT_ID (Some ''a'') f = Some (x, f')
    \<and> fuse_lib_mkdir (\<lambda>_. CHR ''x'') yes_fs plain_config False 0 FUSE_ROOT_ID ''a'' 0 (new_lib f) ()
      = Some (Reply_entry (entry_of plain_config zero_stat f' x), new_lib f', ())"
proof -
  obtain f where f: "fuse_new_nodes 0 = Some f" "node_session (nodes (new_lib f)) ((\<lambda>_. 0)(FUSE_ROOT_ID := 1))" "path_room (nodes (new_lib f)) (Some ''a'')"
    "lookup_room (nodes (new_lib f)) ((\<lambda>_. 0)(FUSE_ROOT_ID := 1))" by (rule new_lib_session)
  show ?thesis using mkdir_request [OF f(2) _ walk.simps(1) f(3,4), of yes_fs 0 "()" "\<lambda>_. CHR ''x''" plain_config 0] f(1)
    by (auto simp: fuse_fs_mkdir_def fuse_fs_getattr_def yes_fs_def new_lib_def)
qed

theorem lookup_request_witness:
  "\<exists>f x f'. fuse_new_nodes 0 = Some f \<and> find_node FUSE_ROOT_ID (Some ''a'') f = Some (x, f')
    \<and> fuse_lib_lookup (\<lambda>_. CHR ''x'') yes_fs plain_config False 0 FUSE_ROOT_ID ''a'' (new_lib f) ()
      = Some (Reply_entry (entry_of plain_config zero_stat f' x), new_lib f', ())"
proof -
  obtain f where f: "fuse_new_nodes 0 = Some f" "node_session (nodes (new_lib f)) ((\<lambda>_. 0)(FUSE_ROOT_ID := 1))" "path_room (nodes (new_lib f)) (Some ''a'')"
    "lookup_room (nodes (new_lib f)) ((\<lambda>_. 0)(FUSE_ROOT_ID := 1))" by (rule new_lib_session)
  show ?thesis using lookup_request [OF f(2) _ walk.simps(1) f(3,4), of yes_fs "()" "\<lambda>_. CHR ''x''" plain_config 0] f(1)
    by (auto simp: fuse_fs_getattr_def yes_fs_def new_lib_def)
qed

theorem rmdir_request_witness:
  "\<exists>f f'. fuse_new_nodes 0 = Some f \<and> remove_node FUSE_ROOT_ID ''a'' f = Some f'
    \<and> fuse_lib_rmdir (\<lambda>_. CHR ''x'') yes_fs FUSE_ROOT_ID ''a'' (new_lib f) () = Some (Reply_err 0, new_lib f', ())"
proof -
  obtain f where f: "fuse_new_nodes 0 = Some f" "node_session (nodes (new_lib f)) ((\<lambda>_. 0)(FUSE_ROOT_ID := 1))" "path_room (nodes (new_lib f)) (Some ''a'')"
    by (rule new_lib_session)
  show ?thesis using rmdir_request [OF f(2) _ walk.simps(1) f(3), of yes_fs "()" "\<lambda>_. CHR ''x''"] f(1)
    by (auto simp: fuse_fs_rmdir_def yes_fs_def new_lib_def)
qed

theorem removed_directory_requests_witness:
  "\<exists>f f1 f2 x. fuse_new_nodes 0 = Some f \<and> find_node FUSE_ROOT_ID (Some ''d'') f = Some (x, f1) \<and> remove_node FUSE_ROOT_ID ''d'' f1 = Some f2
    \<and> fuse_lib_mkdir (\<lambda>_. CHR ''x'') yes_fs plain_config False 0 (nodeid (fn f1 x)) ''a'' 0 (new_lib f2) () = Some (Reply_err ENOENT, new_lib f2, ())"
proof -
  obtain f f1 x K where f: "fuse_new_nodes 0 = Some f" "find_node FUSE_ROOT_ID (Some ''d'') f = Some (x, f1)" "node_session f1 K" "0 < K FUSE_ROOT_ID"
    "0 < K (nodeid (fn f1 x))" "live f1 = {1, x}" "named f1 = {x}" "parent (fn f1 x) = 1" "nname (fn f1 x) = Some ''d''"
    "get_node f1 FUSE_ROOT_ID = Some 1" "(1, x) \<notin> (parents f1)\<^sup>*" by (rule lookup_session)
  have inv: "nodes_inv f1" "counted f1 K" using session_inv [OF f(3)] by simp_all
  have x1: "x \<noteq> 1" using f(11) by auto
  have i1: "nodeid (fn f1 1) = FUSE_ROOT_ID"
    using get_node_nocheck_inv [OF conjunct1 [OF inv(1)], of FUSE_ROOT_ID] f(10) by (auto simp: get_node_def split: bind_splits if_splits)
  have k: "x \<in> kids f1 1" using f(7,8) by (simp add: kids_def)
  obtain f2 where f2: "remove_node FUSE_ROOT_ID ''d'' f1 = Some f2" "nodes_inv f2" "\<exists>y \<in> kids f1 1. unnames y f1 f2"
    using remove_node_inv [OF inv(1), of 1 "''d''"] f(6,9) i1 k by auto
  then have u: "unnames x f1 f2" using f(7) by (auto simp: kids_def)
  note ud = unnamesD [OF u]
  have s2: "node_session f2 K" by (rule node_session.remove [OF f(3,4) f2(1)])
  have nm2: "named f2 = {}" using unnames_named [OF u] ud(3) f(7) by auto
  have "nodeid (fn f1 x) \<noteq> FUSE_ROOT_ID" using nodes_okD(4) [OF node_invD(1) [OF conjunct1 [OF inv(1)]]] f(6) x1 i1 by (auto simp: inj_on_def)
  then have nr: "nodeid (fn f2 x) \<noteq> FUSE_ROOT_ID" "nodeid (fn f2 x) = nodeid (fn f1 x)" using ud(6) by simp_all
  have nw: "walk f2 FUSE_ROOT_ID nms \<noteq> Some (nodeid (fn f1 x))" for nms
  proof
    assume "walk f2 FUSE_ROOT_ID nms = Some (nodeid (fn f1 x))"
    then obtain y ps r where y: "y \<in> live f2" "nodeid (fn f2 y) = nodeid (fn f1 x)" "up f2 y ps r" "nodeid (fn f2 r) = FUSE_ROOT_ID"
      using walk_up [OF f2(2)] by blast
    then have "y = r" using nm2 by (cases ps) auto
    then show False using y(2,4) nr by simp
  qed
  have l: "nodes (new_lib f2) = f2" by (simp add: new_lib_def)
  have room: "path_room (nodes (new_lib f2)) (Some ''a'')" using nm2 by (simp add: l path_room_def c_names_def names_length_def suffix_of_def)
  have ns: "node_session (nodes (new_lib f2)) K" "\<forall>nms. walk (nodes (new_lib f2)) FUSE_ROOT_ID nms \<noteq> Some (nodeid (fn f1 x))" using s2 nw l by simp_all
  show ?thesis
    using removed_directory_requests [OF ns(1) f(5) ns(2) room, of "\<lambda>_. CHR ''x''" yes_fs plain_config 0 "()" 0] f(1,2) f2(1) by auto
qed

theorem rename_request_witness:
  "\<exists>f f1 x f'. fuse_new_nodes 0 = Some f \<and> find_node FUSE_ROOT_ID (Some ''a'') f = Some (x, f1)
    \<and> rename_node FUSE_ROOT_ID ''a'' FUSE_ROOT_ID ''b'' False f1 = Some (0, f')
    \<and> fuse_lib_rename (\<lambda>_. CHR ''x'') yes_fs plain_config FUSE_ROOT_ID ''a'' FUSE_ROOT_ID ''b'' 0 (new_lib f1) () = Some (Reply_err 0, new_lib f', ())"
proof -
  obtain f f1 x K where f: "fuse_new_nodes 0 = Some f" "find_node FUSE_ROOT_ID (Some ''a'') f = Some (x, f1)" "node_session f1 K" "0 < K FUSE_ROOT_ID"
    "live f1 = {1, x}" "named f1 = {x}" "nname (fn f1 x) = Some ''a''" "lookup_node f1 FUSE_ROOT_ID ''a'' = Some x" "get_node f1 FUSE_ROOT_ID = Some 1"
    "(1, x) \<notin> (parents f1)\<^sup>*" by (rule lookup_session)
  have inv: "nodes_inv f1" using session_inv [OF f(3)] by simp
  have x0: "x \<noteq> 0" using f(5) nodes_okD(2) [OF node_invD(1) [OF conjunct1 [OF inv]]] by auto
  have "\<forall>y \<in> kids f1 1. nname (fn f1 y) \<noteq> Some ''b''" using f(6,7) by (simp add: kids_def)
  moreover have "nodeid (fn f1 1) = FUSE_ROOT_ID"
    using get_node_nocheck_inv [OF conjunct1 [OF inv], of FUSE_ROOT_ID] f(9) by (auto simp: get_node_def split: bind_splits if_splits)
  ultimately have lb: "lookup_node f1 FUSE_ROOT_ID ''b'' = Some 0" using lookup_none [OF inv, of 1 "''b''"] f(5) by simp
  have room: "path_room (nodes (new_lib f1)) (Some ''a'')" "path_room (nodes (new_lib f1)) (Some ''b'')"
    using f(6,7) by (simp_all add: new_lib_def path_room_def c_names_def names_length_def suffix_of_def)
  have z: "(1, 0) \<notin> (parents f1)\<^sup>*" using zero_not_above [OF inv, of 1] f(5) by simp
  have l: "nodes (new_lib f1) = f1" by (simp add: new_lib_def)
  have ns: "node_session (nodes (new_lib f1)) K" using f(3) l by simp
  have cyc: "\<forall>d. get_node (nodes (new_lib f1)) FUSE_ROOT_ID = Some d \<longrightarrow> (d, x) \<notin> (parents (nodes (new_lib f1)))\<^sup>*"
    "\<forall>d. get_node (nodes (new_lib f1)) FUSE_ROOT_ID = Some d \<longrightarrow> (d, 0) \<notin> (parents (nodes (new_lib f1)))\<^sup>*" using f(9,10) z l by simp_all
  have ne: "(FUSE_ROOT_ID, ''a'') \<noteq> (FUSE_ROOT_ID, ''b'')" by simp
  have lk: "lookup_node (nodes (new_lib f1)) FUSE_ROOT_ID ''a'' = Some x" "lookup_node (nodes (new_lib f1)) FUSE_ROOT_ID ''b'' = Some 0" using f(8) lb l by simp_all
  have fl: "(0 :: nat) < 2" by simp
  have op: "c_hard_remove plain_config \<or> (0 :: node) = 0 \<or> open_count (new_lib f1) 0 = 0" by simp
  show ?thesis
    using rename_request [OF ns f(4,4) walk.simps(1) walk.simps(1) room ne lk(1) x0 lk(2) cyc op fl, of yes_fs "()" "\<lambda>_. CHR ''x''"] f(1,2)
    by (auto simp: fuse_fs_rename_def yes_fs_def new_lib_def)
qed

end
