(* ===== verification/Dir_Requests.thy ===== *)
theory Dir_Requests
  imports Dir_Reading Lib_Requests
begin

text \<open>
  Requests that read directories (\<open>lib/fuse.c\<close>, theory \<open>Dir_Handles\<close>): whatever the file
  system hands to the callback, a reply is not longer than asked for and nothing is written
  outside of the buffer; a file system that delivers a whole directory at once is read
  completely; a listing with attributes counts a lookup for an entry that does not fit.
\<close>

section \<open>The path and the nodes of a request\<close>

definition dir_name :: "fuse_config \<Rightarrow> string list \<Rightarrow> string option" where
  "dir_name cf nms = (if c_nullpath_ok cf then None else Some (slashed (spell nms @ suffix_of None)))"

lemma nullok_path:
  assumes "node_session f K" "0 < K ino" "walk f FUSE_ROOT_ID nms = Some ino" "path_room f None"
  obtains L where "get_path_nullok u cf ino f = Some (0, dir_name cf nms, relock L f)" "free_path ino (dir_name cf nms) (relock L f) = Some f"
proof -
  have inv: "nodes_inv f" using session_inv [OF assms(1)] by simp
  obtain x ps where x: "get_path_common u ino None False f = Some (0, Some (slashed (spell nms @ suffix_of None)), 0, relock (req_locks 0 ps) f)"
    "unlock_path ino 0 0 (relock (req_locks 0 ps) f) = Some f" by (rule reader_path [OF assms(1-4)]) blast
  show ?thesis
  proof (cases "c_nullpath_ok cf")
    case True
    then show ?thesis using that [of "\<lambda>_. 0"] nodes_unlocked [OF inv] by (simp add: get_path_nullok_def dir_name_def free_path_def)
  next
    case False
    then show ?thesis using that [of "req_locks 0 ps"] x
      by (simp add: get_path_nullok_def dir_name_def free_path_def free_path_wrlock_def ENOENT_def)
  qed
qed

lemma lookup_nodeid_relock: "lookup_nodeid ino nm (l\<lparr>nodes := relock L (nodes l)\<rparr>) = lookup_nodeid ino nm l"
  by (cases "lookup_node (nodes l) ino nm"; cases "fnodes (nodes l) (the (lookup_node (nodes l) ino nm))")
    (simp_all add: lookup_nodeid_def relock_fnodes)

lemma lookup_nodeid_ok:
  assumes "node_session (nodes l) K" "0 < K ino"
  obtains i where "lookup_nodeid ino nm l = Some i"
proof -
  have inv: "nodes_inv (nodes l)" "counted (nodes l) K" using session_inv [OF assms(1)] by simp_all
  obtain x where x: "x \<in> live (nodes l)" "nodeid (fn (nodes l) x) = ino" using counted_node [OF inv assms(2)] by metis
  obtain w where w: "lookup_node (nodes l) ino nm = Some w" "w = 0 \<or> w \<in> named (nodes l)"
    using lookup_node_inv [OF conjunct1 [OF inv(1)] x(1), of nm] x(2) by (auto split: if_splits)
  show ?thesis
  proof (cases "w = 0")
    case True
    then show ?thesis using that w(1) by (simp add: lookup_nodeid_def)
  next
    case False
    then have "w \<in> live (nodes l)" using w(2) named_live by blast
    then show ?thesis using that w(1) False by (simp add: lookup_nodeid_def live_fn)
  qed
qed

section \<open>The callback\<close>

text \<open>The attributes of an entry as they are sent.\<close>

definition sent_stat :: "fuse_config \<Rightarrow> flib \<Rightarrow> nat \<Rightarrow> string \<Rightarrow> lstat option \<Rightarrow> lstat" where
  "sent_stat cf l ino nm statp =
     (let st = (case statp of Some st \<Rightarrow> st | None \<Rightarrow> zero_stat\<lparr>st_ino := FUSE_UNKNOWN_INO\<rparr>)
      in if c_use_ino cf then st
         else st\<lparr>st_ino := (if c_readdir_ino cf then the (lookup_nodeid ino nm l) else FUSE_UNKNOWN_INO)\<rparr>)"

lemma fill_dir_eq:
  assumes "lookup_nodeid (dh_nodeid dh) nm l \<noteq> None"
  shows "fill_dir ub cf nm statp off flags dh l =
    (if and flags (not FUSE_FILL_DIR_PLUS) \<noteq> 0 then Some (1, dh\<lparr>dh_error := - EIO\<rparr>, l)
     else let st = sent_stat cf l (dh_nodeid dh) nm statp
       in do { (r, dh) \<leftarrow> (if off \<noteq> 0 then fill_buffer ub (\<lambda>c p n. fuse_add_direntry c p n nm st off) dh else Some (fill_list nm st dh)); Some (r, dh, l) })"
  using assms by (auto simp: fill_dir_def sent_stat_def Let_def split_beta split: option.splits)

lemma fill_dir_ok:
  assumes "dh_ok dh" "lookup_nodeid (dh_nodeid dh) nm l \<noteq> None"
  obtains r dh' where "fill_dir ub cf nm statp off flags dh l = Some (r, dh', l)" "dh_ok dh'"
    "dh_needlen dh' = dh_needlen dh" "dh_nodeid dh' = dh_nodeid dh"
proof -
  let ?st = "sent_stat cf l (dh_nodeid dh) nm statp"
  show ?thesis
  proof (cases "and flags (not FUSE_FILL_DIR_PLUS) \<noteq> 0 \<or> off = 0 \<or> dh_first dh \<noteq> []")
    case True
    have "dh_ok (dh\<lparr>dh_error := e\<rparr>)" "dh_ok (fuse_add_direntry_to_dh dh nm ?st)" for e
      using assms(1) by (simp_all add: dh_ok_def fuse_add_direntry_to_dh_def split: option.splits)
    then have "\<exists>r dh'. fill_dir ub cf nm statp off flags dh l = Some (r, dh', l) \<and> dh_ok dh' \<and> dh_needlen dh' = dh_needlen dh \<and> dh_nodeid dh' = dh_nodeid dh"
      using True assms(1) by (auto simp: fill_dir_eq [OF assms(2)] fill_list_def fill_buffer_def fuse_add_direntry_to_dh_def Let_def)
    then show ?thesis using that by blast
  next
    case False
    obtain r dh' where "fill_buffer ub (\<lambda>c p n. fuse_add_direntry c p n nm ?st off) dh = Some (r, dh')" "dh_ok dh'" "dh_same dh dh'"
      using fill_buffer_ok [OF assms(1) _ adds_direntry] False by metis
    then show ?thesis using that False by (simp add: fill_dir_eq [OF assms(2)] dh_same_def Let_def)
  qed
qed

section \<open>Any file system\<close>

text \<open>All that a file system does with the buffer it is given is to hand it to the callback.\<close>

definition uses_callback :: "'w dir_op \<Rightarrow> bool" where
  "uses_callback fs \<longleftrightarrow> (\<forall>g P path buf fl off fi flags w. op_readdir fs = Some g \<longrightarrow> P buf \<longrightarrow> (\<forall>b nm st o' f'. P b \<longrightarrow> P (snd (fl b nm st o' f')))
     \<longrightarrow> P (fst (snd (g path buf fl off fi flags w))))"

lemma uses_callbackD:
  assumes "uses_callback fs" "op_readdir fs = Some g" "P buf" "\<And>b nm st o' f'. P b \<Longrightarrow> P (snd (fl b nm st o' f'))"
  shows "P (fst (snd (g path buf fl off fi flags w)))"
  using assms(1) [unfolded uses_callback_def, rule_format, of g P buf fl path off fi flags w] assms(2-4) by blast

lemma fill_keeps:
  assumes "uses_callback fs" "op_readdir fs \<noteq> None" "dh_ok dh" "\<And>nm. lookup_nodeid (dh_nodeid dh) nm l \<noteq> None"
  obtains r dh' w' where "fuse_fs_readdir fs path (Some (dh, l)) (as_filler (fill_dir ub cf)) off fi flags w = (r, Some (dh', l), w')"
    "dh_ok dh'" "dh_needlen dh' = dh_needlen dh" "dh_nodeid dh' = dh_nodeid dh"
proof -
  define P where "P b \<longleftrightarrow> (\<exists>dh'. b = Some (dh', l) \<and> dh_ok dh' \<and> dh_needlen dh' = dh_needlen dh \<and> dh_nodeid dh' = dh_nodeid dh)" for b
  obtain g where g: "op_readdir fs = Some g" using assms(2) by blast
  have step: "P (snd (as_filler (fill_dir ub cf) b nm st o' f'))" if b: "P b" for b nm st o' f'
  proof -
    obtain dh' where dh': "b = Some (dh', l)" "dh_ok dh'" "dh_needlen dh' = dh_needlen dh" "dh_nodeid dh' = dh_nodeid dh" using b by (auto simp: P_def)
    have n: "lookup_nodeid (dh_nodeid dh') nm l \<noteq> None" using assms(4) dh'(4) by simp
    show ?thesis by (rule fill_dir_ok [OF dh'(2) n, of ub cf st o' f']) (simp add: as_filler_def dh' P_def)
  qed
  have "P (Some (dh, l))" by (simp add: P_def assms(3))
  then have "P (fst (snd (g path (Some (dh, l)) (as_filler (fill_dir ub cf)) off fi flags w)))" by (rule uses_callbackD [OF assms(1) g]) (rule step)
  then show ?thesis using that g by (cases "g path (Some (dh, l)) (as_filler (fill_dir ub cf)) off fi flags w") (auto simp: P_def fuse_fs_readdir_def)
qed

text \<open>What a request needs: names lead to the directory, and the handle is one of it.\<close>

definition dir_request :: "dlib \<Rightarrow> nat \<Rightarrow> nat \<Rightarrow> string list \<Rightarrow> bool" where
  "dir_request d ino fh nms \<longleftrightarrow> (\<exists>K. node_session (nodes (dlib_l d)) K \<and> 0 < K ino) \<and> walk (nodes (dlib_l d)) FUSE_ROOT_ID nms = Some ino
     \<and> path_room (nodes (dlib_l d)) None \<and> (\<exists>dh. handles d fh = Some dh \<and> dh_ok dh \<and> dh_nodeid dh = ino)"

lemma dir_request_lookup:
  assumes "dir_request d ino fh nms"
  shows "lookup_nodeid ino nm ((dlib_l d)\<lparr>nodes := relock L (nodes (dlib_l d))\<rparr>) \<noteq> None"
  using assms lookup_nodeid_ok by (metis dir_request_def lookup_nodeid_relock not_None_eq)

text \<open>\<open>readdir_fill\<close> resets the handle and calls the file system with it.\<close>

definition fresh_dh :: "nat \<Rightarrow> fuse_dh \<Rightarrow> fuse_dh" where
  "fresh_dh sz dh = dh\<lparr>dh_first := [], dh_len := 0, dh_error := 0, dh_needlen := u32 (int sz), dh_filled := True\<rparr>"

lemma fresh_dh_ok: "dh_ok dh \<Longrightarrow> dh_ok (fresh_dh sz dh)"
  by (simp add: fresh_dh_def dh_ok_def split: option.splits)

lemma readdir_fill_eq:
  assumes "dir_request d ino fh nms" "op_readdir fs \<noteq> None"
  obtains L where "\<And>dh w. readdir_fill u ub fs cf ino sz off 0 dh (dlib_l d) w =
    (let (err, buf, w) = fuse_fs_readdir fs (dir_name cf nms) (Some (fresh_dh sz dh, (dlib_l d)\<lparr>nodes := relock L (nodes (dlib_l d))\<rparr>))
        (as_filler (fill_dir ub cf)) off (dir_info dh) 0 w
     in do { (dh, l) \<leftarrow> buf; let err = (if err = 0 then dh_error dh else err);
       let dh = (if err \<noteq> 0 then dh\<lparr>dh_filled := False\<rparr> else dh);
       l \<leftarrow> free_path_lib ino (dir_name cf nms) l; Some (err, dh, l, w) })"
    "free_path_lib ino (dir_name cf nms) ((dlib_l d)\<lparr>nodes := relock L (nodes (dlib_l d))\<rparr>) = Some (dlib_l d)"
proof -
  obtain K where K: "node_session (nodes (dlib_l d)) K" "0 < K ino" "walk (nodes (dlib_l d)) FUSE_ROOT_ID nms = Some ino" "path_room (nodes (dlib_l d)) None"
    using assms(1) by (auto simp: dir_request_def)
  obtain L where N: "get_path_nullok u cf ino (nodes (dlib_l d)) = Some (0, dir_name cf nms, relock L (nodes (dlib_l d)))"
    "free_path ino (dir_name cf nms) (relock L (nodes (dlib_l d))) = Some (nodes (dlib_l d))"
    by (rule nullok_path [OF K])
  then have L: "dir_path u fs cf ino (nodes (dlib_l d)) = Some (0, dir_name cf nms, relock L (nodes (dlib_l d)))" using assms(2) by (simp add: dir_path_def)
  have i: "dir_info (dh\<lparr>dh_first := [], dh_len := 0, dh_error := 0, dh_needlen := n, dh_filled := True\<rparr>) = dir_info dh" for dh n
    by (simp add: dir_info_def)
  have "free_path_lib ino (dir_name cf nms) ((dlib_l d)\<lparr>nodes := relock L (nodes (dlib_l d))\<rparr>) = Some (dlib_l d)" by (simp add: free_path_lib_def N(2))
  then show ?thesis by (rule that [of L, rotated]) (simp add: readdir_fill_def L fresh_dh_def i Let_def)
qed

lemma readdir_fill_ok:
  assumes "dir_request d ino fh nms" "uses_callback fs" "op_readdir fs \<noteq> None" "dh_ok dh" "dh_nodeid dh = ino"
  obtains err dh' w' where "readdir_fill u ub fs cf ino sz off 0 dh (dlib_l d) w = Some (err, dh', dlib_l d, w')"
    "dh_ok dh'" "dh_needlen dh' = u32 (int sz)" "dh_nodeid dh' = ino"
proof -
  obtain L where e: "\<And>dh w. readdir_fill u ub fs cf ino sz off 0 dh (dlib_l d) w =
    (let (err, buf, w) = fuse_fs_readdir fs (dir_name cf nms) (Some (fresh_dh sz dh, (dlib_l d)\<lparr>nodes := relock L (nodes (dlib_l d))\<rparr>))
        (as_filler (fill_dir ub cf)) off (dir_info dh) 0 w
     in do { (dh, l) \<leftarrow> buf; let err = (if err = 0 then dh_error dh else err);
       let dh = (if err \<noteq> 0 then dh\<lparr>dh_filled := False\<rparr> else dh);
       l \<leftarrow> free_path_lib ino (dir_name cf nms) l; Some (err, dh, l, w) })"
    "free_path_lib ino (dir_name cf nms) ((dlib_l d)\<lparr>nodes := relock L (nodes (dlib_l d))\<rparr>) = Some (dlib_l d)"
    by (rule readdir_fill_eq [OF assms(1,3), where u = u and ub = ub and cf = cf and sz = sz and off = off]) blast
  let ?l = "(dlib_l d)\<lparr>nodes := relock L (nodes (dlib_l d))\<rparr>"
  have id: "dh_nodeid (fresh_dh sz dh) = ino" "dh_needlen (fresh_dh sz dh) = u32 (int sz)" using assms(5) by (simp_all add: fresh_dh_def)
  have "lookup_nodeid (dh_nodeid (fresh_dh sz dh)) nm ?l \<noteq> None" for nm using dir_request_lookup [OF assms(1)] id by simp
  then obtain r dh' w' where r: "fuse_fs_readdir fs (dir_name cf nms) (Some (fresh_dh sz dh, ?l)) (as_filler (fill_dir ub cf)) off (dir_info dh) 0 w = (r, Some (dh', ?l), w')"
    "dh_ok dh'" "dh_needlen dh' = u32 (int sz)" "dh_nodeid dh' = ino"
    using fill_keeps [OF assms(2,3) fresh_dh_ok [OF assms(4), of sz], where l = ?l] id by metis
  have "dh_ok (dh'\<lparr>dh_filled := False\<rparr>)" using r(2) by (simp add: dh_ok_def split: option.splits)
  then show ?thesis using that r by (simp add: e r(1) Let_def split: if_splits)
qed

lemma readdir_common_steps:
  assumes "handles d fh = Some dh0" "dh = (if off = 0 then dh0\<lparr>dh_filled := False\<rparr> else dh0)"
    "(if dh_filled dh then Some (0, dh, dlib_l d, w) else readdir_fill u ub fs cf ino sz off flags dh (dlib_l d) w) = Some (err, dh1, l, w1)"
  shows "fuse_readdir_common u ub fs cf ino sz off fh flags d w =
      (if err \<noteq> 0 then Some (Reply_err (- err), d\<lparr>dlib_l := l, handles := (handles d)(fh \<mapsto> dh1)\<rparr>, w1)
       else do { dh \<leftarrow> (if dh_filled dh1 then readdir_fill_from_list ub off flags (dh1\<lparr>dh_needlen := u32 (int sz)\<rparr>) else Some dh1);
         Some (dh_reply dh, d\<lparr>dlib_l := l, handles := (handles d)(fh \<mapsto> dh)\<rparr>, w1) })"
  using assms(3)
  by (cases "dh_filled dh") (simp_all add: fuse_readdir_common_def assms(1) Let_def split del: if_split flip: assms(2))

text \<open>
  C18. Reading a directory never writes outside of the buffer of the handle, whatever the file
  system hands to the callback: the request returns, a reply has at most the bytes asked
  for, and the nodes and the other handles are as before.
\<close>

theorem readdir_bounded:
  assumes "dir_request d ino fh nms" "uses_callback fs" "op_readdir fs \<noteq> None"
  shows "\<exists>r d' w'. fuse_lib_readdir u ub fs cf ino sz off fh d w = Some (r, d', w') \<and> (\<forall>b. r = Reply_buf b \<longrightarrow> length b \<le> sz)
    \<and> dir_request d' ino fh nms \<and> dlib_l d' = dlib_l d \<and> (\<forall>h. h \<noteq> fh \<longrightarrow> handles d' h = handles d h)"
proof -
  obtain dh0 where dh0: "handles d fh = Some dh0" "dh_ok dh0" "dh_nodeid dh0 = ino" using assms(1) by (auto simp: dir_request_def)
  define dh where "dh = (if off = 0 then dh0\<lparr>dh_filled := False\<rparr> else dh0)"
  have dh: "dh_ok dh" "dh_nodeid dh = ino" using dh0(2,3) by (simp_all add: dh_def dh_ok_def split: option.splits)
  have keep: "dir_request (d\<lparr>dlib_l := dlib_l d, handles := (handles d)(fh \<mapsto> dh')\<rparr>) ino fh nms" if "dh_ok dh'" "dh_nodeid dh' = ino" for dh'
    using assms(1) that by (simp add: dir_request_def)
  obtain err dh1 w1 where f: "(if dh_filled dh then Some (0, dh, dlib_l d, w) else readdir_fill u ub fs cf ino sz off 0 dh (dlib_l d) w)
      = Some (err, dh1, dlib_l d, w1)" "dh_ok dh1" "dh_nodeid dh1 = ino" "dh_filled dh1 \<or> dh_needlen dh1 = u32 (int sz)"
  proof (cases "dh_filled dh")
    case True
    then show ?thesis using that [of 0 dh w] dh by simp
  next
    case False
    obtain err dh' w' where "readdir_fill u ub fs cf ino sz off 0 dh (dlib_l d) w = Some (err, dh', dlib_l d, w')"
      "dh_ok dh'" "dh_needlen dh' = u32 (int sz)" "dh_nodeid dh' = ino" by (rule readdir_fill_ok [OF assms dh])
    then show ?thesis using that [of err dh' w'] False by simp
  qed
  have eq: "fuse_lib_readdir u ub fs cf ino sz off fh d w =
      (if err \<noteq> 0 then Some (Reply_err (- err), d\<lparr>dlib_l := dlib_l d, handles := (handles d)(fh \<mapsto> dh1)\<rparr>, w1)
       else do { dh \<leftarrow> (if dh_filled dh1 then readdir_fill_from_list ub off 0 (dh1\<lparr>dh_needlen := u32 (int sz)\<rparr>) else Some dh1);
         Some (dh_reply dh, d\<lparr>dlib_l := dlib_l d, handles := (handles d)(fh \<mapsto> dh)\<rparr>, w1) })"
    unfolding fuse_lib_readdir_def by (rule readdir_common_steps [OF dh0(1) dh_def f(1)])
  show ?thesis
  proof (cases "err = 0 \<and> dh_filled dh1")
    case False
    have "length (written dh1) \<le> sz" if "err = 0"
    proof -
      have "dh_needlen dh1 = u32 (int sz)" using f(4) that False by blast
      then show ?thesis using written_length [OF f(2)] f(2) u32_le [of sz] by (simp add: dh_ok_def)
    qed
    then show ?thesis using False keep [OF f(2,3)] by (auto simp: eq dh_reply_written)
  next
    case True
    let ?dh = "dh1\<lparr>dh_needlen := u32 (int sz)\<rparr>"
    have "dh_ok (?dh\<lparr>dh_len := 0\<rparr>)" using dh_ok_reset [OF f(2), of "u32 (int sz)"] by simp
    then obtain dh2 where l: "readdir_fill_from_list ub off 0 ?dh = Some dh2" "dh_ok dh2" "dh_same ?dh dh2" by (rule from_list_ok)
    have "length (written dh2) \<le> sz" "dh_nodeid dh2 = ino" using written_length [OF l(2)] l(2,3) u32_le [of sz] f(3) by (simp_all add: dh_ok_def dh_same_def)
    then show ?thesis using True l(1) keep [OF l(2)] by (auto simp: eq dh_reply_written)
  qed
qed

section \<open>A file system that delivers all entries at once\<close>

text \<open>Handing the entries to the callback without offsets, until one is refused.\<close>

fun feed :: "filler \<Rightarrow> (string \<times> lstat option) list \<Rightarrow> dirbuf \<Rightarrow> dirbuf" where
  "feed fl [] buf = buf"
| "feed fl ((nm, st) # es) buf = (let (r, buf) = fl buf nm st 0 0 in if r \<noteq> 0 then buf else feed fl es buf)"

definition lists_all :: "'w dir_op \<Rightarrow> (string \<times> lstat option) list \<Rightarrow> bool" where
  "lists_all fs es \<longleftrightarrow> (\<exists>g. op_readdir fs = Some g \<and> (\<forall>path buf fl fi w. g path buf fl 0 fi 0 w = (0, feed fl es buf, w)))"

definition sent_entries :: "fuse_config \<Rightarrow> flib \<Rightarrow> nat \<Rightarrow> (string \<times> lstat option) list \<Rightarrow> (lstat \<times> string) list" where
  "sent_entries cf l ino es = map (\<lambda>(nm, st). (sent_stat cf l ino nm st, nm)) es"

definition sent_list :: "fuse_config \<Rightarrow> flib \<Rightarrow> nat \<Rightarrow> (string \<times> lstat option) list \<Rightarrow> direntry list" where
  "sent_list cf l ino es = map (\<lambda>(st, nm). \<lparr>de_stat = st, de_name = nm\<rparr>) (sent_entries cf l ino es)"

lemma sent_list_entries: "map (\<lambda>de. (de_stat de, de_name de)) (drop k (sent_list cf l ino es)) = drop k (sent_entries cf l ino es)"
  by (rule nth_equalityI) (auto simp: sent_list_def split_beta)

lemma sent_stat_relock: "sent_stat cf (l\<lparr>nodes := relock L (nodes l)\<rparr>) = sent_stat cf l"
  by (simp add: sent_stat_def lookup_nodeid_relock fun_eq_iff Let_def)

lemma feed_fills:
  assumes "dh_filled dh" "\<And>nm. lookup_nodeid (dh_nodeid dh) nm l \<noteq> None"
  shows "feed (as_filler (fill_dir ub cf)) es (Some (dh, l)) = Some (dh\<lparr>dh_first := dh_first dh @ sent_list cf l (dh_nodeid dh) es\<rparr>, l)"
  using assms
proof (induction es arbitrary: dh)
  case Nil
  then show ?case by (simp add: sent_list_def sent_entries_def)
next
  case (Cons e es)
  obtain nm st where e: "e = (nm, st)" by fastforce
  let ?dh = "fuse_add_direntry_to_dh dh nm (sent_stat cf l (dh_nodeid dh) nm st)"
  have "as_filler (fill_dir ub cf) (Some (dh, l)) nm st 0 0 = (0, Some (?dh, l))"
    using Cons.prems(1) by (simp add: as_filler_def fill_dir_eq [OF Cons.prems(2)] fill_list_def Let_def)
  moreover have "dh_filled ?dh" "\<And>nm. lookup_nodeid (dh_nodeid ?dh) nm l \<noteq> None" using Cons.prems by (simp_all add: fuse_add_direntry_to_dh_def)
  ultimately show ?case using Cons.IH [of ?dh]
    by (simp add: e fuse_add_direntry_to_dh_def sent_list_def sent_entries_def)
qed

lemma list_fill:
  assumes "dir_request d ino fh nms" "lists_all fs es" "dh_ok dh" "dh_nodeid dh = ino"
  obtains dh' where "readdir_fill u ub fs cf ino sz 0 0 dh (dlib_l d) w = Some (0, dh', dlib_l d, w)" "dh_ok dh'" "dh_filled dh'"
    "dh_first dh' = sent_list cf (dlib_l d) ino es" "dh_nodeid dh' = ino"
proof -
  obtain g where g: "op_readdir fs = Some g" "\<And>path buf fl fi w. g path buf fl 0 fi 0 w = (0, feed fl es buf, w)"
    using assms(2) by (auto simp: lists_all_def)
  then have "op_readdir fs \<noteq> None" by simp
  then obtain L where e: "\<And>dh w. readdir_fill u ub fs cf ino sz 0 0 dh (dlib_l d) w =
    (let (err, buf, w) = fuse_fs_readdir fs (dir_name cf nms) (Some (fresh_dh sz dh, (dlib_l d)\<lparr>nodes := relock L (nodes (dlib_l d))\<rparr>))
        (as_filler (fill_dir ub cf)) 0 (dir_info dh) 0 w
     in do { (dh, l) \<leftarrow> buf; let err = (if err = 0 then dh_error dh else err);
       let dh = (if err \<noteq> 0 then dh\<lparr>dh_filled := False\<rparr> else dh);
       l \<leftarrow> free_path_lib ino (dir_name cf nms) l; Some (err, dh, l, w) })"
    "free_path_lib ino (dir_name cf nms) ((dlib_l d)\<lparr>nodes := relock L (nodes (dlib_l d))\<rparr>) = Some (dlib_l d)"
    by (rule readdir_fill_eq [OF assms(1), where u = u and ub = ub and cf = cf and sz = sz and off = 0]) blast
  let ?l = "(dlib_l d)\<lparr>nodes := relock L (nodes (dlib_l d))\<rparr>"
  let ?dh = "(fresh_dh sz dh)\<lparr>dh_first := sent_list cf (dlib_l d) ino es\<rparr>"
  have f: "dh_filled (fresh_dh sz dh)" "dh_nodeid (fresh_dh sz dh) = ino" "dh_first (fresh_dh sz dh) = []" "dh_error (fresh_dh sz dh) = 0"
    using assms(4) by (simp_all add: fresh_dh_def)
  have "sent_list cf ?l ino es = sent_list cf (dlib_l d) ino es" by (simp add: sent_list_def sent_entries_def sent_stat_relock)
  then have "feed (as_filler (fill_dir ub cf)) es (Some (fresh_dh sz dh, ?l)) = Some (?dh, ?l)"
    using feed_fills [OF f(1), of ?l ub cf es] dir_request_lookup [OF assms(1)] f(2,3) by simp
  then have "readdir_fill u ub fs cf ino sz 0 0 dh (dlib_l d) w = Some (0, ?dh, dlib_l d, w)"
    by (simp add: e fuse_fs_readdir_def g f(4) Let_def)
  moreover have "dh_ok ?dh" using fresh_dh_ok [OF assms(3), of sz] by (simp add: dh_ok_def split: option.splits)
  ultimately show ?thesis using that f(1,2) by simp
qed

text \<open>The state of a client that has read up to offset \<open>k\<close>.\<close>

definition list_stands :: "'w dir_op \<Rightarrow> fuse_config \<Rightarrow> nat \<Rightarrow> nat \<Rightarrow> nat \<Rightarrow> flib \<Rightarrow> (string \<times> lstat option) list \<Rightarrow> nat \<Rightarrow> dlib \<times> 'w \<Rightarrow> bool" where
  "list_stands fs cf ino sz fh l es k s \<longleftrightarrow> (\<exists>nms. dir_request (fst s) ino fh nms) \<and> dlib_l (fst s) = l \<and> lists_all fs es \<and> dir_fits sz (sent_entries cf l ino es)
     \<and> (0 < k \<longrightarrow> (\<exists>dh. handles (fst s) fh = Some dh \<and> dh_filled dh \<and> dh_first dh = sent_list cf l ino es))"

definition readdir_req :: "(nat \<Rightarrow> char) \<Rightarrow> (nat \<Rightarrow> byte) \<Rightarrow> 'w dir_op \<Rightarrow> fuse_config \<Rightarrow> nat \<Rightarrow> nat \<Rightarrow> nat \<Rightarrow> int \<Rightarrow> dlib \<times> 'w \<Rightarrow> (reply \<times> dlib \<times> 'w) option" where
  "readdir_req u ub fs cf ino sz fh off s = fuse_lib_readdir u ub fs cf ino sz off fh (fst s) (snd s)"

lemma list_serve:
  assumes "list_stands fs cf ino sz fh l es k s" "k \<le> length (dir_seen (sent_entries cf l ino es))"
  shows "\<exists>b s' m. readdir_req u ub fs cf ino sz fh (int k) s = Some (Reply_buf b, s')
    \<and> parse_dirents b = take m (drop k (dir_seen (sent_entries cf l ino es))) \<and> (k < length (dir_seen (sent_entries cf l ino es)) \<longrightarrow> 0 < m)
    \<and> k + m \<le> length (dir_seen (sent_entries cf l ino es)) \<and> list_stands fs cf ino sz fh l es (k + m) s'"
proof -
  obtain d w where s: "s = (d, w)" by fastforce
  obtain nms where a: "dir_request d ino fh nms" "dlib_l d = l" "lists_all fs es" "dir_fits sz (sent_entries cf l ino es)"
    "0 < k \<Longrightarrow> \<exists>dh. handles d fh = Some dh \<and> dh_filled dh \<and> dh_first dh = sent_list cf l ino es"
    using assms(1) by (auto simp: s list_stands_def)
  obtain dh0 where dh0: "handles d fh = Some dh0" "dh_ok dh0" "dh_nodeid dh0 = ino" using a(1) by (auto simp: dir_request_def)
  define dh where "dh = (if int k = 0 then dh0\<lparr>dh_filled := False\<rparr> else dh0)"
  have dh: "dh_ok dh" "dh_nodeid dh = ino" using dh0(2,3) by (simp_all add: dh_def dh_ok_def split: option.splits)
  obtain dh1 where f: "(if dh_filled dh then Some (0, dh, dlib_l d, w) else readdir_fill u ub fs cf ino sz (int k) 0 dh (dlib_l d) w) = Some (0, dh1, l, w)"
    "dh_ok dh1" "dh_filled dh1" "dh_first dh1 = sent_list cf l ino es" "dh_nodeid dh1 = ino"
  proof (cases "k = 0")
    case True
    obtain dh' where "readdir_fill u ub fs cf ino sz 0 0 dh (dlib_l d) w = Some (0, dh', dlib_l d, w)" "dh_ok dh'" "dh_filled dh'"
      "dh_first dh' = sent_list cf (dlib_l d) ino es" "dh_nodeid dh' = ino" by (rule list_fill [OF a(1,3) dh])
    then show ?thesis using that [of dh'] a(2) True by (simp add: dh_def)
  next
    case False
    then show ?thesis using that [of dh0] a(2,5) dh0 by (simp add: dh_def)
  qed
  have sz: "sz < 2 ^ 31" "u32 (int sz) = sz" using a(4) by (simp_all add: dir_fits_def)
  let ?es = "sent_entries cf l ino es"
  let ?dh = "dh1\<lparr>dh_needlen := sz\<rparr>"
  have ok: "dh_ok (?dh\<lparr>dh_len := 0\<rparr>)" using dh_ok_reset [OF f(2), of sz] sz(1) by simp
  have kl: "k \<le> length ?es" using assms(2) by simp
  have items: "list_items 0 (int k) (drop k (sent_list cf l ino es)) = dir_bytes (int k) (drop k ?es)" by (simp add: list_items_bytes sent_list_entries)
  have small: "\<forall>x \<in> set (dir_bytes (int k) (drop k ?es)). length x < 2 ^ 31"
    using dir_bytes_small [OF a(4)] .
  obtain dh2 where w: "readdir_fill_from_list ub (int k) 0 ?dh = Some dh2" "dh_ok dh2" "dh_same ?dh dh2" "dh_filled dh2 = dh_filled ?dh"
    "written dh2 = concat (fitting sz (dir_bytes (int k) (drop k ?es)))"
    using from_list_writes [OF ok, of k 0 ub] f(4) sz(1) kl items small by (auto simp: sent_list_def)
  obtain m where m: "parse_dirents (written dh2) = take m (drop k (dir_seen ?es))" "k < length ?es \<longrightarrow> 0 < m" "k + m \<le> length ?es"
    using dir_reply [OF a(4) kl] w(5) by auto
  let ?d = "d\<lparr>dlib_l := l, handles := (handles d)(fh \<mapsto> dh2)\<rparr>"
  have "readdir_req u ub fs cf ino sz fh (int k) s = Some (Reply_buf (written dh2), ?d, w)"
    unfolding readdir_req_def s fst_conv snd_conv fuse_lib_readdir_def readdir_common_steps [OF dh0(1) dh_def f(1)]
    using w(1) f(3) sz(2) by (simp add: dh_reply_written)
  moreover have "list_stands fs cf ino sz fh l es (k + m) (?d, w)"
    using a(1-4) w(2-4) f(3-5) by (auto simp: list_stands_def dir_request_def dh_same_def)
  ultimately show ?thesis using m by auto
qed

interpretation listing: dir_server "readdir_req u ub fs cf ino sz fh" "list_stands fs cf ino sz fh l es" "dir_seen (sent_entries cf l ino es)"
  by unfold_locales (simp add: dir_seen_offset, rule list_serve)

text \<open>
  C19. A file system that delivers its directories at once: a client that goes on from the
  offset of the last entry it got until a reply is empty gets every entry exactly once, in
  order, if each fits a reply.
\<close>

theorem readdir_list_complete:
  assumes "dir_request d ino fh nms" "lists_all fs es" "dir_fits sz (sent_entries cf (dlib_l d) ino es)"
  shows "dir_stream (readdir_req u ub fs cf ino sz fh) 0 (d, w) = Some (dir_seen (sent_entries cf (dlib_l d) ino es))"
  using listing.stream [where k = 0 and s = "(d, w)" and l = "dlib_l d" and fs = fs and cf = cf and ino = ino and sz = sz and fh = fh and es = es] assms
  by (auto simp: list_stands_def)

section \<open>Listings with attributes\<close>

text \<open>
  C20. Listing with attributes counts a lookup of the kernel for every entry before it is
  known whether the entry fits: for one that does not, the reply is as before and the
  callback says so, but the node has been looked up once more. The kernel, which did not
  get the entry, never forgets this lookup.
\<close>

theorem readdirplus_counts_unsent:
  assumes "node_session f K" "0 < K (dh_nodeid dh)" "lookup_room f K" "nodes l = relock L f" "L (fbrk f) = 0" "dh_ok dh" "dh_first dh = []"
    "\<not> is_dot_or_dotdot nm" "off \<noteq> 0" "dh_needlen dh < dh_len dh + plus_len (length nm)"
  shows "\<exists>y f' dh'. find_node (dh_nodeid dh) (Some nm) f = Some (y, f') \<and> node_session f' (K(nodeid (fn f' y) := K (nodeid (fn f' y)) + 1))
    \<and> fill_dir_plus ub cf nm (Some st) off FUSE_FILL_DIR_PLUS dh l = Some (1, dh', l\<lparr>nodes := relock L f'\<rparr>) \<and> written dh' = written dh"
proof -
  have inv: "nodes_inv f" "counted f K" using session_inv [OF assms(1)] by simp_all
  note n = nodes_okD [OF node_invD(1) [OF conjunct1 [OF inv(1)]]]
  obtain p y f' where f': "p \<in> live f" "find_node (dh_nodeid dh) (Some nm) f = Some (y, f')" "looked_up p nm y f f'"
    using lookup_step [OF inv assms(2), of nm] assms(3) unfolding lookup_room_def by metis
  have fl: "find_node (dh_nodeid dh) (Some nm) (relock L f) = Some (y, relock L f')" using relock_find_node [OF f'(2) n(9)] assms(5) n(12) by simp
  have "y \<in> live f'" using f'(3) by (simp add: looked_up_def)
  then have "fnodes (relock L f') y = Some ((fn f' y)\<lparr>treelock := L y\<rparr>)" by (simp add: relock_fnodes live_fn)
  then obtain e where e: "do_lookup cf (dh_nodeid dh) (Some nm) (zero_entry\<lparr>e_attr := st\<rparr>) l = Some (e, l\<lparr>nodes := relock L f'\<rparr>)"
    using fl by (simp add: do_lookup_def assms(4) Let_def)
  obtain dh' where "fill_buffer ub (\<lambda>c p n. fuse_add_direntry_plus c p n nm e off) dh = Some (1, dh')" "written dh' = written dh"
    using fill_buffer_ok [OF assms(6,7) adds_direntry_plus, of ub nm e off] assms(10) by (auto simp: length_plus_bytes)
  then have "fill_dir_plus ub cf nm (Some st) off FUSE_FILL_DIR_PLUS dh l = Some (1, dh', l\<lparr>nodes := relock L f'\<rparr>)" "written dh' = written dh"
    using assms(8,9) e by (simp_all add: fill_dir_plus_def FUSE_FILL_DIR_PLUS_def Let_def)
  then show ?thesis using f'(2) lookup_session_next [OF assms(1-3) f'(2)] by blast
qed

section \<open>Opening and releasing\<close>

text \<open>
  Opening a directory: the file system opens its path, and the reply names a new handle
  with which the directory can be read; if that fails, the reply is the error and there is
  no new handle. No lock is left.
\<close>

theorem opendir_request:
  assumes "node_session (nodes (dlib_l d)) K" "0 < K ino" "walk (nodes (dlib_l d)) FUSE_ROOT_ID nms = Some ino" "path_room (nodes (dlib_l d)) None"
    "handles d (next_dh d) = None"
  shows "let (err, fi, w') = fuse_fs_opendir fs (slashed (spell nms @ suffix_of None)) (zero_finfo\<lparr>fi_flags := fi_flags llfi\<rparr>) w
    in if err = 0 then \<exists>d'. fuse_lib_opendir u fs False ino llfi d w = Some (Reply_open (llfi\<lparr>fi_fh := next_dh d\<rparr>), d', w')
        \<and> dir_request d' ino (next_dh d) nms \<and> dlib_l d' = dlib_l d \<and> handles d' = (handles d)(next_dh d \<mapsto> (new_handle ino)\<lparr>dh_fh := fi_fh fi\<rparr>)
      else \<exists>d'. fuse_lib_opendir u fs False ino llfi d w = Some (Reply_err (- err), d', w') \<and> dlib_l d' = dlib_l d \<and> handles d' = handles d"
proof -
  let ?f = "nodes (dlib_l d)" and ?p = "slashed (spell nms @ suffix_of None)"
  obtain err fi w' where o: "fuse_fs_opendir fs ?p (zero_finfo\<lparr>fi_flags := fi_flags llfi\<rparr>) w = (err, fi, w')" using prod_cases3 by blast
  obtain x ps where x: "get_path_common u ino None False ?f = Some (0, Some ?p, 0, relock (req_locks 0 ps) ?f)"
    "unlock_path ino 0 0 (relock (req_locks 0 ps) ?f) = Some ?f" by (rule reader_path [OF assms(1-4)]) blast
  have "dh_ok ((new_handle ino)\<lparr>dh_fh := h\<rparr>)" "dh_nodeid ((new_handle ino)\<lparr>dh_fh := h\<rparr>) = ino" for h by (simp_all add: dh_ok_def new_handle_def)
  then have r: "dir_request (d\<lparr>handles := (handles d)(next_dh d \<mapsto> (new_handle ino)\<lparr>dh_fh := h\<rparr>), next_dh := next_dh d + 1\<rparr>) ino (next_dh d) nms" for h
    using assms(1-4) by (auto simp: dir_request_def)
  have n: "(handles d)(next_dh d := None) = handles d" using assms(5) by auto
  show ?thesis
    using r x(2) n by (cases "err = 0") (simp_all add: o fuse_lib_opendir_def x(1) free_path_lib_def free_path_def free_path_wrlock_def Let_def)
qed

text \<open>Releasing it: the handle is gone, the nodes are as before.\<close>

theorem releasedir_request:
  assumes "dir_request d ino fh nms"
  shows "\<exists>d' w'. fuse_lib_releasedir u fs cf ino fh d w = Some (Reply_err 0, d', w') \<and> dlib_l d' = dlib_l d \<and> handles d' = (handles d)(fh := None)"
proof -
  obtain K dh where K: "node_session (nodes (dlib_l d)) K" "0 < K ino" "walk (nodes (dlib_l d)) FUSE_ROOT_ID nms = Some ino" "path_room (nodes (dlib_l d)) None"
    "handles d fh = Some dh" using assms by (auto simp: dir_request_def)
  obtain L where L: "get_path_nullok u cf ino (nodes (dlib_l d)) = Some (0, dir_name cf nms, relock L (nodes (dlib_l d)))"
    "free_path ino (dir_name cf nms) (relock L (nodes (dlib_l d))) = Some (nodes (dlib_l d))" by (rule nullok_path [OF K(1-4)])
  show ?thesis using L K(5)
    by (cases "fuse_fs_releasedir fs (dir_name cf nms) (dir_info dh) w") (simp add: fuse_lib_releasedir_def free_path_lib_def)
qed

section \<open>The root of a new file system\<close>

definition list_fs :: "(string \<times> lstat option) list \<Rightarrow> unit dir_op" where
  "list_fs es = \<lparr>op_opendir = None, op_readdir = Some (\<lambda>path buf fl off fi flags w. (0, feed fl es buf, w)), op_releasedir = None, op_fsyncdir = None\<rparr>"

definition open_root :: "fuse \<Rightarrow> dlib" where
  "open_root f = \<lparr>dlib_l = new_lib f, handles = (\<lambda>_. None)(1 \<mapsto> new_handle FUSE_ROOT_ID), next_dh = 2\<rparr>"

lemma feed_keeps: "P buf \<Longrightarrow> (\<And>b nm st o' f'. P b \<Longrightarrow> P (snd (fl b nm st o' f'))) \<Longrightarrow> P (feed fl es buf)"
proof (induction es arbitrary: buf)
  case (Cons e es)
  obtain nm st where e: "e = (nm, st)" by fastforce
  have "P (snd (fl buf nm st 0 0))" using Cons.prems by blast
  then show ?case using Cons.IH [of "snd (fl buf nm st 0 0)"] Cons.prems(2) by (simp add: e split_beta Let_def)
qed simp

lemma list_fs_uses_callback: "uses_callback (list_fs es)"
  by (auto simp: uses_callback_def list_fs_def intro: feed_keeps)

lemma open_root_request:
  obtains f where "fuse_new_nodes 0 = Some f" "dir_request (open_root f) FUSE_ROOT_ID 1 []" "node_session f ((\<lambda>_. 0)(FUSE_ROOT_ID := 1))"
    "lookup_room f ((\<lambda>_. 0)(FUSE_ROOT_ID := 1))"
proof -
  obtain f where f: "fuse_new_nodes 0 = Some f" "node_session (nodes (new_lib f)) ((\<lambda>_. 0)(FUSE_ROOT_ID := 1))" "path_room (nodes (new_lib f)) (Some ''a'')"
    "lookup_room (nodes (new_lib f)) ((\<lambda>_. 0)(FUSE_ROOT_ID := 1))" by (rule new_lib_session)
  have "path_room (nodes (new_lib f)) None" using f(3) by (simp add: path_room_def suffix_of_def)
  then have "dir_request (open_root f) FUSE_ROOT_ID 1 []"
    using f(2) by (auto simp: dir_request_def open_root_def dh_ok_def new_handle_def intro!: exI [of _ "(\<lambda>_. 0)(FUSE_ROOT_ID := 1)"])
  then show ?thesis using that f by (simp add: new_lib_def)
qed

theorem readdir_bounded_witness:
  "\<exists>f r d'. fuse_new_nodes 0 = Some f
    \<and> fuse_lib_readdir (\<lambda>_. CHR ''x'') (\<lambda>_. 0) (list_fs [(''a'', None)]) plain_config FUSE_ROOT_ID 4096 0 1 (open_root f) () = Some (r, d', ())
    \<and> (\<forall>b. r = Reply_buf b \<longrightarrow> length b \<le> 4096)"
proof -
  obtain f where f: "fuse_new_nodes 0 = Some f" "dir_request (open_root f) FUSE_ROOT_ID 1 []" by (rule open_root_request)
  show ?thesis
    using readdir_bounded [OF f(2) list_fs_uses_callback [of "[(''a'', None)]"], of "\<lambda>_. CHR ''x''" "\<lambda>_. 0" plain_config 4096 0 "()"] f(1)
    by (simp add: list_fs_def) blast
qed

theorem readdir_list_complete_witness:
  "\<exists>f. fuse_new_nodes 0 = Some f
    \<and> dir_stream (readdir_req (\<lambda>_. CHR ''x'') (\<lambda>_. 0) (list_fs [(''a'', None), (''b'', None)]) plain_config FUSE_ROOT_ID 40 1) 0 (open_root f, ())
      = Some [(0xFFFFFFFF, 1, ''a'', 0), (0xFFFFFFFF, 2, ''b'', 0)]"
proof -
  let ?es = "[(''a'', None), (''b'', None)] :: (string \<times> lstat option) list"
  obtain f where f: "fuse_new_nodes 0 = Some f" "dir_request (open_root f) FUSE_ROOT_ID 1 []" by (rule open_root_request)
  have l: "lists_all (list_fs ?es) ?es" by (simp add: lists_all_def list_fs_def)
  have e: "sent_entries plain_config (dlib_l (open_root f)) FUSE_ROOT_ID ?es
      = [(zero_stat\<lparr>st_ino := 0xFFFFFFFF\<rparr>, ''a''), (zero_stat\<lparr>st_ino := 0xFFFFFFFF\<rparr>, ''b'')]"
    by (simp add: sent_entries_def sent_stat_def plain_config_def FUSE_UNKNOWN_INO_def zero_stat_def)
  have fit: "dir_fits 40 (sent_entries plain_config (dlib_l (open_root f)) FUSE_ROOT_ID ?es)"
    unfolding e by (simp add: dir_fits_def ent_len_def FUSE_DIRENT_ALIGN_def FUSE_NAME_OFFSET_def)
  show ?thesis
    using readdir_list_complete [OF f(2) l fit, of "\<lambda>_. CHR ''x''" "\<lambda>_. 0" "()"] f(1)
    unfolding e by (simp add: dir_seen_def seen_def zero_stat_def)
qed

theorem readdirplus_counts_unsent_witness:
  "\<exists>f y f' dh'. fuse_new_nodes 0 = Some f \<and> find_node FUSE_ROOT_ID (Some ''a'') f = Some (y, f')
    \<and> fill_dir_plus (\<lambda>_. 0) plain_config ''a'' (Some zero_stat) 1 FUSE_FILL_DIR_PLUS ((new_handle FUSE_ROOT_ID)\<lparr>dh_needlen := 100\<rparr>) (new_lib f)
      = Some (1, dh', (new_lib f)\<lparr>nodes := relock (\<lambda>_. 0) f'\<rparr>)"
proof -
  obtain f where f: "fuse_new_nodes 0 = Some f" "node_session f ((\<lambda>_. 0)(FUSE_ROOT_ID := 1))" "lookup_room f ((\<lambda>_. 0)(FUSE_ROOT_ID := 1))"
    by (rule open_root_request)
  have "nodes (new_lib f) = relock (\<lambda>_. 0) f" using nodes_unlocked session_inv [OF f(2)] by (simp add: new_lib_def)
  from readdirplus_counts_unsent [OF f(2) _ f(3) this, of "(new_handle FUSE_ROOT_ID)\<lparr>dh_needlen := 100\<rparr>" "''a''" 1 "\<lambda>_. 0" plain_config zero_stat]
  show ?thesis using f(1)
    by (auto simp: new_handle_def dh_ok_def is_dot_or_dotdot_def plus_len_def FUSE_DIRENT_ALIGN_def FUSE_NAME_OFFSET_DIRENTPLUS_def)
qed

end
