(* ===== verification/Cyc_Dirs.thy ===== *)
theory Cyc_Dirs
  imports Dir_Requests Passthrough
begin

text \<open>
  Directories of Cycology read through libfuse: \<open>xmp_readdir\<close> (theory \<open>Passthrough\<close>) as the
  operation that the requests of theory \<open>Dir_Handles\<close> call. It delivers entries with
  offsets, so libfuse does not keep them but asks again for every reply. The world of the
  operation is its stream of the directory (\<open>struct xmp_dirp\<close>).
\<close>

section \<open>The handler as an operation of libfuse\<close>

definition lstat_of :: "hstat \<Rightarrow> lstat" where
  "lstat_of st = \<lparr>lstat.st_ino = nat (hstat.st_ino st), lstat.st_mode = uint (hstat.st_mode st), lstat.st_nlink = nat (hstat.st_nlink st),
     lstat.st_uid = unat (hstat.st_uid st), lstat.st_gid = unat (hstat.st_gid st), lstat.st_rdev = nat (hstat.st_rdev st), lstat.st_size = hstat.st_size st,
     lstat.st_blksize = nat (hstat.st_blksize st), lstat.st_blocks = hstat.st_blocks st,
     lstat.st_atime = (sint (fst (st_atim st)), unat (snd (st_atim st))), lstat.st_mtime = (sint (fst (st_mtim st)), unat (snd (st_mtim st))),
     lstat.st_ctime = (sint (fst (st_ctim st)), unat (snd (st_ctim st)))\<rparr>"

definition cyc_filler :: "filler \<Rightarrow> dirbuf Passthrough.fill_dir" where
  "cyc_filler fl buf nm st off fill_flags = fl buf nm (Some (lstat_of st)) off (if fill_flags then FUSE_FILL_DIR_PLUS else 0)"

definition cyc_dirs :: "(string \<Rightarrow> hstat option) \<Rightarrow> xmp_dirp dir_op" where
  "cyc_dirs fstatat = \<lparr>op_opendir = None,
     op_readdir = Some (\<lambda>path buf fl off fi flags w.
       let (res, w, buf) = xmp_readdir (cyc_filler fl) fstatat (and flags FUSE_READDIR_PLUS \<noteq> 0) off w buf in (res, buf, w)),
     op_releasedir = None, op_fsyncdir = None\<rparr>"

text \<open>The entries of a directory of the host as libfuse sends them.\<close>

definition cyc_entry :: "fuse_config \<Rightarrow> flib \<Rightarrow> nat \<Rightarrow> dirent \<Rightarrow> lstat \<times> string" where
  "cyc_entry cf l ino e = (sent_stat cf l ino (d_name e) (Some (lstat_of (fst (entry_stat (\<lambda>_. None) False e)))), d_name e)"

lemma entry_stat_plain: "entry_stat fstatat False e = entry_stat (\<lambda>_. None) False e"
  by (simp add: entry_stat_def)

lemma offer_fills:
  assumes "dh_ok dh" "dh_first dh = []" "\<And>nm. lookup_nodeid (dh_nodeid dh) nm l \<noteq> None"
  shows "\<exists>dh'. offer (cyc_filler (as_filler (fill_dir ub cf))) fstatat False k es (Some (dh, l))
      = (Some (dh', l), length (fitting (dh_needlen dh - dh_len dh) (dir_bytes (int k) (map (cyc_entry cf l (dh_nodeid dh)) es))))
    \<and> dh_ok dh' \<and> dh_same dh dh' \<and> dh_filled dh' = (if es = [] then dh_filled dh else False)
    \<and> written dh' = written dh @ concat (fitting (dh_needlen dh - dh_len dh) (dir_bytes (int k) (map (cyc_entry cf l (dh_nodeid dh)) es)))"
  using assms
proof (induction es arbitrary: dh k)
  case Nil
  then show ?case by (simp add: dir_bytes_def dh_same_def)
next
  case (Cons e es)
  define st where "st = fst (entry_stat fstatat False e)"
  let ?x = "ent_bytes (sent_stat cf l (dh_nodeid dh) (d_name e) (Some (lstat_of st))) (int k + 1) (d_name e)"
  have bytes: "dir_bytes (int k) (map (cyc_entry cf l (dh_nodeid dh)) (e # es)) = ?x # dir_bytes (int (k + 1)) (map (cyc_entry cf l (dh_nodeid dh)) es)"
    using entry_stat_plain [of fstatat e] by (simp add: dir_bytes_def cyc_entry_def st_def add.commute)
  obtain r dh1 where f: "fill_buffer ub (\<lambda>c p n. fuse_add_direntry c p n (d_name e) (sent_stat cf l (dh_nodeid dh) (d_name e) (Some (lstat_of st))) (int k + 1)) dh = Some (r, dh1)"
    "dh_ok dh1" "dh_same dh dh1" "\<not> dh_filled dh1"
    "if dh_len dh + length ?x \<le> dh_needlen dh then r = 0 \<and> written dh1 = written dh @ ?x \<and> dh_len dh1 = dh_len dh + length ?x
     else r = 1 \<and> written dh1 = written dh \<and> dh_len dh1 = dh_len dh"
    by (rule fill_buffer_ok [OF Cons.prems(1,2) adds_direntry])
  have call: "cyc_filler (as_filler (fill_dir ub cf)) (Some (dh, l)) (d_name e) st (int k + 1) (snd (entry_stat fstatat False e)) = (r, Some (dh1, l))"
    using f(1) by (simp add: cyc_filler_def as_filler_def fill_dir_eq [OF Cons.prems(3)] entry_stat_def Let_def)
  have es: "entry_stat fstatat False e = (st, snd (entry_stat fstatat False e))" by (simp add: st_def)
  have le: "dh_len dh \<le> dh_needlen dh" using Cons.prems(1) by (simp add: dh_ok_def)
  show ?case
  proof (cases "dh_len dh + length ?x \<le> dh_needlen dh")
    case False
    then have "offer (cyc_filler (as_filler (fill_dir ub cf))) fstatat False k (e # es) (Some (dh, l)) = (Some (dh1, l), 0)"
      using call f(5) by (subst offer.simps, subst es) simp
    moreover have "\<not> length ?x \<le> dh_needlen dh - dh_len dh" using False le by linarith
    ultimately show ?thesis unfolding bytes using f(2-5) False by (simp del: offer.simps)
  next
    case True
    have s: "dh_first dh1 = []" "dh_nodeid dh1 = dh_nodeid dh" "dh_needlen dh1 = dh_needlen dh" using f(3) Cons.prems(2) by (simp_all add: dh_same_def)
    have len: "dh_len dh1 = dh_len dh + length ?x" "r = 0" "written dh1 = written dh @ ?x" using f(5) True by simp_all
    let ?n = "dh_needlen dh - (dh_len dh + length ?x)"
    let ?xs = "dir_bytes (int (k + 1)) (map (cyc_entry cf l (dh_nodeid dh)) es)"
    have nd: "lookup_nodeid (dh_nodeid dh1) nm l \<noteq> None" for nm using Cons.prems(3) s(2) by simp
    obtain dh' where i: "offer (cyc_filler (as_filler (fill_dir ub cf))) fstatat False (k + 1) es (Some (dh1, l)) = (Some (dh', l), length (fitting ?n ?xs))"
      "dh_ok dh'" "dh_same dh1 dh'" "dh_filled dh' = (if es = [] then dh_filled dh1 else False)" "written dh' = written dh @ ?x @ concat (fitting ?n ?xs)"
      using Cons.IH [OF f(2) s(1) nd, of "k + 1"] unfolding s len by auto
    have "offer (cyc_filler (as_filler (fill_dir ub cf))) fstatat False k (e # es) (Some (dh, l)) = (Some (dh', l), Suc (length (fitting ?n ?xs)))"
      using call i(1) len(2) by (subst offer.simps, subst es) simp
    moreover have "length ?x \<le> dh_needlen dh - dh_len dh" using True by simp
    ultimately show ?thesis unfolding bytes using i(2-5) f(3,4) by (auto simp: dh_same_def simp del: offer.simps)
  qed
qed

section \<open>Requests\<close>

lemma from_empty_list:
  assumes "dh_ok (dh\<lparr>dh_len := 0\<rparr>)" "dh_first dh = []"
  obtains dh' where "readdir_fill_from_list ub off flags dh = Some dh'" "dh_ok dh'" "dh_same dh dh'" "dh_filled dh' = dh_filled dh" "written dh' = []"
proof -
  obtain c n where e: "extend_contents ub (dh_needlen dh) (dh\<lparr>dh_len := 0\<rparr>) = Some (dh\<lparr>dh_len := 0, dh_contents := c, dh_size := n\<rparr>)"
    "dh_ok (dh\<lparr>dh_len := 0, dh_contents := c, dh_size := n\<rparr>)" by (rule extend_reset [OF assms(1)])
  have "written (dh\<lparr>dh_len := 0, dh_contents := c, dh_size := n\<rparr>) = []" by (simp add: written_def split: option.splits)
  then show ?thesis using that e assms(2) by (auto simp: readdir_fill_from_list_def dh_same_def)
qed

lemma cyc_fill:
  assumes "dir_request d ino fh nms" "dh_ok dh" "dh_nodeid dh = ino" "dirp_ok w" "k \<le> length (dents (dp w))"
  obtains dh' w' where "readdir_fill u ub (cyc_dirs fstatat) cf ino sz (int k) 0 dh (dlib_l d) w = Some (0, dh', dlib_l d, w')" "dh_ok dh'"
    "dh_filled dh' \<longleftrightarrow> k = length (dents (dp w))" "dh_first dh' = []" "dh_nodeid dh' = ino" "dirp_ok w'" "dents (dp w') = dents (dp w)"
    "written dh' = concat (fitting (u32 (int sz)) (dir_bytes (int k) (drop k (map (cyc_entry cf (dlib_l d) ino) (dents (dp w))))))"
proof -
  have "op_readdir (cyc_dirs fstatat) \<noteq> None" by (simp add: cyc_dirs_def)
  then obtain L where e: "\<And>dh w. readdir_fill u ub (cyc_dirs fstatat) cf ino sz (int k) 0 dh (dlib_l d) w =
    (let (err, buf, w) = fuse_fs_readdir (cyc_dirs fstatat) (dir_name cf nms) (Some (fresh_dh sz dh, (dlib_l d)\<lparr>flib.nodes := relock L (flib.nodes (dlib_l d))\<rparr>))
        (as_filler (fill_dir ub cf)) (int k) (dir_info dh) 0 w
     in do { (dh, l) \<leftarrow> buf; let err = (if err = 0 then dh_error dh else err);
       let dh = (if err \<noteq> 0 then dh\<lparr>dh_filled := False\<rparr> else dh);
       l \<leftarrow> free_path_lib ino (dir_name cf nms) l; Some (err, dh, l, w) })"
    "free_path_lib ino (dir_name cf nms) ((dlib_l d)\<lparr>flib.nodes := relock L (flib.nodes (dlib_l d))\<rparr>) = Some (dlib_l d)"
    by (rule readdir_fill_eq [OF assms(1), where u = u and ub = ub and cf = cf and sz = sz and off = "int k"]) blast
  let ?l = "(dlib_l d)\<lparr>flib.nodes := relock L (flib.nodes (dlib_l d))\<rparr>"
  have f: "dh_first (fresh_dh sz dh) = []" "dh_filled (fresh_dh sz dh)" "dh_nodeid (fresh_dh sz dh) = ino" "dh_error (fresh_dh sz dh) = 0" "dh_len (fresh_dh sz dh) = 0"
    "dh_needlen (fresh_dh sz dh) = u32 (int sz)" using assms(3) by (simp_all add: fresh_dh_def)
  have w0: "written (fresh_dh sz dh) = []" by (simp add: fresh_dh_def written_def split: option.splits)
  have ce: "cyc_entry cf ?l ino = cyc_entry cf (dlib_l d) ino" by (simp add: cyc_entry_def sent_stat_relock fun_eq_iff)
  have nd: "lookup_nodeid (dh_nodeid (fresh_dh sz dh)) nm ?l \<noteq> None" for nm using dir_request_lookup [OF assms(1)] f(3) by simp
  let ?es = "drop k (dents (dp w))"
  let ?off = "offer (cyc_filler (as_filler (fill_dir ub cf))) fstatat False k ?es (Some (fresh_dh sz dh, ?l))"
  obtain dh' m where o: "?off = (Some (dh', ?l), m)" "dh_ok dh'" "dh_same (fresh_dh sz dh) dh'" "dh_filled dh' = (?es = [])"
    "written dh' = concat (fitting (u32 (int sz)) (dir_bytes (int k) (map (cyc_entry cf (dlib_l d) ino) ?es)))"
    using offer_fills [OF fresh_dh_ok [OF assms(2), of sz] f(1) nd, of ub cf fstatat k ?es] by (auto simp: ce f w0 split: if_splits)
  obtain w' where w': "xmp_readdir (cyc_filler (as_filler (fill_dir ub cf))) fstatat False (int k) w (Some (fresh_dh sz dh, ?l)) = (0, w', Some (dh', ?l))"
    "dirp_ok w'" "dents (dp w') = dents (dp w)"
    using xmp_readdir_spec [OF assms(4,5), of "cyc_filler (as_filler (fill_dir ub cf))" fstatat False "Some (fresh_dh sz dh, ?l)"] o(1) by auto
  have "fuse_fs_readdir (cyc_dirs fstatat) (dir_name cf nms) (Some (fresh_dh sz dh, ?l)) (as_filler (fill_dir ub cf)) (int k) (dir_info dh) 0 w = (0, Some (dh', ?l), w')"
    by (simp add: fuse_fs_readdir_def cyc_dirs_def w'(1))
  then have "readdir_fill u ub (cyc_dirs fstatat) cf ino sz (int k) 0 dh (dlib_l d) w = Some (0, dh', dlib_l d, w')"
    using o(3) f(4) by (simp add: e dh_same_def Let_def)
  then show ?thesis using that o(2-5) f(1,3) w'(2,3) assms(5) by (auto simp: dh_same_def drop_map)
qed

text \<open>
  A request at offset \<open>k\<close> is answered with the entries from the \<open>k\<close>-th on that fit, unless
  the handle is already marked as filled.
\<close>

lemma cyc_request:
  assumes "dir_request d ino fh nms" "dirp_ok w" "k \<le> length (dents (dp w))" "handles d fh = Some dh0" "k = 0 \<or> \<not> dh_filled dh0"
  obtains dh' w' where "fuse_lib_readdir u ub (cyc_dirs fstatat) cf ino sz (int k) fh d w
      = Some (Reply_buf (concat (fitting (u32 (int sz)) (dir_bytes (int k) (drop k (map (cyc_entry cf (dlib_l d) ino) (dents (dp w))))))),
        d\<lparr>dlib_l := dlib_l d, handles := (handles d)(fh \<mapsto> dh')\<rparr>, w')"
    "dh_ok dh'" "dh_nodeid dh' = ino" "dh_first dh' = []" "dh_filled dh' \<longleftrightarrow> k = length (dents (dp w))" "dirp_ok w'" "dents (dp w') = dents (dp w)"
proof -
  have dh0: "dh_ok dh0" "dh_nodeid dh0 = ino" using assms(1,4) by (auto simp: dir_request_def)
  define dh where "dh = (if int k = 0 then dh0\<lparr>dh_filled := False\<rparr> else dh0)"
  have dh: "dh_ok dh" "dh_nodeid dh = ino" "\<not> dh_filled dh" using dh0 assms(5) by (auto simp: dh_def dh_ok_def split: option.splits)
  let ?b = "concat (fitting (u32 (int sz)) (dir_bytes (int k) (drop k (map (cyc_entry cf (dlib_l d) ino) (dents (dp w))))))"
  obtain dh1 w1 where f: "readdir_fill u ub (cyc_dirs fstatat) cf ino sz (int k) 0 dh (dlib_l d) w = Some (0, dh1, dlib_l d, w1)" "dh_ok dh1"
    "dh_filled dh1 \<longleftrightarrow> k = length (dents (dp w))" "dh_first dh1 = []" "dh_nodeid dh1 = ino" "dirp_ok w1" "dents (dp w1) = dents (dp w)" "written dh1 = ?b"
    by (rule cyc_fill [OF assms(1) dh(1,2) assms(2,3)])
  have st: "(if dh_filled dh then Some (0, dh, dlib_l d, w) else readdir_fill u ub (cyc_dirs fstatat) cf ino sz (int k) 0 dh (dlib_l d) w) = Some (0, dh1, dlib_l d, w1)"
    using f(1) dh(3) by simp
  note eq = fuse_lib_readdir_def readdir_common_steps [OF assms(4) dh_def st]
  show ?thesis
  proof (cases "k = length (dents (dp w))")
    case False
    then show ?thesis using that [of dh1 w1] f by (simp add: eq dh_reply_written)
  next
    case True
    let ?dh = "dh1\<lparr>dh_needlen := u32 (int sz)\<rparr>"
    have "dh_ok (?dh\<lparr>dh_len := 0\<rparr>)" "dh_first ?dh = []" using dh_ok_reset [OF f(2)] f(4) by simp_all
    then obtain dh2 where l: "readdir_fill_from_list ub (int k) 0 ?dh = Some dh2" "dh_ok dh2" "dh_same ?dh dh2" "dh_filled dh2 = dh_filled ?dh" "written dh2 = []"
      by (rule from_empty_list)
    have "?b = []" using True by simp
    have fl: "dh_filled dh1" using f(3) True by simp
    have "fuse_lib_readdir u ub (cyc_dirs fstatat) cf ino sz (int k) fh d w = Some (Reply_buf [], d\<lparr>dlib_l := dlib_l d, handles := (handles d)(fh \<mapsto> dh2)\<rparr>, w1)"
      unfolding eq using l(1,5) fl by (simp add: dh_reply_written)
    then show ?thesis using that [of dh2 w1] \<open>?b = []\<close> f(3-7) l(2-4) by (simp add: dh_same_def)
  qed
qed

text \<open>A handle that is marked as filled although it has no list answers with nothing.\<close>

lemma filled_request:
  assumes "handles d fh = Some dh0" "dh_ok dh0" "dh_filled dh0" "dh_first dh0 = []" "off \<noteq> 0"
  obtains dh' where "fuse_lib_readdir u ub fs cf ino sz off fh d w = Some (Reply_buf [], d\<lparr>dlib_l := dlib_l d, handles := (handles d)(fh \<mapsto> dh')\<rparr>, w)"
    "dh_ok dh'" "dh_nodeid dh' = dh_nodeid dh0" "dh_first dh' = []" "dh_filled dh'"
proof -
  have st: "(if dh_filled dh0 then Some (0, dh0, dlib_l d, w) else readdir_fill u ub fs cf ino sz off 0 dh0 (dlib_l d) w) = Some (0, dh0, dlib_l d, w)"
    using assms(3) by simp
  have off: "dh0 = (if off = 0 then dh0\<lparr>dh_filled := False\<rparr> else dh0)" using assms(5) by simp
  let ?dh = "dh0\<lparr>dh_needlen := u32 (int sz)\<rparr>"
  have "dh_ok (?dh\<lparr>dh_len := 0\<rparr>)" "dh_first ?dh = []" using dh_ok_reset [OF assms(2)] assms(4) by simp_all
  then obtain dh2 where l: "readdir_fill_from_list ub off 0 ?dh = Some dh2" "dh_ok dh2" "dh_same ?dh dh2" "dh_filled dh2 = dh_filled ?dh" "written dh2 = []"
    by (rule from_empty_list)
  show ?thesis
    using that [of dh2] l assms(3,4) by (simp add: fuse_lib_readdir_def readdir_common_steps [OF assms(1) off st] dh_reply_written dh_same_def)
qed

section \<open>Reading a directory of Cycology\<close>

definition cyc_stands :: "fuse_config \<Rightarrow> nat \<Rightarrow> nat \<Rightarrow> nat \<Rightarrow> flib \<Rightarrow> dirent list \<Rightarrow> nat \<Rightarrow> dlib \<times> xmp_dirp \<Rightarrow> bool" where
  "cyc_stands cf ino sz fh l es k s \<longleftrightarrow> (\<exists>nms. dir_request (fst s) ino fh nms) \<and> dlib_l (fst s) = l \<and> dirp_ok (snd s) \<and> dents (dp (snd s)) = es
     \<and> dir_fits sz (map (cyc_entry cf l ino) es)
     \<and> (0 < k \<longrightarrow> (\<exists>dh. handles (fst s) fh = Some dh \<and> (\<not> dh_filled dh \<or> dh_first dh = [] \<and> k = length es)))"

lemma cyc_serve:
  assumes "cyc_stands cf ino sz fh l es k s" "k \<le> length (dir_seen (map (cyc_entry cf l ino) es))"
  shows "\<exists>b s' m. readdir_req u ub (cyc_dirs fstatat) cf ino sz fh (int k) s = Some (Reply_buf b, s')
    \<and> parse_dirents b = take m (drop k (dir_seen (map (cyc_entry cf l ino) es))) \<and> (k < length (dir_seen (map (cyc_entry cf l ino) es)) \<longrightarrow> 0 < m)
    \<and> k + m \<le> length (dir_seen (map (cyc_entry cf l ino) es)) \<and> cyc_stands cf ino sz fh l es (k + m) s'"
proof -
  obtain d w where s: "s = (d, w)" by fastforce
  obtain nms where n: "dir_request d ino fh nms" using assms(1) by (auto simp: s cyc_stands_def)
  obtain dh0 where h: "handles d fh = Some dh0" "dh_ok dh0" "dh_nodeid dh0 = ino" using n by (auto simp: dir_request_def)
  have a: "dir_request d ino fh nms" "dlib_l d = l" "dirp_ok w" "dents (dp w) = es" "dir_fits sz (map (cyc_entry cf l ino) es)"
    "handles d fh = Some dh0" "dh_ok dh0" "dh_nodeid dh0 = ino" "k = 0 \<or> \<not> dh_filled dh0 \<or> dh_first dh0 = [] \<and> k = length es"
    using assms(1) n h by (auto simp: s cyc_stands_def)
  have kl: "k \<le> length es" using assms(2) by simp
  have sz: "u32 (int sz) = sz" using a(5) by (simp add: dir_fits_def)
  have keep: "dir_request (d\<lparr>dlib_l := dlib_l d, handles := (handles d)(fh \<mapsto> dh')\<rparr>) ino fh nms" if "dh_ok dh'" "dh_nodeid dh' = ino" for dh'
    using a(1) that by (simp add: dir_request_def)
  show ?thesis
  proof (cases "k = 0 \<or> \<not> dh_filled dh0")
    case True
    let ?xs = "dir_bytes (int k) (drop k (map (cyc_entry cf l ino) es))"
    obtain dh' w' where r: "fuse_lib_readdir u ub (cyc_dirs fstatat) cf ino sz (int k) fh d w
        = Some (Reply_buf (concat (fitting sz ?xs)), d\<lparr>dlib_l := dlib_l d, handles := (handles d)(fh \<mapsto> dh')\<rparr>, w')"
      "dh_ok dh'" "dh_nodeid dh' = ino" "dh_first dh' = []" "dh_filled dh' \<longleftrightarrow> k = length es" "dirp_ok w'" "dents (dp w') = es"
      by (rule cyc_request [OF a(1,3) _ a(6) True, of u ub fstatat cf sz]) (use kl in \<open>simp_all add: a(2,4) sz\<close>)
    obtain m where m: "parse_dirents (concat (fitting sz ?xs)) = take m (drop k (dir_seen (map (cyc_entry cf l ino) es)))" "k < length es \<longrightarrow> 0 < m" "k + m \<le> length es"
      using dir_reply [OF a(5), of k] kl by auto
    have "cyc_stands cf ino sz fh l es (k + m) (d\<lparr>dlib_l := dlib_l d, handles := (handles d)(fh \<mapsto> dh')\<rparr>, w')"
      using keep [OF r(2,3)] r(4-7) a(2,5) m(3) by (auto simp: cyc_stands_def)
    then show ?thesis using r(1) m by (auto simp: s readdir_req_def)
  next
    case False
    then have e: "dh_filled dh0" "dh_first dh0 = []" "k = length es" "int k \<noteq> 0" using a(9) by auto
    obtain dh' where r: "fuse_lib_readdir u ub (cyc_dirs fstatat) cf ino sz (int k) fh d w = Some (Reply_buf [], d\<lparr>dlib_l := dlib_l d, handles := (handles d)(fh \<mapsto> dh')\<rparr>, w)"
      "dh_ok dh'" "dh_nodeid dh' = dh_nodeid dh0" "dh_first dh' = []" "dh_filled dh'" by (rule filled_request [OF a(6,7) e(1,2,4)])
    have "cyc_stands cf ino sz fh l es (k + 0) (d\<lparr>dlib_l := dlib_l d, handles := (handles d)(fh \<mapsto> dh')\<rparr>, w)"
      using keep [OF r(2)] r(3-5) a(2-5,8) e(3) by (auto simp: cyc_stands_def)
    moreover have "readdir_req u ub (cyc_dirs fstatat) cf ino sz fh (int k) s = Some (Reply_buf [], d\<lparr>dlib_l := dlib_l d, handles := (handles d)(fh \<mapsto> dh')\<rparr>, w)"
      using r(1) by (simp add: s readdir_req_def)
    ultimately show ?thesis using e(3) by (intro exI [of _ "[]"] exI [of _ 0] exI) auto
  qed
qed

interpretation cyc_listing: dir_server "readdir_req u ub (cyc_dirs fstatat) cf ino sz fh" "cyc_stands cf ino sz fh l es" "dir_seen (map (cyc_entry cf l ino) es)"
  by unfold_locales (simp add: dir_seen_offset, rule cyc_serve)

text \<open>
  C16. Reading a directory of Cycology through libfuse to its end, from a handle that has not
  been read: the client gets every entry of the directory exactly once and in order, if
  each fits a reply.
\<close>

theorem cyc_readdir_complete:
  assumes "dir_request d ino fh nms" "dirp_ok w" "dir_fits sz (map (cyc_entry cf (dlib_l d) ino) (dents (dp w)))"
  shows "dir_stream (readdir_req u ub (cyc_dirs fstatat) cf ino sz fh) 0 (d, w) = Some (dir_seen (map (cyc_entry cf (dlib_l d) ino) (dents (dp w))))"
  using cyc_listing.stream [where k = 0 and s = "(d, w)" and l = "dlib_l d" and cf = cf and ino = ino and sz = sz and fh = fh and es = "dents (dp w)"] assms
  by (auto simp: cyc_stands_def)

text \<open>
  C17. After a request at the end of the directory the handle counts as filled with an empty
  list: a client that goes back to an offset inside of the directory then gets an empty
  reply, the end of the directory, although the same request before got the entries from
  there on.
\<close>

theorem seek_after_end:
  assumes "dir_request d ino fh nms" "dirp_ok w" "n = length (dents (dp w))" "0 < k" "k < n" "handles d fh = Some dh0" "\<not> dh_filled dh0"
    "dir_fits sz (map (cyc_entry cf (dlib_l d) ino) (dents (dp w)))"
  shows "\<exists>d1 w1 d2 b. fuse_lib_readdir u ub (cyc_dirs fstatat) cf ino sz (int n) fh d w = Some (Reply_buf [], d1, w1)
    \<and> fuse_lib_readdir u ub (cyc_dirs fstatat) cf ino sz (int k) fh d1 w1 = Some (Reply_buf [], d2, w1)
    \<and> map_option fst (fuse_lib_readdir u ub (cyc_dirs fstatat) cf ino sz (int k) fh d w) = Some (Reply_buf b) \<and> parse_dirents b \<noteq> []"
proof -
  have nf: "k = 0 \<or> \<not> dh_filled dh0" for k :: nat using assms(7) by simp
  have kn: "k \<le> length (dents (dp w))" "n \<le> length (dents (dp w))" using assms(3,5) by simp_all
  have sz: "u32 (int sz) = sz" using assms(8) by (simp add: dir_fits_def)
  let ?es = "map (cyc_entry cf (dlib_l d) ino) (dents (dp w))"
  obtain dh1 w1 where r1: "fuse_lib_readdir u ub (cyc_dirs fstatat) cf ino sz (int n) fh d w
      = Some (Reply_buf (concat (fitting (u32 (int sz)) (dir_bytes (int n) (drop n ?es)))), d\<lparr>dlib_l := dlib_l d, handles := (handles d)(fh \<mapsto> dh1)\<rparr>, w1)"
    "dh_ok dh1" "dh_nodeid dh1 = ino" "dh_first dh1 = []" "dh_filled dh1 \<longleftrightarrow> n = length (dents (dp w))"
    by (rule cyc_request [OF assms(1,2) kn(2) assms(6) nf])
  let ?d1 = "d\<lparr>dlib_l := dlib_l d, handles := (handles d)(fh \<mapsto> dh1)\<rparr>"
  have h1: "handles ?d1 fh = Some dh1" "dh_filled dh1" "int k \<noteq> 0" using r1(5) assms(3,4) by simp_all
  obtain dh2 where r2: "fuse_lib_readdir u ub (cyc_dirs fstatat) cf ino sz (int k) fh ?d1 w1
      = Some (Reply_buf [], ?d1\<lparr>dlib_l := dlib_l ?d1, handles := (handles ?d1)(fh \<mapsto> dh2)\<rparr>, w1)"
    by (rule filled_request [OF h1(1) r1(2) h1(2) r1(4) h1(3)])
  obtain dh3 w3 where r3: "fuse_lib_readdir u ub (cyc_dirs fstatat) cf ino sz (int k) fh d w
      = Some (Reply_buf (concat (fitting (u32 (int sz)) (dir_bytes (int k) (drop k ?es)))), d\<lparr>dlib_l := dlib_l d, handles := (handles d)(fh \<mapsto> dh3)\<rparr>, w3)"
    by (rule cyc_request [OF assms(1,2) kn(1) assms(6) nf])
  have "parse_dirents (concat (fitting sz (dir_bytes (int k) (drop k ?es)))) \<noteq> []"
    using dir_reply [OF assms(8), of k] assms(3,5) by auto
  moreover have "concat (fitting (u32 (int sz)) (dir_bytes (int n) (drop n ?es))) = []" using assms(3) by simp
  ultimately show ?thesis using r1(1) r2 r3 unfolding sz by auto
qed

section \<open>A directory with two entries\<close>

definition two_entries :: xmp_dirp where
  "two_entries = \<lparr>dp = \<lparr>dents = [\<lparr>d_name = ''a'', d_ino = 5, d_type = 8\<rparr>, \<lparr>d_name = ''b'', d_ino = 6, d_type = 4\<rparr>], dpos = 0\<rparr>,
     dentry = None, doffset = 0\<rparr>"

lemma two_entries_sent:
  "map (cyc_entry plain_config l ino) (dents (dp two_entries))
    = [(lstat_of (stat0\<lparr>hstat.st_ino := 5, hstat.st_mode := push_bit 12 8\<rparr>)\<lparr>lstat.st_ino := 0xFFFFFFFF\<rparr>, ''a''),
       (lstat_of (stat0\<lparr>hstat.st_ino := 6, hstat.st_mode := push_bit 12 4\<rparr>)\<lparr>lstat.st_ino := 0xFFFFFFFF\<rparr>, ''b'')]"
  by (simp add: two_entries_def cyc_entry_def sent_stat_def plain_config_def FUSE_UNKNOWN_INO_def entry_stat_def)

lemma two_entries_fit: "dir_fits 40 (map (cyc_entry plain_config l ino) (dents (dp two_entries)))"
  unfolding two_entries_sent by (simp add: dir_fits_def ent_len_def FUSE_DIRENT_ALIGN_def FUSE_NAME_OFFSET_def)

lemma two_entries_ok: "dirp_ok two_entries"
  by (simp add: dirp_ok_def two_entries_def)

theorem cyc_readdir_complete_witness:
  "\<exists>f. fuse_new_nodes 0 = Some f
    \<and> dir_stream (readdir_req (\<lambda>_. CHR ''x'') (\<lambda>_. 0) (cyc_dirs (\<lambda>_. None)) plain_config FUSE_ROOT_ID 40 1) 0 (open_root f, two_entries)
      = Some [(0xFFFFFFFF, 1, ''a'', 8), (0xFFFFFFFF, 2, ''b'', 4)]"
proof -
  obtain f where f: "fuse_new_nodes 0 = Some f" "dir_request (open_root f) FUSE_ROOT_ID 1 []" by (rule open_root_request)
  show ?thesis
    using cyc_readdir_complete [OF f(2) two_entries_ok two_entries_fit, of "\<lambda>_. CHR ''x''" "\<lambda>_. 0" "\<lambda>_. None"] f(1)
    unfolding two_entries_sent by (simp add: dir_seen_def seen_def lstat_of_def push_bit_eq_mult)
qed

theorem seek_after_end_witness:
  "\<exists>f d1 w1 d2. fuse_new_nodes 0 = Some f
    \<and> fuse_lib_readdir (\<lambda>_. CHR ''x'') (\<lambda>_. 0) (cyc_dirs (\<lambda>_. None)) plain_config FUSE_ROOT_ID 40 2 1 (open_root f) two_entries = Some (Reply_buf [], d1, w1)
    \<and> fuse_lib_readdir (\<lambda>_. CHR ''x'') (\<lambda>_. 0) (cyc_dirs (\<lambda>_. None)) plain_config FUSE_ROOT_ID 40 1 1 d1 w1 = Some (Reply_buf [], d2, w1)"
proof -
  obtain f where f: "fuse_new_nodes 0 = Some f" "dir_request (open_root f) FUSE_ROOT_ID 1 []" by (rule open_root_request)
  have n: "2 = length (dents (dp two_entries))" by (simp add: two_entries_def)
  have h: "handles (open_root f) 1 = Some (new_handle FUSE_ROOT_ID)" "\<not> dh_filled (new_handle FUSE_ROOT_ID)"
    by (simp_all add: open_root_def new_handle_def)
  show ?thesis
    using seek_after_end [OF f(2) two_entries_ok n _ _ h two_entries_fit, of 1 "\<lambda>_. CHR ''x''" "\<lambda>_. 0" "\<lambda>_. None"] f(1) by auto
qed

end
