(* ===== verification/Path_Queue.thy ===== *)
theory Path_Queue
  imports Lib_Requests
begin

text \<open>
  Waiting for paths (\<open>lib/fuse.c\<close>, \<open>queue_path\<close> to \<open>wait_path\<close>): a thread whose path is
  locked puts an element into the queue and sleeps on its condition; whoever unlocks a path
  goes through the queue and tries to lock the paths of every element again. The queue is
  the list of its elements with the threads they belong to; all this happens under the
  mutex of the file system, so that the steps of the threads are a sequence.
\<close>

section \<open>Elements\<close>

text \<open>
  \<open>wt_has1\<close>, \<open>wt_want1\<close>: \<open>path1\<close>, \<open>wnode1\<close> is not \<open>NULL\<close>; \<open>wt_path1\<close>, \<open>wt_wnode1\<close>: what they
  point to. An element without \<open>path1\<close> is one of \<open>forget_node\<close>, which waits until a node is
  not locked. \<open>wt_signalled\<close>: its condition has been signalled.
\<close>

record waiter =
  wt_nodeid1 :: nat
  wt_name1 :: "string option"
  wt_has1 :: bool
  wt_want1 :: bool
  wt_path1 :: "string option"
  wt_wnode1 :: node
  wt_nodeid2 :: nat
  wt_name2 :: "string option"
  wt_has2 :: bool
  wt_want2 :: bool
  wt_path2 :: "string option"
  wt_wnode2 :: node
  wt_err :: int
  wt_first_locked :: bool
  wt_second_locked :: bool
  wt_done :: bool
  wt_signalled :: bool

type_synonym lockq = "(nat \<times> waiter) list"

definition queue_element_unlock :: "waiter \<Rightarrow> fuse \<Rightarrow> (waiter \<times> fuse) option" where
  "queue_element_unlock q f = do {
     (q, f) \<leftarrow>
       (if wt_first_locked q then do {
          f \<leftarrow> unlock_path (wt_nodeid1 q) (if wt_want1 q then wt_wnode1 q else 0) 0 f;
          Some (q\<lparr>wt_first_locked := False\<rparr>, f) }
        else Some (q, f));
     if wt_second_locked q then do {
       f \<leftarrow> unlock_path (wt_nodeid2 q) (if wt_want2 q then wt_wnode2 q else 0) 0 f;
       Some (q\<lparr>wt_second_locked := False\<rparr>, f) }
     else Some (q, f) }"

definition lock_first :: "(nat \<Rightarrow> char) \<Rightarrow> waiter \<Rightarrow> fuse \<Rightarrow> (int \<times> waiter \<times> fuse) option" where
  "lock_first u q f =
     (if wt_first_locked q then Some (0, q, f)
      else do {
        (err, p, w, f) \<leftarrow> try_get_path u (wt_nodeid1 q) (wt_name1 q) (wt_want1 q) True f;
        Some (err, q\<lparr>wt_path1 := p, wt_wnode1 := (if err = 0 \<and> wt_want1 q then w else wt_wnode1 q), wt_first_locked := (err = 0)\<rparr>, f) })"

definition lock_second :: "(nat \<Rightarrow> char) \<Rightarrow> waiter \<Rightarrow> fuse \<Rightarrow> (int \<times> waiter \<times> fuse) option" where
  "lock_second u q f =
     (if wt_second_locked q \<or> \<not> wt_has2 q then Some (0, q, f)
      else do {
        (err, p, w, f) \<leftarrow> try_get_path u (wt_nodeid2 q) (wt_name2 q) (wt_want2 q) True f;
        Some (err, q\<lparr>wt_path2 := p, wt_wnode2 := (if err = 0 \<and> wt_want2 q then w else wt_wnode2 q), wt_second_locked := (err = 0)\<rparr>, f) })"

definition finish_element :: "int \<Rightarrow> waiter \<Rightarrow> waiter" where
  "finish_element err q = q\<lparr>wt_err := err, wt_done := True, wt_signalled := True\<rparr>"

definition queue_element_wakeup :: "(nat \<Rightarrow> char) \<Rightarrow> bool \<Rightarrow> waiter \<Rightarrow> fuse \<Rightarrow> (waiter \<times> fuse) option" where
  "queue_element_wakeup u first q f =
     (if \<not> wt_has1 q then do {
        x \<leftarrow> get_node f (wt_nodeid1 q);
        nd \<leftarrow> fnodes f x;
        Some (if treelock nd = 0 then q\<lparr>wt_signalled := True\<rparr> else q, f) }
      else do {
        (err, q, f) \<leftarrow> lock_first u q f;
        if err \<noteq> 0 \<and> err \<noteq> - EAGAIN then do { (q, f) \<leftarrow> queue_element_unlock q f; Some (finish_element err q, f) }
        else do {
          (err, q, f) \<leftarrow> lock_second u q f;
          if err \<noteq> 0 \<and> err \<noteq> - EAGAIN then do { (q, f) \<leftarrow> queue_element_unlock q f; Some (finish_element err q, f) }
          else if wt_first_locked q \<and> (wt_second_locked q \<or> \<not> wt_has2 q) then Some (finish_element 0 q, f)
          else if \<not> first then queue_element_unlock q f
          else Some (q, f) } })"

section \<open>The queue\<close>

text \<open>\<open>first\<close> is true for the head of the queue.\<close>

fun wake_elements :: "(nat \<Rightarrow> char) \<Rightarrow> bool \<Rightarrow> lockq \<Rightarrow> fuse \<Rightarrow> (lockq \<times> fuse) option" where
  "wake_elements u first [] f = Some ([], f)"
| "wake_elements u first ((i, q) # qs) f = do {
     (q, f) \<leftarrow> queue_element_wakeup u first q f;
     (qs, f) \<leftarrow> wake_elements u False qs f;
     Some ((i, q) # qs, f) }"

definition wake_up_queued :: "(nat \<Rightarrow> char) \<Rightarrow> lockq \<Rightarrow> fuse \<Rightarrow> (lockq \<times> fuse) option" where
  "wake_up_queued u qs f = wake_elements u True qs f"

definition queue_path :: "nat \<Rightarrow> waiter \<Rightarrow> lockq \<Rightarrow> lockq" where
  "queue_path i q qs = qs @ [(i, q\<lparr>wt_done := False, wt_first_locked := False, wt_second_locked := False, wt_signalled := False\<rparr>)]"

definition dequeue_path :: "nat \<Rightarrow> lockq \<Rightarrow> lockq" where
  "dequeue_path i qs = filter (\<lambda>(j, q). j \<noteq> i) qs"

text \<open>
  The steps of the threads on the queue. Between them other requests may change the nodes and
  their locks in any way; a thread leaves when its element is done (\<open>wait_path\<close>), or was one
  of \<open>forget_node\<close>.
\<close>

inductive queue_session :: "(nat \<Rightarrow> char) \<Rightarrow> lockq \<Rightarrow> bool" for u :: "nat \<Rightarrow> char" where
  no_waiter: "queue_session u []"
| waits: "queue_session u qs \<Longrightarrow> queue_session u (queue_path i q qs)"
| wakes: "queue_session u qs \<Longrightarrow> wake_up_queued u qs f = Some (qs', f') \<Longrightarrow> queue_session u qs'"
| leaves: "queue_session u qs \<Longrightarrow> (i, q) \<in> set qs \<Longrightarrow> wt_done q \<or> \<not> wt_has1 q \<Longrightarrow> queue_session u (dequeue_path i qs)"

section \<open>Only the first element holds locks while it waits\<close>

definition holds_none :: "waiter \<Rightarrow> bool" where
  "holds_none q \<longleftrightarrow> \<not> wt_first_locked q \<and> \<not> wt_second_locked q"

definition holds_all :: "waiter \<Rightarrow> bool" where
  "holds_all q \<longleftrightarrow> wt_first_locked q \<and> (wt_has2 q \<longrightarrow> wt_second_locked q)"

definition element_ok :: "bool \<Rightarrow> waiter \<Rightarrow> bool" where
  "element_ok first q \<longleftrightarrow> (wt_done q \<and> wt_err q = 0 \<longrightarrow> holds_all q) \<and> (\<not> first \<and> \<not> wt_done q \<longrightarrow> holds_none q)"

lemma unlock_flags:
  assumes "queue_element_unlock q f = Some (q', f')"
  shows "q' = q\<lparr>wt_first_locked := False, wt_second_locked := False\<rparr>"
  using assms by (auto simp: queue_element_unlock_def split: if_splits bind_splits)

lemma lock_first_flags:
  assumes "lock_first u q f = Some (err, q', f')"
  shows "wt_done q' = wt_done q \<and> wt_err q' = wt_err q \<and> wt_has2 q' = wt_has2 q \<and> wt_second_locked q' = wt_second_locked q
    \<and> (wt_first_locked q \<longrightarrow> wt_first_locked q')"
  using assms by (auto simp: lock_first_def split: if_splits bind_splits)

lemma lock_second_flags:
  assumes "lock_second u q f = Some (err, q', f')"
  shows "wt_done q' = wt_done q \<and> wt_err q' = wt_err q \<and> wt_has2 q' = wt_has2 q \<and> wt_first_locked q' = wt_first_locked q
    \<and> (wt_second_locked q \<longrightarrow> wt_second_locked q')"
  using assms by (auto simp: lock_second_def split: if_splits bind_splits)

lemma wakeup_ok:
  assumes "queue_element_wakeup u first q f = Some (q', f')" "element_ok first q"
  shows "element_ok first q'"
proof (cases "wt_has1 q")
  case False
  then show ?thesis using assms by (auto simp: queue_element_wakeup_def element_ok_def holds_none_def holds_all_def split: if_splits bind_splits)
next
  case True
  obtain e1 q1 f1 where l1: "lock_first u q f = Some (e1, q1, f1)" using assms(1) True by (auto simp: queue_element_wakeup_def split: bind_splits)
  note fl1 = lock_first_flags [OF l1]
  show ?thesis
  proof (cases "e1 \<noteq> 0 \<and> e1 \<noteq> - EAGAIN")
    case True
    then obtain q2 where "q' = finish_element e1 q2" using assms(1) \<open>wt_has1 q\<close> l1 by (auto simp: queue_element_wakeup_def split: bind_splits)
    then show ?thesis using True by (simp add: element_ok_def finish_element_def)
  next
    case no1: False
    obtain e2 q2 f2 where l2: "lock_second u q1 f1 = Some (e2, q2, f2)"
      using assms(1) True l1 no1 by (auto simp: queue_element_wakeup_def split: bind_splits)
    note fl2 = lock_second_flags [OF l2]
    have r: "(if e2 \<noteq> 0 \<and> e2 \<noteq> - EAGAIN then do { (q, f) \<leftarrow> queue_element_unlock q2 f2; Some (finish_element e2 q, f) }
        else if wt_first_locked q2 \<and> (wt_second_locked q2 \<or> \<not> wt_has2 q2) then Some (finish_element 0 q2, f2)
        else if \<not> first then queue_element_unlock q2 f2 else Some (q2, f2)) = Some (q', f')"
      using assms(1) True l1 l2 no1 by (simp add: queue_element_wakeup_def)
    consider (err) "e2 \<noteq> 0" "e2 \<noteq> - EAGAIN" "\<exists>q3. q' = finish_element e2 q3" | (fin) "holds_all q2" "q' = finish_element 0 q2"
      | (free) "\<not> first" "\<not> holds_all q2" "q' = q2\<lparr>wt_first_locked := False, wt_second_locked := False\<rparr>" | (wait) first "\<not> holds_all q2" "q' = q2"
    proof (cases "e2 \<noteq> 0 \<and> e2 \<noteq> - EAGAIN")
      case True
      then have "\<exists>q3. q' = finish_element e2 q3" using r by (auto split: bind_splits)
      then show ?thesis using err True by blast
    next
      case no2: False
      show ?thesis
      proof (cases "holds_all q2")
        case True
        then have "wt_first_locked q2 \<and> (wt_second_locked q2 \<or> \<not> wt_has2 q2)" by (auto simp: holds_all_def)
        then have "q' = finish_element 0 q2" using r [unfolded if_not_P [OF no2]] by simp
        then show ?thesis using fin True by blast
      next
        case False
        then have nh: "\<not> (wt_first_locked q2 \<and> (wt_second_locked q2 \<or> \<not> wt_has2 q2))" by (auto simp: holds_all_def)
        have u: "(if \<not> first then queue_element_unlock q2 f2 else Some (q2, f2)) = Some (q', f')"
          by (rule r [unfolded if_not_P [OF no2] if_not_P [OF nh]])
        show ?thesis
        proof (cases first)
          case True
          then have "q' = q2" using u by simp
          then show ?thesis by (intro wait True False)
        next
          case no: False
          then have "queue_element_unlock q2 f2 = Some (q', f')" using u by simp
          then show ?thesis using free no False unlock_flags by blast
        qed
      qed
    qed
    then show ?thesis
    proof cases
      case err
      then show ?thesis by (auto simp: element_ok_def finish_element_def)
    next
      case fin
      then show ?thesis by (simp add: element_ok_def finish_element_def holds_all_def)
    next
      case free
      then show ?thesis using assms(2) fl1 fl2 by (auto simp: element_ok_def holds_none_def holds_all_def)
    next
      case wait
      then show ?thesis using assms(2) fl1 fl2 by (auto simp: element_ok_def holds_none_def holds_all_def)
    qed
  qed
qed

fun queue_ok :: "bool \<Rightarrow> lockq \<Rightarrow> bool" where
  "queue_ok first [] \<longleftrightarrow> True"
| "queue_ok first ((i, q) # qs) \<longleftrightarrow> element_ok first q \<and> queue_ok False qs"

lemma element_ok_first: "element_ok False q \<Longrightarrow> element_ok first q"
  by (simp add: element_ok_def)

lemma queue_ok_first: "queue_ok False qs \<Longrightarrow> queue_ok first qs"
  by (cases "(first, qs)" rule: queue_ok.cases) (auto intro: element_ok_first)

lemma queue_ok_False: "queue_ok False qs \<longleftrightarrow> (\<forall>(i, q) \<in> set qs. element_ok False q)"
  by (induction qs) auto

lemma wake_elements_ok: "wake_elements u first qs f = Some (qs', f') \<Longrightarrow> queue_ok first qs \<Longrightarrow> queue_ok first qs'"
proof (induction first qs arbitrary: f qs' f' rule: queue_ok.induct)
  case (2 first i q qs)
  obtain q1 f1 qs1 where "queue_element_wakeup u first q f = Some (q1, f1)" "wake_elements u False qs f1 = Some (qs1, f')" "qs' = (i, q1) # qs1"
    using "2.prems"(1) by (auto split: bind_splits)
  then show ?case using "2.IH" "2.prems"(2) wakeup_ok by auto
qed auto

lemma queue_ok_append: "queue_ok first qs \<Longrightarrow> element_ok False q \<Longrightarrow> queue_ok first (qs @ [(i, q)])"
  by (induction first qs rule: queue_ok.induct) (auto intro: element_ok_first)

lemma queue_ok_filter: "queue_ok first qs \<Longrightarrow> queue_ok first (filter P qs)"
proof (induction first qs rule: queue_ok.induct)
  case (2 first i q qs)
  then show ?case by (auto intro: queue_ok_first)
qed auto

lemma queue_session_ok: "queue_session u qs \<Longrightarrow> queue_ok True qs"
proof (induction rule: queue_session.induct)
  case (waits qs i q)
  then show ?case unfolding queue_path_def by (intro queue_ok_append) (simp_all add: element_ok_def holds_none_def)
next
  case (wakes qs f qs' f')
  then show ?case using wake_elements_ok by (simp add: wake_up_queued_def)
next
  case (leaves qs i q)
  then show ?case unfolding dequeue_path_def by (intro queue_ok_filter)
qed simp

section \<open>Who waits is served\<close>

text \<open>A waiting request for one path that is not to be changed, of a node that names lead to.\<close>

definition reader_of :: "fuse \<Rightarrow> (nat \<Rightarrow> nat) \<Rightarrow> waiter \<Rightarrow> bool" where
  "reader_of f K q \<longleftrightarrow> wt_has1 q \<and> \<not> wt_want1 q \<and> \<not> wt_has2 q \<and> \<not> wt_first_locked q \<and> 0 < K (wt_nodeid1 q)
     \<and> (\<exists>nms. walk f FUSE_ROOT_ID nms = Some (wt_nodeid1 q)) \<and> path_room f (wt_name1 q)"

text \<open>It has its path and the locks along it.\<close>

definition reader_served :: "fuse \<Rightarrow> waiter \<Rightarrow> waiter \<Rightarrow> bool" where
  "reader_served f q q' \<longleftrightarrow> wt_done q' \<and> wt_signalled q' \<and> wt_err q' = 0 \<and> wt_first_locked q'
     \<and> (\<exists>nms. walk f FUSE_ROOT_ID nms = Some (wt_nodeid1 q) \<and> wt_path1 q' = Some (slashed (spell nms @ suffix_of (wt_name1 q))))"

lemma reader_wakes:
  assumes "node_session f K" "reader_of f K q" "\<forall>y. 0 \<le> L y"
  obtains q' X where "queue_element_wakeup u first q (relock L f) = Some (q', relock (lock_more X L) f)" "reader_served f q q'"
proof -
  have q: "wt_has1 q" "\<not> wt_want1 q" "\<not> wt_has2 q" "\<not> wt_first_locked q" "0 < K (wt_nodeid1 q)" "path_room f (wt_name1 q)"
    using assms(2) by (simp_all add: reader_of_def)
  obtain nms where nms: "walk f FUSE_ROOT_ID nms = Some (wt_nodeid1 q)" using assms(2) by (auto simp: reader_of_def)
  obtain x ps r where x: "get_node f (wt_nodeid1 q) = Some x" "up f x ps r" "r \<in> live f" "nodeid (fn f r) = FUSE_ROOT_ID" "path_of ps = spell nms"
    by (rule walk_path [OF assms(1) q(5) nms]) blast
  have inv: "nodes_inv f" using session_inv [OF assms(1)] by simp
  have room: "c_names f" "CHR 0x00 \<notin> set (suffix_of (wt_name1 q))" "names_length f + length (suffix_of (wt_name1 q)) + 3 < 2 ^ 32"
    using q(6) by (simp_all add: path_room_def)
  have "stop_code True L f r = Some 0" using x(4) by (simp add: stop_code_def)
  then have t: "try_get_path u (wt_nodeid1 q) (wt_name1 q) False True (relock L f)
      = Some (0, Some (slashed (spell nms @ suffix_of (wt_name1 q))), 0, relock (lock_more (passed ps) L) f)"
    using try_read [OF inv room(1) x(1-3) _ _ room(2,3), of True L 0 u] assms(3) x(5) by simp
  let ?q = "finish_element 0 (q\<lparr>wt_path1 := Some (slashed (spell nms @ suffix_of (wt_name1 q))), wt_first_locked := True\<rparr>)"
  have "queue_element_wakeup u first q (relock L f) = Some (?q, relock (lock_more (passed ps) L) f)"
    using q(1-4) t by (simp add: queue_element_wakeup_def lock_first_def lock_second_def)
  then show ?thesis by (rule that) (use nms in \<open>auto simp: reader_served_def finish_element_def\<close>)
qed

lemma readers_wake:
  assumes "node_session f K" "\<forall>(i, q) \<in> set qs. reader_of f K q" "\<forall>y. 0 \<le> L y"
  shows "\<exists>qs' L'. wake_elements u first qs (relock L f) = Some (qs', relock L' f) \<and> (\<forall>y. L y \<le> L' y)
    \<and> list_all2 (\<lambda>(i, q) (j, q'). i = j \<and> reader_served f q q') qs qs'"
  using assms(2,3)
proof (induction qs arbitrary: first L)
  case Nil
  then show ?case by auto
next
  case (Cons e qs)
  obtain i q where e: "e = (i, q)" by fastforce
  have "reader_of f K q" using Cons.prems(1) by (simp add: e)
  then obtain q' X where q': "queue_element_wakeup u first q (relock L f) = Some (q', relock (lock_more X L) f)" "reader_served f q q'"
    using reader_wakes [OF assms(1) _ Cons.prems(2)] by metis
  have le: "\<forall>y. L y \<le> lock_more X L y" by (simp add: lock_more_def)
  then have "\<forall>y. 0 \<le> lock_more X L y" using Cons.prems(2) by (meson order_trans)
  then obtain qs' L' where "wake_elements u False qs (relock (lock_more X L) f) = Some (qs', relock L' f)" "\<forall>y. lock_more X L y \<le> L' y"
    "list_all2 (\<lambda>(i, q) (j, q'). i = j \<and> reader_served f q q') qs qs'" using Cons.IH [of "lock_more X L" False] Cons.prems(1) by auto
  then have "wake_elements u first (e # qs) (relock L f) = Some ((i, q') # qs', relock L' f)" "\<forall>y. L y \<le> L' y"
    "list_all2 (\<lambda>(i, q) (j, q'). i = j \<and> reader_served f q q') (e # qs) ((i, q') # qs')"
    using q' le by (auto simp: e intro: order_trans)
  then show ?case by blast
qed

lemma wake_elements_append:
  "wake_elements u first (rs @ ws) f = do { (rs', f1) \<leftarrow> wake_elements u first rs f;
     (ws', f2) \<leftarrow> wake_elements u (first \<and> rs = []) ws f1; Some (rs' @ ws', f2) }"
proof (induction rs arbitrary: first f)
  case Nil
  then show ?case by (cases "wake_elements u first ws f") auto
next
  case (Cons e rs)
  obtain i q where e: "e = (i, q)" by fastforce
  show ?case
  proof (cases "queue_element_wakeup u first q f")
    case (Some r)
    obtain q1 f1 where r: "r = (q1, f1)" by fastforce
    show ?thesis
    proof (cases "wake_elements u False rs f1")
      case (Some r2)
      obtain rs' f2 where "r2 = (rs', f2)" by fastforce
      then show ?thesis using \<open>queue_element_wakeup u first q f = Some r\<close> Some
        by (cases "wake_elements u False ws f2") (auto simp: e r Cons.IH)
    qed (use \<open>queue_element_wakeup u first q f = Some r\<close> in \<open>simp add: e r Cons.IH\<close>)
  qed (simp add: e)
qed


text \<open>
  When no lock is left, a writer at the head of the queue is served: it gets its path, the
  entry is locked for it, and unlocking the path restores the nodes.
\<close>

theorem waiting_writer_served:
  assumes "node_session f K" "0 < K (wt_nodeid1 q)" "walk f FUSE_ROOT_ID nms = Some (wt_nodeid1 q)" "path_room f (Some nm)" "wt_name1 q = Some nm"
    "wt_has1 q" "wt_want1 q" "\<not> wt_has2 q" "\<not> wt_first_locked q"
  shows "\<exists>q' f'. wake_up_queued u [(i, q)] f = Some ([(i, q')], f') \<and> wt_done q' \<and> wt_err q' = 0 \<and> wt_path1 q' = Some (spell nms @ CHR ''/'' # nm)
    \<and> lookup_node f (wt_nodeid1 q) nm = Some (wt_wnode1 q') \<and> unlock_path (wt_nodeid1 q) (wt_wnode1 q') 0 f' = Some f"
proof -
  obtain x ps w where x: "lookup_node f (wt_nodeid1 q) nm = Some w"
    "get_path_common u (wt_nodeid1 q) (Some nm) True f = Some (0, Some (spell nms @ CHR ''/'' # nm), w, relock (req_locks w ps) f)"
    "unlock_path (wt_nodeid1 q) w 0 (relock (req_locks w ps) f) = Some f"
    by (rule writer_path [OF assms(1-4), of u]) blast
  have "try_get_path u (wt_nodeid1 q) (Some nm) True True f = Some (0, Some (spell nms @ CHR ''/'' # nm), w, relock (req_locks w ps) f)"
    using get_path_common_try [OF x(2)] .
  then show ?thesis using assms(5-9) x(1,3)
    by (simp add: wake_up_queued_def queue_element_wakeup_def lock_first_def lock_second_def finish_element_def)
qed

section \<open>Requests that wait for the root\<close>

definition root_reader :: waiter where
  "root_reader = \<lparr>wt_nodeid1 = FUSE_ROOT_ID, wt_name1 = None, wt_has1 = True, wt_want1 = False, wt_path1 = None, wt_wnode1 = 0,
     wt_nodeid2 = 0, wt_name2 = None, wt_has2 = False, wt_want2 = False, wt_path2 = None, wt_wnode2 = 0,
     wt_err = 0, wt_first_locked = False, wt_second_locked = False, wt_done = False, wt_signalled = False\<rparr>"

lemma root_reader_ok:
  obtains f where "fuse_new_nodes 0 = Some f" "node_session f ((\<lambda>_. 0)(FUSE_ROOT_ID := 1))" "reader_of f ((\<lambda>_. 0)(FUSE_ROOT_ID := 1)) root_reader"
    "relock (\<lambda>_. 0) f = f"
proof -
  obtain f where f: "fuse_new_nodes 0 = Some f" "node_session (nodes (new_lib f)) ((\<lambda>_. 0)(FUSE_ROOT_ID := 1))" "path_room (nodes (new_lib f)) (Some ''a'')"
    by (rule new_lib_session)
  have "path_room f None" using f(3) by (simp add: new_lib_def path_room_def suffix_of_def)
  then have "reader_of f ((\<lambda>_. 0)(FUSE_ROOT_ID := 1)) root_reader" by (simp add: reader_of_def root_reader_def exI [of _ "[]"])
  then show ?thesis using that f nodes_unlocked session_inv [OF f(2)] by (simp add: new_lib_def)
qed


text \<open>
  C29. However threads wait, are woken and leave, and whatever other requests do to the nodes
  meanwhile: of the elements that still wait only the first holds a lock, so that no two
  threads wait for each other; and an element that is done without an error has locked its
  paths.
\<close>

theorem waiters_hold_no_locks:
  assumes "queue_session u qs"
  shows "(\<forall>i < length qs. wt_done (snd (qs ! i)) \<and> wt_err (snd (qs ! i)) = 0 \<longrightarrow> holds_all (snd (qs ! i)))
    \<and> (\<forall>i < length qs. 0 < i \<and> \<not> wt_done (snd (qs ! i)) \<longrightarrow> holds_none (snd (qs ! i)))"
proof (cases qs)
  case Nil
  then show ?thesis by simp
next
  case (Cons e es)
  obtain j q where e: "e = (j, q)" by fastforce
  have ok: "element_ok True q" "queue_ok False es" using queue_session_ok [OF assms] by (simp_all add: Cons e)
  have "element_ok (i = 0) (snd (qs ! i))" if "i < length qs" for i
  proof (cases i)
    case 0
    then show ?thesis using ok(1) by (simp add: Cons e)
  next
    case (Suc k)
    then have "es ! k \<in> set es" using that by (simp add: Cons)
    then have "element_ok False (snd (es ! k))" using ok(2) by (auto simp: queue_ok_False)
    then show ?thesis using Suc by (simp add: Cons)
  qed
  then show ?thesis by (auto simp: element_ok_def)
qed

theorem waiters_hold_no_locks_witness:
  "\<exists>f q1 f1. fuse_new_nodes 0 = Some f \<and> wake_up_queued (\<lambda>_. CHR ''x'') (queue_path 7 root_reader []) f = Some ([(7, q1)], f1)
    \<and> queue_session (\<lambda>_. CHR ''x'') (queue_path 8 root_reader [(7, q1)]) \<and> holds_all q1 \<and> holds_none (snd (queue_path 8 root_reader [(7, q1)] ! 1))"
proof -
  obtain f where f: "fuse_new_nodes 0 = Some f" "node_session f ((\<lambda>_. 0)(FUSE_ROOT_ID := 1))" "reader_of f ((\<lambda>_. 0)(FUSE_ROOT_ID := 1)) root_reader"
    "relock (\<lambda>_. 0) f = f" by (rule root_reader_ok)
  have e: "queue_path 7 root_reader [] = [(7, root_reader)]" by (simp add: queue_path_def root_reader_def)
  obtain q1 X where q1: "queue_element_wakeup (\<lambda>_. CHR ''x'') True root_reader f = Some (q1, relock (lock_more X (\<lambda>_. 0)) f)" "reader_served f root_reader q1"
    using reader_wakes [OF f(2,3), of "\<lambda>_. 0" "\<lambda>_. CHR ''x''" True] f(4) by auto
  have w: "wake_up_queued (\<lambda>_. CHR ''x'') (queue_path 7 root_reader []) f = Some ([(7, q1)], relock (lock_more X (\<lambda>_. 0)) f)"
    unfolding e wake_up_queued_def using q1(1) by simp
  have s: "queue_session (\<lambda>_. CHR ''x'') (queue_path 8 root_reader [(7, q1)])"
    by (intro queue_session.waits queue_session.wakes [OF _ w] queue_session.no_waiter)
  have p: "queue_path 8 root_reader [(7, q1)] = [(7, q1), (8, root_reader)]" by (simp add: queue_path_def root_reader_def)
  have "holds_all q1" "holds_none (snd (queue_path 8 root_reader [(7, q1)] ! 1))"
    using waiters_hold_no_locks [OF s] q1(2) unfolding p by (auto simp: reader_served_def root_reader_def)
  then show ?thesis using f(1) w s by blast
qed

end
