(* ===== verification/Spec2Isabelle.thy ===== *)
theory Spec2Isabelle
  imports Sessions Show_NAND Cache_FS Paged_Proto Buffers Fuse_Opt Record_Locks Cyc_Dirs Path_Queue
begin

text \<open>
  \<^bold>\<open>Cycology\<close>: a log-structured file system in user space (FUSE) on a virtual NAND memory,
  whose sources are in \<open>src/fuse-3.0.2/example\<close>. This development models its C code and
  the parts of libfuse its requests pass through, and proves what they guarantee.

  \<^bold>\<open>The program.\<close> \<open>makeVirtualNAND\<close> creates a file that stands for the memory: blocks of 16
  pages of 1048 bytes, written page after page and erased as a whole. \<open>makefs\<close> formats it: a
  super page, the map of virtual addresses, and a free list of blocks. The file system
  \<open>passthroughBlocked_fh.c\<close> is mounted on it: directories and names live in a directory of the
  host, where each file is a stub file with the file's number; the map leads from the
  number to the page with the header of the file's log, which holds its inode. A new file
  takes two slots of the map and a block. \<open>cache_code\<close> is the page cache that is to go below
  reading and writing. \<open>showNAND\<close> prints what is on the memory.

  \<^bold>\<open>The theories\<close>, from the bottom up, and what they model:

  \<^item> \<open>Cyc_Prelude\<close>: bytes, machine integers with C's wrap-around and truncating division,
    buffers of uninitialised memory, the generic lemmas of the development.
  \<^item> \<open>Disk_Formats\<close> (\<open>loggingDiskFormats.h\<close>, \<open>fuseLogging.h\<close>): the structures on the memory as
    records, with encoders and decoders at the offsets of the C layout; the locale of
    formats gives that decoding undoes encoding, for each of them by interpretation.
  \<^item> \<open>VNAND\<close> (\<open>vNANDlib.c\<close>, \<open>makeVirtualNAND.c\<close>): the memory as bytes of a file with a
    position. \<open>abs_nand\<close> abstracts it to blocks of pages with the next free page;
    \<open>writeNAND\<close>, \<open>readNAND\<close> and \<open>eraseNAND\<close> are shown to implement that. The locale
    \<open>page_store\<close> is the interface of sequential writing, interpreted on the writer.
  \<^item> \<open>Free_Space\<close> (\<open>helper.c\<close>, \<open>logs.c\<close>): \<open>getFreePtr\<close>, \<open>getFreeBlock\<close>, \<open>getFreePage\<close> and
    \<open>logs_recycle\<close>; \<open>slot_chain\<close> and \<open>partial_chain\<close> relate the lists threaded through the
    map and the pages to lists.
  \<^item> \<open>Makefs\<close> (\<open>makefs.c\<close>): what formatting leaves (\<open>formatted\<close>), and that it can be read back.
  \<^item> \<open>Host\<close>, \<open>Passthrough\<close> (\<open>passthroughBlocked_fh.c\<close>): the system calls of the host are a
    parameter of the handlers; \<open>posix\<close> is a flat name space of full paths of files and
    directories that instantiates it (it has no links and no \<open>..\<close>, and refuses to rename), and the locale \<open>stub_host\<close> says what the handlers of files need of it.
  \<^item> \<open>CYC_State\<close> (\<open>passthroughBlocked_fh.c\<close>, \<open>helper.c\<close>): the state of a mount, with a store of
    active logs, open files and handles by address; mounting and unmounting.
  \<^item> \<open>File_Handlers\<close>: creating, opening, releasing, unlinking, reading and writing files.
  \<^item> \<open>Sessions\<close>: any sequence of requests after formatting and mounting, as an inductive
    definition of the reachable states, with the invariant that ties stub files, map,
    header pages, table of open files and handles together.
  \<^item> \<open>Show_NAND\<close> (\<open>showNAND.c\<close>): the inspection program and what it prints.
  \<^item> \<open>DList\<close>, \<open>Page_Cache\<close>, \<open>Cache_Lists\<close>, \<open>Cache_FS\<close> (\<open>cache_code/cache.c\<close>, \<open>openFile.c\<close>,
    \<open>filesystem.c\<close>): doubly linked lists in a store and their interfaces (\<open>dl_list\<close>,
    \<open>dl_front\<close>, \<open>dl_back\<close>), the hash table of pages as a map (\<open>page_map\<close>), the lists of a
    file's pages and of files and pages by last use, and the layer that writes, gets and
    flushes pages.
  \<^item> \<open>Paged_Proto\<close> (\<open>JuliaRehaanExample/pageCache.c\<close>, \<open>fusexmp_fh.c\<close>): reading and writing
    files of the host by pages through a cache, in the prototype.
  \<^item> \<open>Buffers\<close> (\<open>lib/buffer.c\<close>): copying between vectors of buffers, behind \<open>xmp_write_buf\<close>.
  \<^item> \<open>Fuse_Opt\<close> (\<open>lib/fuse_opt.c\<close>): parsing of the command line.
  \<^item> \<open>Node_Table\<close>, \<open>Fuse_Nodes\<close>, \<open>Node_Requests\<close>, \<open>Node_Sessions\<close>, \<open>Node_Paths\<close> (\<open>lib/fuse.c\<close>):
    how libfuse turns the identifiers of the kernel into the paths the handlers get: hash
    tables that grow and shrink one bucket at a time, nodes with reference counts, the
    requests that look up, forget, remove and rename, any sequence of them, and paths with
    the locks along them.
  \<^item> \<open>Locked_Nodes\<close>, \<open>Fuse_Lib\<close>, \<open>Lib_Requests\<close> (\<open>lib/fuse.c\<close>, the functions \<open>fuse_lib_*\<close>): the
    requests of the kernel from identifiers to operations of the file system, which are a
    parameter. Requests on nodes do not depend on the locks held (\<open>relock\<close>), so what is
    shown of sessions without locks carries over to requests that hold paths.
  \<^item> \<open>Dir_Handles\<close>, \<open>Dir_Reading\<close>, \<open>Dir_Requests\<close>, \<open>Cyc_Dirs\<close> (\<open>lib/fuse.c\<close>, \<open>fuse_lib_opendir\<close> to
    \<open>fuse_lib_fsyncdir\<close>; \<open>lib/fuse_lowlevel.c\<close>, \<open>fuse_add_direntry\<close>): handles of directories and
    the callback that the file system delivers entries to. The file system is a parameter
    that gets the callback and an opaque buffer; the locale \<open>dir_server\<close> is what a client
    that reads to the end needs, interpreted on libfuse with a file system that delivers
    all at once and on libfuse with Cycology's \<open>xmp_readdir\<close>.
  \<^item> \<open>Path_Queue\<close> (\<open>lib/fuse.c\<close>): the queue of threads that wait for a path, as steps on its
    elements that interleave with any other requests.
  \<^item> \<open>Record_Locks\<close> (\<open>lib/fuse.c\<close>): locks on ranges of a file; the locale \<open>lock_book\<close> is what
    a keeper of locks promises, interpreted on the list that libfuse keeps.

  \<^bold>\<open>How C is modelled.\<close> \<open>int\<close>s are integers kept in range by \<open>int32\<close> where they may leave it;
  division is \<open>sdiv\<close>, \<open>smod\<close>. A function whose C code may access memory it must not returns an
  option, with \<open>None\<close> for undefined behaviour, so that a theorem with \<open>Some\<close> on the right
  says the code is safe there. \<open>None\<close> covers in particular a function without a return value
  (unlinking a file that is in the table of open files), an object that is copied beyond its end
  (opening a file that is not), a page that is freed twice (\<open>free_page\<close>) and an \<open>int\<close> that is
  counted past its maximum (\<open>inc_refctr\<close>). In the requests of libfuse it also stands for
  waiting and for \<open>abort\<close>, so that there only results with \<open>Some\<close> are shown. Uninitialised memory is a parameter \<open>u\<close> of type \<open>stack\<close>, over
  which theorems are general. \<open>malloc\<close> succeeds and returns addresses from a counter. Loops
  are recursion with a measure; those that may not end (walks along links in the store or
  on the memory, retries of short writes) are \<open>partial_function (option)\<close>, and the theorems
  about them say that they return. No function has fuel.

  \<^bold>\<open>Bounds.\<close> A device has at most 128009 blocks (\<open>nand_ok\<close>), the most for which its size fits
  an \<open>int\<close>; the map has 254 slots, as many as fit a page. A session of files creates a file only
  while two slots and two blocks are left and gets memory that does not hold 1 in \<open>modified\<close>
  (the program checks neither). A session of nodes looks up a name only while there are fewer
  than 2 ^ 31 - 2 nodes and no count of lookups is about to wrap. A session of locks assumes
  nothing of what the file system grants.

  \<^bold>\<open>What is shown.\<close> The memory library implements its abstract blocks; a formatted device can
  be mounted and all its free space is on the lists; unmounting and mounting again restores
  the state; pages of a log are handed out in an order the memory accepts; blocks are
  allocated and recycled as the lists say; in every session handles are counted, stub files
  name headers, every request has the stated result, and as many files as there is room for can be
  created; reading a directory is complete; the cache is a map as long as no page is stored
  twice, and its lists are lists; buffers are copied as one sequence; options survive
  joining and parsing; printing the free lists ends where links stay on the device, also if they are cyclic; libfuse finds every node the
  kernel knows, frees the others, and the path it gives for a node leads back to it; paths
  that are being changed are not handed out, waiting threads do not block each other and
  readers at the head of the queue do not wait for each other; requests call the file system with the right
  paths and leave no lock; a reply with directory entries keeps to its size and to its
  buffer, and a client gets every entry of a directory of Cycology once; the list of locks on ranges is exact, and
  write locks exclude each other as long as the file system grants none in conflict. Where the code falls short of
  what it means to do, the theorems say what it does instead: among others the last block
  that cannot be used, the page that a first block loses, files that stay open for ever,
  keys of the cache that collide, lists left with freed entries, directories that seem to end when a client
  seeks back after the end.

  \<^bold>\<open>Not modelled.\<close> The rest of libfuse (kernel protocol, threads, signals, mounting, slabs of
  nodes, extended attributes) and its examples; requests are run
  one at a time, so that one that has to wait for a path does not return, while the queue of
  waiting threads is modelled by itself; sessions of nodes are shown for the default configuration, which
  does not remember forgotten nodes; \<open>xmp_read_buf\<close>, whose first statement crashes; the copy of the handlers in
  \<open>cache_code\<close> and the design sketches \<open>example/cache.c\<close>, \<open>lru.c\<close>, \<open>openFile.c\<close> and
  \<open>metadata_tree*.c\<close>, which do not compile; the other handlers and the uncompilable files of
  \<open>JuliaRehaanExample\<close>; the older copies in \<open>vNAND\<close>; test drivers. Failures of \<open>malloc\<close> and of the host's disk are left out.
\<close>

end
